(* ===== verification/Sone_Prelude.thy ===== *)
theory Sone_Prelude
  imports Main "HOL-Library.Multiset"
begin

text \<open>
  Shared vocabulary of the development: the ways a C++ operation can fail, the result type and
  its sequencing combinator, the integer conversions of the C++ abstract machine on a 64-bit
  Linux target, reads and writes of a raw allocation, C strings and their case-insensitive
  comparison, and the generic lemmas on lists that the component theories use.
\<close>

named_theorems res_simps
  \<open>evaluation of the result combinator\<close>
named_theorems cint_simps
  \<open>integer conversions on values that are in range\<close>

section \<open>Results\<close>

text \<open>
  The ways an operation of the program can end other than by returning: an access outside an
  allocation, a null pointer dereference, a dereference of a freed object, the exceptions of the standard library
  (\<open>std::logic_error\<close>, \<open>std::out_of_range\<close>, \<open>std::length_error\<close>),
  a failed \<open>assert\<close>, a call of \<open>abort\<close> and an overflow of a signed integer.
\<close>

datatype cxx_error =
    Out_of_bounds
  | Null_deref
  | Use_after_free
  | Logic_error
  | Out_of_range
  | Length_error
  | Assert_failed
  | Aborted
  | Signed_overflow

type_synonym 'a result = "cxx_error + 'a"

definition and_then :: "'a result \<Rightarrow> ('a \<Rightarrow> 'b result) \<Rightarrow> 'b result" where
  "and_then r f = (case r of Inl e \<Rightarrow> Inl e | Inr x \<Rightarrow> f x)"

lemma and_then_simps [simp, res_simps]:
  "and_then (Inl e) f = Inl e"
  "and_then (Inr x) f = f x"
  by (simp_all add: and_then_def)

lemma and_then_eq_Inr_conv [res_simps]:
  "and_then r f = Inr y \<longleftrightarrow> (\<exists>x. r = Inr x \<and> f x = Inr y)"
  by (cases r) simp_all

lemma and_then_eq_Inl_conv [res_simps]:
  "and_then r f = Inl e \<longleftrightarrow> r = Inl e \<or> (\<exists>x. r = Inr x \<and> f x = Inl e)"
  by (cases r) simp_all

lemma and_then_assoc: "and_then (and_then r f) g = and_then r (\<lambda>x. and_then (f x) g)"
  by (cases r) simp_all

lemma and_then_cong [fundef_cong]:
  "r = r' \<Longrightarrow> (\<And>x. r' = Inr x \<Longrightarrow> f x = g x) \<Longrightarrow> and_then r f = and_then r' g"
  by (cases r') simp_all

section \<open>Integer conversions\<close>

text \<open>
  \<open>to_int32\<close> is the conversion to \<open>int\<close> (two's complement, as the compilers the
  repository is built with define it); \<open>to_size_t\<close> the conversion to the unsigned 64-bit
  \<open>size_t\<close>.  Mixed signed and unsigned arithmetic of the source is written with these
  two functions.
\<close>

definition to_int32 :: "int \<Rightarrow> int" where
  "to_int32 x = (x + 2 ^ 31) mod 2 ^ 32 - 2 ^ 31"

definition to_size_t :: "int \<Rightarrow> nat" where
  "to_size_t x = nat (x mod 2 ^ 64)"

text \<open>The remainder \<open>a % b\<close>, which has the sign of the dividend.\<close>

definition c_rem :: "int \<Rightarrow> int \<Rightarrow> int" where
  "c_rem a b = sgn a * (\<bar>a\<bar> mod \<bar>b\<bar>)"

lemma c_rem_nonneg: "0 \<le> a \<Longrightarrow> 0 < b \<Longrightarrow> c_rem a b = a mod b"
  by (cases "a = 0") (simp_all add: c_rem_def)

lemma to_int32_id [cint_simps]: "- (2 ^ 31) \<le> x \<Longrightarrow> x < 2 ^ 31 \<Longrightarrow> to_int32 x = x"
  by (simp add: to_int32_def)

lemma to_size_t_id [cint_simps]: "0 \<le> x \<Longrightarrow> x < 2 ^ 64 \<Longrightarrow> to_size_t x = nat x"
  by (simp add: to_size_t_def)

lemma to_size_t_neg [cint_simps]:
  "x < 0 \<Longrightarrow> - (2 ^ 63) \<le> x \<Longrightarrow> to_size_t x = nat (2 ^ 64 + x)"
proof -
  assume x: "x < 0" "- (2 ^ 63) \<le> x"
  have "x mod 2 ^ 64 = (x + 2 ^ 64) mod 2 ^ 64" by simp
  also have "\<dots> = x + 2 ^ 64" using x by (intro mod_pos_pos_trivial) simp_all
  finally show "to_size_t x = nat (2 ^ 64 + x)" by (simp add: to_size_t_def add.commute)
qed

lemma to_int32_range: "- (2 ^ 31) \<le> to_int32 x \<and> to_int32 x < 2 ^ 31"
proof -
  have "0 \<le> (x + 2 ^ 31) mod 2 ^ 32" and "(x + 2 ^ 31) mod 2 ^ 32 < 2 ^ 32"
    by simp_all
  then show ?thesis by (simp add: to_int32_def)
qed

section \<open>Raw memory\<close>

text \<open>
  An allocation is the list of its bytes.  A read or write that leaves it is
  \<^const>\<open>Out_of_bounds\<close>.
\<close>

definition mem_read :: "'a list \<Rightarrow> int \<Rightarrow> int \<Rightarrow> 'a list result" where
  "mem_read mem lo hi =
     (if 0 \<le> lo \<and> lo \<le> hi \<and> hi \<le> int (length mem)
      then Inr (take (nat (hi - lo)) (drop (nat lo) mem))
      else Inl Out_of_bounds)"

definition mem_write :: "'a list \<Rightarrow> int \<Rightarrow> 'a list \<Rightarrow> 'a list result" where
  "mem_write mem p xs =
     (if 0 \<le> p \<and> p + int (length xs) \<le> int (length mem)
      then Inr (take (nat p) mem @ xs @ drop (nat p + length xs) mem)
      else Inl Out_of_bounds)"

lemma mem_write_length:
  "mem_write mem p xs = Inr mem' \<Longrightarrow> length mem' = length mem"
  by (auto simp: mem_write_def split: if_splits)

section \<open>C strings\<close>

text \<open>
  \<open>c_str s\<close> is what a C function sees of a \<open>std::string\<close>: the bytes before the
  first NUL.  \<open>strcasecmp\<close> compares two such strings after \<open>tolower\<close> (in the
  C locale) on each byte; \<open>ci_key\<close> is the normal form it compares.
\<close>

definition nul :: char where
  "nul = CHR 0x00"

abbreviation CR :: char where
  "CR \<equiv> CHR 0x0D"

abbreviation LF :: char where
  "LF \<equiv> CHR 0x0A"

definition c_str :: "string \<Rightarrow> string" where
  "c_str s = takeWhile (\<lambda>c. c \<noteq> nul) s"

definition is_upper :: "char \<Rightarrow> bool" where
  "is_upper c \<longleftrightarrow> 65 \<le> (of_char c :: nat) \<and> (of_char c :: nat) \<le> 90"

definition is_lower :: "char \<Rightarrow> bool" where
  "is_lower c \<longleftrightarrow> 97 \<le> (of_char c :: nat) \<and> (of_char c :: nat) \<le> 122"

definition is_alpha :: "char \<Rightarrow> bool" where
  "is_alpha c \<longleftrightarrow> is_upper c \<or> is_lower c"

definition is_digit :: "char \<Rightarrow> bool" where
  "is_digit c \<longleftrightarrow> 48 \<le> (of_char c :: nat) \<and> (of_char c :: nat) \<le> 57"

definition tolower :: "char \<Rightarrow> char" where
  "tolower c = (if is_upper c then char_of ((of_char c :: nat) + 32) else c)"

definition ci_key :: "string \<Rightarrow> nat list" where
  "ci_key s = map (\<lambda>c. of_char (tolower c)) (c_str s)"

fun lex_less :: "nat list \<Rightarrow> nat list \<Rightarrow> bool" where
  "lex_less _ [] = False"
| "lex_less [] (y # ys) = True"
| "lex_less (x # xs) (y # ys) = (x < y \<or> x = y \<and> lex_less xs ys)"

definition CaseInsensitiveLess :: "string \<Rightarrow> string \<Rightarrow> bool" where
  "CaseInsensitiveLess lhs rhs = lex_less (ci_key lhs) (ci_key rhs)"

definition CaseInsensitiveEqual :: "string \<Rightarrow> string \<Rightarrow> bool" where
  "CaseInsensitiveEqual s1 s2 \<longleftrightarrow> ci_key s1 = ci_key s2"

lemma of_char_tolower:
  "of_char (tolower c) =
     (let n = of_char c :: nat in if 65 \<le> n \<and> n \<le> 90 then n + 32 else n)"
proof -
  have "of_char c < (256 :: nat)" by (rule nat_of_char_less_256)
  then show ?thesis by (simp add: tolower_def is_upper_def Let_def)
qed

lemma ci_key_simps:
  "ci_key [] = []"
  "ci_key (c # s) = (if c = nul then [] else of_char (tolower c) # ci_key s)"
  by (simp_all add: ci_key_def c_str_def)

lemma lex_less_irrefl [simp]: "\<not> lex_less xs xs"
  by (induction xs) simp_all

lemma lex_less_trans: "lex_less xs ys \<Longrightarrow> lex_less ys zs \<Longrightarrow> lex_less xs zs"
proof (induction xs ys arbitrary: zs rule: lex_less.induct)
  case (2 y ys)
  then show ?case by (cases zs) auto
next
  case (3 x xs y ys)
  then show ?case by (cases zs) auto
qed simp

lemma lex_less_total: "lex_less xs ys \<or> xs = ys \<or> lex_less ys xs"
proof (induction xs ys rule: lex_less.induct)
  case (1 xs)
  then show ?case by (cases xs) auto
qed auto

lemma lex_less_asym: "lex_less xs ys \<Longrightarrow> \<not> lex_less ys xs"
  using lex_less_trans lex_less_irrefl by blast

lemma c_str_id: "nul \<notin> set s \<Longrightarrow> c_str s = s"
  by (auto simp: c_str_def takeWhile_eq_all_conv)

lemma c_str_no_nul: "nul \<notin> set (c_str s)"
  by (auto simp: c_str_def dest: set_takeWhileD)

section \<open>Decimal numbers\<close>

text \<open>
  \<open>std::to_string\<close> of an unsigned number, and the value \<open>atoi\<close> reads from a string
  of digits.
\<close>

definition digit_char :: "nat \<Rightarrow> char" where
  "digit_char d = char_of (48 + d)"

definition digit_val :: "char \<Rightarrow> nat" where
  "digit_val c = of_char c - 48"

fun to_string :: "nat \<Rightarrow> string" where
  "to_string n = (if n < 10 then [digit_char n] else to_string (n div 10) @ [digit_char (n mod 10)])"

declare to_string.simps [simp del]

definition atoi :: "string \<Rightarrow> nat" where
  "atoi s = foldl (\<lambda>n c. 10 * n + digit_val c) 0 (takeWhile is_digit s)"

lemma digit_char_simps [simp]:
  "d < 10 \<Longrightarrow> digit_val (digit_char d) = d"
  "d < 10 \<Longrightarrow> is_digit (digit_char d)"
  by (simp_all add: digit_char_def digit_val_def is_digit_def)

lemma to_string_digits: "\<forall>c \<in> set (to_string n). is_digit c"
proof (induction n rule: to_string.induct)
  case (1 n)
  then show ?case by (subst to_string.simps) simp
qed

lemma atoi_to_string [simp]: "atoi (to_string n) = n"
proof -
  have "foldl (\<lambda>n c. 10 * n + digit_val c) 0 (to_string n) = n"
  proof (induction n rule: to_string.induct)
    case (1 n)
    then show ?case by (subst to_string.simps) simp
  qed
  moreover have "takeWhile is_digit (to_string n) = to_string n"
    using to_string_digits [of n] by (simp add: takeWhile_eq_all_conv)
  ultimately show ?thesis unfolding atoi_def by (simp only:)
qed

lemma digit_char_table:
  "digit_char 0 = CHR ''0''" "digit_char (Suc 0) = CHR ''1''" "digit_char 1 = CHR ''1''" "digit_char 2 = CHR ''2''"
  "digit_char 3 = CHR ''3''" "digit_char 4 = CHR ''4''" "digit_char 5 = CHR ''5''"
  "digit_char 6 = CHR ''6''" "digit_char 7 = CHR ''7''" "digit_char 8 = CHR ''8''"
  "digit_char 9 = CHR ''9''"
  by (simp_all add: digit_char_def char_of_def bit_0)

section \<open>Lists\<close>

text \<open>The position of the first element that satisfies a predicate, as \<open>std::find\<close>
  over a range returns it: the length of the list when there is none.\<close>

definition find_idx :: "('a \<Rightarrow> bool) \<Rightarrow> 'a list \<Rightarrow> nat" where
  "find_idx P xs = length (takeWhile (\<lambda>x. \<not> P x) xs)"

lemma find_idx_simps [simp]:
  "find_idx P [] = 0"
  "find_idx P (x # xs) = (if P x then 0 else Suc (find_idx P xs))"
  by (simp_all add: find_idx_def)

lemma find_idx_le: "find_idx P xs \<le> length xs"
  by (simp add: find_idx_def length_takeWhile_le)

lemma find_idx_less_iff: "find_idx P xs < length xs \<longleftrightarrow> (\<exists>x \<in> set xs. P x)"
  by (induction xs) auto

lemma find_idx_nth: "find_idx P xs < length xs \<Longrightarrow> P (xs ! find_idx P xs)"
  by (induction xs) auto

lemma find_idx_before: "i < find_idx P xs \<Longrightarrow> \<not> P (xs ! i)"
proof (induction xs arbitrary: i)
  case Nil
  then show ?case by simp
next
  case (Cons x xs)
  then show ?case by (cases i) (auto split: if_splits)
qed

lemma find_idx_append:
  "find_idx P (xs @ ys) =
     (if \<exists>x \<in> set xs. P x then find_idx P xs else length xs + find_idx P ys)"
  by (induction xs) auto

lemma find_idx_append_hit:
  "\<forall>x \<in> set xs. \<not> P x \<Longrightarrow> P y \<Longrightarrow> find_idx P (xs @ y # ys) = length xs"
  by (induction xs) auto

lemma find_idx_none: "\<forall>x \<in> set xs. \<not> P x \<Longrightarrow> find_idx P xs = length xs"
  by (induction xs) auto

text \<open>Small ranges, to check a statement about a table entry by entry.\<close>

lemma small_ranges:
  "[0..<5] = [0, 1, 2, 3, 4]"
  "[0..<7] = [0, 1, 2, 3, 4, 5, 6]"
  "[0..<12] = [0, 1, 2, 3, 4, 5, 6, 7, 8, 9, 10, 11]"
  "[0..<16] = [0, 1, 2, 3, 4, 5, 6, 7, 8, 9, 10, 11, 12, 13, 14, 15]"
  by code_simp+

lemma take_drop_splice:
  assumes "l + d \<le> length m"
  shows "take (d + length xs) (drop l (take (l + d) m @ xs @ ys)) = take d (drop l m) @ xs"
proof -
  have "drop l (take (l + d) m @ xs @ ys) = take d (drop l m) @ xs @ ys"
    using assms by (simp add: drop_take)
  moreover have "length (take d (drop l m)) = d" using assms by simp
  ultimately show ?thesis by (simp del: length_take length_drop)
qed

text \<open>Exchanging two cells of a list (\<open>std::swap\<close>).\<close>

definition list_swap :: "'a list \<Rightarrow> nat \<Rightarrow> nat \<Rightarrow> 'a list" where
  "list_swap xs i j = xs[i := xs ! j, j := xs ! i]"

lemma length_list_swap [simp]: "length (list_swap xs i j) = length xs"
  by (simp add: list_swap_def)

lemma nth_list_swap:
  "i < length xs \<Longrightarrow> j < length xs \<Longrightarrow> k < length xs \<Longrightarrow>
     list_swap xs i j ! k = (if k = i then xs ! j else if k = j then xs ! i else xs ! k)"
  by (auto simp: list_swap_def nth_list_update)

lemma mset_list_swap [simp]:
  "i < length xs \<Longrightarrow> j < length xs \<Longrightarrow> mset (list_swap xs i j) = mset xs"
  unfolding list_swap_def by (rule mset_swap)

lemma set_list_swap [simp]:
  "i < length xs \<Longrightarrow> j < length xs \<Longrightarrow> set (list_swap xs i j) = set xs"
  by (metis mset_list_swap set_mset_mset)

text \<open>Access to the cells of an array.\<close>

definition cell :: "'a list \<Rightarrow> nat \<Rightarrow> 'a result" where
  "cell v i = (if i < length v then Inr (v ! i) else Inl Out_of_bounds)"

definition set_cell :: "'a list \<Rightarrow> nat \<Rightarrow> 'a \<Rightarrow> 'a list result" where
  "set_cell v i x = (if i < length v then Inr (v[i := x]) else Inl Out_of_bounds)"

definition swap_cells :: "'a list \<Rightarrow> nat \<Rightarrow> nat \<Rightarrow> 'a list result" where
  "swap_cells v i j = (if i < length v \<and> j < length v then Inr (list_swap v i j) else Inl Out_of_bounds)"

lemma cell_ok: "i < length v \<Longrightarrow> cell v i = Inr (v ! i)"
  by (simp add: cell_def)

lemma set_cell_ok: "i < length v \<Longrightarrow> set_cell v i x = Inr (v[i := x])"
  by (simp add: set_cell_def)

lemma swap_cells_ok: "i < length v \<Longrightarrow> j < length v \<Longrightarrow> swap_cells v i j = Inr (list_swap v i j)"
  by (simp add: swap_cells_def)

lemmas cells_ok = cell_ok set_cell_ok swap_cells_ok

end
