(* ===== verification/Cxx_Map.thy ===== *)
theory Cxx_Map
  imports Sone_Prelude
begin

text \<open>
  \<open>std::map\<close> with a comparison object, as the sorted sequence of its entries: the order in
  which its iterators run.  Two keys are the same key when neither is less than the other.
  \<open>operator[]\<close> keeps the key that is already there and inserts a default value for a missing
  one, also when it is only read.

  The requirement C++ puts on the comparison (a strict weak order) is the locale
  \<open>strict_weak_order\<close>; the laws of the container are proved in it once and used through its
  two interpretations, for \<^const>\<open>CaseInsensitiveLess\<close> (the HTTP header tables) and for the order
  of \<open>std::string\<close> (the cookie tables).
\<close>

section \<open>Operations\<close>

fun map_find :: "('k \<Rightarrow> 'k \<Rightarrow> bool) \<Rightarrow> 'k \<Rightarrow> ('k \<times> 'v) list \<Rightarrow> ('k \<times> 'v) option" where
  "map_find lt k [] = None"
| "map_find lt k ((k', v) # m) =
     (if lt k' k then map_find lt k m else if lt k k' then None else Some (k', v))"

text \<open>\<open>m[k] = v\<close>.\<close>

fun map_assign :: "('k \<Rightarrow> 'k \<Rightarrow> bool) \<Rightarrow> 'k \<Rightarrow> 'v \<Rightarrow> ('k \<times> 'v) list \<Rightarrow> ('k \<times> 'v) list" where
  "map_assign lt k v [] = [(k, v)]"
| "map_assign lt k v ((k', v') # m) =
     (if lt k' k then (k', v') # map_assign lt k v m
      else if lt k k' then (k, v) # (k', v') # m
      else (k', v) # m)"

text \<open>\<open>m[k]\<close> as a value: the value and the map afterwards.\<close>

definition map_index ::
  "('k \<Rightarrow> 'k \<Rightarrow> bool) \<Rightarrow> 'v \<Rightarrow> 'k \<Rightarrow> ('k \<times> 'v) list \<Rightarrow> 'v \<times> ('k \<times> 'v) list" where
  "map_index lt dflt k m =
     (case map_find lt k m of
        Some (_, v) \<Rightarrow> (v, m)
      | None \<Rightarrow> (dflt, map_assign lt k dflt m))"

text \<open>\<open>m.insert({k, v})\<close>, which leaves an existing entry alone, and the construction from an
  initialiser list, which inserts its elements in order.\<close>

definition map_insert ::
  "('k \<Rightarrow> 'k \<Rightarrow> bool) \<Rightarrow> 'k \<times> 'v \<Rightarrow> ('k \<times> 'v) list \<Rightarrow> ('k \<times> 'v) list" where
  "map_insert lt e m =
     (case map_find lt (fst e) m of
        Some _ \<Rightarrow> m
      | None \<Rightarrow> map_assign lt (fst e) (snd e) m)"

definition map_init :: "('k \<Rightarrow> 'k \<Rightarrow> bool) \<Rightarrow> ('k \<times> 'v) list \<Rightarrow> ('k \<times> 'v) list" where
  "map_init lt es = fold (map_insert lt) es []"

definition map_lookup :: "('k \<Rightarrow> 'k \<Rightarrow> bool) \<Rightarrow> 'k \<Rightarrow> ('k \<times> 'v) list \<Rightarrow> 'v option" where
  "map_lookup lt k m = map_option snd (map_find lt k m)"

section \<open>The laws of the container\<close>

locale strict_weak_order =
  fixes lt :: "'k \<Rightarrow> 'k \<Rightarrow> bool"
  assumes irrefl: "\<not> lt x x"
    and trans: "lt x y \<Longrightarrow> lt y z \<Longrightarrow> lt x z"
    and neg_trans: "lt x z \<Longrightarrow> lt x y \<or> lt y z"
begin

definition eqv :: "'k \<Rightarrow> 'k \<Rightarrow> bool" where
  "eqv x y \<longleftrightarrow> \<not> lt x y \<and> \<not> lt y x"

definition ordered :: "('k \<times> 'v) list \<Rightarrow> bool" where
  "ordered m = sorted_wrt lt (map fst m)"

lemma asym: "lt x y \<Longrightarrow> \<not> lt y x"
  using trans irrefl by blast

lemma eqv_refl: "eqv x x"
  by (simp add: eqv_def irrefl)

lemma eqv_sym: "eqv x y \<Longrightarrow> eqv y x"
  by (simp add: eqv_def)

lemma eqv_trans: "eqv x y \<Longrightarrow> eqv y z \<Longrightarrow> eqv x z"
  unfolding eqv_def using neg_trans by blast

lemma eqv_less: "eqv x y \<Longrightarrow> lt x z = lt y z" "eqv x y \<Longrightarrow> lt z x = lt z y"
  unfolding eqv_def using neg_trans by blast+

lemma find_eqv: "eqv x y \<Longrightarrow> map_find lt x m = map_find lt y m"
  by (induction m) (auto simp: eqv_less)

lemma find_Some: "map_find lt k m = Some (k', v) \<Longrightarrow> (k', v) \<in> set m \<and> eqv k' k"
  by (induction m) (auto simp: eqv_def split: if_splits)

lemma ordered_Nil: "ordered []"
  by (simp add: ordered_def)

lemma keys_assign: "x \<in> fst ` set (map_assign lt k v m) \<Longrightarrow> x = k \<or> x \<in> fst ` set m"
proof (induction m)
  case (Cons e m)
  then show ?case by (cases e) (auto simp del: image_iff split: if_splits)
qed simp

lemma ordered_assign: "ordered m \<Longrightarrow> ordered (map_assign lt k v m)"
proof (induction m)
  case Nil
  then show ?case by (simp add: ordered_def)
next
  case (Cons e m)
  obtain k' v' where e: "e = (k', v')" by (cases e)
  from Cons.prems e have m: "ordered m" and k': "\<forall>x \<in> fst ` set m. lt k' x"
    by (auto simp: ordered_def)
  from m have IH: "ordered (map_assign lt k v m)" by (rule Cons.IH)
  have "\<forall>x \<in> fst ` set (map_assign lt k v m). lt k' x" if "lt k' k"
    using that k' keys_assign [of _ k v m] by blast
  then show ?case using IH e Cons.prems trans by (auto simp: ordered_def)
qed

lemma find_below: "\<forall>x \<in> fst ` set m. lt k x \<Longrightarrow> map_find lt k m = None"
  by (cases m) (auto dest: asym)

lemma find_assign:
  "ordered m \<Longrightarrow> map_find lt k' (map_assign lt k v m) =
     (if eqv k k' then
        Some (case map_find lt k m of Some (old, _) \<Rightarrow> (old, v) | None \<Rightarrow> (k, v))
      else map_find lt k' m)"
proof (induction m)
  case Nil
  then show ?case by (auto simp: eqv_def)
next
  case (Cons e m)
  obtain k0 v0 where e: "e = (k0, v0)" by (cases e)
  from Cons.prems e have m: "ordered m" by (simp add: ordered_def)
  consider (below) "lt k0 k" | (gt) "lt k k0" | (eq) "eqv k0 k"
    by (auto simp: eqv_def)
  then show ?case
  proof cases
    case below
    then show ?thesis using Cons.IH [OF m] e
      by (auto simp: eqv_less dest: asym)
  next
    case gt
    then show ?thesis using e by (auto simp: eqv_def dest: asym trans)
  next
    case eq
    then have n: "\<not> lt k0 k" "\<not> lt k k0" by (auto simp: eqv_def)
    have "eqv k k' \<longleftrightarrow> \<not> lt k0 k' \<and> \<not> lt k' k0"
      using eq by (metis eqv_def eqv_less)
    then show ?thesis using e n by auto
  qed
qed

lemma lookup_assign:
  "ordered m \<Longrightarrow> map_lookup lt k' (map_assign lt k v m) =
     (if eqv k k' then Some v else map_lookup lt k' m)"
  by (auto simp: map_lookup_def find_assign split: option.splits)

lemma ordered_insert: "ordered m \<Longrightarrow> ordered (map_insert lt e m)"
  by (auto simp: map_insert_def ordered_assign split: option.splits)

lemma lookup_insert:
  "ordered m \<Longrightarrow> map_lookup lt k' (map_insert lt e m) =
     (if eqv (fst e) k' \<and> map_lookup lt (fst e) m = None then Some (snd e) else map_lookup lt k' m)"
  by (auto simp: map_insert_def map_lookup_def find_assign split: option.splits)

lemma ordered_init: "ordered (map_init lt es)"
proof -
  have "ordered m \<Longrightarrow> ordered (fold (map_insert lt) es m)" for m
    by (induction es arbitrary: m) (auto simp: ordered_insert)
  then show ?thesis by (simp add: map_init_def ordered_Nil)
qed

text \<open>A map built from an initialiser list holds the first entry of the list for each key.\<close>

lemma find_insert:
  "ordered m \<Longrightarrow> map_find lt k (map_insert lt e m) =
     (case map_find lt k m of Some r \<Rightarrow> Some r | None \<Rightarrow> if eqv (fst e) k then Some e else None)"
  by (cases e) (auto simp: map_insert_def find_assign find_eqv split: option.splits)

lemma find_fold_insert:
  "ordered m \<Longrightarrow> map_find lt k (fold (map_insert lt) es m) =
     (case map_find lt k m of Some r \<Rightarrow> Some r | None \<Rightarrow> find (\<lambda>e. eqv (fst e) k) es)"
proof (induction es arbitrary: m)
  case Nil
  then show ?case by (simp split: option.splits)
next
  case (Cons e es)
  then show ?case
    by (auto simp: ordered_insert find_insert split: option.splits)
qed

lemma find_init: "map_find lt k (map_init lt es) = find (\<lambda>e. eqv (fst e) k) es"
  by (simp add: map_init_def find_fold_insert ordered_Nil)

lemma index_value:
  "fst (map_index lt d k m) = (case map_lookup lt k m of Some v \<Rightarrow> v | None \<Rightarrow> d)"
  by (auto simp: map_index_def map_lookup_def split: option.splits)

lemma ordered_index: "ordered m \<Longrightarrow> ordered (snd (map_index lt d k m))"
  by (auto simp: map_index_def ordered_assign split: option.splits)

lemma lookup_index:
  assumes "ordered m"
  shows "map_lookup lt k' (snd (map_index lt d k m)) =
     (if eqv k k' \<and> map_lookup lt k m = None then Some d else map_lookup lt k' m)"
  using assms
  by (auto simp: map_index_def map_lookup_def find_assign split: option.splits)

lemma lookup_eqv: "eqv x y \<Longrightarrow> map_lookup lt x m = map_lookup lt y m"
  by (simp add: map_lookup_def find_eqv)

text \<open>What \<open>m[k]\<close> reads after an assignment, and after another read.\<close>

lemma index_assign:
  "ordered m \<Longrightarrow> fst (map_index lt d k' (map_assign lt k v m)) = (if eqv k k' then v else fst (map_index lt d k' m))"
  by (simp add: index_value lookup_assign)

lemma index_index: "ordered m \<Longrightarrow> fst (map_index lt d k' (snd (map_index lt d k m))) = fst (map_index lt d k' m)"
  using lookup_eqv [of k k' m] by (auto simp: index_value lookup_index split: option.splits)

end

section \<open>The two orders of the program\<close>

definition string_less :: "string \<Rightarrow> string \<Rightarrow> bool" where
  "string_less a b = lex_less (map of_char a) (map of_char b)"

lemma lex_less_neg_trans: "lex_less x z \<Longrightarrow> lex_less x y \<or> lex_less y z"
  using lex_less_total lex_less_trans by metis

interpretation cim: strict_weak_order CaseInsensitiveLess
  by unfold_locales
    (auto simp: CaseInsensitiveLess_def intro: lex_less_trans dest: lex_less_neg_trans)

interpretation strm: strict_weak_order string_less
  by unfold_locales
    (auto simp: string_less_def intro: lex_less_trans dest: lex_less_neg_trans)

lemma cim_eqv: "cim.eqv a b \<longleftrightarrow> CaseInsensitiveEqual a b"
  unfolding cim.eqv_def CaseInsensitiveLess_def CaseInsensitiveEqual_def
  using lex_less_total by auto

lemma strm_eqv: "strm.eqv a b \<longleftrightarrow> a = b"
proof -
  have "inj (of_char :: char \<Rightarrow> nat)" by (simp add: inj_on_def)
  then have "map of_char a = (map of_char b :: nat list) \<longleftrightarrow> a = b" by simp
  then show ?thesis
    unfolding strm.eqv_def string_less_def using lex_less_total [of "map of_char a" "map of_char b"]
    by auto
qed

end
