(* ===== verification/Http_Message.thy ===== *)
theory Http_Message
  imports Cxx_Map
begin

text \<open>
  The HTTP vocabulary of \<^verbatim>\<open>src/http_server/http.h\<close> and \<^verbatim>\<open>http.cpp\<close>: the
  enumerations, the tables that translate them from and to text, the request and the response
  with their accessors, and the serialisation of a response.

  The header, parameter and cookie tables are \<open>std::map\<close> objects and so sorted association
  lists (see \<^verbatim>\<open>Cxx_Map\<close>).  A getter that reads through \<open>operator[]\<close> returns the value
  and the object with the entry it may have inserted.
\<close>

section \<open>Enumerations\<close>

datatype http_method = UNKNOW | GET | HEAD | POST | PUT | TRACE | OPTIONS | DELETE

datatype http_scheme = UNKNOW | HTTP | HTTPS

datatype http_version = UNKNOW | HTTP10 | HTTP11

datatype http_headers =
    UNKNOW | Connection | Date | MIME_Version | Trailer | Transfer_Encoding
  | Update | Via | Cache_Control | Pragma | Client_Ip | Host
  | User_Agent | Accept | Accept_Charset | Accept_Encoding | Accept_Language | Authorization
  | Cookie | Upgrade_Insecure_Requests | Sec_Fetch_User | Sec_Fetch_Site | Sec_Fetch_Mode | Purpose
  | If_Modified_Since | Referer | Origin | Age | Public | Server
  | Title | Set_Cookie | Expires | Location | Content_Base | Content_Encoding
  | Content_Language | Content_Length | Content_Location | Content_MD5 | Content_Range | Content_Type
  | Last_Modified

datatype http_resp_state =
    UNKNOW | Continue | OK | Not_Modified | Not_Found | Bad_Request | Forbidden
  | Internal_Server_Error | HTTP_Version_Not_Supported

datatype http_line_state = LINE_OK | LINE_ERROR | LINE_MORE

datatype req_check_state = CHECK_REQUESTLINE | CHECK_HEADER | CHECK_CONTENT

section \<open>Text of the enumerations\<close>

definition RESPSTATES :: "(nat \<times> string) list" where
  "RESPSTATES = map_init (<)
     [(100, ''CONTINUE''), (200, ''OK''), (400, ''Bad Request''), (403, ''Forbidden''),
      (404, ''Not Found''), (500, ''Internal Server Error''), (505, ''HTTP_Version_Not_Supported'')]"

definition METHODS :: "(string \<times> http_method) list" where
  "METHODS = map_init CaseInsensitiveLess
     [(''GET'', GET), (''POST'', POST), (''HEAD'', HEAD), (''PUT'', PUT), (''TRACE'', TRACE),
      (''OPTIONS'', OPTIONS), (''DELETE'', DELETE)]"

fun ConvertHeaderToString :: "http_headers \<Rightarrow> string" where
  "ConvertHeaderToString http_headers.UNKNOW = ''UNKNOW''"
| "ConvertHeaderToString Connection = ''Connection''"
| "ConvertHeaderToString Date = ''Date''"
| "ConvertHeaderToString MIME_Version = ''MIME-Version''"
| "ConvertHeaderToString Trailer = ''Trailer''"
| "ConvertHeaderToString Transfer_Encoding = ''Transfer-Encoding''"
| "ConvertHeaderToString Update = ''Update''"
| "ConvertHeaderToString Via = ''Via''"
| "ConvertHeaderToString Cache_Control = ''Cache-Control''"
| "ConvertHeaderToString Pragma = ''Pragma''"
| "ConvertHeaderToString Client_Ip = ''Client-Ip''"
| "ConvertHeaderToString Host = ''Host''"
| "ConvertHeaderToString User_Agent = ''User-Agent''"
| "ConvertHeaderToString Accept = ''Accept''"
| "ConvertHeaderToString Accept_Charset = ''Accept-Charset''"
| "ConvertHeaderToString Accept_Encoding = ''Accept-Encoding''"
| "ConvertHeaderToString Accept_Language = ''Accept-Language''"
| "ConvertHeaderToString Authorization = ''Authorization''"
| "ConvertHeaderToString Cookie = ''Cookie''"
| "ConvertHeaderToString Upgrade_Insecure_Requests = ''Upgrade-Insecure-Requests''"
| "ConvertHeaderToString Sec_Fetch_Mode = ''Sec-Fetch-Mode''"
| "ConvertHeaderToString Sec_Fetch_Site = ''Sec-Fetch-Site''"
| "ConvertHeaderToString Sec_Fetch_User = ''Sec-Fetch-User''"
| "ConvertHeaderToString Purpose = ''Purpose''"
| "ConvertHeaderToString If_Modified_Since = ''If-Modified-Since''"
| "ConvertHeaderToString Referer = ''Referer''"
| "ConvertHeaderToString Origin = ''Origin''"
| "ConvertHeaderToString Age = ''Age''"
| "ConvertHeaderToString Public = ''Public''"
| "ConvertHeaderToString Server = ''Server''"
| "ConvertHeaderToString Title = ''Title''"
| "ConvertHeaderToString Set_Cookie = ''Set-Cookie''"
| "ConvertHeaderToString Expires = ''Expires''"
| "ConvertHeaderToString Location = ''Location''"
| "ConvertHeaderToString Content_Base = ''Content-Base''"
| "ConvertHeaderToString Content_Encoding = ''Content-Encoding''"
| "ConvertHeaderToString Content_Language = ''Content-Language''"
| "ConvertHeaderToString Content_Length = ''Content-Length''"
| "ConvertHeaderToString Content_Location = ''Content-Location''"
| "ConvertHeaderToString Content_MD5 = ''Content-MD5''"
| "ConvertHeaderToString Content_Range = ''Content-Range''"
| "ConvertHeaderToString Content_Type = ''Content-Type''"
| "ConvertHeaderToString Last_Modified = ''Last-Modified''"

definition HEADERS :: "(string \<times> http_headers) list" where
  "HEADERS = map_init CaseInsensitiveLess
     (map (\<lambda>s. (ConvertHeaderToString s, s))
       [Connection, Date, MIME_Version, Trailer, Transfer_Encoding, Update,
        Via, Cache_Control, Pragma, Client_Ip, Host, User_Agent,
        Accept, Accept_Charset, Accept_Encoding, Accept_Language, Authorization, Cookie,
        Upgrade_Insecure_Requests, Sec_Fetch_User, Sec_Fetch_Site, Sec_Fetch_Mode, Purpose, If_Modified_Since,
        Referer, Origin, Age, Public, Server, Title,
        Set_Cookie, Expires, Location, Content_Base, Content_Encoding, Content_Language,
        Content_Length, Content_Location, Content_MD5, Content_Range, Content_Type] @
      [(''Last-Modified'', Last_Modified)])"

fun ConvertRespStateToString :: "http_resp_state \<Rightarrow> string" where
  "ConvertRespStateToString http_resp_state.UNKNOW = ''UNKNOW''"
| "ConvertRespStateToString OK = ''OK''"
| "ConvertRespStateToString Not_Modified = ''Not Modified''"
| "ConvertRespStateToString Bad_Request = ''Bad Request''"
| "ConvertRespStateToString Continue = ''Continue''"
| "ConvertRespStateToString Forbidden = ''Forbidden''"
| "ConvertRespStateToString HTTP_Version_Not_Supported = ''HTTP Version Not Supported''"
| "ConvertRespStateToString Internal_Server_Error = ''Internal Server Error''"
| "ConvertRespStateToString Not_Found = ''Not Found''"

definition ConvertMethodToString :: "http_method \<Rightarrow> string" where
  "ConvertMethodToString method =
     (case method of
        GET \<Rightarrow> ''GET''
      | DELETE \<Rightarrow> ''DELETE''
      | HEAD \<Rightarrow> ''HEAD''
      | OPTIONS \<Rightarrow> ''OPTIONS''
      | POST \<Rightarrow> ''POST''
      | PUT \<Rightarrow> ''PUT''
      | TRACE \<Rightarrow> ''TRACE''
      | _ \<Rightarrow> ''UNKNOW'')"

definition ConvertStringToMethod :: "string \<Rightarrow> http_method" where
  "ConvertStringToMethod s =
     (case map_find CaseInsensitiveLess s METHODS of
        None \<Rightarrow> http_method.UNKNOW
      | Some _ \<Rightarrow> fst (map_index CaseInsensitiveLess http_method.UNKNOW s METHODS))"

definition ConvertStringToHeader :: "string \<Rightarrow> http_headers" where
  "ConvertStringToHeader s =
     (case map_find CaseInsensitiveLess s HEADERS of
        Some (_, h) \<Rightarrow> h
      | None \<Rightarrow> http_headers.UNKNOW)"

section \<open>HttpRequest\<close>

type_synonym ci_map = "(string \<times> string) list"

record HttpRequest =
  req_func :: http_method
  rq_scheme :: http_scheme
  rq_headers :: ci_map
  rq_params :: ci_map
  rq_cookies :: "(string \<times> string) list"
  rq_url :: string
  rq_version :: http_version
  rq_content :: string
  query_string :: string

definition HttpRequest_new :: HttpRequest where
  "HttpRequest_new =
     \<lparr>req_func = http_method.UNKNOW, rq_scheme = http_scheme.UNKNOW, rq_headers = [],
      rq_params = [], rq_cookies = [], rq_url = [], rq_version = http_version.UNKNOW,
      rq_content = [], query_string = []\<rparr>"

definition getParam :: "string \<Rightarrow> HttpRequest \<Rightarrow> string \<times> HttpRequest" where
  "getParam key r =
     (let (v, ps) = map_index CaseInsensitiveLess [] key (rq_params r) in (v, r\<lparr>rq_params := ps\<rparr>))"

definition getCookie :: "string \<Rightarrow> HttpRequest \<Rightarrow> string \<times> HttpRequest" where
  "getCookie key r =
     (let (v, cs) = map_index string_less [] key (rq_cookies r) in (v, r\<lparr>rq_cookies := cs\<rparr>))"

definition getHeader :: "string \<Rightarrow> HttpRequest \<Rightarrow> string \<times> HttpRequest" where
  "getHeader header r =
     (case map_find CaseInsensitiveLess header HEADERS of
        None \<Rightarrow> (''UNKNOW'', r)
      | Some (k, _) \<Rightarrow>
          let (v, hs) = map_index CaseInsensitiveLess [] k (rq_headers r)
          in (v, r\<lparr>rq_headers := hs\<rparr>))"

definition setHeader :: "string \<Rightarrow> string \<Rightarrow> HttpRequest \<Rightarrow> bool \<times> HttpRequest" where
  "setHeader key val r =
     (case map_find CaseInsensitiveLess key HEADERS of
        None \<Rightarrow> (False, r)
      | Some (_, h) \<Rightarrow>
          (True, r\<lparr>rq_headers :=
             map_assign CaseInsensitiveLess (ConvertHeaderToString h) val (rq_headers r)\<rparr>))"

definition setParam :: "string \<Rightarrow> string \<Rightarrow> HttpRequest \<Rightarrow> HttpRequest" where
  "setParam key val r = r\<lparr>rq_params := map_assign CaseInsensitiveLess key val (rq_params r)\<rparr>"

definition setCookie :: "string \<Rightarrow> string \<Rightarrow> HttpRequest \<Rightarrow> HttpRequest" where
  "setCookie key val r = r\<lparr>rq_cookies := map_assign string_less key val (rq_cookies r)\<rparr>"

definition setMethod :: "http_method \<Rightarrow> HttpRequest \<Rightarrow> HttpRequest" where
  "setMethod method r = r\<lparr>req_func := method\<rparr>"

definition setScheme :: "http_scheme \<Rightarrow> HttpRequest \<Rightarrow> HttpRequest" where
  "setScheme scheme r = r\<lparr>rq_scheme := scheme\<rparr>"

definition setVersion :: "http_version \<Rightarrow> HttpRequest \<Rightarrow> HttpRequest" where
  "setVersion ver r = r\<lparr>rq_version := ver\<rparr>"

definition setRequestUrl :: "string \<Rightarrow> HttpRequest \<Rightarrow> HttpRequest" where
  "setRequestUrl url r = r\<lparr>rq_url := url\<rparr>"

definition setContent :: "string \<Rightarrow> HttpRequest \<Rightarrow> HttpRequest" where
  "setContent content r = r\<lparr>rq_content := content\<rparr>"

definition setQueryString :: "string \<Rightarrow> HttpRequest \<Rightarrow> HttpRequest" where
  "setQueryString query_str r = r\<lparr>query_string := query_str\<rparr>"

section \<open>HttpResponse\<close>

record HttpResponse =
  rs_state :: http_resp_state
  rs_version :: http_version
  rs_headers :: ci_map
  rs_cookies :: "(string \<times> string) list"
  rs_content :: string
  rs_len :: nat

text \<open>The constructor does not initialise \<open>_len\<close>; its first value is an argument.\<close>

definition HttpResponse_new :: "nat \<Rightarrow> HttpResponse" where
  "HttpResponse_new len0 =
     \<lparr>rs_state = http_resp_state.UNKNOW, rs_version = http_version.UNKNOW, rs_headers = [],
      rs_cookies = [], rs_content = [], rs_len = len0\<rparr>"

definition setRespState :: "http_resp_state \<Rightarrow> HttpResponse \<Rightarrow> HttpResponse" where
  "setRespState state r = r\<lparr>rs_state := state\<rparr>"

definition resp_setVersion :: "http_version \<Rightarrow> HttpResponse \<Rightarrow> HttpResponse" where
  "resp_setVersion ver r = r\<lparr>rs_version := ver\<rparr>"

definition resp_setContent :: "string \<Rightarrow> HttpResponse \<Rightarrow> HttpResponse" where
  "resp_setContent content r = r\<lparr>rs_content := content\<rparr>"

definition resp_setCookie :: "string \<Rightarrow> string \<Rightarrow> HttpResponse \<Rightarrow> HttpResponse" where
  "resp_setCookie key val r = r\<lparr>rs_cookies := map_assign string_less key val (rs_cookies r)\<rparr>"

definition resp_getCookie :: "string \<Rightarrow> HttpResponse \<Rightarrow> string \<times> HttpResponse" where
  "resp_getCookie key r =
     (let (v, cs) = map_index string_less [] key (rs_cookies r) in (v, r\<lparr>rs_cookies := cs\<rparr>))"

definition resp_setHeader :: "string \<Rightarrow> string \<Rightarrow> HttpResponse \<Rightarrow> bool \<times> HttpResponse" where
  "resp_setHeader key val r =
     (case map_find CaseInsensitiveLess key HEADERS of
        None \<Rightarrow> (False, r)
      | Some (_, h) \<Rightarrow>
          (True, r\<lparr>rs_headers :=
             map_assign CaseInsensitiveLess (ConvertHeaderToString h) val (rs_headers r)\<rparr>))"

definition resp_getHeader :: "string \<Rightarrow> HttpResponse \<Rightarrow> string \<times> HttpResponse" where
  "resp_getHeader header r =
     (case map_find CaseInsensitiveLess header HEADERS of
        None \<Rightarrow> (''UNKNOW'', r)
      | Some (k, _) \<Rightarrow>
          let (v, hs) = map_index CaseInsensitiveLess [] k (rs_headers r)
          in (v, r\<lparr>rs_headers := hs\<rparr>))"

definition CRLF :: string where
  "CRLF = [CR, LF]"

definition version_text :: "http_version \<Rightarrow> string" where
  "version_text ver =
     (if ver = HTTP10 then ''HTTP/1.0 '' else if ver = HTTP11 then ''HTTP/1.1 '' else [])"

fun state_text :: "http_resp_state \<Rightarrow> string" where
  "state_text Continue = ''100 Continue'' @ CRLF"
| "state_text OK = ''200 OK'' @ CRLF"
| "state_text Not_Modified = ''304 Not Modified'' @ CRLF"
| "state_text Not_Found = ''404 Not Found'' @ CRLF"
| "state_text Bad_Request = ''400 Bad Request'' @ CRLF"
| "state_text Forbidden = ''403 Forbidden'' @ CRLF"
| "state_text Internal_Server_Error = ''500 Internal Server Error'' @ CRLF"
| "state_text HTTP_Version_Not_Supported = ''505 HTTP Version Not Supported'' @ CRLF"
| "state_text http_resp_state.UNKNOW = []"

definition toString :: "HttpResponse \<Rightarrow> string \<times> HttpResponse" where
  "toString r =
     (let res = version_text (rs_version r) @ state_text (rs_state r);
          res = fold (\<lambda>(k, v) res. res @ k @ '': '' @ v @ CRLF) (rs_headers r) res;
          res = res @ CRLF @ rs_content r
      in (res, r\<lparr>rs_len := length res\<rparr>))"

section \<open>The tables\<close>

text \<open>The header names, as the table lists them.\<close>

definition known_headers :: "http_headers list" where
  "known_headers =
     [Connection, Date, MIME_Version, Trailer, Transfer_Encoding, Update,
      Via, Cache_Control, Pragma, Client_Ip, Host, User_Agent,
      Accept, Accept_Charset, Accept_Encoding, Accept_Language, Authorization, Cookie,
      Upgrade_Insecure_Requests, Sec_Fetch_User, Sec_Fetch_Site, Sec_Fetch_Mode, Purpose, If_Modified_Since,
      Referer, Origin, Age, Public, Server, Title,
      Set_Cookie, Expires, Location, Content_Base, Content_Encoding, Content_Language,
      Content_Length, Content_Location, Content_MD5, Content_Range, Content_Type, Last_Modified]"

lemma HEADERS_known:
  "HEADERS = map_init CaseInsensitiveLess (map (\<lambda>h. (ConvertHeaderToString h, h)) known_headers)"
  by (simp add: HEADERS_def known_headers_def)

lemma set_known_headers: "h \<in> set known_headers \<longleftrightarrow> h \<noteq> http_headers.UNKNOW"
  by (cases h) (simp_all add: known_headers_def)

lemma find_HEADERS:
  "map_find CaseInsensitiveLess s HEADERS =
     map_option (\<lambda>h. (ConvertHeaderToString h, h))
       (find (\<lambda>h. CaseInsensitiveEqual (ConvertHeaderToString h) s) known_headers)"
proof -
  have "find P (map f xs) = map_option f (find (\<lambda>x. P (f x)) xs)"
    for P and f :: "http_headers \<Rightarrow> string \<times> http_headers" and xs
    by (induction xs) auto
  then show ?thesis unfolding HEADERS_known cim.find_init cim_eqv by simp
qed

lemma header_names_distinct: "distinct (map (\<lambda>h. ci_key (ConvertHeaderToString h)) known_headers)"
  by (simp add: known_headers_def ci_key_simps of_char_tolower nul_def)

lemma header_name_inj:
  assumes "h \<noteq> http_headers.UNKNOW" and "h' \<noteq> http_headers.UNKNOW"
    and "CaseInsensitiveEqual (ConvertHeaderToString h) (ConvertHeaderToString h')"
  shows "h = h'"
  using header_names_distinct assms
  by (auto simp: distinct_map CaseInsensitiveEqual_def set_known_headers dest: inj_onD)

lemma CaseInsensitiveEqual_sym: "CaseInsensitiveEqual a b = CaseInsensitiveEqual b a"
  by (auto simp: CaseInsensitiveEqual_def)

lemma find_HEADERS_hit:
  assumes "h \<noteq> http_headers.UNKNOW" and "CaseInsensitiveEqual s (ConvertHeaderToString h)"
  shows "map_find CaseInsensitiveLess s HEADERS = Some (ConvertHeaderToString h, h)"
proof -
  let ?P = "\<lambda>h. CaseInsensitiveEqual (ConvertHeaderToString h) s"
  have "h \<in> set known_headers" "?P h"
    using assms by (simp_all add: set_known_headers CaseInsensitiveEqual_sym)
  then obtain h' where f: "find ?P known_headers = Some h'"
    by (cases "find ?P known_headers") (auto simp: find_None_iff)
  then have "h' \<in> set known_headers" "?P h'" by (auto simp: find_Some_iff)
  then have "h' = h"
    using assms header_name_inj [of h' h] by (auto simp: set_known_headers CaseInsensitiveEqual_def)
  with f show ?thesis by (simp add: find_HEADERS)
qed

lemma find_HEADERS_Some:
  assumes "map_find CaseInsensitiveLess s HEADERS = Some (k, h)"
  shows "h \<noteq> http_headers.UNKNOW \<and> k = ConvertHeaderToString h \<and> CaseInsensitiveEqual s k"
  using assms
  by (auto simp: find_HEADERS find_Some_iff set_known_headers CaseInsensitiveEqual_sym
      intro: nth_mem simp flip: set_known_headers)

lemma header_name_chars:
  "\<forall>c \<in> set (ConvertHeaderToString h). c \<noteq> CR \<and> c \<noteq> LF \<and> c \<noteq> CHR '':'' \<and> c \<noteq> nul"
  by (cases h) (simp_all add: nul_def)

lemma find_METHODS:
  "map_find CaseInsensitiveLess s METHODS =
     find (\<lambda>e. CaseInsensitiveEqual (fst e) s)
     [(''GET'', GET), (''POST'', POST), (''HEAD'', HEAD), (''PUT'', PUT), (''TRACE'', TRACE),
      (''OPTIONS'', OPTIONS), (''DELETE'', DELETE)]"
  unfolding METHODS_def cim.find_init cim_eqv by (rule refl)

lemma ConvertStringToMethod_eq:
  "ConvertStringToMethod s =
     (case map_find CaseInsensitiveLess s METHODS of None \<Rightarrow> http_method.UNKNOW | Some (_, m) \<Rightarrow> m)"
  by (auto simp: ConvertStringToMethod_def map_index_def split: option.splits)

lemma method_names_distinct:
  "distinct (map (\<lambda>h. ci_key (fst h)) [(''GET'', GET), (''POST'', POST), (''HEAD'', HEAD),
     (''PUT'', PUT), (''TRACE'', TRACE), (''OPTIONS'', OPTIONS), (''DELETE'', DELETE)])"
  by (simp add: ci_key_simps of_char_tolower nul_def)

definition resp_code :: "http_resp_state \<Rightarrow> nat" where
  "resp_code st =
     (case st of
        http_resp_state.UNKNOW \<Rightarrow> 1
      | Continue \<Rightarrow> 100
      | OK \<Rightarrow> 200
      | Not_Modified \<Rightarrow> 304
      | Not_Found \<Rightarrow> 404
      | Bad_Request \<Rightarrow> 400
      | Forbidden \<Rightarrow> 403
      | Internal_Server_Error \<Rightarrow> 500
      | HTTP_Version_Not_Supported \<Rightarrow> 505)"

lemma state_text_code:
  "st \<noteq> http_resp_state.UNKNOW \<Longrightarrow>
     state_text st = to_string (resp_code st) @ '' '' @ ConvertRespStateToString st @ CRLF"
  by (cases st) (simp_all add: resp_code_def to_string.simps digit_char_table)

section \<open>Header tables\<close>

text \<open>Every key of a header table is the canonical name of a known header.\<close>

definition header_table :: "ci_map \<Rightarrow> bool" where
  "header_table m \<longleftrightarrow>
     cim.ordered m \<and>
     (\<forall>(k, v) \<in> set m. \<exists>h. h \<noteq> http_headers.UNKNOW \<and> k = ConvertHeaderToString h)"

definition request_inv :: "HttpRequest \<Rightarrow> bool" where
  "request_inv r \<longleftrightarrow>
     header_table (rq_headers r) \<and> cim.ordered (rq_params r) \<and> strm.ordered (rq_cookies r)"

definition response_inv :: "HttpResponse \<Rightarrow> bool" where
  "response_inv r \<longleftrightarrow> header_table (rs_headers r) \<and> strm.ordered (rs_cookies r)"

text \<open>The value a table has for a header, the empty string when it has none.\<close>

definition header_value :: "ci_map \<Rightarrow> http_headers \<Rightarrow> string" where
  "header_value m h =
     (case map_lookup CaseInsensitiveLess (ConvertHeaderToString h) m of Some v \<Rightarrow> v | None \<Rightarrow> [])"

lemma set_map_assign:
  "(k', v') \<in> set (map_assign lt k v m) \<Longrightarrow> k' = k \<or> k' \<in> fst ` set m"
  by (induction m) (force split: if_splits)+

lemma header_table_Nil [simp]: "header_table []"
  by (simp add: header_table_def cim.ordered_Nil)

lemma header_table_assign:
  assumes "header_table m" and "h \<noteq> http_headers.UNKNOW"
  shows "header_table (map_assign CaseInsensitiveLess (ConvertHeaderToString h) v m)"
proof -
  have "\<exists>h. h \<noteq> http_headers.UNKNOW \<and> k' = ConvertHeaderToString h"
    if "(k', v') \<in> set (map_assign CaseInsensitiveLess (ConvertHeaderToString h) v m)" for k' v'
    using set_map_assign [OF that] assms by (fastforce simp: header_table_def)
  then show ?thesis using assms by (auto simp: header_table_def cim.ordered_assign)
qed

lemma header_value_assign:
  assumes "header_table m" and "h \<noteq> http_headers.UNKNOW" and "h' \<noteq> http_headers.UNKNOW"
  shows "header_value (map_assign CaseInsensitiveLess (ConvertHeaderToString h) v m) h' =
    (if h = h' then v else header_value m h')"
  using assms header_name_inj [of h h']
  by (auto simp: header_value_def cim.lookup_assign header_table_def cim_eqv CaseInsensitiveEqual_def)

lemma header_table_index:
  assumes "header_table m" and "h \<noteq> http_headers.UNKNOW"
  shows "header_table (snd (map_index CaseInsensitiveLess [] (ConvertHeaderToString h) m))"
  using assms by (auto simp: map_index_def header_table_assign split: option.splits)

lemma header_value_index:
  assumes "header_table m"
  shows "header_value (snd (map_index CaseInsensitiveLess [] k m)) h' = header_value m h'"
  using assms cim.lookup_eqv [of k "ConvertHeaderToString h'" m]
  by (auto simp: header_value_def cim.lookup_index header_table_def split: option.splits)

lemma fst_map_index_header:
  "fst (map_index CaseInsensitiveLess [] (ConvertHeaderToString h) m) = header_value m h"
  by (simp add: header_value_def cim.index_value)

lemma request_inv_new: "request_inv HttpRequest_new"
  by (simp add: request_inv_def HttpRequest_new_def cim.ordered_Nil strm.ordered_Nil)

lemma find_HEADERS_cases:
  obtains (known) h where "ConvertStringToHeader s = h" "h \<noteq> http_headers.UNKNOW"
      "map_find CaseInsensitiveLess s HEADERS = Some (ConvertHeaderToString h, h)"
      "CaseInsensitiveEqual s (ConvertHeaderToString h)"
  | (unknown) "ConvertStringToHeader s = http_headers.UNKNOW"
      "map_find CaseInsensitiveLess s HEADERS = None"
proof (cases "map_find CaseInsensitiveLess s HEADERS")
  case None
  then show ?thesis using unknown by (simp add: ConvertStringToHeader_def)
next
  case (Some e)
  obtain k h where e: "e = (k, h)" by (cases e)
  from Some e find_HEADERS_Some [of s k h] have "h \<noteq> http_headers.UNKNOW" "k = ConvertHeaderToString h"
    "CaseInsensitiveEqual s k" by auto
  then show ?thesis using known [of h] Some e by (simp add: ConvertStringToHeader_def)
qed

lemma ConvertStringToHeader_name:
  "h \<noteq> http_headers.UNKNOW \<Longrightarrow> ConvertStringToHeader (ConvertHeaderToString h) = h"
  using find_HEADERS_hit [of h "ConvertHeaderToString h"]
  by (simp add: ConvertStringToHeader_def CaseInsensitiveEqual_def)

lemma setHeader_known:
  "ConvertStringToHeader key = h \<Longrightarrow> h \<noteq> http_headers.UNKNOW \<Longrightarrow>
     setHeader key val r = (True, r\<lparr>rq_headers :=
       map_assign CaseInsensitiveLess (ConvertHeaderToString h) val (rq_headers r)\<rparr>)"
  by (rule find_HEADERS_cases [of key]) (auto simp: setHeader_def)

lemma setHeader_unknown:
  "ConvertStringToHeader key = http_headers.UNKNOW \<Longrightarrow> setHeader key val r = (False, r)"
  by (rule find_HEADERS_cases [of key]) (auto simp: setHeader_def)

lemma getHeader_eq:
  "getHeader key r =
     (let h = ConvertStringToHeader key in
      if h = http_headers.UNKNOW then (''UNKNOW'', r)
      else (header_value (rq_headers r) h, r\<lparr>rq_headers :=
        snd (map_index CaseInsensitiveLess [] (ConvertHeaderToString h) (rq_headers r))\<rparr>))"
  by (rule find_HEADERS_cases [of key])
    (auto simp: getHeader_def Let_def case_prod_beta fst_map_index_header)

lemma request_inv_setHeader:
  "request_inv r \<Longrightarrow> request_inv (snd (setHeader key val r))"
  by (rule find_HEADERS_cases [of key])
    (auto simp: setHeader_known setHeader_unknown request_inv_def header_table_assign)

lemma request_inv_getHeader: "request_inv r \<Longrightarrow> request_inv (snd (getHeader key r))"
  by (rule find_HEADERS_cases [of key])
    (auto simp: getHeader_eq Let_def request_inv_def header_table_index)

lemma request_inv_setParam: "request_inv r \<Longrightarrow> request_inv (setParam key val r)"
  by (simp add: setParam_def request_inv_def cim.ordered_assign)

text \<open>
  Setting a known header makes exactly that header read back the new value, under every
  spelling of its name, leaves the value every other name reads, and keeps the invariant of the
  request; setting an unknown header is refused and changes nothing.
\<close>

theorem setHeader_getHeader:
  assumes "request_inv r"
  shows "(ConvertStringToHeader key \<noteq> http_headers.UNKNOW \<longrightarrow>
           fst (setHeader key val r) \<and> request_inv (snd (setHeader key val r)) \<and>
           (\<forall>k. fst (getHeader k (snd (setHeader key val r))) =
                 (if ConvertStringToHeader k = ConvertStringToHeader key then val
                  else fst (getHeader k r)))) \<and>
         (ConvertStringToHeader key = http_headers.UNKNOW \<longrightarrow> setHeader key val r = (False, r))"
proof (intro conjI impI allI)
  fix k
  let ?h = "ConvertStringToHeader key"
  assume h: "?h \<noteq> http_headers.UNKNOW"
  then show "fst (setHeader key val r)" by (simp add: setHeader_known)
  show "request_inv (snd (setHeader key val r))" using assms by (rule request_inv_setHeader)
  have "header_table (rq_headers r)" using assms by (simp add: request_inv_def)
  then show "fst (getHeader k (snd (setHeader key val r))) =
        (if ConvertStringToHeader k = ?h then val else fst (getHeader k r))"
    using h by (auto simp: getHeader_eq setHeader_known header_value_assign Let_def)
qed (simp add: setHeader_unknown)

theorem setHeader_getHeader_witness:
  "fst (getHeader ''CONNECTION'' (snd (setHeader ''connection'' ''close'' HttpRequest_new))) = ''close''"
proof -
  have c: "CaseInsensitiveEqual s (ConvertHeaderToString Connection) \<Longrightarrow>
      ConvertStringToHeader s = Connection" for s
    using find_HEADERS_hit [of Connection s] by (simp add: ConvertStringToHeader_def)
  have "ConvertStringToHeader ''connection'' = Connection" "ConvertStringToHeader ''CONNECTION'' = Connection"
    by (rule c, simp add: CaseInsensitiveEqual_def ci_key_simps of_char_tolower nul_def)+
  then show ?thesis
    using setHeader_getHeader [OF request_inv_new, of "''connection''" "''close''"] by auto
qed

text \<open>
  A text is recognised as a header exactly when it is the header's printed name up to
  letter case.
\<close>

theorem ConvertStringToHeader_iff:
  assumes "h \<noteq> http_headers.UNKNOW"
  shows "ConvertStringToHeader s = h \<longleftrightarrow> CaseInsensitiveEqual s (ConvertHeaderToString h)"
proof
  assume "ConvertStringToHeader s = h"
  then show "CaseInsensitiveEqual s (ConvertHeaderToString h)"
    using assms by (cases rule: find_HEADERS_cases [of s]) auto
next
  assume "CaseInsensitiveEqual s (ConvertHeaderToString h)"
  then show "ConvertStringToHeader s = h"
    using find_HEADERS_hit [OF assms] by (simp add: ConvertStringToHeader_def)
qed

theorem ConvertStringToHeader_iff_witness:
  "ConvertStringToHeader ''cOOkie'' = Cookie"
  using ConvertStringToHeader_iff [of Cookie "''cOOkie''"]
  by (simp add: CaseInsensitiveEqual_def ci_key_simps of_char_tolower nul_def)

lemma method_entry_inj:
  assumes "e \<in> set [(''GET'', GET), (''POST'', POST), (''HEAD'', HEAD),
     (''PUT'', PUT), (''TRACE'', TRACE), (''OPTIONS'', OPTIONS), (''DELETE'', DELETE)]"
  shows "fst e = ConvertMethodToString (snd e) \<and> snd e \<noteq> http_method.UNKNOW"
  using assms by (auto simp: ConvertMethodToString_def)

lemma ConvertStringToMethod_name:
  "m \<noteq> http_method.UNKNOW \<Longrightarrow> ConvertStringToMethod (ConvertMethodToString m) = m"
  by (cases m) (simp_all add: ConvertStringToMethod_eq find_METHODS ConvertMethodToString_def
    CaseInsensitiveEqual_def ci_key_simps of_char_tolower nul_def)

lemma ConvertMethodToString_chars:
  "\<forall>c \<in> set (ConvertMethodToString m). c \<noteq> CR \<and> c \<noteq> CHR '' ''"
  by (cases m) (simp_all add: ConvertMethodToString_def)

section \<open>Serialised responses\<close>

text \<open>
  A reference reader of HTTP messages, as a client has it: the start line up to the first CRLF,
  header fields until an empty line, and the rest as the body.
\<close>

fun split_crlf :: "string \<Rightarrow> (string \<times> string) option" where
  "split_crlf (c # d # s) =
     (if c = CR \<and> d = LF then Some ([], s)
      else map_option (\<lambda>(l, r). (c # l, r)) (split_crlf (d # s)))"
| "split_crlf _ = None"

definition split_field :: "string \<Rightarrow> string \<times> string" where
  "split_field l =
     (let k = takeWhile (\<lambda>c. c \<noteq> CHR '':'') l in (k, drop (length k + 2) l))"

lemma split_crlf_shorter: "split_crlf s = Some (l, r) \<Longrightarrow> length r < length s"
proof (induction s arbitrary: l r rule: split_crlf.induct)
  case (1 c d s)
  then show ?case by (auto split: if_splits)
qed auto

function read_fields :: "string \<Rightarrow> ((string \<times> string) list \<times> string) option" where
  "read_fields s =
     (case split_crlf s of
        None \<Rightarrow> None
      | Some (l, r) \<Rightarrow>
          if l = [] then Some ([], r)
          else map_option (\<lambda>(fs, b). (split_field l # fs, b)) (read_fields r))"
  by pat_completeness auto
termination
  by (relation "measure length") (auto simp: split_crlf_shorter)

declare read_fields.simps [simp del]

definition read_message :: "string \<Rightarrow> (string \<times> (string \<times> string) list \<times> string) option" where
  "read_message s =
     (case split_crlf s of
        None \<Rightarrow> None
      | Some (l, r) \<Rightarrow> map_option (\<lambda>(fs, b). (l, fs, b)) (read_fields r))"

lemma split_crlf_line: "CR \<notin> set l \<Longrightarrow> split_crlf (l @ CRLF @ s) = Some (l, s)"
proof (induction l)
  case Nil
  then show ?case by (simp add: CRLF_def)
next
  case (Cons c l)
  then show ?case by (cases "l @ CRLF @ s") (auto simp: CRLF_def)
qed

lemma split_field_print:
  "CHR '':'' \<notin> set k \<Longrightarrow> split_field (k @ '': '' @ v) = (k, v)"
proof -
  assume "CHR '':'' \<notin> set k"
  then have "takeWhile (\<lambda>c. c \<noteq> CHR '':'') (k @ '': '' @ v) = k"
    by (subst takeWhile_append2) auto
  then show ?thesis by (simp add: split_field_def Let_def)
qed

text \<open>Header fields as the program prints them.\<close>

definition print_fields :: "(string \<times> string) list \<Rightarrow> string" where
  "print_fields hs = concat (map (\<lambda>(k, v). k @ '': '' @ v @ CRLF) hs)"

definition printable_fields :: "(string \<times> string) list \<Rightarrow> bool" where
  "printable_fields hs \<longleftrightarrow>
     (\<forall>(k, v) \<in> set hs. CR \<notin> set k \<and> CHR '':'' \<notin> set k \<and> CR \<notin> set v)"

lemma read_fields_print:
  "printable_fields hs \<Longrightarrow> read_fields (print_fields hs @ CRLF @ b) = Some (hs, b)"
proof (induction hs)
  case Nil
  have "split_crlf (CRLF @ b) = Some ([], b)" using split_crlf_line [of "[]" b] by simp
  then show ?case by (subst read_fields.simps) (simp add: print_fields_def)
next
  case (Cons e hs)
  obtain k v where e: "e = (k, v)" by (cases e)
  from Cons.prems e have kv: "CR \<notin> set (k @ '': '' @ v)" "CHR '':'' \<notin> set k" "printable_fields hs"
    by (auto simp: printable_fields_def)
  have "split_crlf ((k @ '': '' @ v) @ CRLF @ (print_fields hs @ CRLF @ b)) =
        Some (k @ '': '' @ v, print_fields hs @ CRLF @ b)"
    using kv(1) by (rule split_crlf_line)
  moreover have "print_fields (e # hs) @ CRLF @ b =
        (k @ '': '' @ v) @ CRLF @ (print_fields hs @ CRLF @ b)"
    using e by (simp add: print_fields_def)
  moreover have "split_field (k @ '': '' @ v) = (k, v)" using kv(2) by (rule split_field_print)
  ultimately show ?case
    using Cons.IH [OF kv(3)] e by (subst read_fields.simps) simp
qed

lemma toString_eq:
  "fst (toString r) =
     version_text (rs_version r) @ state_text (rs_state r) @ print_fields (rs_headers r) @ CRLF @ rs_content r"
proof -
  have "fold (\<lambda>(k, v) res. res @ k @ '': '' @ v @ CRLF) hs res = res @ print_fields hs" for hs res
    by (induction hs arbitrary: res) (auto simp: print_fields_def)
  then show ?thesis by (simp add: toString_def Let_def)
qed

lemma header_table_printable:
  assumes "header_table hs" and "\<forall>v \<in> snd ` set hs. CR \<notin> set v"
  shows "printable_fields hs"
  unfolding printable_fields_def
proof clarify
  fix k v assume kv: "(k, v) \<in> set hs"
  then obtain h where "k = ConvertHeaderToString h" using assms(1) by (auto simp: header_table_def)
  then have "CR \<notin> set k \<and> CHR '':'' \<notin> set k" using header_name_chars [of h] by auto
  then show "CR \<notin> set k \<and> CHR '':'' \<notin> set k \<and> CR \<notin> set v" using kv assms(2) by force
qed

lemma version_text_CR [simp]: "CR \<notin> set (version_text v)"
  by (simp add: version_text_def)

lemma resp_setHeader_known:
  "ConvertStringToHeader key = h \<Longrightarrow> h \<noteq> http_headers.UNKNOW \<Longrightarrow>
     resp_setHeader key val r = (True, r\<lparr>rs_headers :=
       map_assign CaseInsensitiveLess (ConvertHeaderToString h) val (rs_headers r)\<rparr>)"
  by (rule find_HEADERS_cases [of key]) (auto simp: resp_setHeader_def)

lemma response_inv_setHeader:
  "response_inv r \<Longrightarrow> response_inv (snd (resp_setHeader key val r))"
  by (rule find_HEADERS_cases [of key])
    (auto simp: resp_setHeader_known resp_setHeader_def response_inv_def header_table_assign)

lemma response_inv_new: "response_inv (HttpResponse_new n)"
  by (simp add: response_inv_def HttpResponse_new_def strm.ordered_Nil)

lemma read_toString:
  assumes "response_inv r" and "rs_version r \<noteq> http_version.UNKNOW"
    and "rs_state r \<noteq> http_resp_state.UNKNOW"
    and "\<forall>v \<in> snd ` set (rs_headers r). CR \<notin> set v"
  shows "read_message (fst (toString r)) =
           Some (version_text (rs_version r) @ to_string (resp_code (rs_state r)) @ '' '' @
                   ConvertRespStateToString (rs_state r),
                 rs_headers r, rs_content r)
       \<and> rs_len (snd (toString r)) = length (fst (toString r))"
proof -
  let ?l = "version_text (rs_version r) @ to_string (resp_code (rs_state r)) @ '' '' @
                   ConvertRespStateToString (rs_state r)"
  let ?rest = "print_fields (rs_headers r) @ CRLF @ rs_content r"
  have "fst (toString r) = ?l @ CRLF @ ?rest"
    using assms(3) by (simp add: toString_eq state_text_code)
  moreover have "CR \<notin> set ?l"
    using to_string_digits [of "resp_code (rs_state r)"]
    by (cases "rs_state r") (auto simp: is_digit_def)
  ultimately have "split_crlf (fst (toString r)) = Some (?l, ?rest)"
    by (metis split_crlf_line)
  moreover have "read_fields ?rest = Some (rs_headers r, rs_content r)"
    using assms(1,4) by (intro read_fields_print header_table_printable) (auto simp: response_inv_def)
  moreover have "rs_len (snd (toString r)) = length (fst (toString r))"
    by (simp add: toString_def Let_def)
  ultimately show ?thesis by (simp add: read_message_def)
qed

text \<open>
  C13. A response with a known version and status, and no carriage return in a header value, is
  serialised so that a reader of the message format recovers its status line (version, numeric
  code, reason phrase), exactly its headers in table order and exactly its body; the recorded
  length is the length of the message.
\<close>

theorem toString_readable:
  assumes "response_inv r" and "rs_version r \<noteq> http_version.UNKNOW"
    and "rs_state r \<noteq> http_resp_state.UNKNOW"
    and "\<forall>v \<in> snd ` set (rs_headers r). CR \<notin> set v"
  shows "read_message (fst (toString r)) =
           Some (version_text (rs_version r) @ to_string (resp_code (rs_state r)) @ '' '' @
                   ConvertRespStateToString (rs_state r),
                 rs_headers r, rs_content r)
       \<and> rs_len (snd (toString r)) = length (fst (toString r))"
  using assms by (rule read_toString)

text \<open>A small response, used to check the statement on.\<close>

definition sample_response :: HttpResponse where
  "sample_response =
     \<lparr>rs_state = OK, rs_version = HTTP11, rs_headers = [(''Server'', ''sone/1.0'')],
      rs_cookies = [], rs_content = ''hi'', rs_len = 0\<rparr>"

theorem toString_readable_witness:
  "read_message (fst (toString sample_response)) =
     Some (''HTTP/1.1 200 OK'', [(''Server'', ''sone/1.0'')], ''hi'')"
proof -
  have "header_table [(''Server'', ''sone/1.0'')]"
    using header_table_assign [of "[]" Server "''sone/1.0''"] by simp
  then have "response_inv sample_response"
    by (simp add: response_inv_def sample_response_def strm.ordered_Nil)
  then show ?thesis
    using toString_readable [of sample_response]
    by (simp add: sample_response_def version_text_def resp_code_def to_string.simps digit_char_table)
qed

section \<open>Messages as objects\<close>

text \<open>Every operation of a request and of a response that may change it, as calls in any order.\<close>

datatype request_call =
    Get_Param string | Get_Cookie string | Get_Header string
  | Set_Header string string | Set_Param string string | Set_Cookie string string
  | Set_Method http_method | Set_Scheme http_scheme | Set_Version http_version
  | Set_Url string | Set_Content string | Set_Query string

fun request_run :: "request_call \<Rightarrow> HttpRequest \<Rightarrow> HttpRequest" where
  "request_run (Get_Param k) r = snd (getParam k r)"
| "request_run (Get_Cookie k) r = snd (getCookie k r)"
| "request_run (Get_Header k) r = snd (getHeader k r)"
| "request_run (Set_Header k v) r = snd (setHeader k v r)"
| "request_run (Set_Param k v) r = setParam k v r"
| "request_run (Set_Cookie k v) r = setCookie k v r"
| "request_run (Set_Method x) r = setMethod x r"
| "request_run (Set_Scheme x) r = setScheme x r"
| "request_run (Set_Version x) r = setVersion x r"
| "request_run (Set_Url x) r = setRequestUrl x r"
| "request_run (Set_Content x) r = setContent x r"
| "request_run (Set_Query x) r = setQueryString x r"

datatype response_call =
    Set_State http_resp_state | Set_Resp_Version http_version | Set_Resp_Content string
  | Set_Resp_Cookie string string | Get_Resp_Cookie string
  | Set_Resp_Header string string | Get_Resp_Header string | To_String

fun response_run :: "response_call \<Rightarrow> HttpResponse \<Rightarrow> HttpResponse" where
  "response_run (Set_State x) r = setRespState x r"
| "response_run (Set_Resp_Version x) r = resp_setVersion x r"
| "response_run (Set_Resp_Content x) r = resp_setContent x r"
| "response_run (Set_Resp_Cookie k v) r = resp_setCookie k v r"
| "response_run (Get_Resp_Cookie k) r = snd (resp_getCookie k r)"
| "response_run (Set_Resp_Header k v) r = snd (resp_setHeader k v r)"
| "response_run (Get_Resp_Header k) r = snd (resp_getHeader k r)"
| "response_run To_String r = snd (toString r)"

lemma request_run_inv: "request_inv r \<Longrightarrow> request_inv (request_run c r)"
proof (cases c)
  case (Get_Param k)
  then show "request_inv r \<Longrightarrow> ?thesis"
    using cim.ordered_index [of "rq_params r" "[]" k] by (simp add: getParam_def case_prod_beta Let_def request_inv_def)
next
  case (Get_Cookie k)
  then show "request_inv r \<Longrightarrow> ?thesis"
    using strm.ordered_index [of "rq_cookies r" "[]" k] by (simp add: getCookie_def case_prod_beta Let_def request_inv_def)
qed (simp_all add: request_inv_getHeader request_inv_setHeader request_inv_setParam,
    simp_all add: request_inv_def setCookie_def strm.ordered_assign setMethod_def setScheme_def setVersion_def setRequestUrl_def
      setContent_def setQueryString_def)

lemma response_run_inv: "response_inv r \<Longrightarrow> response_inv (response_run c r)"
proof (cases c)
  case (Get_Resp_Cookie k)
  then show "response_inv r \<Longrightarrow> ?thesis"
    using strm.ordered_index [of "rs_cookies r" "[]" k] by (simp add: resp_getCookie_def case_prod_beta Let_def response_inv_def)
next
  case (Set_Resp_Header k v)
  then show "response_inv r \<Longrightarrow> ?thesis"
    by (simp add: response_inv_setHeader)
next
  case (Get_Resp_Header k)
  then show "response_inv r \<Longrightarrow> ?thesis"
    by (cases rule: find_HEADERS_cases [of k])
      (auto simp: resp_getHeader_def response_inv_def header_table_index Let_def case_prod_beta)
qed (simp_all add: response_inv_def setRespState_def resp_setVersion_def resp_setContent_def resp_setCookie_def
      strm.ordered_assign toString_def Let_def)

text \<open>What the last call that sets a value has set, or a default.\<close>

definition last_set :: "('c \<Rightarrow> 'v option) \<Rightarrow> 'v \<Rightarrow> 'c list \<Rightarrow> 'v" where
  "last_set f d cs = (case List.map_filter f (rev cs) of [] \<Rightarrow> d | v # _ \<Rightarrow> v)"

lemma last_set_simps [simp]:
  "last_set f d [] = d" "last_set f d (cs @ [c]) = (case f c of None \<Rightarrow> last_set f d cs | Some v \<Rightarrow> v)"
  by (simp_all add: last_set_def List.map_filter_simps split: option.splits)

fun sets_header :: "http_headers \<Rightarrow> request_call \<Rightarrow> string option" where
  "sets_header h (Set_Header k v) = (if ConvertStringToHeader k = h then Some v else None)"
| "sets_header h _ = None"

fun sets_param :: "string \<Rightarrow> request_call \<Rightarrow> string option" where
  "sets_param key (Set_Param k v) = (if CaseInsensitiveEqual k key then Some v else None)"
| "sets_param key _ = None"

fun sets_cookie :: "string \<Rightarrow> request_call \<Rightarrow> string option" where
  "sets_cookie key (Set_Cookie k v) = (if k = key then Some v else None)"
| "sets_cookie key _ = None"

fun sets_resp_header :: "http_headers \<Rightarrow> response_call \<Rightarrow> string option" where
  "sets_resp_header h (Set_Resp_Header k v) = (if ConvertStringToHeader k = h then Some v else None)"
| "sets_resp_header h _ = None"

fun sets_resp_cookie :: "string \<Rightarrow> response_call \<Rightarrow> string option" where
  "sets_resp_cookie key (Set_Resp_Cookie k v) = (if k = key then Some v else None)"
| "sets_resp_cookie key _ = None"

text \<open>One call changes what each getter reads exactly as the call says.\<close>

definition param_value :: "string \<Rightarrow> HttpRequest \<Rightarrow> string" where
  "param_value key r = fst (map_index CaseInsensitiveLess [] key (rq_params r))"

definition cookie_value :: "string \<Rightarrow> HttpRequest \<Rightarrow> string" where
  "cookie_value key r = fst (map_index string_less [] key (rq_cookies r))"

lemmas setter_defs = setHeader_def getHeader_def setParam_def getParam_def setCookie_def getCookie_def setMethod_def setScheme_def
  setVersion_def setRequestUrl_def setContent_def setQueryString_def Let_def case_prod_beta

lemma header_value_run:
  assumes "request_inv r" "h \<noteq> http_headers.UNKNOW"
  shows "header_value (rq_headers (request_run c r)) h =
    (case sets_header h c of None \<Rightarrow> header_value (rq_headers r) h | Some v \<Rightarrow> v)"
proof (cases c)
  case (Set_Header k v)
  show ?thesis
  proof (cases "ConvertStringToHeader k = http_headers.UNKNOW")
    case True
    then show ?thesis using Set_Header assms(2) by (simp add: setHeader_unknown)
  next
    case False
    then show ?thesis
      using Set_Header assms header_value_assign [of "rq_headers r" "ConvertStringToHeader k" h v]
      by (simp add: setHeader_known request_inv_def)
  qed
next
  case (Get_Header k)
  then show ?thesis using assms header_value_index by (simp add: getHeader_eq Let_def request_inv_def)
qed (simp_all add: setter_defs)

lemma param_value_run:
  assumes "request_inv r"
  shows "param_value key (request_run c r) = (case sets_param key c of None \<Rightarrow> param_value key r | Some v \<Rightarrow> v)"
proof (cases c)
  case (Get_Header k)
  then show ?thesis by (simp add: getHeader_eq Let_def param_value_def)
next
  case (Set_Header k v)
  then show ?thesis
    by (cases rule: find_HEADERS_cases [of k]) (simp_all add: setHeader_known setHeader_unknown param_value_def)
qed (use assms in \<open>simp_all add: param_value_def request_inv_def setter_defs cim.index_assign cim.index_index cim_eqv\<close>)

lemma cookie_value_run:
  assumes "request_inv r"
  shows "cookie_value key (request_run c r) = (case sets_cookie key c of None \<Rightarrow> cookie_value key r | Some v \<Rightarrow> v)"
proof (cases c)
  case (Get_Header k)
  then show ?thesis by (simp add: getHeader_eq Let_def cookie_value_def)
next
  case (Set_Header k v)
  then show ?thesis
    by (cases rule: find_HEADERS_cases [of k]) (simp_all add: setHeader_known setHeader_unknown cookie_value_def)
qed (use assms in \<open>simp_all add: cookie_value_def request_inv_def setter_defs strm.index_assign strm.index_index strm_eqv\<close>)

lemma resp_header_value_run:
  assumes "response_inv r" "h \<noteq> http_headers.UNKNOW"
  shows "header_value (rs_headers (response_run c r)) h =
    (case sets_resp_header h c of None \<Rightarrow> header_value (rs_headers r) h | Some v \<Rightarrow> v)"
proof (cases c)
  case (Set_Resp_Header k v)
  then show ?thesis
    using assms header_value_assign [of "rs_headers r" _ h v]
    by (cases rule: find_HEADERS_cases [of k]) (auto simp: resp_setHeader_def response_inv_def)
next
  case (Get_Resp_Header k)
  then show ?thesis
    using assms header_value_index
    by (cases rule: find_HEADERS_cases [of k]) (auto simp: resp_getHeader_def response_inv_def Let_def case_prod_beta)
qed (simp_all add: setRespState_def resp_setVersion_def resp_setContent_def resp_setCookie_def resp_getCookie_def toString_def
    Let_def case_prod_beta)

definition resp_cookie_value :: "string \<Rightarrow> HttpResponse \<Rightarrow> string" where
  "resp_cookie_value key r = fst (map_index string_less [] key (rs_cookies r))"

lemma resp_cookie_value_run:
  assumes "response_inv r"
  shows "resp_cookie_value key (response_run c r) = (case sets_resp_cookie key c of None \<Rightarrow> resp_cookie_value key r | Some v \<Rightarrow> v)"
proof (cases c)
  case (Set_Resp_Header k v)
  then show ?thesis
    by (cases rule: find_HEADERS_cases [of k]) (simp_all add: resp_setHeader_def resp_cookie_value_def)
next
  case (Get_Resp_Header k)
  then show ?thesis
    by (cases rule: find_HEADERS_cases [of k]) (simp_all add: resp_getHeader_def resp_cookie_value_def Let_def case_prod_beta)
qed (use assms in \<open>simp_all add: resp_cookie_value_def response_inv_def setRespState_def resp_setVersion_def resp_setContent_def
    resp_setCookie_def resp_getCookie_def toString_def Let_def case_prod_beta strm.index_assign strm.index_index strm_eqv\<close>)

text \<open>The plain members are what their setters have set last.\<close>

lemma request_fields_run:
  "req_func (request_run c r) = (case c of Set_Method x \<Rightarrow> x | _ \<Rightarrow> req_func r)"
  "rq_scheme (request_run c r) = (case c of Set_Scheme x \<Rightarrow> x | _ \<Rightarrow> rq_scheme r)"
  "rq_version (request_run c r) = (case c of Set_Version x \<Rightarrow> x | _ \<Rightarrow> rq_version r)"
  "rq_url (request_run c r) = (case c of Set_Url x \<Rightarrow> x | _ \<Rightarrow> rq_url r)"
  "rq_content (request_run c r) = (case c of Set_Content x \<Rightarrow> x | _ \<Rightarrow> rq_content r)"
  "query_string (request_run c r) = (case c of Set_Query x \<Rightarrow> x | _ \<Rightarrow> query_string r)"
  by (cases c; simp add: setter_defs split: option.splits)+

lemma response_fields_run:
  "rs_state (response_run c r) = (case c of Set_State x \<Rightarrow> x | _ \<Rightarrow> rs_state r)"
  "rs_version (response_run c r) = (case c of Set_Resp_Version x \<Rightarrow> x | _ \<Rightarrow> rs_version r)"
  "rs_content (response_run c r) = (case c of Set_Resp_Content x \<Rightarrow> x | _ \<Rightarrow> rs_content r)"
  by (cases c; simp add: setRespState_def resp_setVersion_def resp_setContent_def resp_setCookie_def resp_getCookie_def
      resp_setHeader_def resp_getHeader_def toString_def Let_def case_prod_beta split: option.splits)+

lemma last_set_fold:
  assumes "\<And>c r. I r \<Longrightarrow> I (run c r)" "I r0" "\<And>c r. I r \<Longrightarrow> get (run c r) = (case f c of None \<Rightarrow> get r | Some v \<Rightarrow> v)"
  shows "I (fold run cs r0) \<and> get (fold run cs r0) = last_set f (get r0) cs"
  by (induction cs rule: rev_induct) (use assms in \<open>auto split: option.splits\<close>)

lemma request_last:
  assumes "\<And>c r. request_inv r \<Longrightarrow> get (request_run c r) = (case f c of None \<Rightarrow> get r | Some v \<Rightarrow> v)"
  shows "get (fold request_run cs HttpRequest_new) = last_set f (get HttpRequest_new) cs"
  using last_set_fold [of request_inv request_run HttpRequest_new get f cs] assms request_run_inv request_inv_new by blast

lemma response_last:
  assumes "\<And>c r. response_inv r \<Longrightarrow> get (response_run c r) = (case f c of None \<Rightarrow> get r | Some v \<Rightarrow> v)"
  shows "get (fold response_run cs (HttpResponse_new n)) = last_set f (get (HttpResponse_new n)) cs"
  using last_set_fold [of response_inv response_run "HttpResponse_new n" get f cs] assms response_run_inv response_inv_new by blast

lemma new_values:
  "header_value (rq_headers HttpRequest_new) h = []" "param_value key HttpRequest_new = []" "cookie_value key HttpRequest_new = []"
  "header_value (rs_headers (HttpResponse_new n)) h = []" "resp_cookie_value key (HttpResponse_new n) = []"
  by (simp_all add: HttpRequest_new_def HttpResponse_new_def header_value_def map_lookup_def param_value_def cookie_value_def
      resp_cookie_value_def map_index_def)

text \<open>
  C14. Whatever calls are made on a new request, in any order and with any arguments: \<open>getHeader\<close> with any spelling of a
  known name returns what was last set under a spelling of that name (nothing was set: the empty string; an unknown
  name: the word \<open>UNKNOW\<close>), \<open>getParam\<close> the same for parameter names up to case, \<open>getCookie\<close> for cookie names exactly, and the
  method, the version, the URL, the content and the query string are what was last set; a read never changes what another
  one returns.  The same holds of a response.
\<close>

theorem messages_read_back:
  "let r = fold request_run calls HttpRequest_new; s = fold response_run calls' (HttpResponse_new n);
       known = (\<lambda>name. ConvertStringToHeader name \<noteq> http_headers.UNKNOW) in
   (\<forall>name. fst (getHeader name r) =
      (if known name then last_set (sets_header (ConvertStringToHeader name)) [] calls else ''UNKNOW'')) \<and>
   (\<forall>key. fst (getParam key r) = last_set (sets_param key) [] calls) \<and>
   (\<forall>key. fst (getCookie key r) = last_set (sets_cookie key) [] calls) \<and>
   req_func r = last_set (\<lambda>c. case c of Set_Method x \<Rightarrow> Some x | _ \<Rightarrow> None) http_method.UNKNOW calls \<and>
   rq_version r = last_set (\<lambda>c. case c of Set_Version x \<Rightarrow> Some x | _ \<Rightarrow> None) http_version.UNKNOW calls \<and>
   rq_url r = last_set (\<lambda>c. case c of Set_Url x \<Rightarrow> Some x | _ \<Rightarrow> None) [] calls \<and>
   rq_content r = last_set (\<lambda>c. case c of Set_Content x \<Rightarrow> Some x | _ \<Rightarrow> None) [] calls \<and>
   query_string r = last_set (\<lambda>c. case c of Set_Query x \<Rightarrow> Some x | _ \<Rightarrow> None) [] calls \<and>
   (\<forall>name. fst (resp_getHeader name s) =
      (if known name then last_set (sets_resp_header (ConvertStringToHeader name)) [] calls' else ''UNKNOW'')) \<and>
   (\<forall>key. fst (resp_getCookie key s) = last_set (sets_resp_cookie key) [] calls') \<and>
   rs_state s = last_set (\<lambda>c. case c of Set_State x \<Rightarrow> Some x | _ \<Rightarrow> None) http_resp_state.UNKNOW calls' \<and>
   rs_version s = last_set (\<lambda>c. case c of Set_Resp_Version x \<Rightarrow> Some x | _ \<Rightarrow> None) http_version.UNKNOW calls' \<and>
   rs_content s = last_set (\<lambda>c. case c of Set_Resp_Content x \<Rightarrow> Some x | _ \<Rightarrow> None) [] calls'"
proof -
  let ?r = "fold request_run calls HttpRequest_new" and ?s = "fold response_run calls' (HttpResponse_new n)"
  have h: "header_value (rq_headers ?r) h = last_set (sets_header h) [] calls" if "h \<noteq> http_headers.UNKNOW" for h
    using request_last [of "\<lambda>r. header_value (rq_headers r) h" "sets_header h"] header_value_run [OF _ that] by (simp add: new_values)
  have hs: "header_value (rs_headers ?s) h = last_set (sets_resp_header h) [] calls'" if "h \<noteq> http_headers.UNKNOW" for h
    using response_last [of "\<lambda>r. header_value (rs_headers r) h" "sets_resp_header h"] resp_header_value_run [OF _ that]
    by (simp add: new_values)
  have "fst (resp_getHeader name ?s) =
      (if ConvertStringToHeader name \<noteq> http_headers.UNKNOW then header_value (rs_headers ?s) (ConvertStringToHeader name) else ''UNKNOW'')" for name
    by (cases rule: find_HEADERS_cases [of name]) (simp_all add: resp_getHeader_def Let_def case_prod_beta fst_map_index_header)
  moreover have "fst (getParam key ?r) = last_set (sets_param key) [] calls" for key
    using request_last [of "param_value key" "sets_param key", OF param_value_run] by (simp add: new_values) (simp add: param_value_def getParam_def case_prod_beta Let_def)
  moreover have "fst (getCookie key ?r) = last_set (sets_cookie key) [] calls" for key
    using request_last [of "cookie_value key" "sets_cookie key", OF cookie_value_run] by (simp add: new_values) (simp add: cookie_value_def getCookie_def case_prod_beta Let_def)
  moreover have "fst (resp_getCookie key ?s) = last_set (sets_resp_cookie key) [] calls'" for key
    using response_last [of "resp_cookie_value key" "sets_resp_cookie key", OF resp_cookie_value_run]
    by (simp add: new_values) (simp add: resp_cookie_value_def resp_getCookie_def case_prod_beta Let_def)
  moreover have "req_func ?r = last_set (\<lambda>c. case c of Set_Method x \<Rightarrow> Some x | _ \<Rightarrow> None) http_method.UNKNOW calls"
    "rq_version ?r = last_set (\<lambda>c. case c of Set_Version x \<Rightarrow> Some x | _ \<Rightarrow> None) http_version.UNKNOW calls"
    "rq_url ?r = last_set (\<lambda>c. case c of Set_Url x \<Rightarrow> Some x | _ \<Rightarrow> None) [] calls"
    "rq_content ?r = last_set (\<lambda>c. case c of Set_Content x \<Rightarrow> Some x | _ \<Rightarrow> None) [] calls"
    "query_string ?r = last_set (\<lambda>c. case c of Set_Query x \<Rightarrow> Some x | _ \<Rightarrow> None) [] calls"
    by (induction calls rule: rev_induct; simp add: request_fields_run HttpRequest_new_def split: request_call.splits)+
  moreover have "rs_state ?s = last_set (\<lambda>c. case c of Set_State x \<Rightarrow> Some x | _ \<Rightarrow> None) http_resp_state.UNKNOW calls'"
    "rs_version ?s = last_set (\<lambda>c. case c of Set_Resp_Version x \<Rightarrow> Some x | _ \<Rightarrow> None) http_version.UNKNOW calls'"
    "rs_content ?s = last_set (\<lambda>c. case c of Set_Resp_Content x \<Rightarrow> Some x | _ \<Rightarrow> None) [] calls'"
    by (induction calls' rule: rev_induct; simp add: response_fields_run HttpResponse_new_def split: response_call.splits)+
  ultimately show ?thesis using h hs by (simp add: getHeader_eq Let_def)
qed

end
