(* ===== verification/Http_Util.thy ===== *)
theory Http_Util
  imports Cxx_Map
begin

text \<open>
  The helpers of \<^verbatim>\<open>src/http_server/utils.cpp\<close>: percent-decoding, the comparison of two HTTP
  dates and time stamps.

  The system calls are arguments: \<open>gettimeofday\<close> gives a return code with seconds and
  microseconds, \<open>localtime\<close> the broken-down local time.  \<open>strftime\<close> is written out for
  the formats the code uses, in the C locale.
\<close>

section \<open>Byte order\<close>

definition BYTEORDER_BIG :: int where "BYTEORDER_BIG = 1"
definition BYTEORDER_LITTLE :: int where "BYTEORDER_LITTLE = 0"

text \<open>The two bytes of the union after \<open>t.s = 0x0102\<close> are what the host makes of it.\<close>

definition byteorder :: "(nat \<Rightarrow> int list) \<Rightarrow> int" where
  "byteorder bytes_of_short =
     (let bytes = bytes_of_short 0x0102 in
      if bytes ! 0 = 1 \<and> bytes ! 1 = 2 then BYTEORDER_BIG
      else if bytes ! 0 = 2 \<and> bytes ! 1 = 1 then BYTEORDER_LITTLE
      else -1)"

section \<open>Percent-decoding\<close>

definition HEXMAP :: "(char \<times> nat) list" where
  "HEXMAP =
     [(CHR ''1'', 1), (CHR ''2'', 2), (CHR ''3'', 3), (CHR ''4'', 4), (CHR ''5'', 5),
      (CHR ''6'', 6), (CHR ''7'', 7), (CHR ''8'', 8), (CHR ''9'', 9),
      (CHR ''a'', 10), (CHR ''b'', 11), (CHR ''c'', 12), (CHR ''d'', 13), (CHR ''e'', 14), (CHR ''f'', 15),
      (CHR ''A'', 10), (CHR ''B'', 11), (CHR ''C'', 12), (CHR ''D'', 13), (CHR ''E'', 14), (CHR ''F'', 15)]"

text \<open>\<open>HEXMAP[c]\<close>: a missing character is inserted with the value 0, which is also what
  a later access then finds.\<close>

definition hex_val :: "char \<Rightarrow> nat" where
  "hex_val c = (case map_of HEXMAP c of Some n \<Rightarrow> n | None \<Rightarrow> 0)"

fun URLDecode_loop :: "string \<Rightarrow> string result" where
  "URLDecode_loop [] = Inr []"
| "URLDecode_loop (c # s) =
     (if c \<noteq> CHR ''%'' then and_then (URLDecode_loop s) (\<lambda>r. Inr (c # r))
      else case s of
        a # b # s' \<Rightarrow>
          and_then (URLDecode_loop s') (\<lambda>r. Inr (char_of (hex_val a * 16 + hex_val b) # r))
      | _ \<Rightarrow> Inl Logic_error)"

text \<open>
  The index runs up to the size converted to \<open>int\<close>.  \<open>return nullptr\<close> constructs a
  \<open>std::string\<close> from a null pointer, which throws \<open>std::logic_error\<close>.  The result is
  read back as a C string.
\<close>

definition URLDecode :: "string \<Rightarrow> string result" where
  "URLDecode s =
     and_then (URLDecode_loop (take (nat (to_int32 (int (length s)))) s)) (\<lambda>res.
       Inr (c_str (res @ [nul])))"

section \<open>Dates\<close>

definition MONTH_MAP :: "(string \<times> int) list" where
  "MONTH_MAP = map_init CaseInsensitiveLess
     [(''Jan'', 1), (''Feb'', 2), (''Mar'', 3), (''Apr'', 4), (''May'', 5), (''Jun'', 6),
      (''Jul'', 7), (''Aug'', 8), (''Sept'', 9), (''Oct'', 10), (''Nov'', 11), (''Dec'', 12)]"

record date =
  year :: int
  month :: int
  day :: int
  hour :: int
  minute :: int
  sec :: int

text \<open>
  The regular expression
  \<^verbatim>\<open>[a-z]{3,3}, ([0-9]{1,2}) ([a-z]{3,4}) ([0-9]{4,4}) ([0-9][0-9]):([0-9][0-9]):([0-9][0-9]) GMT\<close>
  with \<open>icase\<close>.  Every repetition is followed by a literal outside its class, so the greedy
  match of each piece is the only candidate and no backtracking is needed.
\<close>

definition eat_class :: "(char \<Rightarrow> bool) \<Rightarrow> nat \<Rightarrow> nat \<Rightarrow> string \<Rightarrow> (string \<times> string) option" where
  "eat_class P lo hi s =
     (let n = min hi (length (takeWhile P s)) in
      if n < lo then None else Some (take n s, drop n s))"

definition eat_literal :: "string \<Rightarrow> string \<Rightarrow> string option" where
  "eat_literal l s =
     (if map tolower (take (length l) s) = map tolower l then Some (drop (length l) s) else None)"

definition gmt_match_at :: "string \<Rightarrow> string list option" where
  "gmt_match_at s =
     Option.bind (eat_class is_alpha 3 3 s) (\<lambda>(_, s).
     Option.bind (eat_literal '', '' s) (\<lambda>s.
     Option.bind (eat_class is_digit 1 2 s) (\<lambda>(m1, s).
     Option.bind (eat_literal '' '' s) (\<lambda>s.
     Option.bind (eat_class is_alpha 3 4 s) (\<lambda>(m2, s).
     Option.bind (eat_literal '' '' s) (\<lambda>s.
     Option.bind (eat_class is_digit 4 4 s) (\<lambda>(m3, s).
     Option.bind (eat_literal '' '' s) (\<lambda>s.
     Option.bind (eat_class is_digit 2 2 s) (\<lambda>(m4, s).
     Option.bind (eat_literal '':'' s) (\<lambda>s.
     Option.bind (eat_class is_digit 2 2 s) (\<lambda>(m5, s).
     Option.bind (eat_literal '':'' s) (\<lambda>s.
     Option.bind (eat_class is_digit 2 2 s) (\<lambda>(m6, s).
     Option.bind (eat_literal '' GMT'' s) (\<lambda>s.
       Some [m1, m2, m3, m4, m5, m6]))))))))))))))"

fun gmt_search :: "string \<Rightarrow> string list option" where
  "gmt_search [] = gmt_match_at []"
| "gmt_search (c # s) =
     (case gmt_match_at (c # s) of Some m \<Rightarrow> Some m | None \<Rightarrow> gmt_search s)"

text \<open>The date object is not initialised: when the text does not match it stays what it was,
  \<open>d\<close>.\<close>

definition read_date :: "date \<Rightarrow> string \<Rightarrow> date" where
  "read_date d s =
     (case gmt_search s of
        None \<Rightarrow> d
      | Some m \<Rightarrow>
          \<lparr>year = int (atoi (m ! 2)),
           month = fst (map_index CaseInsensitiveLess 0 (m ! 1) MONTH_MAP),
           day = int (atoi (m ! 0)),
           hour = int (atoi (m ! 3)), minute = int (atoi (m ! 4)), sec = int (atoi (m ! 5))\<rparr>)"

definition compareGMTStr :: "date \<Rightarrow> date \<Rightarrow> string \<Rightarrow> string \<Rightarrow> bool" where
  "compareGMTStr d1 d2 s1 s2 =
     (let d1 = read_date d1 s1; d2 = read_date d2 s2 in
      if year d1 > year d2 then True
      else if year d1 < year d2 then False
      else if month d1 > month d2 then True
      else if month d1 < month d2 then False
      else if day d1 > day d2 then True
      else if day d1 < day d2 then False
      else if hour d1 > hour d2 then True
      else if hour d1 < hour d2 then False
      else if minute d1 > minute d2 then True
      else if minute d1 < minute d2 then False
      else if sec d1 \<ge> sec d2 then True
      else False)"

section \<open>Time stamps\<close>

record tm =
  tm_sec :: nat
  tm_min :: nat
  tm_hour :: nat
  tm_mday :: nat
  tm_mon :: nat
  tm_year :: nat
  tm_wday :: nat

record Timestamp =
  ts_sec :: int
  ts_usec :: int

definition Timestamp_now :: "int \<times> int \<Rightarrow> Timestamp" where
  "Timestamp_now tv = \<lparr>ts_sec = fst tv, ts_usec = snd tv\<rparr>"

text \<open>The default constructor: zeroed, then the clock, unless \<open>gettimeofday\<close> fails, which is logged.\<close>

definition Timestamp_new :: "(int \<times> int) option \<Rightarrow> Timestamp \<times> bool" where
  "Timestamp_new clock = (case clock of None \<Rightarrow> (Timestamp_now (0, 0), True) | Some tv \<Rightarrow> (Timestamp_now tv, False))"

text \<open>The constructor from a \<open>timeval\<close> overwrites its copy and asks for the current time.\<close>

definition Timestamp_of_timeval :: "int \<times> int \<Rightarrow> int \<times> int \<Rightarrow> Timestamp" where
  "Timestamp_of_timeval tv clock = Timestamp_now clock"

definition Timestamp_at :: "int \<Rightarrow> int \<Rightarrow> Timestamp" where
  "Timestamp_at s us = \<lparr>ts_sec = s, ts_usec = us\<rparr>"

definition setSecond :: "int \<Rightarrow> Timestamp \<Rightarrow> Timestamp" where
  "setSecond s t = t\<lparr>ts_sec := s\<rparr>"

definition setUSecond :: "int \<Rightarrow> Timestamp \<Rightarrow> Timestamp" where
  "setUSecond us t = t\<lparr>ts_usec := us\<rparr>"

fun zero_padded :: "nat \<Rightarrow> nat \<Rightarrow> string" where
  "zero_padded 0 n = []"
| "zero_padded (Suc w) n = zero_padded w (n div 10) @ [digit_char (n mod 10)]"

definition wday_name :: "nat \<Rightarrow> string" where
  "wday_name d = [''Sun'', ''Mon'', ''Tue'', ''Wed'', ''Thu'', ''Fri'', ''Sat''] ! d"

definition mon_name :: "nat \<Rightarrow> string" where
  "mon_name m = [''Jan'', ''Feb'', ''Mar'', ''Apr'', ''May'', ''Jun'',
                 ''Jul'', ''Aug'', ''Sep'', ''Oct'', ''Nov'', ''Dec''] ! m"

definition gmt_text :: "tm \<Rightarrow> string" where
  "gmt_text t =
     wday_name (tm_wday t) @ '', '' @ zero_padded 2 (tm_mday t) @ '' '' @ mon_name (tm_mon t) @ '' '' @
     to_string (tm_year t) @ '' '' @ zero_padded 2 (tm_hour t) @ '':'' @ zero_padded 2 (tm_min t) @ '':'' @
     zero_padded 2 (tm_sec t) @ '' GMT''"

definition toGMTString :: "(int \<Rightarrow> tm) \<Rightarrow> Timestamp \<Rightarrow> string" where
  "toGMTString localtime t = gmt_text (localtime (ts_sec t))"

definition Timestamp_to_string :: "(int \<Rightarrow> tm) \<Rightarrow> bool \<Rightarrow> Timestamp \<Rightarrow> string" where
  "Timestamp_to_string localtime usec ts =
     (let t = localtime (ts_sec ts) in
      to_string (tm_year t) @ ''-'' @ zero_padded 2 (Suc (tm_mon t)) @ ''-'' @ zero_padded 2 (tm_mday t) @ '' '' @
      zero_padded 2 (tm_hour t) @ '':'' @ zero_padded 2 (tm_min t) @ '':'' @ zero_padded 2 (tm_sec t) @
      (if usec then '':'' @ zero_padded 6 (nat (ts_usec ts)) else []))"

section \<open>Decoding undoes encoding\<close>

text \<open>The encoder a client uses: letters, digits and a few marks stand for themselves, every
  other byte is written with two hexadecimal digits.\<close>

definition url_plain :: "char \<Rightarrow> bool" where
  "url_plain c \<longleftrightarrow> is_alpha c \<or> is_digit c \<or> c \<in> set ''-_.~/''"

definition hex_digit :: "nat \<Rightarrow> char" where
  "hex_digit n = ''0123456789ABCDEF'' ! n"

definition url_encode :: "string \<Rightarrow> string" where
  "url_encode s = concat (map (\<lambda>c. if url_plain c then [c]
     else [CHR ''%'', hex_digit (of_char c div 16), hex_digit (of_char c mod 16)]) s)"

lemma hex_val_digit: "n < 16 \<Longrightarrow> hex_val (hex_digit n) = n"
proof -
  assume "n < 16"
  then have "n \<in> set [0..<16]" by simp
  moreover have "\<forall>n \<in> set [0..<16]. hex_val (hex_digit n) = n"
    by (simp add: small_ranges hex_digit_def hex_val_def HEXMAP_def del: set_upt)
  ultimately show ?thesis by blast
qed

lemma url_plain_percent: "url_plain c \<Longrightarrow> c \<noteq> CHR ''%''"
  by (auto simp: url_plain_def is_alpha_def is_upper_def is_lower_def is_digit_def)

lemma URLDecode_loop_encode:
  "URLDecode_loop (url_encode s @ t) = and_then (URLDecode_loop t) (\<lambda>r. Inr (s @ r))"
proof (induction s)
  case Nil
  then show ?case by (cases "URLDecode_loop t") (simp_all add: url_encode_def)
next
  case (Cons c s)
  have IH: "URLDecode_loop (url_encode s @ t) = and_then (URLDecode_loop t) (\<lambda>r. Inr (s @ r))"
    by (rule Cons.IH)
  show ?case
  proof (cases "url_plain c")
    case True
    then show ?thesis using IH url_plain_percent [OF True]
      by (cases "URLDecode_loop t") (simp_all add: url_encode_def)
  next
    case False
    have "of_char c < (256 :: nat)" by simp
    then have "of_char c div 16 < (16 :: nat)" by linarith
    then have "hex_val (hex_digit (of_char c div 16)) * 16 + hex_val (hex_digit (of_char c mod 16)) = of_char c"
      by (simp add: hex_val_digit)
    then show ?thesis using False IH
      by (cases "URLDecode_loop t") (simp_all add: url_encode_def)
  qed
qed

lemma URLDecode_short:
  "length s < 2 ^ 31 \<Longrightarrow>
     URLDecode s = and_then (URLDecode_loop s) (\<lambda>res. Inr (c_str (res @ [nul])))"
  by (simp add: URLDecode_def to_int32_id)

lemma c_str_snoc_nul: "nul \<notin> set s \<Longrightarrow> c_str (s @ [nul]) = s"
  by (induction s) (auto simp: c_str_def)

lemma URLDecode_encode:
  assumes "nul \<notin> set s" and "length (url_encode s) < 2 ^ 31"
  shows "URLDecode (url_encode s) = Inr s"
  using assms URLDecode_loop_encode [of s "[]"] by (simp add: URLDecode_short c_str_snoc_nul)

text \<open>
  Decoding undoes percent-encoding for every NUL-free text that fits an \<open>int\<close> length;
  an encoded text followed by a percent sign with fewer than two characters after it makes the
  decoder throw.
\<close>

theorem URLDecode_roundtrip:
  assumes "nul \<notin> set s" and "length (url_encode s) + 2 < 2 ^ 31" and "length t < 2"
  shows "URLDecode (url_encode s) = Inr s \<and>
         URLDecode (url_encode s @ CHR ''%'' # t) = Inl Logic_error"
proof
  show "URLDecode (url_encode s) = Inr s"
    using assms(1,2) by (intro URLDecode_encode) simp_all
  have "URLDecode_loop (CHR ''%'' # t) = Inl Logic_error"
    using assms(3) by (auto split: list.splits)
  moreover have "length (url_encode s @ CHR ''%'' # t) < 2 ^ 31"
    using assms(2,3) by simp
  ultimately show "URLDecode (url_encode s @ CHR ''%'' # t) = Inl Logic_error"
    by (simp add: URLDecode_short URLDecode_loop_encode)
qed

theorem URLDecode_roundtrip_witness:
  "URLDecode ''a%20b'' = Inr ''a b'' \<and> URLDecode ''a%20b%4'' = Inl Logic_error"
proof -
  have "url_encode ''a b'' = ''a%20b''"
    by (simp add: url_encode_def url_plain_def is_alpha_def is_upper_def is_lower_def is_digit_def
        hex_digit_def)
  then show ?thesis
    using URLDecode_roundtrip [of "''a b''" "''4''"] by (simp add: nul_def)
qed

section \<open>Comparing printed dates\<close>

text \<open>The ranges \<open>strftime\<close> gets, for the years that print with four digits.\<close>

definition tm_ok :: "tm \<Rightarrow> bool" where
  "tm_ok t \<longleftrightarrow>
     tm_sec t < 61 \<and> tm_min t < 60 \<and> tm_hour t < 24 \<and> 1 \<le> tm_mday t \<and> tm_mday t \<le> 31 \<and>
     tm_mon t < 12 \<and> 1000 \<le> tm_year t \<and> tm_year t < 10000 \<and> tm_wday t < 7"

lemma eat_class_hit:
  assumes "\<forall>c \<in> set xs. P c" and "lo \<le> length xs" and "length xs \<le> hi" and "\<not> P y"
  shows "eat_class P lo hi (xs @ y # zs) = Some (xs, y # zs)"
proof -
  have "takeWhile P (xs @ y # zs) = xs" using assms(1,4) by (simp add: takeWhile_append2)
  then show ?thesis using assms(2,3) by (simp add: eat_class_def Let_def)
qed

lemma eat_literal_hit: "eat_literal l (l @ s) = Some s"
  by (simp add: eat_literal_def)

lemma eat_literal_1: "eat_literal [c] (c # s) = Some s" "eat_literal [c, d] (c # d # s) = Some s"
  by (simp_all add: eat_literal_def)

lemma not_digit_simps [simp]:
  "\<not> is_digit CHR '' ''" "\<not> is_digit CHR '':''" "\<not> is_alpha CHR '' ''" "\<not> is_alpha CHR '',''"
  by (simp_all add: is_digit_def is_alpha_def is_upper_def is_lower_def)

lemma gmt_match_print:
  assumes "\<forall>c \<in> set w. is_alpha c" "length w = 3" "\<forall>c \<in> set m2. is_alpha c" "length m2 = 3"
    and "\<forall>c \<in> set m1. is_digit c" "length m1 = 2" "\<forall>c \<in> set m3. is_digit c" "length m3 = 4"
    and "\<forall>c \<in> set m4. is_digit c" "length m4 = 2" "\<forall>c \<in> set m5. is_digit c" "length m5 = 2"
    and "\<forall>c \<in> set m6. is_digit c" "length m6 = 2"
  shows "gmt_match_at (w @ '', '' @ m1 @ '' '' @ m2 @ '' '' @ m3 @ '' '' @ m4 @ '':'' @ m5 @ '':'' @ m6 @ '' GMT'') =
     Some [m1, m2, m3, m4, m5, m6]"
  using assms unfolding gmt_match_at_def
  by (simp add: eat_class_hit eat_literal_1 eat_literal_hit [of "'' GMT''" "[]", simplified])

lemma zero_padded_2: "zero_padded 2 n = [digit_char (n div 10 mod 10), digit_char (n mod 10)]"
  by (simp add: numeral_2_eq_2)

lemma atoi_padded: "n < 100 \<Longrightarrow> atoi (zero_padded 2 n) = n"
proof -
  assume "n < 100"
  then have "n div 10 < 10" by linarith
  then show ?thesis by (simp add: zero_padded_2 atoi_def)
qed

lemma digits_padded: "\<forall>c \<in> set (zero_padded w n). is_digit c"
  by (induction w arbitrary: n) auto

lemma length_padded [simp]: "length (zero_padded w n) = w"
  by (induction w arbitrary: n) auto

lemma length_to_string_4:
  assumes "1000 \<le> n" and "n < 10000"
  shows "length (to_string n) = 4"
proof -
  from assms have "\<not> n < 10" "\<not> n div 10 < 10" "\<not> n div 10 div 10 < 10" "n div 10 div 10 div 10 < 10"
    by linarith+
  then show ?thesis
    by (simp add: to_string.simps [of n] to_string.simps [of "n div 10"]
        to_string.simps [of "n div 10 div 10"] to_string.simps [of "n div 10 div 10 div 10"]
        del: div_div_eq_right)
qed

lemma name_tables:
  "d < 7 \<Longrightarrow> length (wday_name d) = 3 \<and> (\<forall>c \<in> set (wday_name d). is_alpha c)"
  "m < 12 \<Longrightarrow> length (mon_name m) = 3 \<and> (\<forall>c \<in> set (mon_name m). is_alpha c)"
proof -
  have "\<forall>d \<in> set [0..<7]. length (wday_name d) = 3 \<and> (\<forall>c \<in> set (wday_name d). is_alpha c)"
    by (simp add: small_ranges wday_name_def is_alpha_def is_upper_def is_lower_def del: set_upt)
  then show "d < 7 \<Longrightarrow> length (wday_name d) = 3 \<and> (\<forall>c \<in> set (wday_name d). is_alpha c)" by simp
  have "\<forall>m \<in> set [0..<12]. length (mon_name m) = 3 \<and> (\<forall>c \<in> set (mon_name m). is_alpha c)"
    by (simp add: small_ranges mon_name_def is_alpha_def is_upper_def is_lower_def del: set_upt)
  then show "m < 12 \<Longrightarrow> length (mon_name m) = 3 \<and> (\<forall>c \<in> set (mon_name m). is_alpha c)" by simp
qed

lemma month_number:
  assumes "m < 12"
  shows "fst (map_index CaseInsensitiveLess 0 (mon_name m) MONTH_MAP) = (if m = 8 then 0 else int m + 1)"
proof -
  have f: "map_find CaseInsensitiveLess k MONTH_MAP = find (\<lambda>e. CaseInsensitiveEqual (fst e) k)
     [(''Jan'', 1), (''Feb'', 2), (''Mar'', 3), (''Apr'', 4), (''May'', 5), (''Jun'', 6),
      (''Jul'', 7), (''Aug'', 8), (''Sept'', 9), (''Oct'', 10), (''Nov'', 11), (''Dec'', 12)]" for k
    unfolding MONTH_MAP_def cim.find_init cim_eqv by (rule refl)
  have "\<forall>m \<in> set [0..<12].
      fst (map_index CaseInsensitiveLess 0 (mon_name m) MONTH_MAP) = (if m = 8 then 0 else int m + 1)"
    by (simp add: small_ranges mon_name_def map_index_def f CaseInsensitiveEqual_def ci_key_simps
        of_char_tolower nul_def del: set_upt)
  then show ?thesis using assms by simp
qed

lemma gmt_search_hit: "gmt_match_at s = Some m \<Longrightarrow> gmt_search s = Some m"
  by (cases s) simp_all

lemma read_date_print:
  assumes "tm_ok t"
  shows "read_date d (gmt_text t) =
    \<lparr>year = int (tm_year t), month = (if tm_mon t = 8 then 0 else int (tm_mon t) + 1),
     day = int (tm_mday t), hour = int (tm_hour t), minute = int (tm_min t), sec = int (tm_sec t)\<rparr>"
proof -
  from assms have t: "tm_sec t < 100" "tm_min t < 100" "tm_hour t < 100" "tm_mday t < 100"
    "tm_mon t < 12" "1000 \<le> tm_year t" "tm_year t < 10000" "tm_wday t < 7"
    by (auto simp: tm_ok_def)
  have "gmt_search (gmt_text t) =
    Some [zero_padded 2 (tm_mday t), mon_name (tm_mon t), to_string (tm_year t),
      zero_padded 2 (tm_hour t), zero_padded 2 (tm_min t), zero_padded 2 (tm_sec t)]"
    unfolding gmt_text_def
    by (intro gmt_search_hit gmt_match_print)
      (use t name_tables digits_padded to_string_digits length_to_string_4 in simp_all)
  then show ?thesis
    using t by (simp add: read_date_def month_number atoi_padded)
qed

text \<open>The chronological order of two broken-down times.\<close>

definition tm_before :: "tm \<Rightarrow> tm \<Rightarrow> bool" where
  "tm_before a b =
     lex_less [tm_year a, tm_mon a, tm_mday a, tm_hour a, tm_min a, tm_sec a]
              [tm_year b, tm_mon b, tm_mday b, tm_hour b, tm_min b, tm_sec b]"

text \<open>
  On the texts the program itself prints for two times outside September, the comparison is
  the chronological one: it is false exactly when the first time is earlier.
\<close>

theorem compareGMTStr_chronological:
  assumes "tm_ok a" and "tm_ok b" and "tm_mon a \<noteq> 8" and "tm_mon b \<noteq> 8"
  shows "compareGMTStr d1 d2 (gmt_text a) (gmt_text b) \<longleftrightarrow> \<not> tm_before a b"
  using assms(3,4)
  by (auto simp: compareGMTStr_def read_date_print [OF assms(1)] read_date_print [OF assms(2)]
      tm_before_def Let_def)

definition sample_tm :: "nat \<Rightarrow> nat \<Rightarrow> tm" where
  "sample_tm m d =
     \<lparr>tm_sec = 0, tm_min = 30, tm_hour = 12, tm_mday = d, tm_mon = m, tm_year = 2020, tm_wday = 1\<rparr>"

definition zero_date :: date where
  "zero_date = \<lparr>year = 0, month = 0, day = 0, hour = 0, minute = 0, sec = 0\<rparr>"

theorem compareGMTStr_chronological_witness:
  "compareGMTStr zero_date zero_date (gmt_text (sample_tm 5 2)) (gmt_text (sample_tm 4 3)) \<longleftrightarrow>
     \<not> tm_before (sample_tm 5 2) (sample_tm 4 3)"
  by (rule compareGMTStr_chronological) (simp_all add: tm_ok_def sample_tm_def)

text \<open>
  A date in September is placed before every other date of the same year: the table of month
  names has \<open>Sept\<close> where \<open>strftime\<close> writes \<open>Sep\<close>, and the unknown name counts as
  month 0.
\<close>

theorem compareGMTStr_September:
  assumes "tm_ok a" and "tm_ok b" and "tm_year a = tm_year b" and "tm_mon a = 8" and "tm_mon b \<noteq> 8"
  shows "\<not> compareGMTStr d1 d2 (gmt_text a) (gmt_text b) \<and>
         compareGMTStr d1 d2 (gmt_text b) (gmt_text a)"
  using assms(3,4,5)
  by (simp add: compareGMTStr_def read_date_print [OF assms(1)] read_date_print [OF assms(2)] Let_def)

theorem compareGMTStr_September_witness:
  "\<not> compareGMTStr zero_date zero_date (gmt_text (sample_tm 8 2)) (gmt_text (sample_tm 0 3)) \<and>
     tm_before (sample_tm 0 3) (sample_tm 8 2)"
  using compareGMTStr_September [of "sample_tm 8 2" "sample_tm 0 3" zero_date zero_date]
  by (simp add: tm_ok_def sample_tm_def tm_before_def)

end
