(* ===== verification/Sone_Buffer.thy ===== *)
theory Sone_Buffer
  imports Sone_Prelude
begin

text \<open>
  The byte buffer of \<^verbatim>\<open>src/http_server/Buffer.h\<close> and \<^verbatim>\<open>Buffer.cpp\<close>:
  a \<open>std::vector<char>\<close> with two indices \<open>low\<close> and \<open>high\<close>; the bytes
  in \<open>[low, high)\<close> are the buffered data.

  The vector is its allocation \<open>vec_mem\<close> (whose length is the vector's capacity) and its
  size \<open>vec_size\<close>.  The two indices are \<open>int\<close>, the lengths passed in are
  \<open>size_t\<close>; every mixed comparison is written with the conversion the language
  prescribes.  \<open>reserve\<close> moves the first \<open>size\<close> bytes to a fresh allocation,
  whose other bytes are arbitrary: they are given by the argument \<open>junk\<close>.  A write between
  the size and the capacity stays inside the allocation and is performed; a write past the
  capacity is \<open>Out_of_bounds\<close>.
\<close>

section \<open>State\<close>

record Buffer =
  vec_mem :: "char list"
  vec_size :: nat
  low :: int
  high :: int

definition capcity :: "Buffer \<Rightarrow> nat" where
  "capcity b = length (vec_mem b)"

definition Buffer_new :: Buffer where
  "Buffer_new = \<lparr>vec_mem = replicate 4096 nul, vec_size = 4096, low = 0, high = 0\<rparr>"

section \<open>Lengths\<close>

definition freeLen :: "Buffer \<Rightarrow> int" where
  "freeLen b = to_int32 (low b + int (vec_size b) - high b)"

definition dataLen :: "Buffer \<Rightarrow> int" where
  "dataLen b = to_int32 (high b - low b)"

definition writeLen :: "Buffer \<Rightarrow> int" where
  "writeLen b = to_int32 (int (vec_size b) - high b)"

section \<open>Growing and appending\<close>

definition vec_reserve :: "(nat \<Rightarrow> char) \<Rightarrow> nat \<Rightarrow> Buffer \<Rightarrow> Buffer result" where
  "vec_reserve junk n b =
     (if n > 2 ^ 63 - 1 then Inl Length_error
      else if n \<le> capcity b then Inr b
      else Inr (b\<lparr>vec_mem := take (vec_size b) (vec_mem b) @ map junk [vec_size b..<n]\<rparr>))"

definition copy_at_high :: "char list \<Rightarrow> Buffer \<Rightarrow> Buffer result" where
  "copy_at_high buf b =
     and_then (mem_write (vec_mem b) (high b) buf) (\<lambda>mem.
       Inr (b\<lparr>vec_mem := mem, high := to_int32 (high b + int (length buf))\<rparr>))"

definition Buffer_append :: "(nat \<Rightarrow> char) \<Rightarrow> char list \<Rightarrow> Buffer \<Rightarrow> Buffer result" where
  "Buffer_append junk buf b =
     (let len = length buf in
      if len = 0 then Inr b
      else if len \<le> to_size_t (writeLen b) then copy_at_high buf b
      else if to_size_t (freeLen b) < len then
        and_then (vec_reserve junk ((capcity b + 2 * len) mod 2 ^ 64) b) (copy_at_high buf)
      else
        and_then (mem_read (vec_mem b) (low b) (high b)) (\<lambda>d.
        and_then (mem_write (vec_mem b) 0 d) (\<lambda>mem.
          let b1 = b\<lparr>vec_mem := mem, low := 0\<rparr>;
              b2 = b1\<lparr>high := dataLen b1\<rparr>
          in copy_at_high buf b2)))"

section \<open>Reading from a descriptor\<close>

text \<open>
  \<open>r\<close> is what the system call delivered: \<open>None\<close> for a failure, otherwise the bytes.
  \<open>readv\<close> fills the writable part of the vector first and then the 65536 bytes of
  \<open>extrabuf\<close>.
\<close>

definition Buffer_readv ::
  "(nat \<Rightarrow> char) \<Rightarrow> char list option \<Rightarrow> Buffer \<Rightarrow> (int \<times> Buffer) result" where
  "Buffer_readv junk r b =
     (let len = writeLen b in
      case r of
        None \<Rightarrow> Inr (-1, b)
      | Some xs \<Rightarrow>
          if int (length xs) \<le> len then
            and_then (copy_at_high xs b) (\<lambda>b'. Inr (to_int32 (int (length xs)), b'))
          else
            and_then (mem_write (vec_mem b) (high b) (take (nat len) xs)) (\<lambda>mem.
            and_then
              (Buffer_append junk (drop (nat len) xs)
                (b\<lparr>vec_mem := mem, high := to_int32 (int (vec_size b))\<rparr>)) (\<lambda>b'.
            Inr (to_int32 (int (length xs)), b'))))"

definition Buffer_read_n ::
  "(nat \<Rightarrow> char) \<Rightarrow> (nat \<Rightarrow> char list option) \<Rightarrow> nat \<Rightarrow> Buffer \<Rightarrow> (int \<times> Buffer) result" where
  "Buffer_read_n junk rd len b =
     and_then
       (if len > to_size_t (writeLen b)
        then vec_reserve junk ((capcity b + 2 * len) mod 2 ^ 64) b else Inr b) (\<lambda>b1.
     case rd len of
       None \<Rightarrow> Inr (-1, b1\<lparr>high := to_int32 (high b1 - 1)\<rparr>)
     | Some xs \<Rightarrow> and_then (copy_at_high xs b1) (\<lambda>b2. Inr (to_int32 (int (length xs)), b2)))"

section \<open>Access to the data\<close>

definition peek_at :: "Buffer \<Rightarrow> int \<Rightarrow> char result" where
  "peek_at b i = and_then (mem_read (vec_mem b) (low b + i) (low b + i + 1)) (\<lambda>cs. Inr (hd cs))"

definition getDataToString :: "Buffer \<Rightarrow> nat \<Rightarrow> nat \<Rightarrow> string result" where
  "getDataToString b n pos =
     (if n > to_size_t (dataLen b - int pos) then Inl Logic_error
      else mem_read (vec_mem b) (low b + int pos) (low b + int pos + int n))"

definition findChar :: "Buffer \<Rightarrow> char \<Rightarrow> nat \<Rightarrow> int result" where
  "findChar b c pos =
     (let len = to_size_t (dataLen b) in
      if pos < len then
        and_then (mem_read (vec_mem b) (low b + int pos) (low b + int len)) (\<lambda>d.
          let p = pos + find_idx (\<lambda>x. x = c) d
          in Inr (if p \<noteq> len then int p else -1))
      else Inr (-1))"

definition findChar_range :: "Buffer \<Rightarrow> char \<Rightarrow> nat \<Rightarrow> nat \<Rightarrow> int result" where
  "findChar_range b c beg en =
     (if beg \<ge> en \<or> en > to_size_t (dataLen b) then Inr (-1)
      else
        and_then (mem_read (vec_mem b) (low b + int beg) (low b + int en)) (\<lambda>d.
          let p = beg + find_idx (\<lambda>x. x = c) d
          in Inr (if p \<noteq> en then int p else -1)))"

definition moveLow :: "nat \<Rightarrow> Buffer \<Rightarrow> bool \<times> Buffer" where
  "moveLow n b =
     (if to_size_t (int n + low b) > to_size_t (high b) then (False, b)
      else (True, b\<lparr>low := to_int32 (low b + int n)\<rparr>))"

definition moveHigh :: "nat \<Rightarrow> Buffer \<Rightarrow> bool \<times> Buffer" where
  "moveHigh n b =
     (if to_size_t (low b) > n then (False, b)
      else (True, b\<lparr>high := to_int32 (int n)\<rparr>))"

section \<open>Invariant and abstraction\<close>

definition wf_buffer :: "Buffer \<Rightarrow> bool" where
  "wf_buffer b \<longleftrightarrow>
     0 \<le> low b \<and> low b \<le> high b \<and> high b \<le> int (vec_size b) \<and>
     vec_size b \<le> capcity b \<and> capcity b < 2 ^ 31"

text \<open>The weaker invariant that survives growth: the data lies inside the allocation, but
  possibly past the vector's size.\<close>

definition alloc_buffer :: "Buffer \<Rightarrow> bool" where
  "alloc_buffer b \<longleftrightarrow>
     0 \<le> low b \<and> low b \<le> high b \<and> high b \<le> int (capcity b) \<and>
     vec_size b \<le> capcity b \<and> capcity b < 2 ^ 31"

definition buf_data :: "Buffer \<Rightarrow> char list" where
  "buf_data b = take (nat (high b - low b)) (drop (nat (low b)) (vec_mem b))"

lemma wf_alloc_buffer: "wf_buffer b \<Longrightarrow> alloc_buffer b"
  by (auto simp: wf_buffer_def alloc_buffer_def)

lemma wf_Buffer_new: "wf_buffer Buffer_new"
  by (simp add: wf_buffer_def Buffer_new_def capcity_def)

lemma buf_data_new: "buf_data Buffer_new = []"
  by (simp add: buf_data_def Buffer_new_def)

lemma length_buf_data: "alloc_buffer b \<Longrightarrow> int (length (buf_data b)) = high b - low b"
  by (auto simp: buf_data_def alloc_buffer_def capcity_def)

lemma dataLen_eq: "alloc_buffer b \<Longrightarrow> dataLen b = int (length (buf_data b))"
  by (subst length_buf_data) (auto simp: dataLen_def alloc_buffer_def to_int32_id)

lemma length_buf_data_bound: "alloc_buffer b \<Longrightarrow> length (buf_data b) < 2 ^ 31"
  by (auto simp: buf_data_def alloc_buffer_def capcity_def)

lemma to_size_t_dataLen: "alloc_buffer b \<Longrightarrow> to_size_t (dataLen b) = length (buf_data b)"
  using length_buf_data_bound [of b] by (simp add: dataLen_eq to_size_t_id)

lemma writeLen_eq: "wf_buffer b \<Longrightarrow> writeLen b = int (vec_size b) - high b"
  by (auto simp: writeLen_def wf_buffer_def to_int32_id)

lemma freeLen_eq: "wf_buffer b \<Longrightarrow> freeLen b = low b + int (vec_size b) - high b"
  by (auto simp: freeLen_def wf_buffer_def to_int32_id)

text \<open>Reading a range of the data.\<close>

lemma mem_read_data:
  assumes "alloc_buffer b" and "i \<le> j" and "j \<le> length (buf_data b)"
  shows "mem_read (vec_mem b) (low b + int i) (low b + int j) = Inr (take (j - i) (drop i (buf_data b)))"
proof -
  have h: "int (length (buf_data b)) = high b - low b" using assms(1) by (rule length_buf_data)
  from assms(1) have a: "0 \<le> low b" "high b \<le> int (length (vec_mem b))"
    by (auto simp: alloc_buffer_def capcity_def)
  have m: "nat (low b + int i) = nat (low b) + i" using a(1) by simp
  have "take (j - i) (drop i (buf_data b)) = take (j - i) (drop (nat (low b) + i) (vec_mem b))"
  proof -
    have "j - i \<le> nat (high b - low b) - i" using h assms(3) by linarith
    then show ?thesis by (simp add: buf_data_def drop_take min_absorb1 add.commute)
  qed
  moreover have "nat (int j - int i) = j - i" by simp
  ultimately show ?thesis using a h m assms(2,3) by (simp add: mem_read_def)
qed

section \<open>Correctness of the accessors\<close>

lemma peek_at_data:
  assumes "alloc_buffer b" and "i < length (buf_data b)"
  shows "peek_at b (int i) = Inr (buf_data b ! i)"
proof -
  have "mem_read (vec_mem b) (low b + int i) (low b + int (i + 1)) =
        Inr (take (i + 1 - i) (drop i (buf_data b)))"
    using assms by (intro mem_read_data) simp_all
  then have "mem_read (vec_mem b) (low b + int i) (low b + int i + 1) = Inr [buf_data b ! i]"
    using assms(2) by (simp add: take_Suc hd_drop_conv_nth algebra_simps)
  then show ?thesis by (simp add: peek_at_def)
qed

lemma getDataToString_data:
  assumes "alloc_buffer b" and "pos + n \<le> length (buf_data b)"
  shows "getDataToString b n pos = Inr (take n (drop pos (buf_data b)))"
proof -
  have "to_size_t (dataLen b - int pos) = length (buf_data b) - pos"
    using assms length_buf_data_bound [of b] by (simp add: dataLen_eq to_size_t_id nat_diff_distrib)
  moreover have "mem_read (vec_mem b) (low b + int pos) (low b + int (pos + n)) =
        Inr (take (pos + n - pos) (drop pos (buf_data b)))"
    using assms by (intro mem_read_data) simp_all
  ultimately show ?thesis using assms(2) by (simp add: getDataToString_def add.assoc)
qed

lemma getDataToString_too_long:
  assumes "alloc_buffer b" and "pos \<le> length (buf_data b)" and "length (buf_data b) < pos + n"
  shows "getDataToString b n pos = Inl Logic_error"
proof -
  have "to_size_t (dataLen b - int pos) = length (buf_data b) - pos"
    using assms length_buf_data_bound [of b] by (simp add: dataLen_eq to_size_t_id nat_diff_distrib)
  moreover have "length (buf_data b) - pos < n" using assms(2,3) by linarith
  ultimately show ?thesis by (simp add: getDataToString_def)
qed

definition index_or_neg :: "nat \<Rightarrow> nat \<Rightarrow> int" where
  "index_or_neg p n = (if p < n then int p else -1)"

lemma findChar_data:
  assumes "alloc_buffer b"
  shows "findChar b c pos =
    Inr (index_or_neg (pos + find_idx (\<lambda>x. x = c) (drop pos (buf_data b))) (length (buf_data b)))"
proof (cases "pos < length (buf_data b)")
  case True
  have "find_idx (\<lambda>x. x = c) (drop pos (buf_data b)) \<le> length (buf_data b) - pos"
    using find_idx_le [of _ "drop pos (buf_data b)"] by simp
  with True assms show ?thesis
    by (auto simp: findChar_def to_size_t_dataLen mem_read_data index_or_neg_def Let_def)
next
  case False
  with assms show ?thesis by (simp add: findChar_def to_size_t_dataLen index_or_neg_def)
qed

lemma findChar_range_data:
  assumes "alloc_buffer b" and "en \<le> length (buf_data b)"
  shows "findChar_range b c beg en =
    Inr (index_or_neg (beg + find_idx (\<lambda>x. x = c) (take (en - beg) (drop beg (buf_data b)))) en)"
proof (cases "beg < en")
  case True
  have "find_idx (\<lambda>x. x = c) (take (en - beg) (drop beg (buf_data b))) \<le> en - beg"
    using find_idx_le [of _ "take (en - beg) (drop beg (buf_data b))"] assms(2) by simp
  with True assms show ?thesis
    by (auto simp: findChar_range_def to_size_t_dataLen mem_read_data index_or_neg_def Let_def)
next
  case False
  with assms show ?thesis by (simp add: findChar_range_def index_or_neg_def)
qed

lemma findChar_range_out:
  "alloc_buffer b \<Longrightarrow> length (buf_data b) < en \<Longrightarrow> findChar_range b c beg en = Inr (-1)"
  by (simp add: findChar_range_def to_size_t_dataLen)

lemma moveLow_data:
  assumes "alloc_buffer b" and "n \<le> length (buf_data b)"
  shows "\<exists>b'. moveLow n b = (True, b') \<and> alloc_buffer b' \<and> buf_data b' = drop n (buf_data b) \<and>
              vec_size b' = vec_size b \<and> vec_mem b' = vec_mem b \<and> high b' = high b"
proof -
  have h: "int (length (buf_data b)) = high b - low b" using assms(1) by (rule length_buf_data)
  from assms(1) have a: "0 \<le> low b" "high b \<le> int (length (vec_mem b))" "high b < 2 ^ 31"
    by (auto simp: alloc_buffer_def capcity_def)
  let ?b = "b\<lparr>low := low b + int n\<rparr>"
  from a h assms(2) have t: "to_size_t (int n + low b) = nat (int n + low b)"
    "to_size_t (high b) = nat (high b)" "to_int32 (low b + int n) = low b + int n"
    by (simp_all add: cint_simps)
  have "moveLow n b = (True, ?b)"
    unfolding moveLow_def using t a h assms(2) by simp
  moreover have "alloc_buffer ?b"
    using assms a h by (auto simp: alloc_buffer_def capcity_def)
  moreover have "buf_data ?b = drop n (buf_data b)"
  proof -
    have "nat (low b + int n) = n + nat (low b)" using a(1) by simp
    moreover have "nat (high b - low b) - n = nat (high b - (low b + int n))" by simp
    ultimately show ?thesis by (simp add: buf_data_def drop_take)
  qed
  ultimately show ?thesis by auto
qed

lemma moveLow_too_far:
  assumes "alloc_buffer b" and "length (buf_data b) < n" and "n < 2 ^ 63"
  shows "moveLow n b = (False, b)"
proof -
  have h: "int (length (buf_data b)) = high b - low b" using assms(1) by (rule length_buf_data)
  from assms(1) have "0 \<le> low b" "high b < 2 ^ 31"
    by (auto simp: alloc_buffer_def)
  with h assms(2,3) show ?thesis by (simp add: moveLow_def cint_simps)
qed

section \<open>Correctness of append\<close>

lemma copy_at_high_data:
  assumes "alloc_buffer b" and "high b + int (length xs) \<le> int (capcity b)"
  shows "\<exists>b'. copy_at_high xs b = Inr b' \<and> alloc_buffer b' \<and> buf_data b' = buf_data b @ xs \<and>
              high b' = high b + int (length xs) \<and> vec_size b' = vec_size b \<and>
              capcity b' = capcity b \<and> low b' = low b"
proof -
  from assms(1) have a: "0 \<le> low b" "low b \<le> high b" "capcity b < 2 ^ 31" "vec_size b \<le> capcity b"
    by (auto simp: alloc_buffer_def)
  let ?mem = "take (nat (high b)) (vec_mem b) @ xs @ drop (nat (high b) + length xs) (vec_mem b)"
  let ?b = "b\<lparr>vec_mem := ?mem, high := high b + int (length xs)\<rparr>"
  have "mem_write (vec_mem b) (high b) xs = Inr ?mem"
    using a assms(2) by (simp add: mem_write_def capcity_def)
  moreover have "to_int32 (high b + int (length xs)) = high b + int (length xs)"
    using a assms(2) by (simp add: to_int32_id)
  ultimately have "copy_at_high xs b = Inr ?b" by (simp add: copy_at_high_def)
  moreover have len: "length ?mem = length (vec_mem b)"
    using a assms(2) by (simp add: capcity_def)
  moreover from len have "alloc_buffer ?b"
    using a assms(2) by (simp add: alloc_buffer_def capcity_def)
  moreover have "buf_data ?b = buf_data b @ xs"
  proof -
    have e: "nat (high b + int (length xs) - low b) = nat (high b - low b) + length xs"
      and l: "nat (high b) = nat (low b) + nat (high b - low b)"
      using a(1,2) by simp_all
    have "nat (low b) + nat (high b - low b) \<le> length (vec_mem b)"
      using a assms(2) by (simp add: capcity_def)
    note splice = take_drop_splice [OF this, of xs]
    have "buf_data ?b = take (nat (high b + int (length xs) - low b)) (drop (nat (low b)) ?mem)"
      by (simp add: buf_data_def del: take_append drop_append)
    also have "\<dots> = buf_data b @ xs"
      unfolding e by (simp only: l splice buf_data_def)
    finally show ?thesis .
  qed
  ultimately show ?thesis by (simp add: capcity_def)
qed

lemma vec_reserve_data:
  assumes "wf_buffer b" and "n < 2 ^ 31"
  shows "\<exists>b'. vec_reserve junk n b = Inr b' \<and> wf_buffer b' \<and> buf_data b' = buf_data b \<and>
              high b' = high b \<and> vec_size b' = vec_size b \<and> capcity b' = max n (capcity b) \<and> low b' = low b"
proof (cases "n \<le> capcity b")
  case True
  with assms show ?thesis by (auto simp: vec_reserve_def)
next
  case False
  from assms(1) have a: "0 \<le> low b" "low b \<le> high b" "high b \<le> int (vec_size b)" "vec_size b \<le> capcity b"
    by (auto simp: wf_buffer_def)
  let ?b = "b\<lparr>vec_mem := take (vec_size b) (vec_mem b) @ map junk [vec_size b..<n]\<rparr>"
  have "vec_reserve junk n b = Inr ?b" using False assms(2) by (simp add: vec_reserve_def)
  moreover have c: "capcity ?b = n" using False a by (simp add: capcity_def)
  moreover have "wf_buffer ?b" using a c False assms(2) by (simp add: wf_buffer_def)
  moreover have "buf_data ?b = buf_data b"
  proof -
    have "nat (high b - low b) \<le> vec_size b - nat (low b)" using a(1,2,3) by linarith
    moreover have "length (take (vec_size b) (vec_mem b)) = vec_size b"
      using a(4) by (simp add: capcity_def)
    ultimately show ?thesis by (simp add: buf_data_def drop_take min_absorb1)
  qed
  ultimately show ?thesis using False by simp
qed

lemma append_fits:
  assumes "wf_buffer b" and "int (length xs) \<le> writeLen b"
  shows "\<exists>b'. Buffer_append junk xs b = Inr b' \<and> wf_buffer b' \<and> buf_data b' = buf_data b @ xs \<and>
              writeLen b' = writeLen b - int (length xs)"
proof (cases "xs = []")
  case True
  with assms(1) show ?thesis by (simp add: Buffer_append_def)
next
  case False
  note wl = writeLen_eq [OF assms(1)]
  from assms(1) have a: "high b \<le> int (vec_size b)" "vec_size b \<le> capcity b" "0 \<le> high b"
    "vec_size b < 2 ^ 31" "low b \<le> high b"
    by (auto simp: wf_buffer_def)
  then have t: "to_size_t (writeLen b) = nat (writeLen b)" using wl by (simp add: to_size_t_id)
  have "high b + int (length xs) \<le> int (capcity b)" using a assms(2) wl by linarith
  from copy_at_high_data [OF wf_alloc_buffer [OF assms(1)] this] obtain b' where
    b': "copy_at_high xs b = Inr b'" "alloc_buffer b'" "buf_data b' = buf_data b @ xs"
      "high b' = high b + int (length xs)" "vec_size b' = vec_size b" "capcity b' = capcity b"
    by blast
  from b'(2,4,5,6) assms(2) wl have wf: "wf_buffer b'" by (auto simp: wf_buffer_def alloc_buffer_def)
  moreover have "writeLen b' = writeLen b - int (length xs)"
    using writeLen_eq [OF wf] wl b'(4,5) by simp
  moreover have "Buffer_append junk xs b = Inr b'"
    using False assms(2) t b'(1) by (simp add: Buffer_append_def le_nat_iff)
  ultimately show ?thesis using b'(3) by blast
qed

lemma append_grows:
  assumes "wf_buffer b" and "freeLen b < int (length xs)" and "capcity b + 2 * length xs < 2 ^ 31"
  shows "\<exists>b'. Buffer_append junk xs b = Inr b' \<and> alloc_buffer b' \<and> buf_data b' = buf_data b @ xs \<and>
              capcity b' = capcity b + 2 * length xs \<and> vec_size b' = vec_size b \<and>
              high b' = high b + int (length xs)"
proof -
  note wl = writeLen_eq [OF assms(1)] and fl = freeLen_eq [OF assms(1)]
  from assms(1) have a: "0 \<le> low b" "low b \<le> high b" "high b \<le> int (vec_size b)"
    "vec_size b \<le> capcity b" "vec_size b < 2 ^ 31"
    by (auto simp: wf_buffer_def)
  then have t: "to_size_t (writeLen b) = nat (writeLen b)" "to_size_t (freeLen b) = nat (freeLen b)"
    using wl fl by (simp_all add: to_size_t_id)
  have n: "\<not> length xs \<le> nat (writeLen b)" "nat (freeLen b) < length xs"
    using a wl fl assms(2) by linarith+
  then have ne: "xs \<noteq> []" by auto
  let ?n = "(capcity b + 2 * length xs) mod 2 ^ 64"
  have m: "?n = capcity b + 2 * length xs" using assms(3) by simp
  from vec_reserve_data [OF assms(1), of ?n junk] assms(3) m obtain b1 where
    b1: "vec_reserve junk ?n b = Inr b1" "wf_buffer b1" "buf_data b1 = buf_data b"
      "high b1 = high b" "vec_size b1 = vec_size b" "capcity b1 = capcity b + 2 * length xs"
    by auto
  have "high b1 + int (length xs) \<le> int (capcity b1)" using a b1(4,6) by linarith
  from copy_at_high_data [OF wf_alloc_buffer [OF b1(2)] this] obtain b' where
    b': "copy_at_high xs b1 = Inr b'" "alloc_buffer b'" "buf_data b' = buf_data b @ xs"
      "capcity b' = capcity b + 2 * length xs" "vec_size b' = vec_size b"
      "high b' = high b + int (length xs)"
    using b1 by auto
  have "Buffer_append junk xs b = Inr b'"
    using n ne t b1(1) b'(1) by (simp add: Buffer_append_def Let_def)
  with b' show ?thesis by blast
qed

text \<open>
  C17. Appending to a well-formed buffer is list append on its data, both when the bytes fit
  behind the data and when the allocation has to grow; in the first case the buffer stays
  well-formed.
\<close>

theorem Buffer_append_correct:
  assumes "wf_buffer b"
    and "int (length xs) \<le> writeLen b \<or> freeLen b < int (length xs)"
    and "capcity b + 2 * length xs < 2 ^ 31"
  shows "\<exists>b'. Buffer_append junk xs b = Inr b' \<and> alloc_buffer b' \<and>
              buf_data b' = buf_data b @ xs \<and>
              (int (length xs) \<le> writeLen b \<longrightarrow> wf_buffer b')"
proof (cases "int (length xs) \<le> writeLen b")
  case True
  from append_fits [OF assms(1) True, of junk] show ?thesis by (blast intro: wf_alloc_buffer)
next
  case False
  with assms(2) append_grows [OF assms(1) _ assms(3), of junk] show ?thesis by auto
qed

definition sample_buffer :: Buffer where
  "sample_buffer = \<lparr>vec_mem = ''abcdef'', vec_size = 6, low = 2, high = 4\<rparr>"

lemma wf_sample_buffer: "wf_buffer sample_buffer"
  by (simp add: sample_buffer_def wf_buffer_def capcity_def)

theorem Buffer_append_correct_witness:
  "\<exists>b'. Buffer_append (\<lambda>_. nul) ''XY'' sample_buffer = Inr b' \<and> alloc_buffer b' \<and>
        buf_data b' = buf_data sample_buffer @ ''XY'' \<and>
        (int (length ''XY'') \<le> writeLen sample_buffer \<longrightarrow> wf_buffer b')"
  by (rule Buffer_append_correct [OF wf_sample_buffer])
    (simp_all add: writeLen_def sample_buffer_def capcity_def to_int32_def)

lemma append_compaction:
  assumes "wf_buffer b" and "capcity b = vec_size b"
    and "writeLen b < int (length xs)" and "int (length xs) \<le> freeLen b"
  shows "Buffer_append junk xs b = Inl Out_of_bounds"
proof -
  note wl = writeLen_eq [OF assms(1)] and fl = freeLen_eq [OF assms(1)]
  from assms(1) have a: "0 \<le> low b" "low b \<le> high b" "high b \<le> int (vec_size b)" "vec_size b < 2 ^ 31"
    by (auto simp: wf_buffer_def)
  then have t: "to_size_t (writeLen b) = nat (writeLen b)" "to_size_t (freeLen b) = nat (freeLen b)"
    using wl fl by (simp_all add: to_size_t_id)
  have n: "\<not> length xs \<le> nat (writeLen b)" "\<not> nat (freeLen b) < length xs"
    using a wl fl assms(3,4) by linarith+
  then have ne: "xs \<noteq> []" by auto
  have d: "mem_read (vec_mem b) (low b) (high b) = Inr (buf_data b)"
    using a assms(2) by (simp add: mem_read_def buf_data_def capcity_def)
  have h: "int (length (buf_data b)) = high b - low b"
    using assms(1) by (intro length_buf_data wf_alloc_buffer)
  obtain mem where w: "mem_write (vec_mem b) 0 (buf_data b) = Inr mem"
    using a h assms(2) by (simp add: mem_write_def capcity_def)
  then have l: "length mem = vec_size b" using assms(2) by (simp add: mem_write_length capcity_def)
  let ?b = "b\<lparr>vec_mem := mem, low := 0\<rparr>"
  have "dataLen ?b = high b" using a by (simp add: dataLen_def to_int32_id)
  then have "copy_at_high xs (?b\<lparr>high := dataLen ?b\<rparr>) = Inl Out_of_bounds"
    using l wl assms(3) by (simp add: copy_at_high_def mem_write_def)
  then show ?thesis using n ne t d w by (simp add: Buffer_append_def Let_def)
qed

text \<open>
  When the bytes do not fit behind the data but do fit into the free space, the code
  compacts the data; \<open>high\<close> is recomputed after \<open>low\<close> was reset, so it does not
  move, and on a vector whose capacity is its size (every buffer the server creates, until it
  has grown) the copy that follows always runs past the end of the allocation.
\<close>

theorem Buffer_append_compaction_overflows:
  assumes "wf_buffer b" and "capcity b = vec_size b"
    and "writeLen b < int (length xs)" and "int (length xs) \<le> freeLen b"
  shows "Buffer_append junk xs b = Inl Out_of_bounds"
  using assms by (rule append_compaction)

theorem Buffer_append_compaction_overflows_witness:
  "Buffer_append (\<lambda>_. nul) ''XYZ'' sample_buffer = Inl Out_of_bounds"
  by (rule Buffer_append_compaction_overflows [OF wf_sample_buffer])
    (simp_all add: writeLen_def freeLen_def sample_buffer_def capcity_def to_int32_def)

text \<open>
  After the allocation has grown, \<open>high\<close> lies past the vector's size, so the writable
  length is negative and converts to a huge \<open>size_t\<close>: a later append never grows again,
  and one that does not fit into the allocation writes past its end.
\<close>

theorem Buffer_append_after_growth_overflows:
  assumes "alloc_buffer b" and "int (vec_size b) < high b"
    and "int (capcity b) < high b + int (length xs)" and "length xs < 2 ^ 63"
  shows "Buffer_append junk xs b = Inl Out_of_bounds"
proof -
  from assms(1) have a: "high b \<le> int (capcity b)" "capcity b < 2 ^ 31" by (auto simp: alloc_buffer_def)
  have "writeLen b = int (vec_size b) - high b"
    unfolding writeLen_def using a assms(2) by (simp add: to_int32_id)
  then have "to_size_t (writeLen b) = nat (2 ^ 64 + (int (vec_size b) - high b))"
    using a assms(2) by (simp add: to_size_t_neg)
  moreover have "int (length xs) \<le> 2 ^ 64 + (int (vec_size b) - high b)"
    using a assms(4) by simp
  ultimately have "length xs \<le> to_size_t (writeLen b)" by simp
  moreover have "copy_at_high xs b = Inl Out_of_bounds"
    using assms(3) by (simp add: copy_at_high_def mem_write_def capcity_def)
  moreover have "xs \<noteq> []" using a(1) assms(3) by auto
  ultimately show ?thesis by (simp add: Buffer_append_def Let_def)
qed

theorem Buffer_append_after_growth_overflows_witness:
  "Buffer_append (\<lambda>_. nul) ''XYZ'' \<lparr>vec_mem = ''abcdef'', vec_size = 2, low = 0, high = 4\<rparr> = Inl Out_of_bounds"
  by (rule Buffer_append_after_growth_overflows) (simp_all add: alloc_buffer_def capcity_def)

section \<open>Correctness of the reads\<close>

lemma readv_fits:
  assumes "wf_buffer b" and "int (length xs) \<le> writeLen b"
  shows "\<exists>b'. Buffer_readv junk (Some xs) b = Inr (int (length xs), b') \<and> wf_buffer b' \<and>
              buf_data b' = buf_data b @ xs"
proof -
  note wl = writeLen_eq [OF assms(1)]
  from assms(1) have a: "high b \<le> int (vec_size b)" "vec_size b \<le> capcity b" "0 \<le> high b"
    "capcity b < 2 ^ 31" "low b \<le> high b"
    by (auto simp: wf_buffer_def)
  then have "high b + int (length xs) \<le> int (capcity b)" using assms(2) wl by linarith
  from copy_at_high_data [OF wf_alloc_buffer [OF assms(1)] this] obtain b' where
    b': "copy_at_high xs b = Inr b'" "alloc_buffer b'" "buf_data b' = buf_data b @ xs"
      "high b' = high b + int (length xs)" "vec_size b' = vec_size b" "capcity b' = capcity b"
    by blast
  moreover have "wf_buffer b'" using b' assms(2) wl by (auto simp: wf_buffer_def alloc_buffer_def)
  moreover have "to_int32 (int (length xs)) = int (length xs)"
    using a assms(2) wl by (simp add: to_int32_id)
  ultimately show ?thesis using assms(2) by (simp add: Buffer_readv_def)
qed

lemma readv_spills:
  assumes "wf_buffer b" and "writeLen b + low b < int (length xs)"
    and "capcity b + 2 * length xs < 2 ^ 31"
  shows "\<exists>b'. Buffer_readv junk (Some xs) b = Inr (int (length xs), b') \<and> alloc_buffer b' \<and>
              buf_data b' = buf_data b @ xs"
proof -
  note wl = writeLen_eq [OF assms(1)]
  from assms(1) have a: "0 \<le> low b" "low b \<le> high b" "high b \<le> int (vec_size b)"
    "vec_size b \<le> capcity b" "capcity b < 2 ^ 31"
    by (auto simp: wf_buffer_def)
  let ?n = "nat (writeLen b)" and ?ys = "take (nat (writeLen b)) xs"
  have "?n < length xs" using a wl assms(2) by linarith
  moreover from this have "length ?ys = ?n" by simp
  moreover have "high b + int ?n = int (vec_size b)" using a(3) wl by simp
  ultimately have n: "?n < length xs" "length ?ys = ?n" "high b + int ?n = int (vec_size b)" .
  then have "high b + int (length ?ys) \<le> int (capcity b)" using a by linarith
  from copy_at_high_data [OF wf_alloc_buffer [OF assms(1)] this] obtain b1 where
    b1: "copy_at_high ?ys b = Inr b1" "alloc_buffer b1" "buf_data b1 = buf_data b @ ?ys"
      "high b1 = int (vec_size b)" "vec_size b1 = vec_size b" "capcity b1 = capcity b" "low b1 = low b"
    using n by auto
  then obtain mem where m: "mem_write (vec_mem b) (high b) ?ys = Inr mem"
      "b1 = b\<lparr>vec_mem := mem, high := to_int32 (int (vec_size b))\<rparr>"
    using n by (auto simp: copy_at_high_def res_simps)
  have wf1: "wf_buffer b1" using b1 a by (auto simp: wf_buffer_def)
  have "freeLen b1 < int (length (drop ?n xs))"
    using freeLen_eq [OF wf1] b1 n(1) a wl assms(2) by simp
  moreover have "capcity b1 + 2 * length (drop ?n xs) < 2 ^ 31"
    using b1(6) assms(3) by simp
  ultimately obtain b' where b': "Buffer_append junk (drop ?n xs) b1 = Inr b'" "alloc_buffer b'"
      "buf_data b' = buf_data b1 @ drop ?n xs"
    using append_grows [OF wf1, of "drop ?n xs" junk] by auto
  have "to_int32 (int (length xs)) = int (length xs)" using assms(3) by (simp add: to_int32_id)
  moreover have "\<not> int (length xs) \<le> writeLen b" using assms(2) a by linarith
  ultimately have "Buffer_readv junk (Some xs) b = Inr (int (length xs), b')"
    using m b'(1) by (simp add: Buffer_readv_def Let_def)
  with b' b1(3) show ?thesis by simp
qed

text \<open>
  What \<open>readv\<close> delivered ends up behind the buffered data, in order: in the vector when
  it fits there, otherwise through the 64k spill buffer and an append that grows the vector; a
  failed call leaves the buffer as it was.
\<close>

theorem Buffer_readv_correct:
  assumes "wf_buffer b" and "capcity b + 2 * length xs < 2 ^ 31"
    and "int (length xs) \<le> writeLen b \<or> writeLen b + low b < int (length xs)"
  shows "(\<exists>b'. Buffer_readv junk (Some xs) b = Inr (int (length xs), b') \<and> alloc_buffer b' \<and>
               buf_data b' = buf_data b @ xs)
         \<and> Buffer_readv junk None b = Inr (-1, b)"
proof
  from assms(3) show "\<exists>b'. Buffer_readv junk (Some xs) b = Inr (int (length xs), b') \<and>
      alloc_buffer b' \<and> buf_data b' = buf_data b @ xs"
  proof
    assume "int (length xs) \<le> writeLen b"
    from readv_fits [OF assms(1) this] show ?thesis by (blast intro: wf_alloc_buffer)
  next
    assume "writeLen b + low b < int (length xs)"
    from readv_spills [OF assms(1) this assms(2)] show ?thesis .
  qed
  show "Buffer_readv junk None b = Inr (-1, b)" by (simp add: Buffer_readv_def)
qed

theorem Buffer_readv_correct_witness:
  "(\<exists>b'. Buffer_readv (\<lambda>_. nul) (Some ''hello'') sample_buffer = Inr (int (length ''hello''), b') \<and>
         alloc_buffer b' \<and> buf_data b' = buf_data sample_buffer @ ''hello'')
   \<and> Buffer_readv (\<lambda>_. nul) None sample_buffer = Inr (-1, sample_buffer)"
  by (rule Buffer_readv_correct [OF wf_sample_buffer])
    (simp_all add: writeLen_def sample_buffer_def capcity_def to_int32_def)

text \<open>
  \<open>read(fd, len)\<close> adds the result of the system call to \<open>high\<close> without looking
  at it: when the call fails, the last buffered byte is dropped.
\<close>

theorem Buffer_read_n_failure_drops_byte:
  assumes "wf_buffer b" and "buf_data b \<noteq> []" and "rd len = None"
    and "int len \<le> writeLen b"
  shows "\<exists>b'. Buffer_read_n junk rd len b = Inr (-1, b') \<and> buf_data b' = butlast (buf_data b)"
proof -
  note wl = writeLen_eq [OF assms(1)] and al = wf_alloc_buffer [OF assms(1)]
  note h = length_buf_data [OF al]
  from assms(1) have a: "0 \<le> low b" "high b \<le> int (vec_size b)" "vec_size b < 2 ^ 31" "low b \<le> high b"
    by (auto simp: wf_buffer_def)
  from assms(2) h have "low b < high b" using length_greater_0_conv [of "buf_data b"] by linarith
  then have t: "to_int32 (high b - 1) = high b - 1" using a by (simp add: to_int32_id)
  have "\<not> len > to_size_t (writeLen b)" using a wl assms(4) by (simp add: to_size_t_id)
  then have "Buffer_read_n junk rd len b = Inr (-1, b\<lparr>high := high b - 1\<rparr>)"
    using assms(3) t by (simp add: Buffer_read_n_def)
  moreover have "buf_data (b\<lparr>high := high b - 1\<rparr>) = butlast (buf_data b)"
  proof -
    have e: "nat (high b - 1 - low b) = length (buf_data b) - 1" using h by linarith
    have "buf_data (b\<lparr>high := high b - 1\<rparr>) = take (nat (high b - 1 - low b)) (buf_data b)"
      by (simp add: buf_data_def)
    also have "\<dots> = butlast (buf_data b)" unfolding e by (simp only: butlast_conv_take)
    finally show ?thesis .
  qed
  ultimately show ?thesis by blast
qed

theorem Buffer_read_n_failure_drops_byte_witness:
  "\<exists>b'. Buffer_read_n (\<lambda>_. nul) (\<lambda>_. None) 1 sample_buffer = Inr (-1, b') \<and>
        buf_data b' = butlast (buf_data sample_buffer)"
  by (rule Buffer_read_n_failure_drops_byte [OF wf_sample_buffer])
    (simp_all add: writeLen_def sample_buffer_def to_int32_def buf_data_def)

lemma read_n_fits:
  assumes "wf_buffer b" and "int len \<le> writeLen b" and "rd len = Some xs" and "length xs \<le> len"
  shows "\<exists>b'. Buffer_read_n junk rd len b = Inr (int (length xs), b') \<and> wf_buffer b' \<and>
              buf_data b' = buf_data b @ xs \<and> writeLen b' = writeLen b - int (length xs)"
proof -
  note wl = writeLen_eq [OF assms(1)]
  from assms(1) have a: "high b \<le> int (vec_size b)" "vec_size b \<le> capcity b" "0 \<le> high b"
    "capcity b < 2 ^ 31" "low b \<le> high b" "vec_size b < 2 ^ 31"
    by (auto simp: wf_buffer_def)
  have fit: "high b + int (length xs) \<le> int (capcity b)" using a assms(2,4) wl by linarith
  from copy_at_high_data [OF wf_alloc_buffer [OF assms(1)] fit] obtain b' where
    b': "copy_at_high xs b = Inr b'" "alloc_buffer b'" "buf_data b' = buf_data b @ xs"
      "high b' = high b + int (length xs)" "vec_size b' = vec_size b" "capcity b' = capcity b"
    by blast
  have wf: "wf_buffer b'" using b' assms(2,4) wl by (auto simp: wf_buffer_def alloc_buffer_def)
  have "\<not> len > to_size_t (writeLen b)" using a wl assms(2) by (simp add: to_size_t_id)
  moreover have "to_int32 (int (length xs)) = int (length xs)" using fit a by (simp add: to_int32_id)
  ultimately have "Buffer_read_n junk rd len b = Inr (int (length xs), b')"
    using assms(3) b'(1) by (simp add: Buffer_read_n_def)
  moreover have "writeLen b' = writeLen b - int (length xs)"
    using writeLen_eq [OF wf] wl b'(4,5) by simp
  ultimately show ?thesis using b'(3) wf by blast
qed

section \<open>The interface the parsers use\<close>

text \<open>
  What a client that takes lines off the front of a buffer relies on: the searches, the copy
  out, the access to one byte and the consumption, each described on the contents only.
\<close>

locale byte_queue =
  fixes invar :: "'b \<Rightarrow> bool"
    and contents :: "'b \<Rightarrow> char list"
    and fetch :: "'b \<Rightarrow> nat \<Rightarrow> nat \<Rightarrow> string result"
    and search :: "'b \<Rightarrow> char \<Rightarrow> nat \<Rightarrow> int result"
    and search_range :: "'b \<Rightarrow> char \<Rightarrow> nat \<Rightarrow> nat \<Rightarrow> int result"
    and item :: "'b \<Rightarrow> int \<Rightarrow> char result"
    and consume :: "nat \<Rightarrow> 'b \<Rightarrow> bool \<times> 'b"
  assumes fetch_contents:
      "invar b \<Longrightarrow> pos + n \<le> length (contents b) \<Longrightarrow>
       fetch b n pos = Inr (take n (drop pos (contents b)))"
    and search_contents:
      "invar b \<Longrightarrow> search b c pos =
       Inr (index_or_neg (pos + find_idx (\<lambda>x. x = c) (drop pos (contents b))) (length (contents b)))"
    and search_range_contents:
      "invar b \<Longrightarrow> en \<le> length (contents b) \<Longrightarrow> search_range b c beg en =
       Inr (index_or_neg (beg + find_idx (\<lambda>x. x = c) (take (en - beg) (drop beg (contents b)))) en)"
    and item_contents:
      "invar b \<Longrightarrow> i < length (contents b) \<Longrightarrow> item b (int i) = Inr (contents b ! i)"
    and consume_contents:
      "invar b \<Longrightarrow> n \<le> length (contents b) \<Longrightarrow>
       \<exists>b'. consume n b = (True, b') \<and> invar b' \<and> contents b' = drop n (contents b)"
begin

text \<open>A buffer whose contents begin with a line.\<close>

definition at_line :: "'b \<Rightarrow> string \<Rightarrow> string \<Rightarrow> bool" where
  "at_line b line rest \<longleftrightarrow> invar b \<and> contents b = line @ CR # LF # rest \<and> CR \<notin> set line"

lemma line_end: "at_line b line rest \<Longrightarrow> search b CR 0 = Inr (int (length line))"
  by (auto simp: at_line_def search_contents index_or_neg_def find_idx_append)

lemma line_terminator: "at_line b line rest \<Longrightarrow> item b (int (length line) + 1) = Inr LF"
  using item_contents [of b "length line + 1"] by (simp add: at_line_def nth_append add.commute)

lemma line_length: "at_line b line rest \<Longrightarrow> length (contents b) = length line + length rest + 2"
  by (simp add: at_line_def)

lemma line_search:
  "at_line b line rest \<Longrightarrow> i \<le> length line \<Longrightarrow>
   search_range b c i (length line) =
   Inr (index_or_neg (i + find_idx (\<lambda>x. x = c) (drop i line)) (length line))"
  by (simp add: at_line_def search_range_contents)

lemma line_fetch:
  "at_line b line rest \<Longrightarrow> pos + n \<le> length line \<Longrightarrow> fetch b n pos = Inr (take n (drop pos line))"
  by (simp add: at_line_def fetch_contents)

lemma line_item: "at_line b line rest \<Longrightarrow> i < length line \<Longrightarrow> item b (int i) = Inr (line ! i)"
  by (simp add: at_line_def item_contents nth_append)

lemma line_consume:
  "at_line b line rest \<Longrightarrow>
   \<exists>b'. consume (length line + 2) b = (True, b') \<and> invar b' \<and> contents b' = rest"
  using consume_contents [of b "length line + 2"] by (simp add: at_line_def)

lemma no_line: "invar b \<Longrightarrow> CR \<notin> set (contents b) \<Longrightarrow> search b CR 0 = Inr (-1)"
  by (auto simp: search_contents index_or_neg_def find_idx_less_iff)

end

interpretation bq: byte_queue alloc_buffer buf_data getDataToString findChar findChar_range peek_at moveLow
proof unfold_locales
  fix b :: Buffer and n
  assume "alloc_buffer b" and "n \<le> length (buf_data b)"
  then show "\<exists>b'. moveLow n b = (True, b') \<and> alloc_buffer b' \<and> buf_data b' = drop n (buf_data b)"
    using moveLow_data by blast
qed (simp_all add: getDataToString_data findChar_data findChar_range_data peek_at_data)

end
