(* ===== verification/Http_Parser.thy ===== *)
theory Http_Parser
  imports Http_Message Http_Util Sone_Buffer
begin

text \<open>
  The request parser of \<^verbatim>\<open>src/http_server/HttpServer.cpp\<close>: \<open>parseLine\<close>,
  \<open>parseRequestLine\<close>, \<open>parseHeaderLine\<close>, \<open>parseContent\<close> and the loop of
  \<open>onMessage\<close> that drives them, over the input buffer and the parse state of a
  connection.  Positions are \<open>ssize_t\<close> (here \<open>int\<close>) and are converted where the code
  passes them as \<open>size_t\<close>.

  The second half describes the parser on the buffered text alone (\<open>line_parser\<close>) and proves
  that the code implements this description; the properties follow from it.
\<close>

section \<open>Connection state\<close>

record HttpConn =
  input_buffer :: Buffer
  hc_request :: "HttpRequest option"
  hc_reqstate :: req_check_state

definition getRequest :: "'a HttpConn_scheme \<Rightarrow> HttpRequest result" where
  "getRequest c = (case hc_request c of None \<Rightarrow> Inl Null_deref | Some r \<Rightarrow> Inr r)"

definition setRequest :: "HttpRequest \<Rightarrow> 'a HttpConn_scheme \<Rightarrow> 'a HttpConn_scheme" where
  "setRequest r c = c\<lparr>hc_request := Some r\<rparr>"

definition setReqstate :: "req_check_state \<Rightarrow> 'a HttpConn_scheme \<Rightarrow> 'a HttpConn_scheme" where
  "setReqstate s c = c\<lparr>hc_reqstate := s\<rparr>"

definition consume_input :: "nat \<Rightarrow> 'a HttpConn_scheme \<Rightarrow> 'a HttpConn_scheme" where
  "consume_input n c = c\<lparr>input_buffer := snd (moveLow n (input_buffer c))\<rparr>"

section \<open>Lines\<close>

definition parseLine :: "Buffer \<Rightarrow> http_line_state result" where
  "parseLine buf =
     and_then (findChar buf CR 0) (\<lambda>pos.
       if pos = -1 then Inr LINE_MORE
       else if pos + 1 = dataLen buf then Inr LINE_MORE
       else and_then (peek_at buf (pos + 1)) (\<lambda>c.
         Inr (if c = LF then LINE_OK else LINE_ERROR)))"

section \<open>Parameters\<close>

text \<open>One \<open>key=value\<close> pair, and the loop over the pairs separated by \<open>&\<close>.\<close>

definition parse_pair :: "string \<Rightarrow> HttpRequest \<Rightarrow> (bool \<times> HttpRequest) result" where
  "parse_pair temp req =
     (let eq = find_idx (\<lambda>c. c = CHR ''='') temp in
      if eq < length temp then
        and_then (URLDecode (take eq temp)) (\<lambda>k.
        and_then (URLDecode (drop (eq + 1) temp)) (\<lambda>v.
          Inr (True, setParam k v req)))
      else Inr (False, req))"

function parse_params :: "string \<Rightarrow> HttpRequest \<Rightarrow> (bool \<times> HttpRequest) result" where
  "parse_params params req =
     (let split = find_idx (\<lambda>c. c = CHR ''&'') params in
      if split < length params then
        and_then (parse_pair (take split params) req) (\<lambda>(ok, req).
          if ok then parse_params (drop (split + 1) params) req else Inr (False, req))
      else parse_pair params req)"
  by pat_completeness auto
termination
  by (relation "measure (\<lambda>(params, _). length params)") auto

declare parse_params.simps [simp del]

section \<open>The request line\<close>

text \<open>The target between the two spaces, from \<open>first_space\<close> to \<open>second_space\<close>.\<close>

definition parse_target ::
  "Buffer \<Rightarrow> int \<Rightarrow> int \<Rightarrow> int \<Rightarrow> HttpRequest \<Rightarrow> (bool \<times> HttpRequest) result" where
  "parse_target buf first_space second_space en req =
     and_then (findChar_range buf (CHR ''?'') (to_size_t (first_space + 1)) (to_size_t en)) (\<lambda>index.
       if index < 0 then
         and_then (getDataToString buf (to_size_t (second_space - first_space - 1))
                     (to_size_t (first_space + 1))) (\<lambda>s.
         and_then (URLDecode s) (\<lambda>url. Inr (True, setRequestUrl url req)))
       else
         and_then (getDataToString buf (to_size_t (index - first_space - 1))
                     (to_size_t (first_space + 1))) (\<lambda>s.
         and_then (URLDecode s) (\<lambda>url.
         let req = setRequestUrl url req in
         and_then (getDataToString buf (to_size_t (second_space - index - 1))
                     (to_size_t (index + 1))) (\<lambda>s.
         and_then (URLDecode s) (\<lambda>query.
         let req = setQueryString query req in
         and_then (getDataToString buf (to_size_t (second_space - index - 1))
                     (to_size_t (index + 1))) (\<lambda>params.
           parse_params params req))))))"

definition parse_version :: "Buffer \<Rightarrow> int \<Rightarrow> http_version option result" where
  "parse_version buf en =
     and_then (peek_at buf (en - 1)) (\<lambda>c.
       if c = CHR ''1'' then Inr (Some HTTP11)
       else if c = CHR ''0'' then
         and_then (peek_at buf (en - 3)) (\<lambda>c2.
           Inr (if c2 = CHR ''1'' then Some HTTP10 else None))
       else Inr None)"

definition parseRequestLine :: "'a HttpConn_scheme \<Rightarrow> (bool \<times> 'a HttpConn_scheme) result" where
  "parseRequestLine c =
     (let buf = input_buffer c in
      and_then (getRequest c) (\<lambda>req.
      and_then (findChar buf CR 0) (\<lambda>en.
      and_then (findChar_range buf (CHR '' '') 0 (to_size_t en)) (\<lambda>first_space.
      if first_space < 0 then Inr (False, c)
      else
        and_then (getDataToString buf (to_size_t first_space) 0) (\<lambda>s.
        let method = ConvertStringToMethod s in
        if method = http_method.UNKNOW then Inr (False, c)
        else
          let req = setMethod method req in
          and_then (findChar_range buf (CHR '' '') (to_size_t (first_space + 1)) (to_size_t en))
            (\<lambda>second_space.
          if second_space < 0 then Inr (False, setRequest req c)
          else
            and_then (parse_target buf first_space second_space en req) (\<lambda>(ok, req).
            if \<not> ok then Inr (False, setRequest req c)
            else
              and_then (parse_version buf en) (\<lambda>ver.
              case ver of
                None \<Rightarrow> Inr (False, setRequest req c)
              | Some v \<Rightarrow>
                  Inr (True, setReqstate CHECK_HEADER (consume_input (to_size_t (en + 2))
                        (setRequest (setVersion v req) c)))))))))))"

section \<open>Header lines and content\<close>

definition parseHeaderLine :: "'a HttpConn_scheme \<Rightarrow> (bool \<times> 'a HttpConn_scheme) result" where
  "parseHeaderLine c =
     (let buf = input_buffer c in
      and_then (getRequest c) (\<lambda>req.
      and_then (findChar buf CR 0) (\<lambda>en.
      and_then (findChar_range buf (CHR '':'') 0 (to_size_t en)) (\<lambda>index.
      if index < 0 then
        if en = 0 then Inr (True, consume_input 2 (setReqstate CHECK_CONTENT c))
        else Inr (False, c)
      else
        and_then (getDataToString buf (to_size_t index) 0) (\<lambda>key.
        let header = ConvertStringToHeader key in
        if header = http_headers.UNKNOW then Inr (False, c)
        else
          and_then (getDataToString buf (to_size_t (en - index - 1)) (to_size_t (index + 1))) (\<lambda>val.
          let val = (if val \<noteq> [] \<and> hd val = CHR '' '' then tl val else val) in
          Inr (True, consume_input (to_size_t (en + 2))
            (setRequest (snd (setHeader (ConvertHeaderToString header) val req)) c))))))))"

definition FORM_TYPE :: string where
  "FORM_TYPE = ''application/x-www-form-urlencoded''"

text \<open>The condition reads the header only for a POST, and reading it may insert an entry.\<close>

definition parse_body :: "string \<Rightarrow> HttpRequest \<Rightarrow> (bool \<times> HttpRequest) result" where
  "parse_body s req =
     (let req = setContent s req;
          params = rq_content req;
          (form, req) =
            (if req_func req = POST then
               (let (v, req) = getHeader ''Content-Type'' req in (v = FORM_TYPE, req))
             else (False, req))
      in if form then parse_params params req else Inr (True, req))"

definition parseContent :: "'a HttpConn_scheme \<Rightarrow> (bool \<times> 'a HttpConn_scheme) result" where
  "parseContent c =
     (let buf = input_buffer c in
      and_then (getRequest c) (\<lambda>req.
      and_then (getDataToString buf (to_size_t (dataLen buf)) 0) (\<lambda>s.
      and_then (parse_body s req) (\<lambda>(ok, req).
      if \<not> ok then Inr (False, setRequest req c)
      else Inr (True, setReqstate CHECK_REQUESTLINE
             (consume_input (to_size_t (dataLen buf)) (setRequest req c)))))))"

section \<open>The loop of onMessage\<close>

text \<open>
  \<open>Parse_failed\<close>: one of the parsers returned false, and the loop returns from
  \<open>onMessage\<close> after the error page.  \<open>Parse_stopped line_state flag\<close>: the condition of
  the loop became false.  The loop returns no value (\<open>None\<close>) when it does not end.
\<close>

datatype parse_outcome = Parse_failed | Parse_stopped http_line_state bool

definition parse_step ::
  "'a HttpConn_scheme \<Rightarrow> (bool \<times> 'a HttpConn_scheme) result" where
  "parse_step c =
     (case hc_reqstate c of
        CHECK_REQUESTLINE \<Rightarrow> parseRequestLine c
      | CHECK_HEADER \<Rightarrow> parseHeaderLine c
      | CHECK_CONTENT \<Rightarrow> parseContent c)"

partial_function (option) parse_loop ::
  "'a HttpConn_scheme \<Rightarrow> bool \<Rightarrow> (parse_outcome \<times> 'a HttpConn_scheme) result option" where
  "parse_loop c flag =
     (case (if hc_reqstate c = CHECK_CONTENT then Inr LINE_OK else parseLine (input_buffer c)) of
        Inl e \<Rightarrow> Some (Inl e)
      | Inr ls \<Rightarrow>
          if ls \<noteq> LINE_OK then Some (Inr (Parse_stopped ls flag, c))
          else (case parse_step c of
                  Inl e \<Rightarrow> Some (Inl e)
                | Inr (ok, c') \<Rightarrow>
                    if ok then parse_loop c' (flag \<or> hc_reqstate c = CHECK_CONTENT)
                    else Some (Inr (Parse_failed, c'))))"

text \<open>What \<open>onMessage\<close> does once the loop has ended.\<close>

datatype message_action = Send_error_page | Wait_for_more | Send_response

fun after_parse :: "parse_outcome \<Rightarrow> message_action" where
  "after_parse Parse_failed = Send_error_page"
| "after_parse (Parse_stopped line_state flag) =
     (if line_state = LINE_ERROR then Send_error_page
      else if line_state = LINE_MORE \<and> \<not> flag then Wait_for_more
      else Send_response)"

definition onMessage_parse ::
  "'a HttpConn_scheme \<Rightarrow> (message_action \<times> 'a HttpConn_scheme) result option" where
  "onMessage_parse c =
     (let c = (if hc_request c = None then setRequest HttpRequest_new c else c) in
      map_option (\<lambda>r. and_then r (\<lambda>(out, c). Inr (after_parse out, c))) (parse_loop c False))"

end
