(* ===== verification/LRU_Cache.thy ===== *)
theory LRU_Cache
  imports Sone_Prelude
begin

text \<open>
  The file cache of \<^verbatim>\<open>src/http_server/LRUCache.h\<close> and \<^verbatim>\<open>LRUCache.cpp\<close>: a
  \<open>std::list\<close> of nodes in order of use, and a hash map from file names to list iterators.

  An iterator is the address of its list node, so the list is the sequence of node addresses,
  \<open>lru_nodes\<close> the nodes and \<open>lru_bufs\<close> the arrays allocated for file contents; a
  freed array is no longer in the table.  \<open>lru_fds\<close> counts the descriptors the cache has
  opened and not closed.  The file system is an argument: what \<open>stat\<close> and \<open>read\<close> say
  about a name.  Each operation runs under the cache's lock and is one step.
\<close>

section \<open>State\<close>

record CacheNode =
  cn_key :: string
  cn_val :: nat
  mtime_sec :: int
  mtime_nsec :: int
  cn_fsize :: nat

record LRUCache =
  cacheList :: "nat list"
  cacheMap :: "string \<rightharpoonup> nat"
  lru_nodes :: "nat \<rightharpoonup> CacheNode"
  lru_bufs :: "nat \<rightharpoonup> string"
  lru_capacity :: nat
  lru_next :: nat
  lru_fds :: nat

text \<open>\<open>fs_stat\<close>: modification time (seconds, nanoseconds) and fsz, or a failure;
  \<open>fs_read\<close>: the bytes that opening the file and reading so many bytes delivers, or a failure.\<close>

record filesystem =
  fs_stat :: "string \<Rightarrow> (int \<times> int \<times> nat) option"
  fs_read :: "string \<Rightarrow> nat \<Rightarrow> string option"

definition LRUCache_new :: "nat \<Rightarrow> LRUCache" where
  "LRUCache_new cap =
     \<lparr>cacheList = [], cacheMap = Map.empty, lru_nodes = Map.empty, lru_bufs = Map.empty,
      lru_capacity = cap, lru_next = 0, lru_fds = 0\<rparr>"

section \<open>Operations\<close>

definition deref_node :: "LRUCache \<Rightarrow> nat \<Rightarrow> CacheNode result" where
  "deref_node c a = (case lru_nodes c a of None \<Rightarrow> Inl Use_after_free | Some n \<Rightarrow> Inr n)"

definition delete_buf :: "nat \<Rightarrow> LRUCache \<Rightarrow> LRUCache result" where
  "delete_buf v c =
     (case lru_bufs c v of
        None \<Rightarrow> Inl Use_after_free
      | Some _ \<Rightarrow> Inr (c\<lparr>lru_bufs := (lru_bufs c)(v := None)\<rparr>))"

text \<open>\<open>new char[size]\<close>, \<open>open\<close>, \<open>read\<close> and the assertion that everything was read:
  the address of the array.\<close>

definition load_file :: "filesystem \<Rightarrow> string \<Rightarrow> nat \<Rightarrow> LRUCache \<Rightarrow> (nat \<times> LRUCache) result" where
  "load_file fs k fsz c =
     (case fs_read fs k fsz of
        None \<Rightarrow> Inl Assert_failed
      | Some bytes \<Rightarrow>
          if length bytes \<noteq> fsz then Inl Assert_failed
          else Inr (lru_next c,
            c\<lparr>lru_bufs := (lru_bufs c)(lru_next c \<mapsto> bytes),
              lru_next := lru_next c + 1, lru_fds := lru_fds c + 1\<rparr>))"

definition isExist :: "string \<Rightarrow> LRUCache \<Rightarrow> bool" where
  "isExist k c = (cacheMap c k \<noteq> None)"

definition getSize :: "string \<Rightarrow> LRUCache \<Rightarrow> nat result" where
  "getSize k c =
     (case cacheMap c k of
        None \<Rightarrow> Inr 0
      | Some a \<Rightarrow> and_then (deref_node c a) (\<lambda>n. Inr (cn_fsize n)))"

definition lru_getValue :: "filesystem \<Rightarrow> string \<Rightarrow> LRUCache \<Rightarrow> (nat option \<times> LRUCache) result" where
  "lru_getValue fs k c =
     (case cacheMap c k of
        None \<Rightarrow> Inr (None, c)
      | Some a \<Rightarrow>
          let c = c\<lparr>cacheList := a # remove1 a (cacheList c), cacheMap := (cacheMap c)(k \<mapsto> a)\<rparr>
          in case fs_stat fs k of
            None \<Rightarrow> Inr (None, c)
          | Some (sec, nsec, fsz) \<Rightarrow>
              and_then (deref_node c a) (\<lambda>n.
              let flag = (if sec > mtime_sec n then True
                          else if nsec > mtime_nsec n then True else False)
              in if \<not> flag then Inr (Some (cn_val n), c)
                 else
                   and_then (delete_buf (cn_val n) c) (\<lambda>c.
                   and_then (load_file fs k fsz c) (\<lambda>(buf, c).
                   Inr (Some buf, c\<lparr>lru_nodes := (lru_nodes c)(a \<mapsto>
                     n\<lparr>cn_val := buf, mtime_sec := sec, mtime_nsec := nsec, cn_fsize := fsz\<rparr>)\<rparr>)))))"

definition evict_last :: "LRUCache \<Rightarrow> LRUCache result" where
  "evict_last c =
     (if cacheList c = [] then Inl Out_of_bounds
      else
        let a = last (cacheList c) in
        and_then (deref_node c a) (\<lambda>n.
        and_then (delete_buf (cn_val n) (c\<lparr>cacheMap := (cacheMap c)(cn_key n := None)\<rparr>)) (\<lambda>c.
        Inr (c\<lparr>cacheList := butlast (cacheList c), lru_nodes := (lru_nodes c)(a := None)\<rparr>))))"

definition lru_setValue :: "filesystem \<Rightarrow> string \<Rightarrow> LRUCache \<Rightarrow> LRUCache result" where
  "lru_setValue fs k c =
     (if cacheMap c k \<noteq> None then Inr c
      else
        and_then (if lru_capacity c = length (cacheList c) then evict_last c else Inr c) (\<lambda>c.
        case fs_stat fs k of
          None \<Rightarrow> Inl Assert_failed
        | Some (sec, nsec, fsz) \<Rightarrow>
            and_then (load_file fs k fsz c) (\<lambda>(buf, c).
            let a = lru_next c in
            Inr (c\<lparr>cacheList := a # cacheList c,
                   lru_nodes := (lru_nodes c)(a \<mapsto>
                     \<lparr>cn_key = k, cn_val = buf, mtime_sec = sec, mtime_nsec = nsec, cn_fsize = fsz\<rparr>),
                   cacheMap := (cacheMap c)(k \<mapsto> a),
                   lru_next := a + 1\<rparr>))))"

section \<open>Invariant and abstraction\<close>

definition node_at :: "LRUCache \<Rightarrow> nat \<Rightarrow> CacheNode" where
  "node_at c a = the (lru_nodes c a)"

definition lru_inv :: "LRUCache \<Rightarrow> bool" where
  "lru_inv c \<longleftrightarrow>
     distinct (cacheList c) \<and> length (cacheList c) \<le> lru_capacity c \<and>
     (\<forall>a \<in> set (cacheList c). \<exists>n bytes. lru_nodes c a = Some n \<and> cacheMap c (cn_key n) = Some a \<and>
        lru_bufs c (cn_val n) = Some bytes \<and> length bytes = cn_fsize n \<and>
        a < lru_next c \<and> cn_val n < lru_next c) \<and>
     (\<forall>k a. cacheMap c k = Some a \<longrightarrow> a \<in> set (cacheList c) \<and> cn_key (node_at c a) = k) \<and>
     (\<forall>a \<in> set (cacheList c). \<forall>b \<in> set (cacheList c).
        cn_val (node_at c a) = cn_val (node_at c b) \<longrightarrow> a = b)"

text \<open>What the cache holds, most recently used first: name, contents and modification time.\<close>

type_synonym cache_entry = "string \<times> string \<times> int \<times> int"

definition entry_at :: "LRUCache \<Rightarrow> nat \<Rightarrow> cache_entry" where
  "entry_at c a =
     (let n = node_at c a in (cn_key n, the (lru_bufs c (cn_val n)), mtime_sec n, mtime_nsec n))"

definition entries :: "LRUCache \<Rightarrow> cache_entry list" where
  "entries c = map (entry_at c) (cacheList c)"

lemma lru_inv_new: "lru_inv (LRUCache_new cap)"
  by (simp add: lru_inv_def LRUCache_new_def)

lemma lru_inv_node:
  assumes "lru_inv c" and "a \<in> set (cacheList c)"
  obtains n bytes where "lru_nodes c a = Some n" "cacheMap c (cn_key n) = Some a"
    "lru_bufs c (cn_val n) = Some bytes" "length bytes = cn_fsize n" "a < lru_next c" "cn_val n < lru_next c"
    "node_at c a = n"
  using assms unfolding lru_inv_def node_at_def by fastforce

lemma lru_inv_map:
  "lru_inv c \<Longrightarrow> cacheMap c k = Some a \<Longrightarrow> a \<in> set (cacheList c) \<and> cn_key (node_at c a) = k"
  by (simp add: lru_inv_def)

lemma cached_iff_entry: "lru_inv c \<Longrightarrow> cacheMap c k \<noteq> None \<longleftrightarrow> k \<in> fst ` set (entries c)"
proof
  assume i: "lru_inv c"
  show "k \<in> fst ` set (entries c)" if "cacheMap c k \<noteq> None"
  proof -
    from that obtain a where "cacheMap c k = Some a" by blast
    with lru_inv_map [OF i this] show ?thesis
      by (force simp: entries_def entry_at_def Let_def image_iff)
  qed
  show "cacheMap c k \<noteq> None" if "k \<in> fst ` set (entries c)"
  proof -
    from that obtain a where a: "a \<in> set (cacheList c)" "k = cn_key (node_at c a)"
      by (auto simp: entries_def entry_at_def Let_def)
    from lru_inv_node [OF i a(1)] a(2) show ?thesis by auto
  qed
qed

lemma entry_at_cong:
  "node_at c' a = node_at c a \<Longrightarrow> lru_bufs c' (cn_val (node_at c a)) = lru_bufs c (cn_val (node_at c a)) \<Longrightarrow>
     entry_at c' a = entry_at c a"
  by (simp add: entry_at_def Let_def)

text \<open>The invariant in terms of \<open>node_at\<close>, the form in which it is established.\<close>

lemma lru_invI:
  assumes "distinct (cacheList c)" and "length (cacheList c) \<le> lru_capacity c"
    and "\<And>a. a \<in> set (cacheList c) \<Longrightarrow> lru_nodes c a = Some (node_at c a) \<and>
           cacheMap c (cn_key (node_at c a)) = Some a \<and> a < lru_next c \<and> cn_val (node_at c a) < lru_next c \<and>
           (\<exists>bytes. lru_bufs c (cn_val (node_at c a)) = Some bytes \<and> length bytes = cn_fsize (node_at c a))"
    and "\<And>k a. cacheMap c k = Some a \<Longrightarrow> a \<in> set (cacheList c) \<and> cn_key (node_at c a) = k"
    and "\<And>a b. a \<in> set (cacheList c) \<Longrightarrow> b \<in> set (cacheList c) \<Longrightarrow>
           cn_val (node_at c a) = cn_val (node_at c b) \<Longrightarrow> a = b"
  shows "lru_inv c"
  unfolding lru_inv_def using assms by blast

lemma lru_invD:
  assumes "lru_inv c"
  shows "distinct (cacheList c)" and "length (cacheList c) \<le> lru_capacity c"
    and "\<And>a. a \<in> set (cacheList c) \<Longrightarrow> lru_nodes c a = Some (node_at c a) \<and>
           cacheMap c (cn_key (node_at c a)) = Some a \<and> a < lru_next c \<and> cn_val (node_at c a) < lru_next c \<and>
           (\<exists>bytes. lru_bufs c (cn_val (node_at c a)) = Some bytes \<and> length bytes = cn_fsize (node_at c a))"
    and "\<And>k a. cacheMap c k = Some a \<Longrightarrow> a \<in> set (cacheList c) \<and> cn_key (node_at c a) = k"
    and "\<And>a b. a \<in> set (cacheList c) \<Longrightarrow> b \<in> set (cacheList c) \<Longrightarrow>
           cn_val (node_at c a) = cn_val (node_at c b) \<Longrightarrow> a = b"
proof -
  show "lru_nodes c a = Some (node_at c a) \<and> cacheMap c (cn_key (node_at c a)) = Some a \<and>
      a < lru_next c \<and> cn_val (node_at c a) < lru_next c \<and>
      (\<exists>bytes. lru_bufs c (cn_val (node_at c a)) = Some bytes \<and> length bytes = cn_fsize (node_at c a))"
    if "a \<in> set (cacheList c)" for a
    using assms that by (rule lru_inv_node) auto
qed (use assms in \<open>auto simp: lru_inv_def\<close>)

lemma evict_last_correct:
  assumes i: "lru_inv c" and ne: "cacheList c \<noteq> []"
  shows "\<exists>c'. evict_last c = Inr c' \<and> lru_inv c' \<and> entries c' = butlast (entries c) \<and>
    lru_capacity c' = lru_capacity c \<and> lru_next c' = lru_next c \<and> lru_fds c' = lru_fds c \<and>
    cacheMap c' = (cacheMap c)(fst (last (entries c)) := None) \<and>
    length (cacheList c') < length (cacheList c)"
proof -
  let ?a = "last (cacheList c)" and ?as = "butlast (cacheList c)"
  let ?n = "node_at c ?a"
  note D = lru_invD [OF i]
  have a: "?a \<in> set (cacheList c)" using ne by simp
  have l: "cacheList c = ?as @ [?a]" using ne by simp
  have notin: "?a \<notin> set ?as" using D(1) l by (metis distinct_append distinct.simps(2) disjoint_iff list.set_intros(1))
  have sub: "b \<in> set ?as \<Longrightarrow> b \<in> set (cacheList c)" for b by (rule in_set_butlastD)
  obtain bytes where n: "lru_nodes c ?a = Some ?n" "cacheMap c (cn_key ?n) = Some ?a"
      "lru_bufs c (cn_val ?n) = Some bytes"
    using D(3) [OF a] by blast
  define c' where "c' = c\<lparr>cacheMap := (cacheMap c)(cn_key ?n := None),
      lru_bufs := (lru_bufs c)(cn_val ?n := None), cacheList := ?as, lru_nodes := (lru_nodes c)(?a := None)\<rparr>"
  have ev: "evict_last c = Inr c'"
    using ne n by (simp add: evict_last_def deref_node_def delete_buf_def Let_def c'_def)
  have node: "node_at c' b = node_at c b" if "b \<in> set ?as" for b
    using that notin by (auto simp: node_at_def c'_def)
  have val: "cn_val (node_at c b) \<noteq> cn_val ?n" if "b \<in> set ?as" for b
    using D(5) [OF sub [OF that] a] that notin by auto
  have key: "cn_key (node_at c b) \<noteq> cn_key ?n" if "b \<in> set ?as" for b
    using D(3) [OF sub [OF that]] n(2) that notin by auto
  have "lru_inv c'"
  proof (rule lru_invI)
    show "distinct (cacheList c')" using D(1) by (simp add: c'_def distinct_butlast)
    show "length (cacheList c') \<le> lru_capacity c'" using D(2) by (simp add: c'_def)
  next
    fix b assume "b \<in> set (cacheList c')"
    then have b: "b \<in> set ?as" by (simp add: c'_def)
    then have "b \<noteq> ?a" using notin by auto
    then show "lru_nodes c' b = Some (node_at c' b) \<and> cacheMap c' (cn_key (node_at c' b)) = Some b \<and>
      b < lru_next c' \<and> cn_val (node_at c' b) < lru_next c' \<and>
      (\<exists>bytes. lru_bufs c' (cn_val (node_at c' b)) = Some bytes \<and> length bytes = cn_fsize (node_at c' b))"
      using D(3) [OF sub [OF b]] val [OF b] key [OF b] node [OF b] by (simp add: c'_def)
  next
    fix k b assume "cacheMap c' k = Some b"
    then have k: "cacheMap c k = Some b" "k \<noteq> cn_key ?n" by (auto simp: c'_def split: if_splits)
    then have b: "b \<in> set (cacheList c)" "cn_key (node_at c b) = k" using D(4) by auto
    then have "b \<noteq> ?a" using k(2) by auto
    then have "b \<in> set ?as" using b(1) l by (metis Un_iff empty_iff insert_iff list.set set_append)
    then show "b \<in> set (cacheList c') \<and> cn_key (node_at c' b) = k" using node b(2) by (simp add: c'_def)
  next
    fix b d assume "b \<in> set (cacheList c')" "d \<in> set (cacheList c')"
      "cn_val (node_at c' b) = cn_val (node_at c' d)"
    then show "b = d" using D(5) [of b d] sub node by (simp add: c'_def)
  qed
  moreover have "entries c' = butlast (entries c)"
  proof -
    have "entry_at c' b = entry_at c b" if "b \<in> set ?as" for b
      using node [OF that] val [OF that] by (intro entry_at_cong) (simp_all add: c'_def)
    then have "map (entry_at c') ?as = map (entry_at c) ?as" by simp
    then show ?thesis by (simp add: entries_def c'_def map_butlast)
  qed
  moreover have "fst (last (entries c)) = cn_key ?n"
    using ne by (simp add: entries_def last_map entry_at_def Let_def)
  ultimately show ?thesis using ev ne by (auto simp: c'_def)
qed

lemma load_file_ok:
  "fs_read fs k sz = Some bytes \<Longrightarrow> length bytes = sz \<Longrightarrow>
   load_file fs k sz c = Inr (lru_next c,
     c\<lparr>lru_bufs := (lru_bufs c)(lru_next c \<mapsto> bytes), lru_next := lru_next c + 1, lru_fds := lru_fds c + 1\<rparr>)"
  by (simp add: load_file_def)

text \<open>Adding a node for a file that is not cached, when there is room.\<close>

lemma insert_node_correct:
  assumes i: "lru_inv c" and room: "length (cacheList c) < lru_capacity c" and nk: "cacheMap c k = None"
    and a: "a = lru_next c + 1"
    and c': "c' = c\<lparr>lru_bufs := (lru_bufs c)(lru_next c \<mapsto> bytes), lru_fds := lru_fds c + 1,
        cacheList := a # cacheList c,
        lru_nodes := (lru_nodes c)(a \<mapsto> \<lparr>cn_key = k, cn_val = lru_next c, mtime_sec = sec,
           mtime_nsec = nsec, cn_fsize = length bytes\<rparr>),
        cacheMap := (cacheMap c)(k \<mapsto> a), lru_next := a + 1\<rparr>"
  shows "lru_inv c' \<and> entries c' = (k, bytes, sec, nsec) # entries c"
proof
  note D = lru_invD [OF i]
  have fresh: "b \<noteq> a \<and> cn_val (node_at c b) \<noteq> lru_next c \<and> cn_key (node_at c b) \<noteq> k"
    if "b \<in> set (cacheList c)" for b
    using D(3) [OF that] a nk by auto
  have node: "node_at c' b = node_at c b" if "b \<in> set (cacheList c)" for b
    using fresh [OF that] by (simp add: c' node_at_def)
  have nodea: "node_at c' a = \<lparr>cn_key = k, cn_val = lru_next c, mtime_sec = sec,
           mtime_nsec = nsec, cn_fsize = length bytes\<rparr>"
    by (simp add: c' node_at_def)
  show "lru_inv c'"
  proof (rule lru_invI)
    show "distinct (cacheList c')" using D(1) fresh by (auto simp: c')
    show "length (cacheList c') \<le> lru_capacity c'" using room by (simp add: c')
  next
    fix b assume b: "b \<in> set (cacheList c')"
    show "lru_nodes c' b = Some (node_at c' b) \<and> cacheMap c' (cn_key (node_at c' b)) = Some b \<and>
      b < lru_next c' \<and> cn_val (node_at c' b) < lru_next c' \<and>
      (\<exists>bytes. lru_bufs c' (cn_val (node_at c' b)) = Some bytes \<and> length bytes = cn_fsize (node_at c' b))"
    proof (cases "b = a")
      case True
      then show ?thesis using nodea a by (simp add: c')
    next
      case False
      then have b': "b \<in> set (cacheList c)" using b by (simp add: c')
      then show ?thesis using D(3) [OF b'] fresh [OF b'] node [OF b'] a by (auto simp: c')
    qed
  next
    fix k' b assume m: "cacheMap c' k' = Some b"
    show "b \<in> set (cacheList c') \<and> cn_key (node_at c' b) = k'"
    proof (cases "k' = k")
      case True
      then show ?thesis using m nodea by (simp add: c')
    next
      case False
      then have "cacheMap c k' = Some b" using m by (simp add: c')
      then show ?thesis using D(4) [of k' b] node by (simp add: c')
    qed
  next
    fix b d assume "b \<in> set (cacheList c')" "d \<in> set (cacheList c')"
      and v: "cn_val (node_at c' b) = cn_val (node_at c' d)"
    then have "b = a \<or> b \<in> set (cacheList c)" "d = a \<or> d \<in> set (cacheList c)" by (auto simp: c')
    then show "b = d" using v D(5) [of b d] node nodea fresh [of b] fresh [of d] by auto
  qed
  have "entry_at c' b = entry_at c b" if "b \<in> set (cacheList c)" for b
    using node [OF that] fresh [OF that] by (intro entry_at_cong) (simp_all add: c')
  moreover have "entry_at c' a = (k, bytes, sec, nsec)" using nodea by (simp add: entry_at_def c')
  ultimately show "entries c' = (k, bytes, sec, nsec) # entries c"
    by (simp add: entries_def c')
qed

text \<open>The specification of the cache: a list of entries, most recently used first.\<close>

definition spec_insert :: "nat \<Rightarrow> cache_entry \<Rightarrow> cache_entry list \<Rightarrow> cache_entry list" where
  "spec_insert cap e xs = e # (if length xs = cap then butlast xs else xs)"

lemma setValue_aux:
  assumes i: "lru_inv c" and cap: "0 < lru_capacity c" and nk: "cacheMap c k = None"
    and st: "fs_stat fs k = Some (sec, nsec, sz)" and rd: "fs_read fs k sz = Some bytes" "length bytes = sz"
  shows "\<exists>c'. lru_setValue fs k c = Inr c' \<and> lru_inv c' \<and> lru_capacity c' = lru_capacity c \<and>
    entries c' = spec_insert (lru_capacity c) (k, bytes, sec, nsec) (entries c) \<and>
    lru_fds c' = lru_fds c + 1"
proof -
  have len: "length (entries c) = length (cacheList c)" by (simp add: entries_def)
  obtain c1 where c1: "(if lru_capacity c = length (cacheList c) then evict_last c else Inr c) = Inr c1"
      "lru_inv c1" "lru_capacity c1 = lru_capacity c" "length (cacheList c1) < lru_capacity c1"
      "cacheMap c1 k = None" "entries c1 = (if length (entries c) = lru_capacity c then butlast (entries c) else entries c)"
      "lru_fds c1 = lru_fds c"
  proof (cases "lru_capacity c = length (cacheList c)")
    case True
    then have "cacheList c \<noteq> []" using cap by auto
    from evict_last_correct [OF i this] obtain c1 where "evict_last c = Inr c1" "lru_inv c1"
        "entries c1 = butlast (entries c)" "lru_capacity c1 = lru_capacity c" "lru_fds c1 = lru_fds c"
        "cacheMap c1 = (cacheMap c)(fst (last (entries c)) := None)" "length (cacheList c1) < length (cacheList c)"
      by blast
    then show ?thesis using that [of c1] True nk len by auto
  next
    case False
    then show ?thesis using that [of c] i nk len lru_invD(2) [OF i] by auto
  qed
  let ?a = "lru_next c1 + 1"
  define c' where "c' = c1\<lparr>lru_bufs := (lru_bufs c1)(lru_next c1 \<mapsto> bytes), lru_fds := lru_fds c1 + 1,
        cacheList := ?a # cacheList c1,
        lru_nodes := (lru_nodes c1)(?a \<mapsto> \<lparr>cn_key = k, cn_val = lru_next c1, mtime_sec = sec,
           mtime_nsec = nsec, cn_fsize = length bytes\<rparr>),
        cacheMap := (cacheMap c1)(k \<mapsto> ?a), lru_next := ?a + 1\<rparr>"
  from insert_node_correct [OF c1(2,4,5) refl c'_def]
  have "lru_inv c'" "entries c' = (k, bytes, sec, nsec) # entries c1" by auto
  moreover have "lru_setValue fs k c = Inr c'"
    using nk c1(1) st load_file_ok [OF rd, of c1] rd(2)
    by (simp add: lru_setValue_def Let_def c'_def)
  ultimately show ?thesis using c1 by (simp add: spec_insert_def c'_def)
qed

text \<open>Moving the node of a cached file to the front.\<close>

lemma touch_correct:
  assumes i: "lru_inv c" and m: "cacheMap c k = Some a"
    and c1: "c1 = c\<lparr>cacheList := a # remove1 a (cacheList c), cacheMap := (cacheMap c)(k \<mapsto> a)\<rparr>"
  shows "lru_inv c1 \<and> entries c1 = entry_at c a # filter (\<lambda>e. fst e \<noteq> k) (entries c)"
proof -
  note D = lru_invD [OF i]
  have a: "a \<in> set (cacheList c)" "cn_key (node_at c a) = k" using D(4) [OF m] by auto
  have st: "set (cacheList c1) = set (cacheList c)" using a(1) D(1) by (auto simp: c1)
  have mp: "cacheMap c1 = cacheMap c" using m by (auto simp: c1)
  have nd: "node_at c1 = node_at c" by (auto simp: c1 node_at_def)
  have same: "lru_nodes c1 = lru_nodes c" "lru_bufs c1 = lru_bufs c" "lru_next c1 = lru_next c" by (simp_all add: c1)
  have "lru_inv c1"
  proof (rule lru_invI)
    show "distinct (cacheList c1)" using D(1) by (simp add: c1)
    have "length (cacheList c1) = length (cacheList c)"
      using a(1) length_pos_if_in_set [OF a(1)] by (simp add: c1 length_remove1)
    then show "length (cacheList c1) \<le> lru_capacity c1" using D(2) by (simp add: c1)
  qed (unfold st mp nd same, (use D in blast)+)
  moreover have "entries c1 = entry_at c a # filter (\<lambda>e. fst e \<noteq> k) (entries c)"
  proof -
    have key: "fst (entry_at c b) = k \<longleftrightarrow> b = a" if "b \<in> set (cacheList c)" for b
      using D(3) [OF that] m a(2) by (auto simp: entry_at_def Let_def)
    have e: "entry_at c1 = entry_at c" by (rule ext) (simp add: entry_at_def nd same)
    have "filter (\<lambda>b. fst (entry_at c b) \<noteq> k) (cacheList c) = filter (\<lambda>b. b \<noteq> a) (cacheList c)"
      using key by (intro filter_cong) simp_all
    also have "\<dots> = filter (\<lambda>b. a \<noteq> b) (cacheList c)" by (intro filter_cong) auto
    also have "\<dots> = remove1 a (cacheList c)"
      using D(1) by (simp add: distinct_remove1_removeAll removeAll_filter_not_eq)
    finally have "filter (\<lambda>e. fst e \<noteq> k) (entries c) = map (entry_at c) (remove1 a (cacheList c))"
      by (simp add: entries_def filter_map o_def)
    then show ?thesis using e by (simp add: entries_def c1)
  qed
  ultimately show ?thesis by simp
qed

text \<open>Replacing the array of the front node after a reload.\<close>

lemma reload_correct:
  assumes i: "lru_inv c" and l: "cacheList c = a # as"
    and c': "c' = c\<lparr>lru_bufs := (lru_bufs c)(cn_val (node_at c a) := None, lru_next c \<mapsto> bytes),
        lru_next := lru_next c + 1, lru_fds := lru_fds c + 1,
        lru_nodes := (lru_nodes c)(a \<mapsto> (node_at c a)\<lparr>cn_val := lru_next c, mtime_sec := sec,
          mtime_nsec := nsec, cn_fsize := length bytes\<rparr>)\<rparr>"
  shows "lru_inv c' \<and> entries c' = (cn_key (node_at c a), bytes, sec, nsec) # tl (entries c)"
proof
  note D = lru_invD [OF i]
  let ?v = "lru_next c"
  have a: "a \<in> set (cacheList c)" and na: "a \<notin> set as" using l D(1) by auto
  have sub: "b \<in> set as \<Longrightarrow> b \<in> set (cacheList c)" for b using l by simp
  have old: "b \<noteq> a \<and> cn_val (node_at c b) \<noteq> cn_val (node_at c a) \<and> cn_val (node_at c b) \<noteq> ?v"
    if "b \<in> set as" for b
    using D(5) [OF sub [OF that] a] D(3) [OF sub [OF that]] that na by auto
  have node: "node_at c' b = node_at c b" if "b \<in> set as" for b
    using old [OF that] by (simp add: c' node_at_def)
  have nodea: "node_at c' a = (node_at c a)\<lparr>cn_val := ?v, mtime_sec := sec,
          mtime_nsec := nsec, cn_fsize := length bytes\<rparr>"
    by (simp add: c' node_at_def)
  have cl: "cacheList c' = a # as" using l by (simp add: c')
  show "lru_inv c'"
  proof (rule lru_invI)
    show "distinct (cacheList c')" "length (cacheList c') \<le> lru_capacity c'"
      using D(1,2) by (simp_all add: c')
  next
    fix b assume "b \<in> set (cacheList c')"
    then consider "b = a" | "b \<in> set as" using cl by auto
    then show "lru_nodes c' b = Some (node_at c' b) \<and> cacheMap c' (cn_key (node_at c' b)) = Some b \<and>
      b < lru_next c' \<and> cn_val (node_at c' b) < lru_next c' \<and>
      (\<exists>bytes. lru_bufs c' (cn_val (node_at c' b)) = Some bytes \<and> length bytes = cn_fsize (node_at c' b))"
    proof cases
      case 1
      then show ?thesis using D(3) [OF a] nodea by (simp add: c')
    next
      case 2
      then show ?thesis using D(3) [OF sub [OF 2]] old [OF 2] node [OF 2] by (auto simp: c')
    qed
  next
    fix k b assume "cacheMap c' k = Some b"
    then have "b \<in> set (cacheList c)" "cn_key (node_at c b) = k" using D(4) [of k b] by (auto simp: c')
    then show "b \<in> set (cacheList c') \<and> cn_key (node_at c' b) = k"
      using l cl nodea node by (auto)
  next
    fix b d assume "b \<in> set (cacheList c')" "d \<in> set (cacheList c')"
      and v: "cn_val (node_at c' b) = cn_val (node_at c' d)"
    then have "b = a \<or> b \<in> set as" "d = a \<or> d \<in> set as" using cl by auto
    then show "b = d" using v D(5) [of b d] sub node nodea old [of b] old [of d] by auto
  qed
  have "entry_at c' b = entry_at c b" if "b \<in> set as" for b
    using node [OF that] old [OF that] by (intro entry_at_cong) (simp_all add: c')
  moreover have "entry_at c' a = (cn_key (node_at c a), bytes, sec, nsec)"
    using nodea by (simp add: entry_at_def c')
  ultimately show "entries c' = (cn_key (node_at c a), bytes, sec, nsec) # tl (entries c)"
    using l cl by (simp add: entries_def)
qed

lemma getValue_aux:
  assumes "lru_inv c" and "cacheMap c k = Some a"
    and "fs_stat fs k = Some (sec, nsec, length bytes)" and "fs_read fs k (length bytes) = Some bytes"
    and "entry_at c a = (k, old, osec, onsec)"
    and "osec < sec \<or> osec = sec \<and> onsec \<le> nsec"
    and "(osec, onsec) = (sec, nsec) \<longrightarrow> old = bytes"
  shows "\<exists>p c'. lru_getValue fs k c = Inr (Some p, c') \<and> lru_bufs c' p = Some bytes \<and> lru_inv c' \<and>
     entries c' = (k, bytes, sec, nsec) # filter (\<lambda>e. fst e \<noteq> k) (entries c) \<and>
     getSize k c' = Inr (length bytes) \<and> lru_capacity c' = lru_capacity c"
proof -
  define c1 where "c1 = c\<lparr>cacheList := a # remove1 a (cacheList c), cacheMap := (cacheMap c)(k \<mapsto> a)\<rparr>"
  let ?n = "node_at c a"
  from touch_correct [OF assms(1,2) c1_def] have
    c1: "lru_inv c1" "entries c1 = (k, old, osec, onsec) # filter (\<lambda>e. fst e \<noteq> k) (entries c)"
    using assms(5) by auto
  have l: "cacheList c1 = a # remove1 a (cacheList c)" and nd: "node_at c1 = node_at c"
    by (auto simp: c1_def node_at_def)
  note D = lru_invD(3) [OF c1(1), of a]
  have dn: "deref_node c1 a = Inr ?n" using D l nd by (simp add: deref_node_def)
  obtain ob where ob: "lru_bufs c1 (cn_val ?n) = Some ob" "length ob = cn_fsize ?n" using D l nd by auto
  have n: "cn_key ?n = k" "ob = old" "mtime_sec ?n = osec" "mtime_nsec ?n = onsec"
    using assms(5) ob(1) by (auto simp: entry_at_def Let_def c1_def)
  have gv: "lru_getValue fs k c =
      (let flag = (if sec > osec then True else if nsec > onsec then True else False)
       in if \<not> flag then Inr (Some (cn_val ?n), c1)
          else and_then (delete_buf (cn_val ?n) c1) (\<lambda>c.
               and_then (load_file fs k (length bytes) c) (\<lambda>(buf, c).
               Inr (Some buf, c\<lparr>lru_nodes := (lru_nodes c)(a \<mapsto>
                     ?n\<lparr>cn_val := buf, mtime_sec := sec, mtime_nsec := nsec, cn_fsize := length bytes\<rparr>)\<rparr>))))"
    using assms(2,3) dn n(3,4) by (simp add: lru_getValue_def Let_def c1_def [symmetric])
  show ?thesis
  proof (cases "sec > osec \<or> nsec > onsec")
    case False
    then have "(osec, onsec) = (sec, nsec)" using assms(6) by auto
    then have "old = bytes" "osec = sec" "onsec = nsec" using assms(7) by auto
    then have "entries c1 = (k, bytes, sec, nsec) # filter (\<lambda>e. fst e \<noteq> k) (entries c)"
      using c1(2) by simp
    moreover have "getSize k c1 = Inr (length bytes)"
      using dn ob n \<open>old = bytes\<close> assms(2) by (simp add: getSize_def c1_def)
    ultimately show ?thesis using gv False ob n \<open>old = bytes\<close> c1(1) by (simp add: c1_def)
  next
    case True
    define c' where "c' = c1\<lparr>lru_bufs := (lru_bufs c1)(cn_val (node_at c1 a) := None, lru_next c1 \<mapsto> bytes),
        lru_next := lru_next c1 + 1, lru_fds := lru_fds c1 + 1,
        lru_nodes := (lru_nodes c1)(a \<mapsto> (node_at c1 a)\<lparr>cn_val := lru_next c1, mtime_sec := sec,
          mtime_nsec := nsec, cn_fsize := length bytes\<rparr>)\<rparr>"
    from reload_correct [OF c1(1) l c'_def] have
      i': "lru_inv c'" "entries c' = (k, bytes, sec, nsec) # tl (entries c1)" using nd n(1) by auto
    have "lru_getValue fs k c = Inr (Some (lru_next c1), c')"
      using gv True ob(1) nd load_file_ok [OF assms(4) refl] by (auto simp: Let_def delete_buf_def c'_def)
    moreover have "lru_bufs c' (lru_next c1) = Some bytes" by (simp add: c'_def)
    moreover have "getSize k c' = Inr (length bytes)"
      using assms(2) by (simp add: getSize_def deref_node_def c'_def c1_def)
    moreover have "lru_capacity c' = lru_capacity c" by (simp add: c'_def c1_def)
    ultimately show ?thesis using i' c1(2) by auto
  qed
qed

section \<open>The interface of the cache\<close>

text \<open>A file of the file system with its contents.\<close>

definition file_in :: "filesystem \<Rightarrow> string \<Rightarrow> string \<Rightarrow> bool" where
  "file_in fs k bytes \<longleftrightarrow>
     (case fs_stat fs k of
        None \<Rightarrow> False
      | Some (sec, nsec, sz) \<Rightarrow> sz = length bytes \<and> fs_read fs k sz = Some bytes)"

text \<open>
  What a server relies on: a file that is not cached is reported missing, inserting it makes it
  cached, and reading a cached file gives a live array with the current contents and records its
  size.  \<open>good\<close> is the provider's invariant with respect to a file system.
\<close>

locale file_cache =
  fixes get :: "filesystem \<Rightarrow> string \<Rightarrow> 'c \<Rightarrow> (nat option \<times> 'c) result"
    and put :: "filesystem \<Rightarrow> string \<Rightarrow> 'c \<Rightarrow> 'c result"
    and size_of :: "string \<Rightarrow> 'c \<Rightarrow> nat result"
    and array :: "'c \<Rightarrow> nat \<Rightarrow> string option"
    and cached :: "string \<Rightarrow> 'c \<Rightarrow> bool"
    and good :: "filesystem \<Rightarrow> 'c \<Rightarrow> bool"
  assumes get_missing: "\<not> cached k c \<Longrightarrow> get fs k c = Inr (None, c)"
    and put_missing: "good fs c \<Longrightarrow> \<not> cached k c \<Longrightarrow> file_in fs k bytes \<Longrightarrow>
      \<exists>c'. put fs k c = Inr c' \<and> good fs c' \<and> cached k c'"
    and get_cached: "good fs c \<Longrightarrow> cached k c \<Longrightarrow> file_in fs k bytes \<Longrightarrow>
      \<exists>a c'. get fs k c = Inr (Some a, c') \<and> good fs c' \<and> cached k c' \<and>
        array c' a = Some bytes \<and> size_of k c' = Inr (length bytes)"

text \<open>
  An entry agrees with a file when it is not newer than the file and, where the times are equal,
  has its contents.  This holds as long as files only change together with their modification
  times and modification times do not run backwards.
\<close>

definition agrees :: "filesystem \<Rightarrow> cache_entry \<Rightarrow> bool" where
  "agrees fs e \<longleftrightarrow>
     (case e of (k, bytes, osec, onsec) \<Rightarrow>
        case fs_stat fs k of
          None \<Rightarrow> True
        | Some (sec, nsec, sz) \<Rightarrow>
            (osec < sec \<or> osec = sec \<and> onsec \<le> nsec) \<and>
            (osec = sec \<and> onsec = nsec \<longrightarrow> sz = length bytes \<and> fs_read fs k sz = Some bytes))"

definition lru_good :: "filesystem \<Rightarrow> LRUCache \<Rightarrow> bool" where
  "lru_good fs c \<longleftrightarrow> lru_inv c \<and> 0 < lru_capacity c \<and> list_all (agrees fs) (entries c)"

lemma lru_good_new: "0 < cap \<Longrightarrow> lru_good fs (LRUCache_new cap)"
  by (simp add: lru_good_def lru_inv_new) (simp add: LRUCache_new_def entries_def)

text \<open>The agreement survives every change that gives a file a later time or leaves it alone.\<close>

definition newer_files :: "filesystem \<Rightarrow> filesystem \<Rightarrow> bool" where
  "newer_files fs fs' \<longleftrightarrow>
     (\<forall>k sec nsec sz. fs_stat fs' k = Some (sec, nsec, sz) \<longrightarrow>
        (\<exists>sec0 nsec0 sz0. fs_stat fs k = Some (sec0, nsec0, sz0) \<and>
           (sec0 < sec \<or> sec0 = sec \<and> nsec0 < nsec \<or>
            sec0 = sec \<and> nsec0 = nsec \<and> sz0 = sz \<and> fs_read fs' k = fs_read fs k)))"

lemma lru_good_newer:
  assumes "lru_good fs c" and "newer_files fs fs'"
  shows "lru_good fs' c"
proof -
  have "agrees fs' e" if "agrees fs e" for e
  proof -
    obtain k bytes osec onsec where e: "e = (k, bytes, osec, onsec)" by (cases e) auto
    show ?thesis
    proof (cases "fs_stat fs' k")
      case None
      then show ?thesis by (simp add: agrees_def e)
    next
      case (Some st)
      obtain sec nsec sz where st: "fs_stat fs' k = Some (sec, nsec, sz)" using Some by (cases st) auto
      then obtain sec0 nsec0 sz0 where "fs_stat fs k = Some (sec0, nsec0, sz0)"
          "sec0 < sec \<or> sec0 = sec \<and> nsec0 < nsec \<or> sec0 = sec \<and> nsec0 = nsec \<and> sz0 = sz \<and> fs_read fs' k = fs_read fs k"
        using assms(2) unfolding newer_files_def by blast
      then show ?thesis using that st by (auto simp: agrees_def e)
    qed
  qed
  then show ?thesis using assms(1) by (auto simp: lru_good_def list_all_iff)
qed

lemma lru_put_missing:
  assumes "lru_good fs c" and "\<not> isExist k c" and "file_in fs k bytes"
  shows "\<exists>c'. lru_setValue fs k c = Inr c' \<and> lru_good fs c' \<and> isExist k c'"
proof -
  obtain sec nsec where f: "fs_stat fs k = Some (sec, nsec, length bytes)" "fs_read fs k (length bytes) = Some bytes"
    using assms(3) by (auto simp: file_in_def split: option.splits)
  obtain c' where c': "lru_setValue fs k c = Inr c'" "lru_inv c'" "lru_capacity c' = lru_capacity c"
      "entries c' = spec_insert (lru_capacity c) (k, bytes, sec, nsec) (entries c)"
    using setValue_aux [OF _ _ _ f refl] assms(1,2) by (auto simp: lru_good_def isExist_def)
  have "agrees fs (k, bytes, sec, nsec)" using f by (simp add: agrees_def)
  then have "lru_good fs c'" using c' assms(1)
    by (auto simp: lru_good_def spec_insert_def list_all_iff dest: in_set_butlastD)
  moreover have "isExist k c'" using cached_iff_entry [OF c'(2), of k] c'(4) by (simp add: isExist_def spec_insert_def)
  ultimately show ?thesis using c'(1) by blast
qed

lemma lru_get_cached:
  assumes "lru_good fs c" and "isExist k c" and "file_in fs k bytes"
  shows "\<exists>a c'. lru_getValue fs k c = Inr (Some a, c') \<and> lru_good fs c' \<and> isExist k c' \<and>
    lru_bufs c' a = Some bytes \<and> getSize k c' = Inr (length bytes)"
proof -
  obtain sec nsec where f: "fs_stat fs k = Some (sec, nsec, length bytes)" "fs_read fs k (length bytes) = Some bytes"
    using assms(3) by (auto simp: file_in_def split: option.splits)
  obtain a where a: "cacheMap c k = Some a" using assms(2) by (auto simp: isExist_def)
  have i: "lru_inv c" using assms(1) by (simp add: lru_good_def)
  have m: "a \<in> set (cacheList c)" "cn_key (node_at c a) = k" using lru_inv_map [OF i a] by auto
  obtain old osec onsec where e: "entry_at c a = (k, old, osec, onsec)" using m(2) by (simp add: entry_at_def Let_def)
  have "agrees fs (k, old, osec, onsec)" using assms(1) m(1) e by (auto simp: lru_good_def list_all_iff entries_def)
  then have ag: "osec < sec \<or> osec = sec \<and> onsec \<le> nsec" "(osec, onsec) = (sec, nsec) \<longrightarrow> old = bytes"
    using f by (auto simp: agrees_def)
  obtain p c' where c': "lru_getValue fs k c = Inr (Some p, c')" "lru_bufs c' p = Some bytes" "lru_inv c'"
      "entries c' = (k, bytes, sec, nsec) # filter (\<lambda>e. fst e \<noteq> k) (entries c)"
      "getSize k c' = Inr (length bytes)" "lru_capacity c' = lru_capacity c"
    using getValue_aux [OF i a f e ag] by blast
  have "agrees fs (k, bytes, sec, nsec)" using f by (simp add: agrees_def)
  then have "lru_good fs c'" using c' assms(1) by (auto simp: lru_good_def list_all_iff)
  moreover have "isExist k c'" using cached_iff_entry [OF c'(3), of k] c'(4) by (simp add: isExist_def)
  ultimately show ?thesis using c' by blast
qed

interpretation lc: file_cache lru_getValue lru_setValue getSize lru_bufs isExist lru_good
proof unfold_locales
  show "lru_getValue fs k c = Inr (None, c)" if "\<not> isExist k c" for k c fs
    using that by (simp add: isExist_def lru_getValue_def)
qed (fact lru_put_missing lru_get_cached)+

section \<open>Properties\<close>

text \<open>
  C18. Caching a file that is not cached puts it in front of the entries and, when the cache was
  full, drops exactly the least recently used one; the capacity is never exceeded, every array in
  use stays allocated, and one descriptor more is left open.  With capacity 0 the operation reads
  the last element of an empty list.
\<close>

theorem setValue_correct:
  assumes "lru_inv c" and "cacheMap c k = None"
    and "fs_stat fs k = Some (sec, nsec, length bytes)" and "fs_read fs k (length bytes) = Some bytes"
  shows "(0 < lru_capacity c \<longrightarrow>
           (\<exists>c'. lru_setValue fs k c = Inr c' \<and> lru_inv c' \<and>
              entries c' = spec_insert (lru_capacity c) (k, bytes, sec, nsec) (entries c) \<and>
              length (entries c') \<le> lru_capacity c \<and> lru_fds c' = lru_fds c + 1)) \<and>
         (lru_capacity c = 0 \<longrightarrow> lru_setValue fs k c = Inl Out_of_bounds)"
proof (intro conjI impI)
  assume "0 < lru_capacity c"
  from setValue_aux [OF assms(1) this assms(2-4) refl] obtain c' where
    c': "lru_setValue fs k c = Inr c'" "lru_inv c'" "lru_capacity c' = lru_capacity c"
      "entries c' = spec_insert (lru_capacity c) (k, bytes, sec, nsec) (entries c)" "lru_fds c' = lru_fds c + 1"
    by blast
  have "length (entries c') \<le> lru_capacity c" using lru_invD(2) [OF c'(2)] c'(3) by (simp add: entries_def)
  with c' show "\<exists>c'. lru_setValue fs k c = Inr c' \<and> lru_inv c' \<and>
      entries c' = spec_insert (lru_capacity c) (k, bytes, sec, nsec) (entries c) \<and>
      length (entries c') \<le> lru_capacity c \<and> lru_fds c' = lru_fds c + 1" by blast
next
  assume z: "lru_capacity c = 0"
  then have "cacheList c = []" using lru_invD(2) [OF assms(1)] by simp
  then show "lru_setValue fs k c = Inl Out_of_bounds"
    using z assms(2) by (simp add: lru_setValue_def evict_last_def)
qed

text \<open>A file system with one file, used to check statements on.\<close>

definition one_file :: "int \<Rightarrow> string \<Rightarrow> filesystem" where
  "one_file t bytes =
     \<lparr>fs_stat = (\<lambda>k. if k = ''/i'' then Some (t, 0, length bytes) else None),
      fs_read = (\<lambda>k n. if k = ''/i'' then Some (take n bytes) else None)\<rparr>"

theorem setValue_correct_witness:
  "(\<exists>c'. lru_setValue (one_file 5 ''hey'') ''/i'' (LRUCache_new 8) = Inr c' \<and>
      entries c' = [(''/i'', ''hey'', 5, 0)] \<and> lru_fds c' = 1) \<and>
   lru_setValue (one_file 5 ''hey'') ''/i'' (LRUCache_new 0) = Inl Out_of_bounds"
  using setValue_correct [OF lru_inv_new, of 8 "''/i''" "one_file 5 ''hey''" 5 0 "''hey''"]
    setValue_correct [OF lru_inv_new, of 0 "''/i''" "one_file 5 ''hey''" 5 0 "''hey''"]
  by (auto simp: one_file_def LRUCache_new_def entries_def spec_insert_def)

text \<open>
  C19. Reading a cached file moves its entry to the front and returns an array with the current
  contents of the file, reloading it when its modification time has advanced, provided
  modification times never run backwards and contents only change with the modification time.
\<close>

theorem getValue_fresh:
  assumes "lru_inv c" and "cacheMap c k = Some a"
    and "fs_stat fs k = Some (sec, nsec, length bytes)" and "fs_read fs k (length bytes) = Some bytes"
    and "entry_at c a = (k, old, osec, onsec)"
    and "osec < sec \<or> osec = sec \<and> onsec \<le> nsec"
    and "(osec, onsec) = (sec, nsec) \<longrightarrow> old = bytes"
  shows "\<exists>p c'. lru_getValue fs k c = Inr (Some p, c') \<and> lru_bufs c' p = Some bytes \<and> lru_inv c' \<and>
     entries c' = (k, bytes, sec, nsec) # filter (\<lambda>e. fst e \<noteq> k) (entries c) \<and>
     getSize k c' = Inr (length bytes)"
  using getValue_aux [OF assms] by blast

theorem getValue_fresh_witness:
  "\<exists>c p c'. lru_setValue (one_file 5 ''hey'') ''/i'' (LRUCache_new 8) = Inr c \<and>
     lru_getValue (one_file 6 ''you!'') ''/i'' c = Inr (Some p, c') \<and> lru_bufs c' p = Some ''you!''"
proof -
  obtain c where c: "lru_setValue (one_file 5 ''hey'') ''/i'' (LRUCache_new 8) = Inr c" "lru_inv c"
      "entries c = [(''/i'', ''hey'', 5, 0)]"
    using setValue_aux [OF lru_inv_new, of 8 "''/i''" "one_file 5 ''hey''" 5 0 3 "''hey''"]
    by (auto simp: one_file_def LRUCache_new_def entries_def spec_insert_def)
  then obtain a where a: "cacheMap c ''/i'' = Some a" using cached_iff_entry [OF c(2), of "''/i''"] by auto
  have "a \<in> set (cacheList c)" "cn_key (node_at c a) = ''/i''" using lru_inv_map [OF c(2) a] by auto
  then have e: "entry_at c a = (''/i'', ''hey'', 5, 0)" using c(3) by (auto simp: entries_def)
  show ?thesis
    using getValue_fresh [OF c(2) a _ _ e, of "one_file 6 ''you!''" 6 0 "''you!''"] c(1)
    by (auto simp: one_file_def)
qed

end
