(* ===== verification/Fcgi.thy ===== *)
theory Fcgi
  imports Sone_Buffer
begin

unbundle bit_operations_syntax

text \<open>
  The FastCGI client of \<^verbatim>\<open>src/http_server/FcgiConnection.cpp\<close> and the wire format of
  \<^verbatim>\<open>fast_cgi.h\<close>: the records it sends to the PHP process and the loop that reads the
  answer.

  Bytes are characters; \<open>uchar\<close> is the conversion to \<open>unsigned char\<close>.  The output buffer
  is a \<open>Buffer\<close>; \<open>fc_sent\<close> are the bytes the kernel has accepted.  A call of
  \<open>write\<close> is described by its return value, reads by a function \<open>rd\<close> from the number
  of bytes asked for and the state of the stream to what was delivered (\<open>None\<close>: the call
  failed) and the next state of the stream.
\<close>

section \<open>Wire format\<close>

definition uchar :: "int \<Rightarrow> char" where
  "uchar i = char_of (nat (i mod 256))"

record FCGI_Header =
  fh_version :: char
  fh_type :: char
  requestIdB1 :: char
  requestIdB0 :: char
  contentLengthB1 :: char
  contentLengthB0 :: char
  paddingLength :: char
  fh_reserved :: char

definition header_bytes :: "FCGI_Header \<Rightarrow> char list" where
  "header_bytes h =
     [fh_version h, fh_type h, requestIdB1 h, requestIdB0 h, contentLengthB1 h, contentLengthB0 h,
      paddingLength h, fh_reserved h]"

definition FCGI_HEADER_LEN :: nat where "FCGI_HEADER_LEN = 8"
definition FCGI_VERSION_1 :: int where "FCGI_VERSION_1 = 1"
definition FCGI_BEGIN_REQUEST :: int where "FCGI_BEGIN_REQUEST = 1"
definition FCGI_END_REQUEST :: int where "FCGI_END_REQUEST = 3"
definition FCGI_PARAMS :: int where "FCGI_PARAMS = 4"
definition FCGI_STDIN :: int where "FCGI_STDIN = 5"
definition FCGI_STDOUT :: int where "FCGI_STDOUT = 6"
definition FCGI_STDERR :: int where "FCGI_STDERR = 7"
definition FCGI_RESPONDER :: int where "FCGI_RESPONDER = 1"

lemmas fcgi_consts =
  FCGI_HEADER_LEN_def FCGI_VERSION_1_def FCGI_BEGIN_REQUEST_def FCGI_END_REQUEST_def FCGI_PARAMS_def
  FCGI_STDIN_def FCGI_STDOUT_def FCGI_STDERR_def FCGI_RESPONDER_def

text \<open>The header every sender fills in, from the type, the request id and the content length.\<close>

definition make_header :: "int \<Rightarrow> int \<Rightarrow> int \<Rightarrow> FCGI_Header" where
  "make_header ty requestId len =
     \<lparr>fh_version = uchar FCGI_VERSION_1, fh_type = uchar ty,
      requestIdB1 = uchar (drop_bit 8 requestId AND 0xff), requestIdB0 = uchar (requestId AND 0xff),
      contentLengthB1 = uchar (drop_bit 8 len AND 0xff), contentLengthB0 = uchar (len AND 0xff),
      paddingLength = uchar 0, fh_reserved = uchar 0\<rparr>"

text \<open>\<open>FCGI_BeginRequestBody\<close>: the role, the flags and five reserved bytes.\<close>

definition begin_body :: "char list" where
  "begin_body =
     [uchar (drop_bit 8 FCGI_RESPONDER AND 0xff), uchar (FCGI_RESPONDER AND 0xff), uchar 0] @
     replicate 5 (uchar 0)"

section \<open>Connection\<close>

record FcgiConnection =
  fc_output :: Buffer
  fc_requestId :: int
  fc_sent :: "char list"

definition FcgiConnection_new :: "int \<Rightarrow> FcgiConnection" where
  "FcgiConnection_new requestId =
     \<lparr>fc_output = Buffer_new, fc_requestId = requestId, fc_sent = []\<rparr>"

definition setRequestId :: "int \<Rightarrow> FcgiConnection \<Rightarrow> FcgiConnection" where
  "setRequestId requestId f = f\<lparr>fc_requestId := requestId\<rparr>"

definition out_append :: "(nat \<Rightarrow> char) \<Rightarrow> char list \<Rightarrow> FcgiConnection \<Rightarrow> FcgiConnection result" where
  "out_append junk xs f =
     and_then (Buffer_append junk xs (fc_output f)) (\<lambda>b. Inr (f\<lparr>fc_output := b\<rparr>))"

text \<open>\<open>write(fd, peek(), dataLen())\<close> returning \<open>len\<close>, then \<open>moveLow(len)\<close>.\<close>

definition out_write :: "int \<Rightarrow> FcgiConnection \<Rightarrow> FcgiConnection" where
  "out_write len f =
     f\<lparr>fc_sent := fc_sent f @ take (nat len) (buf_data (fc_output f)),
       fc_output := snd (moveLow (to_size_t len) (fc_output f))\<rparr>"

section \<open>Sending\<close>

definition sendBeginRequest :: "(nat \<Rightarrow> char) \<Rightarrow> FcgiConnection \<Rightarrow> FcgiConnection result" where
  "sendBeginRequest junk f =
     out_append junk
       (header_bytes (make_header FCGI_BEGIN_REQUEST (fc_requestId f) (int (length begin_body))) @ begin_body) f"

definition sendEndRequest :: "(nat \<Rightarrow> char) \<Rightarrow> int \<Rightarrow> FcgiConnection \<Rightarrow> FcgiConnection result" where
  "sendEndRequest junk wlen f =
     and_then (out_append junk (header_bytes (make_header FCGI_PARAMS (fc_requestId f) 0)) f) (\<lambda>f.
       Inr (out_write wlen f))"

definition sendContentHeader ::
  "(nat \<Rightarrow> char) \<Rightarrow> int \<Rightarrow> string \<Rightarrow> nat \<Rightarrow> FcgiConnection \<Rightarrow> FcgiConnection result" where
  "sendContentHeader junk wlen content cLen f =
     and_then (out_append junk (header_bytes (make_header FCGI_STDIN (fc_requestId f) (int cLen))) f) (\<lambda>f.
     and_then (out_append junk content f) (\<lambda>f.
     and_then (out_append junk (header_bytes (make_header FCGI_STDIN (fc_requestId f) 0)) f) (\<lambda>f.
       Inr (out_write wlen f))))"

text \<open>The length of a name or value: one byte, or four bytes with the top bit set.\<close>

definition length_bytes :: "nat \<Rightarrow> char list" where
  "length_bytes n =
     (if n < 128 then [uchar (int n)]
      else [uchar (int (drop_bit 24 n OR 0x80)), uchar (int (drop_bit 16 n)), uchar (int (drop_bit 8 n)),
            uchar (int n)])"

definition BUFSIZE :: nat where "BUFSIZE = 8192"

text \<open>\<open>makeValueBody\<close> writes through the pointer into the caller's array of
  \<open>BUFSIZE\<close> bytes: the array afterwards and the length written.\<close>

definition makeValueBody :: "string \<Rightarrow> string \<Rightarrow> char list \<Rightarrow> (char list \<times> nat) result" where
  "makeValueBody key value bodybuffer =
     (let body = length_bytes (length key) @ length_bytes (length value) @ key @ value in
      and_then (mem_write bodybuffer 0 body) (\<lambda>mem. Inr (mem, length body)))"

definition sendParams ::
  "(nat \<Rightarrow> char) \<Rightarrow> string \<Rightarrow> string \<Rightarrow> FcgiConnection \<Rightarrow> FcgiConnection result" where
  "sendParams junk key value f =
     and_then (makeValueBody key value (replicate BUFSIZE nul)) (\<lambda>(buff, bodylen).
     and_then (out_append junk (header_bytes (make_header FCGI_PARAMS (fc_requestId f) (int bodylen))) f) (\<lambda>f.
       out_append junk (take bodylen buff) f))"

section \<open>Receiving\<close>

text \<open>A read of \<open>n\<close> bytes into an array of eight bytes.\<close>

definition read_tmp ::
  "(nat \<Rightarrow> 's \<Rightarrow> char list option \<times> 's) \<Rightarrow> nat \<Rightarrow> 's \<Rightarrow> 's result" where
  "read_tmp rd n s =
     (if n > 0 then
        (case rd n s of
           (Some xs, s') \<Rightarrow> if length xs \<le> 8 then Inr s' else Inl Out_of_bounds
         | (None, s') \<Rightarrow> Inr s')
      else Inr s)"

text \<open>The header after a read that may have delivered only some of its bytes.\<close>

definition fill_header :: "char list \<Rightarrow> FCGI_Header \<Rightarrow> FCGI_Header" where
  "fill_header xs h =
     (let ys = xs @ drop (length xs) (header_bytes h) in
      \<lparr>fh_version = ys ! 0, fh_type = ys ! 1, requestIdB1 = ys ! 2, requestIdB0 = ys ! 3,
       contentLengthB1 = ys ! 4, contentLengthB0 = ys ! 5, paddingLength = ys ! 6, fh_reserved = ys ! 7\<rparr>)"

definition content_len :: "FCGI_Header \<Rightarrow> nat" where
  "content_len h = push_bit 8 (of_char (contentLengthB1 h)) + of_char (contentLengthB0 h)"

definition readRecord ::
  "(nat \<Rightarrow> char) \<Rightarrow> (nat \<Rightarrow> 's \<Rightarrow> char list option \<times> 's) \<Rightarrow> FCGI_Header \<Rightarrow> 's \<Rightarrow> Buffer \<Rightarrow> ('s \<times> Buffer) result" where
  "readRecord junk rd h s buf =
     (if fh_type h = uchar FCGI_STDOUT then
        (case rd (content_len h) s of (r, s') \<Rightarrow>
           and_then (Buffer_read_n junk (\<lambda>_. r) (content_len h) buf) (\<lambda>(_, buf').
           and_then (read_tmp rd (of_char (paddingLength h)) s') (\<lambda>s''. Inr (s'', buf'))))
      else if fh_type h = uchar FCGI_STDERR then
        (case rd (content_len h) s of (_, s') \<Rightarrow>
           and_then (read_tmp rd (of_char (paddingLength h)) s') (\<lambda>s''. Inr (s'', buf)))
      else if fh_type h = uchar FCGI_END_REQUEST then Inr (snd (rd 8 s), buf)
      else Inr (s, buf))"

partial_function (option) readContent ::
  "(nat \<Rightarrow> char) \<Rightarrow> (nat \<Rightarrow> 's \<Rightarrow> char list option \<times> 's) \<Rightarrow> FCGI_Header \<Rightarrow> 's \<Rightarrow> Buffer \<Rightarrow>
   ('s \<times> Buffer) result option" where
  "readContent junk rd resp_header s buf =
     (case rd FCGI_HEADER_LEN s of
        (Some (x # xs), s') \<Rightarrow>
          (let h = fill_header (x # xs) resp_header in
           case readRecord junk rd h s' buf of
             Inl e \<Rightarrow> Some (Inl e)
           | Inr (s'', buf') \<Rightarrow> readContent junk rd h s'' buf')
      | (_, s') \<Rightarrow> Some (Inr (s', buf)))"

section \<open>A reader of the wire format\<close>

text \<open>What the FastCGI specification says a peer reads: records of a type, a request id and a
  content, and name-value pairs with their lengths in front.\<close>

definition byte :: "char \<Rightarrow> nat" where
  "byte c = of_char c"

definition read_record :: "char list \<Rightarrow> ((nat \<times> nat \<times> char list) \<times> char list) option" where
  "read_record s =
     (if length s < 8 then None
      else
        let n = 256 * byte (s ! 4) + byte (s ! 5); pad = byte (s ! 6) in
        if length s < 8 + n + pad then None
        else Some ((byte (s ! 1), 256 * byte (s ! 2) + byte (s ! 3), take n (drop 8 s)), drop (8 + n + pad) s))"

definition read_length :: "char list \<Rightarrow> (nat \<times> char list) option" where
  "read_length s =
     (case s of
        [] \<Rightarrow> None
      | b3 # r \<Rightarrow>
          if byte b3 < 128 then Some (byte b3, r)
          else case r of
            b2 # b1 # b0 # r' \<Rightarrow>
              Some ((byte b3 - 128) * 2 ^ 24 + byte b2 * 2 ^ 16 + byte b1 * 2 ^ 8 + byte b0, r')
          | _ \<Rightarrow> None)"

definition read_name_value :: "char list \<Rightarrow> ((string \<times> string) \<times> char list) option" where
  "read_name_value s =
     Option.bind (read_length s) (\<lambda>(n, s).
     Option.bind (read_length s) (\<lambda>(v, s).
       if length s < n + v then None
       else Some ((take n s, take v (drop n s)), drop (n + v) s)))"

lemma byte_uchar [simp]: "byte (uchar i) = nat (i mod 256)"
proof -
  have "nat (i mod 256) < 256" by (simp add: nat_less_iff)
  then show ?thesis by (simp add: byte_def uchar_def)
qed

lemma and_255: "(i :: int) AND 0xff = i mod 256"
proof -
  have "(0xff :: int) = mask 8" by (simp add: mask_eq_exp_minus_1)
  then have "i AND 0xff = take_bit 8 i" by (simp only: take_bit_eq_mask)
  then show ?thesis by (simp add: take_bit_eq_mod)
qed

lemma header_length_bytes:
  assumes "0 \<le> n" and "n < 65536"
  shows "256 * nat (drop_bit 8 n AND 0xff) + nat (n AND 0xff) = nat n"
proof -
  obtain k where k: "n = int k" using assms(1) nonneg_int_cases by blast
  then have "k div 256 < 256" using assms(2) by (simp add: less_mult_imp_div_less)
  moreover have "nat (int k mod 256) = k mod 256" "int k div 256 = int (k div 256)"
    by (simp_all add: zdiv_int nat_mod_distrib)
  ultimately show ?thesis by (simp add: k and_255 drop_bit_eq_div)
qed

lemma length_header_bytes [simp]: "length (header_bytes h) = 8"
  by (simp add: header_bytes_def)

lemma length_length_bytes: "length (length_bytes n) \<le> 4"
  by (simp add: length_bytes_def)

lemma read_record_made:
  assumes "0 \<le> ty" "ty < 256" "0 \<le> rid" "rid < 65536" "length content < 65536"
  shows "read_record (header_bytes (make_header ty rid (int (length content))) @ content @ rest) =
    Some ((nat ty, nat rid, content), rest)"
proof -
  let ?s = "header_bytes (make_header ty rid (int (length content))) @ content @ rest"
  have s: "?s ! 1 = uchar ty" "?s ! 2 = uchar (drop_bit 8 rid AND 0xff)" "?s ! 3 = uchar (rid AND 0xff)"
    "?s ! 4 = uchar (drop_bit 8 (int (length content)) AND 0xff)"
    "?s ! 5 = uchar (int (length content) AND 0xff)" "?s ! 6 = uchar 0"
    by (simp_all add: header_bytes_def make_header_def)
  have m: "(x AND 0xff) mod 256 = x AND 0xff" for x :: int by (simp add: and_255)
  have "256 * byte (?s ! 4) + byte (?s ! 5) = length content"
    using header_length_bytes [of "int (length content)"] assms(5) s m by simp
  moreover have "256 * byte (?s ! 2) + byte (?s ! 3) = nat rid"
    using header_length_bytes [of rid] assms(3,4) s m by simp
  moreover have "byte (?s ! 1) = nat ty" "byte (?s ! 6) = 0" using s assms(1,2) by simp_all
  moreover have "drop 8 ?s = content @ rest" by simp
  ultimately show ?thesis by (simp add: read_record_def Let_def)
qed

lemma or_128: "n < 128 \<Longrightarrow> n OR 0x80 = n + (128 :: nat)"
proof -
  assume "n < 128"
  then have "\<not> bit n 7" by (simp add: bit_iff_odd)
  then have "n AND 2 ^ 7 = 0" using and_exp_eq_0_iff_not_bit [of n 7] by blast
  then have "n + 2 ^ 7 = n OR 2 ^ 7" by (rule disjunctive_add_eq_or)
  then show ?thesis by simp
qed

lemma read_length_bytes:
  assumes "n < 2 ^ 31"
  shows "read_length (length_bytes n @ s) = Some (n, s)"
proof (cases "n < 128")
  case True
  then show ?thesis by (simp add: length_bytes_def read_length_def nat_mod_distrib)
next
  case False
  let ?a = "n div 2 ^ 24"
  have a: "?a < 128" using assms by (simp add: less_mult_imp_div_less)
  have b: "byte (uchar (int m)) = m mod 256" for m
    by (simp add: nat_mod_distrib)
  have d: "drop_bit 24 n = ?a" "drop_bit 16 n = n div 2 ^ 16" "drop_bit 8 n = n div 2 ^ 8"
    by (simp_all add: drop_bit_eq_div)
  have "?a * 2 ^ 24 + n div 2 ^ 16 mod 256 * 2 ^ 16 + n div 2 ^ 8 mod 256 * 2 ^ 8 + n mod 256 = n"
  proof -
    define x y z where "x = n div 256" and "y = x div 256" and "z = y div 256"
    have "n = x * 256 + n mod 256" "x = y * 256 + x mod 256" "y = z * 256 + y mod 256"
      by (simp_all add: x_def y_def z_def)
    moreover have "n div 2 ^ 16 = y" "n div 2 ^ 24 = z" "n div 2 ^ 8 = x"
      by (simp_all add: x_def y_def z_def div_mult2_eq [symmetric])
    ultimately show ?thesis by simp
  qed
  moreover have "byte (uchar (int ?a + 128)) = ?a + 128" using a b [of "?a + 128"] by simp
  ultimately show ?thesis
    using False a by (simp add: length_bytes_def read_length_def d or_128 b del: byte_uchar)
qed

lemma read_name_value_made:
  assumes "length key < 2 ^ 31" and "length value < 2 ^ 31"
  shows "read_name_value (length_bytes (length key) @ length_bytes (length value) @ key @ value) =
    Some ((key, value), [])"
  using assms by (simp add: read_name_value_def read_length_bytes)

lemma makeValueBody_fits:
  assumes "length_bytes (length key) @ length_bytes (length value) @ key @ value = body"
    and "length body \<le> length buff"
  shows "\<exists>mem. makeValueBody key value buff = Inr (mem, length body) \<and> take (length body) mem = body"
  using assms by (auto simp: makeValueBody_def mem_write_def Let_def)

section \<open>Pending output\<close>

definition out_ok :: "FcgiConnection \<Rightarrow> char list \<Rightarrow> int \<Rightarrow> bool" where
  "out_ok f xs n \<longleftrightarrow> wf_buffer (fc_output f) \<and> buf_data (fc_output f) = xs \<and> writeLen (fc_output f) = n"

lemma writeLen_new: "writeLen Buffer_new = 4096"
  by (simp add: writeLen_def Buffer_new_def to_int32_def)

lemma out_ok_new: "out_ok (FcgiConnection_new i) [] 4096"
  using wf_Buffer_new buf_data_new writeLen_new by (simp add: out_ok_def FcgiConnection_new_def)

lemma out_append_ok:
  assumes "out_ok f xs n" and "int (length ys) \<le> n"
  shows "\<exists>f'. out_append junk ys f = Inr f' \<and> out_ok f' (xs @ ys) (n - int (length ys)) \<and>
    fc_requestId f' = fc_requestId f \<and> fc_sent f' = fc_sent f"
  using append_fits [of "fc_output f" ys junk] assms by (auto simp: out_append_def out_ok_def)

lemma out_write_ok:
  assumes "out_ok f xs n"
  shows "out_ok (out_write (int (length xs)) f) [] n \<and>
    fc_sent (out_write (int (length xs)) f) = fc_sent f @ xs \<and>
    fc_requestId (out_write (int (length xs)) f) = fc_requestId f"
proof -
  let ?b = "fc_output f"
  have wf: "wf_buffer ?b" "buf_data ?b = xs" "writeLen ?b = n" using assms by (auto simp: out_ok_def)
  note al = wf_alloc_buffer [OF wf(1)]
  obtain b' where b': "moveLow (length xs) ?b = (True, b')" "alloc_buffer b'" "buf_data b' = []"
      "vec_size b' = vec_size ?b" "vec_mem b' = vec_mem ?b" "high b' = high ?b"
    using moveLow_data [OF al, of "length xs"] wf(2) by auto
  have "to_size_t (int (length xs)) = length xs"
    using length_buf_data_bound [OF al] wf(2) by (simp add: to_size_t_id)
  moreover have "wf_buffer b'" using b' wf(1) by (auto simp: wf_buffer_def alloc_buffer_def)
  moreover have "writeLen b' = n" using b'(4,6) wf(3) by (simp add: writeLen_def)
  ultimately show ?thesis using b' wf(2) by (simp add: out_write_def out_ok_def)
qed

text \<open>The bytes of a record.\<close>

definition record_bytes :: "int \<Rightarrow> int \<Rightarrow> char list \<Rightarrow> char list" where
  "record_bytes ty rid content = header_bytes (make_header ty rid (int (length content))) @ content"

definition pair_bytes :: "string \<Rightarrow> string \<Rightarrow> char list" where
  "pair_bytes key value = length_bytes (length key) @ length_bytes (length value) @ key @ value"

lemma sendBeginRequest_ok:
  assumes "out_ok f xs n" and "16 \<le> n"
  shows "\<exists>f'. sendBeginRequest junk f = Inr f' \<and>
    out_ok f' (xs @ record_bytes FCGI_BEGIN_REQUEST (fc_requestId f) begin_body) (n - 16) \<and>
    fc_requestId f' = fc_requestId f \<and> fc_sent f' = fc_sent f"
  using out_append_ok [OF assms(1), of "record_bytes FCGI_BEGIN_REQUEST (fc_requestId f) begin_body" junk] assms(2)
  by (simp add: sendBeginRequest_def record_bytes_def begin_body_def)

lemma sendParams_ok:
  assumes "out_ok f xs n" and "length (pair_bytes key value) \<le> BUFSIZE"
    and "8 + int (length (pair_bytes key value)) \<le> n"
  shows "\<exists>f'. sendParams junk key value f = Inr f' \<and>
    out_ok f' (xs @ record_bytes FCGI_PARAMS (fc_requestId f) (pair_bytes key value))
      (n - 8 - int (length (pair_bytes key value))) \<and>
    fc_requestId f' = fc_requestId f \<and> fc_sent f' = fc_sent f"
proof -
  let ?p = "pair_bytes key value"
  obtain mem where m: "makeValueBody key value (replicate BUFSIZE nul) = Inr (mem, length ?p)"
      "take (length ?p) mem = ?p"
    using makeValueBody_fits [OF pair_bytes_def [symmetric], of key "value" "replicate BUFSIZE nul"] assms(2) by auto
  let ?h = "header_bytes (make_header FCGI_PARAMS (fc_requestId f) (int (length ?p)))"
  obtain f1 where f1: "out_append junk ?h f = Inr f1" "out_ok f1 (xs @ ?h) (n - 8)"
      "fc_requestId f1 = fc_requestId f" "fc_sent f1 = fc_sent f"
    using out_append_ok [OF assms(1), of ?h junk] assms(3) by auto
  obtain f2 where f2: "out_append junk ?p f1 = Inr f2" "out_ok f2 ((xs @ ?h) @ ?p) (n - 8 - int (length ?p))"
      "fc_requestId f2 = fc_requestId f1" "fc_sent f2 = fc_sent f1"
    using out_append_ok [OF f1(2), of ?p junk] assms(3) by auto
  show ?thesis using m f1 f2 by (simp add: sendParams_def record_bytes_def)
qed

lemma sendEndRequest_ok:
  assumes "out_ok f xs n" and "8 \<le> n"
  shows "\<exists>f'. sendEndRequest junk (int (length xs) + 8) f = Inr f' \<and>
    out_ok f' [] (n - 8) \<and> fc_requestId f' = fc_requestId f \<and>
    fc_sent f' = fc_sent f @ xs @ record_bytes FCGI_PARAMS (fc_requestId f) []"
proof -
  let ?h = "header_bytes (make_header FCGI_PARAMS (fc_requestId f) 0)"
  obtain f1 where f1: "out_append junk ?h f = Inr f1" "out_ok f1 (xs @ ?h) (n - 8)"
      "fc_requestId f1 = fc_requestId f" "fc_sent f1 = fc_sent f"
    using out_append_ok [OF assms(1), of ?h junk] assms(2) by auto
  show ?thesis
    using f1 out_write_ok [OF f1(2)] by (simp add: sendEndRequest_def record_bytes_def add.commute)
qed

lemma sendContentHeader_ok:
  assumes "out_ok f xs n" and "16 + int (length content) \<le> n"
  shows "\<exists>f'. sendContentHeader junk (int (length xs) + 16 + int (length content)) content (length content) f = Inr f' \<and>
    out_ok f' [] (n - 16 - int (length content)) \<and> fc_requestId f' = fc_requestId f \<and>
    fc_sent f' = fc_sent f @ xs @ record_bytes FCGI_STDIN (fc_requestId f) content @
                 record_bytes FCGI_STDIN (fc_requestId f) []"
proof -
  let ?h = "header_bytes (make_header FCGI_STDIN (fc_requestId f) (int (length content)))"
  let ?e = "header_bytes (make_header FCGI_STDIN (fc_requestId f) 0)"
  obtain f1 where f1: "out_append junk ?h f = Inr f1" "out_ok f1 (xs @ ?h) (n - 8)"
      "fc_requestId f1 = fc_requestId f" "fc_sent f1 = fc_sent f"
    using out_append_ok [OF assms(1), of ?h junk] assms(2) by auto
  obtain f2 where f2: "out_append junk content f1 = Inr f2" "out_ok f2 ((xs @ ?h) @ content) (n - 8 - int (length content))"
      "fc_requestId f2 = fc_requestId f1" "fc_sent f2 = fc_sent f1"
    using out_append_ok [OF f1(2), of content junk] assms(2) by auto
  obtain f3 where f3: "out_append junk ?e f2 = Inr f3"
      "out_ok f3 (((xs @ ?h) @ content) @ ?e) (n - 8 - int (length content) - 8)"
      "fc_requestId f3 = fc_requestId f2" "fc_sent f3 = fc_sent f2"
    using out_append_ok [OF f2(2), of ?e junk] assms(2) by auto
  have l: "int (length (((xs @ ?h) @ content) @ ?e)) = int (length xs) + 16 + int (length content)" by simp
  note w = out_write_ok [OF f3(2), unfolded l]
  show ?thesis using f1 f2 f3 w by (simp add: sendContentHeader_def record_bytes_def algebra_simps)
qed

section \<open>Reading an answer\<close>

text \<open>A stream that delivers every byte asked for as long as it has them.\<close>

definition full_read :: "nat \<Rightarrow> char list \<Rightarrow> char list option \<times> char list" where
  "full_read n s = (Some (take n s), drop n s)"

text \<open>The records of an answer: output or error text with padding, and the final record.\<close>

datatype answer = Answer_out "char list" "char list" | Answer_err "char list" "char list" | Answer_end "char list"

definition answer_header :: "int \<Rightarrow> char list \<Rightarrow> char list \<Rightarrow> char list" where
  "answer_header ty content pad =
     header_bytes ((make_header ty 1 (int (length content)))\<lparr>paddingLength := uchar (int (length pad))\<rparr>)"

fun answer_bytes :: "answer \<Rightarrow> char list" where
  "answer_bytes (Answer_out content pad) = answer_header FCGI_STDOUT content pad @ content @ pad"
| "answer_bytes (Answer_err content pad) = answer_header FCGI_STDERR content pad @ content @ pad"
| "answer_bytes (Answer_end body) = answer_header FCGI_END_REQUEST body [] @ body"

fun answer_ok :: "answer \<Rightarrow> bool" where
  "answer_ok (Answer_out content pad) \<longleftrightarrow> length content < 65536 \<and> length pad \<le> 8"
| "answer_ok (Answer_err content pad) \<longleftrightarrow> length content < 65536 \<and> length pad \<le> 8"
| "answer_ok (Answer_end body) \<longleftrightarrow> length body = 8"

fun answer_out :: "answer \<Rightarrow> char list" where
  "answer_out (Answer_out content pad) = content"
| "answer_out _ = []"

lemma fill_header_all: "fill_header (header_bytes h) h' = h"
  by (simp add: fill_header_def header_bytes_def)

lemma content_len_made:
  "length content < 65536 \<Longrightarrow>
   content_len ((make_header ty rid (int (length content)))\<lparr>paddingLength := p\<rparr>) = length content"
proof -
  assume "length content < 65536"
  then have "256 * nat (drop_bit 8 (int (length content)) AND 0xff) + nat (int (length content) AND 0xff) =
      length content"
    using header_length_bytes [of "int (length content)"] by simp
  moreover have "of_char (uchar (x AND 0xff)) = nat (x AND 0xff)" for x
    using byte_uchar [of "x AND 0xff"] by (simp add: byte_def and_255)
  ultimately show ?thesis
    by (simp add: content_len_def make_header_def push_bit_eq_mult mult.commute)
qed

lemma read_tmp_full:
  assumes "length pad \<le> 8"
  shows "read_tmp full_read (of_char (uchar (int (length pad)))) (pad @ s) = Inr s"
proof -
  have "of_char (uchar (int (length pad))) = length pad"
    using byte_uchar [of "int (length pad)"] assms by (simp add: byte_def)
  then show ?thesis using assms by (simp add: read_tmp_def full_read_def)
qed

lemma uchar_inj:
  assumes "uchar i = uchar j" "0 \<le> i" "i < 256" "0 \<le> j" "j < 256"
  shows "i = j"
  using assms(2-) arg_cong [OF assms(1), of byte] by simp

lemma types_differ [simp]:
  "uchar FCGI_STDERR \<noteq> uchar FCGI_STDOUT" "uchar FCGI_END_REQUEST \<noteq> uchar FCGI_STDOUT"
  "uchar FCGI_END_REQUEST \<noteq> uchar FCGI_STDERR"
  by (auto simp: fcgi_consts dest: uchar_inj)

lemma readRecord_answer:
  assumes "answer_ok r" and "wf_buffer b" and "int (length (answer_out r)) \<le> writeLen b"
  shows "\<exists>h b'. take 8 (answer_bytes r @ s) = header_bytes h \<and>
    readRecord junk full_read h (drop 8 (answer_bytes r @ s)) b = Inr (s, b') \<and>
    wf_buffer b' \<and> buf_data b' = buf_data b @ answer_out r \<and>
    writeLen b' = writeLen b - int (length (answer_out r))"
proof (cases r)
  case (Answer_out content pad)
  let ?h = "(make_header FCGI_STDOUT 1 (int (length content)))\<lparr>paddingLength := uchar (int (length pad))\<rparr>"
  have t: "take 8 (answer_bytes r @ s) = header_bytes ?h" "drop 8 (answer_bytes r @ s) = content @ pad @ s"
    using Answer_out by (simp_all add: answer_header_def)
  have cl: "content_len ?h = length content" using assms(1) Answer_out by (simp add: content_len_made)
  obtain b' where b': "Buffer_read_n junk (\<lambda>_. Some content) (length content) b = Inr (int (length content), b')"
      "wf_buffer b'" "buf_data b' = buf_data b @ content" "writeLen b' = writeLen b - int (length content)"
    using read_n_fits [OF assms(2), of "length content" "\<lambda>_. Some content" content junk] assms(3) Answer_out by auto
  have "read_tmp full_read (of_char (paddingLength ?h)) (pad @ s) = Inr s"
    using read_tmp_full [of pad s] assms(1) Answer_out by simp
  then have "readRecord junk full_read ?h (content @ pad @ s) b = Inr (s, b')"
    using b'(1) cl by (simp add: readRecord_def make_header_def full_read_def)
  then show ?thesis using t b' Answer_out by (intro exI [of _ ?h] exI [of _ b']) simp
next
  case (Answer_err content pad)
  let ?h = "(make_header FCGI_STDERR 1 (int (length content)))\<lparr>paddingLength := uchar (int (length pad))\<rparr>"
  have t: "take 8 (answer_bytes r @ s) = header_bytes ?h" "drop 8 (answer_bytes r @ s) = content @ pad @ s"
    using Answer_err by (simp_all add: answer_header_def)
  have cl: "content_len ?h = length content" using assms(1) Answer_err by (simp add: content_len_made)
  have "read_tmp full_read (of_char (paddingLength ?h)) (pad @ s) = Inr s"
    using read_tmp_full [of pad s] assms(1) Answer_err by simp
  then have "readRecord junk full_read ?h (content @ pad @ s) b = Inr (s, b)"
    using cl by (simp add: readRecord_def make_header_def full_read_def)
  then show ?thesis using t assms(2) Answer_err by (intro exI [of _ ?h] exI [of _ b]) simp
next
  case (Answer_end body)
  let ?h = "(make_header FCGI_END_REQUEST 1 (int (length body)))\<lparr>paddingLength := uchar 0\<rparr>"
  have t: "take 8 (answer_bytes r @ s) = header_bytes ?h" "drop 8 (answer_bytes r @ s) = body @ s"
    using Answer_end by (simp_all add: answer_header_def)
  have "readRecord junk full_read ?h (body @ s) b = Inr (s, b)"
    using assms(1) Answer_end by (simp add: readRecord_def make_header_def full_read_def)
  then show ?thesis using t assms(2) Answer_end by (intro exI [of _ ?h] exI [of _ b]) simp
qed

lemma readContent_answers:
  "\<forall>r \<in> set rs. answer_ok r \<Longrightarrow> wf_buffer b \<Longrightarrow>
   int (length (concat (map answer_out rs))) \<le> writeLen b \<Longrightarrow>
   \<exists>b'. readContent junk full_read h (concat (map answer_bytes rs)) b = Some (Inr ([], b')) \<and>
        wf_buffer b' \<and> buf_data b' = buf_data b @ concat (map answer_out rs)"
proof (induction rs arbitrary: b h)
  case Nil
  then show ?case by (subst readContent.simps) (simp add: full_read_def)
next
  case (Cons r rs)
  let ?s = "concat (map answer_bytes rs)"
  have fit: "int (length (answer_out r)) \<le> writeLen b" using Cons.prems(3) by simp
  obtain h' b1 where r: "take 8 (answer_bytes r @ ?s) = header_bytes h'"
      "readRecord junk full_read h' (drop 8 (answer_bytes r @ ?s)) b = Inr (?s, b1)"
      "wf_buffer b1" "buf_data b1 = buf_data b @ answer_out r" "writeLen b1 = writeLen b - int (length (answer_out r))"
    using readRecord_answer [of r b ?s junk, OF _ Cons.prems(2) fit] Cons.prems(1) by auto
  obtain b' where b': "readContent junk full_read h' ?s b1 = Some (Inr ([], b'))" "wf_buffer b'"
      "buf_data b' = buf_data b1 @ concat (map answer_out rs)"
    using Cons.IH [of b1 h'] Cons.prems(1,3) r(3,5) by auto
  obtain x xs where hb: "header_bytes h' = x # xs" by (simp add: header_bytes_def)
  have "fill_header (x # xs) h = h'" using fill_header_all [of h' h] hb by simp
  then have "readContent junk full_read h (concat (map answer_bytes (r # rs))) b = Some (Inr ([], b'))"
    using r(1,2) b'(1) hb
    by (subst readContent.simps) (simp add: full_read_def FCGI_HEADER_LEN_def Let_def del: take_append drop_append)
  then show ?case using b'(2,3) r(4) by auto
qed

section \<open>Properties\<close>

text \<open>
  A name-value pair that fits the stack buffer is encoded so that a reader of the FastCGI
  format gets back exactly the name and the value; a longer pair is written past the end of the
  8192-byte array.
\<close>

theorem makeValueBody_correct:
  assumes "length key < 2 ^ 31" and "length value < 2 ^ 31"
  shows "(length (pair_bytes key value) \<le> BUFSIZE \<longrightarrow>
            (\<exists>mem n. makeValueBody key value (replicate BUFSIZE nul) = Inr (mem, n) \<and>
                     read_name_value (take n mem) = Some ((key, value), []))) \<and>
         (BUFSIZE < length (pair_bytes key value) \<longrightarrow>
            makeValueBody key value (replicate BUFSIZE nul) = Inl Out_of_bounds)"
proof (intro conjI impI)
  assume "length (pair_bytes key value) \<le> BUFSIZE"
  then show "\<exists>mem n. makeValueBody key value (replicate BUFSIZE nul) = Inr (mem, n) \<and>
                     read_name_value (take n mem) = Some ((key, value), [])"
    using makeValueBody_fits [OF pair_bytes_def [symmetric], of key "value" "replicate BUFSIZE nul"]
      read_name_value_made [OF assms] by (auto simp: pair_bytes_def)
next
  assume "BUFSIZE < length (pair_bytes key value)"
  then show "makeValueBody key value (replicate BUFSIZE nul) = Inl Out_of_bounds"
    by (simp add: makeValueBody_def mem_write_def pair_bytes_def Let_def)
qed

theorem makeValueBody_correct_witness:
  "(\<exists>mem n. makeValueBody ''A'' ''bc'' (replicate BUFSIZE nul) = Inr (mem, n) \<and>
            read_name_value (take n mem) = Some ((''A'', ''bc''), [])) \<and>
   makeValueBody ''A'' (replicate 8192 nul) (replicate BUFSIZE nul) = Inl Out_of_bounds"
  using makeValueBody_correct [of "''A''" "''bc''"] makeValueBody_correct [of "''A''" "replicate 8192 nul"]
  by (simp add: pair_bytes_def BUFSIZE_def length_bytes_def)

text \<open>
  C21. Reading an answer ends and collects exactly the output records, in order, ignoring error
  text, padding and the final record, when every read returns as many bytes as it asks for, the
  output fits the free part of the buffer and no record has more than eight bytes of padding.
\<close>

theorem readContent_collects_stdout:
  assumes "\<forall>r \<in> set rs. answer_ok r" and "wf_buffer b"
    and "int (length (concat (map answer_out rs))) \<le> writeLen b"
  shows "\<exists>b'. readContent junk full_read h (concat (map answer_bytes rs)) b = Some (Inr ([], b')) \<and>
        wf_buffer b' \<and> buf_data b' = buf_data b @ concat (map answer_out rs)"
  using assms by (rule readContent_answers)

definition sample_header :: FCGI_Header where
  "sample_header = make_header 0 0 0"

theorem readContent_collects_stdout_witness:
  "\<exists>b'. readContent (\<lambda>_. nul) full_read sample_header
          (concat (map answer_bytes [Answer_out ''hi'' ''......'', Answer_err ''bad'' [], Answer_end (replicate 8 nul)]))
          Buffer_new = Some (Inr ([], b')) \<and>
        wf_buffer b' \<and>
        buf_data b' = buf_data Buffer_new @ concat (map answer_out
          [Answer_out ''hi'' ''......'', Answer_err ''bad'' [], Answer_end (replicate 8 nul)])"
  by (rule readContent_collects_stdout)
    (simp_all add: wf_Buffer_new writeLen_new)

text \<open>
  A record of the answer with more than eight bytes of padding overflows the eight-byte array
  the padding is read into, although the format allows up to 255.
\<close>

theorem readRecord_padding_overflow:
  assumes "fh_type h = uchar FCGI_STDERR" and "8 < byte (paddingLength h)"
    and "content_len h + byte (paddingLength h) \<le> length s"
  shows "readRecord junk full_read h s b = Inl Out_of_bounds"
  using assms by (simp add: readRecord_def read_tmp_def full_read_def byte_def)

theorem readRecord_padding_overflow_witness:
  "readRecord (\<lambda>_. nul) full_read ((make_header FCGI_STDERR 1 0)\<lparr>paddingLength := uchar 9\<rparr>) (replicate 9 nul) Buffer_new
     = Inl Out_of_bounds"
  by (rule readRecord_padding_overflow)
    (simp_all add: make_header_def content_len_def and_255 byte_def [symmetric])

end
