(* ===== verification/Http_Server.thy ===== *)
theory Http_Server
  imports Http_Parser LRU_Cache Fcgi
begin

text \<open>
  The rest of \<^verbatim>\<open>src/http_server/HttpServer.cpp\<close>: the error page, the response to a request for a
  file, the response of the PHP process, and the whole of \<open>onMessage\<close>.

  What the code asks of the outside is an argument, collected in \<open>server_env\<close>: the file system,
  the clock, the local time conversion, the gzip filter of boost, and the values of the objects it
  leaves uninitialised (the modification time when \<open>fstat\<close> failed, the two dates of the
  comparison, the length field of a response).
\<close>

section \<open>Constants and environment\<close>

definition SERVER_VERSION :: string where "SERVER_VERSION = ''sone/1.0''"
definition WEB_ROOT :: string where "WEB_ROOT = ''/home/ubuntu/web_root''"
definition NOT_FOUND_PAGE :: string where
  "NOT_FOUND_PAGE = ''<html><title>404 Not Found</title><body><h1>Not Found!</h1></body></html>''"
definition ERROR_REQ_PAGE :: string where
  "ERROR_REQ_PAGE = ''<html><title>400 Bad Request</title><body><h1>Bad Request!</h1></body></html>''"
definition HTTP_CACHE_MAX_AGE :: nat where "HTTP_CACHE_MAX_AGE = 86400"

record server_env =
  env_fs :: filesystem
  env_now :: int
  env_localtime :: "int \<Rightarrow> tm"
  gzipCompress :: "string \<Rightarrow> string"
  env_mtime :: int
  env_date1 :: date
  env_date2 :: date
  env_len :: nat

definition now_text :: "server_env \<Rightarrow> string" where
  "now_text env = toGMTString (env_localtime env) (Timestamp_now (env_now env, 0))"

definition with_header :: "string \<Rightarrow> string \<Rightarrow> HttpResponse \<Rightarrow> HttpResponse" where
  "with_header key val r = snd (resp_setHeader key val r)"

section \<open>The error page\<close>

definition error_response :: "server_env \<Rightarrow> http_version \<Rightarrow> HttpResponse" where
  "error_response env ver =
     (let resp = resp_setVersion ver (HttpResponse_new (env_len env));
          resp = with_header ''Content-Type'' ''text/html;charset=utf-8'' resp;
          resp = with_header ''Server'' SERVER_VERSION resp;
          resp = with_header ''Date'' (now_text env) resp;
          resp = resp_setContent ERROR_REQ_PAGE resp
      in with_header ''Content-Length'' (to_string (length ERROR_REQ_PAGE)) resp)"

text \<open>The text that is sent, and the connection, which is marked to be closed.\<close>

definition retErrResponse :: "server_env \<Rightarrow> 'a HttpConn_scheme \<Rightarrow> (string \<times> 'a HttpConn_scheme) result" where
  "retErrResponse env c =
     and_then (getRequest c) (\<lambda>req.
       Inr (fst (toString (error_response env (rq_version req))),
            setRequest (snd (setHeader ''Connection'' ''close'' req)) c))"

section \<open>Files\<close>

text \<open>The first match of \<^verbatim>\<open>\.([a-z]+)\<close>, ignoring case: the letters after the first dot that is
  followed by a letter.\<close>

fun extension_of :: "string \<Rightarrow> string option" where
  "extension_of [] = None"
| "extension_of (c # s) =
     (if c = CHR ''.'' \<and> takeWhile is_alpha s \<noteq> [] then Some (takeWhile is_alpha s) else extension_of s)"

definition content_type :: "string \<Rightarrow> string" where
  "content_type type =
     (if CaseInsensitiveEqual type ''html'' then ''text/html;charset=utf-8''
      else if CaseInsensitiveEqual type ''png'' then ''image/png''
      else if CaseInsensitiveEqual type ''jpg'' then ''image/jpeg''
      else if CaseInsensitiveEqual type ''js'' then ''application/javascript''
      else if CaseInsensitiveEqual type ''css'' then ''text/css''
      else ''text/plain'')"

text \<open>The cached contents of a file: the lookup, the insertion when it is missing, and the string made
  of the array and the recorded size.  The operations of the cache are arguments.\<close>

definition cached_file_with ::
  "(filesystem \<Rightarrow> string \<Rightarrow> 'c \<Rightarrow> (nat option \<times> 'c) result) \<Rightarrow> (filesystem \<Rightarrow> string \<Rightarrow> 'c \<Rightarrow> 'c result) \<Rightarrow>
   (string \<Rightarrow> 'c \<Rightarrow> nat result) \<Rightarrow> ('c \<Rightarrow> nat \<Rightarrow> string option) \<Rightarrow>
   filesystem \<Rightarrow> string \<Rightarrow> 'c \<Rightarrow> (string \<times> 'c) result" where
  "cached_file_with get put size_of array fs k c =
     and_then (get fs k c) (\<lambda>(p, c).
     and_then (if p = None then put fs k c else Inr c) (\<lambda>c.
     and_then (get fs k c) (\<lambda>(p, c).
     and_then (size_of k c) (\<lambda>n.
       case p of
         None \<Rightarrow> Inl Logic_error
       | Some a \<Rightarrow>
           (case array c a of
              None \<Rightarrow> Inl Use_after_free
            | Some bytes \<Rightarrow> if n \<le> length bytes then Inr (take n bytes, c) else Inl Out_of_bounds)))))"

definition cached_file :: "filesystem \<Rightarrow> string \<Rightarrow> LRUCache \<Rightarrow> (string \<times> LRUCache) result" where
  "cached_file = cached_file_with lru_getValue lru_setValue getSize lru_bufs"

definition createResponse ::
  "server_env \<Rightarrow> int \<Rightarrow> HttpRequest \<Rightarrow> LRUCache \<Rightarrow> (HttpResponse \<times> HttpRequest \<times> LRUCache) result" where
  "createResponse env req_time req cache =
     (let request_url = rq_url req;
          complete_url = WEB_ROOT @ request_url;
          file = fs_stat (env_fs env) complete_url;
          resp = resp_setVersion (rq_version req) (HttpResponse_new (env_len env));
          resp = with_header ''Server'' SERVER_VERSION resp;
          resp = with_header ''Date'' (now_text env) resp;
          (modified_time, req) = getHeader ''If-Modified-Since'' req;
          ts = Timestamp_at (case file of None \<Rightarrow> env_mtime env | Some (s, _, _) \<Rightarrow> s) 0;
          tsGmt = toGMTString (env_localtime env) ts
      in if modified_time \<noteq> [] \<and> file \<noteq> None \<and>
            compareGMTStr (env_date1 env) (env_date2 env) modified_time tsGmt
         then Inr (setRespState Not_Modified resp, req, cache)
         else
           let resp = with_header ''Last-Modified'' tsGmt resp;
               resp = with_header ''Expires''
                        (toGMTString (env_localtime env) (Timestamp_at (req_time + int HTTP_CACHE_MAX_AGE) 0)) resp;
               resp = with_header ''Cache-Control'' (''max-age='' @ to_string HTTP_CACHE_MAX_AGE) resp
           in if file = None then
                Inr (with_header ''Content-Length'' (to_string (length NOT_FOUND_PAGE))
                       (resp_setContent NOT_FOUND_PAGE (setRespState Not_Found resp)), req, cache)
              else
                and_then (cached_file (env_fs env) complete_url cache) (\<lambda>(s, cache).
                let resp = (case extension_of request_url of
                              None \<Rightarrow> resp
                            | Some type \<Rightarrow> with_header ''Content-Type'' (content_type type) resp);
                    resp = resp_setContent (gzipCompress env s) resp;
                    resp = with_header ''Content-Length'' (to_string (length (rs_content resp))) resp;
                    resp = with_header ''Content-Encoding'' ''gzip'' resp
                in Inr (setRespState OK resp, req, cache)))"

section \<open>PHP\<close>

text \<open>What the sockets do in one exchange with the PHP process: the results of the two writes and the
  stream of its answer.\<close>

record 's php_env =
  php_write1 :: int
  php_write2 :: int
  php_read :: "nat \<Rightarrow> 's \<Rightarrow> char list option \<times> 's"
  php_stream :: 's
  php_header :: FCGI_Header
  php_junk :: "nat \<Rightarrow> char"

definition php_params :: "HttpRequest \<Rightarrow> string \<Rightarrow> (string \<times> string) list" where
  "php_params req body =
     [(''SCRIPT_FILENAME'', WEB_ROOT @ rq_url req),
      (''SERVER_PROTOCOL'', if rq_version req = HTTP11 then ''HTTP/1.1'' else ''HTTP/1.0''),
      (''REQUEST_METHOD'', if req_func req = GET then ''GET'' else ''POST'')] @
     (if req_func req = GET then [(''QUERY_STRING'', query_string req)]
      else [(''CONTENT_LENGTH'', to_string (length body)),
            (''CONTENT_TYPE'', ''application/x-www-form-urlencoded'')])"

fun send_params :: "(nat \<Rightarrow> char) \<Rightarrow> (string \<times> string) list \<Rightarrow> FcgiConnection \<Rightarrow> FcgiConnection result" where
  "send_params junk [] f = Inr f"
| "send_params junk ((k, v) # ps) f = and_then (sendParams junk k v f) (send_params junk ps)"

text \<open>The bytes sent to the PHP process: everything up to the reading of the answer.\<close>

definition php_send :: "'s php_env \<Rightarrow> HttpRequest \<Rightarrow> FcgiConnection result" where
  "php_send env req =
     (let junk = php_junk env in
      and_then (URLDecode (rq_content req)) (\<lambda>body.
      and_then (sendBeginRequest junk (FcgiConnection_new 1)) (\<lambda>f.
      and_then (send_params junk (php_params req body) f) (\<lambda>f.
      and_then (sendEndRequest junk (php_write1 env) f) (\<lambda>f.
      if req_func req = POST
      then sendContentHeader junk (php_write2 env) (rq_content req) (length (rq_content req)) f
      else Inr f)))))"

definition createPhpResponse :: "'s php_env \<Rightarrow> HttpRequest \<Rightarrow> Buffer option result option" where
  "createPhpResponse env req =
     (case php_send env req of
        Inl e \<Rightarrow> Some (Inl e)
      | Inr _ \<Rightarrow>
          map_option (\<lambda>r. and_then r (\<lambda>(_, buf). Inr (if dataLen buf \<noteq> 0 then Some buf else None)))
            (readContent (php_junk env) (php_read env) (php_header env) (php_stream env) Buffer_new))"

section \<open>onMessage\<close>

text \<open>\<^verbatim>\<open>.*\.php\<close> ignoring case, matched against the whole text; a dot does not match a line end.\<close>

definition is_php :: "string \<Rightarrow> bool" where
  "is_php url \<longleftrightarrow>
     4 \<le> length url \<and> map tolower (drop (length url - 4) url) = ''.php'' \<and>
     (\<forall>c \<in> set (take (length url - 4) url). c \<noteq> CR \<and> c \<noteq> LF)"

text \<open>The texts that are appended to the buffer of the reply, one after the other.\<close>

definition php_reply :: "Buffer option \<Rightarrow> string list" where
  "php_reply tmp =
     (case tmp of
        Some b \<Rightarrow> [''HTTP/1.1 200 OK'' @ CRLF, buf_data b]
      | None \<Rightarrow> [''HTTP/1.1 404 NOT FOUND'' @ CRLF,
                 ''Content-Length: '' @ to_string (length NOT_FOUND_PAGE) @ CRLF @ CRLF, NOT_FOUND_PAGE])"

text \<open>The parts of the reply (none while input is incomplete), the connection and the cache afterwards.\<close>

definition onMessage ::
  "server_env \<Rightarrow> 's php_env \<Rightarrow> int \<Rightarrow> 'a HttpConn_scheme \<Rightarrow> LRUCache \<Rightarrow>
   (string list option \<times> 'a HttpConn_scheme \<times> LRUCache) result option" where
  "onMessage env penv t c cache =
     (case onMessage_parse c of
        None \<Rightarrow> None
      | Some (Inl e) \<Rightarrow> Some (Inl e)
      | Some (Inr (act, c)) \<Rightarrow>
          (case act of
             Send_error_page \<Rightarrow>
               Some (and_then (retErrResponse env c) (\<lambda>(msg, c). Inr (Some [msg], c, cache)))
           | Wait_for_more \<Rightarrow> Some (Inr (None, c, cache))
           | Send_response \<Rightarrow>
               (case getRequest c of
                  Inl e \<Rightarrow> Some (Inl e)
                | Inr req \<Rightarrow>
                    if is_php (rq_url req) then
                      map_option (\<lambda>r. and_then r (\<lambda>tmp. Inr (Some (php_reply tmp), c, cache)))
                        (createPhpResponse penv req)
                    else
                      Some (and_then (createResponse env t req cache) (\<lambda>(resp, req, cache).
                        Inr (Some [fst (toString resp)], setRequest req c, cache))))))"

section \<open>Responses that can be read back\<close>

lemma header_names:
  "ConvertStringToHeader ''Content-Type'' = Content_Type" "ConvertStringToHeader ''Server'' = Server"
  "ConvertStringToHeader ''Date'' = Date" "ConvertStringToHeader ''Content-Length'' = Content_Length"
  "ConvertStringToHeader ''Last-Modified'' = Last_Modified" "ConvertStringToHeader ''Expires'' = Expires"
  "ConvertStringToHeader ''Cache-Control'' = Cache_Control"
  "ConvertStringToHeader ''Content-Encoding'' = Content_Encoding"
  "ConvertStringToHeader ''If-Modified-Since'' = If_Modified_Since"
  "ConvertStringToHeader ''Connection'' = Connection"
  using ConvertStringToHeader_name [of Content_Type] ConvertStringToHeader_name [of Server]
    ConvertStringToHeader_name [of Date] ConvertStringToHeader_name [of Content_Length]
    ConvertStringToHeader_name [of Last_Modified] ConvertStringToHeader_name [of Expires]
    ConvertStringToHeader_name [of Cache_Control] ConvertStringToHeader_name [of Content_Encoding]
    ConvertStringToHeader_name [of If_Modified_Since] ConvertStringToHeader_name [of Connection]
  by simp_all

lemma with_header_fields [simp]:
  "rs_state (with_header key val r) = rs_state r" "rs_version (with_header key val r) = rs_version r"
  "rs_content (with_header key val r) = rs_content r" "rs_cookies (with_header key val r) = rs_cookies r"
  by (auto simp: with_header_def resp_setHeader_def split: option.splits)

text \<open>A response whose serialisation can be read back: a table of known headers, no line end in a
  value.\<close>

definition good_response :: "HttpResponse \<Rightarrow> bool" where
  "good_response r \<longleftrightarrow> response_inv r \<and> (\<forall>v \<in> snd ` set (rs_headers r). CR \<notin> set v)"

lemma values_map_assign: "(a, b) \<in> set (map_assign lt k v m) \<Longrightarrow> b = v \<or> b \<in> snd ` set m"
  by (induction m) (force split: if_splits)+

lemma good_with_header:
  assumes "good_response r" and "CR \<notin> set val"
  shows "good_response (with_header key val r)"
proof -
  have "response_inv (with_header key val r)"
    using assms(1) by (simp add: with_header_def good_response_def response_inv_setHeader)
  moreover have "snd ` set (rs_headers (with_header key val r)) \<subseteq> insert val (snd ` set (rs_headers r))"
    by (cases "map_find CaseInsensitiveLess key HEADERS")
      (auto simp: with_header_def resp_setHeader_def dest: values_map_assign)
  ultimately show ?thesis using assms unfolding good_response_def by blast
qed

lemma good_setters [simp]:
  "good_response (setRespState st r) = good_response r"
  "good_response (resp_setContent body r) = good_response r"
  "good_response (resp_setVersion ver (HttpResponse_new n))"
  by (auto simp: good_response_def response_inv_def setRespState_def resp_setContent_def resp_setVersion_def
      HttpResponse_new_def strm.ordered_Nil)

lemma setter_fields [simp]:
  "rs_headers (setRespState st r) = rs_headers r" "rs_headers (resp_setContent body r) = rs_headers r"
  "rs_state (setRespState st r) = st" "rs_state (resp_setContent body r) = rs_state r"
  "rs_content (setRespState st r) = rs_content r" "rs_content (resp_setContent body r) = body"
  "rs_version (setRespState st r) = rs_version r" "rs_version (resp_setContent body r) = rs_version r"
  "rs_version (resp_setVersion ver r) = ver" "rs_state (resp_setVersion ver r) = rs_state r"
  "rs_state (HttpResponse_new n) = http_resp_state.UNKNOW"
  by (simp_all add: setRespState_def resp_setContent_def resp_setVersion_def HttpResponse_new_def)

lemma header_value_with_header:
  assumes "good_response r" and "ConvertStringToHeader key = h" and "h \<noteq> http_headers.UNKNOW"
    and "h' \<noteq> http_headers.UNKNOW"
  shows "header_value (rs_headers (with_header key val r)) h' =
    (if h = h' then val else header_value (rs_headers r) h')"
  using assms by (simp add: with_header_def resp_setHeader_known header_value_assign good_response_def response_inv_def)

lemma CR_free [simp]:
  "CR \<notin> set (to_string n)" "CR \<notin> set (zero_padded w n)" "CR \<notin> set (content_type type)"
  "CR \<notin> set SERVER_VERSION" "CR \<notin> set ERROR_REQ_PAGE"
  using to_string_digits [of n] digits_padded [of w n]
  by (auto simp: is_digit_def content_type_def SERVER_VERSION_def ERROR_REQ_PAGE_def)

text \<open>\<open>localtime_r\<close> gives a day of the week and a month in range.\<close>

definition clock_ok :: "server_env \<Rightarrow> bool" where
  "clock_ok env \<longleftrightarrow> (\<forall>t. tm_wday (env_localtime env t) < 7 \<and> tm_mon (env_localtime env t) < 12)"

lemma CR_free_date:
  assumes "clock_ok env"
  shows "CR \<notin> set (toGMTString (env_localtime env) ts)" "CR \<notin> set (now_text env)"
proof -
  have "CR \<notin> set (gmt_text (env_localtime env t))" for t
    using assms name_tables(1) [of "tm_wday (env_localtime env t)"] name_tables(2) [of "tm_mon (env_localtime env t)"]
    unfolding clock_ok_def gmt_text_def by (auto simp: is_alpha_def is_upper_def is_lower_def)
  then show "CR \<notin> set (toGMTString (env_localtime env) ts)" "CR \<notin> set (now_text env)"
    by (simp_all add: toGMTString_def now_text_def)
qed

text \<open>What a client reads from the serialised response.\<close>

lemma good_response_read:
  assumes "good_response r" and "rs_version r \<noteq> http_version.UNKNOW" and "rs_state r \<noteq> http_resp_state.UNKNOW"
  shows "read_message (fst (toString r)) =
    Some (version_text (rs_version r) @ to_string (resp_code (rs_state r)) @ '' '' @
          ConvertRespStateToString (rs_state r), rs_headers r, rs_content r)"
  using read_toString assms by (simp add: good_response_def)

section \<open>Serving a file\<close>

context file_cache
begin

text \<open>The two lookups around the insertion always end with the current contents of the file.\<close>

lemma cached_file_with_current:
  assumes "good fs c" and "file_in fs k bytes"
  shows "\<exists>c'. cached_file_with get put size_of array fs k c = Inr (bytes, c') \<and> good fs c' \<and> cached k c'"
proof -
  obtain p0 c0 c1 where c0: "get fs k c = Inr (p0, c0)" "(if p0 = None then put fs k c0 else Inr c0) = Inr c1"
      and c1: "good fs c1" "cached k c1"
  proof (cases "cached k c")
    case True
    then show ?thesis using get_cached [OF assms(1) True assms(2)] that by fastforce
  next
    case False
    then show ?thesis using get_missing [OF False] put_missing [OF assms(1) False assms(2)] that by fastforce
  qed
  obtain a c2 where "get fs k c1 = Inr (Some a, c2)" "good fs c2" "cached k c2" "array c2 a = Some bytes"
      "size_of k c2 = Inr (length bytes)"
    using get_cached [OF c1 assms(2)] by blast
  then show ?thesis using c0 by (simp add: cached_file_with_def)
qed

end

lemmas cached_file_current = lc.cached_file_with_current [folded cached_file_def]

text \<open>The part of the response every request for a page gets.\<close>

definition page_base :: "server_env \<Rightarrow> HttpRequest \<Rightarrow> HttpResponse" where
  "page_base env req =
     with_header ''Date'' (now_text env)
       (with_header ''Server'' SERVER_VERSION (resp_setVersion (rq_version req) (HttpResponse_new (env_len env))))"

definition page_dates :: "server_env \<Rightarrow> int \<Rightarrow> string \<Rightarrow> HttpResponse \<Rightarrow> HttpResponse" where
  "page_dates env req_time tsGmt r =
     with_header ''Cache-Control'' (''max-age='' @ to_string HTTP_CACHE_MAX_AGE)
       (with_header ''Expires''
          (toGMTString (env_localtime env) (Timestamp_at (req_time + int HTTP_CACHE_MAX_AGE) 0))
          (with_header ''Last-Modified'' tsGmt r))"

lemma page_base_good:
  assumes "clock_ok env"
  shows "good_response (page_base env req)" "rs_state (page_base env req) = http_resp_state.UNKNOW"
    "rs_version (page_base env req) = rq_version req"
    "header_value (rs_headers (page_base env req)) Date = now_text env"
  using CR_free_date [OF assms]
  by (simp_all add: page_base_def good_with_header header_value_with_header header_names)

lemma page_dates_good:
  assumes "clock_ok env" and "good_response r"
  shows "good_response (page_dates env t (toGMTString (env_localtime env) ts) r)"
    "rs_state (page_dates env t g r) = rs_state r" "rs_version (page_dates env t g r) = rs_version r"
    "header_value (rs_headers (page_dates env t (toGMTString (env_localtime env) ts) r)) Last_Modified =
       toGMTString (env_localtime env) ts"
  using CR_free_date(1) [OF assms(1)] assms(2)
  by (simp_all add: page_dates_def good_with_header header_value_with_header header_names)

text \<open>The response to a request for a file that is there and not answered with 304.\<close>

definition file_page :: "string \<Rightarrow> string \<Rightarrow> HttpResponse \<Rightarrow> HttpResponse" where
  "file_page request_url body r =
     (let r = (case extension_of request_url of
                 None \<Rightarrow> r | Some type \<Rightarrow> with_header ''Content-Type'' (content_type type) r);
          r = resp_setContent body r;
          r = with_header ''Content-Length'' (to_string (length (rs_content r))) r;
          r = with_header ''Content-Encoding'' ''gzip'' r
      in setRespState OK r)"

lemma file_page_good:
  assumes "good_response r"
  shows "good_response (file_page url body r)" "rs_state (file_page url body r) = OK"
    "rs_version (file_page url body r) = rs_version r" "rs_content (file_page url body r) = body"
    "header_value (rs_headers (file_page url body r)) Content_Length = to_string (length body)"
    "header_value (rs_headers (file_page url body r)) Content_Encoding = ''gzip''"
    "header_value (rs_headers (file_page url body r)) Last_Modified = header_value (rs_headers r) Last_Modified"
    "extension_of url = Some type \<Longrightarrow>
       header_value (rs_headers (file_page url body r)) Content_Type = content_type type"
  using assms
  by (simp_all add: file_page_def Let_def good_with_header header_value_with_header header_names split: option.split)

lemma createResponse_file:
  assumes "lru_good (env_fs env) cache" and "file_in (env_fs env) (WEB_ROOT @ rq_url req) bytes"
    and "fs_stat (env_fs env) (WEB_ROOT @ rq_url req) = Some (s, ns, sz)"
    and "fst (getHeader ''If-Modified-Since'' req) = [] \<or>
      \<not> compareGMTStr (env_date1 env) (env_date2 env) (fst (getHeader ''If-Modified-Since'' req))
          (toGMTString (env_localtime env) (Timestamp_at s 0))"
  shows "\<exists>cache'. lru_good (env_fs env) cache' \<and> createResponse env t req cache =
    Inr (file_page (rq_url req) (gzipCompress env bytes)
           (page_dates env t (toGMTString (env_localtime env) (Timestamp_at s 0)) (page_base env req)),
         snd (getHeader ''If-Modified-Since'' req), cache')"
proof -
  obtain c' where "cached_file (env_fs env) (WEB_ROOT @ rq_url req) cache = Inr (bytes, c')"
      "lru_good (env_fs env) c'"
    using cached_file_current [OF assms(1,2)] by blast
  then show ?thesis using assms(3,4)
    by (cases "getHeader ''If-Modified-Since'' req")
      (auto simp: createResponse_def Let_def page_base_def page_dates_def file_page_def)
qed

lemma createResponse_missing:
  assumes "fs_stat (env_fs env) (WEB_ROOT @ rq_url req) = None"
  shows "createResponse env t req cache =
    Inr (with_header ''Content-Length'' (to_string (length NOT_FOUND_PAGE))
          (resp_setContent NOT_FOUND_PAGE (setRespState Not_Found
            (page_dates env t (toGMTString (env_localtime env) (Timestamp_at (env_mtime env) 0)) (page_base env req)))),
         snd (getHeader ''If-Modified-Since'' req), cache)"
  using assms by (cases "getHeader ''If-Modified-Since'' req")
    (simp add: createResponse_def Let_def page_base_def page_dates_def)

lemma createResponse_unmodified:
  assumes "fs_stat (env_fs env) (WEB_ROOT @ rq_url req) = Some (s, ns, sz)"
    and "fst (getHeader ''If-Modified-Since'' req) \<noteq> []"
    and "compareGMTStr (env_date1 env) (env_date2 env) (fst (getHeader ''If-Modified-Since'' req))
          (toGMTString (env_localtime env) (Timestamp_at s 0))"
  shows "createResponse env t req cache =
    Inr (setRespState Not_Modified (page_base env req), snd (getHeader ''If-Modified-Since'' req), cache)"
  using assms by (cases "getHeader ''If-Modified-Since'' req") (simp add: createResponse_def Let_def page_base_def)

section \<open>The request sent to the PHP process\<close>

text \<open>A peer that reads records until the bytes end.\<close>

fun read_records :: "nat \<Rightarrow> char list \<Rightarrow> (nat \<times> nat \<times> char list) list option" where
  "read_records 0 s = (if s = [] then Some [] else None)"
| "read_records (Suc n) s =
     (if s = [] then Some []
      else Option.bind (read_record s) (\<lambda>(r, s'). map_option (Cons r) (read_records n s')))"

definition records_bytes :: "(int \<times> char list) list \<Rightarrow> char list" where
  "records_bytes rs = concat (map (\<lambda>(ty, content). record_bytes ty 1 content) rs)"

definition php_head :: "(string \<times> string) list \<Rightarrow> (int \<times> char list) list" where
  "php_head ps = [(FCGI_BEGIN_REQUEST, begin_body)] @ map (\<lambda>(k, v). (FCGI_PARAMS, pair_bytes k v)) ps @ [(FCGI_PARAMS, [])]"

definition php_tail :: "HttpRequest \<Rightarrow> (int \<times> char list) list" where
  "php_tail req = (if req_func req = POST then [(FCGI_STDIN, rq_content req), (FCGI_STDIN, [])] else [])"

lemma length_record_bytes: "length (record_bytes ty rid content) = 8 + length content"
  by (simp add: record_bytes_def header_bytes_def)

lemma records_bytes_simps [simp]:
  "records_bytes [] = []" "records_bytes ((ty, content) # rs) = record_bytes ty 1 content @ records_bytes rs"
  "records_bytes (rs @ rs') = records_bytes rs @ records_bytes rs'"
  by (simp_all add: records_bytes_def)

lemma length_records_bytes: "length rs \<le> length (records_bytes rs)"
  by (induction rs) (auto simp: length_record_bytes)

lemma records_bytes_member: "(ty, content) \<in> set rs \<Longrightarrow> 8 + length content \<le> length (records_bytes rs)"
  by (induction rs) (auto simp: length_record_bytes)

lemma read_records_made:
  assumes "\<forall>(ty, content) \<in> set rs. 0 \<le> ty \<and> ty < 256 \<and> length content < 65536" and "length rs \<le> n"
  shows "read_records n (records_bytes rs) = Some (map (\<lambda>(ty, content). (nat ty, 1, content)) rs)"
  using assms
proof (induction rs arbitrary: n)
  case Nil
  then show ?case by (cases n) auto
next
  case (Cons r rs)
  obtain ty content where r: "r = (ty, content)" by (cases r)
  obtain m where n: "n = Suc m" using Cons.prems(2) by (cases n) auto
  have "record_bytes ty 1 content \<noteq> []" by (simp add: record_bytes_def header_bytes_def)
  moreover have "read_record (record_bytes ty 1 content @ records_bytes rs) = Some ((nat ty, 1, content), records_bytes rs)"
    using Cons.prems(1) r read_record_made [of ty 1 content "records_bytes rs"]
    by (simp add: record_bytes_def)
  moreover have "read_records m (records_bytes rs) = Some (map (\<lambda>(ty, content). (nat ty, 1, content)) rs)"
    using Cons.prems n by (intro Cons.IH) auto
  ultimately show ?case by (simp add: r n)
qed

lemma length_pair_bytes: "length key + length val \<le> length (pair_bytes key val)"
  by (simp add: pair_bytes_def)

lemma send_params_ok:
  assumes "out_ok f xs n"
    and "int (length (records_bytes (map (\<lambda>(k, v). (FCGI_PARAMS, pair_bytes k v)) ps))) \<le> n" and "n \<le> 4096"
    and "fc_requestId f = 1"
  shows "\<exists>f'. send_params junk ps f = Inr f' \<and>
    out_ok f' (xs @ records_bytes (map (\<lambda>(k, v). (FCGI_PARAMS, pair_bytes k v)) ps))
      (n - int (length (records_bytes (map (\<lambda>(k, v). (FCGI_PARAMS, pair_bytes k v)) ps)))) \<and>
    fc_requestId f' = 1 \<and> fc_sent f' = fc_sent f"
  using assms
proof (induction ps arbitrary: f xs n)
  case Nil
  then show ?case by simp
next
  case (Cons p ps)
  obtain k v where p: "p = (k, v)" by (cases p)
  let ?r = "record_bytes FCGI_PARAMS 1 (pair_bytes k v)" and ?t = "map (\<lambda>(k, v). (FCGI_PARAMS, pair_bytes k v)) ps"
  have n: "8 + int (length (pair_bytes k v)) + int (length (records_bytes ?t)) \<le> n"
    using Cons.prems(2) by (simp add: p length_record_bytes)
  then have "length (pair_bytes k v) \<le> BUFSIZE" "8 + int (length (pair_bytes k v)) \<le> n"
    using Cons.prems(3) by (auto simp: BUFSIZE_def)
  from sendParams_ok [OF Cons.prems(1) this, of junk] obtain f1 where
    f1: "sendParams junk k v f = Inr f1" "out_ok f1 (xs @ ?r) (n - 8 - int (length (pair_bytes k v)))"
      "fc_requestId f1 = 1" "fc_sent f1 = fc_sent f" using Cons.prems(4) by auto
  obtain f2 where "send_params junk ps f1 = Inr f2"
      "out_ok f2 ((xs @ ?r) @ records_bytes ?t) (n - 8 - int (length (pair_bytes k v)) - int (length (records_bytes ?t)))"
      "fc_requestId f2 = 1" "fc_sent f2 = fc_sent f1"
    using Cons.IH [OF f1(2) _ _ f1(3)] n Cons.prems(3) by auto
  then show ?case using f1 by (simp add: p length_record_bytes algebra_simps)
qed

lemma php_send_ok:
  assumes "URLDecode (rq_content req) = Inr body"
    and "length (records_bytes (php_head (php_params req body) @ php_tail req)) \<le> 4096"
    and "php_write1 env = int (length (records_bytes (php_head (php_params req body))))"
    and "php_write2 env = int (length (records_bytes (php_tail req)))"
  shows "\<exists>f. php_send env req = Inr f \<and> fc_sent f = records_bytes (php_head (php_params req body) @ php_tail req)"
proof -
  let ?ps = "map (\<lambda>(k, v). (FCGI_PARAMS, pair_bytes k v)) (php_params req body)" and ?junk = "php_junk env"
  let ?b = "record_bytes FCGI_BEGIN_REQUEST 1 begin_body" and ?t = "records_bytes (php_tail req)"
  have id: "fc_requestId (FcgiConnection_new 1) = 1" "fc_sent (FcgiConnection_new 1) = []"
    by (simp_all add: FcgiConnection_new_def)
  have len: "16 + int (length (records_bytes ?ps)) + 8 + int (length ?t) \<le> 4096"
    using assms(2) by (simp add: php_head_def length_record_bytes begin_body_def)
  obtain f1 where f1: "sendBeginRequest ?junk (FcgiConnection_new 1) = Inr f1" "out_ok f1 ?b (4096 - 16)"
      "fc_requestId f1 = 1" "fc_sent f1 = []"
    using sendBeginRequest_ok [OF out_ok_new [of 1], of ?junk] id by auto
  obtain f2 where f2: "send_params ?junk (php_params req body) f1 = Inr f2"
      "out_ok f2 (?b @ records_bytes ?ps) (4096 - 16 - int (length (records_bytes ?ps)))"
      "fc_requestId f2 = 1" "fc_sent f2 = []"
    using send_params_ok [OF f1(2), of "php_params req body" ?junk] len f1(3,4) by auto
  have w1: "php_write1 env = int (length (?b @ records_bytes ?ps)) + 8"
    using assms(3) by (simp add: php_head_def length_record_bytes)
  obtain f3 where f3: "sendEndRequest ?junk (php_write1 env) f2 = Inr f3"
      "out_ok f3 [] (4096 - 16 - int (length (records_bytes ?ps)) - 8)" "fc_requestId f3 = 1"
      "fc_sent f3 = records_bytes (php_head (php_params req body))"
    using sendEndRequest_ok [OF f2(2), of ?junk] len f2(3,4) unfolding w1 by (auto simp: php_head_def)
  show ?thesis
  proof (cases "req_func req = POST")
    case False
    then show ?thesis using assms(1) f1 f2 f3 by (auto simp: php_send_def Let_def php_tail_def)
  next
    case True
    have w2: "php_write2 env = int (length ([] :: char list)) + 16 + int (length (rq_content req))"
      using assms(4) True by (simp add: php_tail_def length_record_bytes)
    obtain f4 where "sendContentHeader ?junk (php_write2 env) (rq_content req) (length (rq_content req)) f3 = Inr f4"
        "fc_sent f4 = fc_sent f3 @ record_bytes FCGI_STDIN 1 (rq_content req) @ record_bytes FCGI_STDIN 1 []"
      using sendContentHeader_ok [OF f3(2), of "rq_content req" ?junk] len True f3(3) unfolding w2
      by (auto simp: php_tail_def length_record_bytes)
    then show ?thesis using assms(1) f1 f2 f3 True by (auto simp: php_send_def Let_def php_tail_def)
  qed
qed

section \<open>Properties\<close>

text \<open>
  C10. A request of known version for a file that exists, with no \<open>If-Modified-Since\<close> date or one that
  does not cover the date of the file, gets a message with status 200, the compressed contents the
  file has now, the length of the body, the type of its extension and the file's modification
  date, provided the cache agreed with the file system; it still does afterwards.
\<close>

theorem createResponse_serves_file:
  assumes "clock_ok env" and "lru_good (env_fs env) cache" and "rq_version req \<noteq> http_version.UNKNOW"
    and "file_in (env_fs env) (WEB_ROOT @ rq_url req) bytes"
    and "fs_stat (env_fs env) (WEB_ROOT @ rq_url req) = Some (s, ns, sz)"
    and "fst (getHeader ''If-Modified-Since'' req) = [] \<or>
      \<not> compareGMTStr (env_date1 env) (env_date2 env) (fst (getHeader ''If-Modified-Since'' req))
          (toGMTString (env_localtime env) (Timestamp_at s 0))"
  shows "\<exists>resp req' cache' hs. createResponse env t req cache = Inr (resp, req', cache') \<and>
    lru_good (env_fs env) cache' \<and>
    read_message (fst (toString resp)) =
      Some (version_text (rq_version req) @ ''200 OK'', hs, gzipCompress env bytes) \<and>
    header_value hs Content_Length = to_string (length (gzipCompress env bytes)) \<and>
    header_value hs Content_Encoding = ''gzip'' \<and>
    header_value hs Last_Modified = toGMTString (env_localtime env) (Timestamp_at s 0) \<and>
    (\<forall>type. extension_of (rq_url req) = Some type \<longrightarrow> header_value hs Content_Type = content_type type)"
proof -
  let ?p = "page_dates env t (toGMTString (env_localtime env) (Timestamp_at s 0)) (page_base env req)"
  let ?r = "file_page (rq_url req) (gzipCompress env bytes) ?p"
  obtain cache' where c: "lru_good (env_fs env) cache'"
      "createResponse env t req cache = Inr (?r, snd (getHeader ''If-Modified-Since'' req), cache')"
    using createResponse_file [OF assms(2,4-6)] by blast
  note b = page_base_good [OF assms(1), of req]
  note d = page_dates_good [OF assms(1) b(1)]
  note f = file_page_good [OF d(1), where url = "rq_url req" and body = "gzipCompress env bytes"]
  have "read_message (fst (toString ?r)) =
      Some (version_text (rq_version req) @ ''200 OK'', rs_headers ?r, gzipCompress env bytes)"
    using good_response_read [OF f(1)] assms(3)
    by (simp add: f d b resp_code_def to_string.simps digit_char_table)
  then show ?thesis using c f(5-8) d(4)
    by (intro exI [of _ ?r] exI [of _ "snd (getHeader ''If-Modified-Since'' req)"] exI [of _ cache']
        exI [of _ "rs_headers ?r"]) simp
qed

text \<open>
  A request for a file that does not exist gets status 404 with the page for it and its length,
  whatever the request's own dates are; a request whose date is not older than the file gets
  status 304 without a body.  Neither touches the cache.
\<close>

theorem createResponse_other_pages:
  assumes "clock_ok env" and "rq_version req \<noteq> http_version.UNKNOW"
  shows "(fs_stat (env_fs env) (WEB_ROOT @ rq_url req) = None \<longrightarrow>
      (\<exists>resp req' hs. createResponse env t req cache = Inr (resp, req', cache) \<and>
         read_message (fst (toString resp)) =
           Some (version_text (rq_version req) @ ''404 Not Found'', hs, NOT_FOUND_PAGE) \<and>
         header_value hs Content_Length = to_string (length NOT_FOUND_PAGE))) \<and>
    (fs_stat (env_fs env) (WEB_ROOT @ rq_url req) = Some (s, ns, sz) \<and>
     fst (getHeader ''If-Modified-Since'' req) \<noteq> [] \<and>
     compareGMTStr (env_date1 env) (env_date2 env) (fst (getHeader ''If-Modified-Since'' req))
       (toGMTString (env_localtime env) (Timestamp_at s 0)) \<longrightarrow>
      (\<exists>resp req' hs. createResponse env t req cache = Inr (resp, req', cache) \<and>
         read_message (fst (toString resp)) =
           Some (version_text (rq_version req) @ ''304 Not Modified'', hs, [])))"
proof (intro conjI impI)
  note b = page_base_good [OF assms(1), of req]
  {
    assume "fs_stat (env_fs env) (WEB_ROOT @ rq_url req) = None"
    note c = createResponse_missing [OF this, of t cache]
    let ?p = "page_dates env t (toGMTString (env_localtime env) (Timestamp_at (env_mtime env) 0)) (page_base env req)"
    let ?r = "with_header ''Content-Length'' (to_string (length NOT_FOUND_PAGE))
               (resp_setContent NOT_FOUND_PAGE (setRespState Not_Found ?p))"
    note d = page_dates_good [OF assms(1) b(1)]
    have g: "good_response ?r" using d(1) by (simp add: good_with_header)
    have "read_message (fst (toString ?r)) =
        Some (version_text (rq_version req) @ ''404 Not Found'', rs_headers ?r, NOT_FOUND_PAGE)"
      using good_response_read [OF g] assms(2)
      by (simp add: d b resp_code_def to_string.simps digit_char_table)
    moreover have "header_value (rs_headers ?r) Content_Length = to_string (length NOT_FOUND_PAGE)"
      using d(1) by (simp add: header_value_with_header header_names)
    ultimately show "\<exists>resp req' hs. createResponse env t req cache = Inr (resp, req', cache) \<and>
         read_message (fst (toString resp)) =
           Some (version_text (rq_version req) @ ''404 Not Found'', hs, NOT_FOUND_PAGE) \<and>
         header_value hs Content_Length = to_string (length NOT_FOUND_PAGE)"
      using c by blast
  }
  assume "fs_stat (env_fs env) (WEB_ROOT @ rq_url req) = Some (s, ns, sz) \<and>
     fst (getHeader ''If-Modified-Since'' req) \<noteq> [] \<and>
     compareGMTStr (env_date1 env) (env_date2 env) (fst (getHeader ''If-Modified-Since'' req))
       (toGMTString (env_localtime env) (Timestamp_at s 0))"
  then have c: "createResponse env t req cache =
      Inr (setRespState Not_Modified (page_base env req), snd (getHeader ''If-Modified-Since'' req), cache)"
    by (intro createResponse_unmodified) auto
  have "rs_content (page_base env req) = []"
    by (simp add: page_base_def resp_setVersion_def HttpResponse_new_def)
  then have "read_message (fst (toString (setRespState Not_Modified (page_base env req)))) =
      Some (version_text (rq_version req) @ ''304 Not Modified'', rs_headers (page_base env req), [])"
    using good_response_read [of "setRespState Not_Modified (page_base env req)"] assms(2)
    by (simp add: b resp_code_def to_string.simps digit_char_table)
  with c show "\<exists>resp req' hs. createResponse env t req cache = Inr (resp, req', cache) \<and>
         read_message (fst (toString resp)) =
           Some (version_text (rq_version req) @ ''304 Not Modified'', hs, [])" by blast
qed

text \<open>An environment with one file, used to check the statements on.\<close>

definition sample_env :: server_env where
  "sample_env =
     \<lparr>env_fs = \<lparr>fs_stat = (\<lambda>k. if k = WEB_ROOT @ ''/i.css'' then Some (5, 0, 3) else None),
                fs_read = (\<lambda>k n. if k = WEB_ROOT @ ''/i.css'' then Some ''hey'' else None)\<rparr>,
      env_now = 0, env_localtime = (\<lambda>t. sample_tm 5 (if t = 5 then 3 else 2)), gzipCompress = rev,
      env_mtime = 0, env_date1 = zero_date, env_date2 = zero_date, env_len = 0\<rparr>"

definition sample_req :: "string \<Rightarrow> HttpRequest" where
  "sample_req url = HttpRequest_new\<lparr>req_func := GET, rq_version := HTTP11, rq_url := url\<rparr>"

lemma sample_env_simps [simp]:
  "clock_ok sample_env" "gzipCompress sample_env = rev" "rq_url (sample_req u) = u" "rq_version (sample_req u) = HTTP11"
  "file_in (env_fs sample_env) (WEB_ROOT @ ''/i.css'') ''hey''"
  "fs_stat (env_fs sample_env) (WEB_ROOT @ ''/i.css'') = Some (5, 0, 3)"
  "fs_stat (env_fs sample_env) (WEB_ROOT @ ''/j'') = None"
  by (simp_all add: clock_ok_def sample_env_def sample_tm_def sample_req_def file_in_def)

lemma sample_req_date: "fst (getHeader ''If-Modified-Since'' (sample_req u)) = []"
  by (simp add: sample_req_def HttpRequest_new_def getHeader_eq header_names header_value_def map_lookup_def)

theorem createResponse_serves_file_witness:
  "\<exists>resp req' cache' hs. createResponse sample_env 0 (sample_req ''/i.css'') (LRUCache_new 4) = Inr (resp, req', cache') \<and>
     read_message (fst (toString resp)) = Some (''HTTP/1.1 200 OK'', hs, ''yeh'') \<and>
     header_value hs Content_Length = ''3'' \<and> header_value hs Content_Type = ''text/css''"
proof -
  have "lru_good (env_fs sample_env) (LRUCache_new 4)" by (simp add: lru_good_new)
  moreover have "extension_of ''/i.css'' = Some ''css''" "content_type ''css'' = ''text/css''"
    by (simp_all add: is_alpha_def is_upper_def is_lower_def content_type_def CaseInsensitiveEqual_def
        ci_key_simps of_char_tolower nul_def)
  moreover have "to_string 3 = ''3''" by (simp add: to_string.simps digit_char_table)
  note this [unfolded numeral_3_eq_3]
  ultimately show ?thesis
    using createResponse_serves_file [of sample_env "LRUCache_new 4" "sample_req ''/i.css''" "''hey''" 5 0 3 0]
    unfolding sample_env_simps by (simp add: sample_req_date version_text_def) blast
qed

definition dated_req :: HttpRequest where
  "dated_req = snd (setHeader ''If-Modified-Since'' (gmt_text (sample_tm 5 4)) (sample_req ''/i.css''))"

lemma dated_req_simps:
  "rq_url dated_req = ''/i.css''" "rq_version dated_req = HTTP11"
  "fst (getHeader ''If-Modified-Since'' dated_req) = gmt_text (sample_tm 5 4)"
proof -
  have "header_table (rq_headers (sample_req u))" for u by (simp add: sample_req_def HttpRequest_new_def)
  then show "fst (getHeader ''If-Modified-Since'' dated_req) = gmt_text (sample_tm 5 4)"
    using header_value_assign [of _ If_Modified_Since If_Modified_Since]
    by (simp add: dated_req_def setHeader_known header_names getHeader_eq)
  show "rq_url dated_req = ''/i.css''" "rq_version dated_req = HTTP11"
    by (simp_all add: dated_req_def setHeader_known header_names)
qed

theorem createResponse_other_pages_witness:
  "(\<exists>resp req' hs. createResponse sample_env 0 (sample_req ''/j'') (LRUCache_new 4) = Inr (resp, req', LRUCache_new 4) \<and>
     read_message (fst (toString resp)) = Some (''HTTP/1.1 404 Not Found'', hs, NOT_FOUND_PAGE)) \<and>
   (\<exists>resp req' hs. createResponse sample_env 0 dated_req (LRUCache_new 4) = Inr (resp, req', LRUCache_new 4) \<and>
     read_message (fst (toString resp)) = Some (''HTTP/1.1 304 Not Modified'', hs, []))"
proof -
  have "compareGMTStr (env_date1 sample_env) (env_date2 sample_env) (gmt_text (sample_tm 5 4))
      (toGMTString (env_localtime sample_env) (Timestamp_at 5 0))"
    by (simp add: compareGMTStr_def read_date_print tm_ok_def sample_tm_def sample_env_def toGMTString_def
        Timestamp_at_def Let_def)
  moreover have "gmt_text (sample_tm 5 4) \<noteq> []" by (simp add: gmt_text_def)
  ultimately show ?thesis
    using createResponse_other_pages [of sample_env "sample_req ''/j''" 0 "LRUCache_new 4"]
      createResponse_other_pages [of sample_env dated_req 0 "LRUCache_new 4" 5 0 3]
    by (auto simp: dated_req_simps version_text_def)
qed

lemma header_order:
  "CaseInsensitiveLess ''Content-Type'' ''Server''" "CaseInsensitiveLess ''Content-Type'' ''Date''"
  "\<not> CaseInsensitiveLess ''Server'' ''Date''" "CaseInsensitiveLess ''Date'' ''Server''"
  "\<not> CaseInsensitiveLess ''Content-Type'' ''Content-Length''" "CaseInsensitiveLess ''Content-Length'' ''Content-Type''"
  by (simp_all add: CaseInsensitiveLess_def ci_key_simps of_char_tolower nul_def)

text \<open>
  The answer to a malformed request is not a response: its status is never set, so the version
  is followed at once by the first header, where a reader expects the status code.  The
  connection is marked to be closed.
\<close>

theorem error_page_without_status:
  assumes "hc_request c = Some req" and "request_inv req" and "clock_ok env"
  shows "\<exists>msg c' req'. retErrResponse env c = Inr (msg, c') \<and>
    read_message msg =
      Some (version_text (rq_version req) @ ''Content-Length: '' @ to_string (length ERROR_REQ_PAGE),
            [(''Content-Type'', ''text/html;charset=utf-8''), (''Date'', now_text env), (''Server'', SERVER_VERSION)],
            ERROR_REQ_PAGE) \<and>
    hc_request c' = Some req' \<and> header_value (rq_headers req') Connection = ''close''"
proof -
  let ?r = "error_response env (rq_version req)" and ?req = "snd (setHeader ''Connection'' ''close'' req)"
  let ?hs = "[(''Content-Type'', ''text/html;charset=utf-8''), (''Date'', now_text env), (''Server'', SERVER_VERSION)]"
  let ?n = "to_string (length ERROR_REQ_PAGE)"
  let ?l = "version_text (rq_version req) @ ''Content-Length: '' @ ?n"
  have hs: "rs_headers ?r = (''Content-Length'', ?n) # ?hs"
    by (simp add: error_response_def Let_def with_header_def resp_setHeader_known header_names
        resp_setVersion_def resp_setContent_def HttpResponse_new_def header_order)
  have rest: "rs_content ?r = ERROR_REQ_PAGE" "rs_state ?r = http_resp_state.UNKNOW" "rs_version ?r = rq_version req"
    by (simp_all add: error_response_def Let_def)
  have msg: "fst (toString ?r) = ?l @ CRLF @ print_fields ?hs @ CRLF @ ERROR_REQ_PAGE"
    using hs rest by (simp add: toString_eq print_fields_def)
  have "CR \<notin> set ?l" by simp
  then have "split_crlf (fst (toString ?r)) = Some (?l, print_fields ?hs @ CRLF @ ERROR_REQ_PAGE)"
    unfolding msg by (rule split_crlf_line)
  moreover have "printable_fields ?hs" using CR_free_date(2) [OF assms(3)]
    by (simp add: printable_fields_def)
  ultimately have "read_message (fst (toString ?r)) = Some (?l, ?hs, ERROR_REQ_PAGE)"
    using read_fields_print [of ?hs] by (simp add: read_message_def)
  moreover have "header_value (rq_headers ?req) Connection = ''close''"
    using assms(2) header_value_assign [of "rq_headers req" Connection Connection]
    by (simp add: setHeader_known header_names request_inv_def)
  ultimately show ?thesis using assms(1)
    by (simp add: retErrResponse_def getRequest_def setRequest_def)
qed

definition sample_conn_rec :: HttpConn where
  "sample_conn_rec =
     \<lparr>input_buffer = Buffer_new, hc_request = Some (sample_req []), hc_reqstate = CHECK_REQUESTLINE\<rparr>"

theorem error_page_without_status_witness:
  "\<exists>msg c' hs. retErrResponse sample_env sample_conn_rec = Inr (msg, c') \<and>
     read_message msg = Some (''HTTP/1.1 Content-Length: 77'', hs, ERROR_REQ_PAGE)"
proof -
  have "request_inv (sample_req [])"
    using request_inv_new by (simp add: sample_req_def request_inv_def)
  moreover have "to_string (length ERROR_REQ_PAGE) = ''77''"
    by (simp add: ERROR_REQ_PAGE_def to_string.simps digit_char_table)
  ultimately show ?thesis
    using error_page_without_status [of sample_conn_rec "sample_req []" sample_env]
    by (auto simp: sample_conn_rec_def version_text_def)
qed

text \<open>
  C20. When all records together have at most 4096 bytes, the size of the initial output buffer, and
  both writes to the socket are complete, the PHP process reads
  exactly: the begin record, one record per parameter from which it decodes the name and the
  value, the empty record that ends them and, for a posted form, the body and its end.
\<close>

theorem php_send_readable:
  assumes "URLDecode (rq_content req) = Inr body"
    and "length (records_bytes (php_head (php_params req body) @ php_tail req)) \<le> 4096"
    and "php_write1 env = int (length (records_bytes (php_head (php_params req body))))"
    and "php_write2 env = int (length (records_bytes (php_tail req)))"
  shows "\<exists>f. php_send env req = Inr f \<and>
    read_records (length (fc_sent f)) (fc_sent f) =
      Some ([(1, 1, begin_body)] @ map (\<lambda>(k, v). (4, 1, pair_bytes k v)) (php_params req body) @ [(4, 1, [])] @
            (if req_func req = POST then [(5, 1, rq_content req), (5, 1, [])] else [])) \<and>
    (\<forall>(k, v) \<in> set (php_params req body). read_name_value (pair_bytes k v) = Some ((k, v), []))"
proof -
  let ?rs = "php_head (php_params req body) @ php_tail req"
  obtain f where f: "php_send env req = Inr f" "fc_sent f = records_bytes ?rs"
    using php_send_ok [OF assms] by blast
  have small: "8 + length content \<le> 4096" if "(ty, content) \<in> set ?rs" for ty content
    using records_bytes_member [OF that] assms(2) by linarith
  have "length ?rs \<le> length (records_bytes ?rs)" by (rule length_records_bytes)
  moreover have "\<forall>(ty, content) \<in> set ?rs. 0 \<le> ty \<and> ty < 256 \<and> length content < 65536"
  proof -
    have "ty \<in> {1, 4, 5}" if "(ty, content) \<in> set ?rs" for ty content
      using that by (auto simp: php_head_def php_tail_def fcgi_consts split: if_splits)
    then show ?thesis using small by fastforce
  qed
  ultimately have "read_records (length (fc_sent f)) (fc_sent f) = Some (map (\<lambda>(ty, content). (nat ty, 1, content)) ?rs)"
    using read_records_made [of ?rs "length (fc_sent f)"] f(2) by simp
  moreover have "read_name_value (pair_bytes k v) = Some ((k, v), [])" if "(k, v) \<in> set (php_params req body)" for k v
  proof -
    have "8 + length (pair_bytes k v) \<le> 4096" using that by (intro small) (force simp: php_head_def)
    then show ?thesis using length_pair_bytes [of k v]
      by (simp add: pair_bytes_def read_name_value_made)
  qed
  ultimately show ?thesis using f(1)
    by (simp add: php_head_def php_tail_def fcgi_consts case_prod_beta comp_def)
qed

definition php_sample :: "char list php_env" where
  "php_sample =
     \<lparr>php_write1 = int (length (records_bytes (php_head (php_params (sample_req ''/p.php'') [])))), php_write2 = 0,
      php_read = full_read, php_stream = [], php_header = make_header 0 0 0, php_junk = (\<lambda>_. nul)\<rparr>"

theorem php_send_readable_witness:
  "\<exists>f rest. php_send php_sample (sample_req ''/p.php'') = Inr f \<and>
     read_records (length (fc_sent f)) (fc_sent f) = Some ((1, 1, begin_body) # rest) \<and>
     (4, 1, pair_bytes ''REQUEST_METHOD'' ''GET'') \<in> set rest \<and>
     read_name_value (pair_bytes ''REQUEST_METHOD'' ''GET'') = Some ((''REQUEST_METHOD'', ''GET''), [])"
proof -
  let ?r = "sample_req ''/p.php''"
  have r: "req_func ?r = GET" "rq_content ?r = []" "query_string ?r = []"
    by (simp_all add: sample_req_def HttpRequest_new_def)
  have ps: "php_params ?r [] =
      [(''SCRIPT_FILENAME'', WEB_ROOT @ ''/p.php''), (''SERVER_PROTOCOL'', ''HTTP/1.1''),
       (''REQUEST_METHOD'', ''GET''), (''QUERY_STRING'', [])]"
    by (simp add: php_params_def r)
  have "length (records_bytes (php_head (php_params ?r []) @ php_tail ?r)) \<le> 4096"
    by (simp add: ps php_head_def php_tail_def r length_record_bytes pair_bytes_def length_bytes_def begin_body_def WEB_ROOT_def)
  moreover have "URLDecode [] = Inr []" by (simp add: URLDecode_def URLDecode_loop.simps c_str_def)
  ultimately show ?thesis
    using php_send_readable [of ?r "[]" php_sample] by (auto simp: ps r php_sample_def php_tail_def)
qed

end
