(* ===== verification/Sone_Steps.thy ===== *)
theory Sone_Steps
  imports Main
begin

text \<open>
  Interleavings of several threads are step relations on a shared state.  The locale
  \<open>transitions\<close> has what the proofs about them share: reachable states, the invariant rule,
  and executions as explicit sequences of states.
\<close>

locale transitions =
  fixes start :: "'s \<Rightarrow> bool"
    and step :: "'s \<Rightarrow> 's \<Rightarrow> bool"
begin

inductive reachable :: "'s \<Rightarrow> bool" where
  initial: "start s \<Longrightarrow> reachable s"
| further: "reachable s \<Longrightarrow> step s t \<Longrightarrow> reachable t"

lemma invariantI:
  assumes "reachable s"
    and "\<And>s. start s \<Longrightarrow> I s"
    and "\<And>s t. reachable s \<Longrightarrow> I s \<Longrightarrow> step s t \<Longrightarrow> I t"
  shows "I s"
  using assms(1) by (induction) (auto intro: assms(2,3))

text \<open>A sequence of states each of which steps to the next.\<close>

fun execution :: "'s \<Rightarrow> 's list \<Rightarrow> bool" where
  "execution s [] \<longleftrightarrow> True"
| "execution s (t # ts) \<longleftrightarrow> step s t \<and> execution t ts"

lemma reachable_execution: "reachable s \<Longrightarrow> execution s ts \<Longrightarrow> t \<in> set ts \<Longrightarrow> reachable t"
  by (induction ts arbitrary: s) (auto intro: further)

text \<open>A state no step leaves.\<close>

definition stuck :: "'s \<Rightarrow> bool" where
  "stuck s \<longleftrightarrow> \<not> (\<exists>t. step s t)"

end

end
