(* ===== verification/Epoll_Loop.thy ===== *)
theory Epoll_Loop
  imports Sone_Prelude Sone_Steps "HOL-Library.Word"
begin

unbundle bit_operations_syntax

text \<open>
  The event loop: \<^verbatim>\<open>dispatcher\<close> (interest and callbacks of one descriptor),
  \<^verbatim>\<open>epoller\<close> (the wrapper of \<open>epoll\<close>), \<^verbatim>\<open>eventloop\<close> (one thread's loop with its
  queue of deferred calls), \<^verbatim>\<open>eventloopThread\<close> and \<^verbatim>\<open>eventloopThreadPool\<close>, all under
  \<^verbatim>\<open>src/http_server\<close>.

  Dispatchers are objects in a store, addressed by pointers.  The kernel's interest table is part
  of the state: \<open>epoll_ctl\<close> fails when a descriptor is added twice or changed or deleted without
  being there, and the code answers a failure with \<open>abort\<close>.
\<close>

section \<open>Dispatchers\<close>

type_synonym event_mask = "32 word"

definition EPOLLIN :: event_mask where "EPOLLIN = 0x001"
definition EPOLLOUT :: event_mask where "EPOLLOUT = 0x004"
definition EPOLLRDHUP :: event_mask where "EPOLLRDHUP = 0x2000"

record dispatcher =
  d_events :: event_mask
  d_revents :: event_mask
  d_fd :: int

definition dispatcher_new :: "int \<Rightarrow> dispatcher" where
  "dispatcher_new fd = \<lparr>d_events = 0, d_revents = 0, d_fd = fd\<rparr>"

definition setRevents :: "event_mask \<Rightarrow> dispatcher \<Rightarrow> dispatcher" where
  "setRevents revents d = d\<lparr>d_revents := revents\<rparr>"

datatype callback = Close_callback | Write_callback | Read_callback

text \<open>Which callback \<open>process\<close> runs.\<close>

definition process :: "dispatcher \<Rightarrow> callback option" where
  "process d =
     (if d_revents d AND EPOLLRDHUP \<noteq> 0 then Some Close_callback
      else if d_revents d AND EPOLLOUT \<noteq> 0 then Some Write_callback
      else if d_revents d AND EPOLLIN \<noteq> 0 then Some Read_callback
      else None)"

section \<open>The epoll wrapper\<close>

text \<open>\<open>ep_kernel\<close> is the interest table of the kernel: mask and user pointer per descriptor.\<close>

record epoller =
  dispatcher_map :: "int \<rightharpoonup> nat"
  ep_size :: nat
  ep_kernel :: "int \<rightharpoonup> event_mask \<times> nat"
  ep_store :: "nat \<rightharpoonup> dispatcher"

definition epoller_new :: "(nat \<rightharpoonup> dispatcher) \<Rightarrow> epoller" where
  "epoller_new st =
     \<lparr>dispatcher_map = Map.empty, ep_size = 16, ep_kernel = Map.empty, ep_store = st\<rparr>"

datatype epoll_op = EPOLL_CTL_ADD | EPOLL_CTL_DEL | EPOLL_CTL_MOD

definition deref_dispatcher :: "epoller \<Rightarrow> nat \<Rightarrow> dispatcher result" where
  "deref_dispatcher ep p = (case ep_store ep p of None \<Rightarrow> Inl Use_after_free | Some d \<Rightarrow> Inr d)"

text \<open>What \<open>epoll_ctl\<close> does to the interest list, from its manual page: adding a watched descriptor fails with \<open>EEXIST\<close>,
  changing or removing one that is not watched with \<open>ENOENT\<close>.\<close>

definition epoll_ctl :: "epoll_op \<Rightarrow> int \<Rightarrow> event_mask \<times> nat \<Rightarrow> epoller \<Rightarrow> epoller option" where
  "epoll_ctl operation fd e ep =
     (case operation of
        EPOLL_CTL_ADD \<Rightarrow>
          (if ep_kernel ep fd = None then Some (ep\<lparr>ep_kernel := (ep_kernel ep)(fd \<mapsto> e)\<rparr>) else None)
      | EPOLL_CTL_MOD \<Rightarrow>
          (if ep_kernel ep fd \<noteq> None then Some (ep\<lparr>ep_kernel := (ep_kernel ep)(fd \<mapsto> e)\<rparr>) else None)
      | EPOLL_CTL_DEL \<Rightarrow>
          (if ep_kernel ep fd \<noteq> None then Some (ep\<lparr>ep_kernel := (ep_kernel ep)(fd := None)\<rparr>) else None))"

definition updateEpoller :: "epoll_op \<Rightarrow> nat \<Rightarrow> epoller \<Rightarrow> epoller result" where
  "updateEpoller operation p ep =
     and_then (deref_dispatcher ep p) (\<lambda>d.
       case epoll_ctl operation (d_fd d) (d_events d, p) ep of
         None \<Rightarrow> Inl Aborted
       | Some ep' \<Rightarrow> Inr ep')"

definition setDispatcher :: "nat \<Rightarrow> epoller \<Rightarrow> epoller result" where
  "setDispatcher p ep =
     and_then (deref_dispatcher ep p) (\<lambda>d.
       if dispatcher_map ep (d_fd d) = None then
         updateEpoller EPOLL_CTL_ADD p (ep\<lparr>dispatcher_map := (dispatcher_map ep)(d_fd d \<mapsto> p)\<rparr>)
       else updateEpoller EPOLL_CTL_MOD p ep)"

definition delDispatcher :: "nat \<Rightarrow> epoller \<Rightarrow> epoller result" where
  "delDispatcher p ep =
     and_then (deref_dispatcher ep p) (\<lambda>d.
       if dispatcher_map ep (d_fd d) \<noteq> None then
         updateEpoller EPOLL_CTL_DEL p (ep\<lparr>dispatcher_map := (dispatcher_map ep)(d_fd d := None)\<rparr>)
       else Inr ep)"

text \<open>The events \<open>epoll_wait\<close> reported, at most as many as the vector holds: pointers and masks.\<close>

fun fill_active :: "(nat \<times> event_mask) list \<Rightarrow> epoller \<Rightarrow> nat list \<Rightarrow> (epoller \<times> nat list) result" where
  "fill_active [] ep dl = Inr (ep, dl)"
| "fill_active ((p, ev) # evs) ep dl =
     and_then (deref_dispatcher ep p) (\<lambda>d.
       if dispatcher_map ep (d_fd d) \<noteq> None
       then fill_active evs (ep\<lparr>ep_store := (ep_store ep)(p \<mapsto> setRevents ev d)\<rparr>) (dl @ [p])
       else fill_active evs ep dl)"

text \<open>\<open>ret\<close>: the events, or the \<open>errno\<close> of a failure (whether it is \<open>EINTR\<close>).\<close>

definition epoll :: "bool + (nat \<times> event_mask) list \<Rightarrow> epoller \<Rightarrow> (epoller \<times> nat list) result" where
  "epoll ret ep =
     (case ret of
        Inl eintr \<Rightarrow> if eintr then Inr (ep, []) else Inl Aborted
      | Inr evs \<Rightarrow>
          and_then (fill_active evs ep []) (\<lambda>(ep, dl).
            Inr (if length evs > ep_size ep then (ep\<lparr>ep_size := 2 * ep_size ep\<rparr>, dl) else (ep, dl))))"

section \<open>Changing the interest of a descriptor\<close>

text \<open>\<open>events |= m; update()\<close> and \<open>events &= ~m; update()\<close>.  The assertion in
  \<open>updateDispatcher\<close> holds: the dispatcher belongs to the loop whose epoller this is.\<close>

definition enable :: "event_mask \<Rightarrow> nat \<Rightarrow> epoller \<Rightarrow> epoller result" where
  "enable msk p ep =
     and_then (deref_dispatcher ep p) (\<lambda>d.
       setDispatcher p (ep\<lparr>ep_store := (ep_store ep)(p \<mapsto> d\<lparr>d_events := d_events d OR msk\<rparr>)\<rparr>))"

definition disable :: "event_mask \<Rightarrow> nat \<Rightarrow> epoller \<Rightarrow> epoller result" where
  "disable msk p ep =
     and_then (deref_dispatcher ep p) (\<lambda>d.
       setDispatcher p (ep\<lparr>ep_store := (ep_store ep)(p \<mapsto> d\<lparr>d_events := d_events d AND NOT msk\<rparr>)\<rparr>))"

definition enableReading :: "nat \<Rightarrow> epoller \<Rightarrow> epoller result" where
  "enableReading = enable EPOLLIN"
definition enableWriting :: "nat \<Rightarrow> epoller \<Rightarrow> epoller result" where
  "enableWriting = enable EPOLLOUT"
definition disableReading :: "nat \<Rightarrow> epoller \<Rightarrow> epoller result" where
  "disableReading = disable EPOLLIN"
definition disableWriting :: "nat \<Rightarrow> epoller \<Rightarrow> epoller result" where
  "disableWriting = disable EPOLLOUT"
definition enableRDhup :: "nat \<Rightarrow> epoller \<Rightarrow> epoller result" where
  "enableRDhup = enable EPOLLRDHUP"
definition disableRDhup :: "nat \<Rightarrow> epoller \<Rightarrow> epoller result" where
  "disableRDhup = disable EPOLLRDHUP"

definition removeDispatcher :: "nat option \<Rightarrow> epoller \<Rightarrow> epoller result" where
  "removeDispatcher ed ep = (case ed of None \<Rightarrow> Inr ep | Some p \<Rightarrow> delDispatcher p ep)"

section \<open>Threads with a loop\<close>

text \<open>
  \<open>start\<close> creates the thread and waits until \<open>_loop\<close> is not null.  The constructor
  does not initialise \<open>_loop\<close>: \<open>before\<close> is the value the memory happens to have (\<open>None\<close>
  for null), \<open>own\<close> the loop the new thread publishes.
\<close>

definition eventloopThread_start :: "nat option \<Rightarrow> nat \<Rightarrow> nat option" where
  "eventloopThread_start before own = (case before of Some garbage \<Rightarrow> Some garbage | None \<Rightarrow> Some own)"

record eventloopThreadPool =
  threadNums :: int
  pool_loops :: "nat list"

definition eventloopThreadPool_new :: "int \<Rightarrow> eventloopThreadPool" where
  "eventloopThreadPool_new n = \<lparr>threadNums = n, pool_loops = []\<rparr>"

definition eventloopThreadPool_start ::
  "(nat \<Rightarrow> nat option) \<Rightarrow> (nat \<Rightarrow> nat) \<Rightarrow> eventloopThreadPool \<Rightarrow> eventloopThreadPool" where
  "eventloopThreadPool_start before own p =
     p\<lparr>pool_loops := pool_loops p @
        map (\<lambda>i. the (eventloopThread_start (before i) (own i))) [0..<nat (threadNums p)]\<rparr>"

definition getLoop :: "int \<Rightarrow> eventloopThreadPool \<Rightarrow> nat option result" where
  "getLoop fd p =
     (if pool_loops p \<noteq> [] then
        (let i = c_rem fd (threadNums p) in
         if 0 \<le> i \<and> i < int (length (pool_loops p)) then Inr (Some (pool_loops p ! nat i))
         else Inl Out_of_bounds)
      else Inr None)"

text \<open>With zeroed memory every descriptor gets the loop of its remainder.\<close>

lemma getLoop_started:
  assumes "0 < n" and "0 \<le> fd"
  shows "getLoop fd (eventloopThreadPool_start (\<lambda>_. None) own (eventloopThreadPool_new n)) =
    Inr (Some (own (nat (fd mod n))))"
proof -
  have "0 \<le> fd mod n" "fd mod n < n" using assms by simp_all
  then show ?thesis
    using assms by (simp add: getLoop_def eventloopThreadPool_start_def eventloopThreadPool_new_def
        eventloopThread_start_def c_rem_nonneg Let_def nat_less_iff)
qed

section \<open>The kernel table mirrors the map\<close>

text \<open>Every registered dispatcher is alive, has the descriptor it is registered under, and the
  kernel watches exactly the registered descriptors with the dispatcher's mask and pointer.\<close>

definition ep_inv :: "epoller \<Rightarrow> bool" where
  "ep_inv ep \<longleftrightarrow>
     (\<forall>fd. dispatcher_map ep fd = None \<longrightarrow> ep_kernel ep fd = None) \<and>
     (\<forall>fd p. dispatcher_map ep fd = Some p \<longrightarrow>
        (\<exists>d. ep_store ep p = Some d \<and> d_fd d = fd \<and> ep_kernel ep fd = Some (d_events d, p)))"

text \<open>A dispatcher that may be registered: alive, and no other dispatcher has its descriptor.\<close>

definition registrable :: "epoller \<Rightarrow> nat \<Rightarrow> dispatcher \<Rightarrow> bool" where
  "registrable ep p d \<longleftrightarrow>
     ep_store ep p = Some d \<and> (dispatcher_map ep (d_fd d) = None \<or> dispatcher_map ep (d_fd d) = Some p)"

lemma ep_inv_new: "ep_inv (epoller_new st)"
  by (simp add: ep_inv_def epoller_new_def)

lemma ep_invD:
  assumes "ep_inv ep"
  shows "dispatcher_map ep fd = None \<Longrightarrow> ep_kernel ep fd = None"
    and "dispatcher_map ep fd = Some p \<Longrightarrow>
      \<exists>d. ep_store ep p = Some d \<and> d_fd d = fd \<and> ep_kernel ep fd = Some (d_events d, p)"
  using assms unfolding ep_inv_def by blast+

lemma update_mask_correct:
  assumes inv: "ep_inv ep" and reg: "registrable ep p d"
    and ep1: "ep1 = ep\<lparr>ep_store := (ep_store ep)(p \<mapsto> d\<lparr>d_events := ev\<rparr>)\<rparr>"
    and ep': "ep' = ep1\<lparr>dispatcher_map := (dispatcher_map ep)(d_fd d \<mapsto> p),
                ep_kernel := (ep_kernel ep)(d_fd d \<mapsto> (ev, p))\<rparr>"
  shows "setDispatcher p ep1 = Inr ep' \<and> ep_inv ep'"
proof
  from reg have d: "ep_store ep p = Some d" "dispatcher_map ep (d_fd d) = None \<or> dispatcher_map ep (d_fd d) = Some p"
    by (auto simp: registrable_def)
  show "setDispatcher p ep1 = Inr ep'"
  proof (cases "dispatcher_map ep (d_fd d)")
    case None
    then have "ep_kernel ep (d_fd d) = None" using ep_invD(1) [OF inv] by simp
    then show ?thesis using None
      by (simp add: setDispatcher_def deref_dispatcher_def updateEpoller_def epoll_ctl_def ep1 ep')
  next
    case (Some q)
    then have q: "q = p" using d(2) by simp
    then obtain e where "ep_kernel ep (d_fd d) = Some e" using ep_invD(2) [OF inv Some] by blast
    moreover have "(dispatcher_map ep)(d_fd d \<mapsto> p) = dispatcher_map ep" using Some q by (simp add: fun_upd_idem)
    ultimately show ?thesis using Some
      by (simp add: setDispatcher_def deref_dispatcher_def updateEpoller_def epoll_ctl_def ep1 ep')
  qed
  show "ep_inv ep'"
    unfolding ep_inv_def
  proof (intro conjI allI impI)
    fix fd assume "dispatcher_map ep' fd = None"
    then show "ep_kernel ep' fd = None" using ep_invD(1) [OF inv, of fd] by (auto simp: ep' ep1 split: if_splits)
  next
    fix fd q assume m: "dispatcher_map ep' fd = Some q"
    show "\<exists>d. ep_store ep' q = Some d \<and> d_fd d = fd \<and> ep_kernel ep' fd = Some (d_events d, q)"
    proof (cases "fd = d_fd d")
      case True
      then show ?thesis using m by (simp add: ep' ep1)
    next
      case False
      then have "dispatcher_map ep fd = Some q" using m by (simp add: ep' ep1)
      then obtain e where e: "ep_store ep q = Some e" "d_fd e = fd" "ep_kernel ep fd = Some (d_events e, q)"
        using ep_invD(2) [OF inv] by blast
      then have "q \<noteq> p" using d(1) False by auto
      then show ?thesis using False e by (simp add: ep' ep1)
    qed
  qed
qed

lemma delDispatcher_correct:
  assumes inv: "ep_inv ep" and reg: "registrable ep p d"
  shows "\<exists>ep'. delDispatcher p ep = Inr ep' \<and> ep_inv ep' \<and> ep_store ep' = ep_store ep \<and>
    dispatcher_map ep' = (dispatcher_map ep)(d_fd d := None) \<and> ep_kernel ep' = (ep_kernel ep)(d_fd d := None)"
proof (cases "dispatcher_map ep (d_fd d)")
  case None
  then have "delDispatcher p ep = Inr ep"
    using reg by (simp add: delDispatcher_def deref_dispatcher_def registrable_def)
  then show ?thesis using inv None ep_invD(1) [OF inv None] by (auto simp: fun_upd_idem)
next
  case (Some q)
  then have q: "q = p" "ep_store ep p = Some d" using reg by (auto simp: registrable_def)
  let ?ep = "ep\<lparr>dispatcher_map := (dispatcher_map ep)(d_fd d := None), ep_kernel := (ep_kernel ep)(d_fd d := None)\<rparr>"
  have "ep_kernel ep (d_fd d) \<noteq> None" using ep_invD(2) [OF inv Some] by auto
  then have "delDispatcher p ep = Inr ?ep"
    using Some q by (auto simp: delDispatcher_def deref_dispatcher_def updateEpoller_def epoll_ctl_def)
  moreover have "ep_inv ?ep"
    using inv unfolding ep_inv_def by simp
  ultimately show ?thesis by auto
qed

lemma enable_eq:
  assumes "ep_inv ep" and "registrable ep p d"
  shows "\<exists>ep'. enable msk p ep = Inr ep' \<and> ep_inv ep' \<and>
      ep_kernel ep' = (ep_kernel ep)(d_fd d \<mapsto> (d_events d OR msk, p)) \<and>
      dispatcher_map ep' = (dispatcher_map ep)(d_fd d \<mapsto> p)"
    and "\<exists>ep'. disable msk p ep = Inr ep' \<and> ep_inv ep' \<and>
      ep_kernel ep' = (ep_kernel ep)(d_fd d \<mapsto> (d_events d AND NOT msk, p)) \<and>
      dispatcher_map ep' = (dispatcher_map ep)(d_fd d \<mapsto> p)"
  using update_mask_correct [OF assms refl refl, of "d_events d OR msk"]
    update_mask_correct [OF assms refl refl, of "d_events d AND NOT msk"] assms(2)
  by (auto simp: enable_def disable_def deref_dispatcher_def registrable_def)

text \<open>
  C23. Enabling or disabling an event on a dispatcher that is alive and does not share its
  descriptor with another registered one never aborts: it adds or changes the kernel's entry for
  that descriptor to the new mask and nothing else, and the kernel's interest table keeps
  mirroring the dispatcher map.  Removing a dispatcher, registered or not, does not abort either
  and leaves the kernel without an entry for its descriptor.
\<close>

theorem epoller_mirrors_kernel:
  assumes "ep_inv ep" and "registrable ep p d"
  shows "(\<exists>ep'. enable msk p ep = Inr ep' \<and> ep_inv ep' \<and>
            ep_kernel ep' = (ep_kernel ep)(d_fd d \<mapsto> (d_events d OR msk, p))) \<and>
         (\<exists>ep'. disable msk p ep = Inr ep' \<and> ep_inv ep' \<and>
            ep_kernel ep' = (ep_kernel ep)(d_fd d \<mapsto> (d_events d AND NOT msk, p))) \<and>
         (\<exists>ep'. removeDispatcher (Some p) ep = Inr ep' \<and> ep_inv ep' \<and>
            ep_kernel ep' = (ep_kernel ep)(d_fd d := None))"
  using enable_eq [OF assms] delDispatcher_correct [OF assms] by (auto simp: removeDispatcher_def)

definition sample_epoller :: epoller where
  "sample_epoller = epoller_new [0 \<mapsto> dispatcher_new 5]"

theorem epoller_mirrors_kernel_witness:
  "(\<exists>ep'. enableReading 0 sample_epoller = Inr ep' \<and> ep_inv ep' \<and> ep_kernel ep' = [5 \<mapsto> (EPOLLIN, 0)])"
  using epoller_mirrors_kernel [of sample_epoller 0 "dispatcher_new 5" EPOLLIN]
  by (simp add: sample_epoller_def ep_inv_new registrable_def enableReading_def dispatcher_new_def)
    (simp add: epoller_new_def)

section \<open>Waiting for events\<close>

lemma ep_inv_setRevents:
  assumes "ep_inv ep" and "ep_store ep q = Some d"
  shows "ep_inv (ep\<lparr>ep_store := (ep_store ep)(q \<mapsto> setRevents ev d)\<rparr>)"
  unfolding ep_inv_def
proof (intro conjI allI impI)
  fix fd r assume m: "dispatcher_map (ep\<lparr>ep_store := (ep_store ep)(q \<mapsto> setRevents ev d)\<rparr>) fd = Some r"
  then obtain e where "ep_store ep r = Some e" "d_fd e = fd" "ep_kernel ep fd = Some (d_events e, r)"
    using ep_invD(2) [OF assms(1)] by fastforce
  then show "\<exists>d'. ep_store (ep\<lparr>ep_store := (ep_store ep)(q \<mapsto> setRevents ev d)\<rparr>) r = Some d' \<and> d_fd d' = fd \<and>
      ep_kernel (ep\<lparr>ep_store := (ep_store ep)(q \<mapsto> setRevents ev d)\<rparr>) fd = Some (d_events d', r)"
    using assms(2) by (cases "r = q") (auto simp: setRevents_def)
qed (use ep_invD(1) [OF assms(1)] in simp)

lemma fill_active_correct:
  assumes "\<forall>(q, ev) \<in> set evs. \<exists>d. ep_store ep q = Some d" and "ep_inv ep"
  shows "\<exists>ep'. fill_active evs ep dl =
      Inr (ep', dl @ map fst (filter (\<lambda>(q, _). dispatcher_map ep (d_fd (the (ep_store ep q))) \<noteq> None) evs)) \<and>
    dispatcher_map ep' = dispatcher_map ep \<and> ep_size ep' = ep_size ep \<and> ep_inv ep'"
  using assms
proof (induction evs arbitrary: ep dl)
  case (Cons qe evs)
  obtain q ev where qe: "qe = (q, ev)" by (cases qe)
  obtain d where d: "ep_store ep q = Some d" using Cons.prems qe by auto
  show ?case
  proof (cases "dispatcher_map ep (d_fd d) = None")
    case True
    then show ?thesis using Cons.IH [of ep dl] Cons.prems qe d by (simp add: deref_dispatcher_def)
  next
    case False
    let ?ep = "ep\<lparr>ep_store := (ep_store ep)(q \<mapsto> setRevents ev d)\<rparr>"
    have st: "\<forall>(q', ev) \<in> set evs. \<exists>d. ep_store ?ep q' = Some d" using Cons.prems by auto
    have fd: "d_fd (the (ep_store ?ep r)) = d_fd (the (ep_store ep r))" for r
      using d by (simp add: setRevents_def)
    have "fill_active (qe # evs) ep dl = fill_active evs ?ep (dl @ [q])"
      using qe d False by (simp add: deref_dispatcher_def)
    then show ?thesis
      using Cons.IH [OF st ep_inv_setRevents [OF Cons.prems(2) d], of "dl @ [q]"] qe d False
      unfolding fd by simp
  qed
qed simp

text \<open>
  When the kernel reports at most as many events as the vector holds, and only for dispatchers
  that are alive, the wrapper returns exactly the reporting dispatchers that are registered, in
  the order reported, and registrations are unchanged; the vector keeps its size, so a loop never
  sees more than sixteen events at a time.
\<close>

theorem epoll_returns_active:
  assumes "\<forall>(q, ev) \<in> set evs. \<exists>d. ep_store ep q = Some d" and "ep_inv ep" and "length evs \<le> ep_size ep"
  shows "\<exists>ep'. epoll (Inr evs) ep =
      Inr (ep', map fst (filter (\<lambda>(q, _). dispatcher_map ep (d_fd (the (ep_store ep q))) \<noteq> None) evs)) \<and>
    dispatcher_map ep' = dispatcher_map ep \<and> ep_inv ep' \<and> ep_size ep' = ep_size ep"
  using fill_active_correct [OF assms(1,2), of "[]"] assms(3) by (auto simp: epoll_def)

definition sample_registered :: epoller where
  "sample_registered =
     \<lparr>dispatcher_map = [5 \<mapsto> 0], ep_size = 16, ep_kernel = [5 \<mapsto> (0, 0)], ep_store = [0 \<mapsto> dispatcher_new 5]\<rparr>"

theorem epoll_returns_active_witness:
  "\<exists>ep'. epoll (Inr [(0, EPOLLIN)]) sample_registered = Inr (ep', [0]) \<and> ep_size ep' = 16"
proof -
  have "ep_inv sample_registered" by (simp add: ep_inv_def sample_registered_def dispatcher_new_def)
  then show ?thesis
    using epoll_returns_active [of "[(0, EPOLLIN)]" sample_registered]
    by (auto simp: sample_registered_def dispatcher_new_def)
qed

section \<open>Deferred calls\<close>

text \<open>
  \<open>runInLoop\<close>, called by thread \<open>tid\<close> on the loop of thread \<open>threadId\<close>: a call from the loop's own thread is run at
  once; any other is put at the end of \<open>non_io_functors\<close>, and the wake-up descriptor is written.  \<open>call\<close> is what a
  functor does to the program; the loop is its queue and the counter of its wake-up descriptor.
\<close>

type_synonym 'f loop_queue = "'f list \<times> nat"

definition runInLoop ::
  "nat \<Rightarrow> nat \<Rightarrow> ('f \<Rightarrow> 's \<Rightarrow> 's result) \<Rightarrow> 'f \<Rightarrow> 's \<times> 'f loop_queue \<Rightarrow> ('s \<times> 'f loop_queue) result" where
  "runInLoop tid threadId call f = (\<lambda>(s, functors, wakeups).
     if tid = threadId then and_then (call f s) (\<lambda>s. Inr (s, functors, wakeups))
     else Inr (s, functors @ [f], wakeups + 1))"

text \<open>The loop of \<open>startloop\<close> over the functors it has taken.\<close>

fun run_functors :: "('f \<Rightarrow> 's \<Rightarrow> 's result) \<Rightarrow> 'f list \<Rightarrow> 's \<Rightarrow> 's result" where
  "run_functors call [] s = Inr s"
| "run_functors call (f # fs) s = and_then (call f s) (run_functors call fs)"

text \<open>
  The same, step by step.  The queue is shared between the loop's thread and the threads that call
  \<open>runInLoop\<close>.  A caller on another thread pushes under the lock and then writes to the wake-up descriptor;
  \<open>exit\<close> sets \<open>quit\<close> and, on another thread, writes it too; \<open>lp_writers\<close> counts the callers between the two.
  A call from the loop's own thread, also by a signal handler that interrupts it, is run where it is made.
  The loop's thread runs through the phases of \<open>startloop\<close>: testing \<open>quit\<close>, blocked in \<open>epoll_wait\<close>, processing the ready
  dispatchers (among them the one of the wake-up descriptor, when its counter was not zero),
  exchanging the vectors under the lock, and running the calls it took.  \<open>lp_calls\<close> and
  \<open>lp_run\<close> record all calls of \<open>runInLoop\<close> and all functors run, with the mark \<open>True\<close> when the caller was the loop's own thread.
\<close>

datatype loop_phase = Checking | Polling | Processing bool | Swapping | Running | Stopped

record 'f loop_state =
  lp_phase :: loop_phase
  non_io_functors :: "'f list"
  lp_temp :: "'f list"
  lp_wakeups :: nat
  lp_writers :: nat
  lp_quit :: bool
  lp_calls :: "(bool \<times> 'f) list"
  lp_run :: "(bool \<times> 'f) list"

definition loop_start :: "'f loop_state \<Rightarrow> bool" where
  "loop_start s \<longleftrightarrow> s = \<lparr>lp_phase = Checking, non_io_functors = [], lp_temp = [], lp_wakeups = 0, lp_writers = 0,
     lp_quit = False, lp_calls = [], lp_run = []\<rparr>"

inductive loop_step :: "'f loop_state \<Rightarrow> 'f loop_state \<Rightarrow> bool" where
  call_here: "loop_step s (s\<lparr>lp_calls := lp_calls s @ [(True, f)], lp_run := lp_run s @ [(True, f)]\<rparr>)"
| push: "loop_step s (s\<lparr>non_io_functors := non_io_functors s @ [f], lp_writers := lp_writers s + 1,
           lp_calls := lp_calls s @ [(False, f)]\<rparr>)"
| exit_here: "loop_step s (s\<lparr>lp_quit := True\<rparr>)"
| exit_call: "loop_step s (s\<lparr>lp_quit := True, lp_writers := lp_writers s + 1\<rparr>)"
| wake: "0 < lp_writers s \<Longrightarrow>
    loop_step s (s\<lparr>lp_writers := lp_writers s - 1, lp_wakeups := lp_wakeups s + 1\<rparr>)"
| check: "lp_phase s = Checking \<Longrightarrow>
    loop_step s (s\<lparr>lp_phase := (if lp_quit s then Stopped else Polling)\<rparr>)"
| poll_return: "lp_phase s = Polling \<Longrightarrow>
    loop_step s (s\<lparr>lp_phase := Processing (0 < lp_wakeups s)\<rparr>)"
| process_io: "lp_phase s = Processing b \<Longrightarrow>
    loop_step s (s\<lparr>lp_phase := Swapping, lp_wakeups := (if b then 0 else lp_wakeups s)\<rparr>)"
| swap: "lp_phase s = Swapping \<Longrightarrow>
    loop_step s (s\<lparr>lp_phase := Running, lp_temp := non_io_functors s, non_io_functors := []\<rparr>)"
| run: "lp_phase s = Running \<Longrightarrow> lp_temp s = f # fs \<Longrightarrow>
    loop_step s (s\<lparr>lp_temp := fs, lp_run := lp_run s @ [(False, f)]\<rparr>)"
| again: "lp_phase s = Running \<Longrightarrow> lp_temp s = [] \<Longrightarrow> loop_step s (s\<lparr>lp_phase := Checking\<rparr>)"

interpretation lp: transitions loop_start loop_step .

inductive_cases loop_stepE: "loop_step s t"

text \<open>The calls from the loop's own thread and those from the others.\<close>

definition made_here :: "(bool \<times> 'f) list \<Rightarrow> 'f list" where
  "made_here xs = map snd (filter fst xs)"

definition deferred :: "(bool \<times> 'f) list \<Rightarrow> 'f list" where
  "deferred xs = map snd (filter (\<lambda>x. \<not> fst x) xs)"

lemma made_here_simps [simp]: "made_here [] = []" "made_here (xs @ [(b, f)]) = made_here xs @ (if b then [f] else [])"
  by (simp_all add: made_here_def)

lemma deferred_simps [simp]: "deferred [] = []" "deferred (xs @ [(b, f)]) = deferred xs @ (if b then [] else [f])"
  by (simp_all add: deferred_def)

definition loop_inv :: "'f loop_state \<Rightarrow> bool" where
  "loop_inv s \<longleftrightarrow>
     made_here (lp_calls s) = made_here (lp_run s) \<and>
     deferred (lp_calls s) = deferred (lp_run s) @ lp_temp s @ non_io_functors s \<and>
     (lp_phase s \<noteq> Running \<longrightarrow> lp_temp s = []) \<and>
     (lp_phase s = Stopped \<longrightarrow> lp_quit s) \<and>
     (non_io_functors s \<noteq> [] \<and> (\<forall>b. lp_phase s \<noteq> Processing b) \<and> lp_phase s \<noteq> Swapping \<longrightarrow>
        0 < lp_writers s \<or> 0 < lp_wakeups s)"

lemma loop_inv_step: "loop_inv s \<Longrightarrow> loop_step s t \<Longrightarrow> loop_inv t"
  by (erule loop_stepE) (auto simp: loop_inv_def)

lemma loop_inv_reachable: "lp.reachable s \<Longrightarrow> loop_inv s"
proof (erule lp.invariantI)
  show "loop_start s \<Longrightarrow> loop_inv s" for s :: "'a loop_state" by (simp add: loop_start_def loop_inv_def)
qed (rule loop_inv_step)

text \<open>A loop that has stopped runs no deferred call any more.\<close>

lemma stopped_step: "loop_step s t \<Longrightarrow> lp_phase s = Stopped \<Longrightarrow> lp_phase t = Stopped \<and> deferred (lp_run t) = deferred (lp_run s)"
  by (erule loop_stepE) auto

text \<open>
  C26. In every interleaving of callers and the loop, a call of \<open>runInLoop\<close> from the loop's own thread has run when it
  returns, ahead of what is queued; and of the calls from other threads, those that have run, those the loop has taken and
  those still queued are, in this order, exactly the calls made: none is lost, repeated or reordered.
  When the loop blocks while calls are queued, its wake-up descriptor is readable or a caller is about to write it,
  so the wait ends.  Once the loop has stopped, what is queued is never run.
\<close>

theorem deferred_calls_not_lost:
  assumes "lp.reachable s"
  shows "made_here (lp_calls s) = made_here (lp_run s) \<and>
         deferred (lp_calls s) = deferred (lp_run s) @ lp_temp s @ non_io_functors s \<and>
         (lp_phase s = Polling \<and> non_io_functors s \<noteq> [] \<longrightarrow> 0 < lp_wakeups s \<or> 0 < lp_writers s) \<and>
         (lp_phase s = Stopped \<longrightarrow>
            (\<forall>t. loop_step s t \<longrightarrow> lp_phase t = Stopped \<and> deferred (lp_run t) = deferred (lp_run s)))"
  using loop_inv_reachable [OF assms] stopped_step [of s] by (auto simp: loop_inv_def)

definition sample_loop :: "nat loop_state" where
  "sample_loop = \<lparr>lp_phase = Checking, non_io_functors = [], lp_temp = [], lp_wakeups = 0, lp_writers = 0,
     lp_quit = False, lp_calls = [], lp_run = []\<rparr>"

text \<open>Call 7 comes from another thread, then call 8 from the loop's own: it is the one that has run.\<close>

theorem deferred_calls_not_lost_witness:
  "\<exists>s :: nat loop_state. lp.reachable s \<and> lp_calls s = [(False, 7), (True, 8)] \<and> made_here (lp_run s) = [8] \<and>
     deferred (lp_run s) @ lp_temp s @ non_io_functors s = [7]"
proof -
  let ?s1 = "sample_loop\<lparr>non_io_functors := [7], lp_writers := 1, lp_calls := [(False, 7)]\<rparr>"
  let ?s2 = "?s1\<lparr>lp_calls := [(False, 7), (True, 8)], lp_run := [(True, 8)]\<rparr>"
  have "lp.reachable sample_loop" by (rule lp.initial) (simp add: loop_start_def sample_loop_def)
  moreover have "loop_step sample_loop ?s1" using loop_step.push [of sample_loop 7] by (simp add: sample_loop_def)
  ultimately have "lp.reachable ?s1" by (rule lp.further)
  moreover have "loop_step ?s1 ?s2" using loop_step.call_here [of ?s1 8] by (simp add: sample_loop_def)
  ultimately have r: "lp.reachable ?s2" by (rule lp.further)
  moreover have "lp_calls ?s2 = [(False, 7), (True, 8)]" by simp
  moreover from this have "made_here (lp_run ?s2) = [8]" "deferred (lp_run ?s2) @ lp_temp ?s2 @ non_io_functors ?s2 = [7]"
    using deferred_calls_not_lost [OF r] by (simp_all add: made_here_def deferred_def)
  ultimately show ?thesis by blast
qed

end
