(* ===== verification/Timer_Heap.thy ===== *)
theory Timer_Heap
  imports Sone_Prelude
begin

text \<open>
  The timers of \<^verbatim>\<open>src/http_server/TimerHeap.h\<close> and \<^verbatim>\<open>TimerHeap.cpp\<close>: a
  binary min-heap of \<open>Timer*\<close> in a vector of fixed length.  Timers are shared with the
  connections, so they live in a store from addresses to \<open>Timer\<close> objects; a cell of the
  vector is a pointer (\<open>None\<close> is the null pointer).  A callback is an identity
  (\<open>None\<close> is the empty \<open>std::function\<close>), and what calling it does is an argument of \<open>tick\<close>.  The locks of the class make its operations atomic and are not part of the state.
\<close>

section \<open>State\<close>

record Timer =
  expire :: int
  timer_cb :: "nat option"
  timer_index :: int

type_synonym timer_ptr = "nat option"
type_synonym timer_store = "nat \<Rightarrow> Timer option"

record TimerHeap =
  th_vec :: "timer_ptr list"
  th_nums :: nat
  th_store :: timer_store

definition Timer_new :: "int \<Rightarrow> nat \<Rightarrow> Timer" where
  "Timer_new now sec = \<lparr>expire = now + int sec, timer_cb = None, timer_index = -1\<rparr>"

definition TimerHeap_new :: "nat \<Rightarrow> timer_store \<Rightarrow> TimerHeap" where
  "TimerHeap_new capcity st = \<lparr>th_vec = replicate capcity None, th_nums = 0, th_store = st\<rparr>"

definition deref_timer :: "timer_store \<Rightarrow> timer_ptr \<Rightarrow> Timer result" where
  "deref_timer st p =
     (case p of
        None \<Rightarrow> Inl Null_deref
      | Some a \<Rightarrow> (case st a of None \<Rightarrow> Inl Use_after_free | Some t \<Rightarrow> Inr t))"

definition expire_at :: "timer_store \<Rightarrow> timer_ptr list \<Rightarrow> nat \<Rightarrow> int result" where
  "expire_at st v i = and_then (cell v i) (\<lambda>p. and_then (deref_timer st p) (\<lambda>t. Inr (expire t)))"

definition setIndex :: "timer_ptr \<Rightarrow> int \<Rightarrow> timer_store \<Rightarrow> timer_store result" where
  "setIndex p i st =
     (case p of
        None \<Rightarrow> Inl Null_deref
      | Some a \<Rightarrow> and_then (deref_timer st p) (\<lambda>t. Inr (st(a \<mapsto> t\<lparr>timer_index := i\<rparr>))))"

definition setExpire :: "timer_ptr \<Rightarrow> int \<Rightarrow> timer_store \<Rightarrow> timer_store result" where
  "setExpire p e st =
     (case p of
        None \<Rightarrow> Inl Null_deref
      | Some a \<Rightarrow> and_then (deref_timer st p) (\<lambda>t. Inr (st(a \<mapsto> t\<lparr>expire := e\<rparr>))))"

section \<open>Operations\<close>

function up_loop :: "timer_store \<Rightarrow> timer_ptr list \<Rightarrow> nat \<Rightarrow> (timer_ptr list \<times> nat) result" where
  "up_loop st v h =
     (if h > 0 then
        let p = (h - 1) div 2 in
        and_then (expire_at st v p) (\<lambda>ep.
        and_then (expire_at st v h) (\<lambda>eh.
          if ep > eh
          then and_then (swap_cells v p h) (\<lambda>v'. up_loop st v' p)
          else Inr (v, h)))
      else Inr (v, h))"
  by pat_completeness auto
termination
  by (relation "measure (\<lambda>(st, v, h). h)") auto

definition pushTimer :: "timer_ptr \<Rightarrow> TimerHeap \<Rightarrow> TimerHeap result" where
  "pushTimer timer h =
     (case timer of
        None \<Rightarrow> Inr h
      | Some a \<Rightarrow>
          let nums = th_nums h + 1;
              v = (if nums \<le> length (th_vec h) then (th_vec h)[nums - 1 := timer] else th_vec h)
          in and_then (up_loop (th_store h) v (nums - 1)) (\<lambda>(v', i).
             and_then (setIndex timer (int i) (th_store h)) (\<lambda>st.
               Inr (h\<lparr>th_vec := v', th_nums := nums, th_store := st\<rparr>))))"

definition min_child :: "timer_store \<Rightarrow> timer_ptr list \<Rightarrow> nat \<Rightarrow> nat \<Rightarrow> nat option result" where
  "min_child st v nums index =
     (if 2 * index + 2 < nums then
        and_then (expire_at st v (2 * index + 1)) (\<lambda>e1.
        and_then (expire_at st v (2 * index + 2)) (\<lambda>e2.
          Inr (Some (if e1 < e2 then 2 * index + 1 else 2 * index + 2))))
      else if 2 * index + 1 < nums then Inr (Some (2 * index + 1))
      else Inr None)"

lemma min_child_bounds:
  "min_child st v nums index = Inr (Some c) \<Longrightarrow> index < c \<and> c < nums \<and> (c - 1) div 2 = index"
  by (auto simp: min_child_def res_simps split: if_splits)

function down_loop :: "timer_store \<Rightarrow> nat \<Rightarrow> timer_ptr list \<Rightarrow> nat \<Rightarrow> timer_ptr list result" where
  "down_loop st nums v index =
     (if index < nums then
        and_then (min_child st v nums index) (\<lambda>child.
          case child of
            None \<Rightarrow> Inr v
          | Some c \<Rightarrow>
              and_then (expire_at st v index) (\<lambda>ei.
              and_then (expire_at st v c) (\<lambda>ec.
                if ei > ec
                then and_then (swap_cells v index c) (\<lambda>v'. down_loop st nums v' c)
                else Inr v)))
      else Inr v)"
  by pat_completeness auto
termination
  by (relation "measure (\<lambda>(st, nums, v, index). nums - index)") (auto dest!: min_child_bounds)

definition TimerHeap_down :: "nat \<Rightarrow> TimerHeap \<Rightarrow> TimerHeap result" where
  "TimerHeap_down index h =
     and_then (down_loop (th_store h) (th_nums h) (th_vec h) index) (\<lambda>v. Inr (h\<lparr>th_vec := v\<rparr>))"

definition popTimer :: "TimerHeap \<Rightarrow> TimerHeap result" where
  "popTimer h =
     (if th_nums h = 0 then Inr h
      else
        let l = th_nums h - 1 in
        and_then (swap_cells (th_vec h) 0 l) (\<lambda>v.
        and_then (setIndex (v ! l) (-2) (th_store h)) (\<lambda>st.
          TimerHeap_down 0 \<lparr>th_vec = v[l := None], th_nums = l, th_store = st\<rparr>)))"

definition topTimer :: "TimerHeap \<Rightarrow> timer_ptr result" where
  "topTimer h = (if th_nums h \<noteq> 0 then cell (th_vec h) 0 else Inr None)"

definition TimerHeap_empty :: "TimerHeap \<Rightarrow> bool" where
  "TimerHeap_empty h \<longleftrightarrow> th_nums h = 0"

lemma popTimer_nums: "popTimer h = Inr h' \<Longrightarrow> th_nums h' = th_nums h - 1"
  by (auto simp: popTimer_def TimerHeap_down_def Let_def res_simps split: if_splits)

text \<open>
  The loop of \<open>tick\<close>.  A callback is run while its timer is still at the top of the heap, and what it does to the
  heap and to the rest of the program (\<open>call\<close>) is done before \<open>popTimer\<close>; only then is the timer taken out.
  A callback may push timers that are due at once, so the loop need not end.
\<close>

partial_function (option) tick ::
  "(nat \<Rightarrow> TimerHeap \<times> 's \<Rightarrow> (TimerHeap \<times> 's) result) \<Rightarrow> int \<Rightarrow> TimerHeap \<times> 's \<Rightarrow> (TimerHeap \<times> 's) result option" where
  "tick call cur hs =
     (if \<not> TimerHeap_empty (fst hs) then
        case topTimer (fst hs) of
          Inl e \<Rightarrow> Some (Inl e)
        | Inr timer \<Rightarrow>
            if timer = None then Some (Inr hs)
            else
              case deref_timer (th_store (fst hs)) timer of
                Inl e \<Rightarrow> Some (Inl e)
              | Inr t \<Rightarrow>
                  if expire t > cur then Some (Inr hs)
                  else
                    case and_then (case timer_cb t of None \<Rightarrow> Inr hs | Some cb \<Rightarrow> call cb hs)
                           (\<lambda>(h, s). and_then (popTimer h) (\<lambda>h. Inr (h, s))) of
                      Inl e \<Rightarrow> Some (Inl e)
                    | Inr hs \<Rightarrow> tick call cur hs
      else Some (Inr hs))"

declare up_loop.simps [simp del] down_loop.simps [simp del]

fun delete_timers :: "timer_ptr list \<Rightarrow> timer_store \<Rightarrow> timer_store result" where
  "delete_timers [] st = Inr st"
| "delete_timers (p # ps) st =
     (case p of
        None \<Rightarrow> delete_timers ps st
      | Some a \<Rightarrow> and_then (deref_timer st p) (\<lambda>_. delete_timers ps (st(a := None))))"

definition TimerHeap_destroy :: "TimerHeap \<Rightarrow> timer_store result" where
  "TimerHeap_destroy h =
     (if th_nums h \<le> length (th_vec h)
      then delete_timers (take (th_nums h) (th_vec h)) (th_store h) else Inl Out_of_bounds)"

section \<open>Heap order on vectors\<close>

text \<open>The key of a cell, and what it means that the first \<open>n\<close> cells hold live timers.\<close>

definition tkey :: "timer_store \<Rightarrow> timer_ptr \<Rightarrow> int" where
  "tkey st p = (case p of None \<Rightarrow> 0 | Some a \<Rightarrow> (case st a of None \<Rightarrow> 0 | Some t \<Rightarrow> expire t))"

definition live :: "timer_store \<Rightarrow> timer_ptr \<Rightarrow> bool" where
  "live st p \<longleftrightarrow> (\<exists>a t. p = Some a \<and> st a = Some t)"

definition live_upto :: "timer_store \<Rightarrow> timer_ptr list \<Rightarrow> nat \<Rightarrow> bool" where
  "live_upto st v n \<longleftrightarrow> n \<le> length v \<and> (\<forall>i < n. live st (v ! i))"

definition heap_upto :: "(timer_ptr \<Rightarrow> int) \<Rightarrow> timer_ptr list \<Rightarrow> nat \<Rightarrow> bool" where
  "heap_upto k v n \<longleftrightarrow> (\<forall>i. 0 < i \<and> i < n \<longrightarrow> k (v ! ((i - 1) div 2)) \<le> k (v ! i))"

text \<open>Heap order except above (below) position \<open>h\<close>, with the order between \<open>h\<close>'s
  parent and \<open>h\<close>'s children kept.\<close>

definition heap_hole_above :: "(timer_ptr \<Rightarrow> int) \<Rightarrow> timer_ptr list \<Rightarrow> nat \<Rightarrow> nat \<Rightarrow> bool" where
  "heap_hole_above k v n h \<longleftrightarrow>
     (\<forall>i. 0 < i \<and> i < n \<and> i \<noteq> h \<longrightarrow> k (v ! ((i - 1) div 2)) \<le> k (v ! i)) \<and>
     (\<forall>c. 0 < h \<and> 0 < c \<and> c < n \<and> (c - 1) div 2 = h \<longrightarrow> k (v ! ((h - 1) div 2)) \<le> k (v ! c))"

definition heap_hole_below :: "(timer_ptr \<Rightarrow> int) \<Rightarrow> timer_ptr list \<Rightarrow> nat \<Rightarrow> nat \<Rightarrow> bool" where
  "heap_hole_below k v n h \<longleftrightarrow>
     (\<forall>i. 0 < i \<and> i < n \<and> (i - 1) div 2 \<noteq> h \<longrightarrow> k (v ! ((i - 1) div 2)) \<le> k (v ! i)) \<and>
     (\<forall>c. 0 < h \<and> 0 < c \<and> c < n \<and> (c - 1) div 2 = h \<longrightarrow> k (v ! ((h - 1) div 2)) \<le> k (v ! c))"

lemma expire_at_live: "live_upto st v n \<Longrightarrow> i < n \<Longrightarrow> expire_at st v i = Inr (tkey st (v ! i))"
  by (fastforce simp: live_upto_def live_def expire_at_def cell_def deref_timer_def tkey_def)

lemma live_upto_swap:
  "live_upto st v n \<Longrightarrow> i < n \<Longrightarrow> j < n \<Longrightarrow> live_upto st (list_swap v i j) n"
  by (auto simp: live_upto_def nth_list_swap)

lemma list_swap_same_above:
  "i < n \<Longrightarrow> j < n \<Longrightarrow> n \<le> length v \<Longrightarrow> drop n (list_swap v i j) = drop n v"
  by (simp add: list_swap_def)

lemma heap_root_min:
  assumes "heap_upto k v n" and "i < n"
  shows "k (v ! 0) \<le> k (v ! i)"
  using assms(2)
proof (induction i rule: less_induct)
  case (less i)
  show ?case
  proof (cases "i = 0")
    case False
    then have "(i - 1) div 2 < i" by simp
    with less have "k (v ! 0) \<le> k (v ! ((i - 1) div 2))" by simp
    also have "\<dots> \<le> k (v ! i)" using assms(1) False less.prems by (auto simp: heap_upto_def)
    finally show ?thesis .
  qed simp
qed

lemma hole_above_step:
  assumes "heap_hole_above k v n h" and "0 < h" and "h < n" and "n \<le> length v"
    and "k (v ! ((h - 1) div 2)) > k (v ! h)"
  shows "heap_hole_above k (list_swap v ((h - 1) div 2) h) n ((h - 1) div 2)"
proof -
  let ?p = "(h - 1) div 2" and ?w = "list_swap v ((h - 1) div 2) h"
  have p: "?p < h" "?p < n" using assms(2,3) by linarith+
  have w: "?w ! i = (if i = ?p then v ! h else if i = h then v ! ?p else v ! i)" if "i < n" for i
    using that p assms(3,4) by (intro nth_list_swap) simp_all
  have up: "k (v ! ((i - 1) div 2)) \<le> k (v ! i)" if "0 < i" "i < n" "i \<noteq> h" for i
    using assms(1) that by (auto simp: heap_hole_above_def)
  have gp: "k (v ! ?p) \<le> k (v ! c)" if "0 < c" "c < n" "(c - 1) div 2 = h" for c
    using assms(1,2) that by (auto simp: heap_hole_above_def)
  show ?thesis unfolding heap_hole_above_def
  proof (intro conjI allI impI)
    fix i assume i: "0 < i \<and> i < n \<and> i \<noteq> ?p"
    have q: "(i - 1) div 2 < n" using i by linarith
    consider (p) "(i - 1) div 2 = ?p" | (h) "(i - 1) div 2 = h" | (other) "(i - 1) div 2 \<noteq> ?p" "(i - 1) div 2 \<noteq> h"
      by blast
    then show "k (?w ! ((i - 1) div 2)) \<le> k (?w ! i)"
    proof cases
      case p
      with w [OF q] have wq: "?w ! ((i - 1) div 2) = v ! h" by simp
      show ?thesis
      proof (cases "i = h")
        case True
        with wq w [of i] i p assms(5) show ?thesis by simp
      next
        case False
        with up [of i] i p have "k (v ! ?p) \<le> k (v ! i)" by simp
        with wq w [of i] i False assms(5) show ?thesis by simp
      qed
    next
      case h
      then have "i \<noteq> h" using i by linarith
      moreover have "?w ! ((i - 1) div 2) = v ! ?p" using w [OF q] h p by simp
      ultimately show ?thesis using gp [of i] w [of i] i h by simp
    next
      case other
      then have "i \<noteq> h" by auto
      with other up [of i] w [of i] w [OF q] i show ?thesis by simp
    qed
  next
    fix c assume c: "0 < ?p \<and> 0 < c \<and> c < n \<and> (c - 1) div 2 = ?p"
    have q: "(?p - 1) div 2 < n" "(?p - 1) div 2 \<noteq> ?p" "(?p - 1) div 2 \<noteq> h" using c p by linarith+
    have pp: "k (v ! ((?p - 1) div 2)) \<le> k (v ! ?p)" using up [of ?p] c p by auto
    have wg: "?w ! ((?p - 1) div 2) = v ! ((?p - 1) div 2)" using w [OF q(1)] q(2,3) by simp
    have "c \<noteq> ?p" using c by linarith
    then have wc: "?w ! c = (if c = h then v ! ?p else v ! c)" using w [of c] c by simp
    have "k (v ! ?p) \<le> k (v ! c)" if "c \<noteq> h" using up [of c] c that by simp
    with pp show "k (?w ! ((?p - 1) div 2)) \<le> k (?w ! c)"
      unfolding wg wc by (cases "c = h") auto
  qed
qed

lemma hole_above_close:
  "heap_hole_above k v n h \<Longrightarrow> h = 0 \<or> k (v ! ((h - 1) div 2)) \<le> k (v ! h) \<Longrightarrow> heap_upto k v n"
  unfolding heap_hole_above_def heap_upto_def by auto

lemma hole_below_step:
  assumes "heap_hole_below k v n h" and "h < c" and "c < n" and pc: "(c - 1) div 2 = h"
    and "n \<le> length v" and gt: "k (v ! h) > k (v ! c)"
    and mn: "\<And>d. 0 < d \<Longrightarrow> d < n \<Longrightarrow> (d - 1) div 2 = h \<Longrightarrow> k (v ! c) \<le> k (v ! d)"
  shows "heap_hole_below k (list_swap v h c) n c"
proof -
  let ?w = "list_swap v h c"
  have h: "h < n" "0 < c" using assms(2,3) by linarith+
  have w: "?w ! i = (if i = h then v ! c else if i = c then v ! h else v ! i)" if "i < n" for i
    using that h assms(3,5) by (intro nth_list_swap) simp_all
  have up: "k (v ! ((i - 1) div 2)) \<le> k (v ! i)" if "0 < i" "i < n" "(i - 1) div 2 \<noteq> h" for i
    using assms(1) that by (simp add: heap_hole_below_def)
  have gp: "k (v ! ((h - 1) div 2)) \<le> k (v ! c)" if "0 < h"
    using assms(1) that h(2) assms(3) pc by (simp add: heap_hole_below_def)
  show ?thesis unfolding heap_hole_below_def
  proof (intro conjI allI impI)
    fix i assume i: "0 < i \<and> i < n \<and> (i - 1) div 2 \<noteq> c"
    have q: "(i - 1) div 2 < n" using i by linarith
    show "k (?w ! ((i - 1) div 2)) \<le> k (?w ! i)"
    proof (cases "(i - 1) div 2 = h")
      case True
      have wq: "?w ! ((i - 1) div 2) = v ! c" using w [OF q] True by simp
      have "i \<noteq> h" using True i by linarith
      then have wi: "?w ! i = (if i = c then v ! h else v ! i)" using w [of i] i by simp
      show ?thesis unfolding wq wi using gt mn [of i] i True by (cases "i = c") auto
    next
      case False
      have "i \<noteq> c" using False pc by auto
      then have wi: "?w ! i = (if i = h then v ! c else v ! i)" using w [of i] i by simp
      have wq: "?w ! ((i - 1) div 2) = v ! ((i - 1) div 2)" using w [OF q] False i by simp
      show ?thesis unfolding wq wi using gp up [of i] i False by (cases "i = h") auto
    qed
  next
    fix d assume d: "0 < c \<and> 0 < d \<and> d < n \<and> (d - 1) div 2 = c"
    have "d \<noteq> c" "d \<noteq> h" using d assms(2) by linarith+
    then have wd: "?w ! d = v ! d" using w [of d] d by simp
    have wc: "?w ! ((c - 1) div 2) = v ! c" using w [OF h(1)] pc by simp
    have "k (v ! c) \<le> k (v ! d)" using up [of d] d assms(2) by simp
    then show "k (?w ! ((c - 1) div 2)) \<le> k (?w ! d)" by (simp only: wc wd)
  qed
qed

lemma hole_below_close:
  assumes "heap_hole_below k v n h"
    and "\<And>d. 0 < d \<Longrightarrow> d < n \<Longrightarrow> (d - 1) div 2 = h \<Longrightarrow> k (v ! h) \<le> k (v ! d)"
  shows "heap_upto k v n"
  unfolding heap_upto_def
proof (intro allI impI)
  fix i assume i: "0 < i \<and> i < n"
  show "k (v ! ((i - 1) div 2)) \<le> k (v ! i)"
  proof (cases "(i - 1) div 2 = h")
    case True
    with assms(2) [of i] i show ?thesis by simp
  next
    case False
    with assms(1) i show ?thesis by (simp add: heap_hole_below_def)
  qed
qed

section \<open>The loops restore heap order\<close>

lemma up_loop_correct:
  assumes "live_upto st v n" and "h < n" and "heap_hole_above (tkey st) v n h"
  shows "\<exists>v' h'. up_loop st v h = Inr (v', h') \<and> heap_upto (tkey st) v' n \<and> live_upto st v' n \<and>
            length v' = length v \<and> mset v' = mset v \<and> drop n v' = drop n v \<and> h' < n \<and> v' ! h' = v ! h"
  using assms
proof (induction st v h rule: up_loop.induct)
  case (1 st v h)
  note live = "1.prems"(1) and hn = "1.prems"(2) and hole = "1.prems"(3)
  have len: "n \<le> length v" using live by (simp add: live_upto_def)
  show ?case
  proof (cases "h > 0 \<and> tkey st (v ! ((h - 1) div 2)) > tkey st (v ! h)")
    case True
    let ?p = "(h - 1) div 2" and ?w = "list_swap v ((h - 1) div 2) h"
    have p: "?p < n" using hn by linarith
    have unf: "up_loop st v h = up_loop st ?w ?p"
      using True live p hn len
      by (simp add: up_loop.simps [of st v h] expire_at_live swap_cells_ok Let_def)
    have "\<exists>v' h'. up_loop st ?w ?p = Inr (v', h') \<and> heap_upto (tkey st) v' n \<and> live_upto st v' n \<and>
            length v' = length ?w \<and> mset v' = mset ?w \<and> drop n v' = drop n ?w \<and> h' < n \<and> v' ! h' = ?w ! ?p"
    proof (rule "1.IH" [OF _ refl])
      show "swap_cells v ?p h = Inr ?w" using p hn len by (simp add: swap_cells_ok)
      show "live_upto st ?w n" using live p hn by (rule live_upto_swap)
      show "heap_hole_above (tkey st) ?w n ?p" using hole_above_step [OF hole _ hn len] True by blast
    qed (use True live p hn in \<open>auto simp: expire_at_live\<close>)
    moreover have "?w ! ?p = v ! h" using p hn len by (simp add: nth_list_swap)
    moreover have "drop n ?w = drop n v" using p hn len by (rule list_swap_same_above)
    ultimately show ?thesis using p hn len unf by simp
  next
    case False
    have p: "0 < h \<Longrightarrow> (h - 1) div 2 < n" using hn by linarith
    have "up_loop st v h = Inr (v, h)"
      using False live p hn by (auto simp: up_loop.simps [of st v h] expire_at_live Let_def)
    moreover have "heap_upto (tkey st) v n" using hole_above_close [OF hole] False by fastforce
    ultimately show ?thesis using live hn by simp
  qed
qed

lemma min_child_correct:
  assumes "live_upto st v n"
  shows "(\<exists>c. min_child st v n h = Inr (Some c) \<and> h < c \<and> c < n \<and> (c - 1) div 2 = h \<and>
            (\<forall>d. 0 < d \<and> d < n \<and> (d - 1) div 2 = h \<longrightarrow> tkey st (v ! c) \<le> tkey st (v ! d)))
         \<or> (min_child st v n h = Inr None \<and> (\<forall>d. 0 < d \<and> d < n \<longrightarrow> (d - 1) div 2 \<noteq> h))"
proof -
  have kids: "d = 2 * h + 1 \<or> d = 2 * h + 2" if "0 < d" "(d - 1) div 2 = h" for d
    using that by linarith
  show ?thesis
  proof (cases "2 * h + 1 < n")
    case True
    then show ?thesis
      using assms by (auto simp: min_child_def expire_at_live dest!: kids)
  next
    case False
    then show ?thesis by (auto simp: min_child_def)
  qed
qed

lemma down_loop_correct:
  assumes "live_upto st v n" and "heap_hole_below (tkey st) v n h"
  shows "\<exists>v'. down_loop st n v h = Inr v' \<and> heap_upto (tkey st) v' n \<and> live_upto st v' n \<and>
            length v' = length v \<and> mset v' = mset v \<and> drop n v' = drop n v"
  using assms
proof (induction st n v h rule: down_loop.induct)
  case (1 st n v h)
  note live = "1.prems"(1) and hole = "1.prems"(2)
  have len: "n \<le> length v" using live by (simp add: live_upto_def)
  show ?case
  proof (cases "\<exists>c. h < n \<and> min_child st v n h = Inr (Some c) \<and> tkey st (v ! h) > tkey st (v ! c)")
    case True
    then obtain c where hn: "h < n" and mc: "min_child st v n h = Inr (Some c)"
      and gt: "tkey st (v ! h) > tkey st (v ! c)" by blast
    from min_child_correct [OF live, of h] mc have c: "h < c" "c < n" "(c - 1) div 2 = h"
      and mn: "\<And>d. 0 < d \<Longrightarrow> d < n \<Longrightarrow> (d - 1) div 2 = h \<Longrightarrow> tkey st (v ! c) \<le> tkey st (v ! d)"
      by auto
    let ?w = "list_swap v h c"
    have unf: "down_loop st n v h = down_loop st n ?w c"
      using hn mc gt c live len
      by (simp add: down_loop.simps [of st n v h] expire_at_live swap_cells_ok)
    have "\<exists>v'. down_loop st n ?w c = Inr v' \<and> heap_upto (tkey st) v' n \<and> live_upto st v' n \<and>
            length v' = length ?w \<and> mset v' = mset ?w \<and> drop n v' = drop n ?w"
    proof (rule "1.IH")
      show "h < n" by fact
      show "min_child st v n h = Inr (Some c)" by fact
      show "swap_cells v h c = Inr ?w" using hn c len by (simp add: swap_cells_ok)
      show "live_upto st ?w n" using live hn c(2) by (rule live_upto_swap)
      show "heap_hole_below (tkey st) ?w n c" using hole_below_step [OF hole c len gt mn] .
    qed (use gt live hn c in \<open>auto simp: expire_at_live\<close>)
    moreover have "drop n ?w = drop n v" using hn c(2) len by (rule list_swap_same_above)
    ultimately show ?thesis using hn c len unf by simp
  next
    case False
    have "down_loop st n v h = Inr v"
      using False live min_child_correct [OF live, of h]
      by (auto simp: down_loop.simps [of st n v h] expire_at_live)
    moreover have "heap_upto (tkey st) v n"
    proof (rule hole_below_close [OF hole])
      fix d assume d: "0 < d" "d < n" "(d - 1) div 2 = h"
      have "h < n" using d by linarith
      with False min_child_correct [OF live, of h] d
      show "tkey st (v ! h) \<le> tkey st (v ! d)" by force
    qed
    ultimately show ?thesis using live by simp
  qed
qed

section \<open>Invariant of the heap\<close>

definition th_inv :: "TimerHeap \<Rightarrow> bool" where
  "th_inv h \<longleftrightarrow>
     live_upto (th_store h) (th_vec h) (th_nums h) \<and>
     heap_upto (tkey (th_store h)) (th_vec h) (th_nums h) \<and>
     distinct (take (th_nums h) (th_vec h))"

text \<open>The timers in the heap with their expiry times.\<close>

definition th_elems :: "TimerHeap \<Rightarrow> (nat \<times> int) multiset" where
  "th_elems h =
     image_mset (\<lambda>p. (the p, tkey (th_store h) p)) (mset (take (th_nums h) (th_vec h)))"

lemma th_inv_new: "th_inv (TimerHeap_new n st)"
  by (simp add: th_inv_def TimerHeap_new_def live_upto_def heap_upto_def)

lemma th_elems_new: "th_elems (TimerHeap_new n st) = {#}"
  by (simp add: th_elems_def TimerHeap_new_def)

lemma setIndex_live:
  assumes "st a = Some t"
  shows "setIndex (Some a) i st = Inr (st(a \<mapsto> t\<lparr>timer_index := i\<rparr>))"
  using assms by (simp add: setIndex_def deref_timer_def)

lemma tkey_upd_index [simp]: "st a = Some t \<Longrightarrow> tkey (st(a \<mapsto> t\<lparr>timer_index := i\<rparr>)) = tkey st"
  by (auto simp: tkey_def fun_eq_iff split: option.splits)

lemma live_upd: "live st p \<Longrightarrow> live (st(a \<mapsto> t)) p"
  by (auto simp: live_def)

lemma live_upto_upd: "live_upto st v n \<Longrightarrow> live_upto (st(a \<mapsto> t)) v n"
  by (auto simp: live_upto_def intro: live_upd)

lemma mset_take_eq:
  assumes "mset v' = mset v" and "drop n v' = drop n v"
  shows "mset (take n v') = mset (take n v)"
proof -
  have "mset (take n v') + mset (drop n v') = mset (take n v) + mset (drop n v)"
    using assms(1) by (simp flip: mset_append)
  with assms(2) show ?thesis by simp
qed

lemma distinct_mset_eq: "mset xs = mset ys \<Longrightarrow> distinct xs \<longleftrightarrow> distinct ys"
  by (metis distinct_count_atmost_1 set_mset_mset)

lemma pushTimer_correct_aux:
  assumes "th_inv h" and "th_nums h < length (th_vec h)" and "th_store h a = Some t"
    and "Some a \<notin> set (take (th_nums h) (th_vec h))"
  shows "\<exists>h' i. pushTimer (Some a) h = Inr h' \<and> th_inv h' \<and>
           th_elems h' = add_mset (a, expire t) (th_elems h) \<and>
           th_nums h' = th_nums h + 1 \<and> length (th_vec h') = length (th_vec h) \<and>
           th_store h' = (th_store h)(a \<mapsto> t\<lparr>timer_index := int i\<rparr>) \<and>
           i < th_nums h' \<and> th_vec h' ! i = Some a"
proof -
  let ?n = "th_nums h" and ?st = "th_store h" and ?v = "(th_vec h)[th_nums h := Some a]"
  from assms(1) have live: "live_upto ?st (th_vec h) ?n" and heap: "heap_upto (tkey ?st) (th_vec h) ?n"
    and dist: "distinct (take ?n (th_vec h))" by (simp_all add: th_inv_def)
  have tk: "take (?n + 1) ?v = take ?n (th_vec h) @ [Some a]"
    using assms(2) by (simp add: take_Suc_conv_app_nth)
  have live': "live_upto ?st ?v (?n + 1)"
    using live assms(2,3) by (auto simp: live_upto_def live_def nth_list_update less_Suc_eq)
  have "heap_hole_above (tkey ?st) ?v (?n + 1) ?n"
    using heap assms(2) by (auto simp: heap_hole_above_def heap_upto_def)
  from up_loop_correct [OF live' _ this] obtain v' i where
    u: "up_loop ?st ?v ?n = Inr (v', i)" "heap_upto (tkey ?st) v' (?n + 1)" "live_upto ?st v' (?n + 1)"
      "length v' = length ?v" "mset v' = mset ?v" "drop (?n + 1) v' = drop (?n + 1) ?v"
      "i < ?n + 1" "v' ! i = ?v ! ?n"
    by auto
  let ?h = "h\<lparr>th_vec := v', th_nums := ?n + 1, th_store := ?st(a \<mapsto> t\<lparr>timer_index := int i\<rparr>)\<rparr>"
  have push: "pushTimer (Some a) h = Inr ?h"
    using assms(2,3) u(1) by (simp add: pushTimer_def Let_def setIndex_live)
  have m: "mset (take (?n + 1) v') = add_mset (Some a) (mset (take ?n (th_vec h)))"
    using mset_take_eq [OF u(5,6)] tk by simp
  have "distinct (take (?n + 1) v')"
    using distinct_mset_eq [OF mset_take_eq [OF u(5,6)]] tk dist assms(4) by simp
  then have "th_inv ?h" using u(2,3) assms(3) by (simp add: th_inv_def live_upto_upd)
  moreover have "th_elems ?h = add_mset (a, expire t) (th_elems h)"
    using m assms(3) by (simp add: th_elems_def tkey_def)
  moreover have "v' ! i = Some a" using u(8) assms(2) by simp
  ultimately show ?thesis using push u(4,7) by (intro exI [of _ ?h] exI [of _ i]) simp
qed

lemma popTimer_correct_aux:
  assumes "th_inv h" and "th_nums h \<noteq> 0"
  shows "\<exists>a t h'. th_vec h ! 0 = Some a \<and> th_store h a = Some t \<and> popTimer h = Inr h' \<and> th_inv h' \<and>
           th_elems h = add_mset (a, expire t) (th_elems h') \<and>
           th_store h' = (th_store h)(a \<mapsto> t\<lparr>timer_index := -2\<rparr>) \<and>
           th_nums h' = th_nums h - 1 \<and> length (th_vec h') = length (th_vec h) \<and>
           (\<forall>x \<in># th_elems h. expire t \<le> snd x)"
proof -
  let ?st = "th_store h" and ?v = "th_vec h" and ?l = "th_nums h - 1"
  from assms(1) have live: "live_upto ?st ?v (th_nums h)" and heap: "heap_upto (tkey ?st) ?v (th_nums h)"
    and dist: "distinct (take (th_nums h) ?v)" by (simp_all add: th_inv_def)
  have l: "?l < th_nums h" "th_nums h = ?l + 1" "th_nums h \<le> length ?v" "?l < length ?v" "0 < length ?v"
    using assms(2) live by (auto simp: live_upto_def)
  obtain a t where a: "?v ! 0 = Some a" "?st a = Some t"
    using live assms(2) by (auto simp: live_upto_def live_def)
  let ?w = "list_swap ?v 0 ?l"
  let ?st' = "?st(a \<mapsto> t\<lparr>timer_index := -2\<rparr>)"
  have w: "?w ! i = (if i = 0 then ?v ! ?l else if i = ?l then ?v ! 0 else ?v ! i)" if "i < length ?v" for i
    using that l by (intro nth_list_swap) simp_all
  have wl: "?w ! ?l = Some a" using w [OF l(4)] a(1) by (cases "?l = 0") simp_all
  have key: "tkey ?st' = tkey ?st" using a(2) by simp
  have live': "live_upto ?st' (?w[?l := None]) ?l"
  proof -
    have "live_upto ?st ?w (th_nums h)" using live assms(2) l(1) by (intro live_upto_swap) simp_all
    then have "live_upto ?st (?w[?l := None]) ?l" using l by (auto simp: live_upto_def)
    then show ?thesis by (rule live_upto_upd)
  qed
  have hole: "heap_hole_below (tkey ?st') (?w[?l := None]) ?l 0"
    unfolding heap_hole_below_def key
  proof (intro conjI allI impI)
    fix i assume i: "0 < i \<and> i < ?l \<and> (i - 1) div 2 \<noteq> 0"
    have q: "(i - 1) div 2 < ?l" using i by linarith
    have "tkey ?st (?v ! ((i - 1) div 2)) \<le> tkey ?st (?v ! i)"
      using heap i l(1) by (simp add: heap_upto_def)
    moreover have "?w[?l := None] ! i = ?v ! i" using i l(4) w [of i] by simp
    moreover have "?w[?l := None] ! ((i - 1) div 2) = ?v ! ((i - 1) div 2)"
      using i q l(4) w [of "(i - 1) div 2"] by simp
    ultimately show "tkey ?st (?w[?l := None] ! ((i - 1) div 2)) \<le> tkey ?st (?w[?l := None] ! i)" by simp
  qed simp
  from down_loop_correct [OF live' hole] obtain v' where
    d: "down_loop ?st' ?l (?w[?l := None]) 0 = Inr v'" "heap_upto (tkey ?st') v' ?l" "live_upto ?st' v' ?l"
      "length v' = length ?v" "mset v' = mset (?w[?l := None])" "drop ?l v' = drop ?l (?w[?l := None])"
    by auto
  let ?h = "\<lparr>th_vec = v', th_nums = ?l, th_store = ?st'\<rparr>"
  have pop: "popTimer h = Inr ?h"
    using assms(2) l(4,5) wl a(2) d(1)
    by (simp add: popTimer_def Let_def swap_cells_ok setIndex_live TimerHeap_down_def)
  have tkw: "take (th_nums h) ?w = take ?l ?w @ [Some a]"
    using wl l(4) by (subst l(2)) (simp add: take_Suc_conv_app_nth)
  have mw: "mset (take (th_nums h) ?w) = mset (take (th_nums h) ?v)"
    using l by (intro mset_take_eq mset_list_swap list_swap_same_above) simp_all
  have mt: "mset (take ?l v') = mset (take ?l ?w)"
    using mset_take_eq [OF d(5,6)] by simp
  have el: "add_mset (Some a) (mset (take ?l v')) = mset (take (th_nums h) ?v)"
    using mw tkw mt by simp
  have "distinct (take ?l ?w)" using distinct_mset_eq [OF mw] dist tkw by simp
  then have "distinct (take ?l v')" using distinct_mset_eq [OF mt] by simp
  then have inv: "th_inv ?h" using d(2,3) by (simp add: th_inv_def)
  have elems: "th_elems h = add_mset (a, expire t) (th_elems ?h)"
    using a(2) key by (simp add: th_elems_def tkey_def flip: el)
  have "expire t \<le> snd x" if "x \<in># th_elems h" for x
  proof -
    from that obtain i where "i < th_nums h" "x = (the (?v ! i), tkey ?st (?v ! i))"
      using l(3) by (auto simp: th_elems_def in_set_conv_nth)
    with heap_root_min [OF heap, of i] a show ?thesis by (simp add: tkey_def)
  qed
  with a pop inv elems d(4) show ?thesis by (intro exI [of _ a] exI [of _ t] exI [of _ ?h]) simp
qed

lemma tkey_upd_expire:
  "st a = Some t \<Longrightarrow> tkey (st(a \<mapsto> t\<lparr>expire := e\<rparr>)) p = (if p = Some a then e else tkey st p)"
  by (auto simp: tkey_def split: option.splits)

lemma down_delay_aux:
  assumes "th_inv h" and "i < th_nums h" and "th_vec h ! i = Some a" and "th_store h a = Some t"
    and "expire t \<le> e"
  shows "\<exists>h'. TimerHeap_down i (h\<lparr>th_store := (th_store h)(a \<mapsto> t\<lparr>expire := e\<rparr>)\<rparr>) = Inr h' \<and> th_inv h' \<and>
           mset (take (th_nums h') (th_vec h')) = mset (take (th_nums h) (th_vec h)) \<and>
           th_store h' = (th_store h)(a \<mapsto> t\<lparr>expire := e\<rparr>) \<and> th_nums h' = th_nums h"
proof -
  let ?st = "th_store h" and ?v = "th_vec h" and ?n = "th_nums h"
  let ?st' = "?st(a \<mapsto> t\<lparr>expire := e\<rparr>)"
  from assms(1) have live: "live_upto ?st ?v ?n" and heap: "heap_upto (tkey ?st) ?v ?n"
    and dist: "distinct (take ?n ?v)" by (simp_all add: th_inv_def)
  have len: "?n \<le> length ?v" using live by (simp add: live_upto_def)
  have key: "tkey ?st' (?v ! j) = (if j = i then e else tkey ?st (?v ! j))" if "j < ?n" for j
  proof -
    have "?v ! j = Some a \<longleftrightarrow> j = i"
      using dist that assms(2,3) len nth_eq_iff_index_eq [OF dist, of j i] by simp
    then show ?thesis using tkey_upd_expire [of ?st a t e "?v ! j"] assms(4) by simp
  qed
  have old: "tkey ?st (?v ! i) \<le> e" using assms(3-5) by (simp add: tkey_def)
  have up: "tkey ?st (?v ! ((j - 1) div 2)) \<le> tkey ?st (?v ! j)" if "0 < j" "j < ?n" for j
    using heap that by (simp add: heap_upto_def)
  have hole: "heap_hole_below (tkey ?st') ?v ?n i"
    unfolding heap_hole_below_def
  proof (intro conjI allI impI)
    fix j assume j: "0 < j \<and> j < ?n \<and> (j - 1) div 2 \<noteq> i"
    have q: "(j - 1) div 2 < ?n" using j by linarith
    show "tkey ?st' (?v ! ((j - 1) div 2)) \<le> tkey ?st' (?v ! j)"
      unfolding key [OF q] using key [of j] j up [of j] old by (auto split: if_splits)
  next
    fix c assume c: "0 < i \<and> 0 < c \<and> c < ?n \<and> (c - 1) div 2 = i"
    have q: "(i - 1) div 2 < ?n" "(i - 1) div 2 \<noteq> i" "c \<noteq> i" using c assms(2) by linarith+
    show "tkey ?st' (?v ! ((i - 1) div 2)) \<le> tkey ?st' (?v ! c)"
      unfolding key [OF q(1)] using key [of c] c q up [of i] up [of c] assms(2) by simp
  qed
  from down_loop_correct [OF live_upto_upd [OF live] hole] obtain v' where
    d: "down_loop ?st' ?n ?v i = Inr v'" "heap_upto (tkey ?st') v' ?n" "live_upto ?st' v' ?n"
      "mset v' = mset ?v" "drop ?n v' = drop ?n ?v"
    by auto
  let ?h = "h\<lparr>th_vec := v', th_store := ?st'\<rparr>"
  note mt = mset_take_eq [OF d(4,5)]
  have "TimerHeap_down i (h\<lparr>th_store := ?st'\<rparr>) = Inr ?h" using d(1) by (simp add: TimerHeap_down_def)
  moreover have "th_inv ?h" using d(2,3) distinct_mset_eq [OF mt] dist by (simp add: th_inv_def)
  ultimately show ?thesis using mt by (intro exI [of _ ?h]) simp
qed

section \<open>The interface of the timer queue\<close>

locale timer_queue =
  fixes invar :: "'q \<Rightarrow> bool"
    and elems :: "'q \<Rightarrow> (nat \<times> int) multiset"
    and is_empty :: "'q \<Rightarrow> bool"
    and top :: "'q \<Rightarrow> nat option result"
    and pop :: "'q \<Rightarrow> 'q result"
  assumes is_empty_elems: "invar q \<Longrightarrow> is_empty q \<longleftrightarrow> elems q = {#}"
    and pop_least: "invar q \<Longrightarrow> elems q \<noteq> {#} \<Longrightarrow>
      \<exists>a e q'. top q = Inr (Some a) \<and> pop q = Inr q' \<and> invar q' \<and>
               elems q = add_mset (a, e) (elems q') \<and> (\<forall>x \<in># elems q. e \<le> snd x)"
begin

text \<open>Taking timers off the queue while the first one is due.\<close>

inductive drains :: "int \<Rightarrow> 'q \<Rightarrow> (nat \<times> int) list \<Rightarrow> 'q \<Rightarrow> bool" for cur where
  drains_stop: "\<forall>x \<in># elems q. cur < snd x \<Longrightarrow> drains cur q [] q"
| drains_pop: "top q = Inr (Some a) \<Longrightarrow> pop q = Inr q' \<Longrightarrow> elems q = add_mset (a, e) (elems q') \<Longrightarrow>
    invar q' \<Longrightarrow> \<forall>x \<in># elems q. e \<le> snd x \<Longrightarrow> e \<le> cur \<Longrightarrow> drains cur q' ts q'' \<Longrightarrow>
    drains cur q ((a, e) # ts) q''"

lemma drains_result:
  assumes "drains cur q ts q'" and "invar q"
  shows "invar q' \<and> elems q = mset ts + elems q' \<and> (\<forall>x \<in> set ts. snd x \<le> cur) \<and>
         (\<forall>x \<in># elems q'. cur < snd x) \<and> sorted (map snd ts)"
  using assms
proof (induction rule: drains.induct)
  case (drains_pop q a q' e ts q'')
  then have "\<forall>x \<in> set ts. e \<le> snd x" by auto
  with drains_pop show ?case by auto
qed simp

lemma drains_ids_due:
  assumes "drains cur q ts q'" and "invar q"
  shows "mset ts = filter_mset (\<lambda>x. snd x \<le> cur) (elems q)"
proof -
  note r = drains_result [OF assms]
  have "filter_mset (\<lambda>x. snd x \<le> cur) (mset ts) = mset ts"
    using r by (simp add: filter_mset_eq_conv)
  moreover have "filter_mset (\<lambda>x. snd x \<le> cur) (elems q') = {#}"
    using r by (auto simp: filter_mset_eq_conv not_le)
  ultimately show ?thesis using r by simp
qed

end

lemma th_elems_empty_iff: "th_inv h \<Longrightarrow> th_elems h = {#} \<longleftrightarrow> th_nums h = 0"
  by (auto simp: th_elems_def th_inv_def live_upto_def)

interpretation tq: timer_queue th_inv th_elems TimerHeap_empty topTimer popTimer
proof unfold_locales
  fix q assume inv: "th_inv q"
  then show "TimerHeap_empty q \<longleftrightarrow> th_elems q = {#}"
    by (simp add: TimerHeap_empty_def th_elems_empty_iff)
  assume "th_elems q \<noteq> {#}"
  then have n: "th_nums q \<noteq> 0" using inv by (simp add: th_elems_empty_iff)
  from popTimer_correct_aux [OF inv n] obtain a and t :: Timer and h' where
    p: "th_vec q ! 0 = Some a" "popTimer q = Inr h'" "th_inv h'"
      "th_elems q = add_mset (a, expire t) (th_elems h')" "\<forall>x \<in># th_elems q. expire t \<le> snd x"
    by blast
  have "topTimer q = Inr (Some a)"
    using p(1) n inv by (auto simp: topTimer_def cell_def th_inv_def live_upto_def)
  with p show "\<exists>a e q'. topTimer q = Inr (Some a) \<and> popTimer q = Inr q' \<and> th_inv q' \<and>
      th_elems q = add_mset (a, e) (th_elems q') \<and> (\<forall>x \<in># th_elems q. e \<le> snd x)"
    by blast
qed

definition cb_of :: "timer_store \<Rightarrow> nat \<Rightarrow> nat option" where
  "cb_of st a = (case st a of None \<Rightarrow> None | Some t \<Rightarrow> timer_cb t)"

text \<open>Callbacks that leave the heap to \<open>tick\<close>: each only changes the rest of the program.\<close>

definition leaves_heap :: "(nat \<Rightarrow> 's \<Rightarrow> 's) \<Rightarrow> nat \<Rightarrow> TimerHeap \<times> 's \<Rightarrow> (TimerHeap \<times> 's) result" where
  "leaves_heap f cb = (\<lambda>(h, s). Inr (h, f cb s))"

definition cbs_of :: "timer_store \<Rightarrow> (nat \<times> int) list \<Rightarrow> nat list" where
  "cbs_of st ts = List.map_filter (\<lambda>(a, e). cb_of st a) ts"

lemma cbs_of_simps [simp]:
  "cbs_of st [] = []"
  "cbs_of st ((a, e) # ts) = (case cb_of st a of None \<Rightarrow> cbs_of st ts | Some cb \<Rightarrow> cb # cbs_of st ts)"
  by (simp_all add: cbs_of_def List.map_filter_simps split: option.splits)

lemma tick_stop: "TimerHeap_empty h \<Longrightarrow> tick call cur (h, s) = Some (Inr (h, s))"
  by (simp add: tick.simps)

lemma tick_step:
  assumes "th_inv h" "th_nums h \<noteq> 0" "th_vec h ! 0 = Some a" "th_store h a = Some t"
  shows "tick call cur (h, s) =
    (if expire t > cur then Some (Inr (h, s))
     else case and_then (case timer_cb t of None \<Rightarrow> Inr (h, s) | Some cb \<Rightarrow> call cb (h, s))
            (\<lambda>(h, s). and_then (popTimer h) (\<lambda>h. Inr (h, s))) of
        Inl e \<Rightarrow> Some (Inl e) | Inr hs \<Rightarrow> tick call cur hs)"
proof -
  have "topTimer h = Inr (Some a)"
    using assms(1-3) by (auto simp: topTimer_def cell_def th_inv_def live_upto_def)
  then show ?thesis
    using assms(2,4) by (subst tick.simps) (simp add: TimerHeap_empty_def deref_timer_def)
qed

lemma tick_drains:
  assumes "th_inv h"
  shows "\<exists>h' ts. tick (leaves_heap f) cur (h, s) = Some (Inr (h', fold f (cbs_of (th_store h) ts) s)) \<and> tq.drains cur h ts h'"
  using assms
proof (induction h arbitrary: s rule: measure_induct_rule [of th_nums])
  case (less h)
  show ?case
  proof (cases "th_nums h = 0")
    case True
    then have "tq.drains cur h [] h"
      using less.prems by (intro tq.drains_stop) (simp flip: th_elems_empty_iff)
    moreover have "tick (leaves_heap f) cur (h, s) = Some (Inr (h, fold f (cbs_of (th_store h) []) s))"
      using True by (simp add: tick_stop TimerHeap_empty_def)
    ultimately show ?thesis by blast
  next
    case False
    from popTimer_correct_aux [OF less.prems False] obtain a t h' where
      p: "th_vec h ! 0 = Some a" "th_store h a = Some t" "popTimer h = Inr h'" "th_inv h'"
        "th_elems h = add_mset (a, expire t) (th_elems h')"
        "th_store h' = (th_store h)(a \<mapsto> t\<lparr>timer_index := -2\<rparr>)" "\<forall>x \<in># th_elems h. expire t \<le> snd x"
      by blast
    note step = tick_step [OF less.prems False p(1,2), of "leaves_heap f" cur s]
    show ?thesis
    proof (cases "expire t > cur")
      case True
      then have "tq.drains cur h [] h" using p(7) by (intro tq.drains_stop) fastforce
      moreover have "tick (leaves_heap f) cur (h, s) = Some (Inr (h, fold f (cbs_of (th_store h) []) s))"
        using True step by simp
      ultimately show ?thesis by blast
    next
      case le: False
      let ?s = "case timer_cb t of None \<Rightarrow> s | Some cb \<Rightarrow> f cb s"
      have "th_nums h' < th_nums h" using popTimer_nums [OF p(3)] False by simp
      from less.IH [OF this p(4), of ?s] obtain h'' ts where
        r: "tick (leaves_heap f) cur (h', ?s) = Some (Inr (h'', fold f (cbs_of (th_store h') ts) ?s))" "tq.drains cur h' ts h''"
        by blast
      have "cb_of (th_store h') = cb_of (th_store h)"
        using p(2,6) by (auto simp: cb_of_def fun_eq_iff)
      then have cb: "cbs_of (th_store h') ts = cbs_of (th_store h) ts" by (simp add: cbs_of_def)
      have "topTimer h = Inr (Some a)"
        using p(1) False less.prems by (auto simp: topTimer_def cell_def th_inv_def live_upto_def)
      then have "tq.drains cur h ((a, expire t) # ts) h''"
        using tq.drains_pop [OF _ p(3) p(5) p(4) p(7) _ r(2)] le by simp
      moreover have "tick (leaves_heap f) cur (h, s) = Some (Inr (h'', fold f (cbs_of (th_store h) ((a, expire t) # ts)) s))"
        using step le p(2,3) r(1) cb by (simp add: leaves_heap_def cb_of_def split: option.splits)
      ultimately show ?thesis by blast
    qed
  qed
qed

section \<open>Properties\<close>

text \<open>Two timers and a heap that holds them, for the witnesses.\<close>

definition sample_store :: timer_store where
  "sample_store = [1 \<mapsto> \<lparr>expire = 30, timer_cb = Some 11, timer_index = 0\<rparr>,
                   2 \<mapsto> \<lparr>expire = 20, timer_cb = Some 12, timer_index = -1\<rparr>]"

definition sample_heap :: TimerHeap where
  "sample_heap = \<lparr>th_vec = [Some 1, None], th_nums = 1, th_store = sample_store\<rparr>"

lemma th_inv_sample: "th_inv sample_heap"
  by (auto simp: th_inv_def sample_heap_def sample_store_def live_upto_def live_def heap_upto_def)

text \<open>
  Pushing a live timer that is not yet in a heap with room keeps the heap invariant, adds
  exactly that timer, and records in the timer the position it ended up at.
\<close>

theorem pushTimer_correct:
  assumes "th_inv h" and "th_nums h < length (th_vec h)" and "th_store h a = Some t"
    and "Some a \<notin> set (take (th_nums h) (th_vec h))"
  shows "\<exists>h' i. pushTimer (Some a) h = Inr h' \<and> th_inv h' \<and>
           th_elems h' = add_mset (a, expire t) (th_elems h) \<and>
           i < th_nums h' \<and> th_vec h' ! i = Some a \<and>
           th_store h' = (th_store h)(a \<mapsto> t\<lparr>timer_index := int i\<rparr>)"
  using pushTimer_correct_aux [OF assms] by blast

theorem pushTimer_correct_witness:
  "\<exists>h' i. pushTimer (Some 2) sample_heap = Inr h' \<and> th_inv h' \<and>
     th_elems h' = add_mset (2, 20) (th_elems sample_heap) \<and>
     i < th_nums h' \<and> th_vec h' ! i = Some 2 \<and>
     th_store h' = (th_store sample_heap)(2 \<mapsto> \<lparr>expire = 20, timer_cb = Some 12, timer_index = int i\<rparr>)"
  using pushTimer_correct [OF th_inv_sample, of 2 "\<lparr>expire = 20, timer_cb = Some 12, timer_index = -1\<rparr>"]
  by (simp add: sample_heap_def sample_store_def)

text \<open>
  The constructor fixes the length of the vector (64 by default) and \<open>pushTimer\<close> never
  grows it: on a full heap it counts the timer without storing it and then reads past the end.
\<close>

theorem pushTimer_full_out_of_bounds:
  assumes "th_inv h" and "th_nums h = length (th_vec h)" and "0 < th_nums h"
  shows "pushTimer (Some a) h = Inl Out_of_bounds"
proof -
  let ?n = "th_nums h"
  have p: "(?n - 1) div 2 < ?n" using assms(3) by linarith
  have "expire_at (th_store h) (th_vec h) ((?n - 1) div 2) = Inr (tkey (th_store h) (th_vec h ! ((?n - 1) div 2)))"
    using assms(1) p by (auto simp: th_inv_def intro: expire_at_live)
  moreover have "expire_at (th_store h) (th_vec h) ?n = Inl Out_of_bounds"
    using assms(2) by (simp add: expire_at_def cell_def)
  ultimately have "up_loop (th_store h) (th_vec h) ?n = Inl Out_of_bounds"
    using assms(3) by (simp add: up_loop.simps [of _ _ ?n] Let_def)
  then show ?thesis using assms(2) by (simp add: pushTimer_def Let_def)
qed

theorem pushTimer_full_out_of_bounds_witness:
  "pushTimer (Some 2) (sample_heap\<lparr>th_vec := [Some 1]\<rparr>) = Inl Out_of_bounds"
  by (rule pushTimer_full_out_of_bounds)
    (auto simp: th_inv_def sample_heap_def sample_store_def live_upto_def live_def heap_upto_def)

text \<open>
  \<open>popTimer\<close> on a non-empty heap removes the timer that \<open>topTimer\<close> shows, no timer
  of the heap expires earlier, the invariant is kept, and the removed timer is marked as fired
  (index -2).
\<close>

theorem popTimer_removes_least:
  assumes "th_inv h" and "th_nums h \<noteq> 0"
  shows "\<exists>a t h'. topTimer h = Inr (Some a) \<and> th_store h a = Some t \<and> popTimer h = Inr h' \<and>
           th_inv h' \<and> th_elems h = add_mset (a, expire t) (th_elems h') \<and>
           (\<forall>x \<in># th_elems h. expire t \<le> snd x) \<and>
           th_store h' = (th_store h)(a \<mapsto> t\<lparr>timer_index := -2\<rparr>)"
proof -
  have "0 < length (th_vec h)" using assms by (auto simp: th_inv_def live_upto_def)
  then have "topTimer h = Inr (th_vec h ! 0)" using assms(2) by (simp add: topTimer_def cell_def)
  with popTimer_correct_aux [OF assms] show ?thesis by fastforce
qed

theorem popTimer_removes_least_witness:
  "\<exists>a t h'. topTimer sample_heap = Inr (Some a) \<and> th_store sample_heap a = Some t \<and>
     popTimer sample_heap = Inr h' \<and> th_inv h' \<and>
     th_elems sample_heap = add_mset (a, expire t) (th_elems h') \<and>
     (\<forall>x \<in># th_elems sample_heap. expire t \<le> snd x) \<and>
     th_store h' = (th_store sample_heap)(a \<mapsto> t\<lparr>timer_index := -2\<rparr>)"
  by (rule popTimer_removes_least [OF th_inv_sample]) (simp add: sample_heap_def)

text \<open>
  C22. When the callbacks leave the heap alone, \<open>tick\<close> always returns; it takes out exactly the timers that are due,
  runs their callbacks in the order of their expiry times, each once, and leaves a heap in which every timer is
  still to come.
\<close>

theorem tick_runs_due_timers:
  assumes "th_inv h"
  shows "\<exists>h' ran ts. tick (leaves_heap f) cur (h, s) = Some (Inr (h', fold f ran s)) \<and> th_inv h' \<and>
           mset ts = filter_mset (\<lambda>x. snd x \<le> cur) (th_elems h) \<and>
           th_elems h = mset ts + th_elems h' \<and> (\<forall>x \<in># th_elems h'. cur < snd x) \<and>
           sorted (map snd ts) \<and> ran = List.map_filter (\<lambda>(a, e). cb_of (th_store h) a) ts"
proof -
  from tick_drains [OF assms, of f cur s] obtain h' ts where
    d: "tick (leaves_heap f) cur (h, s) = Some (Inr (h', fold f (cbs_of (th_store h) ts) s))" "tq.drains cur h ts h'" by blast
  with tq.drains_result [OF d(2) assms] tq.drains_ids_due [OF d(2) assms] show ?thesis unfolding cbs_of_def by blast
qed

theorem tick_runs_due_timers_witness:
  "\<exists>h' ran ts. tick (leaves_heap (\<lambda>cb log. log @ [cb])) 25 (sample_heap, []) = Some (Inr (h', ran)) \<and> th_inv h' \<and>
     mset ts = filter_mset (\<lambda>x. snd x \<le> 25) (th_elems sample_heap) \<and>
     th_elems sample_heap = mset ts + th_elems h' \<and> (\<forall>x \<in># th_elems h'. 25 < snd x) \<and>
     sorted (map snd ts) \<and> ran = List.map_filter (\<lambda>(a, e). cb_of (th_store sample_heap) a) ts"
proof -
  have "fold (\<lambda>cb log. log @ [cb]) ran log = log @ ran" for ran log :: "nat list"
    by (induction ran arbitrary: log) simp_all
  then show ?thesis using tick_runs_due_timers [OF th_inv_sample, of "\<lambda>cb log. log @ [cb]" 25 "[]"] by simp
qed

text \<open>
  Postponing a timer and sifting it down from its true position, as \<open>handleRead\<close> does
  on a keep-alive connection, keeps the heap invariant and the set of timers.
\<close>

theorem down_after_delay_correct:
  assumes "th_inv h" and "i < th_nums h" and "th_vec h ! i = Some a" and "th_store h a = Some t"
    and "expire t \<le> e"
  shows "\<exists>st h'. setExpire (Some a) e (th_store h) = Inr st \<and>
           TimerHeap_down i (h\<lparr>th_store := st\<rparr>) = Inr h' \<and> th_inv h' \<and>
           mset (take (th_nums h') (th_vec h')) = mset (take (th_nums h) (th_vec h)) \<and>
           th_store h' = (th_store h)(a \<mapsto> t\<lparr>expire := e\<rparr>)"
  using down_delay_aux [OF assms] assms(4) by (auto simp: setExpire_def deref_timer_def)

theorem down_after_delay_correct_witness:
  "\<exists>st h'. setExpire (Some 1) 60 (th_store sample_heap) = Inr st \<and>
     TimerHeap_down 0 (sample_heap\<lparr>th_store := st\<rparr>) = Inr h' \<and> th_inv h' \<and>
     mset (take (th_nums h') (th_vec h')) = mset (take (th_nums sample_heap) (th_vec sample_heap)) \<and>
     th_store h' = (th_store sample_heap)(1 \<mapsto> \<lparr>expire = 30, timer_cb = Some 11, timer_index = 0\<rparr>\<lparr>expire := 60\<rparr>)"
  by (rule down_after_delay_correct [OF th_inv_sample]) (simp_all add: sample_heap_def sample_store_def)

text \<open>
  The recorded position of a timer goes stale: a push that moves the new timer to the root
  does not tell the timer it displaced, so that timer still records position 0 although another
  timer is there, and a later \<open>down(getIndex())\<close> for it starts at the wrong cell.
\<close>

theorem pushTimer_leaves_index_stale:
  assumes "th_inv h" and "0 < th_nums h" and "th_nums h < length (th_vec h)"
    and "th_store h a = Some t" and "Some a \<notin> set (take (th_nums h) (th_vec h))"
    and "th_vec h ! 0 = Some b" and "th_store h b = Some tb" and "timer_index tb = 0"
    and "expire t < expire tb"
  shows "\<exists>h'. pushTimer (Some a) h = Inr h' \<and> th_vec h' ! 0 = Some a \<and> th_store h' b = Some tb"
proof -
  from pushTimer_correct_aux [OF assms(1,3,4,5)] obtain h' i where
    h': "pushTimer (Some a) h = Inr h'" "th_inv h'" "th_elems h' = add_mset (a, expire t) (th_elems h)"
      "th_nums h' = th_nums h + 1" "th_store h' = (th_store h)(a \<mapsto> t\<lparr>timer_index := int i\<rparr>)"
    by blast
  from popTimer_correct_aux [OF h'(2)] h'(4) obtain c tc h'' where
    c: "th_vec h' ! 0 = Some c" "th_store h' c = Some tc" "\<forall>x \<in># th_elems h'. expire tc \<le> snd x"
      "th_elems h' = add_mset (c, expire tc) (th_elems h'')"
    by auto
  have old: "expire tb \<le> snd x" if "x \<in># th_elems h" for x
    using popTimer_correct_aux [OF assms(1)] assms(2,6,7) that by auto
  have "c = a"
  proof (rule ccontr)
    assume "c \<noteq> a"
    with c(4) h'(3) have "(c, expire tc) \<in># th_elems h" by (metis insert_noteq_member prod.inject union_single_eq_member)
    from old [OF this] c(3) h'(3) assms(9) show False by simp
  qed
  moreover have "b \<noteq> a" using assms(4,7,9) by auto
  ultimately show ?thesis using h'(1,5) c(1) assms(7) by simp
qed

theorem pushTimer_leaves_index_stale_witness:
  "\<exists>h'. pushTimer (Some 2) sample_heap = Inr h' \<and> th_vec h' ! 0 = Some 2 \<and>
        th_store h' 1 = Some \<lparr>expire = 30, timer_cb = Some 11, timer_index = 0\<rparr>"
  by (rule pushTimer_leaves_index_stale
        [OF th_inv_sample, of 2 "\<lparr>expire = 20, timer_cb = Some 12, timer_index = -1\<rparr>"])
    (simp_all add: sample_heap_def sample_store_def)

end
