(* ===== verification/Http_Connection.thy ===== *)
theory Http_Connection
  imports Http_Server Epoll_Loop Timer_Heap
begin

text \<open>
  Connections: \<^verbatim>\<open>src/http_server/TcpConnection.cpp\<close>, \<^verbatim>\<open>HttpConnection.cpp\<close> and the callbacks
  \<open>AcceptCallback\<close> and \<open>onClose\<close> of \<^verbatim>\<open>HttpServer.cpp\<close>.  The state joins what the components share:
  the connections and the list that owns them, the epoll wrapper of their loop, the heap of timers
  with its lock, the file cache, and the bytes written to each descriptor.  What the system calls
  return (the length \<open>write\<close> reports, the bytes \<open>read\<close> delivers, the results of \<open>accept\<close>) is an
  argument.  \<open>None\<close> is a call that does not return: the lock of the timer heap is taken for ever, or
  the parser does not end.
\<close>

section \<open>State\<close>

definition HTTP_KEEPALIVE_TIME :: nat where "HTTP_KEEPALIVE_TIME = 30"

record HttpConnection = HttpConn +
  output_buffer :: Buffer
  hc_fd :: int
  hc_dispatcher :: nat
  hc_tim :: timer_ptr

record conn_world =
  cw_conns :: "nat \<rightharpoonup> HttpConnection"
  cw_list :: "nat list"
  cw_ep :: epoller
  cw_heap :: TimerHeap
  cw_locked :: bool
  cw_cache :: LRUCache
  cw_sent :: "int \<Rightarrow> char list"
  cw_next :: nat

definition conn_of :: "conn_world \<Rightarrow> nat \<Rightarrow> HttpConnection result" where
  "conn_of w c = (case cw_conns w c of None \<Rightarrow> Inl Use_after_free | Some k \<Rightarrow> Inr k)"

definition set_conn :: "nat \<Rightarrow> HttpConnection \<Rightarrow> conn_world \<Rightarrow> conn_world" where
  "set_conn c k w = w\<lparr>cw_conns := (cw_conns w)(c \<mapsto> k)\<rparr>"

definition put_bytes :: "int \<Rightarrow> char list \<Rightarrow> conn_world \<Rightarrow> conn_world" where
  "put_bytes fd bs w = w\<lparr>cw_sent := (cw_sent w)(fd := cw_sent w fd @ bs)\<rparr>"

text \<open>A computation that may not return, followed by one that may not either.\<close>

definition and_run :: "'a result option \<Rightarrow> ('a \<Rightarrow> 'b result option) \<Rightarrow> 'b result option" where
  "and_run r f = (case r of None \<Rightarrow> None | Some (Inl e) \<Rightarrow> Some (Inl e) | Some (Inr x) \<Rightarrow> f x)"

lemma and_run_simps [simp, res_simps]:
  "and_run None f = None" "and_run (Some (Inl e)) f = Some (Inl e)" "and_run (Some (Inr x)) f = f x"
  by (simp_all add: and_run_def)

section \<open>Accepting a connection\<close>

text \<open>\<open>accept\<close> is called again while it fails with \<open>EINTR\<close>; an element of the list is a result and
  whether \<open>errno\<close> was \<open>EINTR\<close>.\<close>

fun accept_loop :: "(int \<times> bool) list \<Rightarrow> int option" where
  "accept_loop [] = None"
| "accept_loop ((fd, eintr) # rs) = (if fd < 0 \<and> eintr then accept_loop rs else Some fd)"

definition HttpConnection_new :: "int \<Rightarrow> nat \<Rightarrow> HttpConnection" where
  "HttpConnection_new fd d =
     \<lparr>input_buffer = Buffer_new, hc_request = None, hc_reqstate = CHECK_REQUESTLINE,
      output_buffer = Buffer_new, hc_fd = fd, hc_dispatcher = d, hc_tim = None\<rparr>"

text \<open>The answer names the loop that will run \<open>connecionEstablished\<close> and the connection.\<close>

definition AcceptCallback ::
  "(int \<times> bool) list \<Rightarrow> eventloopThreadPool \<Rightarrow> conn_world \<Rightarrow> ((nat \<times> nat) option \<times> conn_world) result option" where
  "AcceptCallback accepts pool w =
     (case accept_loop accepts of
        None \<Rightarrow> None
      | Some fd \<Rightarrow>
          if 0 \<le> fd then
            Some (and_then (getLoop fd pool) (\<lambda>ioLoop.
              let d = cw_next w; c = d + 1;
                  ep = (cw_ep w)\<lparr>ep_store := (ep_store (cw_ep w))(d \<mapsto> dispatcher_new fd)\<rparr>;
                  w = w\<lparr>cw_conns := (cw_conns w)(c \<mapsto> HttpConnection_new fd d), cw_ep := ep,
                        cw_list := cw_list w @ [c], cw_next := c + 1\<rparr>
              in case ioLoop of None \<Rightarrow> Inl Null_deref | Some l \<Rightarrow> Inr (Some (l, c), w)))
          else Some (Inr (None, w)))"

definition connecionEstablished :: "nat \<Rightarrow> conn_world \<Rightarrow> conn_world result" where
  "connecionEstablished c w =
     and_then (conn_of w c) (\<lambda>k.
     and_then (enableReading (hc_dispatcher k) (cw_ep w)) (\<lambda>ep. Inr (w\<lparr>cw_ep := ep\<rparr>)))"

section \<open>Closing\<close>

text \<open>\<open>erase\<close> of the end iterator, when the connection is not in the list, is outside the list.\<close>

definition onClose :: "nat \<Rightarrow> conn_world \<Rightarrow> conn_world result" where
  "onClose c w =
     (if c \<in> set (cw_list w) then Inr (w\<lparr>cw_list := remove1 c (cw_list w)\<rparr>) else Inl Out_of_bounds)"

definition delete_timer :: "timer_ptr \<Rightarrow> TimerHeap \<Rightarrow> TimerHeap result" where
  "delete_timer p h =
     (case p of None \<Rightarrow> Inr h
      | Some a \<Rightarrow> and_then (deref_timer (th_store h) p) (\<lambda>_. Inr (h\<lparr>th_store := (th_store h)(a := None)\<rparr>)))"

text \<open>The destructors: the timer, the dispatcher and the socket go with the connection.\<close>

definition HttpConnection_destroy :: "nat \<Rightarrow> conn_world \<Rightarrow> conn_world result" where
  "HttpConnection_destroy c w =
     and_then (conn_of w c) (\<lambda>k.
     and_then (delete_timer (hc_tim k) (cw_heap w)) (\<lambda>h.
       Inr (w\<lparr>cw_conns := (cw_conns w)(c := None), cw_heap := h,
              cw_ep := (cw_ep w)\<lparr>ep_store := (ep_store (cw_ep w))(hc_dispatcher k := None),
                                 ep_kernel := (ep_kernel (cw_ep w))(hc_fd k := None)\<rparr>\<rparr>)))"

text \<open>When \<open>onClose\<close> has taken the connection off the list, the last reference goes with the
  argument of the callback, and the connection is destroyed.\<close>

definition handleClose :: "nat \<Rightarrow> conn_world \<Rightarrow> conn_world result" where
  "handleClose c w =
     and_then (conn_of w c) (\<lambda>k.
     and_then (removeDispatcher (Some (hc_dispatcher k)) (cw_ep w)) (\<lambda>ep.
     and_then (onClose c (w\<lparr>cw_ep := ep\<rparr>)) (HttpConnection_destroy c)))"

section \<open>Keeping a connection alive\<close>

definition request_closes :: "HttpConnection \<Rightarrow> (bool \<times> HttpConnection) result" where
  "request_closes k =
     and_then (getRequest k) (\<lambda>req.
       let (val, req) = getHeader ''Connection'' req in
       Inr (val = ''close'' \<or> rq_version req = HTTP10, setRequest req k))"

text \<open>A new timer that calls back the connection, unless it has one; \<open>pushTimer\<close> takes the lock.\<close>

definition keep_alive :: "int \<Rightarrow> nat \<Rightarrow> HttpConnection \<Rightarrow> conn_world \<Rightarrow> conn_world result option" where
  "keep_alive now c k w =
     (if hc_tim k = None then
        let a = cw_next w;
            tim = (Timer_new now HTTP_KEEPALIVE_TIME)\<lparr>timer_cb := Some c\<rparr>;
            h = (cw_heap w)\<lparr>th_store := (th_store (cw_heap w))(a \<mapsto> tim)\<rparr>
        in if cw_locked w then None
           else Some (and_then (pushTimer (Some a) h) (\<lambda>h.
                  Inr (set_conn c (k\<lparr>hc_tim := Some a\<rparr>) (w\<lparr>cw_heap := h, cw_next := a + 1\<rparr>))))
      else Some (Inr (set_conn c k w)))"

definition finish_reply :: "int \<Rightarrow> nat \<Rightarrow> HttpConnection \<Rightarrow> (conn_world \<Rightarrow> conn_world result) \<Rightarrow> conn_world \<Rightarrow> conn_world result option" where
  "finish_reply now c k alive w =
     (case request_closes k of
        Inl e \<Rightarrow> Some (Inl e)
      | Inr (closing, k) \<Rightarrow>
          if closing then Some (handleClose c (set_conn c k w))
          else and_run (Some (alive w)) (keep_alive now c k))"

section \<open>Sending\<close>

definition conn_send :: "int \<Rightarrow> (nat \<Rightarrow> char) \<Rightarrow> int \<Rightarrow> Buffer \<Rightarrow> nat \<Rightarrow> conn_world \<Rightarrow> conn_world result option" where
  "conn_send now junk len buf c w =
     (case conn_of w c of
        Inl e \<Rightarrow> Some (Inl e)
      | Inr k \<Rightarrow>
          let w = put_bytes (hc_fd k) (take (nat len) (buf_data buf)) w in
          if len < dataLen buf then
            Some (and_then (enableWriting (hc_dispatcher k) (cw_ep w)) (\<lambda>ep.
                  and_then (mem_read (vec_mem buf) (low buf + len) (high buf)) (\<lambda>rest.
                  and_then (Buffer_append junk rest (output_buffer k)) (\<lambda>ob.
                    Inr (set_conn c (k\<lparr>output_buffer := ob\<rparr>) (w\<lparr>cw_ep := ep\<rparr>))))))
          else finish_reply now c k (\<lambda>w. Inr w) w)"

definition handleWrite :: "int \<Rightarrow> int \<Rightarrow> nat \<Rightarrow> conn_world \<Rightarrow> conn_world result option" where
  "handleWrite now len c w =
     (case conn_of w c of
        Inl e \<Rightarrow> Some (Inl e)
      | Inr k \<Rightarrow>
          let w = put_bytes (hc_fd k) (take (nat len) (buf_data (output_buffer k))) w in
          if len = dataLen (output_buffer k) then
            finish_reply now c k
              (\<lambda>w. and_then (disableWriting (hc_dispatcher k) (cw_ep w)) (\<lambda>ep. Inr (w\<lparr>cw_ep := ep\<rparr>))) w
          else Some (Inr (set_conn c (k\<lparr>output_buffer := snd (moveLow (to_size_t len) (output_buffer k))\<rparr>) w)))"

section \<open>Receiving\<close>

text \<open>Under the lock of the heap: a timer that has fired ends the handler, without the unlock; a
  timer in the heap is postponed.\<close>

definition delay_timer :: "int \<Rightarrow> HttpConnection \<Rightarrow> TimerHeap \<Rightarrow> TimerHeap option result" where
  "delay_timer now k h =
     (case hc_tim k of
        None \<Rightarrow> Inr (Some h)
      | Some a \<Rightarrow>
          and_then (deref_timer (th_store h) (Some a)) (\<lambda>t.
            if timer_index t = -2 then Inr None
            else if 0 \<le> timer_index t then
              and_then (setExpire (Some a) (now + int HTTP_KEEPALIVE_TIME) (th_store h)) (\<lambda>st.
              and_then (TimerHeap_down (nat (timer_index t)) (h\<lparr>th_store := st\<rparr>)) (\<lambda>h. Inr (Some h)))
            else Inr (Some h)))"

text \<open>The message callback: the parts of the reply of \<open>onMessage\<close> are appended to a new buffer, which is sent.\<close>

fun append_parts :: "(nat \<Rightarrow> char) \<Rightarrow> string list \<Rightarrow> Buffer \<Rightarrow> Buffer result" where
  "append_parts junk [] buf = Inr buf"
| "append_parts junk (s # ss) buf = and_then (Buffer_append junk s buf) (append_parts junk ss)"

definition message_cb ::
  "server_env \<Rightarrow> 's php_env \<Rightarrow> (nat \<Rightarrow> char) \<Rightarrow> (Buffer \<Rightarrow> int) \<Rightarrow> int \<Rightarrow> nat \<Rightarrow> conn_world \<Rightarrow> conn_world result option" where
  "message_cb env penv junk wr t c w =
     (case conn_of w c of
        Inl e \<Rightarrow> Some (Inl e)
      | Inr k \<Rightarrow>
          and_run (onMessage env penv t k (cw_cache w))
            (\<lambda>(reply, k, cache).
              let w = (set_conn c k w)\<lparr>cw_cache := cache\<rparr> in
              case reply of
                None \<Rightarrow> Some (Inr w)
              | Some parts \<Rightarrow>
                  and_run (Some (append_parts junk parts Buffer_new)) (\<lambda>buf.
                    conn_send (env_now env) junk (wr buf) buf c w)))"

definition handleRead ::
  "server_env \<Rightarrow> 's php_env \<Rightarrow> (nat \<Rightarrow> char) \<Rightarrow> (Buffer \<Rightarrow> int) \<Rightarrow> int \<Rightarrow> char list option \<Rightarrow> nat \<Rightarrow> conn_world \<Rightarrow> conn_world result option" where
  "handleRead env penv junk wr t rd c w =
     (case conn_of w c of
        Inl e \<Rightarrow> Some (Inl e)
      | Inr k \<Rightarrow>
          if cw_locked w then None
          else
            and_run (Some (delay_timer (env_now env) k (cw_heap w))) (\<lambda>delayed.
              case delayed of
                None \<Rightarrow> Some (Inr (w\<lparr>cw_locked := True\<rparr>))
              | Some h \<Rightarrow>
                  and_run (Some (Buffer_readv junk rd (input_buffer k))) (\<lambda>(n, ib).
                    let w = set_conn c (k\<lparr>input_buffer := ib\<rparr>) (w\<lparr>cw_heap := h\<rparr>) in
                    if 0 < n then message_cb env penv junk wr t c w else Some (Inr w))))"

text \<open>
  \<open>handleTimerCb\<close>, called by thread \<open>tid\<close>, hands \<open>handleClose\<close> to the loop of the connection, which depends on its
  descriptor; \<open>threadId_of\<close> is the thread of that loop, \<open>qs\<close> are the queues of the loops.  The connection is
  captured as a raw pointer.
\<close>

definition handleTimerCb ::
  "nat \<Rightarrow> (int \<Rightarrow> nat) \<Rightarrow> nat \<Rightarrow> conn_world \<times> (nat \<Rightarrow> nat loop_queue) \<Rightarrow> (conn_world \<times> (nat \<Rightarrow> nat loop_queue)) result" where
  "handleTimerCb tid threadId_of c = (\<lambda>(w, qs).
     and_then (conn_of w c) (\<lambda>k.
       let l = threadId_of (hc_fd k) in
       and_then (runInLoop tid l handleClose c (w, qs l)) (\<lambda>(w, q). Inr (w, qs(l := q)))))"

section \<open>Connections in order\<close>

text \<open>
  The connection is owned by the list and registered or registrable with its loop; the heap of
  timers is in order, unlocked and has room; the connection's timer is alive.
\<close>

definition conn_ok :: "nat \<Rightarrow> HttpConnection \<Rightarrow> conn_world \<Rightarrow> bool" where
  "conn_ok c k w \<longleftrightarrow>
     cw_conns w c = Some k \<and> c \<in> set (cw_list w) \<and> \<not> cw_locked w \<and>
     ep_inv (cw_ep w) \<and> (\<exists>d. registrable (cw_ep w) (hc_dispatcher k) d \<and> d_fd d = hc_fd k) \<and>
     th_inv (cw_heap w) \<and> th_nums (cw_heap w) < length (th_vec (cw_heap w)) \<and>
     th_store (cw_heap w) (cw_next w) = None \<and>
     (\<forall>a. hc_tim k = Some a \<longrightarrow> th_store (cw_heap w) a \<noteq> None) \<and> alloc_buffer (output_buffer k)"

lemma enable_registrable:
  assumes "ep_inv ep" "registrable ep p d"
  shows "\<exists>ep' d'. enable m p ep = Inr ep' \<and> ep_inv ep' \<and> registrable ep' p d' \<and> d_fd d' = d_fd d"
    and "\<exists>ep' d'. disable m p ep = Inr ep' \<and> ep_inv ep' \<and> registrable ep' p d' \<and> d_fd d' = d_fd d"
proof -
  have "\<exists>d'. registrable ep' p d' \<and> d_fd d' = d_fd d"
    if "ep_inv ep'" "dispatcher_map ep' = (dispatcher_map ep)(d_fd d \<mapsto> p)" for ep'
    using ep_invD(2) [OF that(1), of "d_fd d" p] that(2) by (auto simp: registrable_def)
  then show "\<exists>ep' d'. enable m p ep = Inr ep' \<and> ep_inv ep' \<and> registrable ep' p d' \<and> d_fd d' = d_fd d"
    and "\<exists>ep' d'. disable m p ep = Inr ep' \<and> ep_inv ep' \<and> registrable ep' p d' \<and> d_fd d' = d_fd d"
    using enable_eq [OF assms, of m] by blast+
qed

lemma live_in_heap: "th_inv h \<Longrightarrow> th_store h a = None \<Longrightarrow> Some a \<notin> set (take (th_nums h) (th_vec h))"
proof
  assume inv: "th_inv h" and none: "th_store h a = None" and "Some a \<in> set (take (th_nums h) (th_vec h))"
  then obtain i where "i < th_nums h" "i < length (th_vec h)" "th_vec h ! i = Some a"
    by (auto simp: in_set_conv_nth)
  then show False using inv none by (auto simp: th_inv_def live_upto_def live_def)
qed

text \<open>A timer that is not yet in the heap may be put into the store.\<close>

lemma th_inv_store_fresh:
  assumes "th_inv h" "th_store h a = None"
  shows "th_inv (h\<lparr>th_store := (th_store h)(a \<mapsto> t)\<rparr>)"
proof -
  have ne: "th_vec h ! i \<noteq> Some a" if "i < th_nums h" for i
    using assms that by (auto simp: th_inv_def live_upto_def live_def)
  have "tkey ((th_store h)(a \<mapsto> t)) (th_vec h ! i) = tkey (th_store h) (th_vec h ! i)" if "i < th_nums h" for i
    using ne [OF that] by (cases "th_vec h ! i") (auto simp: tkey_def)
  then have "heap_upto (tkey ((th_store h)(a \<mapsto> t))) (th_vec h) (th_nums h) = heap_upto (tkey (th_store h)) (th_vec h) (th_nums h)"
    by (auto simp: heap_upto_def)
  then show ?thesis using assms live_upto_upd by (auto simp: th_inv_def)
qed

lemma keep_alive_ok:
  assumes "conn_ok c k w"
  shows "\<exists>w'. keep_alive now c k w = Some (Inr w') \<and> cw_sent w' = cw_sent w \<and> cw_ep w' = cw_ep w \<and>
    cw_list w' = cw_list w \<and> cw_cache w' = cw_cache w \<and> (\<exists>k'. cw_conns w' c = Some k' \<and> hc_tim k' \<noteq> None \<and>
      output_buffer k' = output_buffer k \<and> hc_fd k' = hc_fd k)"
proof (cases "hc_tim k")
  case None
  let ?a = "cw_next w" and ?tim = "(Timer_new now HTTP_KEEPALIVE_TIME)\<lparr>timer_cb := Some c\<rparr>"
  let ?h = "(cw_heap w)\<lparr>th_store := (th_store (cw_heap w))(?a \<mapsto> ?tim)\<rparr>"
  have inv: "th_inv ?h" using assms by (intro th_inv_store_fresh) (auto simp: conn_ok_def)
  have "Some ?a \<notin> set (take (th_nums (cw_heap w)) (th_vec (cw_heap w)))"
    using assms by (intro live_in_heap) (auto simp: conn_ok_def)
  then obtain h' where "pushTimer (Some ?a) ?h = Inr h'"
    using pushTimer_correct_aux [OF inv, of ?a ?tim] assms by (auto simp: conn_ok_def)
  then show ?thesis using None assms by (simp add: keep_alive_def conn_ok_def set_conn_def Let_def)
next
  case (Some a)
  then show ?thesis by (simp add: keep_alive_def set_conn_def)
qed

lemma handleClose_ok:
  assumes "conn_ok c k w"
  shows "\<exists>w'. handleClose c w = Inr w' \<and> cw_sent w' = cw_sent w \<and> cw_conns w' c = None \<and>
    cw_list w' = remove1 c (cw_list w) \<and> cw_cache w' = cw_cache w \<and>
    cw_heap w' = (case hc_tim k of None \<Rightarrow> cw_heap w
                  | Some a \<Rightarrow> (cw_heap w)\<lparr>th_store := (th_store (cw_heap w))(a := None)\<rparr>)"
proof -
  obtain d where d: "registrable (cw_ep w) (hc_dispatcher k) d" using assms by (auto simp: conn_ok_def)
  obtain ep where ep: "removeDispatcher (Some (hc_dispatcher k)) (cw_ep w) = Inr ep"
    using delDispatcher_correct [OF _ d] assms by (auto simp: removeDispatcher_def conn_ok_def)
  show ?thesis
  proof (cases "hc_tim k")
    case None
    then show ?thesis using assms ep
      by (simp add: handleClose_def conn_of_def onClose_def HttpConnection_destroy_def delete_timer_def conn_ok_def)
  next
    case (Some a)
    then obtain t where "th_store (cw_heap w) a = Some t" using assms by (auto simp: conn_ok_def)
    then show ?thesis using assms ep Some
      by (simp add: handleClose_def conn_of_def onClose_def HttpConnection_destroy_def delete_timer_def conn_ok_def
          deref_timer_def)
  qed
qed

lemma conn_ok_request: "conn_ok c k w \<Longrightarrow> conn_ok c (setRequest r k) (set_conn c (setRequest r k) w)"
  by (auto simp: conn_ok_def setRequest_def set_conn_def)

text \<open>Whether the request of a connection asks to close it.\<close>

definition closing :: "HttpRequest \<Rightarrow> bool" where
  "closing r \<longleftrightarrow> fst (getHeader ''Connection'' r) = ''close'' \<or> rq_version r = HTTP10"

lemma getHeader_version: "rq_version (snd (getHeader key r)) = rq_version r"
  by (auto simp: getHeader_def split: option.splits prod.splits)

lemma request_closes_eq:
  "hc_request k = Some r \<Longrightarrow>
     request_closes k = Inr (closing r, setRequest (snd (getHeader ''Connection'' r)) k)"
  using getHeader_version [of "''Connection''" r]
  by (cases "getHeader ''Connection'' r") (simp add: request_closes_def getRequest_def closing_def)

lemma set_conn_twice [simp]: "set_conn c k (set_conn c k' w) = set_conn c k w"
  by (simp add: set_conn_def)

lemma conn_ok_same: "conn_ok c k w \<Longrightarrow> set_conn c k w = w"
  by (simp add: conn_ok_def set_conn_def fun_upd_idem)

lemma finish_reply_ok:
  assumes ok: "conn_ok c k w" and r: "hc_request k = Some r"
    and al: "\<And>w. alive w = (case f (cw_ep w) of Inl e \<Rightarrow> Inl e | Inr ep \<Rightarrow> Inr (w\<lparr>cw_ep := ep\<rparr>))"
    and f: "\<exists>ep d. f (cw_ep w) = Inr ep \<and> ep_inv ep \<and> registrable ep (hc_dispatcher k) d \<and> d_fd d = hc_fd k"
  shows "\<exists>w'. finish_reply now c k alive w = Some (Inr w') \<and> cw_sent w' = cw_sent w \<and> cw_cache w' = cw_cache w \<and>
    (closing r \<longrightarrow> cw_conns w' c = None \<and> cw_list w' = remove1 c (cw_list w)) \<and>
    (\<not> closing r \<longrightarrow> (\<exists>k'. cw_conns w' c = Some k' \<and> hc_tim k' \<noteq> None \<and> output_buffer k' = output_buffer k \<and> hc_fd k' = hc_fd k))"
proof -
  let ?k = "setRequest (snd (getHeader ''Connection'' r)) k"
  have ok': "conn_ok c ?k (set_conn c ?k w)" using ok by (rule conn_ok_request)
  show ?thesis
  proof (cases "closing r")
    case True
    obtain w' where "handleClose c (set_conn c ?k w) = Inr w'" "cw_sent w' = cw_sent w" "cw_conns w' c = None"
        "cw_list w' = remove1 c (cw_list w)" "cw_cache w' = cw_cache w"
      using handleClose_ok [OF ok'] by (auto simp: set_conn_def)
    then show ?thesis using True request_closes_eq [OF r] by (simp add: finish_reply_def)
  next
    case False
    obtain ep d where ep: "f (cw_ep w) = Inr ep" "ep_inv ep" "registrable ep (hc_dispatcher k) d" "d_fd d = hc_fd k"
      using f by blast
    let ?w = "w\<lparr>cw_ep := ep\<rparr>"
    have "conn_ok c ?k (set_conn c ?k ?w)"
      using ok' ep by (auto simp: conn_ok_def set_conn_def setRequest_def)
    from keep_alive_ok [OF this, of now] obtain w' k' where
      w': "keep_alive now c ?k (set_conn c ?k ?w) = Some (Inr w')" "cw_sent w' = cw_sent w" "cw_cache w' = cw_cache w"
        "cw_conns w' c = Some k'" "hc_tim k' \<noteq> None" "output_buffer k' = output_buffer k" "hc_fd k' = hc_fd k"
      by (auto simp: set_conn_def setRequest_def)
    have "keep_alive now c ?k (set_conn c ?k ?w) = keep_alive now c ?k ?w"
      by (auto simp: keep_alive_def set_conn_def Let_def)
    then have "keep_alive now c ?k ?w = Some (Inr w')" using w'(1) by simp
    then show ?thesis using False request_closes_eq [OF r] ep(1) w'(2-7) by (simp add: finish_reply_def al)
  qed
qed

lemma finish_reply_plain:
  assumes "conn_ok c k w" "hc_request k = Some r"
  shows "\<exists>w'. finish_reply now c k (\<lambda>w. Inr w) w = Some (Inr w') \<and> cw_sent w' = cw_sent w \<and> cw_cache w' = cw_cache w \<and>
    (closing r \<longrightarrow> cw_conns w' c = None \<and> cw_list w' = remove1 c (cw_list w)) \<and>
    (\<not> closing r \<longrightarrow> (\<exists>k'. cw_conns w' c = Some k' \<and> hc_tim k' \<noteq> None \<and> output_buffer k' = output_buffer k \<and> hc_fd k' = hc_fd k))"
  by (rule finish_reply_ok [OF assms, where f = Inr]) (use assms(1) in \<open>auto simp: conn_ok_def\<close>)

lemma put_bytes_simps [simp]:
  "cw_conns (put_bytes fd bs w) = cw_conns w" "cw_list (put_bytes fd bs w) = cw_list w"
  "cw_ep (put_bytes fd bs w) = cw_ep w" "cw_heap (put_bytes fd bs w) = cw_heap w"
  "cw_cache (put_bytes fd bs w) = cw_cache w"
  "cw_sent (put_bytes fd bs w) = (cw_sent w)(fd := cw_sent w fd @ bs)"
  by (simp_all add: put_bytes_def)

lemma conn_ok_put [simp]: "conn_ok c k (put_bytes fd bs w) = conn_ok c k w"
  by (simp add: conn_ok_def put_bytes_def)

lemma append_new:
  assumes "4096 + 2 * length xs < 2 ^ 31"
  shows "\<exists>b. Buffer_append junk xs Buffer_new = Inr b \<and> alloc_buffer b \<and> buf_data b = xs"
proof (cases "length xs \<le> 4096")
  case True
  have "int (length xs) \<le> writeLen Buffer_new" using True writeLen_eq [OF wf_Buffer_new] by (simp add: Buffer_new_def)
  from append_fits [OF wf_Buffer_new this, of junk] show ?thesis by (auto simp: buf_data_new intro: wf_alloc_buffer)
next
  case False
  have "freeLen Buffer_new < int (length xs)" using False freeLen_eq [OF wf_Buffer_new] by (simp add: Buffer_new_def)
  moreover have "capcity Buffer_new + 2 * length xs < 2 ^ 31" using assms by (simp add: capcity_def Buffer_new_def)
  ultimately show ?thesis using append_grows [OF wf_Buffer_new, of xs junk] by (auto simp: buf_data_new)
qed

text \<open>A write of the whole message.\<close>

lemma send_whole:
  assumes ok: "conn_ok c k w" and r: "hc_request k = Some r" and b: "alloc_buffer buf"
  shows "\<exists>w'. conn_send now junk (int (length (buf_data buf))) buf c w = Some (Inr w') \<and>
    cw_sent w' = (cw_sent w)(hc_fd k := cw_sent w (hc_fd k) @ buf_data buf) \<and> cw_cache w' = cw_cache w \<and>
    (closing r \<longrightarrow> cw_conns w' c = None \<and> cw_list w' = remove1 c (cw_list w)) \<and>
    (\<not> closing r \<longrightarrow> (\<exists>k'. cw_conns w' c = Some k' \<and> hc_tim k' \<noteq> None \<and> output_buffer k' = output_buffer k))"
proof -
  let ?w = "put_bytes (hc_fd k) (buf_data buf) w"
  have "conn_ok c k ?w" using ok by simp
  from finish_reply_plain [OF this r, of now] obtain w' where w': "finish_reply now c k (\<lambda>w. Inr w) ?w = Some (Inr w')"
      "cw_sent w' = cw_sent ?w" "cw_cache w' = cw_cache ?w"
      "closing r \<longrightarrow> cw_conns w' c = None \<and> cw_list w' = remove1 c (cw_list w)"
      "\<not> closing r \<longrightarrow> (\<exists>k'. cw_conns w' c = Some k' \<and> hc_tim k' \<noteq> None \<and> output_buffer k' = output_buffer k \<and> hc_fd k' = hc_fd k)"
    by (auto simp: put_bytes_def)
  have "cw_conns w c = Some k" using ok by (simp add: conn_ok_def)
  then have "conn_send now junk (int (length (buf_data buf))) buf c w = finish_reply now c k (\<lambda>w. Inr w) ?w"
    using dataLen_eq [OF b] by (simp add: conn_send_def conn_of_def Let_def)
  then show ?thesis using w' by (auto simp: put_bytes_def)
qed

text \<open>A write of a part: the rest waits in the output buffer.\<close>

lemma send_part:
  assumes ok: "conn_ok c k w" and new: "output_buffer k = Buffer_new" and b: "alloc_buffer buf"
    and l: "l < length (buf_data buf)" and n: "4096 + 2 * length (buf_data buf) < 2 ^ 31"
  shows "\<exists>w' k'. conn_send now junk (int l) buf c w = Some (Inr w') \<and> conn_ok c k' w' \<and>
    cw_sent w' = (cw_sent w)(hc_fd k := cw_sent w (hc_fd k) @ take l (buf_data buf)) \<and>
    hc_fd k' = hc_fd k \<and> hc_request k' = hc_request k \<and> buf_data (output_buffer k') = drop l (buf_data buf)"
proof -
  have k: "cw_conns w c = Some k" using ok by (simp add: conn_ok_def)
  obtain d where d: "registrable (cw_ep w) (hc_dispatcher k) d" "d_fd d = hc_fd k" using ok by (auto simp: conn_ok_def)
  obtain ep d' where ep: "enableWriting (hc_dispatcher k) (cw_ep w) = Inr ep" "ep_inv ep"
      "registrable ep (hc_dispatcher k) d'" "d_fd d' = hc_fd k"
    using enable_registrable(1) [OF _ d(1), of EPOLLOUT] ok d(2) by (auto simp: enableWriting_def conn_ok_def)
  have h: "high buf = low buf + int (length (buf_data buf))" using length_buf_data [OF b] by simp
  have "mem_read (vec_mem buf) (low buf + int l) (high buf) = Inr (drop l (buf_data buf))"
    unfolding h using mem_read_data [OF b, of l "length (buf_data buf)"] l by simp
  moreover obtain ob where ob: "Buffer_append junk (drop l (buf_data buf)) (output_buffer k) = Inr ob" "alloc_buffer ob"
      "buf_data ob = drop l (buf_data buf)"
    using append_new [of "drop l (buf_data buf)" junk] n new by fastforce
  moreover have "int l < dataLen buf" using dataLen_eq [OF b] l by simp
  ultimately have "conn_send now junk (int l) buf c w = Some (Inr (set_conn c (k\<lparr>output_buffer := ob\<rparr>)
      ((put_bytes (hc_fd k) (take l (buf_data buf)) w)\<lparr>cw_ep := ep\<rparr>)))"
    using k ep(1) by (simp add: conn_send_def conn_of_def put_bytes_def Let_def)
  moreover have "conn_ok c (k\<lparr>output_buffer := ob\<rparr>) (set_conn c (k\<lparr>output_buffer := ob\<rparr>)
      ((put_bytes (hc_fd k) (take l (buf_data buf)) w)\<lparr>cw_ep := ep\<rparr>))"
    using ok ep ob(2) by (auto simp: conn_ok_def set_conn_def put_bytes_def)
  ultimately show ?thesis using ob(3) by (auto simp: set_conn_def put_bytes_def)
qed

lemma write_part:
  assumes ok: "conn_ok c k w" and l: "l < length (buf_data (output_buffer k))"
  shows "\<exists>w' k'. handleWrite now (int l) c w = Some (Inr w') \<and> conn_ok c k' w' \<and>
    cw_sent w' = (cw_sent w)(hc_fd k := cw_sent w (hc_fd k) @ take l (buf_data (output_buffer k))) \<and>
    hc_fd k' = hc_fd k \<and> hc_request k' = hc_request k \<and> buf_data (output_buffer k') = drop l (buf_data (output_buffer k))"
proof -
  have k: "cw_conns w c = Some k" and b: "alloc_buffer (output_buffer k)" using ok by (auto simp: conn_ok_def)
  have "length (buf_data (output_buffer k)) < 2 ^ 31" using length_buf_data_bound [OF b] .
  then have t: "to_size_t (int l) = l" using l by (simp add: to_size_t_id)
  obtain b' where b': "moveLow l (output_buffer k) = (True, b')" "alloc_buffer b'"
      "buf_data b' = drop l (buf_data (output_buffer k))"
    using moveLow_data [OF b, of l] l by auto
  have "handleWrite now (int l) c w = Some (Inr (set_conn c (k\<lparr>output_buffer := b'\<rparr>)
      (put_bytes (hc_fd k) (take l (buf_data (output_buffer k))) w)))"
    using k l t b'(1) dataLen_eq [OF b] by (simp add: handleWrite_def conn_of_def Let_def)
  moreover have "conn_ok c (k\<lparr>output_buffer := b'\<rparr>) (set_conn c (k\<lparr>output_buffer := b'\<rparr>)
      (put_bytes (hc_fd k) (take l (buf_data (output_buffer k))) w))"
    using ok b'(2) by (auto simp: conn_ok_def set_conn_def put_bytes_def)
  ultimately show ?thesis using b'(3) by (auto simp: set_conn_def put_bytes_def)
qed

lemma write_rest:
  assumes ok: "conn_ok c k w" and r: "hc_request k = Some r"
  shows "\<exists>w'. handleWrite now (int (length (buf_data (output_buffer k)))) c w = Some (Inr w') \<and>
    cw_sent w' = (cw_sent w)(hc_fd k := cw_sent w (hc_fd k) @ buf_data (output_buffer k)) \<and>
    (closing r \<longrightarrow> cw_conns w' c = None) \<and>
    (\<not> closing r \<longrightarrow> (\<exists>k'. cw_conns w' c = Some k' \<and> output_buffer k' = output_buffer k \<and> hc_fd k' = hc_fd k))"
proof -
  let ?w = "put_bytes (hc_fd k) (buf_data (output_buffer k)) w"
  let ?alive = "\<lambda>w. and_then (disableWriting (hc_dispatcher k) (cw_ep w)) (\<lambda>ep. Inr (w\<lparr>cw_ep := ep\<rparr>))"
  have k: "cw_conns w c = Some k" and b: "alloc_buffer (output_buffer k)" using ok by (auto simp: conn_ok_def)
  obtain d where d: "registrable (cw_ep w) (hc_dispatcher k) d" "d_fd d = hc_fd k" using ok by (auto simp: conn_ok_def)
  have "conn_ok c k ?w" using ok by simp
  from finish_reply_ok [OF this r, of ?alive "disableWriting (hc_dispatcher k)" now]
  obtain w' where w': "finish_reply now c k ?alive ?w = Some (Inr w')" "cw_sent w' = cw_sent ?w"
      "closing r \<longrightarrow> cw_conns w' c = None"
      "\<not> closing r \<longrightarrow> (\<exists>k'. cw_conns w' c = Some k' \<and> output_buffer k' = output_buffer k \<and> hc_fd k' = hc_fd k)"
    using enable_registrable(2) [OF _ d(1), of EPOLLOUT] ok d(2)
    by (auto simp: disableWriting_def conn_ok_def put_bytes_def and_then_def split: if_splits)
  then show ?thesis using k dataLen_eq [OF b]
    by (auto simp: handleWrite_def conn_of_def Let_def put_bytes_def)
qed


text \<open>Writes of the loop after a partial write, with the lengths the system reported.\<close>

fun write_all :: "int \<Rightarrow> nat list \<Rightarrow> nat \<Rightarrow> conn_world \<Rightarrow> conn_world result option" where
  "write_all now [] c w = Some (Inr w)"
| "write_all now (l # ls) c w = and_run (handleWrite now (int l) c w) (write_all now ls c)"

lemma write_parts:
  assumes "conn_ok c k w" "sum_list ls < length (buf_data (output_buffer k))"
  shows "\<exists>w' k'. write_all now ls c w = Some (Inr w') \<and> conn_ok c k' w' \<and>
    cw_sent w' = (cw_sent w)(hc_fd k := cw_sent w (hc_fd k) @ take (sum_list ls) (buf_data (output_buffer k))) \<and>
    hc_fd k' = hc_fd k \<and> hc_request k' = hc_request k \<and>
    buf_data (output_buffer k') = drop (sum_list ls) (buf_data (output_buffer k))"
  using assms
proof (induction ls arbitrary: w k)
  case Nil
  then show ?case by auto
next
  case (Cons l ls)
  then have "l < length (buf_data (output_buffer k))" by simp
  from write_part [OF Cons.prems(1) this, of now] obtain w1 k1 where
    w1: "handleWrite now (int l) c w = Some (Inr w1)" "conn_ok c k1 w1"
      "cw_sent w1 = (cw_sent w)(hc_fd k := cw_sent w (hc_fd k) @ take l (buf_data (output_buffer k)))"
      "hc_fd k1 = hc_fd k" "hc_request k1 = hc_request k" "buf_data (output_buffer k1) = drop l (buf_data (output_buffer k))"
    by blast
  have "sum_list ls < length (buf_data (output_buffer k1))" using Cons.prems(2) w1(6) by simp
  from Cons.IH [OF w1(2) this] obtain w' k' where
    w': "write_all now ls c w1 = Some (Inr w')" "conn_ok c k' w'"
      "cw_sent w' = (cw_sent w1)(hc_fd k1 := cw_sent w1 (hc_fd k1) @ take (sum_list ls) (buf_data (output_buffer k1)))"
      "hc_fd k' = hc_fd k1" "hc_request k' = hc_request k1"
      "buf_data (output_buffer k') = drop (sum_list ls) (buf_data (output_buffer k1))"
    by blast
  show ?case
    using w1 w' by (intro exI [of _ w'] exI [of _ k']) (simp add: take_add add.commute)
qed

section \<open>The parser leaves the rest of the connection alone\<close>

text \<open>It only moves the start of the buffered input.\<close>

definition kept :: "'a HttpConn_scheme \<Rightarrow> 'a \<times> char list \<times> nat \<times> int" where
  "kept c = (HttpConn.more c, vec_mem (input_buffer c), vec_size (input_buffer c), high (input_buffer c))"

lemma setter_kept:
  "kept (setRequest r c) = kept c" "kept (setReqstate st c) = kept c" "kept (consume_input n c) = kept c"
  by (simp_all add: kept_def setRequest_def setReqstate_def consume_input_def moveLow_def)

lemma parseRequestLine_kept: "parseRequestLine c = Inr (ok, c') \<Longrightarrow> kept c' = kept c"
  unfolding parseRequestLine_def Let_def and_then_eq_Inr_conv
  by (auto simp: setter_kept and_then_eq_Inr_conv split: if_splits option.splits prod.splits)

lemma parseHeaderLine_kept: "parseHeaderLine c = Inr (ok, c') \<Longrightarrow> kept c' = kept c"
  unfolding parseHeaderLine_def Let_def and_then_eq_Inr_conv
  by (auto simp: setter_kept and_then_eq_Inr_conv split: if_splits)

lemma parseContent_kept: "parseContent c = Inr (ok, c') \<Longrightarrow> kept c' = kept c"
  unfolding parseContent_def Let_def and_then_eq_Inr_conv
  by (auto simp: setter_kept and_then_eq_Inr_conv split: if_splits prod.splits)

lemma parse_step_kept: "parse_step c = Inr (ok, c') \<Longrightarrow> kept c' = kept c"
  by (auto simp: parse_step_def dest: parseRequestLine_kept parseHeaderLine_kept parseContent_kept
      split: req_check_state.splits)

lemma parse_loop_kept:
  assumes "parse_loop c flag = Some r"
  shows "\<forall>out c'. r = Inr (out, c') \<longrightarrow> kept c' = kept c"
proof (rule parse_loop.raw_induct [OF _ assms,
      where P = "\<lambda>c flag r. \<forall>out c'. r = Inr (out, c') \<longrightarrow> kept c' = kept c"])
  fix f and c :: "'a HttpConn_scheme" and flag r
  assume IH: "\<And>c flag r. f c flag = Some r \<Longrightarrow> \<forall>out c'. r = Inr (out, c') \<longrightarrow> kept c' = kept c"
    and body: "(case (if hc_reqstate c = CHECK_CONTENT then Inr LINE_OK else parseLine (input_buffer c)) of
        Inl e \<Rightarrow> Some (Inl e)
      | Inr ls \<Rightarrow>
          if ls \<noteq> LINE_OK then Some (Inr (Parse_stopped ls flag, c))
          else (case parse_step c of
                  Inl e \<Rightarrow> Some (Inl e)
                | Inr (ok, c') \<Rightarrow>
                    if ok then f c' (flag \<or> hc_reqstate c = CHECK_CONTENT)
                    else Some (Inr (Parse_failed, c')))) = Some r"
  show "\<forall>out c'. r = Inr (out, c') \<longrightarrow> kept c' = kept c"
    using body by (auto split: sum.splits if_splits prod.splits dest: parse_step_kept) (metis IH parse_step_kept)+
qed

lemma onMessage_parse_kept:
  "onMessage_parse c = Some (Inr (act, c')) \<Longrightarrow> kept c' = kept c"
  using parse_loop_kept [of "if hc_request c = None then setRequest HttpRequest_new c else c" False]
  by (auto simp: onMessage_parse_def Let_def and_then_eq_Inr_conv setter_kept split: if_splits)

lemma onMessage_parse_no_request:
  "hc_request c = None \<Longrightarrow> onMessage_parse c = onMessage_parse (setRequest HttpRequest_new c)"
  by (simp add: onMessage_parse_def setRequest_def)

lemma more_fields:
  assumes "HttpConn.more k' = HttpConn.more (k :: HttpConnection)"
  shows "output_buffer k' = output_buffer k" "hc_fd k' = hc_fd k" "hc_dispatcher k' = hc_dispatcher k" "hc_tim k' = hc_tim k"
  using assms by (cases k; cases k'; simp)+

lemma conn_ok_more:
  assumes "conn_ok c k w" "HttpConn.more k' = HttpConn.more k"
  shows "conn_ok c k' (set_conn c k' w)"
  using assms(1) more_fields [OF assms(2)] by (auto simp: conn_ok_def set_conn_def)

section \<open>New connections\<close>

definition world_ok :: "conn_world \<Rightarrow> bool" where
  "world_ok w \<longleftrightarrow>
     \<not> cw_locked w \<and> ep_inv (cw_ep w) \<and> th_inv (cw_heap w) \<and> th_nums (cw_heap w) < length (th_vec (cw_heap w)) \<and>
     (\<forall>a \<ge> cw_next w. th_store (cw_heap w) a = None \<and> ep_store (cw_ep w) a = None)"

lemma accept_established:
  assumes ok: "world_ok w" and fd: "accept_loop accepts = Some fd" "0 \<le> fd" "dispatcher_map (cw_ep w) fd = None"
    and l: "getLoop fd pool = Inr (Some l)" and d: "d = cw_next w"
  shows "\<exists>w1 w2. AcceptCallback accepts pool w = Some (Inr (Some (l, d + 1), w1)) \<and>
    connecionEstablished (d + 1) w1 = Inr w2 \<and> conn_ok (d + 1) (HttpConnection_new fd d) w2 \<and>
    ep_kernel (cw_ep w2) fd = Some (EPOLLIN, d) \<and> cw_sent w2 = cw_sent w \<and> cw_cache w2 = cw_cache w \<and>
    cw_heap w2 = cw_heap w \<and> cw_next w2 = d + 2"
proof -
  let ?ep = "(cw_ep w)\<lparr>ep_store := (ep_store (cw_ep w))(d \<mapsto> dispatcher_new fd)\<rparr>"
  let ?w = "w\<lparr>cw_conns := (cw_conns w)(d + 1 \<mapsto> HttpConnection_new fd d), cw_ep := ?ep,
      cw_list := cw_list w @ [d + 1], cw_next := d + 2\<rparr>"
  have none: "ep_store (cw_ep w) d = None" using ok d by (simp add: world_ok_def)
  have inv: "ep_inv ?ep"
    using ok none unfolding world_ok_def ep_inv_def by fastforce
  have reg: "registrable ?ep d (dispatcher_new fd)"
    using fd(3) by (simp add: registrable_def dispatcher_new_def)
  obtain ep' where ep': "enable EPOLLIN d ?ep = Inr ep'" "ep_inv ep'"
      "ep_kernel ep' = (ep_kernel ?ep)(fd \<mapsto> (EPOLLIN, d))" "dispatcher_map ep' = (dispatcher_map ?ep)(fd \<mapsto> d)"
    using enable_eq(1) [OF inv reg, of EPOLLIN] by (auto simp: dispatcher_new_def)
  obtain d' where d': "registrable ep' d d'" "d_fd d' = fd"
    using ep_invD(2) [OF ep'(2), of fd d] ep'(4) by (auto simp: registrable_def)
  have "AcceptCallback accepts pool w = Some (Inr (Some (l, d + 1), ?w))"
    using fd l d by (simp add: AcceptCallback_def Let_def)
  moreover have "connecionEstablished (d + 1) ?w = Inr (?w\<lparr>cw_ep := ep'\<rparr>)"
    using ep'(1) by (simp add: connecionEstablished_def conn_of_def HttpConnection_new_def enableReading_def)
  moreover have "conn_ok (d + 1) (HttpConnection_new fd d) (?w\<lparr>cw_ep := ep'\<rparr>)"
    using ok d ep'(2) d' wf_alloc_buffer [OF wf_Buffer_new]
    by (auto simp: conn_ok_def world_ok_def HttpConnection_new_def)
  ultimately show ?thesis using ep'(3) by (intro exI [of _ ?w] exI [of _ "?w\<lparr>cw_ep := ep'\<rparr>"]) simp
qed

section \<open>Properties\<close>

text \<open>
  C15. The first reply of a connection that the kernel does not take at once reaches the client whole
  and in order, however the writes split it: when the output buffer has not been used before, no
  write fails, the reply is shorter than about \<open>2 ^ 30\<close> bytes and is not taken whole by the first
  \<open>write\<close>, the part that one takes and the parts the writes of the event loop take add up to
  exactly the reply.  A second such reply on a kept connection is outside the statement: the
  buffer still has the rest of the first one, which \<open>handleWrite\<close> does not clear after writing it.
\<close>

theorem reply_delivered:
  assumes "conn_ok c k w" "output_buffer k = Buffer_new" "hc_request k = Some r" "alloc_buffer buf"
    and "4096 + 2 * length (buf_data buf) < 2 ^ 31" and "l + sum_list ls < length (buf_data buf)"
  shows "\<exists>w'. and_run (conn_send now junk (int l) buf c w) (\<lambda>w1.
      and_run (write_all now ls c w1) (handleWrite now (int (length (buf_data buf) - l - sum_list ls)) c)) = Some (Inr w') \<and>
    cw_sent w' = (cw_sent w)(hc_fd k := cw_sent w (hc_fd k) @ buf_data buf)"
proof -
  have "l < length (buf_data buf)" using assms(6) by simp
  from send_part [OF assms(1,2,4) this assms(5), of now junk] obtain w1 k1 where
    w1: "conn_send now junk (int l) buf c w = Some (Inr w1)" "conn_ok c k1 w1"
      "cw_sent w1 = (cw_sent w)(hc_fd k := cw_sent w (hc_fd k) @ take l (buf_data buf))"
      "hc_fd k1 = hc_fd k" "hc_request k1 = hc_request k" "buf_data (output_buffer k1) = drop l (buf_data buf)"
    by blast
  have "sum_list ls < length (buf_data (output_buffer k1))" using assms(6) w1(6) by simp
  from write_parts [OF w1(2) this, of now] obtain w2 k2 where
    w2: "write_all now ls c w1 = Some (Inr w2)" "conn_ok c k2 w2"
      "cw_sent w2 = (cw_sent w1)(hc_fd k1 := cw_sent w1 (hc_fd k1) @ take (sum_list ls) (buf_data (output_buffer k1)))"
      "hc_fd k2 = hc_fd k1" "hc_request k2 = hc_request k1"
      "buf_data (output_buffer k2) = drop (sum_list ls) (buf_data (output_buffer k1))"
    by blast
  have "hc_request k2 = Some r" using w1(5) w2(5) assms(3) by simp
  from write_rest [OF w2(2) this, of now] obtain w' where
    w': "handleWrite now (int (length (buf_data (output_buffer k2)))) c w2 = Some (Inr w')"
      "cw_sent w' = (cw_sent w2)(hc_fd k2 := cw_sent w2 (hc_fd k2) @ buf_data (output_buffer k2))"
    by blast
  have n: "length (buf_data (output_buffer k2)) = length (buf_data buf) - l - sum_list ls"
    using w1(6) w2(6) by simp
  have split: "take (sum_list ls) (drop l (buf_data buf)) @ drop (sum_list ls) (drop l (buf_data buf)) = drop l (buf_data buf)"
    by (rule append_take_drop_id)
  have "cw_sent w' = (cw_sent w)(hc_fd k := cw_sent w (hc_fd k) @ take l (buf_data buf) @
      (take (sum_list ls) (drop l (buf_data buf)) @ drop (sum_list ls) (drop l (buf_data buf))))"
    using w'(2) w2(3,4,6) w1(3,4,6) by simp
  then have "cw_sent w' = (cw_sent w)(hc_fd k := cw_sent w (hc_fd k) @ buf_data buf)"
    unfolding split by simp
  then show ?thesis using w1(1) w2(1) w'(1) n by auto
qed

text \<open>A world with one connection on descriptor 4, for the witnesses.\<close>

definition sample_k :: HttpConnection where
  "sample_k = setRequest HttpRequest_new (HttpConnection_new 4 0)"

definition sample_w :: conn_world where
  "sample_w = \<lparr>cw_conns = [1 \<mapsto> sample_k], cw_list = [1], cw_ep = epoller_new [0 \<mapsto> dispatcher_new 4],
     cw_heap = TimerHeap_new 64 Map.empty, cw_locked = False, cw_cache = LRUCache_new 8, cw_sent = (\<lambda>_. []), cw_next = 2\<rparr>"

lemma sample_conn_ok: "conn_ok 1 sample_k sample_w"
  using ep_inv_new [of "[0 \<mapsto> dispatcher_new 4]"] th_inv_new [of 64 Map.empty] wf_alloc_buffer [OF wf_Buffer_new]
  by (simp add: conn_ok_def sample_w_def sample_k_def setRequest_def HttpConnection_new_def registrable_def
      epoller_new_def dispatcher_new_def TimerHeap_new_def)

theorem reply_delivered_witness:
  "\<exists>w' buf. buf_data buf = ''hello world'' \<and>
    and_run (conn_send 0 (\<lambda>_. nul) 3 buf 1 sample_w) (\<lambda>w1.
      and_run (write_all 0 [2, 4] 1 w1) (handleWrite 0 2 1)) = Some (Inr w') \<and> cw_sent w' 4 = ''hello world''"
proof -
  obtain buf where buf: "alloc_buffer buf" "buf_data buf = ''hello world''"
    using append_new [of "''hello world''" "\<lambda>_. nul"] by auto
  have "output_buffer sample_k = Buffer_new" "hc_request sample_k = Some HttpRequest_new" "hc_fd sample_k = 4"
    by (simp_all add: sample_k_def HttpConnection_new_def setRequest_def)
  then obtain w' where "and_run (conn_send 0 (\<lambda>_. nul) 3 buf 1 sample_w) (\<lambda>w1.
      and_run (write_all 0 [2, 4] 1 w1) (handleWrite 0 2 1)) = Some (Inr w')"
      "cw_sent w' = (cw_sent sample_w)(4 := cw_sent sample_w 4 @ ''hello world'')"
    using reply_delivered [OF sample_conn_ok, of HttpRequest_new buf 3 "[2, 4]" 0 "\<lambda>_. nul"] buf
    by (auto simp del: write_all.simps)
  moreover from this(2) have "cw_sent w' 4 = ''hello world''" by (simp add: sample_w_def)
  ultimately show ?thesis using buf(2) by blast
qed

text \<open>
  A failed \<open>write\<close> of a reply is taken for a partial one: \<open>send\<close> then copies from one byte
  before the message, which is outside the buffer when the message starts at its beginning.
\<close>

theorem failed_send_out_of_bounds:
  assumes "conn_ok c k w" "low buf = 0" "alloc_buffer buf"
  shows "conn_send now junk (- 1) buf c w = Some (Inl Out_of_bounds)"
proof -
  have k: "cw_conns w c = Some k" using assms(1) by (simp add: conn_ok_def)
  obtain d where d: "registrable (cw_ep w) (hc_dispatcher k) d" using assms(1) by (auto simp: conn_ok_def)
  obtain ep where "enableWriting (hc_dispatcher k) (cw_ep w) = Inr ep"
    using enable_registrable(1) [OF _ d, of EPOLLOUT] assms(1) by (auto simp: enableWriting_def conn_ok_def)
  moreover have "0 \<le> dataLen buf" using dataLen_eq [OF assms(3)] by simp
  ultimately show ?thesis using k assms(2)
    by (simp add: conn_send_def conn_of_def Let_def put_bytes_def mem_read_def)
qed

theorem failed_send_out_of_bounds_witness: "conn_send 0 (\<lambda>_. nul) (- 1) Buffer_new 1 sample_w = Some (Inl Out_of_bounds)"
  by (rule failed_send_out_of_bounds [OF sample_conn_ok])
    (simp_all add: wf_alloc_buffer [OF wf_Buffer_new], simp add: Buffer_new_def)

text \<open>
  C16. Input on a connection whose timer has fired leaves the lock of the timer heap taken: the
  handler of the input returns without releasing it, and afterwards neither \<open>handleRead\<close> on any
  connection nor a keep-alive of a connection that has no timer yet gets past the lock.  Closing a
  connection does not take the lock and is not blocked.
\<close>

theorem fired_timer_keeps_lock:
  assumes "conn_ok c k w" "hc_tim k = Some a" "th_store (cw_heap w) a = Some t" "timer_index t = - 2"
  shows "\<exists>w'. handleRead env penv junk wr time rd c w = Some (Inr w') \<and>
    (cw_conns w' c' \<noteq> None \<longrightarrow> handleRead env penv junk wr time rd' c' w' = None) \<and>
    (hc_tim k' = None \<longrightarrow> keep_alive now c' k' w' = None)"
proof -
  have "handleRead env penv junk wr time rd c w = Some (Inr (w\<lparr>cw_locked := True\<rparr>))"
    using assms by (simp add: handleRead_def conn_ok_def conn_of_def delay_timer_def deref_timer_def)
  then show ?thesis
    by (auto simp: handleRead_def conn_of_def keep_alive_def Let_def)
qed

definition fired_w :: conn_world where
  "fired_w = sample_w\<lparr>cw_conns := [1 \<mapsto> sample_k\<lparr>hc_tim := Some 9\<rparr>],
     cw_heap := TimerHeap_new 64 [9 \<mapsto> \<lparr>expire = 0, timer_cb = Some 1, timer_index = - 2\<rparr>]\<rparr>"

theorem fired_timer_keeps_lock_witness:
  "\<exists>w'. handleRead sample_env php_sample (\<lambda>_. nul) dataLen 0 (Some ''x'') 1 fired_w = Some (Inr w') \<and>
    keep_alive 0 1 sample_k w' = None"
proof -
  let ?k = "sample_k\<lparr>hc_tim := Some 9\<rparr>"
  have "conn_ok 1 ?k fired_w"
    using sample_conn_ok th_inv_new by (auto simp: conn_ok_def fired_w_def sample_w_def TimerHeap_new_def)
  then show ?thesis
    using fired_timer_keeps_lock [of 1 ?k fired_w 9 "\<lparr>expire = 0, timer_cb = Some 1, timer_index = - 2\<rparr>"
        sample_env php_sample "\<lambda>_. nul" dataLen 0 "Some ''x''" 1 None sample_k 0]
    by (auto simp: fired_w_def TimerHeap_new_def sample_k_def HttpConnection_new_def setRequest_def)
qed

text \<open>
  Closing a connection that has a keep-alive timer frees the timer while the heap still points
  to it: once that timer is at the top of the heap, the next \<open>tick\<close> reads freed memory.
\<close>

theorem close_leaves_freed_timer:
  assumes "conn_ok c k w" "hc_tim k = Some a" "0 < th_nums (cw_heap w)" "th_vec (cw_heap w) ! 0 = Some a"
  shows "\<exists>w'. handleClose c w = Inr w' \<and> tick call cur (cw_heap w', s) = Some (Inl Use_after_free)"
proof -
  obtain w' where w': "handleClose c w = Inr w'"
      "cw_heap w' = (cw_heap w)\<lparr>th_store := (th_store (cw_heap w))(a := None)\<rparr>"
    using handleClose_ok [OF assms(1)] assms(2) by auto
  have "0 < length (th_vec (cw_heap w))" using assms(1) by (auto simp: conn_ok_def)
  then have "tick call cur (cw_heap w', s) = Some (Inl Use_after_free)"
    using assms(3,4) w'(2)
    by (subst tick.simps) (simp add: TimerHeap_empty_def topTimer_def cell_def deref_timer_def)
  then show ?thesis using w'(1) by blast
qed

theorem close_leaves_freed_timer_witness:
  "\<exists>w w'. keep_alive 0 1 sample_k sample_w = Some (Inr w) \<and> handleClose 1 w = Inr w' \<and>
     tick (leaves_heap (\<lambda>cb log. log @ [cb])) 100 (cw_heap w', []) = Some (Inl Use_after_free)"
proof -
  let ?k = "sample_k\<lparr>hc_tim := Some 2\<rparr>"
  let ?tim = "\<lparr>expire = 30, timer_cb = Some 1, timer_index = 0\<rparr>"
  let ?h = "\<lparr>th_vec = (replicate 64 None)[0 := Some 2], th_nums = 1, th_store = [2 \<mapsto> ?tim]\<rparr>"
  let ?w = "sample_w\<lparr>cw_conns := [1 \<mapsto> ?k], cw_heap := ?h, cw_next := 3\<rparr>"
  have "keep_alive 0 1 sample_k sample_w = Some (Inr ?w)"
    by (simp add: keep_alive_def sample_w_def sample_k_def HttpConnection_new_def setRequest_def Timer_new_def
        HTTP_KEEPALIVE_TIME_def TimerHeap_new_def pushTimer_def up_loop.simps setIndex_def deref_timer_def set_conn_def)
  moreover have "th_inv ?h" by (simp add: th_inv_def live_upto_def heap_upto_def live_def take_Suc hd_conv_nth)
  then have "conn_ok 1 ?k ?w" using sample_conn_ok by (auto simp: conn_ok_def sample_w_def)
  then have "\<exists>w'. handleClose 1 ?w = Inr w' \<and>
      tick (leaves_heap (\<lambda>cb log. log @ [cb])) 100 (cw_heap w', []) = Some (Inl Use_after_free)"
    by (rule close_leaves_freed_timer) simp_all
  ultimately show ?thesis by blast
qed

end
