(* ===== verification/Http_Line_Parser.thy ===== *)
theory Http_Line_Parser
  imports Http_Parser
begin

text \<open>
  The request parser described on text: lines are cut off the front of the buffered text and
  each is read by a function of the line alone.  The refinement theorem says that the loop of
  \<open>onMessage\<close>, with its buffer indices and integer conversions, computes this description
  and always ends.  Round trip, resumption after a partial delivery and the crashes on malformed
  request lines are then statements about text.
\<close>

section \<open>Cutting text\<close>

definition cut :: "char \<Rightarrow> string \<Rightarrow> (string \<times> string) option" where
  "cut c s = (if c \<in> set s then Some (takeWhile (\<lambda>x. x \<noteq> c) s, tl (dropWhile (\<lambda>x. x \<noteq> c) s)) else None)"

lemma cut_Some: "cut c s = Some (a, b) \<longleftrightarrow> s = a @ c # b \<and> c \<notin> set a"
proof
  assume "cut c s = Some (a, b)"
  then have c: "c \<in> set s" and ab: "a = takeWhile (\<lambda>x. x \<noteq> c) s" "b = tl (dropWhile (\<lambda>x. x \<noteq> c) s)"
    by (auto simp: cut_def split: if_splits)
  from c have "dropWhile (\<lambda>x. x \<noteq> c) s \<noteq> []" by (auto simp: dropWhile_eq_Nil_conv)
  then obtain y ys where d: "dropWhile (\<lambda>x. x \<noteq> c) s = y # ys" by (meson list.exhaust)
  then have "y = c" by (simp add: dropWhile_eq_Cons_conv)
  then have "dropWhile (\<lambda>x. x \<noteq> c) s = c # b" using d ab(2) by simp
  then have "s = a @ c # b" using ab(1) takeWhile_dropWhile_id [of "\<lambda>x. x \<noteq> c" s] by simp
  moreover have "c \<notin> set a" using ab(1) by (auto dest: set_takeWhileD)
  ultimately show "s = a @ c # b \<and> c \<notin> set a" ..
next
  assume s: "s = a @ c # b \<and> c \<notin> set a"
  then have "\<And>x. x \<in> set a \<Longrightarrow> x \<noteq> c" by auto
  with s show "cut c s = Some (a, b)"
    by (simp add: cut_def takeWhile_append2 dropWhile_append2)
qed

lemma cut_None: "cut c s = None \<longleftrightarrow> c \<notin> set s"
  by (simp add: cut_def)

lemma cut_print: "c \<notin> set a \<Longrightarrow> cut c (a @ c # b) = Some (a, b)"
  by (simp add: cut_Some)

lemma index_cut:
  assumes "i \<le> length s"
  shows "index_or_neg (i + find_idx (\<lambda>x. x = c) (drop i s)) (length s) =
    (case cut c (drop i s) of None \<Rightarrow> -1 | Some (a, _) \<Rightarrow> int (i + length a))"
proof (cases "cut c (drop i s)")
  case None
  then have "find_idx (\<lambda>x. x = c) (drop i s) = length (drop i s)"
    by (intro find_idx_none) (auto simp: cut_None)
  then show ?thesis using None assms by (simp add: index_or_neg_def)
next
  case (Some ab)
  obtain a b where ab: "ab = (a, b)" by (cases ab)
  with Some have d: "drop i s = a @ c # b" "c \<notin> set a" by (auto simp: cut_Some)
  then have f: "find_idx (\<lambda>x. x = c) (drop i s) = length a"
    using find_idx_append_hit [of a "\<lambda>x. x = c" c b] by auto
  have "length (drop i s) = length a + 1 + length b" using d(1) by simp
  then have "i + length a < length s" by simp
  then show ?thesis using Some ab f by (simp add: index_or_neg_def)
qed

datatype next_line = More | Bad | Line string string

definition next_line :: "string \<Rightarrow> next_line" where
  "next_line s =
     (case cut CR s of
        None \<Rightarrow> More
      | Some (l, []) \<Rightarrow> More
      | Some (l, c # r) \<Rightarrow> if c = LF then Line l r else Bad)"

lemma next_line_Line: "next_line s = Line l r \<longleftrightarrow> s = l @ CR # LF # r \<and> CR \<notin> set l"
proof
  assume "next_line s = Line l r"
  then show "s = l @ CR # LF # r \<and> CR \<notin> set l"
    by (auto simp: next_line_def cut_Some split: option.splits list.splits if_splits)
next
  assume "s = l @ CR # LF # r \<and> CR \<notin> set l"
  then have "cut CR s = Some (l, LF # r)" by (simp add: cut_Some)
  then show "next_line s = Line l r" by (simp add: next_line_def)
qed

section \<open>Reading a line\<close>

definition target_spec :: "string \<Rightarrow> string \<Rightarrow> HttpRequest \<Rightarrow> (bool \<times> HttpRequest) result" where
  "target_spec target ver req =
     (case cut (CHR ''?'') target of
        Some (path, query) \<Rightarrow>
          and_then (URLDecode path) (\<lambda>url.
          and_then (URLDecode query) (\<lambda>q.
            parse_params query (setQueryString q (setRequestUrl url req))))
      | None \<Rightarrow>
          if CHR ''?'' \<in> set ver then Inl Logic_error
          else and_then (URLDecode target) (\<lambda>url. Inr (True, setRequestUrl url req)))"

definition version_spec :: "string \<Rightarrow> http_version option" where
  "version_spec line =
     (let n = length line in
      if line ! (n - 1) = CHR ''1'' then Some HTTP11
      else if line ! (n - 1) = CHR ''0'' \<and> line ! (n - 3) = CHR ''1'' then Some HTTP10
      else None)"

definition request_line_spec :: "string \<Rightarrow> HttpRequest \<Rightarrow> (bool \<times> HttpRequest) result" where
  "request_line_spec line req =
     (case cut (CHR '' '') line of
        None \<Rightarrow> Inr (False, req)
      | Some (m, r) \<Rightarrow>
          let method = ConvertStringToMethod m in
          if method = http_method.UNKNOW then Inr (False, req)
          else case cut (CHR '' '') r of
            None \<Rightarrow> Inr (False, setMethod method req)
          | Some (target, ver) \<Rightarrow>
              and_then (target_spec target ver (setMethod method req)) (\<lambda>(ok, req).
                if \<not> ok then Inr (False, req)
                else case version_spec line of
                  None \<Rightarrow> Inr (False, req)
                | Some v \<Rightarrow> Inr (True, setVersion v req)))"

definition header_line_spec ::
  "string \<Rightarrow> HttpRequest \<Rightarrow> bool \<times> HttpRequest \<times> req_check_state" where
  "header_line_spec line req =
     (case cut (CHR '':'') line of
        None \<Rightarrow> if line = [] then (True, req, CHECK_CONTENT) else (False, req, CHECK_HEADER)
      | Some (key, val) \<Rightarrow>
          let h = ConvertStringToHeader key in
          if h = http_headers.UNKNOW then (False, req, CHECK_HEADER)
          else (True, snd (setHeader (ConvertHeaderToString h)
                  (if val \<noteq> [] \<and> hd val = CHR '' '' then tl val else val) req), CHECK_HEADER))"

text \<open>The parser on text: the outcome, the text left, the request and the state.\<close>

function line_parser ::
  "string \<Rightarrow> HttpRequest \<Rightarrow> req_check_state \<Rightarrow>
   (parse_outcome \<times> string \<times> HttpRequest \<times> req_check_state) result" where
  "line_parser s req st =
     (if st = CHECK_CONTENT then
        and_then (parse_body s req) (\<lambda>(ok, req').
          if ok then Inr (Parse_stopped LINE_MORE True, [], req', CHECK_REQUESTLINE)
          else Inr (Parse_failed, s, req', CHECK_CONTENT))
      else case next_line s of
        More \<Rightarrow> Inr (Parse_stopped LINE_MORE False, s, req, st)
      | Bad \<Rightarrow> Inr (Parse_stopped LINE_ERROR False, s, req, st)
      | Line l r \<Rightarrow>
          if st = CHECK_REQUESTLINE then
            and_then (request_line_spec l req) (\<lambda>(ok, req').
              if ok then line_parser r req' CHECK_HEADER
              else Inr (Parse_failed, s, req', CHECK_REQUESTLINE))
          else
            (case header_line_spec l req of (ok, req', st') \<Rightarrow>
              if ok then line_parser r req' st' else Inr (Parse_failed, s, req', CHECK_HEADER)))"
  by pat_completeness auto
termination
  by (relation "measure (\<lambda>(s, _, _). length s)") (auto simp: next_line_Line)

declare line_parser.simps [simp del]

section \<open>The code reads lines as described\<close>

lemma to_size_t_int [simp]: "n < 2 ^ 31 \<Longrightarrow> to_size_t (int n) = n"
  by (simp add: to_size_t_id)

lemma URLDecode_error: "URLDecode s = Inl e \<Longrightarrow> e = Logic_error"
proof -
  have "URLDecode_loop s = Inl e \<Longrightarrow> e = Logic_error" for s
  proof (induction s rule: URLDecode_loop.induct)
    case (2 c s)
    show ?case
    proof (cases "c = CHR ''%''")
      case True
      then show ?thesis using "2.IH"(2) "2.prems"
        by (auto simp: and_then_eq_Inl_conv split: list.splits)
    qed (use 2 in \<open>simp add: and_then_eq_Inl_conv\<close>)
  qed simp
  then show "URLDecode s = Inl e \<Longrightarrow> e = Logic_error"
    by (simp add: URLDecode_def and_then_eq_Inl_conv)
qed

lemma at_line_bound: "bq.at_line b line rest \<Longrightarrow> length line + 2 < 2 ^ 31"
  using length_buf_data_bound [of b] by (auto simp: bq.at_line_def)

lemma line_search_cut:
  assumes "bq.at_line b line rest" and "i \<le> length line"
  shows "findChar_range b c i (length line) =
    Inr (case cut c (drop i line) of None \<Rightarrow> -1 | Some (a, _) \<Rightarrow> int (i + length a))"
  using assms by (simp add: bq.line_search index_cut)

lemma line_search_cut_0:
  "bq.at_line b line rest \<Longrightarrow> findChar_range b c 0 (length line) =
    Inr (case cut c line of None \<Rightarrow> -1 | Some (a, _) \<Rightarrow> int (length a))"
  using line_search_cut [of b line rest 0 c] by (simp split: option.splits prod.splits)

lemma negative_fetch:
  assumes "bq.at_line b line rest" and "- int (length line) - 1 \<le> n" and "n < 0" and "pos \<le> length line"
  shows "getDataToString b (to_size_t n) pos = Inl Logic_error"
proof -
  have al: "alloc_buffer b" using assms(1) by (simp add: bq.at_line_def)
  have l: "length (buf_data b) < 2 ^ 31" using al by (rule length_buf_data_bound)
  moreover have "length line + 2 \<le> length (buf_data b)" using assms(1) by (simp add: bq.line_length)
  ultimately have "to_size_t n = nat (2 ^ 64 + n)" using assms(2,3) by (simp add: to_size_t_neg)
  moreover have "length (buf_data b) < nat (2 ^ 64 + n)"
    using l assms(2) \<open>length line + 2 \<le> length (buf_data b)\<close> by (simp add: zless_nat_eq_int_zless)
  ultimately show ?thesis
    using al assms(4) \<open>length line + 2 \<le> length (buf_data b)\<close> by (intro getDataToString_too_long) simp_all
qed

lemma parse_target_spec:
  assumes "bq.at_line b line rest" and "line = m @ CHR '' '' # target @ CHR '' '' # ver"
    and "CHR '' '' \<notin> set target"
  shows "parse_target b (int (length m)) (int (length m + 1 + length target)) (int (length line)) req =
    target_spec target ver req"
proof -
  let ?f = "length m" and ?s = "length m + 1 + length target"
  note bound = at_line_bound [OF assms(1)]
  have len: "length line = ?s + 1 + length ver" using assms(2) by simp
  have sz: "to_size_t (int ?f + 1) = ?f + 1" "to_size_t (int (length line)) = length line"
    using bound len to_size_t_int [of "?f + 1"] by (simp add: add.commute, intro to_size_t_int, simp)
  have d: "drop (?f + 1) line = target @ CHR '' '' # ver" using assms(2) by simp
  have fs: "findChar_range b (CHR ''?'') (?f + 1) (length line) =
      Inr (case cut (CHR ''?'') (target @ CHR '' '' # ver) of None \<Rightarrow> -1 | Some (a, _) \<Rightarrow> int (?f + 1 + length a))"
    using line_search_cut [OF assms(1), of "?f + 1"] len d by simp
  show ?thesis
  proof (cases "cut (CHR ''?'') target")
    case (Some pq)
    obtain p q where pq: "pq = (p, q)" by (cases pq)
    from Some pq have t: "target = p @ CHR ''?'' # q" "CHR ''?'' \<notin> set p" by (auto simp: cut_Some)
    then have c: "cut (CHR ''?'') (target @ CHR '' '' # ver) = Some (p, q @ CHR '' '' # ver)"
      by (simp add: cut_Some)
    let ?i = "?f + 1 + length p"
    have l1: "length line = ?i + 1 + length q + 1 + length ver" using len t by simp
    have z: "to_size_t (int ?i - int ?f - 1) = length p" "to_size_t (int ?s - int ?i - 1) = length q"
      "to_size_t (int ?i + 1) = ?i + 1"
      using t(1) bound l1 to_size_t_int [of "length p"] to_size_t_int [of "length q"]
        to_size_t_int [of "?i + 1"] by (simp_all add: algebra_simps)
    have g1: "getDataToString b (length p) (?f + 1) = Inr p"
      using bq.line_fetch [OF assms(1), of "?f + 1" "length p"] l1 d t(1) by simp
    have "drop (?i + 1) line = q @ CHR '' '' # ver" using assms(2) t(1) by simp
    then have g2: "getDataToString b (length q) (?i + 1) = Inr q"
      using bq.line_fetch [OF assms(1), of "?i + 1" "length q"] l1 by simp
    show ?thesis
      unfolding parse_target_def target_spec_def
      using fs c sz z g1 g2 Some pq by (simp add: Let_def)
  next
    case None
    then have nt: "CHR ''?'' \<notin> set target" by (simp add: cut_None)
    show ?thesis
    proof (cases "CHR ''?'' \<in> set ver")
      case False
      then have c: "cut (CHR ''?'') (target @ CHR '' '' # ver) = None" using nt by (simp add: cut_None)
      have z: "to_size_t (int ?s - int ?f - 1) = length target"
        using bound len to_size_t_int [of "length target"] by simp
      have g: "getDataToString b (length target) (?f + 1) = Inr target"
        using bq.line_fetch [OF assms(1), of "?f + 1" "length target"] len d by simp
      show ?thesis unfolding parse_target_def target_spec_def
        using fs c sz z g None False by simp
    next
      case True
      then obtain a r where ar: "cut (CHR ''?'') (target @ CHR '' '' # ver) = Some (a, r)"
        by (cases "cut (CHR ''?'') (target @ CHR '' '' # ver)") (auto simp: cut_None)
      then have e: "target @ CHR '' '' # ver = a @ CHR ''?'' # r" by (simp add: cut_Some)
      have la: "length target < length a"
      proof (rule ccontr)
        assume "\<not> length target < length a"
        then have "(target @ CHR '' '' # ver) ! length a = (if length a < length target then target ! length a else CHR '' '')"
          by (auto simp: nth_append)
        moreover have "(target @ CHR '' '' # ver) ! length a = CHR ''?''" using e by simp
        ultimately have "length a < length target \<and> target ! length a = CHR ''?''" by (simp split: if_splits)
        then show False using nt nth_mem by metis
      qed
      have lr: "length target + 1 + length ver = length a + 1 + length r"
        using arg_cong [OF e, of length] by simp
      let ?i = "?f + 1 + length a"
      have z: "to_size_t (int ?i - int ?f - 1) = length a" "to_size_t (int ?i + 1) = ?i + 1"
        using bound len lr to_size_t_int [of "length a"] to_size_t_int [of "?i + 1"]
        by (simp_all add: algebra_simps)
      have g: "getDataToString b (length a) (?f + 1) = Inr a"
        using bq.line_fetch [OF assms(1), of "?f + 1" "length a"] len d lr e by simp
      have n: "getDataToString b (to_size_t (int ?s - int ?i - 1)) (?i + 1) = Inl Logic_error"
        using la len lr by (intro negative_fetch [OF assms(1)]) simp_all
      have "parse_target b (int ?f) (int ?s) (int (length line)) req =
          and_then (URLDecode a) (\<lambda>_. Inl Logic_error)"
        unfolding parse_target_def using fs ar sz z g n by (simp add: Let_def)
      also have "\<dots> = Inl Logic_error"
        by (cases "URLDecode a") (auto dest: URLDecode_error)
      finally show ?thesis using None True by (simp add: target_spec_def)
    qed
  qed
qed

lemma parse_version_spec:
  assumes "bq.at_line b line rest" and "3 \<le> length line"
  shows "parse_version b (int (length line)) = Inr (version_spec line)"
proof -
  let ?n = "length line"
  have i: "int ?n - 1 = int (?n - 1)" "int ?n - 3 = int (?n - 3)" using assms(2) by simp_all
  have "?n - 1 < ?n" "?n - 3 < ?n" using assms(2) by simp_all
  note bq.line_item [OF assms(1) this(1), folded i] bq.line_item [OF assms(1) this(2), folded i]
  then show ?thesis by (simp add: parse_version_def version_spec_def)
qed

lemma ConvertStringToMethod_Nil: "ConvertStringToMethod [] = http_method.UNKNOW"
  by (simp add: ConvertStringToMethod_eq find_METHODS CaseInsensitiveEqual_def ci_key_simps nul_def)

text \<open>The connection after a line has been taken off its input.\<close>

definition take_line :: "nat \<Rightarrow> req_check_state \<Rightarrow> HttpRequest \<Rightarrow> 'a HttpConn_scheme \<Rightarrow> 'a HttpConn_scheme" where
  "take_line n st req c = setReqstate st (consume_input n (setRequest req c))"

lemma setRequest_same: "hc_request c = Some req \<Longrightarrow> setRequest req c = c"
  by (simp add: setRequest_def)

lemma parseRequestLine_spec:
  assumes l: "bq.at_line (input_buffer c) line rest" and r: "hc_request c = Some req"
  shows "parseRequestLine c =
    and_then (request_line_spec line req) (\<lambda>(ok, req').
      Inr (ok, if ok then take_line (length line + 2) CHECK_HEADER req' c else setRequest req' c))"
proof -
  let ?b = "input_buffer c"
  note bound = at_line_bound [OF l]
  have sz: "to_size_t (int (length line)) = length line" using bound by simp
  have req: "getRequest c = Inr req" using r by (simp add: getRequest_def)
  note en = bq.line_end [OF l]
  have fs: "findChar_range ?b (CHR '' '') 0 (length line) =
      Inr (case cut (CHR '' '') line of None \<Rightarrow> -1 | Some (a, _) \<Rightarrow> int (length a))"
    using l by (rule line_search_cut_0)
  show ?thesis
  proof (cases "cut (CHR '' '') line")
    case None
    then show ?thesis
      using req en fs sz r by (simp add: parseRequestLine_def request_line_spec_def setRequest_same)
  next
    case (Some mr)
    obtain m r1 where mr: "mr = (m, r1)" by (cases mr)
    with Some have line: "line = m @ CHR '' '' # r1" by (simp add: cut_Some)
    have lm: "length m + 1 \<le> length line" using line by simp
    have g: "getDataToString ?b (length m) 0 = Inr m"
      using bq.line_fetch [OF l, of 0 "length m"] line by simp
    have zm: "to_size_t (int (length m)) = length m" "to_size_t (int (length m) + 1) = length m + 1"
      using bound lm to_size_t_int [of "length m + 1"] by (simp_all add: add.commute)
    let ?mt = "ConvertStringToMethod m"
    show ?thesis
    proof (cases "?mt = http_method.UNKNOW")
      case True
      then show ?thesis
        using req en fs sz r g zm Some mr
        by (simp add: parseRequestLine_def request_line_spec_def setRequest_same)
    next
      case False
      then have "m \<noteq> []" using ConvertStringToMethod_Nil by auto
      have d: "drop (length m + 1) line = r1" using line by simp
      have ss: "findChar_range ?b (CHR '' '') (length m + 1) (length line) =
          Inr (case cut (CHR '' '') r1 of None \<Rightarrow> -1 | Some (a, _) \<Rightarrow> int (length m + 1 + length a))"
        using line_search_cut [OF l lm] d by simp
      show ?thesis
      proof (cases "cut (CHR '' '') r1")
        case None
        then show ?thesis
          using req en fs sz r g zm Some mr False ss
          by (simp add: parseRequestLine_def request_line_spec_def)
      next
        case t: (Some tv)
        obtain target ver where tv: "tv = (target, ver)" by (cases tv)
        with t have r1: "r1 = target @ CHR '' '' # ver" "CHR '' '' \<notin> set target" by (auto simp: cut_Some)
        have pt: "parse_target ?b (int (length m)) (int (length m + 1 + length target))
            (int (length line)) q = target_spec target ver q" for q
          using l line r1 by (intro parse_target_spec) simp_all
        have pv: "parse_version ?b (int (length line)) = Inr (version_spec line)"
          using line r1 \<open>m \<noteq> []\<close> by (intro parse_version_spec [OF l]) (cases m, simp_all)
        have z2: "to_size_t (int (length line) + 2) = length line + 2"
          using bound to_size_t_int [of "length line + 2"] by (simp add: add.commute)
        have ss': "findChar_range ?b (CHR '' '') (Suc (length m)) (length line) =
            Inr (int (length m + 1 + length target))"
          using ss t tv by simp
        have "parseRequestLine c =
            and_then (target_spec target ver (setMethod ?mt req)) (\<lambda>(ok, req).
              if \<not> ok then Inr (False, setRequest req c)
              else case version_spec line of
                None \<Rightarrow> Inr (False, setRequest req c)
              | Some v \<Rightarrow> Inr (True, take_line (length line + 2) CHECK_HEADER (setVersion v req) c))"
          unfolding parseRequestLine_def Let_def req en and_then_simps sz fs Some mr
          using False by (simp add: g zm ss' pt [simplified] pv z2 take_line_def cong: if_cong option.case_cong)
        then show ?thesis
          using Some mr False t tv
          by (cases "target_spec target ver (setMethod ?mt req)")
            (auto simp: request_line_spec_def Let_def split: option.splits)
      qed
    qed
  qed
qed

lemma parseHeaderLine_spec:
  assumes l: "bq.at_line (input_buffer c) line rest" and r: "hc_request c = Some req"
    and st: "hc_reqstate c = CHECK_HEADER"
  shows "parseHeaderLine c =
    (case header_line_spec line req of (ok, req', st') \<Rightarrow>
      Inr (ok, if ok then take_line (length line + 2) st' req' c else c))"
proof -
  let ?b = "input_buffer c"
  note bound = at_line_bound [OF l]
  have sz: "to_size_t (int (length line)) = length line" using bound by simp
  have req: "getRequest c = Inr req" using r by (simp add: getRequest_def)
  note en = bq.line_end [OF l]
  have fs: "findChar_range ?b (CHR '':'') 0 (length line) =
      Inr (case cut (CHR '':'') line of None \<Rightarrow> -1 | Some (a, _) \<Rightarrow> int (length a))"
    using l by (rule line_search_cut_0)
  show ?thesis
  proof (cases "cut (CHR '':'') line")
    case None
    have "consume_input 2 (setReqstate CHECK_CONTENT c) = take_line 2 CHECK_CONTENT req c"
      using r by (simp add: take_line_def setRequest_same consume_input_def setReqstate_def)
    then show ?thesis
      using req en fs sz None by (simp add: parseHeaderLine_def header_line_spec_def numeral_2_eq_2)
  next
    case (Some kv)
    obtain key val where kv: "kv = (key, val)" by (cases kv)
    with Some have line: "line = key @ CHR '':'' # val" by (simp add: cut_Some)
    have g: "getDataToString ?b (length key) 0 = Inr key"
      using bq.line_fetch [OF l, of 0 "length key"] line by simp
    have g2: "getDataToString ?b (length val) (length key + 1) = Inr val"
      using bq.line_fetch [OF l, of "length key + 1" "length val"] line by simp
    have z: "to_size_t (int (length key)) = length key" "to_size_t (int (length key) + 1) = length key + 1"
      "to_size_t (int (length line) - int (length key) - 1) = length val"
      "to_size_t (int (length line) + 2) = length line + 2"
      using bound line to_size_t_int [of "length key + 1"] to_size_t_int [of "length line + 2"]
        to_size_t_int [of "length val"]
      by (simp_all add: add.commute)
    have st': "consume_input n (setRequest q c) = take_line n CHECK_HEADER q c" for n q
      using st by (simp add: take_line_def setReqstate_def consume_input_def setRequest_def)
    have "parseHeaderLine c =
       (if ConvertStringToHeader key = http_headers.UNKNOW then Inr (False, c)
        else Inr (True, take_line (length line + 2) CHECK_HEADER
           (snd (setHeader (ConvertHeaderToString (ConvertStringToHeader key))
             (if val \<noteq> [] \<and> hd val = CHR '' '' then tl val else val) req)) c))"
      unfolding parseHeaderLine_def Let_def req en and_then_simps sz fs Some kv
      using g g2 z st' by simp
    then show ?thesis using Some kv by (simp add: header_line_spec_def Let_def)
  qed
qed

lemma parseContent_spec:
  assumes a: "alloc_buffer (input_buffer c)" and r: "hc_request c = Some req"
  shows "parseContent c =
    and_then (parse_body (buf_data (input_buffer c)) req) (\<lambda>(ok, req').
      Inr (ok, if ok then take_line (length (buf_data (input_buffer c))) CHECK_REQUESTLINE req' c
               else setRequest req' c))"
proof -
  have "getDataToString (input_buffer c) (length (buf_data (input_buffer c))) 0 =
      Inr (buf_data (input_buffer c))"
    using getDataToString_data [OF a, of 0 "length (buf_data (input_buffer c))"] by simp
  then show ?thesis
    using r unfolding parseContent_def
    by (cases "parse_body (buf_data (input_buffer c)) req")
      (auto simp: getRequest_def to_size_t_dataLen [OF a] take_line_def)
qed

lemma parseLine_spec:
  assumes "alloc_buffer b"
  shows "parseLine b =
    Inr (case next_line (buf_data b) of More \<Rightarrow> LINE_MORE | Bad \<Rightarrow> LINE_ERROR | Line _ _ \<Rightarrow> LINE_OK)"
proof -
  let ?s = "buf_data b"
  have f: "findChar b CR 0 = Inr (case cut CR ?s of None \<Rightarrow> -1 | Some (a, _) \<Rightarrow> int (length a))"
    using index_cut [of 0 ?s CR] by (simp add: findChar_data [OF assms] split: option.splits prod.splits)
  show ?thesis
  proof (cases "cut CR ?s")
    case None
    then show ?thesis using f by (simp add: parseLine_def next_line_def)
  next
    case (Some lr)
    obtain l r where lr: "lr = (l, r)" by (cases lr)
    with Some have s: "?s = l @ CR # r" by (simp add: cut_Some)
    have d: "dataLen b = int (length l + 1 + length r)" using dataLen_eq [OF assms] s by simp
    show ?thesis
    proof (cases r)
      case Nil
      then show ?thesis using f Some lr d by (simp add: parseLine_def next_line_def)
    next
      case (Cons y ys)
      have "peek_at b (int (length l + 1)) = Inr (?s ! (length l + 1))"
        using s Cons by (intro peek_at_data [OF assms]) simp
      then have "peek_at b (int (length l) + 1) = Inr y" using s Cons by (simp add: add.commute nth_append)
      then show ?thesis using f Some lr d Cons by (simp add: parseLine_def next_line_def)
    qed
  qed
qed

section \<open>The loop computes the description\<close>

definition conn_abs ::
  "'a HttpConn_scheme \<Rightarrow> string \<Rightarrow> HttpRequest \<Rightarrow> req_check_state \<Rightarrow> bool" where
  "conn_abs c s req st \<longleftrightarrow>
     alloc_buffer (input_buffer c) \<and> buf_data (input_buffer c) = s \<and>
     hc_request c = Some req \<and> hc_reqstate c = st"

definition parsed_as ::
  "(parse_outcome \<times> 'a HttpConn_scheme) result \<Rightarrow>
   (parse_outcome \<times> string \<times> HttpRequest \<times> req_check_state) result \<Rightarrow> bool" where
  "parsed_as r spec \<longleftrightarrow>
     (case spec of
        Inl e \<Rightarrow> r = Inl e
      | Inr (out, s, req, st) \<Rightarrow> \<exists>c. r = Inr (out, c) \<and> conn_abs c s req st)"

lemma parsed_as_simps [simp]:
  "parsed_as r (Inl e) \<longleftrightarrow> r = Inl e"
  "parsed_as r (Inr (out, s, req, st)) \<longleftrightarrow> (\<exists>c. r = Inr (out, c) \<and> conn_abs c s req st)"
  by (simp_all add: parsed_as_def)

lemma conn_abs_take_line:
  assumes "conn_abs c s req st" and "n \<le> length s"
  shows "conn_abs (take_line n st' req' c) (drop n s) req' st'"
proof -
  have "alloc_buffer (input_buffer c)" "n \<le> length (buf_data (input_buffer c))"
    using assms by (auto simp: conn_abs_def)
  then obtain b' where b': "moveLow n (input_buffer c) = (True, b')" "alloc_buffer b'"
      "buf_data b' = drop n (buf_data (input_buffer c))"
    using moveLow_data by blast
  then show ?thesis using assms(1)
    by (simp add: conn_abs_def take_line_def consume_input_def setReqstate_def setRequest_def)
qed

lemma conn_abs_setRequest: "conn_abs c s req st \<Longrightarrow> conn_abs (setRequest req' c) s req' st"
  by (simp add: conn_abs_def setRequest_def)

lemma conn_abs_at_line:
  "conn_abs c s req st \<Longrightarrow> next_line s = Line l r \<Longrightarrow> bq.at_line (input_buffer c) l r"
  by (simp add: conn_abs_def bq.at_line_def next_line_Line)

lemma loop_stops:
  assumes "conn_abs c s req st" and "st \<noteq> CHECK_CONTENT" and "next_line s = More \<or> next_line s = Bad"
  shows "parse_loop c flag =
    Some (Inr (Parse_stopped (if next_line s = More then LINE_MORE else LINE_ERROR) flag, c))"
  using assms by (subst parse_loop.simps) (auto simp: conn_abs_def parseLine_spec)

lemma loop_step:
  assumes "conn_abs c s req st" and "st \<noteq> CHECK_CONTENT" and "next_line s = Line l r"
  shows "parse_loop c flag =
    (case parse_step c of
       Inl e \<Rightarrow> Some (Inl e)
     | Inr (ok, c') \<Rightarrow> if ok then parse_loop c' flag else Some (Inr (Parse_failed, c')))"
  using assms
  by (subst parse_loop.simps) (auto simp: conn_abs_def parseLine_spec split: sum.split)

lemma loop_content:
  assumes "conn_abs c s req CHECK_CONTENT"
  shows "\<exists>r. parse_loop c flag = Some r \<and> parsed_as r (line_parser s req CHECK_CONTENT)"
proof (cases "parse_body s req")
  case (Inl e)
  have "parse_loop c flag = Some (Inl e)"
    using assms Inl
    by (subst parse_loop.simps) (simp add: conn_abs_def parse_step_def parseContent_spec)
  then show ?thesis using Inl by (simp add: line_parser.simps)
next
  case (Inr p)
  obtain ok req' where p: "p = (ok, req')" by (cases p)
  have s: "buf_data (input_buffer c) = s" and st: "hc_reqstate c = CHECK_CONTENT"
    using assms by (simp_all add: conn_abs_def)
  have step: "parse_step c = Inr (ok, if ok then take_line (length s) CHECK_REQUESTLINE req' c
               else setRequest req' c)"
    using assms Inr p by (simp add: conn_abs_def parse_step_def parseContent_spec)
  show ?thesis
  proof (cases ok)
    case True
    let ?c = "take_line (length s) CHECK_REQUESTLINE req' c"
    have c': "conn_abs ?c [] req' CHECK_REQUESTLINE"
      using conn_abs_take_line [OF assms, of "length s"] by simp
    have "parse_loop c flag = parse_loop ?c True"
      using step st True by (subst parse_loop.simps) simp
    also have "\<dots> = Some (Inr (Parse_stopped LINE_MORE True, ?c))"
      using loop_stops [OF c', of True] by (simp add: next_line_def cut_def)
    finally show ?thesis using c' Inr p True by (simp add: line_parser.simps)
  next
    case False
    have "parse_loop c flag = Some (Inr (Parse_failed, setRequest req' c))"
      using step st False by (subst parse_loop.simps) simp
    then show ?thesis
      using conn_abs_setRequest [OF assms] Inr p False by (simp add: line_parser.simps)
  qed
qed

lemma loop_refines:
  "conn_abs c s req st \<Longrightarrow> \<exists>r. parse_loop c False = Some r \<and> parsed_as r (line_parser s req st)"
proof (induction s req st arbitrary: c rule: line_parser.induct)
  case (1 s req st)
  note ca = "1.prems"
  show ?case
  proof (cases "st = CHECK_CONTENT")
    case True
    then show ?thesis using loop_content ca by blast
  next
    case nc: False
    show ?thesis
    proof (cases "next_line s")
      case (Line l r)
      note al = conn_abs_at_line [OF ca Line] and step = loop_step [OF ca nc Line, of False]
      have dl: "length l + 2 \<le> length s" "drop (length l + 2) s = r" using Line by (auto simp: next_line_Line)
      have rq: "hc_request c = Some req" "hc_reqstate c = st" using ca by (simp_all add: conn_abs_def)
      show ?thesis
      proof (cases "st = CHECK_REQUESTLINE")
        case True
        show ?thesis
        proof (cases "request_line_spec l req")
          case (Inl e)
          then show ?thesis using step Line True rq al
            by (simp add: line_parser.simps [of s] parse_step_def parseRequestLine_spec)
        next
          case (Inr p)
          obtain ok req' where p: "p = (ok, req')" by (cases p)
          have "conn_abs (take_line (length l + 2) CHECK_HEADER req' c) r req' CHECK_HEADER"
            using conn_abs_take_line [OF ca dl(1)] dl(2) by simp
          then show ?thesis
            using step Line True rq al Inr p "1.IH"(1) [OF nc Line True Inr p [symmetric]] conn_abs_setRequest [OF ca]
            by (cases ok) (simp_all add: line_parser.simps [of s] parse_step_def parseRequestLine_spec)
        qed
      next
        case False
        then have st: "st = CHECK_HEADER" using nc by (cases st) auto
        obtain ok req' st' where h: "header_line_spec l req = (ok, req', st')" by (cases "header_line_spec l req")
        have nok: "\<not> ok \<Longrightarrow> req' = req"
          using h by (auto simp: header_line_spec_def Let_def split: option.splits if_splits)
        have "conn_abs (take_line (length l + 2) st' req' c) r req' st'"
          using conn_abs_take_line [OF ca dl(1)] dl(2) by simp
        then show ?thesis
          using step Line st rq al h "1.IH"(2) [OF nc Line False h [symmetric] refl] nok ca
          by (cases ok) (simp_all add: line_parser.simps [of s] parse_step_def parseHeaderLine_spec)
      qed
    qed (use loop_stops [OF ca nc, of False] ca nc in \<open>simp_all add: line_parser.simps [of s]\<close>)
  qed
qed

section \<open>Printed requests\<close>

text \<open>The requests a client sends, as text.\<close>

fun join_amp :: "string list \<Rightarrow> string" where
  "join_amp [] = []"
| "join_amp [p] = p"
| "join_amp (p # q # ps) = p @ CHR ''&'' # join_amp (q # ps)"

definition print_params :: "(string \<times> string) list \<Rightarrow> string" where
  "print_params ps = join_amp (map (\<lambda>(k, v). url_encode k @ CHR ''='' # url_encode v) ps)"

definition plain_params :: "(string \<times> string) list \<Rightarrow> string" where
  "plain_params ps = join_amp (map (\<lambda>(k, v). k @ CHR ''='' # v) ps)"

definition print_target :: "string \<Rightarrow> (string \<times> string) list \<Rightarrow> string" where
  "print_target url ps = url_encode url @ (if ps = [] then [] else CHR ''?'' # print_params ps)"

definition print_request_line ::
  "http_method \<Rightarrow> string \<Rightarrow> (string \<times> string) list \<Rightarrow> http_version \<Rightarrow> string" where
  "print_request_line m url ps v =
     ConvertMethodToString m @ CHR '' '' # print_target url ps @ CHR '' '' #
     (if v = HTTP11 then ''HTTP/1.1'' else ''HTTP/1.0'')"

definition header_fields :: "(http_headers \<times> string) list \<Rightarrow> (string \<times> string) list" where
  "header_fields hs = map (\<lambda>(h, x). (ConvertHeaderToString h, x)) hs"

definition print_request ::
  "http_method \<Rightarrow> string \<Rightarrow> (string \<times> string) list \<Rightarrow> http_version \<Rightarrow>
   (http_headers \<times> string) list \<Rightarrow> string \<Rightarrow> string" where
  "print_request m url ps v hs body =
     print_request_line m url ps v @ CRLF @ print_fields (header_fields hs) @ CRLF @ body"

definition params_ok :: "(string \<times> string) list \<Rightarrow> bool" where
  "params_ok ps \<longleftrightarrow> (\<forall>(k, v) \<in> set ps. nul \<notin> set k \<and> nul \<notin> set v)"

definition headers_ok :: "(http_headers \<times> string) list \<Rightarrow> bool" where
  "headers_ok hs \<longleftrightarrow> (\<forall>(h, x) \<in> set hs. h \<noteq> http_headers.UNKNOW \<and> CR \<notin> set x)"

text \<open>What the parser makes of them, on top of the request object it is given.\<close>

definition add_params :: "(string \<times> string) list \<Rightarrow> HttpRequest \<Rightarrow> HttpRequest" where
  "add_params ps req = fold (\<lambda>(k, v). setParam k v) ps req"

definition add_headers :: "(http_headers \<times> string) list \<Rightarrow> HttpRequest \<Rightarrow> HttpRequest" where
  "add_headers hs req = fold (\<lambda>(h, x) req. snd (setHeader (ConvertHeaderToString h) x req)) hs req"

definition add_target :: "string \<Rightarrow> (string \<times> string) list \<Rightarrow> HttpRequest \<Rightarrow> HttpRequest" where
  "add_target url ps req =
     (if ps = [] then setRequestUrl url req
      else add_params ps (setQueryString (plain_params ps) (setRequestUrl url req)))"

lemma url_encode_chars: "c \<in> set (url_encode s) \<Longrightarrow> url_plain c \<or> c = CHR ''%''"
proof -
  have h: "url_plain (hex_digit n)" if "n < 16" for n
  proof -
    have "n \<in> set [0..<16]" using that by simp
    moreover have "\<forall>n \<in> set [0..<16]. url_plain (hex_digit n)"
      by (simp add: small_ranges hex_digit_def url_plain_def is_alpha_def is_upper_def is_digit_def
          is_lower_def del: set_upt)
    ultimately show ?thesis by blast
  qed
  have "of_char c div 16 < (16 :: nat)" for c :: char
    using nat_of_char_less_256 [of c] by linarith
  then show "c \<in> set (url_encode s) \<Longrightarrow> url_plain c \<or> c = CHR ''%''"
    using h by (auto simp: url_encode_def split: if_splits)
qed

lemma url_encode_no [simp]:
  "CHR '' '' \<notin> set (url_encode s)" "CHR ''?'' \<notin> set (url_encode s)" "CHR ''&'' \<notin> set (url_encode s)"
  "CHR ''='' \<notin> set (url_encode s)" "CR \<notin> set (url_encode s)"
  by (auto dest!: url_encode_chars
      simp: url_plain_def is_alpha_def is_upper_def is_lower_def is_digit_def)

lemma print_params_no:
  "CHR '' '' \<notin> set (print_params ps)" "CHR ''?'' \<notin> set (print_params ps)" "CR \<notin> set (print_params ps)"
proof -
  have "c \<notin> set (join_amp xs)" if "\<forall>x \<in> set xs. c \<notin> set x" "c \<noteq> CHR ''&''" for c xs
    using that by (induction xs rule: join_amp.induct) auto
  then show "CHR '' '' \<notin> set (print_params ps)" "CHR ''?'' \<notin> set (print_params ps)" "CR \<notin> set (print_params ps)"
    by (auto simp: print_params_def)
qed

lemma parse_pair_print:
  assumes "nul \<notin> set k" "nul \<notin> set v" "length (url_encode k) < 2 ^ 31" "length (url_encode v) < 2 ^ 31"
  shows "parse_pair (url_encode k @ CHR ''='' # url_encode v) req = Inr (True, setParam k v req)"
proof -
  have "find_idx (\<lambda>c. c = CHR ''='') (url_encode k @ CHR ''='' # url_encode v) = length (url_encode k)"
    by (rule find_idx_append_hit) auto
  then show ?thesis using assms by (simp add: parse_pair_def URLDecode_encode)
qed

lemma parse_params_print:
  "ps \<noteq> [] \<Longrightarrow> params_ok ps \<Longrightarrow> length (print_params ps) < 2 ^ 31 \<Longrightarrow>
     parse_params (print_params ps) req = Inr (True, add_params ps req)"
proof (induction ps arbitrary: req)
  case (Cons p ps)
  obtain k v where p: "p = (k, v)" by (cases p)
  let ?p = "url_encode k @ CHR ''='' # url_encode v"
  have kv: "nul \<notin> set k" "nul \<notin> set v" using Cons.prems(2) p by (auto simp: params_ok_def)
  show ?case
  proof (cases ps)
    case Nil
    have t: "print_params (p # ps) = ?p" using p Nil by (simp add: print_params_def)
    have "parse_pair ?p req = Inr (True, setParam k v req)"
      using kv Cons.prems(3) t by (intro parse_pair_print) simp_all
    moreover have "find_idx (\<lambda>c. c = CHR ''&'') ?p = length ?p" by (rule find_idx_none) auto
    ultimately show ?thesis
      unfolding t using p Nil by (subst parse_params.simps) (simp add: add_params_def)
  next
    case (Cons q qs)
    have t: "print_params (p # ps) = ?p @ CHR ''&'' # print_params ps"
      using p Cons by (simp add: print_params_def)
    have "parse_pair ?p req = Inr (True, setParam k v req)"
      using kv Cons.prems(3) t by (intro parse_pair_print) simp_all
    moreover have "find_idx (\<lambda>c. c = CHR ''&'') (?p @ CHR ''&'' # print_params ps) = length ?p"
      by (rule find_idx_append_hit) auto
    moreover have "parse_params (print_params ps) (setParam k v req) = Inr (True, add_params ps (setParam k v req))"
      using Cons.prems t Cons by (intro Cons.IH) (auto simp: params_ok_def)
    ultimately show ?thesis
      unfolding t using p by (subst parse_params.simps) (simp add: add_params_def)
  qed
qed simp

lemma URLDecode_print_params:
  assumes "params_ok ps" and "length (print_params ps) < 2 ^ 31"
  shows "URLDecode (print_params ps) = Inr (plain_params ps)"
proof -
  have "URLDecode_loop (print_params ps) = Inr (plain_params ps)"
  proof (induction ps)
    case (Cons p ps)
    obtain k v where p: "p = (k, v)" by (cases p)
    have pair: "URLDecode_loop (url_encode k @ CHR ''='' # url_encode v) = Inr (k @ CHR ''='' # v)"
      using URLDecode_loop_encode [of v "[]"] by (simp add: URLDecode_loop_encode)
    show ?case
    proof (cases ps)
      case Nil
      then show ?thesis using p pair by (simp add: print_params_def plain_params_def)
    next
      case (Cons q qs)
      have "print_params (p # ps) = url_encode k @ CHR ''='' # url_encode v @ CHR ''&'' # print_params ps"
        "plain_params (p # ps) = k @ CHR ''='' # v @ CHR ''&'' # plain_params ps"
        using p Cons by (simp_all add: print_params_def plain_params_def)
      then show ?thesis using Cons.IH by (simp add: URLDecode_loop_encode)
    qed
  qed (simp add: print_params_def plain_params_def)
  moreover have "nul \<notin> set (plain_params ps)"
  proof -
    have j: "nul \<notin> set (join_amp xs)" if "\<forall>x \<in> set xs. nul \<notin> set x" for xs
      using that by (induction xs rule: join_amp.induct) (auto simp: nul_def)
    have "nul \<noteq> CHR ''=''" by (simp add: nul_def)
    then show ?thesis
      using assms(1) unfolding plain_params_def params_ok_def by (intro j) auto
  qed
  ultimately show ?thesis using assms(2) by (simp add: URLDecode_short c_str_snoc_nul)
qed

lemma length_print_params_target:
  "ps \<noteq> [] \<Longrightarrow> length (print_target url ps) = length (url_encode url) + 1 + length (print_params ps)"
  by (simp add: print_target_def)

lemma target_spec_print:
  assumes "nul \<notin> set url" and "params_ok ps" and "length (print_target url ps) < 2 ^ 31"
    and "CHR ''?'' \<notin> set ver"
  shows "target_spec (print_target url ps) ver req = Inr (True, add_target url ps req)"
proof (cases "ps = []")
  case True
  then have "URLDecode (print_target url ps) = Inr url"
    using assms(1,3) by (simp add: print_target_def URLDecode_encode)
  then show ?thesis using True assms(4)
    by (simp add: target_spec_def add_target_def print_target_def cut_def)
next
  case False
  note len = length_print_params_target [OF False, of url]
  have "cut (CHR ''?'') (print_target url ps) = Some (url_encode url, print_params ps)"
    using False by (simp add: print_target_def cut_Some)
  moreover have "URLDecode (url_encode url) = Inr url"
    using assms(1,3) len by (intro URLDecode_encode) simp_all
  moreover have "URLDecode (print_params ps) = Inr (plain_params ps)"
    using assms(2,3) len by (intro URLDecode_print_params) simp_all
  moreover have "parse_params (print_params ps) r = Inr (True, add_params ps r)" for r
    using False assms(2,3) len by (intro parse_params_print) simp_all
  ultimately show ?thesis using False by (simp add: target_spec_def add_target_def)
qed

lemma print_target_no: "CHR '' '' \<notin> set (print_target url ps)" "CR \<notin> set (print_target url ps)"
  by (auto simp: print_target_def print_params_no)

lemma version_spec_print:
  "version_spec (xs @ ''HTTP/1.1'') = Some HTTP11" "version_spec (xs @ ''HTTP/1.0'') = Some HTTP10"
  by (simp_all add: version_spec_def nth_append Let_def)

lemma request_line_spec_print:
  assumes "m \<noteq> http_method.UNKNOW" and "v \<noteq> http_version.UNKNOW" and "nul \<notin> set url" and "params_ok ps"
    and "length (print_request_line m url ps v) < 2 ^ 31"
  shows "request_line_spec (print_request_line m url ps v) req =
    Inr (True, setVersion v (add_target url ps (setMethod m req)))"
proof -
  let ?proto = "if v = HTTP11 then ''HTTP/1.1'' else ''HTTP/1.0''"
  let ?t = "print_target url ps"
  have line: "print_request_line m url ps v = ConvertMethodToString m @ CHR '' '' # ?t @ CHR '' '' # ?proto"
    by (simp add: print_request_line_def)
  have "cut (CHR '' '') (print_request_line m url ps v) =
      Some (ConvertMethodToString m, ?t @ CHR '' '' # ?proto)"
    using ConvertMethodToString_chars [of m] unfolding line cut_Some by auto
  moreover have "cut (CHR '' '') (?t @ CHR '' '' # ?proto) = Some (?t, ?proto)"
    using print_target_no [of url ps] by (simp only: cut_Some) simp
  moreover have "target_spec ?t ?proto r = Inr (True, add_target url ps r)" for r
    using assms line by (intro target_spec_print) simp_all
  moreover have "version_spec (print_request_line m url ps v) = Some v"
  proof -
    have "v = HTTP11 \<or> v = HTTP10" using assms(2) by (cases v) auto
    then show ?thesis
      unfolding line
      using version_spec_print [of "ConvertMethodToString m @ CHR '' '' # ?t @ '' ''"] by auto
  qed
  ultimately show ?thesis
    using assms(1) by (simp add: request_line_spec_def ConvertStringToMethod_name)
qed

lemma header_line_spec_print:
  assumes "h \<noteq> http_headers.UNKNOW"
  shows "header_line_spec (ConvertHeaderToString h @ '': '' @ x) req =
    (True, snd (setHeader (ConvertHeaderToString h) x req), CHECK_HEADER)"
proof -
  have "cut (CHR '':'') (ConvertHeaderToString h @ CHR '':'' # CHR '' '' # x) =
      Some (ConvertHeaderToString h, CHR '' '' # x)"
    using header_name_chars [of h] by (auto simp: cut_Some)
  then show ?thesis
    using assms by (simp add: header_line_spec_def ConvertStringToHeader_name)
qed

lemma header_line_text: "CR \<notin> set x \<Longrightarrow> CR \<notin> set (ConvertHeaderToString h @ '': '' @ x)"
  using header_name_chars [of h] by auto

lemma line_parser_headers:
  "headers_ok hs \<Longrightarrow>
   line_parser (print_fields (header_fields hs) @ CRLF @ body) req CHECK_HEADER =
   line_parser body (add_headers hs req) CHECK_CONTENT"
proof (induction hs arbitrary: req)
  case Nil
  have "next_line (CRLF @ body) = Line [] body" by (simp add: next_line_Line CRLF_def)
  then show ?case
    by (subst line_parser.simps)
      (simp add: print_fields_def header_fields_def add_headers_def header_line_spec_def cut_def)
next
  case (Cons e hs)
  obtain h x where e: "e = (h, x)" by (cases e)
  let ?l = "ConvertHeaderToString h @ '': '' @ x"
  let ?r = "print_fields (header_fields hs) @ CRLF @ body"
  from Cons.prems e have h: "h \<noteq> http_headers.UNKNOW" "CR \<notin> set x" "headers_ok hs"
    by (auto simp: headers_ok_def)
  have t: "print_fields (header_fields (e # hs)) @ CRLF @ body = ?l @ CRLF @ ?r"
    using e by (simp add: print_fields_def header_fields_def)
  have "next_line (?l @ CRLF @ ?r) = Line ?l ?r"
    using header_line_text [OF h(2), of h] by (simp add: next_line_Line CRLF_def)
  then show ?case
    unfolding t using Cons.IH [OF h(3)] header_line_spec_print [OF h(1), of x req] e
    by (subst line_parser.simps) (simp add: add_headers_def)
qed

text \<open>The request the line and the headers describe.\<close>

definition described ::
  "http_method \<Rightarrow> string \<Rightarrow> (string \<times> string) list \<Rightarrow> http_version \<Rightarrow>
   (http_headers \<times> string) list \<Rightarrow> HttpRequest \<Rightarrow> HttpRequest" where
  "described m url ps v hs req = add_headers hs (setVersion v (add_target url ps (setMethod m req)))"

lemma line_parser_request:
  assumes "m \<noteq> http_method.UNKNOW" and "v \<noteq> http_version.UNKNOW" and "nul \<notin> set url" and "params_ok ps"
    and "headers_ok hs" and "length (print_request_line m url ps v) < 2 ^ 31"
  shows "line_parser (print_request m url ps v hs body) req CHECK_REQUESTLINE =
    line_parser body (described m url ps v hs req) CHECK_CONTENT"
proof -
  let ?l = "print_request_line m url ps v"
  let ?r = "print_fields (header_fields hs) @ CRLF @ body"
  have "CR \<notin> set ?l"
    using ConvertMethodToString_chars [of m] print_target_no [of url ps] by (auto simp: print_request_line_def)
  then have "next_line (print_request m url ps v hs body) = Line ?l ?r"
    by (simp add: print_request_def next_line_Line CRLF_def)
  then show ?thesis
    using request_line_spec_print [OF assms(1,2,3,4,6), of req] line_parser_headers [OF assms(5)]
    by (subst line_parser.simps) (simp add: described_def)
qed

section \<open>Request objects built by the parser\<close>

lemma request_inv_updates [simp]:
  "request_inv (setMethod m req) = request_inv req"
  "request_inv (setVersion v req) = request_inv req"
  "request_inv (setRequestUrl u req) = request_inv req"
  "request_inv (setQueryString q req) = request_inv req"
  "request_inv (setContent s req) = request_inv req"
  by (simp_all add: request_inv_def setMethod_def setVersion_def setRequestUrl_def setQueryString_def
      setContent_def)

lemma parse_pair_inv:
  "parse_pair s req = Inr (ok, req') \<Longrightarrow> request_inv req \<Longrightarrow> request_inv req'"
  by (auto simp: parse_pair_def Let_def res_simps request_inv_setParam split: if_splits)

lemma parse_params_inv:
  "parse_params s req = Inr (ok, req') \<Longrightarrow> request_inv req \<Longrightarrow> request_inv req'"
proof (induction s req rule: parse_params.induct)
  case (1 params req)
  let ?i = "find_idx (\<lambda>c. c = CHR ''&'') params"
  show ?case
  proof (cases "?i < length params")
    case True
    then obtain ok1 req1 where p: "parse_pair (take ?i params) req = Inr (ok1, req1)"
        and rest: "(if ok1 then parse_params (drop (?i + 1) params) req1 else Inr (False, req1)) = Inr (ok, req')"
      using "1.prems"(1) by (subst (asm) parse_params.simps) (auto simp: Let_def res_simps)
    have "request_inv req1" using p "1.prems"(2) by (rule parse_pair_inv)
    then show ?thesis using "1.IH" [OF refl True p refl] rest by (cases ok1) auto
  next
    case False
    then show ?thesis using "1.prems" parse_pair_inv by (subst (asm) parse_params.simps) (auto simp: Let_def)
  qed
qed

lemma parse_pair_error: "parse_pair s req = Inl e \<Longrightarrow> e = Logic_error"
  by (auto simp: parse_pair_def Let_def res_simps dest: URLDecode_error split: if_splits)

lemma parse_params_error: "parse_params s req = Inl e \<Longrightarrow> e = Logic_error"
proof (induction s req rule: parse_params.induct)
  case (1 params req)
  let ?i = "find_idx (\<lambda>c. c = CHR ''&'') params"
  show ?case
  proof (cases "?i < length params")
    case True
    show ?thesis
    proof (cases "parse_pair (take ?i params) req")
      case (Inl e')
      then show ?thesis
        using "1.prems" True parse_pair_error by (subst (asm) parse_params.simps) (auto simp: Let_def)
    next
      case (Inr p)
      obtain ok1 req1 where p: "p = (ok1, req1)" by (cases p)
      then have "(if ok1 then parse_params (drop (?i + 1) params) req1 else Inr (False, req1)) = Inl e"
        using "1.prems" True Inr by (subst (asm) parse_params.simps) (simp add: Let_def)
      then show ?thesis using "1.IH" [OF refl True Inr p [symmetric]] by (cases ok1) auto
    qed
  next
    case False
    then show ?thesis
      using "1.prems" parse_pair_error by (subst (asm) parse_params.simps) (auto simp: Let_def)
  qed
qed

lemma target_spec_inv:
  assumes "target_spec t v req = Inr (ok, req')" and "request_inv req"
  shows "request_inv req'"
proof (cases "cut (CHR ''?'') t")
  case None
  then show ?thesis using assms by (auto simp: target_spec_def res_simps split: if_splits)
next
  case (Some pq)
  obtain p q where "pq = (p, q)" by (cases pq)
  with Some assms(1) obtain x y where "parse_params q (setQueryString y (setRequestUrl x req)) = Inr (ok, req')"
    by (auto simp: target_spec_def res_simps)
  from parse_params_inv [OF this] assms(2) show ?thesis by simp
qed

lemma target_spec_error: "target_spec t v req = Inl e \<Longrightarrow> e = Logic_error"
  by (auto simp: target_spec_def res_simps dest: URLDecode_error parse_params_error
      split: option.splits if_splits)

lemma request_line_spec_cases:
  obtains (refused) req1 where "request_line_spec l req = Inr (False, req1)" "request_inv req \<longrightarrow> request_inv req1"
  | (crash) "request_line_spec l req = Inl Logic_error"
  | (accepted) v req1 where "request_line_spec l req = Inr (True, setVersion v req1)"
      "request_inv req \<longrightarrow> request_inv req1"
proof (cases "cut (CHR '' '') l")
  case None
  then show ?thesis using refused [of req] by (simp add: request_line_spec_def)
next
  case (Some mr)
  obtain m r where mr: "mr = (m, r)" by (cases mr)
  let ?m = "ConvertStringToMethod m"
  show ?thesis
  proof (cases "?m = http_method.UNKNOW")
    case True
    then show ?thesis using refused [of req] Some mr by (simp add: request_line_spec_def)
  next
    case m: False
    show ?thesis
    proof (cases "cut (CHR '' '') r")
      case None
      then show ?thesis using refused [of "setMethod ?m req"] Some mr m by (simp add: request_line_spec_def)
    next
      case t: (Some tv)
      obtain target ver where tv: "tv = (target, ver)" by (cases tv)
      show ?thesis
      proof (cases "target_spec target ver (setMethod ?m req)")
        case (Inl e)
        then show ?thesis
          using crash Some mr m t tv target_spec_error [OF Inl] by (simp add: request_line_spec_def)
      next
        case (Inr p)
        obtain ok req1 where p: "p = (ok, req1)" by (cases p)
        have i: "request_inv req \<longrightarrow> request_inv req1" using target_spec_inv [of target ver] Inr p by simp
        show ?thesis
        proof (cases "ok \<and> version_spec l \<noteq> None")
          case True
          then show ?thesis using accepted [of _ req1] i Some mr m t tv Inr p by (auto simp: request_line_spec_def)
        next
          case False
          then show ?thesis using refused [of req1] i Some mr m t tv Inr p by (auto simp: request_line_spec_def)
        qed
      qed
    qed
  qed
qed

lemma request_line_spec_inv:
  "request_line_spec l req = Inr (ok, req') \<Longrightarrow> request_inv req \<Longrightarrow> request_inv req'"
  by (cases rule: request_line_spec_cases [of l req]) auto

lemma request_line_spec_error: "request_line_spec l req = Inl e \<Longrightarrow> e = Logic_error"
  by (cases rule: request_line_spec_cases [of l req]) auto

lemma header_line_spec_inv:
  "header_line_spec l req = (ok, req', st) \<Longrightarrow> request_inv req \<Longrightarrow> request_inv req'"
  by (auto simp: header_line_spec_def Let_def request_inv_setHeader split: option.splits if_splits)

lemma parse_body_cases:
  obtains (form) req1 where "parse_body s req = parse_params s req1"
      "req_func req = POST" "request_inv req \<longrightarrow> request_inv req1"
  | (plain) req1 where "parse_body s req = Inr (True, req1)" "request_inv req \<longrightarrow> request_inv req1"
proof (cases "req_func req = POST")
  case True
  obtain v req1 where g: "getHeader ''Content-Type'' (setContent s req) = (v, req1)"
    by (cases "getHeader ''Content-Type'' (setContent s req)")
  then have i: "request_inv req \<longrightarrow> request_inv req1"
    using request_inv_getHeader [of "setContent s req" "''Content-Type''"] by simp
  have p: "req_func (setContent s req) = POST" "rq_content (setContent s req) = s"
    using True by (simp_all add: setContent_def)
  show ?thesis
  proof (cases "v = FORM_TYPE")
    case True
    then show ?thesis using form [of req1] g i p \<open>req_func req = POST\<close> by (simp add: parse_body_def Let_def)
  next
    case False
    then show ?thesis using plain [of req1] g i p by (simp add: parse_body_def Let_def)
  qed
next
  case False
  then have "parse_body s req = Inr (True, setContent s req)"
    by (simp add: parse_body_def setContent_def Let_def)
  then show ?thesis using plain [of "setContent s req"] by simp
qed

lemma parse_body_inv:
  "parse_body s req = Inr (ok, req') \<Longrightarrow> request_inv req \<Longrightarrow> request_inv req'"
  by (cases rule: parse_body_cases [of s req]) (auto dest: parse_params_inv)

lemma parse_body_error: "parse_body s req = Inl e \<Longrightarrow> e = Logic_error"
  by (cases rule: parse_body_cases [of s req]) (auto dest: parse_params_error)

lemma line_parser_inv:
  "line_parser s req st = Inr (out, s', req', st') \<Longrightarrow> request_inv req \<Longrightarrow> request_inv req'"
proof (induction s req st rule: line_parser.induct)
  case (1 s req st)
  show ?case
  proof (cases "st = CHECK_CONTENT")
    case True
    then show ?thesis
      using "1.prems" parse_body_inv
      by (subst (asm) line_parser.simps) (auto simp: res_simps split: if_splits)
  next
    case nc: False
    show ?thesis
    proof (cases "next_line s")
      case (Line l r)
      show ?thesis
      proof (cases "st = CHECK_REQUESTLINE")
        case True
        obtain ok1 req1 where q: "request_line_spec l req = Inr (ok1, req1)"
          using "1.prems"(1) nc Line True by (subst (asm) line_parser.simps) (auto simp: res_simps)
        have "request_inv req1" using q "1.prems"(2) by (rule request_line_spec_inv)
        then show ?thesis
          using "1.IH"(1) [OF nc Line True q refl] "1.prems"(1) nc Line True q
          by (subst (asm) (2) line_parser.simps) (auto split: if_splits)
      next
        case False
        obtain ok1 req1 st1 where q: "header_line_spec l req = (ok1, req1, st1)"
          by (cases "header_line_spec l req")
        have "request_inv req1" using q "1.prems"(2) by (rule header_line_spec_inv)
        then show ?thesis
          using "1.IH"(2) [OF nc Line False q [symmetric] refl] "1.prems"(1) nc Line False q
          by (subst (asm) (2) line_parser.simps) (auto split: if_splits)
      qed
    qed (use "1.prems" nc in \<open>subst (asm) line_parser.simps, simp\<close>)+
  qed
qed

lemma line_parser_error: "line_parser s req st = Inl e \<Longrightarrow> e = Logic_error"
proof (induction s req st rule: line_parser.induct)
  case (1 s req st)
  show ?case
  proof (cases "st = CHECK_CONTENT")
    case True
    then show ?thesis
      using "1.prems" parse_body_error
      by (subst (asm) line_parser.simps) (auto simp: res_simps split: if_splits)
  next
    case nc: False
    show ?thesis
    proof (cases "next_line s")
      case (Line l r)
      show ?thesis
      proof (cases "st = CHECK_REQUESTLINE")
        case True
        show ?thesis
        proof (cases "request_line_spec l req")
          case (Inl e')
          then show ?thesis
            using "1.prems" nc Line True request_line_spec_error by (subst (asm) line_parser.simps) auto
        next
          case (Inr p)
          then show ?thesis
            using "1.IH"(1) [OF nc Line True Inr] "1.prems" nc Line True
            by (cases p, subst (asm) (2) line_parser.simps) (auto split: if_splits)
        qed
      next
        case False
        obtain ok1 req1 st1 where q: "header_line_spec l req = (ok1, req1, st1)"
          by (cases "header_line_spec l req")
        then show ?thesis
          using "1.IH"(2) [OF nc Line False q [symmetric] refl] "1.prems"(1) nc Line False q
          by (subst (asm) (2) line_parser.simps) (auto split: if_splits)
      qed
    qed (use "1.prems" nc in \<open>subst (asm) line_parser.simps, simp\<close>)+
  qed
qed

lemma line_parser_resume:
  "line_parser s req st = Inr (Parse_stopped LINE_MORE False, s', req', st') \<Longrightarrow>
   line_parser (s @ t) req st = line_parser (s' @ t) req' st'"
proof (induction s req st rule: line_parser.induct)
  case (1 s req st)
  show ?case
  proof (cases "st = CHECK_CONTENT")
    case True
    then show ?thesis
      using "1.prems" by (subst (asm) line_parser.simps) (auto simp: res_simps split: if_splits)
  next
    case nc: False
    show ?thesis
    proof (cases "next_line s")
      case More
      then show ?thesis using "1.prems" nc by (subst (asm) line_parser.simps) simp
    next
      case Bad
      then show ?thesis using "1.prems" nc by (subst (asm) line_parser.simps) simp
    next
      case (Line l r)
      then have Line': "next_line (s @ t) = Line l (r @ t)" by (auto simp: next_line_Line)
      show ?thesis
      proof (cases "st = CHECK_REQUESTLINE")
        case True
        obtain ok1 req1 where q: "request_line_spec l req = Inr (ok1, req1)"
          using "1.prems"(1) nc Line True by (subst (asm) line_parser.simps) (auto simp: res_simps)
        have ok: ok1 and p: "line_parser r req1 CHECK_HEADER = Inr (Parse_stopped LINE_MORE False, s', req', st')"
          using "1.prems"(1) nc Line True q by (auto simp: line_parser.simps [of s] split: if_splits)
        show ?thesis
          using "1.IH"(1) [OF nc Line True q refl ok p] nc Line' True q ok
          by (simp add: line_parser.simps [of "s @ t"])
      next
        case False
        obtain ok1 req1 st1 where q: "header_line_spec l req = (ok1, req1, st1)"
          by (cases "header_line_spec l req")
        have ok: ok1 and p: "line_parser r req1 st1 = Inr (Parse_stopped LINE_MORE False, s', req', st')"
          using "1.prems"(1) nc Line False q by (auto simp: line_parser.simps [of s] split: if_splits)
        show ?thesis
          using "1.IH"(2) [OF nc Line False q [symmetric] refl ok p] nc Line' False q ok
          by (simp add: line_parser.simps [of "s @ t"])
      qed
    qed
  qed
qed

section \<open>Properties\<close>

text \<open>What \<open>onMessage\<close> sees of the end of the loop.\<close>

lemma onMessage_parse_request:
  assumes "hc_request c = Some req"
  shows "onMessage_parse c =
    map_option (\<lambda>r. and_then r (\<lambda>(out, c). Inr (after_parse out, c))) (parse_loop c False)"
  using assms by (simp add: onMessage_parse_def Let_def)

lemma onMessage_parse_spec:
  assumes "conn_abs c s req st" and "line_parser s req st = Inr (out, s', req', st')"
  shows "\<exists>c'. onMessage_parse c = Some (Inr (after_parse out, c')) \<and> conn_abs c' s' req' st'"
proof -
  obtain r where "parse_loop c False = Some r" "parsed_as r (line_parser s req st)"
    using loop_refines [OF assms(1)] by blast
  then show ?thesis using assms
    by (auto simp: onMessage_parse_request [of c req] conn_abs_def)
qed

lemma onMessage_parse_crash:
  assumes "conn_abs c s req st" and "line_parser s req st = Inl e"
  shows "onMessage_parse c = Some (Inl e)"
proof -
  obtain r where "parse_loop c False = Some r" "parsed_as r (line_parser s req st)"
    using loop_refines [OF assms(1)] by blast
  then show ?thesis using assms by (simp add: onMessage_parse_request [of c req] conn_abs_def)
qed

text \<open>
  C6. The loop of \<open>onMessage\<close> ends on every input, and computes the line-by-line description
  of the request grammar: same outcome, and the buffer holds exactly the text that is left, the
  request and the parse state are those of the description.
\<close>

theorem parse_loop_refines_line_parser:
  assumes "alloc_buffer (input_buffer c)" and "hc_request c = Some req"
  shows "\<exists>r. parse_loop c False = Some r \<and>
    (case line_parser (buf_data (input_buffer c)) req (hc_reqstate c) of
       Inl e \<Rightarrow> r = Inl e
     | Inr (out, s, req', st) \<Rightarrow>
         \<exists>c'. r = Inr (out, c') \<and> alloc_buffer (input_buffer c') \<and> buf_data (input_buffer c') = s \<and>
              hc_request c' = Some req' \<and> hc_reqstate c' = st)"
proof -
  have "conn_abs c (buf_data (input_buffer c)) req (hc_reqstate c)"
    using assms by (simp add: conn_abs_def)
  from loop_refines [OF this] show ?thesis unfolding parsed_as_def conn_abs_def .
qed

text \<open>A connection whose input buffer holds a given text, used to check statements on.\<close>

definition sample_conn :: "string \<Rightarrow> HttpConn" where
  "sample_conn s =
     \<lparr>input_buffer = \<lparr>vec_mem = s, vec_size = length s, low = 0, high = int (length s)\<rparr>,
      hc_request = Some HttpRequest_new, hc_reqstate = CHECK_REQUESTLINE\<rparr>"

lemma sample_conn_abs:
  "length s < 2 ^ 31 \<Longrightarrow> conn_abs (sample_conn s) s HttpRequest_new CHECK_REQUESTLINE"
  by (simp add: conn_abs_def sample_conn_def alloc_buffer_def capcity_def buf_data_def)

theorem parse_loop_refines_line_parser_witness:
  "\<exists>r. parse_loop (sample_conn ''GE'') False = Some r \<and>
    (case line_parser (buf_data (input_buffer (sample_conn ''GE''))) HttpRequest_new
            (hc_reqstate (sample_conn ''GE'')) of
       Inl e \<Rightarrow> r = Inl e
     | Inr (out, s, req', st) \<Rightarrow>
         \<exists>c'. r = Inr (out, c') \<and> alloc_buffer (input_buffer c') \<and> buf_data (input_buffer c') = s \<and>
              hc_request c' = Some req' \<and> hc_reqstate c' = st)"
  by (rule parse_loop_refines_line_parser) (simp_all add: sample_conn_def alloc_buffer_def capcity_def)

text \<open>
  C9. On any buffered input the parser neither reads outside the buffer nor dereferences a null
  pointer: it ends, the only failure is the exception of a string constructed from
  \<open>nullptr\<close>, and otherwise the buffer and the request keep their invariants.
\<close>

theorem onMessage_parse_safe:
  assumes "alloc_buffer (input_buffer c)" and "case hc_request c of None \<Rightarrow> True | Some req \<Rightarrow> request_inv req"
  shows "onMessage_parse c = Some (Inl Logic_error) \<or>
    (\<exists>act c' req'. onMessage_parse c = Some (Inr (act, c')) \<and> alloc_buffer (input_buffer c') \<and>
                    hc_request c' = Some req' \<and> request_inv req')"
proof -
  let ?req = "case hc_request c of None \<Rightarrow> HttpRequest_new | Some req \<Rightarrow> req"
  let ?c = "setRequest ?req c"
  have inv: "request_inv ?req" using assms(2) request_inv_new by (auto split: option.splits)
  have eq: "onMessage_parse c = onMessage_parse ?c"
    by (cases "hc_request c")
      (simp_all add: onMessage_parse_def setRequest_same, simp add: setRequest_def)
  have ca: "conn_abs ?c (buf_data (input_buffer c)) ?req (hc_reqstate c)"
    using assms(1) by (simp add: conn_abs_def setRequest_def)
  show ?thesis
  proof (cases "line_parser (buf_data (input_buffer c)) ?req (hc_reqstate c)")
    case (Inl e)
    then show ?thesis using onMessage_parse_crash [OF ca Inl] line_parser_error [OF Inl] eq by simp
  next
    case (Inr p)
    obtain out s req' st where p: "p = (out, s, req', st)" by (cases p)
    have "request_inv req'" using line_parser_inv [OF Inr [unfolded p] inv] .
    then show ?thesis
      using onMessage_parse_spec [OF ca Inr [unfolded p]] eq by (auto simp: conn_abs_def)
  qed
qed

theorem onMessage_parse_safe_witness:
  "onMessage_parse (sample_conn ''GE'') = Some (Inl Logic_error) \<or>
    (\<exists>act c' req'. onMessage_parse (sample_conn ''GE'') = Some (Inr (act, c')) \<and>
        alloc_buffer (input_buffer c') \<and> hc_request c' = Some req' \<and> request_inv req')"
  by (rule onMessage_parse_safe)
    (simp_all add: sample_conn_def alloc_buffer_def capcity_def request_inv_new)

lemma fold_setHeader_value:
  "headers_ok hs \<Longrightarrow> request_inv req \<Longrightarrow> request_inv (add_headers hs req) \<and>
     (h \<noteq> http_headers.UNKNOW \<longrightarrow>
      header_value (rq_headers (add_headers hs req)) h =
        (case map_of (rev hs) h of Some x \<Rightarrow> x | None \<Rightarrow> header_value (rq_headers req) h))"
proof (induction hs rule: rev_induct)
  case (snoc e hs)
  obtain h' x where e: "e = (h', x)" by (cases e)
  have ok: "headers_ok hs" "h' \<noteq> http_headers.UNKNOW" using snoc.prems(1) e by (auto simp: headers_ok_def)
  let ?r = "add_headers hs req"
  have r: "add_headers (hs @ [e]) req = snd (setHeader (ConvertHeaderToString h') x ?r)"
    using e by (simp add: add_headers_def)
  have IH: "request_inv ?r" "h \<noteq> http_headers.UNKNOW \<longrightarrow> header_value (rq_headers ?r) h =
      (case map_of (rev hs) h of Some x \<Rightarrow> x | None \<Rightarrow> header_value (rq_headers req) h)"
    using snoc.IH [OF ok(1) snoc.prems(2)] by simp_all
  have "request_inv (add_headers (hs @ [e]) req)" unfolding r using IH(1) by (rule request_inv_setHeader)
  moreover have "header_table (rq_headers ?r)" using IH(1) by (simp add: request_inv_def)
  ultimately show ?case
    using IH(2) ok(2) e r
    by (auto simp: setHeader_known [OF ConvertStringToHeader_name [OF ok(2)] ok(2)] header_value_assign)
qed (simp add: add_headers_def)

lemma add_params_lookup:
  "cim.ordered (rq_params req) \<Longrightarrow> cim.ordered (rq_params (add_params ps req)) \<and>
     map_lookup CaseInsensitiveLess k (rq_params (add_params ps req)) =
       (case find (\<lambda>(k', _). CaseInsensitiveEqual k' k) (rev ps) of
          Some (_, v) \<Rightarrow> Some v | None \<Rightarrow> map_lookup CaseInsensitiveLess k (rq_params req))"
proof (induction ps rule: rev_induct)
  case (snoc e ps)
  obtain k' v where e: "e = (k', v)" by (cases e)
  have "add_params (ps @ [e]) req = setParam k' v (add_params ps req)"
    using e by (simp add: add_params_def)
  then show ?case
    using snoc e by (auto simp: setParam_def cim.ordered_assign cim.lookup_assign cim_eqv)
qed (simp add: add_params_def)

lemma request_inv_add_params: "request_inv req \<Longrightarrow> request_inv (add_params ps req)"
  unfolding add_params_def by (induction ps arbitrary: req) (auto simp: request_inv_setParam)

lemma add_params_fields [simp]:
  "req_func (add_params ps req) = req_func req" "rq_url (add_params ps req) = rq_url req"
  "rq_version (add_params ps req) = rq_version req" "rq_headers (add_params ps req) = rq_headers req"
  "rq_content (add_params ps req) = rq_content req" "query_string (add_params ps req) = query_string req"
  unfolding add_params_def by (induction ps arbitrary: req) (auto simp: setParam_def)

lemma add_headers_fields [simp]:
  "req_func (add_headers hs req) = req_func req" "rq_url (add_headers hs req) = rq_url req"
  "rq_version (add_headers hs req) = rq_version req" "rq_params (add_headers hs req) = rq_params req"
  "rq_content (add_headers hs req) = rq_content req" "query_string (add_headers hs req) = query_string req"
proof -
  have f: "req_func (snd (setHeader k x r)) = req_func r" "rq_url (snd (setHeader k x r)) = rq_url r"
    "rq_version (snd (setHeader k x r)) = rq_version r" "rq_params (snd (setHeader k x r)) = rq_params r"
    "rq_content (snd (setHeader k x r)) = rq_content r" "query_string (snd (setHeader k x r)) = query_string r"
    for k x r
    by (auto simp: setHeader_def split: option.splits)
  show "req_func (add_headers hs req) = req_func req" "rq_url (add_headers hs req) = rq_url req"
    "rq_version (add_headers hs req) = rq_version req" "rq_params (add_headers hs req) = rq_params req"
    "rq_content (add_headers hs req) = rq_content req" "query_string (add_headers hs req) = query_string req"
    unfolding add_headers_def by (induction hs arbitrary: req) (auto simp: f)
qed

lemma described_fields:
  "req_func (described m url ps v hs req) = m"
  "rq_url (described m url ps v hs req) = url"
  "rq_version (described m url ps v hs req) = v"
  "query_string (described m url ps v hs req) = (if ps = [] then query_string req else plain_params ps)"
  "cim.ordered (rq_params req) \<Longrightarrow> map_lookup CaseInsensitiveLess k (rq_params (described m url ps v hs req)) =
       (case find (\<lambda>(k', _). CaseInsensitiveEqual k' k) (rev ps) of
          Some (_, x) \<Rightarrow> Some x | None \<Rightarrow> map_lookup CaseInsensitiveLess k (rq_params req))"
  by (simp_all add: described_def setVersion_def add_target_def setMethod_def setRequestUrl_def
      setQueryString_def add_params_lookup cong: option.case_cong)

lemma described_headers:
  assumes "headers_ok hs" and "request_inv req" and "h \<noteq> http_headers.UNKNOW"
  shows "header_value (rq_headers (described m url ps v hs req)) h =
    (case map_of (rev hs) h of Some x \<Rightarrow> x | None \<Rightarrow> header_value (rq_headers req) h)"
proof -
  let ?q = "setVersion v (add_target url ps (setMethod m req))"
  have q: "rq_headers ?q = rq_headers req"
    by (simp add: setVersion_def add_target_def setMethod_def setRequestUrl_def setQueryString_def)
  have "request_inv ?q"
    using assms(2) by (simp add: add_target_def request_inv_add_params)
  then show ?thesis using fold_setHeader_value [OF assms(1), of ?q h] assms(3) unfolding q described_def by simp
qed

lemma line_parser_plain_request:
  assumes "m \<noteq> http_method.UNKNOW" and "m \<noteq> POST" and "v \<noteq> http_version.UNKNOW" and "nul \<notin> set url"
    and "params_ok ps" and "headers_ok hs" and "length (print_request m url ps v hs body) < 2 ^ 31"
  shows "line_parser (print_request m url ps v hs body) req CHECK_REQUESTLINE =
    Inr (Parse_stopped LINE_MORE True, [], setContent body (described m url ps v hs req), CHECK_REQUESTLINE)"
proof -
  let ?r = "described m url ps v hs req"
  have "req_func ?r \<noteq> POST" using assms(2) by (simp add: described_fields)
  then have "parse_body body ?r = Inr (True, setContent body ?r)"
    by (simp add: parse_body_def Let_def setContent_def)
  then show ?thesis
    using assms line_parser_request [of m v url ps hs body req]
    by (simp add: line_parser.simps [of body] print_request_def)
qed

lemma line_parser_form_request:
  assumes "v \<noteq> http_version.UNKNOW" and "nul \<notin> set url"
    and "params_ok ps" and "headers_ok hs" and "params_ok fs" and "fs \<noteq> []"
    and "length (print_request POST url ps v hs (print_params fs)) < 2 ^ 31"
    and "header_value (rq_headers (described POST url ps v hs req)) Content_Type = FORM_TYPE"
  shows "\<exists>req'. line_parser (print_request POST url ps v hs (print_params fs)) req CHECK_REQUESTLINE =
      Inr (Parse_stopped LINE_MORE True, [],
           add_params fs (req'\<lparr>rq_content := print_params fs\<rparr>), CHECK_REQUESTLINE) \<and>
    rq_params req' = rq_params (described POST url ps v hs req)"
proof -
  let ?r = "described POST url ps v hs req"
  have ct: "ConvertStringToHeader ''Content-Type'' = Content_Type"
    using ConvertStringToHeader_name [of Content_Type] by simp
  define r1 where "r1 = snd (getHeader ''Content-Type'' (setContent (print_params fs) ?r))"
  have g: "getHeader ''Content-Type'' (setContent (print_params fs) ?r) = (FORM_TYPE, r1)"
    using assms(8) ct by (simp add: r1_def getHeader_eq Let_def setContent_def)
  have r1: "r1 = r1\<lparr>rq_content := print_params fs\<rparr>" "rq_params r1 = rq_params ?r"
    using ct by (simp_all add: r1_def getHeader_eq Let_def setContent_def)
  have "length (print_params fs) < 2 ^ 31" using assms(7) by (simp add: print_request_def)
  then have "parse_body (print_params fs) ?r = Inr (True, add_params fs r1)"
    using g assms(5,6) parse_params_print [of fs r1]
    by (simp add: parse_body_def Let_def setContent_def described_fields)
  then show ?thesis
    using assms line_parser_request [of POST v url ps hs "print_params fs" req] r1
    by (intro exI [of _ r1]) (simp add: line_parser.simps [of "print_params fs"] print_request_def)
qed

lemma parse_printed_request:
  assumes "alloc_buffer (input_buffer c)" and "hc_request c = Some req" and "request_inv req"
    and "hc_reqstate c = CHECK_REQUESTLINE"
    and "buf_data (input_buffer c) = print_request m url ps v hs body"
    and "m \<noteq> http_method.UNKNOW" and "m \<noteq> POST" and "v \<noteq> http_version.UNKNOW"
    and "nul \<notin> set url" and "params_ok ps" and "headers_ok hs"
  shows "\<exists>c' r. onMessage_parse c = Some (Inr (Send_response, c')) \<and> hc_request c' = Some r \<and>
    req_func r = m \<and> rq_url r = url \<and> rq_version r = v \<and> rq_content r = body \<and>
    (ps \<noteq> [] \<longrightarrow> query_string r = plain_params ps) \<and>
    (\<forall>k. map_lookup CaseInsensitiveLess k (rq_params r) =
       (case find (\<lambda>(k', _). CaseInsensitiveEqual k' k) (rev ps) of
          Some (_, x) \<Rightarrow> Some x | None \<Rightarrow> map_lookup CaseInsensitiveLess k (rq_params req))) \<and>
    (\<forall>h. h \<noteq> http_headers.UNKNOW \<longrightarrow> header_value (rq_headers r) h =
       (case map_of (rev hs) h of Some x \<Rightarrow> x | None \<Rightarrow> header_value (rq_headers req) h)) \<and>
    buf_data (input_buffer c') = [] \<and> hc_reqstate c' = CHECK_REQUESTLINE \<and> request_inv r \<and> alloc_buffer (input_buffer c')"
proof -
  let ?t = "print_request m url ps v hs body" and ?r = "setContent body (described m url ps v hs req)"
  have ca: "conn_abs c ?t req CHECK_REQUESTLINE" using assms(1,2,4,5) by (simp add: conn_abs_def)
  have "length ?t < 2 ^ 31" using length_buf_data_bound [OF assms(1)] assms(5) by simp
  then have lp: "line_parser ?t req CHECK_REQUESTLINE =
      Inr (Parse_stopped LINE_MORE True, [], ?r, CHECK_REQUESTLINE)"
    using assms(6-11) by (intro line_parser_plain_request)
  from onMessage_parse_spec [OF ca lp] obtain c' where
    "onMessage_parse c = Some (Inr (Send_response, c'))" "conn_abs c' [] ?r CHECK_REQUESTLINE" by auto
  moreover have "request_inv ?r" using line_parser_inv [OF lp assms(3)] .
  moreover have "cim.ordered (rq_params req)" using assms(3) by (simp add: request_inv_def)
  moreover have "rq_headers ?r = rq_headers (described m url ps v hs req)"
    "rq_params ?r = rq_params (described m url ps v hs req)" "req_func ?r = m" "rq_url ?r = url"
    "rq_version ?r = v" "rq_content ?r = body" "ps \<noteq> [] \<longrightarrow> query_string ?r = plain_params ps"
    by (simp_all add: setContent_def described_fields)
  ultimately show ?thesis
    using described_headers [OF assms(11,3), of _ m url ps v] described_fields(5) [of req _ m url ps v hs]
    by (intro exI [of _ c'] exI [of _ ?r]) (simp add: conn_abs_def)
qed

text \<open>
  C7. A request that a client prints (any method but POST, any path and parameters without NUL
  bytes, known headers, any body) is parsed back completely: \<open>onMessage\<close> goes on to the
  response with the method, decoded path, version, body and decoded query string that were sent,
  each parameter and header with the last value sent for it, an empty buffer and the state reset
  for the next request.  Headers and parameters the request does not mention keep the value an
  earlier request on the same connection gave them.
\<close>

theorem onMessage_parses_printed_request:
  assumes "alloc_buffer (input_buffer c)" and "hc_request c = Some req" and "request_inv req"
    and "hc_reqstate c = CHECK_REQUESTLINE"
    and "buf_data (input_buffer c) = print_request m url ps v hs body"
    and "m \<noteq> http_method.UNKNOW" and "m \<noteq> POST" and "v \<noteq> http_version.UNKNOW"
    and "nul \<notin> set url" and "params_ok ps" and "headers_ok hs"
  shows "\<exists>c' r. onMessage_parse c = Some (Inr (Send_response, c')) \<and> hc_request c' = Some r \<and>
    req_func r = m \<and> rq_url r = url \<and> rq_version r = v \<and> rq_content r = body \<and>
    (ps \<noteq> [] \<longrightarrow> query_string r = plain_params ps) \<and>
    (\<forall>k. map_lookup CaseInsensitiveLess k (rq_params r) =
       (case find (\<lambda>(k', _). CaseInsensitiveEqual k' k) (rev ps) of
          Some (_, x) \<Rightarrow> Some x | None \<Rightarrow> map_lookup CaseInsensitiveLess k (rq_params req))) \<and>
    (\<forall>h. h \<noteq> http_headers.UNKNOW \<longrightarrow> header_value (rq_headers r) h =
       (case map_of (rev hs) h of Some x \<Rightarrow> x | None \<Rightarrow> header_value (rq_headers req) h)) \<and>
    buf_data (input_buffer c') = [] \<and> hc_reqstate c' = CHECK_REQUESTLINE"
  using parse_printed_request [OF assms] by blast

definition sample_text :: string where
  "sample_text = print_request GET ''/a b'' [(''x'', ''1'')] HTTP11 [(Host, ''h'')] []"

theorem onMessage_parses_printed_request_witness:
  "\<exists>c' r. onMessage_parse (sample_conn sample_text) = Some (Inr (Send_response, c')) \<and>
     hc_request c' = Some r \<and> req_func r = GET \<and> rq_url r = ''/a b'' \<and> rq_version r = HTTP11 \<and>
     header_value (rq_headers r) Host = ''h''"
proof -
  have "length sample_text < 2 ^ 31"
    by (simp add: sample_text_def print_request_def print_request_line_def print_target_def
        print_params_def url_encode_def header_fields_def print_fields_def ConvertMethodToString_def CRLF_def)
  then have "conn_abs (sample_conn sample_text) sample_text HttpRequest_new CHECK_REQUESTLINE"
    by (rule sample_conn_abs)
  then show ?thesis
    using onMessage_parses_printed_request [of "sample_conn sample_text" HttpRequest_new GET "''/a b''"
        "[(''x'', ''1'')]" HTTP11 "[(Host, ''h'')]" "[]"]
    by (auto simp: conn_abs_def request_inv_new sample_text_def params_ok_def headers_ok_def nul_def)
qed

text \<open>
  C12. The fields of a form posted with the URL-encoded content type are decoded into the
  parameters of the request, on top of the parameters of the query, and \<open>onMessage\<close> goes on to
  the response.
\<close>

theorem onMessage_parses_posted_form:
  assumes "alloc_buffer (input_buffer c)" and "hc_request c = Some req" and "request_inv req"
    and "hc_reqstate c = CHECK_REQUESTLINE"
    and "buf_data (input_buffer c) = print_request POST url ps v hs (print_params fs)"
    and "v \<noteq> http_version.UNKNOW" and "nul \<notin> set url" and "params_ok ps" and "headers_ok hs"
    and "params_ok fs" and "fs \<noteq> []" and "map_of (rev hs) Content_Type = Some FORM_TYPE"
  shows "\<exists>c' r. onMessage_parse c = Some (Inr (Send_response, c')) \<and> hc_request c' = Some r \<and>
    rq_content r = print_params fs \<and>
    (\<forall>k. map_lookup CaseInsensitiveLess k (rq_params r) =
       (case find (\<lambda>(k', _). CaseInsensitiveEqual k' k) (rev (ps @ fs)) of
          Some (_, x) \<Rightarrow> Some x | None \<Rightarrow> map_lookup CaseInsensitiveLess k (rq_params req)))"
proof -
  let ?t = "print_request POST url ps v hs (print_params fs)"
  have ca: "conn_abs c ?t req CHECK_REQUESTLINE" using assms(1,2,4,5) by (simp add: conn_abs_def)
  have len: "length ?t < 2 ^ 31" using length_buf_data_bound [OF assms(1)] assms(5) by simp
  have "header_value (rq_headers (described POST url ps v hs req)) Content_Type = FORM_TYPE"
    using described_headers [OF assms(9,3), of Content_Type POST url ps v] assms(12) by simp
  from line_parser_form_request [OF assms(6-11) len this] obtain r1 where
    r1: "line_parser ?t req CHECK_REQUESTLINE = Inr (Parse_stopped LINE_MORE True, [],
           add_params fs (r1\<lparr>rq_content := print_params fs\<rparr>), CHECK_REQUESTLINE)"
      "rq_params r1 = rq_params (described POST url ps v hs req)" by blast
  let ?r = "add_params fs (r1\<lparr>rq_content := print_params fs\<rparr>)"
  from onMessage_parse_spec [OF ca r1(1)] obtain c' where
    c': "onMessage_parse c = Some (Inr (Send_response, c'))" "conn_abs c' [] ?r CHECK_REQUESTLINE" by auto
  have o: "cim.ordered (rq_params req)" using assms(3) by (simp add: request_inv_def)
  have "cim.ordered (rq_params (described POST url ps v hs req))"
    using add_params_lookup [of "setQueryString (plain_params ps) (setRequestUrl url (setMethod POST req))" ps] o
    by (simp add: described_def add_target_def setVersion_def setQueryString_def setRequestUrl_def setMethod_def)
  then have "map_lookup CaseInsensitiveLess k (rq_params ?r) =
       (case find (\<lambda>(k', _). CaseInsensitiveEqual k' k) (rev fs) of
          Some (_, x) \<Rightarrow> Some x | None \<Rightarrow>
            map_lookup CaseInsensitiveLess k (rq_params (described POST url ps v hs req)))" for k
    using add_params_lookup [of "r1\<lparr>rq_content := print_params fs\<rparr>" fs] r1(2)
    by (simp cong: option.case_cong)
  moreover have "find P (xs @ ys) = (case find P xs of None \<Rightarrow> find P ys | Some y \<Rightarrow> Some y)"
    for P and xs ys :: "(string \<times> string) list"
    by (induction xs) auto
  ultimately have "map_lookup CaseInsensitiveLess k (rq_params ?r) =
       (case find (\<lambda>(k', _). CaseInsensitiveEqual k' k) (rev (ps @ fs)) of
          Some (_, x) \<Rightarrow> Some x | None \<Rightarrow> map_lookup CaseInsensitiveLess k (rq_params req))" for k
    using described_fields(5) [OF o, of k POST url ps v hs] by (simp split: option.splits)
  then show ?thesis using c' by (auto simp: conn_abs_def)
qed

definition sample_form :: string where
  "sample_form = print_request POST ''/'' [] HTTP11 [(Content_Type, FORM_TYPE)] (print_params [(''u'', ''a b'')])"

theorem onMessage_parses_posted_form_witness:
  "\<exists>c' r. onMessage_parse (sample_conn sample_form) = Some (Inr (Send_response, c')) \<and>
     hc_request c' = Some r \<and> map_lookup CaseInsensitiveLess ''u'' (rq_params r) = Some ''a b''"
proof -
  have "length sample_form < 2 ^ 31"
    by (simp add: sample_form_def print_request_def print_request_line_def print_target_def FORM_TYPE_def
        print_params_def url_encode_def header_fields_def print_fields_def ConvertMethodToString_def CRLF_def)
  then have "conn_abs (sample_conn sample_form) sample_form HttpRequest_new CHECK_REQUESTLINE"
    by (rule sample_conn_abs)
  then show ?thesis
    using onMessage_parses_posted_form [of "sample_conn sample_form" HttpRequest_new "''/''" "[]" HTTP11
        "[(Content_Type, FORM_TYPE)]" "[(''u'', ''a b'')]"]
    by (auto simp: conn_abs_def request_inv_new sample_form_def params_ok_def headers_ok_def nul_def
        FORM_TYPE_def CaseInsensitiveEqual_def)
qed

text \<open>What the rest of the server can observe of a connection.\<close>

definition conn_view :: "'a HttpConn_scheme \<Rightarrow> string \<times> HttpRequest option \<times> req_check_state" where
  "conn_view c = (buf_data (input_buffer c), hc_request c, hc_reqstate c)"

lemma onMessage_parse_view:
  assumes "conn_abs c s req st"
  shows "map_option (map_sum id (map_prod id conn_view)) (onMessage_parse c) =
    Some (map_sum id (\<lambda>(out, s, req, st). (after_parse out, s, Some req, st)) (line_parser s req st))"
proof (cases "line_parser s req st")
  case (Inl e)
  then show ?thesis using onMessage_parse_crash [OF assms] by simp
next
  case (Inr p)
  obtain out s' req' st' where p: "p = (out, s', req', st')" by (cases p)
  from onMessage_parse_spec [OF assms Inr [unfolded p]] Inr p show ?thesis
    by (auto simp: conn_view_def conn_abs_def)
qed

text \<open>
  C8. Delivery in pieces does not matter while the head of a request is incomplete: when
  \<open>onMessage\<close> has stopped to wait for more input, going on with the next bytes gives the same
  action, remaining input, request and state as if all bytes had arrived at once.
\<close>

theorem onMessage_resumes:
  assumes "alloc_buffer (input_buffer c)" and "hc_request c = Some req"
    and "onMessage_parse c = Some (Inr (Wait_for_more, c1))"
    and "alloc_buffer (input_buffer c2)" and "conn_view c2 = (buf_data (input_buffer c1) @ t, hc_request c1, hc_reqstate c1)"
    and "alloc_buffer (input_buffer d)" and "conn_view d = (buf_data (input_buffer c) @ t, hc_request c, hc_reqstate c)"
  shows "map_option (map_sum id (map_prod id conn_view)) (onMessage_parse c2) =
         map_option (map_sum id (map_prod id conn_view)) (onMessage_parse d)"
proof -
  let ?s = "buf_data (input_buffer c)" and ?st = "hc_reqstate c"
  have ca: "conn_abs c ?s req ?st" using assms(1,2) by (simp add: conn_abs_def)
  show ?thesis
  proof (cases "line_parser ?s req ?st")
    case (Inl e)
    then show ?thesis using onMessage_parse_crash [OF ca Inl] assms(3) by simp
  next
    case (Inr p)
    obtain out s' req' st' where p: "p = (out, s', req', st')" by (cases p)
    from onMessage_parse_spec [OF ca Inr [unfolded p]] assms(3)
    have w: "after_parse out = Wait_for_more" and c1: "conn_abs c1 s' req' st'" by auto
    from w have "out = Parse_stopped LINE_MORE False"
      by (cases out) (auto split: if_splits)
    with Inr p have "line_parser (?s @ t) req ?st = line_parser (s' @ t) req' st'"
      by (intro line_parser_resume) simp
    moreover have "conn_abs c2 (s' @ t) req' st'" "conn_abs d (?s @ t) req ?st"
      using assms(2,4-7) c1 by (auto simp: conn_abs_def conn_view_def)
    ultimately show ?thesis by (simp add: onMessage_parse_view)
  qed
qed

lemma line_parser_more: "st \<noteq> CHECK_CONTENT \<Longrightarrow> CR \<notin> set s \<Longrightarrow>
    line_parser s req st = Inr (Parse_stopped LINE_MORE False, s, req, st)"
  by (subst line_parser.simps) (simp add: next_line_def cut_def)

text \<open>The same input with a byte already consumed in front of it.\<close>

definition shifted_conn :: HttpConn where
  "shifted_conn =
     \<lparr>input_buffer = \<lparr>vec_mem = ''xGET'', vec_size = 4, low = 1, high = 4\<rparr>,
      hc_request = Some HttpRequest_new, hc_reqstate = CHECK_REQUESTLINE\<rparr>"

theorem onMessage_resumes_witness:
  "map_option (map_sum id (map_prod id conn_view)) (onMessage_parse shifted_conn) =
   map_option (map_sum id (map_prod id conn_view)) (onMessage_parse (sample_conn ''GET''))"
proof -
  have ca: "conn_abs (sample_conn s) s HttpRequest_new CHECK_REQUESTLINE" if "length s < 10" for s
    using that by (intro sample_conn_abs) simp
  have sh: "conn_abs shifted_conn ''GET'' HttpRequest_new CHECK_REQUESTLINE"
    by (simp add: shifted_conn_def conn_abs_def alloc_buffer_def capcity_def buf_data_def)
  have "line_parser ''GE'' HttpRequest_new CHECK_REQUESTLINE =
      Inr (Parse_stopped LINE_MORE False, ''GE'', HttpRequest_new, CHECK_REQUESTLINE)"
    by (rule line_parser_more) simp_all
  from onMessage_parse_spec [OF ca [of "''GE''"] this] obtain c1 where
    c1: "onMessage_parse (sample_conn ''GE'') = Some (Inr (Wait_for_more, c1))"
      "conn_abs c1 ''GE'' HttpRequest_new CHECK_REQUESTLINE" by auto
  show ?thesis
    using onMessage_resumes [OF _ _ c1(1), of HttpRequest_new shifted_conn "''T''" "sample_conn ''GET''"]
      ca [of "''GE''"] ca [of "''GET''"] sh c1(2)
    by (simp add: conn_abs_def conn_view_def)
qed

text \<open>
  C11. Two malformed request lines end the whole server with an uncaught exception instead of the
  error page, both with a known method and a target (the part between the first two spaces)
  without a question mark: a line with a question mark behind the second space, and one whose
  target is a correctly encoded path followed by a percent sign with fewer than two characters
  behind it.
\<close>

theorem malformed_request_line_crashes:
  assumes "alloc_buffer (input_buffer c)" and "hc_request c = Some req" and "hc_reqstate c = CHECK_REQUESTLINE"
    and "buf_data (input_buffer c) =
           ConvertMethodToString m @ CHR '' '' # target @ CHR '' '' # ver @ CR # LF # rest"
    and "m \<noteq> http_method.UNKNOW" and "CR \<notin> set target" and "CR \<notin> set ver"
    and "CHR '' '' \<notin> set target" and "CHR ''?'' \<notin> set target"
    and "CHR ''?'' \<in> set ver \<or> (\<exists>p t. target = url_encode p @ CHR ''%'' # t \<and> length t < 2)"
  shows "onMessage_parse c = Some (Inl Logic_error)"
proof -
  let ?s = "buf_data (input_buffer c)"
  let ?l = "ConvertMethodToString m @ CHR '' '' # target @ CHR '' '' # ver"
  have ca: "conn_abs c ?s req CHECK_REQUESTLINE" using assms(1-3) by (simp add: conn_abs_def)
  have nl: "next_line ?s = Line ?l rest"
    using assms(4,6,7) ConvertMethodToString_chars [of m] by (auto simp: next_line_Line)
  have len: "length target < 2 ^ 31" using length_buf_data_bound [OF assms(1)] assms(4) by simp
  have t: "target_spec target ver q = Inl Logic_error" for q
    using assms(9,10) len
    by (auto simp: target_spec_def cut_def URLDecode_short URLDecode_loop_encode split: list.splits)
  have "cut (CHR '' '') ?l = Some (ConvertMethodToString m, target @ CHR '' '' # ver)"
    using ConvertMethodToString_chars [of m] by (auto simp: cut_Some)
  moreover have "cut (CHR '' '') (target @ CHR '' '' # ver) = Some (target, ver)"
    using assms(8) by (simp add: cut_Some)
  ultimately have "request_line_spec ?l req = Inl Logic_error"
    using t assms(5) by (simp add: request_line_spec_def ConvertStringToMethod_name)
  then have "line_parser ?s req CHECK_REQUESTLINE = Inl Logic_error"
    using nl by (subst line_parser.simps) simp
  then show ?thesis by (rule onMessage_parse_crash [OF ca])
qed

theorem malformed_request_line_crashes_witness:
  "onMessage_parse (sample_conn (''GET / HTTP/1.1?'' @ [CR, LF])) = Some (Inl Logic_error)"
  by (rule malformed_request_line_crashes
      [of _ HttpRequest_new GET "''/''" "''HTTP/1.1?''" "[]"])
    (simp_all add: sample_conn_def alloc_buffer_def capcity_def buf_data_def ConvertMethodToString_def)

end
