(* ===== verification/Http_Session.thy ===== *)
theory Http_Session
  imports Http_Connection Http_Line_Parser
begin

text \<open>
  What a client sees of the server over one connection: the reply to a request for a file as one
  message, the whole way of a request through \<open>handleRead\<close>, and a session of several requests on a
  connection that is kept alive.  The models of the parser, the responses, the cache, the buffer, the
  timer heap and the connection are used together here.
\<close>

section \<open>From the first byte to the reply\<close>

text \<open>The message that answers a request for a file.\<close>

definition file_reply :: "server_env \<Rightarrow> int \<Rightarrow> http_version \<Rightarrow> string \<Rightarrow> int \<Rightarrow> string \<Rightarrow> string" where
  "file_reply env t v url s bytes =
     fst (toString (file_page url (gzipCompress env bytes)
       (page_dates env t (toGMTString (env_localtime env) (Timestamp_at s 0))
         (page_base env (HttpRequest_new\<lparr>rq_version := v\<rparr>)))))"

lemma file_reply_read:
  assumes "clock_ok env" "v \<noteq> http_version.UNKNOW"
  shows "\<exists>hs. read_message (file_reply env t v url s bytes) =
      Some (version_text v @ ''200 OK'', hs, gzipCompress env bytes) \<and>
    header_value hs Content_Length = to_string (length (gzipCompress env bytes)) \<and>
    header_value hs Content_Encoding = ''gzip''"
proof -
  let ?req = "HttpRequest_new\<lparr>rq_version := v\<rparr>"
  let ?p = "page_dates env t (toGMTString (env_localtime env) (Timestamp_at s 0)) (page_base env ?req)"
  let ?r = "file_page url (gzipCompress env bytes) ?p"
  note b = page_base_good [OF assms(1), of ?req]
  note d = page_dates_good [OF assms(1) b(1)]
  note f = file_page_good [OF d(1), where url = url and body = "gzipCompress env bytes"]
  have "read_message (fst (toString ?r)) = Some (version_text v @ ''200 OK'', rs_headers ?r, gzipCompress env bytes)"
    using good_response_read [OF f(1)] assms(2)
    by (simp add: f d b resp_code_def to_string.simps digit_char_table)
  then show ?thesis using f(5,6) unfolding file_reply_def by blast
qed

lemma page_base_version: "rq_version req = v \<Longrightarrow> page_base env req = page_base env (HttpRequest_new\<lparr>rq_version := v\<rparr>)"
  by (simp add: page_base_def)

text \<open>The headers a connection has from earlier requests: its request object is never reset.\<close>

definition old_header :: "'a HttpConn_scheme \<Rightarrow> http_headers \<Rightarrow> string" where
  "old_header k h = (case hc_request k of None \<Rightarrow> [] | Some r \<Rightarrow> header_value (rq_headers r) h)"

definition request_kept :: "'a HttpConn_scheme \<Rightarrow> bool" where
  "request_kept k \<longleftrightarrow> (\<forall>r. hc_request k = Some r \<longrightarrow> request_inv r)"

definition new_header :: "(http_headers \<times> string) list \<Rightarrow> 'a HttpConn_scheme \<Rightarrow> http_headers \<Rightarrow> string" where
  "new_header hs k h = (case map_of (rev hs) h of Some x \<Rightarrow> x | None \<Rightarrow> old_header k h)"

text \<open>A printed request that is not a POST, on a connection with or without an earlier request.\<close>

lemma parse_next_request:
  assumes "alloc_buffer (input_buffer k)" "hc_reqstate k = CHECK_REQUESTLINE" "request_kept k"
    and "buf_data (input_buffer k) = print_request GET url ps v hs body"
    and "v \<noteq> http_version.UNKNOW" "nul \<notin> set url" "params_ok ps" "headers_ok hs"
  shows "\<exists>k' r. onMessage_parse k = Some (Inr (Send_response, k')) \<and> hc_request k' = Some r \<and> rq_url r = url \<and>
    rq_version r = v \<and> request_inv r \<and> (\<forall>h. h \<noteq> http_headers.UNKNOW \<longrightarrow> header_value (rq_headers r) h = new_header hs k h) \<and>
    buf_data (input_buffer k') = [] \<and> hc_reqstate k' = CHECK_REQUESTLINE \<and> alloc_buffer (input_buffer k')"
proof -
  have hv: "header_value (rq_headers HttpRequest_new) h = []" for h
    by (simp add: HttpRequest_new_def header_value_def map_lookup_def)
  let ?k = "if hc_request k = None then setRequest HttpRequest_new k else k"
  obtain r0 where r0: "hc_request ?k = Some r0" "request_inv r0" "\<And>h. header_value (rq_headers r0) h = old_header k h"
    using assms(3) request_inv_new by (cases "hc_request k") (auto simp: setRequest_def request_kept_def old_header_def hv)
  have k: "input_buffer ?k = input_buffer k" "hc_reqstate ?k = hc_reqstate k" "onMessage_parse k = onMessage_parse ?k"
    using onMessage_parse_no_request [of k] by (simp_all add: setRequest_def)
  have "alloc_buffer (input_buffer ?k)" "hc_reqstate ?k = CHECK_REQUESTLINE"
      "buf_data (input_buffer ?k) = print_request GET url ps v hs body" "GET \<noteq> http_method.UNKNOW" "GET \<noteq> POST"
    unfolding k(1,2) using assms(1,2,4) by simp_all
  from parse_printed_request [OF this(1) r0(1,2) this(2,3,4,5) assms(5-8)] show ?thesis
    unfolding k(3) r0(3) new_header_def by blast
qed

lemma getHeader_keeps:
  assumes "request_inv r"
  shows "header_value (rq_headers (snd (getHeader key r))) h = header_value (rq_headers r) h" "request_inv (snd (getHeader key r))"
    and "rq_version (snd (getHeader key r)) = rq_version r"
proof -
  show "request_inv (snd (getHeader key r))" by (rule request_inv_getHeader [OF assms])
  show "rq_version (snd (getHeader key r)) = rq_version r" by (rule getHeader_version)
  show "header_value (rq_headers (snd (getHeader key r))) h = header_value (rq_headers r) h"
    using assms by (rule_tac find_HEADERS_cases [of key])
      (auto simp: getHeader_eq Let_def header_value_index request_inv_def)
qed

text \<open>What \<open>onMessage\<close> answers to a printed request for a file.\<close>

lemma onMessage_file:
  assumes req: "hc_reqstate k = CHECK_REQUESTLINE" "alloc_buffer (input_buffer k)" "request_kept k"
      "buf_data (input_buffer k) = print_request GET url ps v hs body"
    and pr: "v \<noteq> http_version.UNKNOW" "nul \<notin> set url" "params_ok ps" "headers_ok hs"
    and fl: "lru_good (env_fs env) cache" "file_in (env_fs env) (WEB_ROOT @ url) bytes"
      "fs_stat (env_fs env) (WEB_ROOT @ url) = Some (s, ns, sz)"
    and plain: "\<not> is_php url" "new_header hs k If_Modified_Since = []"
  shows "\<exists>k' r cache'. onMessage env penv t k cache = Some (Inr (Some [file_reply env t v url s bytes], k', cache')) \<and>
    kept k' = kept k \<and> lru_good (env_fs env) cache' \<and> hc_request k' = Some r \<and> request_inv r \<and> rq_version r = v \<and>
    (\<forall>h. h \<noteq> http_headers.UNKNOW \<longrightarrow> header_value (rq_headers r) h = new_header hs k h) \<and>
    buf_data (input_buffer k') = [] \<and> hc_reqstate k' = CHECK_REQUESTLINE \<and> alloc_buffer (input_buffer k')"
proof -
  obtain k' r where p: "onMessage_parse k = Some (Inr (Send_response, k'))" "hc_request k' = Some r" "rq_url r = url"
      "rq_version r = v" "request_inv r"
      "\<forall>h. h \<noteq> http_headers.UNKNOW \<longrightarrow> header_value (rq_headers r) h = new_header hs k h"
      "buf_data (input_buffer k') = []" "hc_reqstate k' = CHECK_REQUESTLINE" "alloc_buffer (input_buffer k')"
    using parse_next_request [OF req(2,1,3,4) pr] by blast
  have ims: "fst (getHeader ''If-Modified-Since'' r) = []"
    using p(6) plain(2) by (simp add: getHeader_eq header_names)
  let ?r = "snd (getHeader ''If-Modified-Since'' r)"
  obtain cache' where c: "lru_good (env_fs env) cache'"
      "createResponse env t r cache = Inr (file_page url (gzipCompress env bytes)
         (page_dates env t (toGMTString (env_localtime env) (Timestamp_at s 0)) (page_base env r)), ?r, cache')"
    using createResponse_file [of env cache r bytes s ns sz t] fl p(3) ims by auto
  have "onMessage env penv t k cache = Some (Inr (Some [file_reply env t v url s bytes], setRequest ?r k', cache'))"
    using p(1-3) c(2) plain(1) page_base_version [OF p(4)]
    by (simp add: onMessage_def getRequest_def file_reply_def)
  moreover have "kept (setRequest ?r k') = kept k"
    using onMessage_parse_kept [OF p(1)] by (simp add: setter_kept)
  moreover note getHeader_keeps [OF p(5), of "''If-Modified-Since''"]
  ultimately show ?thesis using c(1) p(4,6-9) by (auto simp: setRequest_def)
qed

lemma closing_iff:
  "closing r \<longleftrightarrow> header_value (rq_headers r) Connection = ''close'' \<or> rq_version r = HTTP10"
  by (simp add: closing_def getHeader_eq header_names)

lemma kept_more: "kept k' = kept k \<Longrightarrow> HttpConn.more k' = HttpConn.more k"
  by (simp add: kept_def)

lemma readv_new:
  assumes "4096 + 2 * length xs < 2 ^ 31"
  shows "\<exists>b. Buffer_readv junk (Some xs) Buffer_new = Inr (int (length xs), b) \<and> alloc_buffer b \<and> buf_data b = xs"
proof (cases "int (length xs) \<le> writeLen Buffer_new")
  case True
  from readv_fits [OF wf_Buffer_new this, of junk] show ?thesis by (auto simp: buf_data_new intro: wf_alloc_buffer)
next
  case False
  moreover have "low Buffer_new = 0" "capcity Buffer_new = 4096" by (simp_all add: Buffer_new_def capcity_def)
  ultimately show ?thesis
    using readv_spills [OF wf_Buffer_new, of xs junk] assms by (auto simp: buf_data_new)
qed

text \<open>
  A request for a file, read in one piece: the timer is postponed, the request is parsed and
  answered, and the reply goes to \<open>send\<close>.
\<close>

lemma handleRead_file:
  assumes k: "cw_conns w c = Some k" "\<not> cw_locked w" "hc_reqstate k = CHECK_REQUESTLINE" "request_kept k"
    and h: "delay_timer (env_now env) k (cw_heap w) = Inr (Some h)"
    and ib: "Buffer_readv junk (Some msg) (input_buffer k) = Inr (int (length msg), ib)" "alloc_buffer ib" "buf_data ib = msg"
    and msg: "msg = print_request GET url ps v hs body"
    and pr: "v \<noteq> http_version.UNKNOW" "nul \<notin> set url" "params_ok ps" "headers_ok hs"
    and fl: "lru_good (env_fs env) (cw_cache w)" "file_in (env_fs env) (WEB_ROOT @ url) bytes"
      "fs_stat (env_fs env) (WEB_ROOT @ url) = Some (s, ns, sz)"
    and plain: "\<not> is_php url" "new_header hs k If_Modified_Since = []"
    and len: "4096 + 2 * length (file_reply env t v url s bytes) < 2 ^ 31"
  shows "\<exists>k' r cache' buf. alloc_buffer buf \<and> buf_data buf = file_reply env t v url s bytes \<and>
    handleRead env penv junk dataLen t (Some msg) c w =
      conn_send (env_now env) junk (int (length (buf_data buf))) buf c
        ((set_conn c k' (w\<lparr>cw_heap := h\<rparr>))\<lparr>cw_cache := cache'\<rparr>) \<and>
    kept k' = kept (k\<lparr>input_buffer := ib\<rparr>) \<and> lru_good (env_fs env) cache' \<and> hc_request k' = Some r \<and> request_inv r \<and>
    rq_version r = v \<and> (\<forall>h. h \<noteq> http_headers.UNKNOW \<longrightarrow> header_value (rq_headers r) h = new_header hs k h) \<and>
    buf_data (input_buffer k') = [] \<and> hc_reqstate k' = CHECK_REQUESTLINE \<and> alloc_buffer (input_buffer k')"
proof -
  let ?m = "file_reply env t v url s bytes" and ?k = "k\<lparr>input_buffer := ib\<rparr>"
  have nh: "new_header hs ?k = new_header hs k" by (simp add: fun_eq_iff new_header_def old_header_def split: option.split)
  have "hc_reqstate ?k = CHECK_REQUESTLINE" "alloc_buffer (input_buffer ?k)" "request_kept ?k" "buf_data (input_buffer ?k) = print_request GET url ps v hs body"
      "new_header hs ?k If_Modified_Since = []"
    using k(3,4) ib msg plain(2) by (simp_all add: request_kept_def nh)
  from onMessage_file [OF this(1-4) pr fl plain(1) this(5)] obtain k' r cache' where
    k': "onMessage env penv t ?k (cw_cache w) = Some (Inr (Some [?m], k', cache'))" "kept k' = kept ?k" "lru_good (env_fs env) cache'"
      "hc_request k' = Some r" "request_inv r" "rq_version r = v"
      "\<forall>h. h \<noteq> http_headers.UNKNOW \<longrightarrow> header_value (rq_headers r) h = new_header hs k h"
      "buf_data (input_buffer k') = []" "hc_reqstate k' = CHECK_REQUESTLINE" "alloc_buffer (input_buffer k')"
    unfolding nh by blast
  obtain buf where buf: "Buffer_append junk ?m Buffer_new = Inr buf" "alloc_buffer buf" "buf_data buf = ?m"
    using append_new [OF len] by blast
  let ?w = "w\<lparr>cw_heap := h\<rparr>"
  have "message_cb env penv junk dataLen t c (set_conn c ?k ?w) =
      conn_send (env_now env) junk (int (length (buf_data buf))) buf c ((set_conn c k' ?w)\<lparr>cw_cache := cache'\<rparr>)"
    using k'(1) buf(1) dataLen_eq [OF buf(2)] by (simp add: message_cb_def conn_of_def set_conn_def Let_def)
  moreover have "msg \<noteq> []" by (simp add: msg print_request_def CRLF_def)
  ultimately have "handleRead env penv junk dataLen t (Some msg) c w =
      conn_send (env_now env) junk (int (length (buf_data buf))) buf c ((set_conn c k' ?w)\<lparr>cw_cache := cache'\<rparr>)"
    using k(1,2) h ib(1) by (simp add: handleRead_def conn_of_def Let_def)
  then show ?thesis using buf(2,3) k'(2-10) by blast
qed

text \<open>The first request of a connection.\<close>

lemma read_file_request:
  assumes ok: "conn_ok c k w" and k: "k = HttpConnection_new fd d"
    and pr: "v \<noteq> http_version.UNKNOW" "nul \<notin> set url" "params_ok ps" "headers_ok hs"
    and fl: "lru_good (env_fs env) (cw_cache w)" "file_in (env_fs env) (WEB_ROOT @ url) bytes"
      "fs_stat (env_fs env) (WEB_ROOT @ url) = Some (s, ns, sz)"
    and plain: "\<not> is_php url" "map_of (rev hs) If_Modified_Since = None"
    and len: "4096 + 2 * length (print_request GET url ps v hs body) < 2 ^ 31"
      "4096 + 2 * length (file_reply env t v url s bytes) < 2 ^ 31"
  shows "\<exists>w'. handleRead env penv junk dataLen t (Some (print_request GET url ps v hs body)) c w = Some (Inr w') \<and>
    cw_sent w' = (cw_sent w)(fd := cw_sent w fd @ file_reply env t v url s bytes) \<and>
    lru_good (env_fs env) (cw_cache w') \<and>
    (cw_conns w' c = None \<longleftrightarrow> map_of (rev hs) Connection = Some ''close'' \<or> v = HTTP10)"
proof -
  let ?t = "print_request GET url ps v hs body" and ?m = "file_reply env t v url s bytes"
  have f: "hc_reqstate k = CHECK_REQUESTLINE" "request_kept k" "input_buffer k = Buffer_new" "hc_fd k = fd"
      "delay_timer (env_now env) k (cw_heap w) = Inr (Some (cw_heap w))"
      "new_header hs k h = (case map_of (rev hs) h of Some x \<Rightarrow> x | None \<Rightarrow> [])" for h
    by (simp_all add: k HttpConnection_new_def request_kept_def delay_timer_def new_header_def old_header_def
        split: option.split)
  have w0: "cw_conns w c = Some k" "\<not> cw_locked w" using ok by (auto simp: conn_ok_def)
  obtain ib where ib: "Buffer_readv junk (Some ?t) (input_buffer k) = Inr (int (length ?t), ib)" "alloc_buffer ib" "buf_data ib = ?t"
    using readv_new [OF len(1)] unfolding f(3) by blast
  have ims: "new_header hs k If_Modified_Since = []" using plain(2) by (simp add: f(6))
  from handleRead_file [OF w0 f(1,2,5) ib refl pr fl plain(1) ims len(2)] obtain k' r cache' buf where
    r: "alloc_buffer buf" "buf_data buf = ?m"
      "handleRead env penv junk dataLen t (Some ?t) c w = conn_send (env_now env) junk (int (length (buf_data buf))) buf c
         ((set_conn c k' (w\<lparr>cw_heap := cw_heap w\<rparr>))\<lparr>cw_cache := cache'\<rparr>)"
      "kept k' = kept (k\<lparr>input_buffer := ib\<rparr>)" "lru_good (env_fs env) cache'" "hc_request k' = Some r" "rq_version r = v"
      "\<forall>h. h \<noteq> http_headers.UNKNOW \<longrightarrow> header_value (rq_headers r) h = new_header hs k h"
    by blast
  let ?w = "(set_conn c k' w)\<lparr>cw_cache := cache'\<rparr>"
  have m: "HttpConn.more k' = HttpConn.more k" using kept_more [OF r(4)] by simp
  have fd: "hc_fd k' = fd" using more_fields(2) [OF m] f(4) by simp
  have "conn_ok c k' (set_conn c k' w)" by (rule conn_ok_more [OF ok m])
  then have ok': "conn_ok c k' ?w" by (simp add: conn_ok_def)
  have "closing r \<longleftrightarrow> map_of (rev hs) Connection = Some ''close'' \<or> v = HTTP10"
    using r(7,8) f(6) by (auto simp: closing_iff split: option.splits)
  moreover obtain w' where "conn_send (env_now env) junk (int (length (buf_data buf))) buf c ?w = Some (Inr w')"
      "cw_sent w' = (cw_sent ?w)(fd := cw_sent ?w fd @ ?m)" "cw_cache w' = cache'"
      "closing r \<longrightarrow> cw_conns w' c = None" "\<not> closing r \<longrightarrow> cw_conns w' c \<noteq> None"
    using send_whole [OF ok' r(6,1), of "env_now env" junk] fd r(2) by auto
  ultimately show ?thesis using r(3,5) by (auto simp: set_conn_def)
qed

section \<open>A connection that is kept alive\<close>

text \<open>The timer of the connection is the only one in the heap, knows its place and calls back the connection.\<close>

definition sole_timer :: "nat \<Rightarrow> HttpConnection \<Rightarrow> TimerHeap \<Rightarrow> bool" where
  "sole_timer c k h \<longleftrightarrow> 1 < length (th_vec h) \<and>
     (case hc_tim k of
        None \<Rightarrow> th_nums h = 0
      | Some a \<Rightarrow> th_nums h = 1 \<and> th_vec h ! 0 = Some a \<and> (\<exists>t. th_store h a = Some t \<and> timer_index t = 0 \<and> timer_cb t = Some c))"

text \<open>It expires the time of a kept connection from now.\<close>

definition armed :: "int \<Rightarrow> HttpConnection \<Rightarrow> TimerHeap \<Rightarrow> bool" where
  "armed now k h \<longleftrightarrow> (\<exists>a t. hc_tim k = Some a \<and> th_store h a = Some t \<and> expire t = now + int HTTP_KEEPALIVE_TIME)"

lemma th_inv_one: "th_nums h = 1 \<Longrightarrow> th_vec h ! 0 = Some a \<Longrightarrow> th_store h a \<noteq> None \<Longrightarrow> th_vec h \<noteq> [] \<Longrightarrow> th_inv h"
  by (auto simp: th_inv_def live_upto_def heap_upto_def live_def take_Suc hd_conv_nth neq_Nil_conv)

lemma delay_sole:
  assumes "sole_timer c k h" "th_inv h"
  shows "\<exists>h'. delay_timer now k h = Inr (Some h') \<and> sole_timer c k h' \<and> th_inv h' \<and> th_nums h' = th_nums h \<and>
    (\<forall>b. th_store h' b = None \<longleftrightarrow> th_store h b = None) \<and> (hc_tim k \<noteq> None \<longrightarrow> armed now k h')"
proof (cases "hc_tim k")
  case None
  then show ?thesis using assms by (auto simp: delay_timer_def)
next
  case (Some a)
  then obtain t where h: "1 < length (th_vec h)" "th_nums h = 1" "th_vec h ! 0 = Some a" "th_store h a = Some t" "timer_index t = 0"
      "timer_cb t = Some c"
    using assms(1) by (auto simp: sole_timer_def)
  let ?h = "h\<lparr>th_store := (th_store h)(a \<mapsto> t\<lparr>expire := now + int HTTP_KEEPALIVE_TIME\<rparr>)\<rparr>"
  have "TimerHeap_down 0 ?h = Inr ?h"
    using h by (simp add: TimerHeap_down_def down_loop.simps min_child_def)
  then have "delay_timer now k h = Inr (Some ?h)"
    using Some h(4,5) by (simp add: delay_timer_def deref_timer_def setExpire_def)
  moreover have "th_inv ?h" using h by (intro th_inv_one) auto
  ultimately show ?thesis using Some h by (intro exI [of _ ?h]) (auto simp: sole_timer_def armed_def)
qed

lemma pushTimer_empty:
  assumes "th_nums h = 0" "0 < length (th_vec h)" "th_store h a = Some t"
  shows "pushTimer (Some a) h = Inr (h\<lparr>th_vec := (th_vec h)[0 := Some a], th_nums := 1,
    th_store := (th_store h)(a \<mapsto> t\<lparr>timer_index := 0\<rparr>)\<rparr>)"
  using assms by (cases "th_vec h") (simp_all add: pushTimer_def up_loop.simps setIndex_def deref_timer_def)

text \<open>The connection waits for its next request.\<close>

definition waiting :: "nat \<Rightarrow> HttpConnection \<Rightarrow> conn_world \<Rightarrow> bool" where
  "waiting c k w \<longleftrightarrow>
     conn_ok c k w \<and> sole_timer c k (cw_heap w) \<and> (\<forall>a \<ge> cw_next w. th_store (cw_heap w) a = None) \<and>
     request_kept k \<and> hc_reqstate k = CHECK_REQUESTLINE \<and>
     wf_buffer (input_buffer k) \<and> vec_size (input_buffer k) = 4096 \<and> capcity (input_buffer k) = 4096 \<and> buf_data (input_buffer k) = []"

lemma waiting_request:
  "waiting c k w \<Longrightarrow> request_inv r \<Longrightarrow> waiting c (setRequest r k) (set_conn c (setRequest r k) w)"
  using conn_ok_request [of c k w r] by (auto simp: waiting_def setRequest_def set_conn_def sole_timer_def request_kept_def)

lemma keep_alive_waiting:
  assumes "waiting c k w"
  shows "\<exists>w' k'. keep_alive now c k w = Some (Inr w') \<and> waiting c k' w' \<and> cw_sent w' = cw_sent w \<and> cw_cache w' = cw_cache w \<and>
    k' = k\<lparr>hc_tim := hc_tim k'\<rparr> \<and> (hc_tim k = None \<or> armed now k (cw_heap w) \<longrightarrow> armed now k' (cw_heap w'))"
proof (cases "hc_tim k")
  case None
  let ?a = "cw_next w" and ?tim = "(Timer_new now HTTP_KEEPALIVE_TIME)\<lparr>timer_cb := Some c\<rparr>"
  let ?h = "(cw_heap w)\<lparr>th_store := (th_store (cw_heap w))(?a \<mapsto> ?tim)\<rparr>"
  have h: "th_nums (cw_heap w) = 0" "1 < length (th_vec (cw_heap w))" "\<not> cw_locked w"
    using assms None by (auto simp: waiting_def sole_timer_def conn_ok_def)
  let ?h' = "?h\<lparr>th_vec := (th_vec ?h)[0 := Some ?a], th_nums := 1, th_store := (th_store ?h)(?a \<mapsto> ?tim\<lparr>timer_index := 0\<rparr>)\<rparr>"
  have "pushTimer (Some ?a) ?h = Inr ?h'" by (rule pushTimer_empty) (use h in auto)
  then have res: "keep_alive now c k w = Some (Inr (set_conn c (k\<lparr>hc_tim := Some ?a\<rparr>) (w\<lparr>cw_heap := ?h', cw_next := ?a + 1\<rparr>)))"
    using None h(3) by (simp add: keep_alive_def Let_def)
  have ne: "th_vec (cw_heap w) \<noteq> []" using h(2) by (cases "th_vec (cw_heap w)") auto
  then have first: "(th_vec (cw_heap w))[0 := Some ?a] ! 0 = Some ?a" by (cases "th_vec (cw_heap w)") auto
  then have "th_inv ?h'" using ne by (intro th_inv_one) auto
  with first have "waiting c (k\<lparr>hc_tim := Some ?a\<rparr>) (set_conn c (k\<lparr>hc_tim := Some ?a\<rparr>) (w\<lparr>cw_heap := ?h', cw_next := ?a + 1\<rparr>))"
    using assms h(2) by (auto simp: waiting_def conn_ok_def set_conn_def sole_timer_def request_kept_def)
  then show ?thesis using res
    by (intro exI [of _ "set_conn c (k\<lparr>hc_tim := Some ?a\<rparr>) (w\<lparr>cw_heap := ?h', cw_next := ?a + 1\<rparr>)"]
        exI [of _ "k\<lparr>hc_tim := Some ?a\<rparr>"]) (simp add: set_conn_def armed_def Timer_new_def)
next
  case (Some a)
  have "set_conn c k w = w" using assms by (intro conn_ok_same) (simp add: waiting_def)
  then show ?thesis using Some assms by (intro exI [of _ w] exI [of _ k]) (simp add: keep_alive_def)
qed

lemma send_waiting:
  assumes "waiting c k w" "hc_request k = Some r" "\<not> closing r" "alloc_buffer buf"
  shows "\<exists>w' k'. conn_send now junk (int (length (buf_data buf))) buf c w = Some (Inr w') \<and> waiting c k' w' \<and>
    cw_sent w' = (cw_sent w)(hc_fd k := cw_sent w (hc_fd k) @ buf_data buf) \<and> cw_cache w' = cw_cache w \<and>
    input_buffer k' = input_buffer k \<and> hc_fd k' = hc_fd k \<and> hc_request k' = Some (snd (getHeader ''Connection'' r)) \<and>
    (hc_tim k = None \<or> armed now k (cw_heap w) \<longrightarrow> armed now k' (cw_heap w'))"
proof -
  let ?w = "put_bytes (hc_fd k) (buf_data buf) w" and ?k = "setRequest (snd (getHeader ''Connection'' r)) k"
  have "request_inv r" using assms(1,2) by (auto simp: waiting_def request_kept_def)
  then have "waiting c ?k (set_conn c ?k w)" using assms(1) by (intro waiting_request request_inv_getHeader)
  then have wt: "waiting c ?k (set_conn c ?k ?w)" by (simp add: waiting_def put_bytes_def set_conn_def conn_ok_def)
  have same: "cw_sent (set_conn c ?k ?w) = cw_sent ?w" "cw_cache (set_conn c ?k ?w) = cw_cache w"
      "cw_heap (set_conn c ?k ?w) = cw_heap w" "hc_tim ?k = hc_tim k" "armed now ?k h = armed now k h" for h
    by (simp_all add: set_conn_def put_bytes_def setRequest_def armed_def)
  from keep_alive_waiting [OF wt, of now, unfolded same] obtain w' k' where
    w': "keep_alive now c ?k (set_conn c ?k ?w) = Some (Inr w')" "waiting c k' w'" "cw_sent w' = cw_sent ?w" "cw_cache w' = cw_cache w"
      "k' = ?k\<lparr>hc_tim := hc_tim k'\<rparr>" "hc_tim k = None \<or> armed now k (cw_heap w) \<longrightarrow> armed now k' (cw_heap w')"
    by blast
  have "keep_alive now c ?k (set_conn c ?k ?w) = keep_alive now c ?k ?w"
    by (auto simp: keep_alive_def set_conn_def Let_def)
  then have "finish_reply now c k (\<lambda>w. Inr w) ?w = Some (Inr w')"
    using w'(1) request_closes_eq [OF assms(2)] assms(3) by (simp add: finish_reply_def)
  moreover have "cw_conns w c = Some k" using assms(1) by (simp add: waiting_def conn_ok_def)
  then have "conn_send now junk (int (length (buf_data buf))) buf c w = finish_reply now c k (\<lambda>w. Inr w) ?w"
    using dataLen_eq [OF assms(4)] by (simp add: conn_send_def conn_of_def Let_def)
  moreover have "input_buffer k' = input_buffer k \<and> hc_fd k' = hc_fd k \<and> hc_request k' = Some (snd (getHeader ''Connection'' r))"
    by (subst (1 2 3) w'(5)) (simp add: setRequest_def)
  ultimately show ?thesis using w'(2-4,6) by auto
qed

section \<open>Sessions\<close>

text \<open>A request for a file with what the server knows of the file, and the texts that go over the wire.\<close>

record file_request =
  fq_url :: string
  fq_params :: "(string \<times> string) list"
  fq_headers :: "(http_headers \<times> string) list"
  fq_body :: string
  fq_bytes :: string
  fq_mtime :: int
  fq_time :: int

definition request_text :: "file_request \<Rightarrow> string" where
  "request_text q = print_request GET (fq_url q) (fq_params q) HTTP11 (fq_headers q) (fq_body q)"

definition reply_text :: "server_env \<Rightarrow> file_request \<Rightarrow> string" where
  "reply_text env q = file_reply env (fq_time q) HTTP11 (fq_url q) (fq_mtime q) (fq_bytes q)"

text \<open>The file exists, and the request neither asks to close the connection nor has a condition.\<close>

definition plain_request :: "server_env \<Rightarrow> file_request \<Rightarrow> bool" where
  "plain_request env q \<longleftrightarrow>
     nul \<notin> set (fq_url q) \<and> params_ok (fq_params q) \<and> headers_ok (fq_headers q) \<and> \<not> is_php (fq_url q) \<and>
     file_in (env_fs env) (WEB_ROOT @ fq_url q) (fq_bytes q) \<and>
     (case fs_stat (env_fs env) (WEB_ROOT @ fq_url q) of None \<Rightarrow> False | Some (s, _, _) \<Rightarrow> s = fq_mtime q) \<and>
     map_of (fq_headers q) If_Modified_Since = None \<and> (Connection, ''close'') \<notin> set (fq_headers q) \<and>
     4096 + 2 * length (reply_text env q) < 2 ^ 31"

text \<open>What the server has read and answered on a connection.\<close>

definition served :: "nat \<Rightarrow> HttpConnection \<Rightarrow> conn_world \<Rightarrow> nat \<Rightarrow> bool" where
  "served c k w n \<longleftrightarrow> waiting c k w \<and> high (input_buffer k) = int n \<and>
     old_header k If_Modified_Since = [] \<and> old_header k Connection \<noteq> ''close''"

lemma readv_room:
  assumes "wf_buffer b" "capcity b = vec_size b" "high b + int (length xs) \<le> int (vec_size b)"
  shows "\<exists>b'. Buffer_readv junk (Some xs) b = Inr (int (length xs), b') \<and> alloc_buffer b' \<and> buf_data b' = buf_data b @ xs \<and>
    high b' = high b + int (length xs) \<and> vec_size b' = vec_size b \<and> capcity b' = capcity b"
proof -
  obtain b' where b': "copy_at_high xs b = Inr b'" "alloc_buffer b'" "buf_data b' = buf_data b @ xs"
      "high b' = high b + int (length xs)" "vec_size b' = vec_size b" "capcity b' = capcity b"
    using copy_at_high_data [OF wf_alloc_buffer [OF assms(1)], of xs] assms(2,3) by auto
  have "int (length xs) < 2 ^ 31" using assms by (auto simp: wf_buffer_def)
  then have "to_int32 (int (length xs)) = int (length xs)" by (simp add: to_int32_id)
  then show ?thesis using b' writeLen_eq [OF assms(1)] assms(3) by (auto simp: Buffer_readv_def)
qed

lemma serve_one:
  assumes sv: "served c k w n" and q: "plain_request env q" and lru: "lru_good (env_fs env) (cw_cache w)"
    and n: "n + length (request_text q) \<le> 4096"
  shows "\<exists>w' k'. handleRead env penv junk dataLen (fq_time q) (Some (request_text q)) c w = Some (Inr w') \<and>
    served c k' w' (n + length (request_text q)) \<and> lru_good (env_fs env) (cw_cache w') \<and>
    cw_sent w' = (cw_sent w)(hc_fd k := cw_sent w (hc_fd k) @ reply_text env q) \<and> hc_fd k' = hc_fd k \<and>
    armed (env_now env) k' (cw_heap w')"
proof -
  have wt: "waiting c k w" and hi: "high (input_buffer k) = int n"
    and old: "old_header k If_Modified_Since = []" "old_header k Connection \<noteq> ''close''"
    using sv by (auto simp: served_def)
  have ok: "conn_ok c k w" and k: "cw_conns w c = Some k" "\<not> cw_locked w" "hc_reqstate k = CHECK_REQUESTLINE" "request_kept k"
    and ib: "wf_buffer (input_buffer k)" "vec_size (input_buffer k) = 4096" "capcity (input_buffer k) = 4096" "buf_data (input_buffer k) = []"
    using wt by (auto simp: waiting_def conn_ok_def)
  obtain h where h: "delay_timer (env_now env) k (cw_heap w) = Inr (Some h)" "sole_timer c k h" "th_inv h" "th_nums h = th_nums (cw_heap w)"
      "\<forall>b. th_store h b = None \<longleftrightarrow> th_store (cw_heap w) b = None" "hc_tim k \<noteq> None \<longrightarrow> armed (env_now env) k h"
  proof -
    have "sole_timer c k (cw_heap w)" "th_inv (cw_heap w)" using wt by (auto simp: waiting_def conn_ok_def)
    from delay_sole [OF this, of "env_now env"] that show ?thesis by blast
  qed
  obtain b where b: "Buffer_readv junk (Some (request_text q)) (input_buffer k) = Inr (int (length (request_text q)), b)"
      "alloc_buffer b" "buf_data b = request_text q" "high b = int (n + length (request_text q))" "vec_size b = 4096" "capcity b = 4096"
    using readv_room [OF ib(1), of "request_text q" junk] ib hi n by auto
  let ?hs = "fq_headers q"
  have pr: "HTTP11 \<noteq> http_version.UNKNOW" "nul \<notin> set (fq_url q)" "params_ok (fq_params q)" "headers_ok ?hs" "\<not> is_php (fq_url q)"
      "file_in (env_fs env) (WEB_ROOT @ fq_url q) (fq_bytes q)"
      "4096 + 2 * length (file_reply env (fq_time q) HTTP11 (fq_url q) (fq_mtime q) (fq_bytes q)) < 2 ^ 31"
    using q by (simp_all add: plain_request_def reply_text_def)
  obtain ns sz where fs: "fs_stat (env_fs env) (WEB_ROOT @ fq_url q) = Some (fq_mtime q, ns, sz)"
    using q by (auto simp: plain_request_def split: option.splits)
  have "map_of (rev ?hs) If_Modified_Since = None" using q by (simp add: plain_request_def map_of_eq_None_iff)
  then have ims: "new_header ?hs k If_Modified_Since = []" using old(1) by (simp add: new_header_def)
  have "(Connection, ''close'') \<notin> set (rev ?hs)" using q by (simp add: plain_request_def)
  then have con: "new_header ?hs k Connection \<noteq> ''close''"
    using old(2) by (auto simp: new_header_def split: option.splits dest!: map_of_SomeD)
  from handleRead_file [OF k h(1) b(1-3) request_text_def pr(1-4) lru pr(6) fs pr(5) ims pr(7)] obtain k' r cache' buf where
    r: "alloc_buffer buf" "buf_data buf = reply_text env q"
      "handleRead env penv junk dataLen (fq_time q) (Some (request_text q)) c w =
        conn_send (env_now env) junk (int (length (buf_data buf))) buf c ((set_conn c k' (w\<lparr>cw_heap := h\<rparr>))\<lparr>cw_cache := cache'\<rparr>)"
      "kept k' = kept (k\<lparr>input_buffer := b\<rparr>)" "lru_good (env_fs env) cache'" "hc_request k' = Some r" "request_inv r" "rq_version r = HTTP11"
      "\<forall>h. h \<noteq> http_headers.UNKNOW \<longrightarrow> header_value (rq_headers r) h = new_header ?hs k h"
      "buf_data (input_buffer k') = []" "hc_reqstate k' = CHECK_REQUESTLINE" "alloc_buffer (input_buffer k')"
    unfolding reply_text_def by blast
  let ?w = "(set_conn c k' (w\<lparr>cw_heap := h\<rparr>))\<lparr>cw_cache := cache'\<rparr>"
  have m: "HttpConn.more k' = HttpConn.more k" using kept_more [OF r(4)] by simp
  note mf = more_fields [OF m]
  have "conn_ok c k (w\<lparr>cw_heap := h\<rparr>)"
    using ok h wt by (auto simp: conn_ok_def sole_timer_def waiting_def split: option.splits)
  from conn_ok_more [OF this m] have "conn_ok c k' ?w" by (simp add: conn_ok_def)
  moreover have buf': "vec_mem (input_buffer k') = vec_mem b" "vec_size (input_buffer k') = 4096" "high (input_buffer k') = high b"
      "capcity (input_buffer k') = 4096"
    using r(4) b(5,6) by (auto simp: kept_def capcity_def)
  moreover have "wf_buffer (input_buffer k')"
    using r(12) buf' by (simp add: wf_buffer_def alloc_buffer_def)
  ultimately have wt': "waiting c k' ?w"
    using wt h(2,5) mf r(6,7,10,11) by (auto simp: waiting_def sole_timer_def request_kept_def set_conn_def split: option.splits)
  have cl: "\<not> closing r" using r(8,9) con by (simp add: closing_iff)
  from send_waiting [OF wt' r(6) cl r(1), of "env_now env" junk] obtain w' k'' where
    w': "conn_send (env_now env) junk (int (length (buf_data buf))) buf c ?w = Some (Inr w')" "waiting c k'' w'"
      "cw_sent w' = (cw_sent ?w)(hc_fd k' := cw_sent ?w (hc_fd k') @ buf_data buf)" "cw_cache w' = cw_cache ?w"
      "input_buffer k'' = input_buffer k'" "hc_fd k'' = hc_fd k'" "hc_request k'' = Some (snd (getHeader ''Connection'' r))"
      "hc_tim k' = None \<or> armed (env_now env) k' (cw_heap ?w) \<longrightarrow> armed (env_now env) k'' (cw_heap w')"
    by blast
  have "hc_tim k' = None \<or> armed (env_now env) k' (cw_heap ?w)" using h(6) mf by (auto simp: armed_def set_conn_def)
  then have arm: "armed (env_now env) k'' (cw_heap w')" using w'(8) by blast
  have "old_header k'' g = new_header ?hs k g" if "g \<noteq> http_headers.UNKNOW" for g
    using w'(7) getHeader_keeps(1) [OF r(7)] r(9) that by (simp add: old_header_def)
  then have "served c k'' w' (n + length (request_text q))"
    using w'(2,5) buf'(3) b(4) ims con by (simp add: served_def)
  then show ?thesis using r(2,3,5) w'(1,3,4,6) mf(2) arm by (auto simp: set_conn_def)
qed

text \<open>A session: the requests arrive one after the other, each in one piece.\<close>

fun serve ::
  "server_env \<Rightarrow> 's php_env \<Rightarrow> (nat \<Rightarrow> char) \<Rightarrow> nat \<Rightarrow> file_request list \<Rightarrow> conn_world \<Rightarrow> conn_world result option" where
  "serve env penv junk c [] w = Some (Inr w)"
| "serve env penv junk c (q # qs) w =
     and_run (handleRead env penv junk dataLen (fq_time q) (Some (request_text q)) c w) (serve env penv junk c qs)"

definition total :: "file_request list \<Rightarrow> nat" where
  "total qs = (\<Sum>q \<leftarrow> qs. length (request_text q))"

lemma serve_all:
  assumes "served c k w n" "\<forall>q \<in> set qs. plain_request env q" "lru_good (env_fs env) (cw_cache w)" "n + total qs \<le> 4096"
  shows "\<exists>w' k'. serve env penv junk c qs w = Some (Inr w') \<and> served c k' w' (n + total qs) \<and> hc_fd k' = hc_fd k \<and>
    cw_sent w' = (cw_sent w)(hc_fd k := cw_sent w (hc_fd k) @ concat (map (reply_text env) qs)) \<and>
    (qs \<noteq> [] \<or> armed (env_now env) k (cw_heap w) \<longrightarrow> armed (env_now env) k' (cw_heap w'))"
  using assms
proof (induction qs arbitrary: k w n)
  case Nil
  then show ?case by (auto simp: total_def)
next
  case (Cons q qs)
  have "plain_request env q" "n + length (request_text q) \<le> 4096" using Cons.prems by (simp_all add: total_def)
  from serve_one [OF Cons.prems(1) this(1) Cons.prems(3) this(2), of penv junk] obtain w1 k1 where
    w1: "handleRead env penv junk dataLen (fq_time q) (Some (request_text q)) c w = Some (Inr w1)"
      "served c k1 w1 (n + length (request_text q))" "lru_good (env_fs env) (cw_cache w1)"
      "cw_sent w1 = (cw_sent w)(hc_fd k := cw_sent w (hc_fd k) @ reply_text env q)" "hc_fd k1 = hc_fd k"
      "armed (env_now env) k1 (cw_heap w1)"
    by blast
  have "\<forall>q \<in> set qs. plain_request env q" "n + length (request_text q) + total qs \<le> 4096"
    using Cons.prems by (simp_all add: total_def)
  from Cons.IH [OF w1(2) this(1) w1(3) this(2)] obtain w' k' where
    "serve env penv junk c qs w1 = Some (Inr w')" "served c k' w' (n + length (request_text q) + total qs)" "hc_fd k' = hc_fd k1"
      "cw_sent w' = (cw_sent w1)(hc_fd k1 := cw_sent w1 (hc_fd k1) @ concat (map (reply_text env) qs))"
      "armed (env_now env) k' (cw_heap w')"
    using w1(6) by blast
  then show ?case using w1(1,4,5)
    by (intro exI [of _ w'] exI [of _ k']) (simp add: total_def add.assoc)
qed

lemma accept_served:
  assumes "world_ok w" "th_nums (cw_heap w) = 0" "1 < length (th_vec (cw_heap w))"
    and "accept_loop accepts = Some fd" "0 \<le> fd" "dispatcher_map (cw_ep w) fd = None" "getLoop fd pool = Inr (Some l)"
  shows "\<exists>c k w1 w2. AcceptCallback accepts pool w = Some (Inr (Some (l, c), w1)) \<and> connecionEstablished c w1 = Inr w2 \<and>
    served c k w2 0 \<and> hc_fd k = fd \<and> cw_sent w2 = cw_sent w \<and> cw_cache w2 = cw_cache w"
proof -
  let ?k = "HttpConnection_new fd (cw_next w)" and ?c = "cw_next w + 1"
  obtain w1 w2 where w: "AcceptCallback accepts pool w = Some (Inr (Some (l, ?c), w1))" "connecionEstablished ?c w1 = Inr w2"
      "conn_ok ?c ?k w2" "cw_sent w2 = cw_sent w" "cw_cache w2 = cw_cache w" "cw_heap w2 = cw_heap w" "cw_next w2 = cw_next w + 2"
    using accept_established [OF assms(1,4-7) refl] by blast
  have "served ?c ?k w2 0"
    using w(3,6,7) assms(1-3) wf_Buffer_new buf_data_new
    by (simp add: served_def waiting_def sole_timer_def world_ok_def HttpConnection_new_def request_kept_def old_header_def)
      (simp add: Buffer_new_def capcity_def)
  then show ?thesis using w(1,2,4,5) by (intro exI conjI) (assumption | simp add: HttpConnection_new_def)+
qed

lemma session_served:
  assumes "world_ok w" "th_nums (cw_heap w) = 0" "1 < length (th_vec (cw_heap w))"
    and "accept_loop accepts = Some fd" "0 \<le> fd" "dispatcher_map (cw_ep w) fd = None" "getLoop fd pool = Inr (Some l)"
    and "lru_good (env_fs env) (cw_cache w)" "\<forall>q \<in> set qs. plain_request env q" "total qs \<le> 4096"
  shows "\<exists>c k w1 w2 w3. AcceptCallback accepts pool w = Some (Inr (Some (l, c), w1)) \<and> connecionEstablished c w1 = Inr w2 \<and>
    serve env penv junk c qs w2 = Some (Inr w3) \<and> served c k w3 (total qs) \<and> hc_fd k = fd \<and>
    cw_sent w3 = (cw_sent w)(fd := cw_sent w fd @ concat (map (reply_text env) qs)) \<and>
    (qs \<noteq> [] \<longrightarrow> armed (env_now env) k (cw_heap w3))"
proof -
  obtain c k w1 w2 where a: "AcceptCallback accepts pool w = Some (Inr (Some (l, c), w1))" "connecionEstablished c w1 = Inr w2"
      "served c k w2 0" "hc_fd k = fd" "cw_sent w2 = cw_sent w" "cw_cache w2 = cw_cache w"
    using accept_served [OF assms(1-7)] by blast
  have "lru_good (env_fs env) (cw_cache w2)" "0 + total qs \<le> 4096" using assms(8,10) a(6) by simp_all
  from serve_all [OF a(3) assms(9) this, of penv junk] obtain w3 k' where
    "serve env penv junk c qs w2 = Some (Inr w3)" "served c k' w3 (total qs)" "hc_fd k' = fd"
      "cw_sent w3 = (cw_sent w)(fd := cw_sent w fd @ concat (map (reply_text env) qs))"
      "qs \<noteq> [] \<longrightarrow> armed (env_now env) k' (cw_heap w3)"
    unfolding a(4,5) add_0 by blast
  then show ?thesis using a(1,2) by blast
qed

lemma served_open: "served c k w n \<Longrightarrow> cw_conns w c = Some k"
  by (simp add: served_def waiting_def conn_ok_def)

text \<open>
  Input that does not fit behind what the connection has already used, but would fit into an empty
  buffer, makes the buffer compact its data, and the copy that follows runs past its end.
\<close>

lemma readv_compacts:
  assumes "wf_buffer b" "capcity b = vec_size b" "buf_data b = []"
    and "int (vec_size b) < high b + int (length xs)" "length xs \<le> vec_size b"
  shows "Buffer_readv junk (Some xs) b = Inl Out_of_bounds"
proof -
  have b: "0 \<le> low b" "low b \<le> high b" "high b \<le> int (vec_size b)" "vec_size b < 2 ^ 31" using assms(1,2) by (auto simp: wf_buffer_def)
  have lh: "low b = high b" using length_buf_data [OF wf_alloc_buffer [OF assms(1)]] assms(3) b by simp
  let ?n = "nat (writeLen b)"
  have wl: "writeLen b = int (vec_size b) - high b" by (rule writeLen_eq [OF assms(1)])
  then have n: "int ?n = int (vec_size b) - high b" "?n < length xs" using b(3) assms(4) by auto
  define mem where "mem = take (nat (high b)) (vec_mem b) @ take ?n xs @ drop (nat (high b) + length (take ?n xs)) (vec_mem b)"
  have mem: "mem_write (vec_mem b) (high b) (take ?n xs) = Inr mem" "length mem = length (vec_mem b)"
    using wl n(2) b assms(2) by (auto simp: mem_write_def mem_def capcity_def)
  let ?b = "b\<lparr>vec_mem := mem, high := to_int32 (int (vec_size b))\<rparr>"
  have hi: "to_int32 (int (vec_size b)) = int (vec_size b)" using b(4) by (simp add: to_int32_id)
  have wf: "wf_buffer ?b" "capcity ?b = vec_size ?b"
    using assms(1,2) mem(2) hi b by (auto simp: wf_buffer_def capcity_def)
  have "Buffer_append junk (drop ?n xs) ?b = Inl Out_of_bounds"
    by (rule append_compaction [OF wf]) (use n wl b lh assms(4,5) hi writeLen_eq [OF wf(1)] freeLen_eq [OF wf(1)] in auto)
  then show ?thesis using mem(1) wl assms(4) by (simp add: Buffer_readv_def)
qed

lemma read_overflows:
  assumes "served c k w n" "4096 < n + length xs" "length xs \<le> 4096"
  shows "handleRead env penv junk wr t (Some xs) c w = Some (Inl Out_of_bounds)"
proof -
  have wt: "waiting c k w" and hi: "high (input_buffer k) = int n" using assms(1) by (auto simp: served_def)
  have "sole_timer c k (cw_heap w)" "th_inv (cw_heap w)" using wt by (auto simp: waiting_def conn_ok_def)
  from delay_sole [OF this, of "env_now env"] obtain h where "delay_timer (env_now env) k (cw_heap w) = Inr (Some h)" by blast
  moreover have "Buffer_readv junk (Some xs) (input_buffer k) = Inl Out_of_bounds"
    using wt hi assms(2,3) by (intro readv_compacts) (auto simp: waiting_def)
  ultimately show ?thesis using wt by (simp add: handleRead_def conn_of_def waiting_def conn_ok_def)
qed

text \<open>
  The alarm on a heap with one timer.  Before its time \<open>tick\<close> leaves it alone; then its callback runs first.  When the
  callback leaves the heap alone, the timer is taken out and marked; when it has freed the timer, \<open>popTimer\<close>
  writes to freed memory.
\<close>

lemma popTimer_sole:
  assumes "th_nums h = 1" "th_vec h ! 0 = Some a" "1 < length (th_vec h)"
  shows "popTimer h = (case th_store h a of None \<Rightarrow> Inl Use_after_free
    | Some t \<Rightarrow> Inr \<lparr>th_vec = (th_vec h)[0 := None], th_nums = 0, th_store = (th_store h)(a \<mapsto> t\<lparr>timer_index := -2\<rparr>)\<rparr>)"
proof -
  have "0 < length (th_vec h)" "list_swap (th_vec h) 0 0 = th_vec h" using assms(3) by (auto simp: list_swap_def)
  then show ?thesis
    using assms
    by (simp add: popTimer_def swap_cells_def setIndex_def deref_timer_def TimerHeap_down_def down_loop.simps split: option.splits)
qed

lemma tick_sole:
  assumes "th_nums h = 1" "th_vec h ! 0 = Some a" "th_store h a = Some t" "1 < length (th_vec h)" "timer_cb t = Some c"
  shows "expire t > cur \<Longrightarrow> tick call cur (h, s) = Some (Inr (h, s))"
    and "\<not> expire t > cur \<Longrightarrow> call c (h, s) = Inr (h, s') \<Longrightarrow>
      tick call cur (h, s) =
        Some (Inr (\<lparr>th_vec = (th_vec h)[0 := None], th_nums = 0, th_store = (th_store h)(a \<mapsto> t\<lparr>timer_index := -2\<rparr>)\<rparr>, s'))"
    and "\<not> expire t > cur \<Longrightarrow> call c (h, s) = Inr (h\<lparr>th_store := (th_store h)(a := None)\<rparr>, s') \<Longrightarrow>
      tick call cur (h, s) = Some (Inl Use_after_free)"
proof -
  have "th_inv h" using assms(1-4) by (intro th_inv_one [of h a]) auto
  note st = tick_step [OF this _ assms(2,3), of call cur s]
  show "expire t > cur \<Longrightarrow> tick call cur (h, s) = Some (Inr (h, s))" using st assms(1) by simp
  let ?h = "\<lparr>th_vec = (th_vec h)[0 := None], th_nums = 0, th_store = (th_store h)(a \<mapsto> t\<lparr>timer_index := -2\<rparr>)\<rparr>"
  have "TimerHeap_empty ?h" by (simp add: TimerHeap_empty_def)
  then show "\<not> expire t > cur \<Longrightarrow> call c (h, s) = Inr (h, s') \<Longrightarrow> tick call cur (h, s) = Some (Inr (?h, s'))"
    using st assms popTimer_sole [OF assms(1,2,4)] by (simp add: tick_stop)
  show "\<not> expire t > cur \<Longrightarrow> call c (h, s) = Inr (h\<lparr>th_store := (th_store h)(a := None)\<rparr>, s') \<Longrightarrow>
      tick call cur (h, s) = Some (Inl Use_after_free)"
    using st assms popTimer_sole [of "h\<lparr>th_store := (th_store h)(a := None)\<rparr>" a] by simp
qed

text \<open>What the alarm makes of the only timer of a connection that waits.\<close>

lemma waiting_timer:
  assumes "waiting c k w" "armed now k (cw_heap w)"
  obtains a t where "hc_tim k = Some a" "th_store (cw_heap w) a = Some t" "expire t = now + int HTTP_KEEPALIVE_TIME"
    "th_nums (cw_heap w) = 1" "th_vec (cw_heap w) ! 0 = Some a" "1 < length (th_vec (cw_heap w))" "timer_cb t = Some c"
  using assms by (auto simp: waiting_def sole_timer_def armed_def)

text \<open>The close that was left to the loop, run after the timer has been taken out.\<close>

lemma fired_closes:
  assumes "waiting c k w" "hc_tim k = Some a" "th_store (cw_heap w) a = Some t"
    and h: "h = \<lparr>th_vec = (th_vec (cw_heap w))[0 := None], th_nums = 0, th_store = (th_store (cw_heap w))(a \<mapsto> t\<lparr>timer_index := -2\<rparr>)\<rparr>"
  shows "\<exists>w'. run_functors handleClose [c] (w\<lparr>cw_heap := h\<rparr>) = Inr w' \<and> cw_conns w' c = None \<and>
    cw_list w' = remove1 c (cw_list w) \<and> cw_sent w' = cw_sent w \<and> th_nums (cw_heap w') = 0 \<and> th_store (cw_heap w') a = None"
proof -
  have "1 < length (th_vec (cw_heap w))" using assms(1) by (auto simp: waiting_def sole_timer_def)
  then have "conn_ok c k (w\<lparr>cw_heap := h\<rparr>)"
    using assms(1-3) by (auto simp: h waiting_def conn_ok_def th_inv_def live_upto_def heap_upto_def)
  from handleClose_ok [OF this] show ?thesis using assms(2) by (auto simp: h)
qed

end
