(* ===== verification/Sone_Socket.thy ===== *)
theory Sone_Socket
  imports Sone_Prelude "HOL-Library.Word"
begin

text \<open>
  Addresses and sockets: \<^verbatim>\<open>src/http_server/InetAddress.cpp\<close>, \<^verbatim>\<open>InetAddress.h\<close>, \<^verbatim>\<open>Socket.cpp\<close> and
  \<^verbatim>\<open>Socket.h\<close>.  An address is the 28 bytes of the union of \<open>sockaddr_in\<close> and \<open>sockaddr_in6\<close>, written
  field by field on a little-endian machine, so that what one member of the union reads of the other
  is visible; bytes no constructor writes are an argument.  The descriptors of the process carry the
  flags and options the class sets.  What the kernel decides (the descriptor \<open>socket\<close> and \<open>accept\<close>
  return, whether an address can be bound, the result of \<open>connect\<close>) is an argument, and so are
  \<open>inet_pton\<close> and \<open>inet_ntop\<close>.
\<close>

unbundle bit_operations_syntax

section \<open>Byte order\<close>

type_synonym byte = "8 word"

definition htons :: "16 word \<Rightarrow> 16 word" where
  "htons x = push_bit 8 x OR drop_bit 8 x"

definition htonl :: "32 word \<Rightarrow> 32 word" where
  "htonl x = push_bit 24 x OR push_bit 8 (x AND 0xFF00) OR (drop_bit 8 x AND 0xFF00) OR drop_bit 24 x"

text \<open>The bytes of a value in memory.\<close>

definition store16 :: "16 word \<Rightarrow> byte list" where
  "store16 x = [ucast x, ucast (drop_bit 8 x)]"

definition store32 :: "32 word \<Rightarrow> byte list" where
  "store32 x = [ucast x, ucast (drop_bit 8 x), ucast (drop_bit 16 x), ucast (drop_bit 24 x)]"

definition load16 :: "nat \<Rightarrow> byte list \<Rightarrow> 16 word" where
  "load16 i mem = ucast (mem ! i) OR push_bit 8 (ucast (mem ! Suc i))"

definition put_at :: "nat \<Rightarrow> byte list \<Rightarrow> byte list \<Rightarrow> byte list" where
  "put_at i bs mem = take i mem @ bs @ drop (i + length bs) mem"

section \<open>Addresses\<close>

definition AF_INET :: "16 word" where "AF_INET = 2"
definition AF_INET6 :: "16 word" where "AF_INET6 = 10"

definition INADDR_ANY :: "32 word" where "INADDR_ANY = 0"
definition INADDR_LOOPBACK :: "32 word" where "INADDR_LOOPBACK = 0x7F000001"

definition in6addr_any :: "byte list" where "in6addr_any = replicate 16 0"
definition in6addr_loopback :: "byte list" where "in6addr_loopback = replicate 15 0 @ [1]"

text \<open>Sizes and offsets of the two structures: the family and the port are at the same place in both.\<close>

definition sizeof_sockaddr_in :: nat where "sizeof_sockaddr_in = 16"
definition sizeof_sockaddr_in6 :: nat where "sizeof_sockaddr_in6 = 28"

datatype addr_type = IPV4 | IPV6

record InetAddress =
  ia_mem :: "byte list"
  ia_type :: addr_type

text \<open>The default constructor leaves the memory of the object as it is.\<close>

definition InetAddress_default :: "InetAddress \<Rightarrow> InetAddress" where
  "InetAddress_default mem = mem"

definition InetAddress_port :: "InetAddress \<Rightarrow> 16 word \<Rightarrow> bool \<Rightarrow> bool \<Rightarrow> InetAddress" where
  "InetAddress_port a port isloop ipv6 =
     (if ipv6 then
        let mem = put_at 0 (replicate sizeof_sockaddr_in6 0) (ia_mem a);
            mem = put_at 0 (store16 AF_INET6) mem;
            mem = put_at 8 (if isloop then in6addr_loopback else in6addr_any) mem;
            mem = put_at 2 (store16 (htons port)) mem
        in \<lparr>ia_mem = mem, ia_type = IPV6\<rparr>
      else
        let mem = put_at 0 (replicate sizeof_sockaddr_in 0) (ia_mem a);
            mem = put_at 0 (store16 AF_INET) mem;
            mem = put_at 4 (store32 (if isloop then htonl INADDR_LOOPBACK else htonl INADDR_ANY)) mem;
            mem = put_at 2 (store16 (htons port)) mem
        in \<lparr>ia_mem = mem, ia_type = IPV4\<rparr>)"

text \<open>\<open>inet_pton\<close> fills in the bytes of the address and returns 1, returns 0 for a text that is not an
  address, or -1 for an unknown family.\<close>

datatype pton_result = Pton_ok "byte list" | Pton_bad_text | Pton_bad_family

datatype socket_log = Socket_failed | Close_failed | Accept_failed | Block_failed | Cloexec_failed
  | Bad_address | Bad_family

definition InetAddress_ip ::
  "(16 word \<Rightarrow> string \<Rightarrow> pton_result) \<Rightarrow> InetAddress \<Rightarrow> string \<Rightarrow> 16 word \<Rightarrow> bool \<Rightarrow> InetAddress \<times> socket_log list" where
  "InetAddress_ip pton a ip port ipv6 =
     (if ipv6 then
        let mem = put_at 0 (replicate sizeof_sockaddr_in6 0) (ia_mem a);
            mem = put_at 0 (store16 AF_INET6) mem;
            res = pton AF_INET6 ip;
            mem = (case res of Pton_ok bs \<Rightarrow> put_at 8 bs mem | _ \<Rightarrow> mem);
            lines = (case res of Pton_ok bs \<Rightarrow> [] | Pton_bad_text \<Rightarrow> [Bad_address] | Pton_bad_family \<Rightarrow> [Bad_family]);
            mem = put_at 2 (store16 (htons port)) mem
        in (\<lparr>ia_mem = mem, ia_type = IPV6\<rparr>, lines)
      else
        let mem = put_at 0 (replicate sizeof_sockaddr_in 0) (ia_mem a);
            mem = put_at 0 (store16 AF_INET) mem;
            res = pton AF_INET ip;
            mem = (case res of Pton_ok bs \<Rightarrow> put_at 4 bs mem | _ \<Rightarrow> mem);
            lines = (case res of Pton_ok bs \<Rightarrow> [] | Pton_bad_text \<Rightarrow> [Bad_address] | Pton_bad_family \<Rightarrow> [Bad_family]);
            mem = put_at 2 (store16 (htons port)) mem
        in (\<lparr>ia_mem = mem, ia_type = IPV4\<rparr>, lines))"

text \<open>The constructors from a structure: one member of the union is copied, the rest is not written.\<close>

definition InetAddress_sockaddr_in :: "InetAddress \<Rightarrow> byte list \<Rightarrow> InetAddress" where
  "InetAddress_sockaddr_in a sa = \<lparr>ia_mem = put_at 0 sa (ia_mem a), ia_type = IPV4\<rparr>"

definition InetAddress_sockaddr_in6 :: "InetAddress \<Rightarrow> byte list \<Rightarrow> InetAddress" where
  "InetAddress_sockaddr_in6 a sa = \<lparr>ia_mem = put_at 0 sa (ia_mem a), ia_type = IPV6\<rparr>"

definition Addrtype :: "InetAddress \<Rightarrow> addr_type" where
  "Addrtype a = ia_type a"

definition Sockaddr :: "InetAddress \<Rightarrow> byte list" where
  "Sockaddr a = ia_mem a"

definition InetAddress_family :: "InetAddress \<Rightarrow> 16 word" where
  "InetAddress_family a = load16 0 (ia_mem a)"

definition port_to_string :: "InetAddress \<Rightarrow> string" where
  "port_to_string a = to_string (unat (htons (load16 2 (ia_mem a))))"

text \<open>\<open>inet_ntop\<close> writes the text of the address into the zeroed buffer of 64 bytes, or leaves it.\<close>

definition ip_to_string :: "(16 word \<Rightarrow> byte list \<Rightarrow> string option) \<Rightarrow> InetAddress \<Rightarrow> string" where
  "ip_to_string ntop a =
     (let r = (if ia_type a = IPV4 then ntop AF_INET (take 4 (drop 4 (ia_mem a)))
               else ntop AF_INET6 (take 16 (drop 8 (ia_mem a))))
      in case r of None \<Rightarrow> [] | Some s \<Rightarrow> s)"

section \<open>Sockets\<close>

definition SOCK_STREAM :: "32 word" where "SOCK_STREAM = 1"
definition SOCK_NONBLOCK :: "32 word" where "SOCK_NONBLOCK = 0x800"
definition SOCK_CLOEXEC :: "32 word" where "SOCK_CLOEXEC = 0x80000"
definition O_RDWR :: "32 word" where "O_RDWR = 2"
definition O_NONBLOCK :: "32 word" where "O_NONBLOCK = 0x800"
definition FD_CLOEXEC :: "32 word" where "FD_CLOEXEC = 1"
definition SOMAXCONN :: int where "SOMAXCONN = 128"
definition EINTR :: int where "EINTR = 4"
definition EAGAIN :: int where "EAGAIN = 11"
definition EINPROGRESS :: int where "EINPROGRESS = 115"
definition INVALID_FD :: int where "INVALID_FD = - 1"

text \<open>What the kernel keeps of a descriptor: status flags, descriptor flags, the two options, the
  address it is bound to and the length of its queue.\<close>

record descriptor =
  ds_fl :: "32 word"
  ds_fd :: "32 word"
  ds_nodelay :: int
  ds_keepalive :: int
  ds_bound :: "byte list option"
  ds_backlog :: "int option"

record network =
  nt_fds :: "int \<rightharpoonup> descriptor"
  nt_log :: "socket_log list"

definition log_err :: "socket_log \<Rightarrow> network \<Rightarrow> network" where
  "log_err l n = n\<lparr>nt_log := nt_log n @ [l]\<rparr>"

definition new_descriptor :: "32 word \<Rightarrow> 32 word \<Rightarrow> descriptor" where
  "new_descriptor fl fd = \<lparr>ds_fl = fl, ds_fd = fd, ds_nodelay = 0, ds_keepalive = 0, ds_bound = None, ds_backlog = None\<rparr>"

text \<open>The system calls.  \<open>F_SETFL\<close> changes only the flags that can be changed (append, non-blocking,
  asynchronous, direct, no access time), \<open>F_SETFD\<close> keeps only the one flag there is.\<close>

definition sys_socket :: "int \<Rightarrow> 32 word \<Rightarrow> network \<Rightarrow> network" where
  "sys_socket fd type n =
     (if fd < 0 then n
      else n\<lparr>nt_fds := (nt_fds n)(fd \<mapsto> new_descriptor (O_RDWR OR (if type AND SOCK_NONBLOCK = 0 then 0 else O_NONBLOCK))
                                        (if type AND SOCK_CLOEXEC = 0 then 0 else FD_CLOEXEC))\<rparr>)"

definition sys_bind :: "(byte list \<Rightarrow> bool) \<Rightarrow> int \<Rightarrow> byte list \<Rightarrow> network \<Rightarrow> network option" where
  "sys_bind bindable fd sa n =
     (case nt_fds n fd of
        None \<Rightarrow> None
      | Some d \<Rightarrow> if ds_bound d = None \<and> bindable sa then Some (n\<lparr>nt_fds := (nt_fds n)(fd \<mapsto> d\<lparr>ds_bound := Some sa\<rparr>)\<rparr>) else None)"

definition sys_listen :: "bool \<Rightarrow> int \<Rightarrow> int \<Rightarrow> network \<Rightarrow> network option" where
  "sys_listen free fd backlog n =
     (case nt_fds n fd of
        None \<Rightarrow> None
      | Some d \<Rightarrow> if free then Some (n\<lparr>nt_fds := (nt_fds n)(fd \<mapsto> d\<lparr>ds_backlog := Some backlog\<rparr>)\<rparr>) else None)"

text \<open>The answer of the kernel to \<open>accept\<close>: the new descriptor, or -1 and \<open>errno\<close>, and the address of the peer.
  The address is stored when the caller gives a place for it.\<close>

record accepted =
  ac_fd :: int
  ac_errno :: int
  ac_peer :: "byte list"

definition sys_accept :: "accepted \<Rightarrow> byte list option \<Rightarrow> network \<Rightarrow> byte list option \<times> network" where
  "sys_accept r place n =
     (if ac_fd r < 0 then (place, n)
      else (map_option (put_at 0 (ac_peer r)) place, n\<lparr>nt_fds := (nt_fds n)(ac_fd r \<mapsto> new_descriptor O_RDWR 0)\<rparr>))"

definition fcntl_GETFL :: "int \<Rightarrow> network \<Rightarrow> 32 word" where
  "fcntl_GETFL fd n = (case nt_fds n fd of None \<Rightarrow> - 1 | Some d \<Rightarrow> ds_fl d)"

definition SETFL_MASK :: "32 word" where "SETFL_MASK = 0x46C00"

definition fcntl_SETFL :: "int \<Rightarrow> 32 word \<Rightarrow> network \<Rightarrow> network option" where
  "fcntl_SETFL fd fl n =
     (case nt_fds n fd of
        None \<Rightarrow> None
      | Some d \<Rightarrow> Some (n\<lparr>nt_fds := (nt_fds n)(fd \<mapsto> d\<lparr>ds_fl := (ds_fl d AND NOT SETFL_MASK) OR (fl AND SETFL_MASK)\<rparr>)\<rparr>))"

definition fcntl_GETFD :: "int \<Rightarrow> network \<Rightarrow> 32 word" where
  "fcntl_GETFD fd n = (case nt_fds n fd of None \<Rightarrow> - 1 | Some d \<Rightarrow> ds_fd d)"

definition fcntl_SETFD :: "int \<Rightarrow> 32 word \<Rightarrow> network \<Rightarrow> network option" where
  "fcntl_SETFD fd fl n =
     (case nt_fds n fd of
        None \<Rightarrow> None
      | Some d \<Rightarrow> Some (n\<lparr>nt_fds := (nt_fds n)(fd \<mapsto> d\<lparr>ds_fd := fl AND FD_CLOEXEC\<rparr>)\<rparr>))"

text \<open>The class.\<close>

record Socket =
  soc_fd :: int
  soc_family :: "16 word"

definition Socket_new :: "int \<Rightarrow> 16 word \<Rightarrow> 32 word \<Rightarrow> network \<Rightarrow> Socket \<times> network" where
  "Socket_new fd family type n =
     (let n = sys_socket fd (type OR SOCK_CLOEXEC OR SOCK_NONBLOCK) n;
          n = (if fd = - 1 then log_err Socket_failed n else n)
      in (\<lparr>soc_fd = fd, soc_family = family\<rparr>, n))"

definition Socket_of_fd :: "int \<Rightarrow> 16 word \<Rightarrow> Socket" where
  "Socket_of_fd fd family = \<lparr>soc_fd = fd, soc_family = family\<rparr>"

definition Socket_destroy :: "Socket \<Rightarrow> network \<Rightarrow> network" where
  "Socket_destroy s n =
     (if nt_fds n (soc_fd s) = None then log_err Close_failed n else n\<lparr>nt_fds := (nt_fds n)(soc_fd s := None)\<rparr>)"

text \<open>The length passed with an address is chosen by the family of the socket.\<close>

definition sockaddr_len :: "Socket \<Rightarrow> nat" where
  "sockaddr_len s = (if soc_family s = AF_INET then sizeof_sockaddr_in else sizeof_sockaddr_in6)"

definition bindAddr :: "(byte list \<Rightarrow> bool) \<Rightarrow> Socket \<Rightarrow> InetAddress \<Rightarrow> network \<Rightarrow> network result" where
  "bindAddr bindable s addr n =
     (case sys_bind bindable (soc_fd s) (take (sockaddr_len s) (Sockaddr addr)) n of
        None \<Rightarrow> Inl Aborted
      | Some n \<Rightarrow> Inr n)"

definition Socket_listen :: "bool \<Rightarrow> Socket \<Rightarrow> network \<Rightarrow> network result" where
  "Socket_listen free s n = (case sys_listen free (soc_fd s) SOMAXCONN n of None \<Rightarrow> Inl Aborted | Some n \<Rightarrow> Inr n)"

definition Socket_connect :: "(int \<Rightarrow> byte list \<Rightarrow> int \<times> int) \<Rightarrow> Socket \<Rightarrow> InetAddress \<Rightarrow> int result" where
  "Socket_connect sys s addr =
     (let (ret, errno) = sys (soc_fd s) (take (sockaddr_len s) (Sockaddr addr)) in
      if ret = - 1 then
        if errno = EINPROGRESS \<or> errno = EINTR then Inr (- 1) else Inl Aborted
      else Inr 0)"

text \<open>The test for a null pointer is the wrong way round: the pointer is used when it is null.\<close>

definition Socket_accept :: "accepted \<Rightarrow> Socket \<Rightarrow> InetAddress option \<Rightarrow> network \<Rightarrow> (int \<times> InetAddress option \<times> network) result" where
  "Socket_accept r s peer n =
     (case peer of
        None \<Rightarrow> Inl Null_deref
      | Some a \<Rightarrow>
          let (_, n) = sys_accept r None n; fd = ac_fd r in
          if fd = - 1 \<and> ac_errno r = EAGAIN then Inr (- 1, Some a, n)
          else if fd = - 1 then Inr (fd, Some a, log_err Accept_failed n)
          else Inr (fd, Some a, n))"

definition setNoDelay :: "bool \<Rightarrow> Socket \<Rightarrow> network \<Rightarrow> network" where
  "setNoDelay enable s n =
     n\<lparr>nt_fds := (nt_fds n)(soc_fd s := map_option (\<lambda>d. d\<lparr>ds_nodelay := if enable then 1 else 0\<rparr>) (nt_fds n (soc_fd s)))\<rparr>"

definition setKeepAlive :: "bool \<Rightarrow> Socket \<Rightarrow> network \<Rightarrow> network" where
  "setKeepAlive enable s n =
     n\<lparr>nt_fds := (nt_fds n)(soc_fd s := map_option (\<lambda>d. d\<lparr>ds_keepalive := if enable then 1 else 0\<rparr>) (nt_fds n (soc_fd s)))\<rparr>"

definition setNoBlock :: "bool \<Rightarrow> Socket \<Rightarrow> network \<Rightarrow> network" where
  "setNoBlock enable s n =
     (let flags = fcntl_GETFL (soc_fd s) n;
          flags = (if enable then flags OR O_NONBLOCK else flags AND NOT O_NONBLOCK)
      in case fcntl_SETFL (soc_fd s) flags n of None \<Rightarrow> log_err Block_failed n | Some n \<Rightarrow> n)"

definition setCloexec :: "bool \<Rightarrow> Socket \<Rightarrow> network \<Rightarrow> network" where
  "setCloexec enable s n =
     (let flags = fcntl_GETFD (soc_fd s) n;
          flags = (if enable then flags OR FD_CLOEXEC else flags AND NOT FD_CLOEXEC)
      in case fcntl_SETFD (soc_fd s) flags n of None \<Rightarrow> log_err Cloexec_failed n | Some n \<Rightarrow> n)"

section \<open>Byte order and layout\<close>

lemma htons_htons [simp]: "htons (htons x) = x"
  by (rule bit_word_eqI) (auto simp: htons_def bit_simps)

lemma length_store [simp]: "length (store16 x) = 2" "length (store32 y) = 4"
  by (simp_all add: store16_def store32_def)

lemma load_store16:
  "i \<le> length pre \<Longrightarrow> length pre = i \<Longrightarrow> load16 i (pre @ store16 x @ post) = x"
  by (rule bit_word_eqI) (auto simp: load16_def store16_def nth_append bit_simps)

text \<open>The port travels in network order: high byte first.\<close>

lemma store_htons: "store16 (htons x) = [ucast (drop_bit 8 x), ucast x]"
proof -
  have "ucast (htons x) = (ucast (drop_bit 8 x) :: byte)" "ucast (drop_bit 8 (htons x)) = (ucast x :: byte)"
    by (rule bit_word_eqI; auto simp: htons_def bit_simps)+
  then show ?thesis by (simp add: store16_def)
qed

lemma store_htonl: "store32 (htonl INADDR_LOOPBACK) = [127, 0, 0, 1]" "store32 (htonl INADDR_ANY) = [0, 0, 0, 0]"
  by (simp_all add: store32_def htonl_def INADDR_LOOPBACK_def INADDR_ANY_def)

text \<open>The memory of the two structures.\<close>

definition sockaddr_in :: "16 word \<Rightarrow> byte list \<Rightarrow> byte list" where
  "sockaddr_in port ip = store16 AF_INET @ store16 (htons port) @ ip @ replicate 8 0"

definition sockaddr_in6 :: "16 word \<Rightarrow> byte list \<Rightarrow> byte list" where
  "sockaddr_in6 port ip = store16 AF_INET6 @ store16 (htons port) @ replicate 4 0 @ ip @ replicate 4 0"

lemma length_sockaddr:
  "length (sockaddr_in port ip) = 12 + length ip" "length (sockaddr_in6 port ip) = 12 + length ip"
  by (simp_all add: sockaddr_in_def sockaddr_in6_def)

lemma put_at_append: "length pre = i \<Longrightarrow> length bs = length mid \<Longrightarrow> put_at i bs (pre @ mid @ post) = pre @ bs @ post"
  by (simp add: put_at_def)

text \<open>Filling in the fields of a zeroed structure one by one writes the whole structure and nothing else.\<close>

lemma fill_sockaddr_in:
  assumes "length mem = 28" "length ip = 4"
  shows "put_at 2 (store16 (htons port)) (put_at 4 ip (put_at 0 (store16 AF_INET) (put_at 0 (replicate sizeof_sockaddr_in 0) mem))) =
    sockaddr_in port ip @ drop 16 mem"
proof -
  have z: "replicate 16 (0::byte) = replicate 2 0 @ replicate 2 0 @ replicate 4 0 @ replicate 8 0"
    by (simp only: replicate_add [symmetric]) simp
  have "put_at 0 (replicate 16 0) mem = replicate 2 0 @ replicate 2 0 @ replicate 4 0 @ replicate 8 0 @ drop 16 mem"
    unfolding z put_at_def by simp
  then show ?thesis using assms(2)
    by (simp add: put_at_def sizeof_sockaddr_in_def sockaddr_in_def)
qed

lemma fill_sockaddr_in6:
  assumes "length mem = 28" "length ip = 16"
  shows "put_at 2 (store16 (htons port)) (put_at 8 ip (put_at 0 (store16 AF_INET6) (put_at 0 (replicate sizeof_sockaddr_in6 0) mem))) =
    sockaddr_in6 port ip"
proof -
  have z: "replicate 28 (0::byte) = replicate 2 0 @ replicate 2 0 @ replicate 4 0 @ replicate 16 0 @ replicate 4 0"
    by (simp only: replicate_add [symmetric]) simp
  have "put_at 0 (replicate 28 0) mem = replicate 2 0 @ replicate 2 0 @ replicate 4 0 @ replicate 16 0 @ replicate 4 0"
    unfolding z put_at_def using assms(1) by simp
  then show ?thesis using assms(2)
    by (simp add: put_at_def sizeof_sockaddr_in6_def sockaddr_in6_def)
qed

lemma length_in6: "length in6addr_any = 16" "length in6addr_loopback = 16"
  by (simp_all add: in6addr_any_def in6addr_loopback_def)

lemma InetAddress_port_eq:
  assumes "length (ia_mem a) = 28"
  shows "InetAddress_port a port isloop True =
      \<lparr>ia_mem = sockaddr_in6 port (if isloop then in6addr_loopback else in6addr_any), ia_type = IPV6\<rparr>"
    and "InetAddress_port a port isloop False =
      \<lparr>ia_mem = sockaddr_in port (if isloop then [127, 0, 0, 1] else [0, 0, 0, 0]) @ drop 16 (ia_mem a), ia_type = IPV4\<rparr>"
  using fill_sockaddr_in [OF assms, of "[127, 0, 0, 1]" port] fill_sockaddr_in [OF assms, of "[0, 0, 0, 0]" port]
    fill_sockaddr_in6 [OF assms, of in6addr_any port] fill_sockaddr_in6 [OF assms, of in6addr_loopback port]
  by (simp_all add: InetAddress_port_def length_in6 store_htonl)

text \<open>A text \<open>inet_pton\<close> rejects counts as the address of all zeros.\<close>

definition pton_bytes :: "nat \<Rightarrow> pton_result \<Rightarrow> byte list" where
  "pton_bytes n r = (case r of Pton_ok bs \<Rightarrow> bs | _ \<Rightarrow> replicate n 0)"

lemma put_zeros: "put_at i (replicate n 0) mem = mem" if "take n (drop i mem) = replicate n 0" "i + n \<le> length mem"
  using that by (simp add: put_at_def) (metis append_take_drop_id drop_drop add.commute)

lemma InetAddress_ip_eq:
  assumes "length (ia_mem a) = 28"
  shows "length (pton_bytes 16 (pton AF_INET6 ip)) = 16 \<Longrightarrow>
      fst (InetAddress_ip pton a ip port True) = \<lparr>ia_mem = sockaddr_in6 port (pton_bytes 16 (pton AF_INET6 ip)), ia_type = IPV6\<rparr>"
    and "length (pton_bytes 4 (pton AF_INET ip)) = 4 \<Longrightarrow>
      fst (InetAddress_ip pton a ip port False) =
        \<lparr>ia_mem = sockaddr_in port (pton_bytes 4 (pton AF_INET ip)) @ drop 16 (ia_mem a), ia_type = IPV4\<rparr>"
proof -
  let ?m6 = "put_at 0 (store16 AF_INET6) (put_at 0 (replicate sizeof_sockaddr_in6 0) (ia_mem a))"
  let ?m4 = "put_at 0 (store16 AF_INET) (put_at 0 (replicate sizeof_sockaddr_in 0) (ia_mem a))"
  have "put_at 8 (replicate 16 0) ?m6 = ?m6" "put_at 4 (replicate 4 0) ?m4 = ?m4"
    using assms by (intro put_zeros; simp add: put_at_def sizeof_sockaddr_in_def sizeof_sockaddr_in6_def)+
  moreover assume "length (pton_bytes 16 (pton AF_INET6 ip)) = 16"
  ultimately show "fst (InetAddress_ip pton a ip port True) =
      \<lparr>ia_mem = sockaddr_in6 port (pton_bytes 16 (pton AF_INET6 ip)), ia_type = IPV6\<rparr>"
    using fill_sockaddr_in6 [OF assms, of "pton_bytes 16 (pton AF_INET6 ip)" port]
    by (simp add: InetAddress_ip_def Let_def pton_bytes_def split: pton_result.splits)
next
  let ?m4 = "put_at 0 (store16 AF_INET) (put_at 0 (replicate sizeof_sockaddr_in 0) (ia_mem a))"
  have "put_at 4 (replicate 4 0) ?m4 = ?m4"
    using assms by (intro put_zeros; simp add: put_at_def sizeof_sockaddr_in_def)+
  moreover assume "length (pton_bytes 4 (pton AF_INET ip)) = 4"
  ultimately show "fst (InetAddress_ip pton a ip port False) =
        \<lparr>ia_mem = sockaddr_in port (pton_bytes 4 (pton AF_INET ip)) @ drop 16 (ia_mem a), ia_type = IPV4\<rparr>"
    using fill_sockaddr_in [OF assms, of "pton_bytes 4 (pton AF_INET ip)" port]
    by (simp add: InetAddress_ip_def Let_def pton_bytes_def split: pton_result.splits)
qed

lemma sockaddr_fields:
  "load16 0 (sockaddr_in port ip @ rest) = AF_INET" "load16 2 (sockaddr_in port ip @ rest) = htons port"
  "load16 0 (sockaddr_in6 port ip @ rest) = AF_INET6" "load16 2 (sockaddr_in6 port ip @ rest) = htons port"
  using load_store16 [of 0 "[]" AF_INET] load_store16 [of 0 "[]" AF_INET6]
    load_store16 [of 2 "store16 AF_INET" "htons port"] load_store16 [of 2 "store16 AF_INET6" "htons port"]
  by (simp_all add: sockaddr_in_def sockaddr_in6_def)

lemma sockaddr_ip:
  "length ip = 4 \<Longrightarrow> take 4 (drop 4 (sockaddr_in port ip @ rest)) = ip"
  "length ip = 16 \<Longrightarrow> take 16 (drop 8 (sockaddr_in6 port ip @ rest)) = ip"
  by (simp_all add: sockaddr_in_def sockaddr_in6_def)

section \<open>Flags\<close>

text \<open>One bit of the flags is set or cleared, and nothing else changes.\<close>

definition with_bit :: "nat \<Rightarrow> bool \<Rightarrow> 32 word \<Rightarrow> 32 word" where
  "with_bit i b w = (if b then set_bit i w else unset_bit i w)"

lemma O_NONBLOCK_bit: "w OR O_NONBLOCK = set_bit 11 w" "w AND NOT O_NONBLOCK = unset_bit 11 w"
proof -
  have "O_NONBLOCK = push_bit 11 1" by (simp add: O_NONBLOCK_def)
  then show "w OR O_NONBLOCK = set_bit 11 w" "w AND NOT O_NONBLOCK = unset_bit 11 w"
    by (simp_all add: set_bit_eq_or unset_bit_eq_and_not)
qed

lemma FD_CLOEXEC_bit: "w OR FD_CLOEXEC = set_bit 0 w" "w AND NOT FD_CLOEXEC = unset_bit 0 w"
  by (simp_all add: FD_CLOEXEC_def set_bit_eq_or unset_bit_eq_and_not)

lemma bit_SETFL_MASK: "bit SETFL_MASK i \<longleftrightarrow> i \<in> {10, 11, 13, 14, 18}"
proof -
  have "SETFL_MASK = push_bit 10 1 OR push_bit 11 1 OR push_bit 13 1 OR push_bit 14 1 OR push_bit 18 1"
    by (simp add: SETFL_MASK_def)
  then have "bit SETFL_MASK i = bit (push_bit 10 1 OR push_bit 11 1 OR push_bit 13 1 OR push_bit 14 1 OR push_bit 18 (1 :: 32 word)) i"
    by (rule arg_cong)
  also have "\<dots> \<longleftrightarrow> i \<in> {10, 11, 13, 14, 18}" unfolding bit_or_iff bit_push_bit_iff bit_1_iff by auto
  finally show ?thesis .
qed

lemma SETFL_bit: "(w AND NOT SETFL_MASK) OR (with_bit 11 b w AND SETFL_MASK) = with_bit 11 b w"
  by (rule bit_word_eqI) (auto simp: with_bit_def bit_simps bit_SETFL_MASK)

lemma setNoBlock_eq:
  "setNoBlock b s n =
     (case nt_fds n (soc_fd s) of
        None \<Rightarrow> log_err Block_failed n
      | Some d \<Rightarrow> n\<lparr>nt_fds := (nt_fds n)(soc_fd s \<mapsto> d\<lparr>ds_fl := with_bit 11 b (ds_fl d)\<rparr>)\<rparr>)"
proof (cases "nt_fds n (soc_fd s)")
  case None
  then show ?thesis by (simp add: setNoBlock_def fcntl_SETFL_def Let_def)
next
  case (Some d)
  have "(if b then ds_fl d OR O_NONBLOCK else ds_fl d AND NOT O_NONBLOCK) = with_bit 11 b (ds_fl d)"
    by (simp add: O_NONBLOCK_bit with_bit_def)
  then show ?thesis using Some SETFL_bit [of "ds_fl d" b]
    by (simp add: setNoBlock_def fcntl_GETFL_def fcntl_SETFL_def Let_def)
qed

text \<open>The flags of a descriptor are 0 or \<open>FD_CLOEXEC\<close>: the kernel stores no other.\<close>

definition fd_flags_ok :: "network \<Rightarrow> bool" where
  "fd_flags_ok n \<longleftrightarrow> (\<forall>fd d. nt_fds n fd = Some d \<longrightarrow> ds_fd d = 0 \<or> ds_fd d = FD_CLOEXEC)"

lemma setCloexec_eq:
  assumes "fd_flags_ok n"
  shows "setCloexec b s n =
     (case nt_fds n (soc_fd s) of
        None \<Rightarrow> log_err Cloexec_failed n
      | Some d \<Rightarrow> n\<lparr>nt_fds := (nt_fds n)(soc_fd s \<mapsto> d\<lparr>ds_fd := with_bit 0 b (ds_fd d)\<rparr>)\<rparr>)"
proof (cases "nt_fds n (soc_fd s)")
  case None
  then show ?thesis by (simp add: setCloexec_def fcntl_SETFD_def Let_def)
next
  case (Some d)
  then have "ds_fd d = 0 \<or> ds_fd d = FD_CLOEXEC" using assms by (auto simp: fd_flags_ok_def)
  then have "(if b then ds_fd d OR FD_CLOEXEC else ds_fd d AND NOT FD_CLOEXEC) AND FD_CLOEXEC = with_bit 0 b (ds_fd d)"
    by (auto simp: with_bit_def FD_CLOEXEC_def set_bit_eq_or unset_bit_eq_and_not)
  then show ?thesis using Some
    by (simp add: setCloexec_def fcntl_GETFD_def fcntl_SETFD_def Let_def)
qed

lemma fd_flags_okD: "fd_flags_ok n \<Longrightarrow> nt_fds n fd = Some d \<Longrightarrow> ds_fd d = 0 \<or> ds_fd d = FD_CLOEXEC"
  by (auto simp: fd_flags_ok_def)

lemma fd_flags_ok_upd:
  "fd_flags_ok n \<Longrightarrow> ds_fd d = 0 \<or> ds_fd d = FD_CLOEXEC \<Longrightarrow> fd_flags_ok (n\<lparr>nt_fds := (nt_fds n)(fd \<mapsto> d)\<rparr>)"
  by (auto simp: fd_flags_ok_def)

lemma fd_flags_ok_log: "fd_flags_ok (log_err l n) = fd_flags_ok n"
  by (simp add: fd_flags_ok_def log_err_def)

text \<open>Every operation keeps the flags in order.\<close>

lemma fd_flags_ok_ops:
  assumes "fd_flags_ok n"
  shows "fd_flags_ok (snd (Socket_new fd fam ty n))" "fd_flags_ok (Socket_destroy s n)"
    "bindAddr bindable s addr n = Inr n' \<Longrightarrow> fd_flags_ok n'" "Socket_listen free s n = Inr n' \<Longrightarrow> fd_flags_ok n'"
    "Socket_accept r s peer n = Inr (fd', peer', n') \<Longrightarrow> fd_flags_ok n'"
    "fd_flags_ok (setNoDelay b s n)" "fd_flags_ok (setKeepAlive b s n)" "fd_flags_ok (setNoBlock b s n)" "fd_flags_ok (setCloexec b s n)"
proof -
  note upd = fd_flags_ok_upd [OF assms] and old = fd_flags_okD [OF assms]
  show "fd_flags_ok (snd (Socket_new fd fam ty n))"
    using assms by (simp add: Socket_new_def sys_socket_def fd_flags_ok_log new_descriptor_def upd Let_def)
  show "fd_flags_ok (Socket_destroy s n)" using assms by (auto simp: Socket_destroy_def log_err_def fd_flags_ok_def)
  show "bindAddr bindable s addr n = Inr n' \<Longrightarrow> fd_flags_ok n'"
    by (auto simp: bindAddr_def sys_bind_def upd old split: option.splits if_splits)
  show "Socket_listen free s n = Inr n' \<Longrightarrow> fd_flags_ok n'"
    by (auto simp: Socket_listen_def sys_listen_def upd old split: option.splits if_splits)
  show "Socket_accept r s peer n = Inr (fd', peer', n') \<Longrightarrow> fd_flags_ok n'"
    using assms by (auto simp: Socket_accept_def sys_accept_def new_descriptor_def fd_flags_ok_log upd Let_def
        split: option.splits if_splits)
  show "fd_flags_ok (setNoDelay b s n)" "fd_flags_ok (setKeepAlive b s n)"
    using assms by (fastforce simp: fd_flags_ok_def setNoDelay_def setKeepAlive_def split: if_splits)+
  show "fd_flags_ok (setNoBlock b s n)"
    using assms by (auto simp: setNoBlock_eq fd_flags_ok_log upd old split: option.splits)
  show "fd_flags_ok (setCloexec b s n)"
    using assms old [of "soc_fd s"] by (auto simp: setCloexec_eq [OF assms] fd_flags_ok_log with_bit_def FD_CLOEXEC_def set_bit_eq_or
        unset_bit_eq_and_not intro!: upd split: option.splits)
qed

section \<open>Properties\<close>

text \<open>
  C25. An address made from a text is read back whole, for both families: the family, the port as the
  decimal text of the number given, and the text of the address, provided that \<open>inet_pton\<close> and
  \<open>inet_ntop\<close> agree on it.  What a system call is passed is the structure with the port in network order.
\<close>

theorem address_readable:
  assumes "length (ia_mem a) = 28" "fam = (if ipv6 then AF_INET6 else AF_INET)"
    and "pton fam ip = Pton_ok bs" "length bs = (if ipv6 then 16 else 4)" "ntop fam bs = Some s"
    and "(A, lines) = InetAddress_ip pton a ip port ipv6"
  shows "InetAddress_family A = fam \<and> port_to_string A = to_string (unat port) \<and> ip_to_string ntop A = s \<and>
    Addrtype A = (if ipv6 then IPV6 else IPV4) \<and> lines = [] \<and>
    take (if ipv6 then 28 else 16) (Sockaddr A) =
      store16 fam @ [ucast (drop_bit 8 port), ucast port] @
      (if ipv6 then replicate 4 0 @ bs @ replicate 4 0 else bs @ replicate 8 0)"
proof -
  have A: "A = fst (InetAddress_ip pton a ip port ipv6)" "lines = snd (InetAddress_ip pton a ip port ipv6)"
    using assms(6) by (metis fst_conv snd_conv)+
  have bs: "pton_bytes m (pton fam ip) = bs" for m using assms(3) by (simp add: pton_bytes_def)
  show ?thesis
  proof (cases ipv6)
    case True
    then have "A = \<lparr>ia_mem = sockaddr_in6 port bs, ia_type = IPV6\<rparr>" "lines = []"
      using A InetAddress_ip_eq(1) [OF assms(1), of pton ip port] assms(2,3,4) bs by (auto simp: InetAddress_ip_def Let_def)
    then show ?thesis
      using True assms(2,4,5) sockaddr_fields(3,4) [of port bs "[]"] sockaddr_ip(2) [of bs port "[]"] store_htons [of port]
      by (simp add: InetAddress_family_def port_to_string_def ip_to_string_def Addrtype_def Sockaddr_def length_sockaddr)
        (simp add: sockaddr_in6_def)
  next
    case False
    then have "A = \<lparr>ia_mem = sockaddr_in port bs @ drop 16 (ia_mem a), ia_type = IPV4\<rparr>" "lines = []"
      using A InetAddress_ip_eq(2) [OF assms(1), of pton ip port] assms(2,3,4) bs by (auto simp: InetAddress_ip_def Let_def)
    then show ?thesis
      using False assms(2,4,5) sockaddr_fields(1,2) [of port bs] sockaddr_ip(1) [of bs port] store_htons [of port]
      by (simp add: InetAddress_family_def port_to_string_def ip_to_string_def Addrtype_def Sockaddr_def length_sockaddr)
        (simp add: sockaddr_in_def)
  qed
qed

text \<open>
  A text that is not an address is not refused: the address made from it is the one of all
  interfaces, so that a server given a mistyped address listens on every one; only a log line tells.
\<close>

theorem bad_address_is_any:
  assumes "length (ia_mem a) = 28" "\<And>bs. pton AF_INET ip \<noteq> Pton_ok bs"
  shows "fst (InetAddress_ip pton a ip port False) = InetAddress_port a port False False \<and>
    snd (InetAddress_ip pton a ip port False) \<in> {[Bad_address], [Bad_family]}"
proof -
  have "pton_bytes 4 (pton AF_INET ip) = [0, 0, 0, 0]"
    using assms(2) by (cases "pton AF_INET ip") (auto simp: pton_bytes_def numeral_eq_Suc)
  moreover have "snd (InetAddress_ip pton a ip port False) \<in> {[Bad_address], [Bad_family]}"
    using assms(2) by (cases "pton AF_INET ip") (auto simp: InetAddress_ip_def Let_def)
  ultimately show ?thesis
    using InetAddress_ip_eq(2) [OF assms(1), of pton ip port] InetAddress_port_eq(2) [OF assms(1), of port False] by simp
qed

text \<open>
  \<open>setNoBlock\<close> and \<open>setCloexec\<close> set exactly their flag: on an open descriptor the flag has the
  value asked for, every other bit of the flags, every other descriptor and the log are as before; on a
  descriptor that is not open only a log line is written.  The flags stay the ones the kernel knows.
\<close>

theorem socket_flags:
  assumes "fd_flags_ok n"
  shows "(case nt_fds n (soc_fd s) of
      None \<Rightarrow> setNoBlock b s n = log_err Block_failed n \<and> setCloexec b s n = log_err Cloexec_failed n
    | Some d \<Rightarrow> \<exists>fl cl.
        setNoBlock b s n = n\<lparr>nt_fds := (nt_fds n)(soc_fd s \<mapsto> d\<lparr>ds_fl := fl\<rparr>)\<rparr> \<and> (\<forall>i. bit fl i = (if i = 11 then b else bit (ds_fl d) i)) \<and>
        setCloexec b s n = n\<lparr>nt_fds := (nt_fds n)(soc_fd s \<mapsto> d\<lparr>ds_fd := cl\<rparr>)\<rparr> \<and> (\<forall>i. bit cl i = (if i = 0 then b else bit (ds_fd d) i))) \<and>
    fd_flags_ok (setNoBlock b s n) \<and> fd_flags_ok (setCloexec b s n)"
proof -
  have bits: "bit (with_bit j b w) i = (if i = j then b else bit w i)" if "j < 32" for i j w
    using that by (auto simp: with_bit_def bit_simps dest: bit_imp_le_length)
  show ?thesis
  proof (cases "nt_fds n (soc_fd s)")
    case None
    then show ?thesis using assms setNoBlock_eq [of b s n] setCloexec_eq [OF assms, of b s] by (simp add: fd_flags_ok_log)
  next
    case (Some d)
    have "\<exists>fl cl. setNoBlock b s n = n\<lparr>nt_fds := (nt_fds n)(soc_fd s \<mapsto> d\<lparr>ds_fl := fl\<rparr>)\<rparr> \<and> (\<forall>i. bit fl i = (if i = 11 then b else bit (ds_fl d) i)) \<and>
        setCloexec b s n = n\<lparr>nt_fds := (nt_fds n)(soc_fd s \<mapsto> d\<lparr>ds_fd := cl\<rparr>)\<rparr> \<and> (\<forall>i. bit cl i = (if i = 0 then b else bit (ds_fd d) i))"
      using Some setNoBlock_eq [of b s n] setCloexec_eq [OF assms, of b s] bits
      by (intro exI [of _ "with_bit 11 b (ds_fl d)"] exI [of _ "with_bit 0 b (ds_fd d)"]) simp
    then show ?thesis using Some fd_flags_ok_ops(8,9) [OF assms] by simp
  qed
qed

text \<open>
  \<open>accept\<close> never tells who the peer is: with a place for the address it gets the new descriptor but
  leaves the place as it was, whatever the kernel answered, and without one it uses the null pointer.
\<close>

theorem accept_ignores_peer:
  "Socket_accept r s None n = Inl Null_deref \<and>
   (\<exists>n'. Socket_accept r s (Some a) n = Inr (ac_fd r, Some a, n') \<and>
     (0 \<le> ac_fd r \<longrightarrow> nt_fds n' = (nt_fds n)(ac_fd r \<mapsto> new_descriptor O_RDWR 0) \<and> nt_log n' = nt_log n) \<and>
     (ac_fd r < 0 \<longrightarrow> nt_fds n' = nt_fds n))"
  by (simp add: Socket_accept_def sys_accept_def log_err_def Let_def)

text \<open>Addresses and descriptors to try the theorems on.\<close>

definition blank_address :: InetAddress where
  "blank_address = \<lparr>ia_mem = replicate 28 0xAA, ia_type = IPV6\<rparr>"

definition local_pton :: "16 word \<Rightarrow> string \<Rightarrow> pton_result" where
  "local_pton fam ip =
     (if fam \<noteq> AF_INET \<and> fam \<noteq> AF_INET6 then Pton_bad_family
      else if fam = AF_INET \<and> ip = ''127.0.0.1'' then Pton_ok [127, 0, 0, 1]
      else if fam = AF_INET6 \<and> ip = ''::1'' then Pton_ok in6addr_loopback
      else Pton_bad_text)"

definition local_ntop :: "16 word \<Rightarrow> byte list \<Rightarrow> string option" where
  "local_ntop fam bs =
     (if fam = AF_INET \<and> bs = [127, 0, 0, 1] then Some ''127.0.0.1''
      else if fam = AF_INET6 \<and> bs = in6addr_loopback then Some ''::1'' else None)"

definition one_socket :: network where
  "one_socket = \<lparr>nt_fds = [5 \<mapsto> new_descriptor O_RDWR FD_CLOEXEC], nt_log = []\<rparr>"

theorem address_readable_witness:
  "\<exists>A. InetAddress_ip local_pton blank_address ''127.0.0.1'' 8987 False = (A, []) \<and>
    port_to_string A = ''8987'' \<and> ip_to_string local_ntop A = ''127.0.0.1'' \<and>
    take 16 (Sockaddr A) = [2, 0, 35, 27, 127, 0, 0, 1] @ replicate 8 0"
proof -
  obtain A lines where A: "(A, lines) = InetAddress_ip local_pton blank_address ''127.0.0.1'' 8987 False"
    by (cases "InetAddress_ip local_pton blank_address ''127.0.0.1'' 8987 False") simp
  have "length (ia_mem blank_address) = 28" "AF_INET = (if False then AF_INET6 else AF_INET)"
      "local_pton AF_INET ''127.0.0.1'' = Pton_ok [127, 0, 0, 1]" "length [127, 0, 0, 1 :: byte] = (if False then 16 else 4)"
      "local_ntop AF_INET [127, 0, 0, 1] = Some ''127.0.0.1''"
    by (simp_all add: blank_address_def local_pton_def local_ntop_def AF_INET_def)
  from address_readable [where ?ipv6.0 = False and pton = local_pton and ntop = local_ntop and fam = AF_INET, OF this A] have "port_to_string A = to_string 8987" "ip_to_string local_ntop A = ''127.0.0.1''" "lines = []"
      "take 16 (Sockaddr A) = store16 AF_INET @ [ucast (drop_bit 8 (8987 :: 16 word)), ucast (8987 :: 16 word)] @ [127, 0, 0, 1] @ replicate 8 0"
    by simp_all
  moreover have "to_string 8987 = ''8987''" by (simp add: to_string.simps digit_char_table)
  moreover have "store16 AF_INET @ [ucast (drop_bit 8 (8987 :: 16 word)), ucast (8987 :: 16 word)] = [2, 0, 35, 27]"
    by (simp add: store16_def AF_INET_def)
  ultimately have "port_to_string A = ''8987''" "take 16 (Sockaddr A) = [2, 0, 35, 27, 127, 0, 0, 1] @ replicate 8 0"
    unfolding append_assoc [symmetric] by (simp_all only: append_Cons append_Nil)
  then show ?thesis using A \<open>ip_to_string local_ntop A = ''127.0.0.1''\<close> \<open>lines = []\<close> by (intro exI [of _ A]) simp
qed

theorem bad_address_is_any_witness:
  "fst (InetAddress_ip local_pton blank_address ''127.0.0.l'' 8987 False) = InetAddress_port blank_address 8987 False False"
  using bad_address_is_any [of blank_address local_pton "''127.0.0.l''" 8987]
  by (simp add: blank_address_def local_pton_def)

theorem socket_flags_witness:
  "\<exists>fl. setNoBlock True \<lparr>soc_fd = 5, soc_family = AF_INET\<rparr> one_socket =
     one_socket\<lparr>nt_fds := [5 \<mapsto> (new_descriptor O_RDWR FD_CLOEXEC)\<lparr>ds_fl := fl\<rparr>]\<rparr> \<and> bit fl 11 \<and> bit fl 1"
proof -
  have ok: "fd_flags_ok one_socket" by (simp add: fd_flags_ok_def one_socket_def new_descriptor_def)
  have b: "bit (ds_fl (new_descriptor O_RDWR FD_CLOEXEC)) 1" by (simp add: new_descriptor_def O_RDWR_def)
  from socket_flags [OF ok, where b = True and s = "\<lparr>soc_fd = 5, soc_family = AF_INET\<rparr>"]
  obtain fl where fl: "setNoBlock True \<lparr>soc_fd = 5, soc_family = AF_INET\<rparr> one_socket =
     one_socket\<lparr>nt_fds := (nt_fds one_socket)(5 \<mapsto> (new_descriptor O_RDWR FD_CLOEXEC)\<lparr>ds_fl := fl\<rparr>)\<rparr>"
     "\<forall>i. bit fl i = (if i = 11 then True else bit (ds_fl (new_descriptor O_RDWR FD_CLOEXEC)) i)"
    by (auto simp: one_socket_def)
  then have "bit fl 11" "bit fl 1" using b by simp_all
  then show ?thesis using fl(1) by (auto simp: one_socket_def)
qed

theorem accept_ignores_peer_witness:
  "\<exists>n'. Socket_accept \<lparr>ac_fd = 7, ac_errno = 0, ac_peer = [2, 0, 1, 1, 10, 0, 0, 9] @ replicate 8 0\<rparr>
      \<lparr>soc_fd = 5, soc_family = AF_INET\<rparr> (Some blank_address) one_socket = Inr (7, Some blank_address, n') \<and>
    nt_fds n' 7 = Some (new_descriptor O_RDWR 0)"
  using accept_ignores_peer [of "\<lparr>ac_fd = 7, ac_errno = 0, ac_peer = [2, 0, 1, 1, 10, 0, 0, 9] @ replicate 8 0\<rparr>"
      "\<lparr>soc_fd = 5, soc_family = AF_INET\<rparr>" one_socket blank_address] by auto

end
