(* ===== verification/Server_Start.thy ===== *)
theory Server_Start
  imports Http_Session Sone_Socket
begin

text \<open>
  Starting the server: \<^verbatim>\<open>src/http_server/main.cpp\<close>, the constructor and \<open>start\<close> of \<^verbatim>\<open>HttpServer.cpp\<close>, the
  constructor and the destructor of \<^verbatim>\<open>eventloop.cpp\<close>, the alarm, and the socket side of accepting a connection.
  What the kernel answers to the calls on the way is an argument.  The loop threads have
  an epoll wrapper each; since a descriptor is watched by one loop only, their tables are kept as one
  here, as in \<open>Http_Connection\<close>.
\<close>

unbundle bit_operations_syntax

section \<open>Event loops\<close>

text \<open>
  The constructor of a loop: \<open>epoll_create\<close> and \<open>eventfd\<close> must not fail; the descriptor that wakes the
  loop is watched for input by a new dispatcher, here at address \<open>p\<close>.
\<close>

definition eventloop_new :: "int \<Rightarrow> int \<Rightarrow> nat \<Rightarrow> epoller \<Rightarrow> epoller result" where
  "eventloop_new epollfd wakeupfd p ep =
     (if epollfd < 0 then Inl Aborted
      else if wakeupfd < 0 then Inl Aborted
      else enableReading p (ep\<lparr>ep_store := (ep_store ep)(p \<mapsto> dispatcher_new wakeupfd)\<rparr>))"

definition eventloop_destroy :: "nat \<Rightarrow> epoller \<Rightarrow> epoller result" where
  "eventloop_destroy p ep =
     and_then (disableReading p ep) (\<lambda>ep.
     and_then (delDispatcher p ep) (\<lambda>ep.
       Inr (ep\<lparr>ep_store := (ep_store ep)(p := None)\<rparr>)))"

text \<open>The loop threads start one after the other; the dispatcher of the next one has the next address.\<close>

fun loops_start :: "(int \<times> int) list \<Rightarrow> nat \<Rightarrow> epoller \<Rightarrow> epoller result" where
  "loops_start [] p ep = Inr ep"
| "loops_start ((epollfd, wakeupfd) # fds) p ep =
     and_then (eventloop_new epollfd wakeupfd p ep) (loops_start fds (p + 1))"

section \<open>The server\<close>

definition THREAD_NUMS :: int where "THREAD_NUMS = 8"
definition LRUCACHE_CAPCITY :: nat where "LRUCACHE_CAPCITY = 8"

text \<open>\<open>hs_world\<close> holds the connections, the heap of timers and the file cache.\<close>

record HttpServer =
  hs_main_loop :: epoller
  hs_listen_soc :: Socket
  hs_accept_dispatcher :: nat
  hs_threadpool :: eventloopThreadPool
  hs_world :: conn_world

definition HttpServer_new ::
  "int \<Rightarrow> (byte list \<Rightarrow> bool) \<Rightarrow> bool \<Rightarrow> nat \<Rightarrow> epoller \<Rightarrow> InetAddress \<Rightarrow> TimerHeap \<Rightarrow> network \<Rightarrow> (HttpServer \<times> network) result" where
  "HttpServer_new fd bindable free p loop listenaddr th n =
     (let (soc, n) = Socket_new fd AF_INET SOCK_STREAM n in
      and_then (bindAddr bindable soc listenaddr n) (\<lambda>n.
      let n = setNoDelay True soc n in
      and_then (Socket_listen free soc n) (\<lambda>n.
      and_then (enableReading p (loop\<lparr>ep_store := (ep_store loop)(p \<mapsto> dispatcher_new (soc_fd soc))\<rparr>)) (\<lambda>loop.
        Inr (\<lparr>hs_main_loop = loop, hs_listen_soc = soc, hs_accept_dispatcher = p,
              hs_threadpool = eventloopThreadPool_new THREAD_NUMS,
              hs_world = \<lparr>cw_conns = Map.empty, cw_list = [], cw_ep = epoller_new Map.empty, cw_heap = th, cw_locked = False,
                          cw_cache = LRUCache_new LRUCACHE_CAPCITY, cw_sent = (\<lambda>_. []), cw_next = 0\<rparr>\<rparr>, n)))))"

text \<open>\<open>start\<close>: the loops of the threads come up, and each thread hands its loop to the pool.\<close>

definition HttpServer_start :: "(nat \<Rightarrow> nat option) \<Rightarrow> (nat \<Rightarrow> nat) \<Rightarrow> (int \<times> int) list \<Rightarrow> HttpServer \<Rightarrow> HttpServer result" where
  "HttpServer_start before own fds srv =
     and_then (loops_start fds (cw_next (hs_world srv)) (cw_ep (hs_world srv))) (\<lambda>ep.
       Inr (srv\<lparr>hs_threadpool := eventloopThreadPool_start before own (hs_threadpool srv),
                hs_world := (hs_world srv)\<lparr>cw_ep := ep, cw_next := cw_next (hs_world srv) + length fds\<rparr>\<rparr>))"

text \<open>What the kernel and the C library answer while the program starts.\<close>

record start_env =
  se_memory :: InetAddress
  se_pton :: "16 word \<Rightarrow> string \<Rightarrow> pton_result"
  se_main :: "int \<times> int"
  se_listen_fd :: int
  se_bindable :: "byte list \<Rightarrow> bool"
  se_free :: bool
  se_before :: "nat \<Rightarrow> nat option"
  se_own :: "nat \<Rightarrow> nat"
  se_loops :: "(int \<times> int) list"

definition main_address :: "start_env \<Rightarrow> InetAddress" where
  "main_address k = fst (InetAddress_ip (se_pton k) (se_memory k) ''172.17.0.16'' 8987 False)"

text \<open>\<open>main\<close> up to the start of the main loop; the timer heap has the default capacity.\<close>

definition main_start :: "start_env \<Rightarrow> network \<Rightarrow> (HttpServer \<times> network) result" where
  "main_start k n =
     and_then (eventloop_new (fst (se_main k)) (snd (se_main k)) 0 (epoller_new Map.empty)) (\<lambda>loop.
     and_then (HttpServer_new (se_listen_fd k) (se_bindable k) (se_free k) 1 loop (main_address k)
                 (TimerHeap_new 64 Map.empty) n) (\<lambda>(srv, n).
     and_then (HttpServer_start (se_before k) (se_own k) (se_loops k) srv) (\<lambda>srv. Inr (srv, n))))"

section \<open>Signals\<close>

definition EXPIRE_TIME :: nat where "EXPIRE_TIME = 1"

text \<open>
  The handler of the alarm, run by the thread \<open>tid\<close> the signal is delivered to: \<open>tick\<close> takes the lock of the heap (for ever,
  when the interrupted thread or a connection has it), the due timers call their connections back, each before it is
  taken out of the heap, and the alarm is set again.
\<close>

definition timer_call ::
  "nat \<Rightarrow> (int \<Rightarrow> nat) \<Rightarrow> nat \<Rightarrow> TimerHeap \<times> conn_world \<times> (nat \<Rightarrow> nat loop_queue) \<Rightarrow>
    (TimerHeap \<times> conn_world \<times> (nat \<Rightarrow> nat loop_queue)) result" where
  "timer_call tid threadId_of c = (\<lambda>(h, w, qs).
     and_then (handleTimerCb tid threadId_of c (w\<lparr>cw_heap := h\<rparr>, qs)) (\<lambda>(w, qs). Inr (cw_heap w, w, qs)))"

definition sig_alarm ::
  "nat \<Rightarrow> (int \<Rightarrow> nat) \<Rightarrow> int \<Rightarrow> conn_world \<times> (nat \<Rightarrow> nat loop_queue) \<Rightarrow>
    (nat \<times> conn_world \<times> (nat \<Rightarrow> nat loop_queue)) result option" where
  "sig_alarm tid threadId_of now = (\<lambda>(w, qs).
     if cw_locked w then None
     else and_run (tick (timer_call tid threadId_of) now (cw_heap w, w, qs))
            (\<lambda>(h, w, qs). Some (Inr (EXPIRE_TIME, w\<lparr>cw_heap := h\<rparr>, qs))))"

text \<open>The handlers \<open>main\<close> installs, and the alarm it starts; the handler of \<open>SIGPIPE\<close> does nothing.\<close>

datatype signal_handler = Default_action | Handler_sig_alarm | Handler_sig_pipe

record signals =
  on_SIGALRM :: signal_handler
  on_SIGPIPE :: signal_handler
  alarm_in :: nat

definition sig_pipe :: "conn_world \<Rightarrow> conn_world" where
  "sig_pipe w = w"

definition main_signals :: "signals \<Rightarrow> signals" where
  "main_signals s = s\<lparr>on_SIGALRM := Handler_sig_alarm, on_SIGPIPE := Handler_sig_pipe, alarm_in := EXPIRE_TIME\<rparr>"

section \<open>Accepting over the socket\<close>

text \<open>The loop of \<open>AcceptCallback\<close> around \<open>Socket::accept\<close>, and the socket of the new connection, which is
  made non-blocking by the constructor of \<open>TcpConnection\<close>.\<close>

fun accept_calls :: "accepted list \<Rightarrow> Socket \<Rightarrow> InetAddress \<Rightarrow> network \<Rightarrow> (int \<times> InetAddress option \<times> network) result option" where
  "accept_calls [] s addr n = None"
| "accept_calls (r # rs) s addr n =
     (case Socket_accept r s (Some addr) n of
        Inl e \<Rightarrow> Some (Inl e)
      | Inr (fd, peer, n') \<Rightarrow>
          if fd < 0 \<and> ac_errno r = EINTR then (case peer of None \<Rightarrow> Some (Inl Null_deref) | Some addr \<Rightarrow> accept_calls rs s addr n')
          else Some (Inr (fd, peer, n')))"

definition TcpConnection_socket :: "int \<Rightarrow> network \<Rightarrow> Socket \<times> network" where
  "TcpConnection_socket fd n = (let s = Socket_of_fd fd AF_INET in (s, setNoBlock True s n))"

text \<open>The structure is zeroed and filled in by \<open>getsockname\<close>, which fails on a descriptor that is no socket.\<close>

definition getAddrbyFdV4 :: "(int \<Rightarrow> byte list option) \<Rightarrow> int \<Rightarrow> byte list \<times> bool" where
  "getAddrbyFdV4 sockname fd =
     (let addr = replicate sizeof_sockaddr_in 0 in
      case sockname fd of None \<Rightarrow> (addr, True) | Some sa \<Rightarrow> (put_at 0 (take sizeof_sockaddr_in sa) addr, False))"

section \<open>Loops come up\<close>

lemma enable_full:
  assumes "ep_inv ep" "registrable ep p d"
  shows "enable msk p ep = Inr (ep\<lparr>ep_store := (ep_store ep)(p \<mapsto> d\<lparr>d_events := d_events d OR msk\<rparr>),
      dispatcher_map := (dispatcher_map ep)(d_fd d \<mapsto> p), ep_kernel := (ep_kernel ep)(d_fd d \<mapsto> (d_events d OR msk, p))\<rparr>)"
  using update_mask_correct [OF assms refl refl, of "d_events d OR msk"] assms(2)
  by (simp add: enable_def deref_dispatcher_def registrable_def)

lemma disable_full:
  assumes "ep_inv ep" "registrable ep p d"
  shows "disable msk p ep = Inr (ep\<lparr>ep_store := (ep_store ep)(p \<mapsto> d\<lparr>d_events := d_events d AND NOT msk\<rparr>),
      dispatcher_map := (dispatcher_map ep)(d_fd d \<mapsto> p), ep_kernel := (ep_kernel ep)(d_fd d \<mapsto> (d_events d AND NOT msk, p))\<rparr>)"
  using update_mask_correct [OF assms refl refl, of "d_events d AND NOT msk"] assms(2)
  by (simp add: disable_def deref_dispatcher_def registrable_def)

lemma ep_inv_fresh: "ep_inv ep \<Longrightarrow> ep_store ep p = None \<Longrightarrow> ep_inv (ep\<lparr>ep_store := (ep_store ep)(p \<mapsto> d)\<rparr>)"
  unfolding ep_inv_def by fastforce

text \<open>A new dispatcher, watched for input.\<close>

definition watched :: "int \<Rightarrow> nat \<Rightarrow> epoller \<Rightarrow> epoller" where
  "watched fd p ep =
     ep\<lparr>ep_store := (ep_store ep)(p \<mapsto> (dispatcher_new fd)\<lparr>d_events := EPOLLIN\<rparr>),
        dispatcher_map := (dispatcher_map ep)(fd \<mapsto> p), ep_kernel := (ep_kernel ep)(fd \<mapsto> (EPOLLIN, p))\<rparr>"

lemma watch_new:
  assumes "ep_inv ep" "ep_store ep p = None" "dispatcher_map ep fd = None"
  shows "enableReading p (ep\<lparr>ep_store := (ep_store ep)(p \<mapsto> dispatcher_new fd)\<rparr>) = Inr (watched fd p ep)" "ep_inv (watched fd p ep)"
proof -
  let ?ep = "ep\<lparr>ep_store := (ep_store ep)(p \<mapsto> dispatcher_new fd)\<rparr>"
  have i: "ep_inv ?ep" by (rule ep_inv_fresh [OF assms(1,2)])
  have r: "registrable ?ep p (dispatcher_new fd)" using assms(3) by (simp add: registrable_def dispatcher_new_def)
  have e: "enable EPOLLIN p ?ep = Inr (watched fd p ep)"
    using enable_full [OF i r, of EPOLLIN] by (simp add: watched_def dispatcher_new_def)
  then show "enableReading p ?ep = Inr (watched fd p ep)" by (simp add: enableReading_def)
  show "ep_inv (watched fd p ep)" using enable_eq(1) [OF i r, of EPOLLIN] e by simp
qed

lemma eventloop_new_ok:
  assumes "0 \<le> epollfd" "0 \<le> wakeupfd" "ep_inv ep" "ep_store ep p = None" "dispatcher_map ep wakeupfd = None"
  shows "eventloop_new epollfd wakeupfd p ep = Inr (watched wakeupfd p ep)"
  using assms watch_new(1) [OF assms(3-5)] by (simp add: eventloop_new_def)

text \<open>A loop that is destroyed leaves the tables as they were before it was made.\<close>

lemma eventloop_destroy_watched:
  assumes "ep_inv ep" "ep_store ep p = None" "dispatcher_map ep fd = None"
  shows "eventloop_destroy p (watched fd p ep) = Inr ep"
proof -
  let ?d = "(dispatcher_new fd)\<lparr>d_events := EPOLLIN\<rparr>"
  have r: "registrable (watched fd p ep) p ?d" by (simp add: registrable_def watched_def dispatcher_new_def)
  have "ep_kernel ep fd = None" using ep_invD(1) [OF assms(1,3)] .
  then show ?thesis
    using disable_full [OF watch_new(2) [OF assms] r, of EPOLLIN] assms(2,3)
    by (simp add: eventloop_destroy_def disableReading_def delDispatcher_def deref_dispatcher_def updateEpoller_def epoll_ctl_def
        watched_def dispatcher_new_def fun_upd_idem)
qed

text \<open>The wake-up descriptors of the loop threads are watched, each by its own dispatcher, and nothing else.\<close>

lemma loops_start_ok:
  assumes "\<forall>(e, f) \<in> set fds. 0 \<le> e \<and> 0 \<le> f \<and> dispatcher_map ep f = None" "distinct (map snd fds)" "ep_inv ep"
    and "\<forall>a \<ge> p. ep_store ep a = None"
  shows "\<exists>ep'. loops_start fds p ep = Inr ep' \<and> ep_inv ep' \<and> (\<forall>a \<ge> p + length fds. ep_store ep' a = None) \<and>
    (\<forall>fd. fd \<notin> snd ` set fds \<longrightarrow> dispatcher_map ep' fd = dispatcher_map ep fd)"
  using assms
proof (induction fds arbitrary: p ep)
  case Nil
  then show ?case by simp
next
  case (Cons x fds)
  obtain e f where x: "x = (e, f)" by (cases x)
  let ?ep = "watched f p ep"
  have h: "0 \<le> e" "0 \<le> f" "dispatcher_map ep f = None" "ep_store ep p = None" using Cons.prems x by auto
  have d: "dispatcher_map ?ep g = (if g = f then Some p else dispatcher_map ep g)" for g by (simp add: watched_def)
  have "f \<notin> snd ` set fds" using Cons.prems(2) x by auto
  then have ih1: "\<forall>(e, f) \<in> set fds. 0 \<le> e \<and> 0 \<le> f \<and> dispatcher_map ?ep f = None"
    using Cons.prems(1) by (force simp: d)
  have ih2: "distinct (map snd fds)" "\<forall>a \<ge> p + 1. ep_store ?ep a = None" using Cons.prems(2,4) by (auto simp: watched_def)
  obtain ep' where ep': "loops_start fds (p + 1) ?ep = Inr ep'" "ep_inv ep'" "\<forall>a \<ge> p + 1 + length fds. ep_store ep' a = None"
      "\<forall>fd. fd \<notin> snd ` set fds \<longrightarrow> dispatcher_map ep' fd = dispatcher_map ?ep fd"
    using Cons.IH [OF ih1 ih2(1) watch_new(2) [OF Cons.prems(3) h(4,3)] ih2(2)] by blast
  show ?case
    using ep' eventloop_new_ok [OF h(1,2) Cons.prems(3) h(4,3)] by (intro exI [of _ ep']) (simp add: x d)
qed

section \<open>The server comes up\<close>

text \<open>Answers of the kernel with which nothing fails before the socket is bound.\<close>

definition loops_good :: "start_env \<Rightarrow> bool" where
  "loops_good k \<longleftrightarrow>
     length (ia_mem (se_memory k)) = 28 \<and> 0 \<le> fst (se_main k) \<and> 0 \<le> snd (se_main k) \<and>
     length (se_loops k) = nat THREAD_NUMS \<and> (\<forall>(e, f) \<in> set (se_loops k). 0 \<le> e \<and> 0 \<le> f) \<and>
     distinct (map snd (se_loops k)) \<and> se_listen_fd k \<noteq> snd (se_main k) \<and> (\<forall>i. se_before k i = None)"

definition server_address :: "start_env \<Rightarrow> byte list" where
  "server_address k = sockaddr_in 8987 (pton_bytes 4 (se_pton k AF_INET ''172.17.0.16''))"

lemma main_address_eq:
  assumes "loops_good k" "length (pton_bytes 4 (se_pton k AF_INET ''172.17.0.16'')) = 4"
  shows "take 16 (Sockaddr (main_address k)) = server_address k"
  using assms InetAddress_ip_eq(2) [of "se_memory k" "se_pton k" "''172.17.0.16''" 8987]
  by (simp add: main_address_def server_address_def Sockaddr_def loops_good_def length_sockaddr)

definition listening :: "byte list \<Rightarrow> descriptor" where
  "listening sa = \<lparr>ds_fl = O_RDWR OR O_NONBLOCK, ds_fd = FD_CLOEXEC, ds_nodelay = 1, ds_keepalive = 0,
     ds_bound = Some sa, ds_backlog = Some SOMAXCONN\<rparr>"

lemma Socket_new_eq:
  "0 \<le> fd \<Longrightarrow> Socket_new fd AF_INET SOCK_STREAM n =
     (\<lparr>soc_fd = fd, soc_family = AF_INET\<rparr>, n\<lparr>nt_fds := (nt_fds n)(fd \<mapsto> new_descriptor (O_RDWR OR O_NONBLOCK) FD_CLOEXEC)\<rparr>)"
  by (simp add: Socket_new_def sys_socket_def SOCK_STREAM_def SOCK_CLOEXEC_def SOCK_NONBLOCK_def Let_def)

lemma HttpServer_new_ok:
  assumes "0 \<le> fd" "take 16 (Sockaddr addr) = sa" "bindable sa" "ep_inv loop" "ep_store loop p = None" "dispatcher_map loop fd = None"
  shows "\<exists>srv. HttpServer_new fd bindable True p loop addr th n = Inr (srv, n\<lparr>nt_fds := (nt_fds n)(fd \<mapsto> listening sa)\<rparr>) \<and>
    hs_main_loop srv = watched fd p loop \<and> hs_accept_dispatcher srv = p \<and> hs_listen_soc srv = \<lparr>soc_fd = fd, soc_family = AF_INET\<rparr> \<and>
    hs_threadpool srv = eventloopThreadPool_new THREAD_NUMS \<and>
    hs_world srv = \<lparr>cw_conns = Map.empty, cw_list = [], cw_ep = epoller_new Map.empty, cw_heap = th, cw_locked = False,
                    cw_cache = LRUCache_new LRUCACHE_CAPCITY, cw_sent = (\<lambda>_. []), cw_next = 0\<rparr>"
  using assms watch_new(1) [OF assms(4-6)]
  by (simp add: HttpServer_new_def Socket_new_eq bindAddr_def sys_bind_def sockaddr_len_def sizeof_sockaddr_in_def
      new_descriptor_def setNoDelay_def Socket_listen_def sys_listen_def listening_def)

lemma HttpServer_new_aborts:
  assumes "fd < 0 \<and> nt_fds n fd = None \<or> 0 \<le> fd \<and> \<not> bindable (take 16 (Sockaddr addr)) \<or> 0 \<le> fd \<and> \<not> free"
  shows "HttpServer_new fd bindable free p loop addr th n = Inl Aborted"
proof (cases "fd < 0")
  case True
  then show ?thesis using assms
    by (auto simp: HttpServer_new_def Socket_new_def sys_socket_def log_err_def bindAddr_def sys_bind_def Let_def)
next
  case False
  then show ?thesis using assms
    by (auto simp: HttpServer_new_def Socket_new_eq bindAddr_def sys_bind_def sockaddr_len_def sizeof_sockaddr_in_def
      new_descriptor_def setNoDelay_def Socket_listen_def sys_listen_def)
qed

text \<open>A server that is up.\<close>

definition server_up :: "start_env \<Rightarrow> HttpServer \<Rightarrow> bool" where
  "server_up k srv \<longleftrightarrow>
     ep_inv (hs_main_loop srv) \<and> ep_kernel (hs_main_loop srv) (se_listen_fd k) = Some (EPOLLIN, hs_accept_dispatcher srv) \<and>
     hs_threadpool srv = eventloopThreadPool_start (\<lambda>_. None) (se_own k) (eventloopThreadPool_new THREAD_NUMS) \<and>
     world_ok (hs_world srv) \<and> th_nums (cw_heap (hs_world srv)) = 0 \<and> length (th_vec (cw_heap (hs_world srv))) = 64 \<and>
     cw_cache (hs_world srv) = LRUCache_new LRUCACHE_CAPCITY \<and> cw_sent (hs_world srv) = (\<lambda>_. []) \<and> cw_list (hs_world srv) = [] \<and>
     (\<forall>fd. fd \<notin> snd ` set (se_loops k) \<longrightarrow> dispatcher_map (cw_ep (hs_world srv)) fd = None)"

lemma main_start_ok:
  assumes good: "loops_good k" "length (pton_bytes 4 (se_pton k AF_INET ''172.17.0.16'')) = 4"
    and b: "0 \<le> se_listen_fd k" "se_bindable k (server_address k)" "se_free k"
  shows "\<exists>srv. main_start k n = Inr (srv, n\<lparr>nt_fds := (nt_fds n)(se_listen_fd k \<mapsto> listening (server_address k))\<rparr>) \<and> server_up k srv"
proof -
  let ?e = "epoller_new Map.empty" and ?fd = "se_listen_fd k" and ?n = "n\<lparr>nt_fds := (nt_fds n)(se_listen_fd k \<mapsto> listening (server_address k))\<rparr>"
  let ?l = "watched (snd (se_main k)) 0 ?e"
  have e: "ep_inv ?e" "ep_store ?e a = None" "dispatcher_map ?e f = None" for a f
    using ep_inv_new by (simp_all add: epoller_new_def)
  have g: "0 \<le> fst (se_main k)" "0 \<le> snd (se_main k)" "?fd \<noteq> snd (se_main k)" "\<forall>i. se_before k i = None"
    using good by (auto simp: loops_good_def)
  have l: "eventloop_new (fst (se_main k)) (snd (se_main k)) 0 ?e = Inr ?l" by (rule eventloop_new_ok [OF g(1,2) e])
  have l': "ep_inv ?l" "ep_store ?l 1 = None" "dispatcher_map ?l ?fd = None"
    using watch_new(2) [OF e] g(3) by (simp_all add: watched_def epoller_new_def)
  obtain srv where s: "HttpServer_new ?fd (se_bindable k) (se_free k) 1 ?l (main_address k) (TimerHeap_new 64 Map.empty) n = Inr (srv, ?n)"
      "hs_main_loop srv = watched ?fd 1 ?l" "hs_accept_dispatcher srv = 1" "hs_threadpool srv = eventloopThreadPool_new THREAD_NUMS"
      "hs_world srv = \<lparr>cw_conns = Map.empty, cw_list = [], cw_ep = ?e, cw_heap = TimerHeap_new 64 Map.empty, cw_locked = False,
                    cw_cache = LRUCache_new LRUCACHE_CAPCITY, cw_sent = (\<lambda>_. []), cw_next = 0\<rparr>"
    using HttpServer_new_ok [where bindable = "se_bindable k", OF b(1) main_address_eq [OF good] b(2) l', of "TimerHeap_new 64 Map.empty" n] b(3) by auto
  have "\<forall>(e, f) \<in> set (se_loops k). 0 \<le> e \<and> 0 \<le> f \<and> dispatcher_map ?e f = None" "distinct (map snd (se_loops k))"
      "\<forall>a \<ge> (0::nat). ep_store ?e a = None"
    using good(1) e by (auto simp: loops_good_def)
  from loops_start_ok [OF this(1,2) e(1) this(3)] obtain ep where ep: "loops_start (se_loops k) 0 ?e = Inr ep" "ep_inv ep"
      "\<forall>a \<ge> length (se_loops k). ep_store ep a = None" "\<forall>fd. fd \<notin> snd ` set (se_loops k) \<longrightarrow> dispatcher_map ep fd = None"
    by (auto simp: e(3))
  let ?srv = "srv\<lparr>hs_threadpool := eventloopThreadPool_start (se_before k) (se_own k) (hs_threadpool srv),
      hs_world := (hs_world srv)\<lparr>cw_ep := ep, cw_next := length (se_loops k)\<rparr>\<rparr>"
  have "HttpServer_start (se_before k) (se_own k) (se_loops k) srv = Inr ?srv" using ep(1) s(5) by (simp add: HttpServer_start_def)
  then have "main_start k n = Inr (?srv, ?n)" using l s(1) by (simp add: main_start_def)
  moreover have "server_up k ?srv"
    using s(2-5) ep(2-4) g(4) watch_new(2) [OF l'] th_inv_new [of 64 Map.empty]
    by (simp add: server_up_def world_ok_def watched_def TimerHeap_new_def eventloopThreadPool_start_def)
  ultimately show ?thesis by blast
qed

text \<open>
  The alarm on a connection that waits with its timer: nothing before its time; then, from another thread, the close is
  queued and the timer taken out, and from the thread of the connection's own loop the close runs inside \<open>tick\<close>, which then writes to
  the freed timer.
\<close>

lemma alarm_waiting:
  assumes "waiting c k w" "armed now k (cw_heap w)" "l = threadId_of (hc_fd k)"
  shows "cur < now + int HTTP_KEEPALIVE_TIME \<Longrightarrow> sig_alarm tid threadId_of cur (w, qs) = Some (Inr (EXPIRE_TIME, w, qs))"
    and "now + int HTTP_KEEPALIVE_TIME \<le> cur \<Longrightarrow> tid = l \<Longrightarrow> sig_alarm tid threadId_of cur (w, qs) = Some (Inl Use_after_free)"
    and "now + int HTTP_KEEPALIVE_TIME \<le> cur \<Longrightarrow> tid \<noteq> l \<Longrightarrow>
      \<exists>w4 w5. sig_alarm tid threadId_of cur (w, qs) = Some (Inr (EXPIRE_TIME, w4, qs(l := (fst (qs l) @ [c], snd (qs l) + 1)))) \<and>
        cw_conns w4 = cw_conns w \<and> cw_sent w4 = cw_sent w \<and> th_nums (cw_heap w4) = 0 \<and>
        run_functors handleClose [c] w4 = Inr w5 \<and> cw_conns w5 c = None \<and> cw_list w5 = remove1 c (cw_list w) \<and>
        cw_sent w5 = cw_sent w \<and> th_nums (cw_heap w5) = 0 \<and> (\<forall>a. hc_tim k = Some a \<longrightarrow> th_store (cw_heap w5) a = None)"
proof -
  obtain a t where t: "hc_tim k = Some a" "th_store (cw_heap w) a = Some t" "expire t = now + int HTTP_KEEPALIVE_TIME"
    "th_nums (cw_heap w) = 1" "th_vec (cw_heap w) ! 0 = Some a" "1 < length (th_vec (cw_heap w))" "timer_cb t = Some c"
    by (rule waiting_timer [OF assms(1,2)])
  note ti = tick_sole [OF t(4,5,2,6,7), of cur "timer_call tid threadId_of" "(w, qs)"]
  have k: "cw_conns w c = Some k" "\<not> cw_locked w" and ok: "conn_ok c k w"
    using assms(1) by (auto simp: waiting_def conn_ok_def)
  show "cur < now + int HTTP_KEEPALIVE_TIME \<Longrightarrow> sig_alarm tid threadId_of cur (w, qs) = Some (Inr (EXPIRE_TIME, w, qs))"
    using ti(1) t(3) k(2) by (simp add: sig_alarm_def)
  assume due: "now + int HTTP_KEEPALIVE_TIME \<le> cur"
  show "sig_alarm tid threadId_of cur (w, qs) = Some (Inl Use_after_free)" if "tid = l"
  proof -
    obtain w' where w': "handleClose c w = Inr w'"
        "cw_heap w' = (cw_heap w)\<lparr>th_store := (th_store (cw_heap w))(a := None)\<rparr>"
      using handleClose_ok [OF ok] t(1) by auto
    obtain fs n where q: "qs l = (fs, n)" by (cases "qs l")
    have "timer_call tid threadId_of c (cw_heap w, w, qs) =
        Inr ((cw_heap w)\<lparr>th_store := (th_store (cw_heap w))(a := None)\<rparr>, w', qs)"
      using that assms(3) k(1) w' q
      by (simp add: timer_call_def handleTimerCb_def conn_of_def runInLoop_def Let_def fun_upd_idem)
    from ti(3) [OF _ this] show ?thesis using due t(3) k(2) by (simp add: sig_alarm_def)
  qed
  assume other: "tid \<noteq> l"
  let ?qs = "qs(l := (fst (qs l) @ [c], snd (qs l) + 1))"
  let ?h = "\<lparr>th_vec = (th_vec (cw_heap w))[0 := None], th_nums = 0, th_store = (th_store (cw_heap w))(a \<mapsto> t\<lparr>timer_index := -2\<rparr>)\<rparr>"
  have "timer_call tid threadId_of c (cw_heap w, w, qs) = Inr (cw_heap w, w, ?qs)"
    using other assms(3) k(1)
    by (simp add: timer_call_def handleTimerCb_def conn_of_def runInLoop_def Let_def case_prod_beta)
  from ti(2) [OF _ this]
  have "sig_alarm tid threadId_of cur (w, qs) = Some (Inr (EXPIRE_TIME, w\<lparr>cw_heap := ?h\<rparr>, ?qs))"
    using due t(3) k(2) by (simp add: sig_alarm_def)
  moreover obtain w5 where "run_functors handleClose [c] (w\<lparr>cw_heap := ?h\<rparr>) = Inr w5" "cw_conns w5 c = None"
      "cw_list w5 = remove1 c (cw_list w)" "cw_sent w5 = cw_sent w" "th_nums (cw_heap w5) = 0" "th_store (cw_heap w5) a = None"
    using fired_closes [OF assms(1) t(1,2) refl] by blast
  ultimately show "\<exists>w4 w5. sig_alarm tid threadId_of cur (w, qs) = Some (Inr (EXPIRE_TIME, w4, ?qs)) \<and>
        cw_conns w4 = cw_conns w \<and> cw_sent w4 = cw_sent w \<and> th_nums (cw_heap w4) = 0 \<and>
        run_functors handleClose [c] w4 = Inr w5 \<and> cw_conns w5 c = None \<and> cw_list w5 = remove1 c (cw_list w) \<and>
        cw_sent w5 = cw_sent w \<and> th_nums (cw_heap w5) = 0 \<and> (\<forall>a. hc_tim k = Some a \<longrightarrow> th_store (cw_heap w5) a = None)"
    using t(1) by (intro exI [of _ "w\<lparr>cw_heap := ?h\<rparr>"] exI [of _ w5]) simp
qed

text \<open>The list of answers \<open>AcceptCallback\<close> of \<open>Http_Connection\<close> is given is what the socket makes of the kernel's.\<close>

lemma Socket_accept_eq:
  "Socket_accept r s (Some a) n = Inr (ac_fd r, Some a,
     (if ac_fd r < 0 then if ac_fd r = - 1 \<and> ac_errno r \<noteq> EAGAIN then log_err Accept_failed n else n
      else n\<lparr>nt_fds := (nt_fds n)(ac_fd r \<mapsto> new_descriptor O_RDWR 0)\<rparr>))"
  by (simp add: Socket_accept_def sys_accept_def Let_def)

definition accept_answers :: "accepted list \<Rightarrow> (int \<times> bool) list" where
  "accept_answers rs = map (\<lambda>r. (ac_fd r, ac_errno r = EINTR)) rs"

lemma accept_calls_blocks: "accept_loop (accept_answers rs) = None \<Longrightarrow> accept_calls rs s a n = None"
  by (induction rs arbitrary: n) (auto simp: accept_answers_def Socket_accept_eq split: if_splits)

lemma accept_calls_returns:
  "accept_loop (accept_answers rs) = Some fd \<Longrightarrow>
     \<exists>n'. accept_calls rs s a n = Some (Inr (fd, Some a, n')) \<and>
       nt_fds n' = (if fd < 0 then nt_fds n else (nt_fds n)(fd \<mapsto> new_descriptor O_RDWR 0))"
proof (induction rs arbitrary: n)
  case (Cons r rs)
  show ?case
  proof (cases "ac_fd r < 0 \<and> ac_errno r = EINTR")
    case True
    let ?n = "if ac_fd r = - 1 \<and> ac_errno r \<noteq> EAGAIN then log_err Accept_failed n else n"
    have "nt_fds ?n = nt_fds n" by (simp add: log_err_def)
    moreover have "accept_calls (r # rs) s a n = accept_calls rs s a ?n" using True by (simp add: Socket_accept_eq)
    moreover have "accept_loop (accept_answers rs) = Some fd" using Cons.prems True by (simp add: accept_answers_def)
    ultimately show ?thesis using Cons.IH [of ?n] by metis
  next
    case False
    then show ?thesis using Cons.prems by (auto simp: accept_answers_def Socket_accept_eq log_err_def)
  qed
qed (simp add: accept_answers_def)

section \<open>Properties\<close>

text \<open>
  C5. \<open>main\<close> either brings the server up or aborts.  When the loops can be made, the server is up exactly when
  the socket is made, bound to 172.17.0.16:8987 and listening: then the listening socket is non-blocking and
  closed on \<open>exec\<close>, the main loop watches it, every descriptor of a new connection has one of the eight loops,
  no timer is set, the cache is empty and nothing has been sent; otherwise the process aborts.
\<close>

theorem server_starts_or_aborts:
  assumes "loops_good k" "length (pton_bytes 4 (se_pton k AF_INET ''172.17.0.16'')) = 4"
    and "se_listen_fd k < 0 \<longrightarrow> nt_fds n (se_listen_fd k) = None"
  shows "if 0 \<le> se_listen_fd k \<and> se_bindable k (server_address k) \<and> se_free k
    then \<exists>srv n'. main_start k n = Inr (srv, n') \<and>
      nt_fds n' (se_listen_fd k) = Some (listening (server_address k)) \<and>
      ep_kernel (hs_main_loop srv) (se_listen_fd k) = Some (EPOLLIN, hs_accept_dispatcher srv) \<and>
      (\<forall>fd. 0 \<le> fd \<longrightarrow> getLoop fd (hs_threadpool srv) = Inr (Some (se_own k (nat (fd mod 8))))) \<and>
      world_ok (hs_world srv) \<and> th_nums (cw_heap (hs_world srv)) = 0 \<and> lru_good fs (cw_cache (hs_world srv)) \<and>
      cw_sent (hs_world srv) = (\<lambda>_. [])
    else main_start k n = Inl Aborted"
proof (cases "0 \<le> se_listen_fd k \<and> se_bindable k (server_address k) \<and> se_free k")
  case True
  then obtain srv where s: "main_start k n = Inr (srv, n\<lparr>nt_fds := (nt_fds n)(se_listen_fd k \<mapsto> listening (server_address k))\<rparr>)" "server_up k srv"
    using main_start_ok [OF assms(1,2)] by blast
  have "getLoop fd (hs_threadpool srv) = Inr (Some (se_own k (nat (fd mod 8))))" if "0 \<le> fd" for fd
    using s(2) that getLoop_started [of THREAD_NUMS fd] by (simp add: server_up_def THREAD_NUMS_def)
  then show ?thesis using True s lru_good_new [of LRUCACHE_CAPCITY fs] by (auto simp: server_up_def LRUCACHE_CAPCITY_def)
next
  case False
  have "0 \<le> fst (se_main k)" "0 \<le> snd (se_main k)" using assms(1) by (auto simp: loops_good_def)
  then have "\<exists>l. eventloop_new (fst (se_main k)) (snd (se_main k)) 0 (epoller_new Map.empty) = Inr l"
    using eventloop_new_ok [OF _ _ ep_inv_new] by (simp add: epoller_new_def)
  moreover have "se_listen_fd k < 0 \<and> nt_fds n (se_listen_fd k) = None \<or>
      0 \<le> se_listen_fd k \<and> \<not> se_bindable k (take 16 (Sockaddr (main_address k))) \<or> 0 \<le> se_listen_fd k \<and> \<not> se_free k"
    using False assms(3) main_address_eq [OF assms(1,2)] by auto
  ultimately show ?thesis using False by (auto simp: main_start_def HttpServer_new_aborts)
qed

text \<open>
  C24. Accepting over the socket: the loop around \<open>accept\<close> ends with the first answer that is not an
  interruption, as the model of the callback has it; the address that is to become the peer's is the one the caller
  had, so every connection is made with an address nobody has set; and the socket of the connection is
  non-blocking, whatever the kernel gave it.
\<close>

theorem accepted_connection:
  assumes "accept_loop (accept_answers rs) = Some fd"
  shows "\<exists>n'. accept_calls rs s a n = Some (Inr (fd, Some a, n')) \<and>
    (0 \<le> fd \<longrightarrow> (\<exists>d. nt_fds (snd (TcpConnection_socket fd n')) fd = Some d \<and> bit (ds_fl d) 11) \<and>
      (\<forall>g. g \<noteq> fd \<longrightarrow> nt_fds (snd (TcpConnection_socket fd n')) g = nt_fds n g))"
proof -
  obtain n' where n': "accept_calls rs s a n = Some (Inr (fd, Some a, n'))"
      "nt_fds n' = (if fd < 0 then nt_fds n else (nt_fds n)(fd \<mapsto> new_descriptor O_RDWR 0))"
    using accept_calls_returns [OF assms] by blast
  then show ?thesis
    by (auto simp: TcpConnection_socket_def Socket_of_fd_def setNoBlock_eq with_bit_def bit_simps)
qed

text \<open>
  Making and destroying a loop leaves the tables of the kernel and the wrapper as they were: the wake-up
  descriptor is watched in between and only then.
\<close>

theorem eventloop_lifecycle:
  assumes "0 \<le> epollfd" "0 \<le> wakeupfd" "ep_inv ep" "ep_store ep p = None" "dispatcher_map ep wakeupfd = None"
  shows "\<exists>ep'. eventloop_new epollfd wakeupfd p ep = Inr ep' \<and> ep_inv ep' \<and>
    ep_kernel ep' = (ep_kernel ep)(wakeupfd \<mapsto> (EPOLLIN, p)) \<and> eventloop_destroy p ep' = Inr ep"
  using eventloop_new_ok [OF assms] eventloop_destroy_watched [OF assms(3-5)] watch_new(2) [OF assms(3-5)]
  by (simp add: watched_def)

text \<open>A start to try the theorems on.\<close>

definition sample_start :: start_env where
  "sample_start =
     \<lparr>se_memory = blank_address,
      se_pton = (\<lambda>fam ip. if fam = AF_INET \<and> ip = ''172.17.0.16'' then Pton_ok [172, 17, 0, 16] else Pton_bad_text),
      se_main = (3, 4), se_listen_fd = 5, se_bindable = (\<lambda>sa. length sa = 16), se_free = True, se_before = (\<lambda>_. None), se_own = id,
      se_loops = [(6, 7), (8, 9), (10, 11), (12, 13), (14, 15), (16, 17), (18, 19), (30, 31)]\<rparr>"

definition no_sockets :: network where
  "no_sockets = \<lparr>nt_fds = Map.empty, nt_log = []\<rparr>"

lemma sample_start_good:
  "loops_good sample_start" "length (pton_bytes 4 (se_pton sample_start AF_INET ''172.17.0.16'')) = 4"
  "0 \<le> se_listen_fd sample_start" "se_bindable sample_start (server_address sample_start)" "se_free sample_start"
  by (simp_all add: loops_good_def sample_start_def blank_address_def THREAD_NUMS_def pton_bytes_def server_address_def length_sockaddr)

theorem server_starts_or_aborts_witness:
  "(\<exists>srv n'. main_start sample_start no_sockets = Inr (srv, n') \<and> world_ok (hs_world srv) \<and>
      nt_fds n' 5 = Some (listening (sockaddr_in 8987 [172, 17, 0, 16])) \<and> getLoop 21 (hs_threadpool srv) = Inr (Some 5)) \<and>
    main_start (sample_start\<lparr>se_listen_fd := - 1\<rparr>) no_sockets = Inl Aborted"
proof
  have "server_address sample_start = sockaddr_in 8987 [172, 17, 0, 16]" "se_own sample_start = id" "se_listen_fd sample_start = 5"
    by (simp_all add: server_address_def sample_start_def pton_bytes_def)
  then show "\<exists>srv n'. main_start sample_start no_sockets = Inr (srv, n') \<and> world_ok (hs_world srv) \<and>
      nt_fds n' 5 = Some (listening (sockaddr_in 8987 [172, 17, 0, 16])) \<and> getLoop 21 (hs_threadpool srv) = Inr (Some 5)"
    using server_starts_or_aborts [OF sample_start_good(1,2), of no_sockets] sample_start_good(3-5) by fastforce
  have "loops_good (sample_start\<lparr>se_listen_fd := - 1\<rparr>)"
      "length (pton_bytes 4 (se_pton (sample_start\<lparr>se_listen_fd := - 1\<rparr>) AF_INET ''172.17.0.16'')) = 4"
    using sample_start_good(1,2) by (simp_all add: loops_good_def sample_start_def)
  from server_starts_or_aborts [OF this, of no_sockets]
  show "main_start (sample_start\<lparr>se_listen_fd := - 1\<rparr>) no_sockets = Inl Aborted" by (simp add: no_sockets_def)
qed

theorem accepted_connection_witness:
  "\<exists>n'. accept_calls [\<lparr>ac_fd = - 1, ac_errno = 4, ac_peer = []\<rparr>, \<lparr>ac_fd = 7, ac_errno = 0, ac_peer = replicate 16 1\<rparr>]
      \<lparr>soc_fd = 5, soc_family = AF_INET\<rparr> blank_address no_sockets = Some (Inr (7, Some blank_address, n')) \<and>
    (\<exists>d. nt_fds (snd (TcpConnection_socket 7 n')) 7 = Some d \<and> bit (ds_fl d) 11)"
  using accepted_connection [of "[\<lparr>ac_fd = - 1, ac_errno = 4, ac_peer = []\<rparr>, \<lparr>ac_fd = 7, ac_errno = 0, ac_peer = replicate 16 1\<rparr>]" 7
      "\<lparr>soc_fd = 5, soc_family = AF_INET\<rparr>" blank_address no_sockets]
  by (auto simp: accept_answers_def EINTR_def)

theorem eventloop_lifecycle_witness:
  "\<exists>ep'. eventloop_new 3 4 0 (epoller_new Map.empty) = Inr ep' \<and> ep_kernel ep' 4 = Some (EPOLLIN, 0) \<and>
    eventloop_destroy 0 ep' = Inr (epoller_new Map.empty)"
  using eventloop_lifecycle [OF _ _ ep_inv_new [of Map.empty], of 3 4 0] by (fastforce simp: epoller_new_def)

end
