(* ===== verification/Server_Clients.thy ===== *)
theory Server_Clients
  imports Server_Start
begin

text \<open>
  Many clients at once: no code of its own, but the composition of accepting, reading, answering, keeping
  and closing over the shared tables (the connections and their list, the epoll table, the heap of timers, the
  cache).  Clients connect and ask in any order; a descriptor that was closed is given to a later client.
\<close>

section \<open>Clients and their schedule\<close>

datatype client_event = Connects int | Asks int file_request

text \<open>
  The callbacks the events lead to: an accepted connection is established in its loop; a request is
  read in one piece from the connection that has the descriptor (\<open>cs\<close>).
\<close>

fun serve_events ::
  "server_env \<Rightarrow> 's php_env \<Rightarrow> (nat \<Rightarrow> char) \<Rightarrow> eventloopThreadPool \<Rightarrow> client_event list \<Rightarrow> (int \<Rightarrow> nat) \<Rightarrow> conn_world \<Rightarrow> conn_world result option" where
  "serve_events env penv junk pool [] cs w = Some (Inr w)"
| "serve_events env penv junk pool (Connects fd # es) cs w =
     and_run (AcceptCallback [(fd, False)] pool w) (\<lambda>(conn, w).
       case conn of
         None \<Rightarrow> serve_events env penv junk pool es cs w
       | Some (l, c) \<Rightarrow> and_run (Some (connecionEstablished c w)) (serve_events env penv junk pool es (cs(fd := c))))"
| "serve_events env penv junk pool (Asks fd q # es) cs w =
     and_run (handleRead env penv junk dataLen (fq_time q) (Some (request_text q)) (cs fd) w)
       (serve_events env penv junk pool es cs)"

text \<open>What a descriptor is to a client: free, connected and about to ask, or in use (kept after a reply, or by a loop).\<close>

datatype fd_state = Free | Connected | In_use

text \<open>A request for a file, with or without the wish to close the connection.\<close>

definition closes :: "file_request \<Rightarrow> bool" where
  "closes q \<longleftrightarrow> map_of (rev (fq_headers q)) Connection = Some ''close''"

definition file_request_ok :: "server_env \<Rightarrow> file_request \<Rightarrow> bool" where
  "file_request_ok env q \<longleftrightarrow>
     nul \<notin> set (fq_url q) \<and> params_ok (fq_params q) \<and> headers_ok (fq_headers q) \<and> \<not> is_php (fq_url q) \<and>
     file_in (env_fs env) (WEB_ROOT @ fq_url q) (fq_bytes q) \<and>
     (case fs_stat (env_fs env) (WEB_ROOT @ fq_url q) of None \<Rightarrow> False | Some (s, _, _) \<Rightarrow> s = fq_mtime q) \<and>
     map_of (rev (fq_headers q)) If_Modified_Since = None \<and>
     4096 + 2 * length (request_text q) < 2 ^ 31 \<and> 4096 + 2 * length (reply_text env q) < 2 ^ 31"

text \<open>
  The schedules considered: the kernel gives out a descriptor that is free, a client asks once after it
  has connected, and its descriptor is free again when the request asked to close.  \<open>n\<close> bounds the number of
  connections that are kept.
\<close>

fun schedule :: "server_env \<Rightarrow> nat \<Rightarrow> (int \<Rightarrow> fd_state) \<Rightarrow> client_event list \<Rightarrow> bool" where
  "schedule env n st [] \<longleftrightarrow> True"
| "schedule env n st (Connects fd # es) \<longleftrightarrow> 0 \<le> fd \<and> st fd = Free \<and> schedule env n (st(fd := Connected)) es"
| "schedule env n st (Asks fd q # es) \<longleftrightarrow>
     st fd = Connected \<and> file_request_ok env q \<and>
     (if closes q then schedule env n (st(fd := Free)) es
      else 0 < n \<and> schedule env (n - 1) (st(fd := In_use)) es)"

fun replies :: "server_env \<Rightarrow> int \<Rightarrow> client_event list \<Rightarrow> char list" where
  "replies env fd [] = []"
| "replies env fd (Connects fd' # es) = replies env fd es"
| "replies env fd (Asks fd' q # es) = (if fd' = fd then reply_text env q else []) @ replies env fd es"

section \<open>The shared state between two events\<close>

text \<open>
  The tables are in order and the addresses from \<open>cw_next\<close> on are free; every connected descriptor has a
  new connection that is owned by the list and watched; a free descriptor is not watched.
\<close>

definition clients_inv :: "server_env \<Rightarrow> nat \<Rightarrow> (int \<Rightarrow> fd_state) \<Rightarrow> (int \<Rightarrow> nat) \<Rightarrow> conn_world \<Rightarrow> bool" where
  "clients_inv env n st cs w \<longleftrightarrow>
     \<not> cw_locked w \<and> ep_inv (cw_ep w) \<and> th_inv (cw_heap w) \<and> th_nums (cw_heap w) + n \<le> length (th_vec (cw_heap w)) \<and>
     (\<forall>a \<ge> cw_next w. th_store (cw_heap w) a = None \<and> ep_store (cw_ep w) a = None) \<and> lru_good (env_fs env) (cw_cache w) \<and>
     (\<forall>fd. st fd = Free \<longrightarrow> dispatcher_map (cw_ep w) fd = None) \<and>
     (\<forall>fd. st fd = Connected \<longrightarrow> cs fd < cw_next w \<and> cs fd \<in> set (cw_list w) \<and>
        (\<exists>d. cw_conns w (cs fd) = Some (HttpConnection_new fd d) \<and> dispatcher_map (cw_ep w) fd = Some d))"

lemma clients_invD:
  assumes "clients_inv env n st cs w"
  shows "\<not> cw_locked w" "ep_inv (cw_ep w)" "th_inv (cw_heap w)" "th_nums (cw_heap w) + n \<le> length (th_vec (cw_heap w))"
    "cw_next w \<le> a \<Longrightarrow> th_store (cw_heap w) a = None" "cw_next w \<le> a \<Longrightarrow> ep_store (cw_ep w) a = None"
    "lru_good (env_fs env) (cw_cache w)" "st fd = Free \<Longrightarrow> dispatcher_map (cw_ep w) fd = None"
    "st fd = Connected \<Longrightarrow> cs fd < cw_next w" "st fd = Connected \<Longrightarrow> cs fd \<in> set (cw_list w)"
    "st fd = Connected \<Longrightarrow> \<exists>d. cw_conns w (cs fd) = Some (HttpConnection_new fd d) \<and> dispatcher_map (cw_ep w) fd = Some d"
  using assms unfolding clients_inv_def by blast+

lemma HttpConnection_new_eq: "HttpConnection_new fd d = HttpConnection_new fd' d' \<longleftrightarrow> fd = fd' \<and> d = d'"
  by (auto simp: HttpConnection_new_def)

text \<open>Two connected descriptors have different connections.\<close>

lemma clients_distinct:
  assumes "clients_inv env n st cs w" "st fd = Connected" "st fd' = Connected" "fd \<noteq> fd'"
  shows "cs fd \<noteq> cs fd'"
  using clients_invD(11) [OF assms(1,2)] clients_invD(11) [OF assms(1,3)] assms(4) by (auto simp: HttpConnection_new_eq)

section \<open>A client connects\<close>

lemma accept_full:
  assumes "ep_inv (cw_ep w)" "d = cw_next w" "ep_store (cw_ep w) d = None" "0 \<le> fd" "dispatcher_map (cw_ep w) fd = None"
    and "getLoop fd pool = Inr (Some l)"
  shows "\<exists>w1. AcceptCallback [(fd, False)] pool w = Some (Inr (Some (l, d + 1), w1)) \<and>
    connecionEstablished (d + 1) w1 = Inr (w\<lparr>cw_conns := (cw_conns w)(d + 1 \<mapsto> HttpConnection_new fd d), cw_ep := watched fd d (cw_ep w),
      cw_list := cw_list w @ [d + 1], cw_next := d + 2\<rparr>)"
proof -
  let ?w = "w\<lparr>cw_conns := (cw_conns w)(d + 1 \<mapsto> HttpConnection_new fd d),
      cw_ep := (cw_ep w)\<lparr>ep_store := (ep_store (cw_ep w))(d \<mapsto> dispatcher_new fd)\<rparr>, cw_list := cw_list w @ [d + 1], cw_next := d + 2\<rparr>"
  have "AcceptCallback [(fd, False)] pool w = Some (Inr (Some (l, d + 1), ?w))"
    using assms by (simp add: AcceptCallback_def Let_def)
  moreover have "connecionEstablished (d + 1) ?w = Inr (?w\<lparr>cw_ep := watched fd d (cw_ep w)\<rparr>)"
    using watch_new(1) [OF assms(1,3,5)] by (simp add: connecionEstablished_def conn_of_def HttpConnection_new_def)
  ultimately show ?thesis by (intro exI [of _ ?w]) simp
qed

lemma clients_connect:
  assumes inv: "clients_inv env n st cs w" and fd: "0 \<le> fd" "st fd = Free" and l: "getLoop fd pool = Inr (Some l)"
  shows "\<exists>c w1 w2. AcceptCallback [(fd, False)] pool w = Some (Inr (Some (l, c), w1)) \<and> connecionEstablished c w1 = Inr w2 \<and>
    clients_inv env n (st(fd := Connected)) (cs(fd := c)) w2 \<and> cw_sent w2 = cw_sent w"
proof -
  let ?d = "cw_next w"
  let ?w = "w\<lparr>cw_conns := (cw_conns w)(?d + 1 \<mapsto> HttpConnection_new fd ?d), cw_ep := watched fd ?d (cw_ep w),
      cw_list := cw_list w @ [?d + 1], cw_next := ?d + 2\<rparr>"
  note i = clients_invD [OF inv]
  have n: "ep_store (cw_ep w) ?d = None" "dispatcher_map (cw_ep w) fd = None" using i(6,8) fd(2) by simp_all
  have "clients_inv env n (st(fd := Connected)) (cs(fd := ?d + 1)) ?w"
    unfolding clients_inv_def
  proof (intro conjI allI impI)
    show "ep_inv (cw_ep ?w)" using watch_new(2) [OF i(2) n] by simp
    fix g assume g: "(st(fd := Connected)) g = Connected"
    show "(cs(fd := ?d + 1)) g < cw_next ?w" "(cs(fd := ?d + 1)) g \<in> set (cw_list ?w)"
      using g i(9,10) [of g] by (auto split: if_splits)
    show "\<exists>d. cw_conns ?w ((cs(fd := ?d + 1)) g) = Some (HttpConnection_new g d) \<and> dispatcher_map (cw_ep ?w) g = Some d"
    proof (cases "g = fd")
      case True
      then show ?thesis by (simp add: watched_def)
    next
      case False
      then show ?thesis using g i(9,11) [of g] by (auto simp: watched_def)
    qed
  qed (use i in \<open>auto simp: watched_def split: if_splits\<close>)
  then show ?thesis using accept_full [OF i(2) refl n(1) fd(1) n(2) l] by fastforce
qed

section \<open>A client asks\<close>

text \<open>The tables after a connection is gone.\<close>

definition unwatched :: "int \<Rightarrow> nat \<Rightarrow> epoller \<Rightarrow> epoller" where
  "unwatched fd d ep =
     ep\<lparr>ep_store := (ep_store ep)(d := None), dispatcher_map := (dispatcher_map ep)(fd := None), ep_kernel := (ep_kernel ep)(fd := None)\<rparr>"

lemma unwatched_inv:
  assumes "ep_inv ep" "dispatcher_map ep fd = Some d"
  shows "ep_inv (unwatched fd d ep)"
proof -
  have "q \<noteq> d" if "dispatcher_map ep g = Some q" "g \<noteq> fd" for g q
    using ep_invD(2) [OF assms] ep_invD(2) [OF assms(1) that(1)] that(2) by auto
  then show ?thesis using assms(1) unfolding ep_inv_def unwatched_def by (auto split: if_splits)
qed

lemma handleClose_full:
  assumes "cw_conns w c = Some k" "hc_tim k = None" "c \<in> set (cw_list w)" "ep_inv (cw_ep w)"
    and "dispatcher_map (cw_ep w) (hc_fd k) = Some (hc_dispatcher k)"
  shows "handleClose c w = Inr (w\<lparr>cw_conns := (cw_conns w)(c := None), cw_list := remove1 c (cw_list w),
    cw_ep := unwatched (hc_fd k) (hc_dispatcher k) (cw_ep w)\<rparr>)"
proof -
  obtain e where e: "ep_store (cw_ep w) (hc_dispatcher k) = Some e" "d_fd e = hc_fd k" "ep_kernel (cw_ep w) (hc_fd k) \<noteq> None"
    using ep_invD(2) [OF assms(4,5)] by auto
  show ?thesis using assms(1-3,5) e
    by (simp add: handleClose_def conn_of_def removeDispatcher_def delDispatcher_def deref_dispatcher_def updateEpoller_def epoll_ctl_def
        onClose_def HttpConnection_destroy_def delete_timer_def unwatched_def)
qed

lemma keep_alive_full:
  assumes "hc_tim k = None" "\<not> cw_locked w" "th_inv (cw_heap w)" "th_nums (cw_heap w) < length (th_vec (cw_heap w))"
    and "th_store (cw_heap w) (cw_next w) = None"
  shows "\<exists>h t. keep_alive now c k w = Some (Inr (set_conn c (k\<lparr>hc_tim := Some (cw_next w)\<rparr>) (w\<lparr>cw_heap := h, cw_next := cw_next w + 1\<rparr>))) \<and>
    th_inv h \<and> th_nums h = th_nums (cw_heap w) + 1 \<and> length (th_vec h) = length (th_vec (cw_heap w)) \<and>
    th_store h = (th_store (cw_heap w))(cw_next w \<mapsto> t)"
proof -
  let ?a = "cw_next w" and ?tim = "(Timer_new now HTTP_KEEPALIVE_TIME)\<lparr>timer_cb := Some c\<rparr>"
  let ?h = "(cw_heap w)\<lparr>th_store := (th_store (cw_heap w))(?a \<mapsto> ?tim)\<rparr>"
  have inv: "th_inv ?h" by (rule th_inv_store_fresh [OF assms(3,5)])
  have "Some ?a \<notin> set (take (th_nums (cw_heap w)) (th_vec (cw_heap w)))" by (rule live_in_heap [OF assms(3,5)])
  then obtain h i where "pushTimer (Some ?a) ?h = Inr h" "th_inv h" "th_nums h = th_nums ?h + 1" "length (th_vec h) = length (th_vec ?h)"
      "th_store h = (th_store ?h)(?a \<mapsto> ?tim\<lparr>timer_index := int i\<rparr>)"
    using pushTimer_correct_aux [OF inv, of ?a ?tim] assms(4) by auto
  then show ?thesis using assms(1,2)
    by (intro exI [of _ h] exI [of _ "?tim\<lparr>timer_index := int i\<rparr>"]) (simp add: keep_alive_def Let_def)
qed

text \<open>A request read by a new connection, up to the write of the whole reply.\<close>

lemma read_new_connection:
  assumes w: "cw_conns w c = Some (HttpConnection_new fd d)" "\<not> cw_locked w" and q: "file_request_ok env q"
    and lru: "lru_good (env_fs env) (cw_cache w)"
  shows "\<exists>k r cache. handleRead env penv junk dataLen (fq_time q) (Some (request_text q)) c w =
      finish_reply (env_now env) c k (\<lambda>w. Inr w) (put_bytes fd (reply_text env q) ((set_conn c k w)\<lparr>cw_cache := cache\<rparr>)) \<and>
    lru_good (env_fs env) cache \<and> hc_request k = Some r \<and> (closing r \<longleftrightarrow> closes q) \<and>
    hc_fd k = fd \<and> hc_dispatcher k = d \<and> hc_tim k = None"
proof -
  let ?k = "HttpConnection_new fd d" and ?m = "reply_text env q" and ?t = "request_text q" and ?hs = "fq_headers q"
  have f: "hc_reqstate ?k = CHECK_REQUESTLINE" "request_kept ?k" "input_buffer ?k = Buffer_new"
      "delay_timer (env_now env) ?k (cw_heap w) = Inr (Some (cw_heap w))"
      "new_header ?hs ?k h = (case map_of (rev ?hs) h of Some x \<Rightarrow> x | None \<Rightarrow> [])" for h
    by (simp_all add: HttpConnection_new_def request_kept_def delay_timer_def new_header_def old_header_def split: option.split)
  obtain ns sz where st: "fs_stat (env_fs env) (WEB_ROOT @ fq_url q) = Some (fq_mtime q, ns, sz)"
    using q by (auto simp: file_request_ok_def split: option.splits prod.splits)
  have p: "HTTP11 \<noteq> http_version.UNKNOW" "nul \<notin> set (fq_url q)" "params_ok (fq_params q)" "headers_ok ?hs"
      "file_in (env_fs env) (WEB_ROOT @ fq_url q) (fq_bytes q)" "\<not> is_php (fq_url q)" "new_header ?hs ?k If_Modified_Since = []"
      "4096 + 2 * length ?t < 2 ^ 31" "4096 + 2 * length (file_reply env (fq_time q) HTTP11 (fq_url q) (fq_mtime q) (fq_bytes q)) < 2 ^ 31"
    using q by (auto simp: file_request_ok_def f(5) reply_text_def)
  obtain ib where ib: "Buffer_readv junk (Some ?t) (input_buffer ?k) = Inr (int (length ?t), ib)" "alloc_buffer ib" "buf_data ib = ?t"
    using readv_new [OF p(8)] unfolding f(3) by blast
  from handleRead_file [OF w f(1,2,4) ib request_text_def p(1-4) lru p(5) st p(6,7,9)] obtain k r cache buf where
    k: "alloc_buffer buf" "buf_data buf = ?m"
      "handleRead env penv junk dataLen (fq_time q) (Some ?t) c w = conn_send (env_now env) junk (int (length (buf_data buf))) buf c
         ((set_conn c k (w\<lparr>cw_heap := cw_heap w\<rparr>))\<lparr>cw_cache := cache\<rparr>)"
      "kept k = kept (?k\<lparr>input_buffer := ib\<rparr>)" "lru_good (env_fs env) cache" "hc_request k = Some r" "rq_version r = HTTP11"
      "\<forall>h. h \<noteq> http_headers.UNKNOW \<longrightarrow> header_value (rq_headers r) h = new_header ?hs ?k h"
    unfolding reply_text_def by blast
  have "HttpConn.more k = HttpConn.more ?k" using kept_more [OF k(4)] by simp
  note m = more_fields [OF this]
  have fields: "hc_fd k = fd" "hc_dispatcher k = d" "hc_tim k = None" using m by (simp_all add: HttpConnection_new_def)
  let ?w = "(set_conn c k w)\<lparr>cw_cache := cache\<rparr>"
  have "conn_send (env_now env) junk (int (length (buf_data buf))) buf c ?w =
      finish_reply (env_now env) c k (\<lambda>w. Inr w) (put_bytes fd ?m ?w)"
    using dataLen_eq [OF k(1)] k(2) fields(1) by (simp add: conn_send_def conn_of_def set_conn_def Let_def)
  moreover have "closing r \<longleftrightarrow> closes q"
    using k(7,8) f(5) by (auto simp: closing_iff closes_def split: option.splits)
  ultimately show ?thesis using k(3,5,6) fields by auto
qed

text \<open>A request that asks to close: the connection goes, and with it every entry in the tables.\<close>

lemma clients_close:
  assumes inv: "clients_inv env n st cs w" and st: "st fd = Connected" "cw_conns w (cs fd) = Some (HttpConnection_new fd d)"
      "dispatcher_map (cw_ep w) fd = Some d" and k: "hc_fd k = fd" "hc_dispatcher k = d" "hc_tim k = None"
    and lru: "lru_good (env_fs env) cache"
  shows "\<exists>w'. handleClose (cs fd) (put_bytes fd bs ((set_conn (cs fd) k w)\<lparr>cw_cache := cache\<rparr>)) = Inr w' \<and>
    clients_inv env n (st(fd := Free)) cs w' \<and> cw_sent w' = (cw_sent w)(fd := cw_sent w fd @ bs) \<and> cw_conns w' (cs fd) = None"
proof -
  note i = clients_invD [OF inv]
  let ?c = "cs fd" and ?w = "put_bytes fd bs ((set_conn (cs fd) k w)\<lparr>cw_cache := cache\<rparr>)"
  let ?w' = "?w\<lparr>cw_conns := (cw_conns ?w)(?c := None), cw_list := remove1 ?c (cw_list ?w), cw_ep := unwatched fd d (cw_ep ?w)\<rparr>"
  have w: "cw_conns ?w ?c = Some k" "?c \<in> set (cw_list ?w)" "cw_ep ?w = cw_ep w" "cw_heap ?w = cw_heap w" "cw_next ?w = cw_next w"
      "cw_locked ?w = cw_locked w" "cw_list ?w = cw_list w"
    using i(10) [OF st(1)] by (simp_all add: set_conn_def put_bytes_def)
  have e: "ep_inv (cw_ep ?w)" "dispatcher_map (cw_ep ?w) (hc_fd k) = Some (hc_dispatcher k)" using i(2) st(3) k w(3) by simp_all
  have h: "handleClose ?c ?w = Inr ?w'" using handleClose_full [OF w(1) k(3) w(2) e] k(1,2) by simp
  have "clients_inv env n (st(fd := Free)) cs ?w'"
    unfolding clients_inv_def
  proof (intro conjI allI impI)
    show "ep_inv (cw_ep ?w')" using unwatched_inv [OF i(2) st(3)] w(3) by simp
    fix g assume "(st(fd := Free)) g = Connected"
    then have g: "g \<noteq> fd" "st g = Connected" by (auto split: if_splits)
    then have ne: "cs g \<noteq> ?c" using clients_distinct [OF inv] st(1) by metis
    show "cs g < cw_next ?w'" "cs g \<in> set (cw_list ?w')" using i(9,10) [OF g(2)] ne w(5,7) by (simp_all add: in_set_remove1)
    show "\<exists>d. cw_conns ?w' (cs g) = Some (HttpConnection_new g d) \<and> dispatcher_map (cw_ep ?w') g = Some d"
      using i(11) [OF g(2)] g(1) ne w(3) by (simp add: unwatched_def set_conn_def put_bytes_def)
  qed (use i lru w in \<open>auto simp: unwatched_def set_conn_def put_bytes_def split: if_splits\<close>)
  then show ?thesis using h by (intro exI [of _ ?w']) (simp add: set_conn_def)
qed

text \<open>A request that does not: the connection stays, with a timer.\<close>

lemma clients_keep:
  assumes inv: "clients_inv env n st cs w" and st: "st fd = Connected" and n: "0 < n" and k: "hc_tim k = None"
    and lru: "lru_good (env_fs env) cache"
  shows "\<exists>w'. keep_alive now (cs fd) k (put_bytes fd bs ((set_conn (cs fd) k' w)\<lparr>cw_cache := cache\<rparr>)) = Some (Inr w') \<and>
    clients_inv env (n - 1) (st(fd := In_use)) cs w' \<and> cw_sent w' = (cw_sent w)(fd := cw_sent w fd @ bs)"
proof -
  note i = clients_invD [OF inv]
  let ?c = "cs fd" and ?w = "put_bytes fd bs ((set_conn (cs fd) k' w)\<lparr>cw_cache := cache\<rparr>)"
  have w: "cw_ep ?w = cw_ep w" "cw_heap ?w = cw_heap w" "cw_next ?w = cw_next w" "cw_locked ?w = cw_locked w" "cw_list ?w = cw_list w"
    by (simp_all add: set_conn_def put_bytes_def)
  have "\<not> cw_locked ?w" "th_inv (cw_heap ?w)" "th_nums (cw_heap ?w) < length (th_vec (cw_heap ?w))" "th_store (cw_heap ?w) (cw_next ?w) = None"
    using i(1,3,4,5) n w by simp_all
  from keep_alive_full [OF k this, of now ?c] obtain h t where
    h: "keep_alive now ?c k ?w = Some (Inr (set_conn ?c (k\<lparr>hc_tim := Some (cw_next w)\<rparr>) (?w\<lparr>cw_heap := h, cw_next := cw_next w + 1\<rparr>)))"
      "th_inv h" "th_nums h = th_nums (cw_heap w) + 1" "length (th_vec h) = length (th_vec (cw_heap w))"
      "th_store h = (th_store (cw_heap w))(cw_next w \<mapsto> t)"
    unfolding w by blast
  let ?w' = "set_conn ?c (k\<lparr>hc_tim := Some (cw_next w)\<rparr>) (?w\<lparr>cw_heap := h, cw_next := cw_next w + 1\<rparr>)"
  have "clients_inv env (n - 1) (st(fd := In_use)) cs ?w'"
    unfolding clients_inv_def
  proof (intro conjI allI impI)
    fix g assume "(st(fd := In_use)) g = Connected"
    then have g: "g \<noteq> fd" "st g = Connected" by (auto split: if_splits)
    then have ne: "cs g \<noteq> ?c" using clients_distinct [OF inv] st(1) by metis
    show "cs g < cw_next ?w'" "cs g \<in> set (cw_list ?w')"
      using i(9,10) [OF g(2)] by (simp_all add: set_conn_def put_bytes_def)
    show "\<exists>d. cw_conns ?w' (cs g) = Some (HttpConnection_new g d) \<and> dispatcher_map (cw_ep ?w') g = Some d"
      using i(11) [OF g(2)] ne by (simp add: set_conn_def put_bytes_def)
  qed (use i lru h n in \<open>auto simp: set_conn_def put_bytes_def split: if_splits\<close>)
  then show ?thesis using h(1) by (intro exI [of _ ?w']) (simp add: set_conn_def)
qed

lemma set_conn_put: "set_conn c k' (put_bytes fd bs ((set_conn c k w)\<lparr>cw_cache := cache\<rparr>)) = put_bytes fd bs ((set_conn c k' w)\<lparr>cw_cache := cache\<rparr>)"
  by (cases w) (simp add: set_conn_def put_bytes_def)

lemma clients_ask:
  assumes inv: "clients_inv env n st cs w" and st: "st fd = Connected" and q: "file_request_ok env q" "closes q \<or> 0 < n"
  shows "\<exists>w'. handleRead env penv junk dataLen (fq_time q) (Some (request_text q)) (cs fd) w = Some (Inr w') \<and>
    clients_inv env (if closes q then n else n - 1) (st(fd := if closes q then Free else In_use)) cs w' \<and>
    cw_sent w' = (cw_sent w)(fd := cw_sent w fd @ reply_text env q)"
proof -
  note i = clients_invD [OF inv]
  obtain d where d: "cw_conns w (cs fd) = Some (HttpConnection_new fd d)" "dispatcher_map (cw_ep w) fd = Some d" using i(11) [OF st] by blast
  obtain k r cache where k: "handleRead env penv junk dataLen (fq_time q) (Some (request_text q)) (cs fd) w =
      finish_reply (env_now env) (cs fd) k (\<lambda>w. Inr w) (put_bytes fd (reply_text env q) ((set_conn (cs fd) k w)\<lparr>cw_cache := cache\<rparr>))"
      "lru_good (env_fs env) cache" "hc_request k = Some r" "closing r \<longleftrightarrow> closes q" "hc_fd k = fd" "hc_dispatcher k = d" "hc_tim k = None"
    using read_new_connection [OF d(1) i(1) q(1) i(7), of penv junk] by blast
  let ?k = "setRequest (snd (getHeader ''Connection'' r)) k"
  have f: "hc_fd ?k = fd" "hc_dispatcher ?k = d" "hc_tim ?k = None" using k(5-7) by (simp_all add: setRequest_def)
  show ?thesis
  proof (cases "closes q")
    case True
    then show ?thesis
      using k(1,4) request_closes_eq [OF k(3)] clients_close [OF inv st d f k(2), of "reply_text env q"]
      by (auto simp: finish_reply_def set_conn_put)
  next
    case False
    then show ?thesis
      using k(1,4) request_closes_eq [OF k(3)] clients_keep [OF inv st _ f(3) k(2), of "env_now env" "reply_text env q" k] q(2)
      by (auto simp: finish_reply_def)
  qed
qed

section \<open>Every schedule\<close>

lemma serve_events_ok:
  assumes "clients_inv env n st cs w" "schedule env n st es" "\<forall>fd \<ge> 0. \<exists>l. getLoop fd pool = Inr (Some l)"
  shows "\<exists>w'. serve_events env penv junk pool es cs w = Some (Inr w') \<and> cw_sent w' = (\<lambda>fd. cw_sent w fd @ replies env fd es)"
  using assms(1,2)
proof (induction es arbitrary: n st cs w)
  case Nil
  then show ?case by simp
next
  case (Cons e es)
  show ?case
  proof (cases e)
    case (Connects fd)
    then have s: "0 \<le> fd" "st fd = Free" "schedule env n (st(fd := Connected)) es" using Cons.prems(2) by simp_all
    obtain l where "getLoop fd pool = Inr (Some l)" using assms(3) s(1) by blast
    from clients_connect [OF Cons.prems(1) s(1,2) this] obtain c w1 w2 where
      w: "AcceptCallback [(fd, False)] pool w = Some (Inr (Some (l, c), w1))" "connecionEstablished c w1 = Inr w2"
        "clients_inv env n (st(fd := Connected)) (cs(fd := c)) w2" "cw_sent w2 = cw_sent w"
      by blast
    have "serve_events env penv junk pool (e # es) cs w = serve_events env penv junk pool es (cs(fd := c)) w2"
      using w(1,2) Connects by simp
    then show ?thesis using Cons.IH [OF w(3) s(3)] Connects by (simp only: w(4) replies.simps)
  next
    case (Asks fd q)
    then have s: "st fd = Connected" "file_request_ok env q" "closes q \<or> 0 < n"
        "schedule env (if closes q then n else n - 1) (st(fd := if closes q then Free else In_use)) es"
      using Cons.prems(2) by (auto split: if_splits)
    from clients_ask [OF Cons.prems(1) s(1-3), of penv junk] obtain w1 where
      w: "handleRead env penv junk dataLen (fq_time q) (Some (request_text q)) (cs fd) w = Some (Inr w1)"
        "clients_inv env (if closes q then n else n - 1) (st(fd := if closes q then Free else In_use)) cs w1"
        "cw_sent w1 = (cw_sent w)(fd := cw_sent w fd @ reply_text env q)"
      by blast
    from Cons.IH [OF w(2) s(4)] obtain w' where w': "serve_events env penv junk pool es cs w1 = Some (Inr w')"
        "cw_sent w' = (\<lambda>fd. cw_sent w1 fd @ replies env fd es)"
      by blast
    then show ?thesis using w(1,3) Asks by (intro exI [of _ w']) (auto simp: fun_eq_iff)
  qed
qed

end
