(* ===== verification/Sone_Sync.thy ===== *)
theory Sone_Sync
  imports Sone_Prelude Sone_Steps
begin

text \<open>
  The synchronisation primitives of \<^verbatim>\<open>src/http_server/mutex.h\<close> and \<^verbatim>\<open>mutex.cpp\<close> as
  guarded operations: an operation that would block has no result (\<open>None\<close>) until another
  thread has changed the state.  \<open>ScopedLock\<close> is given for \<open>MutexLock\<close>.  The thread object of
  \<^verbatim>\<open>Thread.cpp\<close> is here for its start-up handshake and its naming functions.
\<close>

section \<open>Semaphore\<close>

text \<open>The loop around \<open>sem_wait\<close> only hides interruptions by signals.\<close>

definition Semaphore_wait :: "nat \<Rightarrow> nat option" where
  "Semaphore_wait n = (if 0 < n then Some (n - 1) else None)"

definition Semaphore_notify :: "nat \<Rightarrow> nat" where
  "Semaphore_notify n = n + 1"

section \<open>Locks\<close>

text \<open>A pthread mutex of the default kind is the thread that holds it.\<close>

definition MutexLock_lock :: "nat \<Rightarrow> nat option \<Rightarrow> nat option option" where
  "MutexLock_lock tid m = (if m = None then Some (Some tid) else None)"

definition MutexLock_unlock :: "nat \<Rightarrow> nat option \<Rightarrow> nat option" where
  "MutexLock_unlock tid m = None"

text \<open>The flag of the atomic lock: the spin loop ends when the flag was clear.\<close>

definition CASLock_lock :: "bool \<Rightarrow> bool option" where
  "CASLock_lock flag = (if flag then None else Some True)"

definition CASLock_unlock :: "bool \<Rightarrow> bool" where
  "CASLock_unlock flag = False"

text \<open>The RAII wrapper: its flag and the state of the mutex.\<close>

record scoped =
  m_locked :: bool
  m_mutex :: "nat option"

definition ScopedLock_new :: "nat \<Rightarrow> nat option \<Rightarrow> scoped option" where
  "ScopedLock_new tid m = map_option (\<lambda>m. \<lparr>m_locked = True, m_mutex = m\<rparr>) (MutexLock_lock tid m)"

definition ScopedLock_lock :: "nat \<Rightarrow> scoped \<Rightarrow> scoped option" where
  "ScopedLock_lock tid l =
     (if m_locked l then Some l
      else map_option (\<lambda>m. \<lparr>m_locked = True, m_mutex = m\<rparr>) (MutexLock_lock tid (m_mutex l)))"

definition ScopedLock_unlock :: "nat \<Rightarrow> scoped \<Rightarrow> scoped" where
  "ScopedLock_unlock tid l =
     (if m_locked l then \<lparr>m_locked = False, m_mutex = MutexLock_unlock tid (m_mutex l)\<rparr> else l)"

definition ScopedLock_destroy :: "nat \<Rightarrow> scoped \<Rightarrow> nat option" where
  "ScopedLock_destroy tid l = m_mutex (ScopedLock_unlock tid l)"

text \<open>The wrapper's flag says whether its thread holds the mutex; every operation keeps this, and
  destroying the wrapper never leaves the mutex held by its thread.\<close>

definition scoped_inv :: "nat \<Rightarrow> scoped \<Rightarrow> bool" where
  "scoped_inv tid l \<longleftrightarrow> (m_locked l \<longleftrightarrow> m_mutex l = Some tid)"

lemma scoped_inv_ops:
  "ScopedLock_new tid m = Some l \<Longrightarrow> scoped_inv tid l \<and> m_mutex l = Some tid"
  "scoped_inv tid l \<Longrightarrow> ScopedLock_lock tid l = Some l' \<Longrightarrow> scoped_inv tid l' \<and> m_mutex l' = Some tid"
  "scoped_inv tid l \<Longrightarrow> scoped_inv tid (ScopedLock_unlock tid l)"
  "scoped_inv tid l \<Longrightarrow> ScopedLock_destroy tid l \<noteq> Some tid"
  "scoped_inv tid l \<Longrightarrow> m_mutex l = Some other \<Longrightarrow> other \<noteq> tid \<Longrightarrow> ScopedLock_destroy tid l = Some other"
  by (auto simp: ScopedLock_new_def ScopedLock_lock_def ScopedLock_unlock_def ScopedLock_destroy_def
      scoped_inv_def MutexLock_lock_def MutexLock_unlock_def split: if_splits)

section \<open>Threads\<close>

text \<open>
  The thread objects by address, and for every running thread its two thread-local variables.
  \<open>m_thread\<close> is the handle, cleared by \<open>join\<close>; \<open>th_id\<close> is unset until the new thread has
  stored it.
\<close>

record Thread =
  m_thread :: bool
  th_id :: "int option"
  th_name :: string
  th_sem :: nat

record thread_local =
  thread_name :: string
  thread_ptr :: "nat option"

record threads =
  th_objs :: "nat \<rightharpoonup> Thread"
  th_locals :: "nat \<Rightarrow> thread_local"
  th_detached :: "nat list"

definition UNKNOW_NAME :: string where
  "UNKNOW_NAME = ''UNKNOW''"

definition fresh_locals :: thread_local where
  "fresh_locals = \<lparr>thread_name = UNKNOW_NAME, thread_ptr = None\<rparr>"

definition deref_thread :: "nat \<Rightarrow> threads \<Rightarrow> Thread result" where
  "deref_thread t w = (case th_objs w t of None \<Rightarrow> Inl Use_after_free | Some th \<Rightarrow> Inr th)"

definition put_thread :: "nat \<Rightarrow> Thread \<Rightarrow> threads \<Rightarrow> threads" where
  "put_thread t th w = w\<lparr>th_objs := (th_objs w)(t \<mapsto> th)\<rparr>"

text \<open>The constructor up to the wait, with the new thread created.\<close>

definition Thread_new :: "nat \<Rightarrow> string \<Rightarrow> threads \<Rightarrow> threads" where
  "Thread_new t name w =
     put_thread t \<lparr>m_thread = True, th_id = None,
       th_name = (if name = [] then UNKNOW_NAME else name), th_sem = 0\<rparr> w"

text \<open>The part of \<open>run\<close> before the function is called, on the new thread \<open>self\<close>; and the wait at the
  end of the constructor, on the creating thread (None while it blocks).\<close>

definition Thread_run_prologue :: "nat \<Rightarrow> int \<Rightarrow> nat \<Rightarrow> threads \<Rightarrow> threads result" where
  "Thread_run_prologue self tid t w =
     and_then (deref_thread t w) (\<lambda>th.
       Inr (put_thread t (th\<lparr>th_id := Some tid, th_sem := Semaphore_notify (th_sem th)\<rparr>)
         (w\<lparr>th_locals := (th_locals w)(self := \<lparr>thread_name = th_name th, thread_ptr = Some t\<rparr>)\<rparr>)))"

definition Thread_await_start :: "nat \<Rightarrow> threads \<Rightarrow> threads option result" where
  "Thread_await_start t w =
     and_then (deref_thread t w) (\<lambda>th.
       Inr (map_option (\<lambda>n. put_thread t (th\<lparr>th_sem := n\<rparr>) w) (Semaphore_wait (th_sem th))))"

definition Thread_destroy :: "nat \<Rightarrow> threads \<Rightarrow> threads result" where
  "Thread_destroy t w =
     and_then (deref_thread t w) (\<lambda>th.
       Inr (w\<lparr>th_objs := (th_objs w)(t := None),
              th_detached := (if m_thread th then t # th_detached w else th_detached w)\<rparr>))"

text \<open>\<open>join\<close>, once the thread has ended.\<close>

definition Thread_join :: "nat \<Rightarrow> threads \<Rightarrow> threads result" where
  "Thread_join t w = and_then (deref_thread t w) (\<lambda>th. Inr (put_thread t (th\<lparr>m_thread := False\<rparr>) w))"

definition GetName :: "nat \<Rightarrow> threads \<Rightarrow> string" where
  "GetName self w = thread_name (th_locals w self)"

definition GetThis :: "nat \<Rightarrow> threads \<Rightarrow> nat option" where
  "GetThis self w = thread_ptr (th_locals w self)"

text \<open>Both setters write the thread-local name of the thread that calls them.\<close>

definition set_local_name :: "nat \<Rightarrow> string \<Rightarrow> threads \<Rightarrow> threads" where
  "set_local_name self name w =
     w\<lparr>th_locals := (th_locals w)(self := (th_locals w self)\<lparr>thread_name := name\<rparr>)\<rparr>"

definition setName :: "nat \<Rightarrow> nat \<Rightarrow> string \<Rightarrow> threads \<Rightarrow> threads result" where
  "setName self t name w =
     (if name = [] then Inr w
      else and_then (deref_thread t w) (\<lambda>th.
        Inr (set_local_name self name (put_thread t (th\<lparr>th_name := name\<rparr>) w))))"

definition SetName :: "nat \<Rightarrow> string \<Rightarrow> threads \<Rightarrow> threads result" where
  "SetName self name w =
     (if name = [] then Inr w
      else case GetThis self w of
        None \<Rightarrow> Inr w
      | Some t \<Rightarrow> and_then (deref_thread t w) (\<lambda>th.
          Inr (set_local_name self name (put_thread t (th\<lparr>th_name := name\<rparr>) w))))"

lemmas thread_simps =
  deref_thread_def put_thread_def Thread_new_def Thread_run_prologue_def Thread_await_start_def
  Thread_destroy_def Thread_join_def GetName_def GetThis_def set_local_name_def setName_def SetName_def
  Semaphore_wait_def Semaphore_notify_def

text \<open>The constructor returns only after the new thread has published its id and name.\<close>

lemma Thread_started:
  "Thread_await_start t (Thread_new t name w) = Inr None"
  "\<exists>w'. Thread_run_prologue self tid t (Thread_new t name w) = Inr w' \<and>
     GetThis self w' = Some t \<and> (name \<noteq> [] \<longrightarrow> GetName self w' = name) \<and>
     (\<exists>w''. Thread_await_start t w' = Inr (Some w'') \<and> map_option th_id (th_objs w'' t) = Some (Some tid))"
  by (auto simp: thread_simps and_then_def)

text \<open>A joined thread is not detached again when its object goes away; one that was not joined is.\<close>

lemma join_then_destroy:
  assumes "th_objs w t = Some th"
  shows "\<exists>w1 w2. Thread_join t w = Inr w1 \<and> Thread_destroy t w1 = Inr w2 \<and> th_detached w2 = th_detached w"
    and "m_thread th \<Longrightarrow> \<exists>w1. Thread_destroy t w = Inr w1 \<and> th_detached w1 = t # th_detached w"
  using assms by (auto simp: thread_simps and_then_def)

text \<open>A thread that renames itself is seen under the new name everywhere; one that renames another
  thread's object changes its own thread-local name and leaves the other's as it was.\<close>

lemma SetName_self:
  assumes "GetThis self w = Some t" and "th_objs w t = Some th" and "name \<noteq> []"
  shows "\<exists>w'. SetName self name w = Inr w' \<and> GetName self w' = name \<and>
    map_option th_name (th_objs w' t) = Some name \<and> (\<forall>o'. o' \<noteq> self \<longrightarrow> GetName o' w' = GetName o' w)"
  using assms by (auto simp: thread_simps and_then_def)

lemma setName_other:
  assumes "th_objs w t = Some th" and "GetThis other w = Some t" and "other \<noteq> self" and "name \<noteq> []"
  shows "\<exists>w'. setName self t name w = Inr w' \<and> GetName self w' = name \<and> GetName other w' = GetName other w \<and>
    map_option th_name (th_objs w' t) = Some name"
  using assms by (auto simp: thread_simps and_then_def)

end
