(* ===== verification/Thread_Pool.thy ===== *)
theory Thread_Pool
  imports Sone_Sync
begin

text \<open>
  The fixed thread pool of \<^verbatim>\<open>src/http_server/FixedThreadPool.cpp\<close>: a bounded queue of tasks
  between producers that call \<open>addTask\<close> and workers that run \<open>thread_func\<close>.

  Everything between taking and releasing the mutex is one step.  Workers are counted by what
  they do (about to look at the queue, waiting on \<open>_empty\<close>, running a task, finished);
  producers carry the task they want to add (about to look at the queue, or waiting on
  \<open>_full\<close>).  A notification moves one waiting thread back to looking at the queue, and a
  waiting thread may also wake up on its own.  \<open>tp_added\<close> and \<open>tp_taken\<close> record the tasks in
  the order in which they entered and left the queue.  The pool starts empty and its maximum
  stays as it is: adding tasks before \<open>start\<close> and \<open>setMaxQueSize\<close> later are not steps.
\<close>

section \<open>State\<close>

record 'f pool =
  tp_wq :: "'f list"
  isRunning :: bool
  maxQueSize :: nat
  wk_ready :: nat
  wk_waiting :: nat
  wk_busy :: nat
  wk_done :: nat
  pr_ready :: "'f list"
  pr_waiting :: "'f list"
  tp_added :: "'f list"
  tp_taken :: "'f list"

definition DEFAULT_QUE_SIZE :: nat where "DEFAULT_QUE_SIZE = 50"

definition FixedThreadPool_new :: "'f pool" where
  "FixedThreadPool_new =
     \<lparr>tp_wq = [], isRunning = False, maxQueSize = DEFAULT_QUE_SIZE, wk_ready = 0, wk_waiting = 0, wk_busy = 0,
      wk_done = 0, pr_ready = [], pr_waiting = [], tp_added = [], tp_taken = []\<rparr>"

definition pool_start :: "nat \<Rightarrow> 'f pool \<Rightarrow> 'f pool" where
  "pool_start threadnums p = p\<lparr>isRunning := True, wk_ready := wk_ready p + threadnums\<rparr>"

definition setMaxQueSize :: "nat \<Rightarrow> 'f pool \<Rightarrow> 'f pool result" where
  "setMaxQueSize n p = (if n \<le> 0 then Inl Logic_error else Inr (p\<lparr>maxQueSize := n\<rparr>))"

definition queSize :: "'f pool \<Rightarrow> nat" where
  "queSize p = length (tp_wq p)"

section \<open>Steps\<close>

text \<open>\<open>pthread_cond_signal\<close> on \<open>_empty\<close>, and the producers \<open>_full\<close> may release.\<close>

definition notify_empty :: "'f pool \<Rightarrow> 'f pool" where
  "notify_empty p =
     (if 0 < wk_waiting p then p\<lparr>wk_waiting := wk_waiting p - 1, wk_ready := wk_ready p + 1\<rparr> else p)"

inductive notify_full :: "'f pool \<Rightarrow> 'f pool \<Rightarrow> bool" where
  nobody: "pr_waiting p = [] \<Longrightarrow> notify_full p p"
| somebody: "pr_waiting p = xs @ f # ys \<Longrightarrow>
    notify_full p (p\<lparr>pr_waiting := xs @ ys, pr_ready := pr_ready p @ [f]\<rparr>)"

text \<open>\<open>stop\<close>, up to the joins.\<close>

definition pool_stop :: "'f pool \<Rightarrow> 'f pool" where
  "pool_stop p = p\<lparr>isRunning := False, wk_ready := wk_ready p + wk_waiting p, wk_waiting := 0\<rparr>"

definition push_task :: "'f \<Rightarrow> 'f pool \<Rightarrow> 'f pool" where
  "push_task f p = notify_empty (p\<lparr>tp_wq := tp_wq p @ [f], tp_added := tp_added p @ [f]\<rparr>)"

inductive pool_step :: "'f pool \<Rightarrow> 'f pool \<Rightarrow> bool" where
  take_pop: "0 < wk_ready p \<Longrightarrow> tp_wq p = f # fs \<Longrightarrow>
    notify_full (p\<lparr>tp_wq := fs, tp_taken := tp_taken p @ [f], wk_ready := wk_ready p - 1, wk_busy := wk_busy p + 1\<rparr>) p' \<Longrightarrow>
    pool_step p p'"
| take_wait: "0 < wk_ready p \<Longrightarrow> tp_wq p = [] \<Longrightarrow> isRunning p \<Longrightarrow>
    pool_step p (p\<lparr>wk_ready := wk_ready p - 1, wk_waiting := wk_waiting p + 1\<rparr>)"
| take_none: "0 < wk_ready p \<Longrightarrow> tp_wq p = [] \<Longrightarrow> \<not> isRunning p \<Longrightarrow>
    pool_step p (p\<lparr>wk_ready := wk_ready p - 1, wk_done := wk_done p + 1\<rparr>)"
| loop_exit: "0 < wk_ready p \<Longrightarrow> \<not> isRunning p \<Longrightarrow>
    pool_step p (p\<lparr>wk_ready := wk_ready p - 1, wk_done := wk_done p + 1\<rparr>)"
| task_end: "0 < wk_busy p \<Longrightarrow> isRunning p \<Longrightarrow>
    pool_step p (p\<lparr>wk_busy := wk_busy p - 1, wk_ready := wk_ready p + 1\<rparr>)"
| task_end_stop: "0 < wk_busy p \<Longrightarrow> \<not> isRunning p \<Longrightarrow>
    pool_step p (p\<lparr>wk_busy := wk_busy p - 1, wk_done := wk_done p + 1\<rparr>)"
| add_call: "pool_step p (p\<lparr>pr_ready := pr_ready p @ [f]\<rparr>)"
| add_push: "pr_ready p = xs @ f # ys \<Longrightarrow> length (tp_wq p) \<le> maxQueSize p \<or> \<not> isRunning p \<Longrightarrow>
    pool_step p (push_task f (p\<lparr>pr_ready := xs @ ys\<rparr>))"
| add_wait: "pr_ready p = xs @ f # ys \<Longrightarrow> length (tp_wq p) > maxQueSize p \<Longrightarrow> isRunning p \<Longrightarrow>
    pool_step p (p\<lparr>pr_ready := xs @ ys, pr_waiting := pr_waiting p @ [f]\<rparr>)"
| worker_wakes: "0 < wk_waiting p \<Longrightarrow>
    pool_step p (p\<lparr>wk_waiting := wk_waiting p - 1, wk_ready := wk_ready p + 1\<rparr>)"
| producer_wakes: "pr_waiting p = xs @ f # ys \<Longrightarrow>
    pool_step p (p\<lparr>pr_waiting := xs @ ys, pr_ready := pr_ready p @ [f]\<rparr>)"
| stop_call: "pool_step p (pool_stop p)"

definition pool_begin :: "nat \<Rightarrow> nat \<Rightarrow> 'f pool \<Rightarrow> bool" where
  "pool_begin threadnums cap p \<longleftrightarrow>
     p = pool_start threadnums (FixedThreadPool_new\<lparr>maxQueSize := cap\<rparr>)"

interpretation tp: transitions "pool_begin n cap" pool_step for n cap .

inductive_cases pool_stepE: "pool_step p p'"

section \<open>Invariant\<close>

definition pool_inv :: "nat \<Rightarrow> nat \<Rightarrow> 'f pool \<Rightarrow> bool" where
  "pool_inv n cap p \<longleftrightarrow>
     maxQueSize p = cap \<and>
     tp_added p = tp_taken p @ tp_wq p \<and>
     wk_ready p + wk_waiting p + wk_busy p + wk_done p = n \<and>
     (isRunning p \<longrightarrow> wk_done p = 0 \<and> length (tp_wq p) \<le> cap + 1 \<and>
        (tp_wq p \<noteq> [] \<and> 0 < wk_waiting p \<longrightarrow> 0 < wk_ready p + wk_busy p) \<and>
        (pr_waiting p \<noteq> [] \<longrightarrow> cap < length (tp_wq p) + length (pr_ready p)))"

lemma pool_inv_start: "pool_begin n cap p \<Longrightarrow> pool_inv n cap p"
  by (simp add: pool_begin_def pool_start_def FixedThreadPool_new_def pool_inv_def)

lemma pool_inv_pop:
  assumes "pool_inv n cap p" and "0 < wk_ready p" and "tp_wq p = f # fs"
    and "notify_full (p\<lparr>tp_wq := fs, tp_taken := tp_taken p @ [f], wk_ready := wk_ready p - 1, wk_busy := wk_busy p + 1\<rparr>) p'"
  shows "pool_inv n cap p'"
  using assms(4)
proof cases
  case nobody
  then show ?thesis using assms(1-3) by (auto simp: pool_inv_def)
next
  case (somebody xs g ys)
  then show ?thesis using assms(1-3) by (auto simp: pool_inv_def)
qed

lemma pool_inv_push:
  assumes "pool_inv n cap p" and "pr_ready p = xs @ f # ys"
    and "length (tp_wq p) \<le> maxQueSize p \<or> \<not> isRunning p"
  shows "pool_inv n cap (push_task f (p\<lparr>pr_ready := xs @ ys\<rparr>))"
  using assms by (auto simp: pool_inv_def push_task_def notify_empty_def)

lemma pool_inv_step: "pool_inv n cap p \<Longrightarrow> pool_step p p' \<Longrightarrow> pool_inv n cap p'"
proof (erule pool_stepE, goal_cases)
  case 1
  then show ?case by (auto intro: pool_inv_pop)
next
  case 8
  then show ?case by (auto intro: pool_inv_push)
qed (auto simp: pool_inv_def pool_stop_def)

lemma pool_inv_reachable: "tp.reachable n cap p \<Longrightarrow> pool_inv n cap p"
  by (erule tp.invariantI) (auto intro: pool_inv_start pool_inv_step)

section \<open>Properties\<close>

text \<open>
  C30. Tasks leave the queue in the order in which they entered it and none is lost or duplicated;
  while the pool runs the queue never holds more than one task above the configured maximum
  (the guard of \<open>addTask\<close> compares with \<open>>\<close>), and every worker is accounted for.  The pool is
  one that was started empty with a maximum that stays fixed; after \<open>stop\<close> the queue is unbounded.
\<close>

theorem pool_fifo_and_bounded:
  assumes "tp.reachable n cap p"
  shows "tp_added p = tp_taken p @ tp_wq p \<and>
         (isRunning p \<longrightarrow> queSize p \<le> cap + 1) \<and>
         wk_ready p + wk_waiting p + wk_busy p + wk_done p = n"
  using pool_inv_reachable [OF assms] by (auto simp: pool_inv_def queSize_def)

text \<open>The queue does get one task above its maximum.\<close>

definition full_pool :: "nat pool" where
  "full_pool = (pool_start 0 (FixedThreadPool_new\<lparr>maxQueSize := 1\<rparr>))\<lparr>tp_wq := [7, 8], tp_added := [7, 8]\<rparr>"

theorem pool_fifo_and_bounded_witness:
  "tp.reachable 0 1 full_pool \<and> queSize full_pool = 2 \<and> queSize full_pool \<le> 1 + 1"
proof -
  let ?p0 = "pool_start 0 (FixedThreadPool_new\<lparr>maxQueSize := 1\<rparr>) :: nat pool"
  let ?p2 = "?p0\<lparr>tp_wq := [7], tp_added := [7]\<rparr>"
  have r0: "tp.reachable 0 1 ?p0" by (rule tp.initial) (simp add: pool_begin_def)
  have "tp.reachable 0 1 (?p0\<lparr>pr_ready := [7]\<rparr>)"
    by (rule tp.further [OF r0]) (use pool_step.add_call [of ?p0 7] in \<open>simp add: pool_start_def FixedThreadPool_new_def\<close>)
  then have r2: "tp.reachable 0 1 ?p2"
    by (rule tp.further)
      (use pool_step.add_push [of "?p0\<lparr>pr_ready := [7]\<rparr>" "[]" 7 "[]"] in
        \<open>simp add: pool_start_def FixedThreadPool_new_def push_task_def notify_empty_def\<close>)
  have "tp.reachable 0 1 (?p2\<lparr>pr_ready := [8]\<rparr>)"
    by (rule tp.further [OF r2]) (use pool_step.add_call [of ?p2 8] in \<open>simp add: pool_start_def FixedThreadPool_new_def\<close>)
  then have r: "tp.reachable 0 1 full_pool"
    by (rule tp.further)
      (use pool_step.add_push [of "?p2\<lparr>pr_ready := [8]\<rparr>" "[]" 8 "[]"] in
        \<open>simp add: pool_start_def FixedThreadPool_new_def push_task_def notify_empty_def full_pool_def\<close>)
  have "queSize full_pool = 2" by (simp add: full_pool_def queSize_def)
  moreover have "isRunning full_pool" by (simp add: full_pool_def pool_start_def)
  ultimately show ?thesis using pool_fifo_and_bounded [OF r] r by blast
qed

text \<open>
  C31. No wake-up is lost while the pool runs: when tasks are queued, some worker is running a task
  or about to look at the queue; and when a producer waits, either the queue is above its
  maximum, so a worker has something to take, or another producer is about to look at the queue.
\<close>

theorem pool_no_lost_wakeup:
  assumes "tp.reachable n cap p" and "isRunning p" and "0 < n"
  shows "(tp_wq p \<noteq> [] \<longrightarrow> 0 < wk_ready p + wk_busy p) \<and>
         (pr_waiting p \<noteq> [] \<longrightarrow> cap < length (tp_wq p) \<or> pr_ready p \<noteq> [])"
proof -
  have inv: "pool_inv n cap p" using assms(1) by (rule pool_inv_reachable)
  then show ?thesis using assms(2,3) by (cases "wk_waiting p") (auto simp: pool_inv_def)
qed

text \<open>
  After \<open>stop\<close> the producers that wait for room are not released: once no worker is left,
  every step keeps each waiting producer waiting, up to the spurious wake-ups that the condition
  variable itself may have.  The queue of the example still holds tasks, and they are never run.
\<close>

theorem stop_leaves_producers_waiting:
  assumes "\<not> isRunning p" and "wk_ready p + wk_waiting p + wk_busy p = 0" and "pool_step p p'"
  shows "(pr_waiting p' = pr_waiting p \<or>
          (\<exists>f xs ys. pr_waiting p = xs @ f # ys \<and>
             p' = p\<lparr>pr_waiting := xs @ ys, pr_ready := pr_ready p @ [f]\<rparr>)) \<and>
         tp_taken p' = tp_taken p \<and> wk_ready p' + wk_waiting p' + wk_busy p' = 0 \<and> \<not> isRunning p'"
  using assms(3,1,2) by cases (auto simp: pool_stop_def push_task_def notify_empty_def)

text \<open>One worker, a bound of one: a task runs, two are queued, a fourth waits for room; then \<open>stop\<close>
  is called and the worker ends.\<close>

definition pool1 :: "nat list \<Rightarrow> nat list \<Rightarrow> nat list \<Rightarrow> bool \<Rightarrow> nat list \<Rightarrow> nat list \<Rightarrow> nat pool" where
  "pool1 wq added taken running ready waiting =
     \<lparr>tp_wq = wq, isRunning = running, maxQueSize = 1,
      wk_ready = (if taken = [] then 1 else 0), wk_waiting = 0,
      wk_busy = (if taken \<noteq> [] \<and> running then 1 else 0), wk_done = (if running then 0 else 1),
      pr_ready = ready, pr_waiting = waiting, tp_added = added, tp_taken = taken\<rparr>"

lemma pool1_call: "tp.reachable 1 1 (pool1 w a t True [] v) \<Longrightarrow> tp.reachable 1 1 (pool1 w a t True [f] v)"
  by (erule tp.further) (use pool_step.add_call [of "pool1 w a t True [] v" f] in \<open>simp add: pool1_def\<close>)

lemma pool1_push:
  assumes "tp.reachable 1 1 (pool1 w a t True [] v)" and "length w \<le> 1"
  shows "tp.reachable 1 1 (pool1 (w @ [f]) (a @ [f]) t True [] v)"
  by (rule tp.further [OF pool1_call [OF assms(1), of f]])
    (use assms(2) pool_step.add_push [of "pool1 w a t True [f] v" "[]" f "[]"] in
      \<open>simp add: pool1_def push_task_def notify_empty_def\<close>)

lemma stopped_pool_reachable: "tp.reachable 1 1 (pool1 [8, 9] [7, 8, 9] [7] False [] [10])"
proof -
  have "tp.reachable 1 1 (pool1 [] [] [] True [] [])"
    by (rule tp.initial) (simp add: pool_begin_def pool_start_def FixedThreadPool_new_def pool1_def)
  from pool1_push [OF this, of 7] have "tp.reachable 1 1 (pool1 [7] [7] [] True [] [])" by simp
  then have "tp.reachable 1 1 (pool1 [] [7] [7] True [] [])"
    by (rule tp.further) (rule pool_step.take_pop [of _ 7 "[]"], auto simp: pool1_def intro: notify_full.nobody)
  from pool1_push [OF this, of 8] have "tp.reachable 1 1 (pool1 [8] [7, 8] [7] True [] [])" by simp
  from pool1_push [OF this, of 9] have "tp.reachable 1 1 (pool1 [8, 9] [7, 8, 9] [7] True [] [])" by simp
  from pool1_call [OF this, of 10] have "tp.reachable 1 1 (pool1 [8, 9] [7, 8, 9] [7] True [] [10])"
    by (rule tp.further) (use pool_step.add_wait [of "pool1 [8, 9] [7, 8, 9] [7] True [10] []" "[]" 10 "[]"] in \<open>simp add: pool1_def\<close>)
  then have "tp.reachable 1 1 (pool_stop (pool1 [8, 9] [7, 8, 9] [7] True [] [10]))"
    by (rule tp.further) (rule pool_step.stop_call)
  then show ?thesis
    by (rule tp.further) (use pool_step.task_end_stop [of "pool_stop (pool1 [8, 9] [7, 8, 9] [7] True [] [10])"] in
      \<open>simp add: pool1_def pool_stop_def\<close>)
qed

theorem pool_no_lost_wakeup_witness:
  "\<exists>p :: nat pool. tp.reachable 1 1 p \<and> isRunning p \<and> tp_wq p = [7] \<and> 0 < wk_ready p + wk_busy p"
proof -
  have "tp.reachable 1 1 (pool1 [] [] [] True [] [])"
    by (rule tp.initial) (simp add: pool_begin_def pool_start_def FixedThreadPool_new_def pool1_def)
  from pool1_push [OF this, of 7] have r: "tp.reachable 1 1 (pool1 [7] [7] [] True [] [])" by simp
  have "isRunning (pool1 [7] [7] [] True [] [])" "tp_wq (pool1 [7] [7] [] True [] []) = [7]" by (simp_all add: pool1_def)
  then show ?thesis using pool_no_lost_wakeup [OF r] r by (intro exI [where x = "pool1 [7] [7] [] True [] []"]) simp
qed

theorem stop_leaves_producers_waiting_witness:
  "\<exists>p p' :: nat pool. tp.reachable 1 1 p \<and> \<not> isRunning p \<and> pr_waiting p = [10] \<and> tp_wq p = [8, 9] \<and> wk_done p = 1 \<and>
     pool_step p p' \<and> tp_taken p' = [7] \<and> pr_waiting p' = [10]"
proof -
  let ?p = "pool1 [8, 9] [7, 8, 9] [7] False [] [10]"
  let ?q = "?p\<lparr>pr_ready := pr_ready ?p @ [11]\<rparr>"
  have s: "pool_step ?p ?q" by (rule pool_step.add_call)
  have "\<not> isRunning ?p" "wk_ready ?p + wk_waiting ?p + wk_busy ?p = 0" by (simp_all add: pool1_def)
  from stop_leaves_producers_waiting [OF this s] have "tp_taken ?q = [7]" by (simp add: pool1_def)
  then show ?thesis using stopped_pool_reachable s
    by (intro exI [where x = ?p] exI [where x = ?q]) (simp add: pool1_def)
qed

end
