(* ===== verification/Philosophers.thy ===== *)
theory Philosophers
  imports Sone_Sync
begin

text \<open>
  The dining philosophers of \<^verbatim>\<open>src/cpp/philosopher.cpp\<close>: five threads, a semaphore that
  guards the array of states, and one semaphore per philosopher.  A thread's position in its loop
  is its program counter; what a thread does while it holds the guarding semaphore is one step.
\<close>

section \<open>State\<close>

definition NUMS :: nat where "NUMS = 5"

definition LEFT :: "nat \<Rightarrow> nat" where "LEFT i = (i + NUMS - 1) mod NUMS"
definition RIGHT :: "nat \<Rightarrow> nat" where "RIGHT i = (i + 1) mod NUMS"

datatype STATE = THINKING | EATING | HUNGRY

datatype ppc =
    Thinks
  | Wants_take
  | In_take
  | Blocked
  | Eats
  | Wants_put
  | In_put

record table =
  t_mutex :: nat
  t_states :: "nat \<Rightarrow> STATE"
  t_sem :: "nat \<Rightarrow> nat"
  t_pc :: "nat \<Rightarrow> ppc"

section \<open>Operations\<close>

definition test :: "nat \<Rightarrow> table \<Rightarrow> table" where
  "test i t =
     (if t_states t i = HUNGRY \<and> t_states t (LEFT i) \<noteq> EATING \<and> t_states t (RIGHT i) \<noteq> EATING
      then t\<lparr>t_states := (t_states t)(i := EATING), t_sem := (t_sem t)(i := Semaphore_notify (t_sem t i))\<rparr>
      else t)"

definition take_fork_body :: "nat \<Rightarrow> table \<Rightarrow> table" where
  "take_fork_body i t = test i (t\<lparr>t_states := (t_states t)(i := HUNGRY)\<rparr>)"

definition put_fork_body :: "nat \<Rightarrow> table \<Rightarrow> table" where
  "put_fork_body i t = test (RIGHT i) (test (LEFT i) (t\<lparr>t_states := (t_states t)(i := THINKING)\<rparr>))"

definition goto :: "nat \<Rightarrow> ppc \<Rightarrow> table \<Rightarrow> table" where
  "goto i pc t = t\<lparr>t_pc := (t_pc t)(i := pc)\<rparr>"

inductive philosopher :: "table \<Rightarrow> table \<Rightarrow> bool" where
  think: "i < NUMS \<Longrightarrow> t_pc t i = Thinks \<Longrightarrow> philosopher t (goto i Wants_take t)"
| take_enter: "i < NUMS \<Longrightarrow> t_pc t i = Wants_take \<Longrightarrow> Semaphore_wait (t_mutex t) = Some n \<Longrightarrow>
    philosopher t (goto i In_take (t\<lparr>t_mutex := n\<rparr>))"
| take_leave: "i < NUMS \<Longrightarrow> t_pc t i = In_take \<Longrightarrow>
    philosopher t (goto i Blocked (take_fork_body i t\<lparr>t_mutex := Semaphore_notify (t_mutex t)\<rparr>))"
| get_forks: "i < NUMS \<Longrightarrow> t_pc t i = Blocked \<Longrightarrow> Semaphore_wait (t_sem t i) = Some n \<Longrightarrow>
    philosopher t (goto i Eats (t\<lparr>t_sem := (t_sem t)(i := n)\<rparr>))"
| eat: "i < NUMS \<Longrightarrow> t_pc t i = Eats \<Longrightarrow> philosopher t (goto i Wants_put t)"
| put_enter: "i < NUMS \<Longrightarrow> t_pc t i = Wants_put \<Longrightarrow> Semaphore_wait (t_mutex t) = Some n \<Longrightarrow>
    philosopher t (goto i In_put (t\<lparr>t_mutex := n\<rparr>))"
| put_leave: "i < NUMS \<Longrightarrow> t_pc t i = In_put \<Longrightarrow>
    philosopher t (goto i Thinks (put_fork_body i t\<lparr>t_mutex := Semaphore_notify (t_mutex t)\<rparr>))"

definition table_start :: "table \<Rightarrow> bool" where
  "table_start t \<longleftrightarrow> t = \<lparr>t_mutex = 1, t_states = (\<lambda>_. THINKING), t_sem = (\<lambda>_. 0), t_pc = (\<lambda>_. Thinks)\<rparr>"

interpretation ph: transitions table_start philosopher .

inductive_cases philosopherE: "philosopher t t'"

section \<open>Invariant\<close>

text \<open>What a philosopher's position says about the shared arrays.\<close>

fun local_inv :: "ppc \<Rightarrow> STATE \<Rightarrow> nat \<Rightarrow> bool" where
  "local_inv Blocked st n \<longleftrightarrow> st = HUNGRY \<and> n = 0 \<or> st = EATING \<and> n = 1"
| "local_inv Eats st n \<longleftrightarrow> st = EATING \<and> n = 0"
| "local_inv Wants_put st n \<longleftrightarrow> st = EATING \<and> n = 0"
| "local_inv In_put st n \<longleftrightarrow> st = EATING \<and> n = 0"
| "local_inv _ st n \<longleftrightarrow> st = THINKING \<and> n = 0"

lemma neighbours:
  "i < NUMS \<Longrightarrow> LEFT i < NUMS" "i < NUMS \<Longrightarrow> RIGHT i < NUMS"
  "i < NUMS \<Longrightarrow> LEFT (RIGHT i) = i" "i < NUMS \<Longrightarrow> RIGHT (LEFT i) = i"
  "i < NUMS \<Longrightarrow> LEFT i \<noteq> i" "i < NUMS \<Longrightarrow> RIGHT i \<noteq> i" "i < NUMS \<Longrightarrow> LEFT i \<noteq> RIGHT i"
  "i < NUMS \<Longrightarrow> LEFT (LEFT i) \<noteq> i" "i < NUMS \<Longrightarrow> RIGHT (RIGHT i) \<noteq> i"
  "i < NUMS \<Longrightarrow> LEFT (LEFT i) \<noteq> RIGHT i" "i < NUMS \<Longrightarrow> RIGHT (RIGHT i) \<noteq> LEFT i"
proof -
  have "\<forall>i \<in> set [0..<5]. LEFT i < NUMS \<and> RIGHT i < NUMS \<and> LEFT (RIGHT i) = i \<and> RIGHT (LEFT i) = i \<and>
      LEFT i \<noteq> i \<and> RIGHT i \<noteq> i \<and> LEFT i \<noteq> RIGHT i \<and> LEFT (LEFT i) \<noteq> i \<and> RIGHT (RIGHT i) \<noteq> i \<and>
      LEFT (LEFT i) \<noteq> RIGHT i \<and> RIGHT (RIGHT i) \<noteq> LEFT i"
    by (simp add: small_ranges LEFT_def RIGHT_def NUMS_def del: set_upt)
  then have "i < NUMS \<Longrightarrow> LEFT i < NUMS \<and> RIGHT i < NUMS \<and> LEFT (RIGHT i) = i \<and> RIGHT (LEFT i) = i \<and>
      LEFT i \<noteq> i \<and> RIGHT i \<noteq> i \<and> LEFT i \<noteq> RIGHT i \<and> LEFT (LEFT i) \<noteq> i \<and> RIGHT (RIGHT i) \<noteq> i \<and>
      LEFT (LEFT i) \<noteq> RIGHT i \<and> RIGHT (RIGHT i) \<noteq> LEFT i"
    by (simp add: NUMS_def)
  then show "i < NUMS \<Longrightarrow> LEFT i < NUMS" "i < NUMS \<Longrightarrow> RIGHT i < NUMS"
    "i < NUMS \<Longrightarrow> LEFT (RIGHT i) = i" "i < NUMS \<Longrightarrow> RIGHT (LEFT i) = i"
    "i < NUMS \<Longrightarrow> LEFT i \<noteq> i" "i < NUMS \<Longrightarrow> RIGHT i \<noteq> i" "i < NUMS \<Longrightarrow> LEFT i \<noteq> RIGHT i"
    "i < NUMS \<Longrightarrow> LEFT (LEFT i) \<noteq> i" "i < NUMS \<Longrightarrow> RIGHT (RIGHT i) \<noteq> i"
    "i < NUMS \<Longrightarrow> LEFT (LEFT i) \<noteq> RIGHT i" "i < NUMS \<Longrightarrow> RIGHT (RIGHT i) \<noteq> LEFT i"
    by simp_all
qed

section \<open>The states array\<close>

definition calm :: "(nat \<Rightarrow> STATE) \<Rightarrow> bool" where
  "calm st \<longleftrightarrow>
     (\<forall>i < NUMS. st i = EATING \<longrightarrow> st (LEFT i) \<noteq> EATING \<and> st (RIGHT i) \<noteq> EATING) \<and>
     (\<forall>i < NUMS. st i = HUNGRY \<longrightarrow> st (LEFT i) = EATING \<or> st (RIGHT i) = EATING)"

lemma calm_take:
  assumes c: "calm st" and i: "i < NUMS" and th: "st i = THINKING"
    and st': "st' = st(i := (if st (LEFT i) \<noteq> EATING \<and> st (RIGHT i) \<noteq> EATING then EATING else HUNGRY))"
  shows "calm st'"
proof -
  have e: "st' (LEFT i) = st (LEFT i)" "st' (RIGHT i) = st (RIGHT i)" using neighbours [OF i] st' by auto
  have "st' j = EATING \<longrightarrow> st' (LEFT j) \<noteq> EATING \<and> st' (RIGHT j) \<noteq> EATING" if j: "j < NUMS" for j
  proof (cases "j = i")
    case True
    then show ?thesis using e st' neighbours(5,6) [OF i] by (simp split: if_splits)
  next
    case False
    have "st' (LEFT j) = EATING \<Longrightarrow> st j \<noteq> EATING" "st' (RIGHT j) = EATING \<Longrightarrow> st j \<noteq> EATING"
      using c j neighbours(3,4) [OF j] st' by (auto simp: calm_def split: if_splits)
    then show ?thesis using False st' by auto
  qed
  moreover have "st' j = HUNGRY \<longrightarrow> st' (LEFT j) = EATING \<or> st' (RIGHT j) = EATING" if j: "j < NUMS" for j
  proof (cases "j = i")
    case True
    then show ?thesis using e st' neighbours(5,6) [OF i] by (simp split: if_splits)
  next
    case False
    have up: "st k = EATING \<Longrightarrow> st' k = EATING" for k using th st' by auto
    have "st' j = st j" using False st' by simp
    moreover have "st j = HUNGRY \<longrightarrow> st (LEFT j) = EATING \<or> st (RIGHT j) = EATING" using c j by (simp add: calm_def)
    ultimately show ?thesis using up by auto
  qed
  ultimately show ?thesis by (simp add: calm_def)
qed

text \<open>The array after a philosopher has put the forks down and tested both neighbours.\<close>

definition released :: "(nat \<Rightarrow> STATE) \<Rightarrow> nat \<Rightarrow> nat \<Rightarrow> STATE" where
  "released st i j =
     (if j = i then THINKING
      else if j = LEFT i \<and> st j = HUNGRY \<and> st (LEFT j) \<noteq> EATING then EATING
      else if j = RIGHT i \<and> st j = HUNGRY \<and> st (RIGHT j) \<noteq> EATING then EATING
      else st j)"

lemma calm_released:
  assumes c: "calm st" and i: "i < NUMS" and ea: "st i = EATING"
  shows "calm (released st i)"
proof -
  let ?st = "released st i"
  note n = neighbours [OF i]
  have up: "k \<noteq> i \<Longrightarrow> st k = EATING \<Longrightarrow> ?st k = EATING" for k by (simp add: released_def)
  have gain: "?st k = EATING \<Longrightarrow> k < NUMS \<Longrightarrow> st k = EATING \<or>
      k = LEFT i \<and> st (LEFT k) \<noteq> EATING \<or> k = RIGHT i \<and> st (RIGHT k) \<noteq> EATING" for k
    by (simp add: released_def split: if_splits)
  have far: "?st (LEFT (LEFT i)) = st (LEFT (LEFT i))" "?st (RIGHT (RIGHT i)) = st (RIGHT (RIGHT i))"
    using n neighbours [OF n(1)] neighbours [OF n(2)] by (auto simp: released_def)
  have pair: "\<not> (?st j = EATING \<and> ?st (RIGHT j) = EATING)" if j: "j < NUMS" for j
  proof
    assume a: "?st j = EATING \<and> ?st (RIGHT j) = EATING"
    note m = neighbours [OF j]
    have ni: "j \<noteq> i" "RIGHT j \<noteq> i" using a by (auto simp: released_def)
    have "\<not> (st j = EATING \<and> st (RIGHT j) = EATING)" using c j by (auto simp: calm_def)
    moreover have "j \<noteq> LEFT i" "RIGHT j \<noteq> RIGHT i" using ni n m by metis+
    ultimately have "j = RIGHT i \<and> st (RIGHT j) \<noteq> EATING \<and> st j \<noteq> EATING \<or>
        RIGHT j = LEFT i \<and> st j \<noteq> EATING \<and> st (RIGHT j) \<noteq> EATING \<or>
        j = RIGHT i \<and> st (RIGHT j) \<noteq> EATING \<and> st (RIGHT j) = EATING \<or>
        RIGHT j = LEFT i \<and> st (LEFT (RIGHT j)) \<noteq> EATING \<and> st j = EATING"
      using gain [of j] gain [of "RIGHT j"] a j m(2,3) by auto
    then have "j = RIGHT i \<and> st (RIGHT j) \<noteq> EATING \<or> RIGHT j = LEFT i \<and> st j \<noteq> EATING" using m(3) by auto
    then show False using a far n m by metis
  qed
  have "?st j = EATING \<longrightarrow> ?st (LEFT j) \<noteq> EATING \<and> ?st (RIGHT j) \<noteq> EATING" if j: "j < NUMS" for j
    using pair [OF j] pair [OF neighbours(1) [OF j]] neighbours(4) [OF j] by auto
  moreover have "?st j = HUNGRY \<longrightarrow> ?st (LEFT j) = EATING \<or> ?st (RIGHT j) = EATING" if j: "j < NUMS" for j
  proof
    assume h: "?st j = HUNGRY"
    then have ji: "j \<noteq> i" and hj: "st j = HUNGRY" by (auto simp: released_def split: if_splits)
    note m = neighbours [OF j]
    show "?st (LEFT j) = EATING \<or> ?st (RIGHT j) = EATING"
    proof (cases "LEFT j = i \<or> RIGHT j = i")
      case True
      then consider "j = RIGHT i" | "j = LEFT i" using m by metis
      then show ?thesis
      proof cases
        case 1
        then have "st (RIGHT j) = EATING" using h hj n by (auto simp: released_def split: if_splits)
        moreover have "RIGHT j \<noteq> i" using 1 n by metis
        ultimately show ?thesis using up by blast
      next
        case 2
        then have "st (LEFT j) = EATING" using h hj n by (auto simp: released_def split: if_splits)
        moreover have "LEFT j \<noteq> i" using 2 n by metis
        ultimately show ?thesis using up by blast
      qed
    next
      case False
      then show ?thesis using c j hj up by (auto simp: calm_def)
    qed
  qed
  ultimately show ?thesis by (simp add: calm_def)
qed

section \<open>Every step keeps the invariant\<close>

text \<open>The philosophers that hold the guarding semaphore.\<close>

definition inside :: "table \<Rightarrow> nat set" where
  "inside t = {i. i < NUMS \<and> (t_pc t i = In_take \<or> t_pc t i = In_put)}"

definition table_inv :: "table \<Rightarrow> bool" where
  "table_inv t \<longleftrightarrow>
     (\<forall>i < NUMS. local_inv (t_pc t i) (t_states t i) (t_sem t i)) \<and>
     calm (t_states t) \<and> card (inside t) + t_mutex t = 1"

lemma finite_inside [simp]: "finite (inside t)"
  by (simp add: inside_def)

lemma inside_goto:
  "i < NUMS \<Longrightarrow> inside (goto i pc t) =
     (if pc = In_take \<or> pc = In_put then insert i (inside t) else inside t - {i})"
  by (auto simp: inside_def goto_def)

lemma inside_cong: "t_pc t' = t_pc t \<Longrightarrow> inside t' = inside t"
  by (simp add: inside_def)

lemma test_fields [simp]: "t_pc (test i t) = t_pc t" "t_mutex (test i t) = t_mutex t"
  by (simp_all add: test_def)

lemma body_fields [simp]:
  "t_pc (take_fork_body i t) = t_pc t" "t_mutex (take_fork_body i t) = t_mutex t"
  "t_pc (put_fork_body i t) = t_pc t" "t_mutex (put_fork_body i t) = t_mutex t"
  by (simp_all add: take_fork_body_def put_fork_body_def)

lemma goto_fields [simp]:
  "t_states (goto i pc t) = t_states t" "t_sem (goto i pc t) = t_sem t" "t_mutex (goto i pc t) = t_mutex t"
  "t_pc (goto i pc t) = (t_pc t)(i := pc)"
  by (simp_all add: goto_def)

lemma take_fork_effect:
  assumes "i < NUMS" and "t_states t i = THINKING" and "t_sem t i = 0" and "calm (t_states t)"
  shows "calm (t_states (take_fork_body i t)) \<and>
    local_inv Blocked (t_states (take_fork_body i t) i) (t_sem (take_fork_body i t) i) \<and>
    (\<forall>j. j \<noteq> i \<longrightarrow> t_states (take_fork_body i t) j = t_states t j \<and> t_sem (take_fork_body i t) j = t_sem t j)"
proof -
  note n = neighbours(5,6) [OF assms(1)]
  have "t_states (take_fork_body i t) = (t_states t)(i :=
      (if t_states t (LEFT i) \<noteq> EATING \<and> t_states t (RIGHT i) \<noteq> EATING then EATING else HUNGRY))"
    using n by (auto simp: take_fork_body_def test_def)
  from calm_take [OF assms(4,1,2) this] show ?thesis
    using n assms(3) by (auto simp: take_fork_body_def test_def Semaphore_notify_def)
qed

lemma put_fork_effect:
  assumes i: "i < NUMS" and ea: "t_states t i = EATING" and c: "calm (t_states t)"
  shows "t_states (put_fork_body i t) = released (t_states t) i \<and>
    t_sem (put_fork_body i t) = (\<lambda>j. if j \<noteq> i \<and> t_states t j \<noteq> EATING \<and> released (t_states t) i j = EATING
                                     then t_sem t j + 1 else t_sem t j)"
proof -
  note n = neighbours [OF i] and nl = neighbours [OF neighbours(1) [OF i]]
    and nr = neighbours [OF neighbours(2) [OF i]]
  let ?st = "t_states t"
  have "?st (LEFT i) \<noteq> EATING" "?st (RIGHT i) \<noteq> EATING" using c i ea by (auto simp: calm_def)
  define t1 where "t1 = test (LEFT i) (t\<lparr>t_states := ?st(i := THINKING)\<rparr>)"
  have l: "LEFT (LEFT i) \<noteq> i" "RIGHT (LEFT i) = i" and r: "RIGHT (RIGHT i) \<noteq> i" "LEFT (RIGHT i) = i"
    "RIGHT (RIGHT i) \<noteq> LEFT i" "LEFT i \<noteq> RIGHT i" "LEFT i \<noteq> i" "RIGHT i \<noteq> i"
    using n by auto
  have t1: "t_states t1 = (\<lambda>j. if j = i then THINKING
        else if j = LEFT i \<and> ?st j = HUNGRY \<and> ?st (LEFT j) \<noteq> EATING then EATING else ?st j)"
      "t_sem t1 = (\<lambda>j. if j = LEFT i \<and> ?st j = HUNGRY \<and> ?st (LEFT j) \<noteq> EATING then t_sem t j + 1 else t_sem t j)"
    using l r by (auto simp: t1_def test_def Semaphore_notify_def fun_eq_iff)
  have "t_states (test (RIGHT i) t1) = released ?st i"
    using t1 r by (auto simp: test_def released_def fun_eq_iff)
  moreover have "t_sem (test (RIGHT i) t1) = (\<lambda>j. if j \<noteq> i \<and> ?st j \<noteq> EATING \<and> released ?st i j = EATING
                                     then t_sem t j + 1 else t_sem t j)"
    using t1 r by (auto simp: test_def released_def Semaphore_notify_def fun_eq_iff)
  ultimately show ?thesis by (simp add: put_fork_body_def t1_def)
qed

lemma local_inv_others:
  assumes "\<forall>j < NUMS. local_inv (t_pc t j) (t_states t j) (t_sem t j)" and "i < NUMS"
    and "local_inv pc (st i) (sm i)"
    and "\<And>j. j < NUMS \<Longrightarrow> j \<noteq> i \<Longrightarrow> local_inv (t_pc t j) (st j) (sm j)"
  shows "\<forall>j < NUMS. local_inv (((t_pc t)(i := pc)) j) (st j) (sm j)"
  using assms by auto

lemma woken_local:
  assumes "local_inv pc st n" and "st = HUNGRY"
  shows "local_inv pc EATING (n + 1)"
  using assms by (cases pc) auto

lemma local_step:
  assumes "table_inv t" and "i < NUMS" and "local_inv pc (t_states t i) (sm i)"
    and "\<And>j. j \<noteq> i \<Longrightarrow> sm j = t_sem t j"
  shows "\<forall>j < NUMS. local_inv (((t_pc t)(i := pc)) j) (t_states t j) (sm j)"
  using assms by (auto simp: table_inv_def)

lemma card_enter:
  assumes "card (inside t) + t_mutex t = 1" and "Semaphore_wait (t_mutex t) = Some n"
    and "i < NUMS" and "t_pc t i \<noteq> In_take" and "t_pc t i \<noteq> In_put" and "pc = In_take \<or> pc = In_put"
  shows "card (inside (goto i pc (t\<lparr>t_mutex := n\<rparr>))) + n = 1"
proof -
  have "i \<notin> inside t" using assms(4,5) by (simp add: inside_def)
  moreover have "inside (t\<lparr>t_mutex := n\<rparr>) = inside t" by (rule inside_cong) simp
  ultimately have "card (inside (goto i pc (t\<lparr>t_mutex := n\<rparr>))) = card (inside t) + 1"
    using assms(3,6) by (simp add: inside_goto)
  moreover have "t_mutex t = n + 1" using assms(2) by (simp add: Semaphore_wait_def split: if_splits)
  ultimately show ?thesis using assms(1) by simp
qed

lemma card_leave:
  assumes "card (inside t) + t_mutex t = 1" and "i < NUMS" and "t_pc t i = In_take \<or> t_pc t i = In_put"
    and "pc \<noteq> In_take" and "pc \<noteq> In_put" and "t_pc t' = t_pc t"
  shows "card (inside (goto i pc (t'\<lparr>t_mutex := Semaphore_notify (t_mutex t)\<rparr>))) +
           Semaphore_notify (t_mutex t) = 1"
proof -
  have i: "i \<in> inside t" using assms(2,3) by (auto simp: inside_def)
  have "inside (t'\<lparr>t_mutex := Semaphore_notify (t_mutex t)\<rparr>) = inside t"
    using assms(6) by (intro inside_cong) simp
  moreover have "0 < card (inside t)" using i by (auto simp: card_gt_0_iff)
  ultimately show ?thesis
    using assms i by (simp add: inside_goto Semaphore_notify_def card_Diff_singleton)
qed

lemma inside_move:
  assumes "i < NUMS" and "t_pc t i \<notin> {In_take, In_put}" and "pc \<notin> {In_take, In_put}"
    and "t_pc t' = t_pc t"
  shows "inside (goto i pc t') = inside t"
  using assms by (auto simp: inside_def goto_def)

lemma table_inv_step: "table_inv t \<Longrightarrow> philosopher t t' \<Longrightarrow> table_inv t'"
proof (erule philosopherE, goal_cases)
  case (1 i)
  then have "t_states t i = THINKING" "t_sem t i = 0" by (auto simp: table_inv_def)
  then show ?case using 1 local_step [OF 1(1,3), of Wants_take "t_sem t"] inside_move [OF 1(3), of t Wants_take t]
    by (simp add: table_inv_def)
next
  case (2 i n)
  then have s: "t_states t i = THINKING" "t_sem t i = 0" by (auto simp: table_inv_def)
  have "card (inside (goto i In_take (t\<lparr>t_mutex := n\<rparr>))) + n = 1"
    using 2 by (intro card_enter) (auto simp: table_inv_def)
  then show ?case using 2 s local_step [OF 2(1,3), of In_take "t_sem t"] by (simp add: table_inv_def)
next
  case (3 i)
  then have s: "t_states t i = THINKING" "t_sem t i = 0" "calm (t_states t)" by (auto simp: table_inv_def)
  note e = take_fork_effect [OF 3(3) s]
  have "\<forall>j < NUMS. local_inv (((t_pc t)(i := Blocked)) j) (t_states (take_fork_body i t) j) (t_sem (take_fork_body i t) j)"
    using 3 e by (intro local_inv_others) (auto simp: table_inv_def)
  moreover have "card (inside (goto i Blocked (take_fork_body i t\<lparr>t_mutex := Semaphore_notify (t_mutex t)\<rparr>))) +
      Semaphore_notify (t_mutex t) = 1"
    using 3 by (intro card_leave) (auto simp: table_inv_def)
  ultimately show ?case using 3(2) e by (simp add: table_inv_def)
next
  case (4 i n)
  then have s: "t_states t i = EATING" "n = 0"
    by (auto simp: table_inv_def Semaphore_wait_def split: if_splits)
  then show ?case
    using 4 local_step [OF 4(1,3), of Eats "(t_sem t)(i := n)"]
      inside_move [OF 4(3), of t Eats "t\<lparr>t_sem := (t_sem t)(i := n)\<rparr>"]
    by (simp add: table_inv_def)
next
  case (5 i)
  then have "t_states t i = EATING" "t_sem t i = 0" by (auto simp: table_inv_def)
  then show ?case using 5 local_step [OF 5(1,3), of Wants_put "t_sem t"] inside_move [OF 5(3), of t Wants_put t]
    by (simp add: table_inv_def)
next
  case (6 i n)
  then have s: "t_states t i = EATING" "t_sem t i = 0" by (auto simp: table_inv_def)
  have "card (inside (goto i In_put (t\<lparr>t_mutex := n\<rparr>))) + n = 1"
    using 6 by (intro card_enter) (auto simp: table_inv_def)
  then show ?case using 6 s local_step [OF 6(1,3), of In_put "t_sem t"] by (simp add: table_inv_def)
next
  case (7 i)
  then have s: "t_states t i = EATING" "t_sem t i = 0" "calm (t_states t)" by (auto simp: table_inv_def)
  note e = put_fork_effect [OF 7(3) s(1,3)]
  have "local_inv (t_pc t j) (released (t_states t) i j)
      (if j \<noteq> i \<and> t_states t j \<noteq> EATING \<and> released (t_states t) i j = EATING then t_sem t j + 1 else t_sem t j)"
    if "j < NUMS" "j \<noteq> i" for j
  proof -
    have l: "local_inv (t_pc t j) (t_states t j) (t_sem t j)" using 7(1) that(1) by (simp add: table_inv_def)
    have ji: "j \<noteq> i" by (rule that(2))
    consider "released (t_states t) i j = t_states t j"
      | "t_states t j = HUNGRY" "released (t_states t) i j = EATING"
      using ji
      by (cases "released (t_states t) i j = t_states t j") (auto simp: released_def split: if_splits)
    then show ?thesis using l woken_local [OF l] ji by cases auto
  qed
  then have "\<forall>j < NUMS. local_inv (((t_pc t)(i := Thinks)) j) (t_states (put_fork_body i t) j) (t_sem (put_fork_body i t) j)"
    using 7 e s by (intro local_inv_others) (auto simp: table_inv_def released_def)
  moreover have "card (inside (goto i Thinks (put_fork_body i t\<lparr>t_mutex := Semaphore_notify (t_mutex t)\<rparr>))) +
      Semaphore_notify (t_mutex t) = 1"
    using 7 by (intro card_leave) (auto simp: table_inv_def)
  ultimately show ?case using 7(2) e calm_released [OF s(3) 7(3) s(1)] by (simp add: table_inv_def)
qed

lemma table_inv_reachable: "ph.reachable t \<Longrightarrow> table_inv t"
proof (erule ph.invariantI)
  fix t assume "table_start t"
  then show "table_inv t" by (simp add: table_start_def table_inv_def calm_def inside_def)
qed (rule table_inv_step)

section \<open>Properties\<close>

text \<open>
  C32. In every interleaving two neighbours never eat at the same time, and at most one thread is
  between the two operations on the guarding semaphore.
\<close>

theorem neighbours_never_both_eat:
  assumes "ph.reachable t"
  shows "(\<forall>i < NUMS. t_pc t i \<in> {Eats, Wants_put, In_put} \<longrightarrow>
            t_pc t (LEFT i) \<notin> {Eats, Wants_put, In_put} \<and> t_pc t (RIGHT i) \<notin> {Eats, Wants_put, In_put}) \<and>
         card (inside t) \<le> 1"
proof -
  have inv: "table_inv t" using assms by (rule table_inv_reachable)
  have e: "t_pc t j \<in> {Eats, Wants_put, In_put} \<Longrightarrow> t_states t j = EATING" if "j < NUMS" for j
    using inv that by (auto simp: table_inv_def)
  have "t_pc t (LEFT i) \<notin> {Eats, Wants_put, In_put} \<and> t_pc t (RIGHT i) \<notin> {Eats, Wants_put, In_put}"
    if i: "i < NUMS" "t_pc t i \<in> {Eats, Wants_put, In_put}" for i
  proof -
    have "t_states t (LEFT i) \<noteq> EATING" "t_states t (RIGHT i) \<noteq> EATING"
      using inv i(1) e [OF i] by (auto simp: table_inv_def calm_def)
    then show ?thesis using e neighbours(1,2) [OF i(1)] by blast
  qed
  moreover have "card (inside t) \<le> 1" using inv by (simp add: table_inv_def)
  ultimately show ?thesis by blast
qed

text \<open>
  C33. The table never deadlocks: in every reachable state some philosopher can take a step.
\<close>

theorem philosophers_no_deadlock:
  assumes "ph.reachable t"
  shows "\<exists>t'. philosopher t t'"
proof (rule ccontr)
  assume "\<not> ?thesis"
  then have no: "\<not> philosopher t t'" for t' by blast
  have inv: "table_inv t" using assms by (rule table_inv_reachable)
  have free: "Semaphore_wait (t_mutex t) = Some 0"
  proof (cases "inside t = {}")
    case True
    then show ?thesis using inv by (simp add: table_inv_def Semaphore_wait_def)
  next
    case False
    then obtain i where "i < NUMS" "t_pc t i = In_take \<or> t_pc t i = In_put" by (auto simp: inside_def)
    then show ?thesis using no philosopher.take_leave philosopher.put_leave by blast
  qed
  have blocked: "t_pc t i = Blocked \<and> t_states t i = HUNGRY" if i: "i < NUMS" for i
  proof -
    have "t_pc t i = Blocked"
      using no philosopher.intros(1,3,5,7) [OF i] philosopher.intros(2,6) [OF i _ free]
      by (cases "t_pc t i") blast+
    moreover have "t_sem t i = 0"
      using no philosopher.get_forks [OF i \<open>t_pc t i = Blocked\<close>, of "t_sem t i - 1"]
      by (cases "t_sem t i") (simp_all add: Semaphore_wait_def)
    ultimately show ?thesis using inv i by (auto simp: table_inv_def)
  qed
  have z: "0 < NUMS" by (simp add: NUMS_def)
  have "t_states t (LEFT 0) = EATING \<or> t_states t (RIGHT 0) = EATING"
    using inv blocked [OF z] z by (auto simp: table_inv_def calm_def)
  then show False using blocked neighbours(1,2) [OF z] by auto
qed

definition sample_table :: table where
  "sample_table = \<lparr>t_mutex = 1, t_states = (\<lambda>_. THINKING), t_sem = (\<lambda>_. 0), t_pc = (\<lambda>_. Thinks)\<rparr>"

lemma sample_table_reachable: "ph.reachable sample_table"
  by (rule ph.initial) (simp add: table_start_def sample_table_def)

theorem philosophers_no_deadlock_witness: "\<exists>t'. philosopher sample_table t'"
  by (rule philosophers_no_deadlock [OF sample_table_reachable])

text \<open>The first philosopher takes both forks.\<close>

theorem neighbours_never_both_eat_witness:
  "\<exists>t. ph.reachable t \<and> t_pc t 0 = Eats \<and> t_pc t 1 \<notin> {Eats, Wants_put, In_put}"
proof -
  have z: "0 < NUMS" by (simp add: NUMS_def)
  let ?t1 = "goto 0 Wants_take sample_table"
  let ?t2 = "goto 0 In_take (?t1\<lparr>t_mutex := 0\<rparr>)"
  let ?t3 = "goto 0 Blocked (take_fork_body 0 ?t2\<lparr>t_mutex := Semaphore_notify (t_mutex ?t2)\<rparr>)"
  let ?t4 = "goto 0 Eats (?t3\<lparr>t_sem := (t_sem ?t3)(0 := 0)\<rparr>)"
  have s3: "t_sem ?t3 0 = 1"
    using neighbours(5,6) [OF z]
    by (simp add: take_fork_body_def test_def sample_table_def goto_def Semaphore_notify_def)
  have "ph.reachable ?t1"
    by (rule ph.further [OF sample_table_reachable philosopher.think [OF z]]) (simp add: sample_table_def)
  then have "ph.reachable ?t2"
    by (rule ph.further) (rule philosopher.take_enter [OF z], simp_all add: sample_table_def Semaphore_wait_def)
  then have "ph.reachable ?t3" by (rule ph.further) (rule philosopher.take_leave [OF z], simp)
  then have r: "ph.reachable ?t4"
    by (rule ph.further) (rule philosopher.get_forks [OF z], simp, simp add: s3 Semaphore_wait_def del: goto_fields)
  have "RIGHT 0 = 1" by (simp add: RIGHT_def NUMS_def)
  moreover have e: "t_pc ?t4 0 = Eats" by simp
  ultimately have "t_pc ?t4 1 \<notin> {Eats, Wants_put, In_put}"
    using neighbours_never_both_eat [OF r] z by (metis insertI1)
  then show ?thesis using r e by blast
qed

end
