(* ===== verification/Sone_Log.thy ===== *)
theory Sone_Log
  imports Sone_Prelude
begin

text \<open>
  The logging library of \<^verbatim>\<open>src/http_server/Log.h\<close> and \<^verbatim>\<open>Log.cpp\<close>: levels, events, the
  parser of format patterns and the items it builds, appenders to the console and to files, loggers
  with their filters, and the three loggers of \<open>LoggerManager\<close>.  Appenders are shared through
  pointers and live in a store; the files and the console are strings that grow.  The mutexes only
  serialise the operations and are left out.
\<close>

section \<open>Levels\<close>

datatype Level = UNKNOW | DEBUG | INFO | WARN | ERROR | FATAL

fun level_num :: "Level \<Rightarrow> nat" where
  "level_num UNKNOW = 0"
| "level_num DEBUG = 1"
| "level_num INFO = 2"
| "level_num WARN = 3"
| "level_num ERROR = 4"
| "level_num FATAL = 5"

lemma level_num_inject: "level_num a = level_num b \<longleftrightarrow> a = b"
  by (cases a; cases b) simp_all

instantiation Level :: linorder
begin

definition less_eq_Level :: "Level \<Rightarrow> Level \<Rightarrow> bool" where
  "less_eq_Level a b \<longleftrightarrow> level_num a \<le> level_num b"

definition less_Level :: "Level \<Rightarrow> Level \<Rightarrow> bool" where
  "less_Level a b \<longleftrightarrow> level_num a < level_num b"

instance
  by standard (auto simp: less_eq_Level_def less_Level_def level_num_inject)

end

fun Level_ToString :: "Level \<Rightarrow> string" where
  "Level_ToString DEBUG = ''DEBUG''"
| "Level_ToString INFO = ''INFO''"
| "Level_ToString WARN = ''WARN''"
| "Level_ToString ERROR = ''ERROR''"
| "Level_ToString FATAL = ''FATAL''"
| "Level_ToString UNKNOW = ''UNKNOW''"

definition Level_FromString :: "string \<Rightarrow> Level" where
  "Level_FromString str =
     (if str = ''debug'' then DEBUG else if str = ''info'' then INFO else if str = ''warn'' then WARN
      else if str = ''error'' then ERROR else if str = ''fatal'' then FATAL
      else if str = ''DEBUG'' then DEBUG else if str = ''INFO'' then INFO else if str = ''WARN'' then WARN
      else if str = ''ERROR'' then ERROR else if str = ''FATAL'' then FATAL
      else UNKNOW)"

lemma Level_roundtrip: "Level_FromString (Level_ToString l) = l"
  by (cases l) (simp_all add: Level_FromString_def)

lemma Level_roundtrip_lower: "Level_FromString (map tolower (Level_ToString l)) = l"
  by (cases l) (simp_all add: Level_FromString_def tolower_def is_upper_def char_of_def bit_0)

section \<open>Events and format items\<close>

record LogEvent =
  ev_file :: string
  ev_line :: int
  ev_elapse :: nat
  ev_threadId :: nat
  ev_pId :: nat
  ev_time :: nat
  ev_threadName :: string
  ev_content :: string
  ev_level :: Level

datatype FormatItem =
    MessageFormatItem
  | LevelFormatItem
  | ElapseFormatItem
  | NameFormatItem
  | ThreadIdFormatItem
  | NewLineFormatItem
  | DateTimeFormatItem string
  | FilenameFormatItem
  | LineFormatItem
  | TabFormatItem
  | PIdFormatItem
  | ThreadNameFormatItem
  | StringFormatItem string

definition int_text :: "int \<Rightarrow> string" where
  "int_text x = (if x < 0 then CHR ''-'' # to_string (nat (- x)) else to_string (nat x))"

text \<open>
  The text of a time under a format depends on the time zone and is an argument, \<open>strftime\<close>.  The
  buffer has 64 bytes; a longer text leaves it without a defined content.
\<close>

definition date_text :: "(string \<Rightarrow> nat \<Rightarrow> string) \<Rightarrow> string \<Rightarrow> nat \<Rightarrow> string result" where
  "date_text strftime fmt t =
     (let s = strftime (c_str fmt) t in if length s < 64 then Inr (c_str s) else Inl Out_of_bounds)"

fun item_format :: "(string \<Rightarrow> nat \<Rightarrow> string) \<Rightarrow> string \<Rightarrow> Level \<Rightarrow> LogEvent \<Rightarrow> FormatItem \<Rightarrow> string result" where
  "item_format strftime name level ev MessageFormatItem = Inr (ev_content ev)"
| "item_format strftime name level ev LevelFormatItem = Inr (Level_ToString level)"
| "item_format strftime name level ev ElapseFormatItem = Inr (to_string (ev_elapse ev))"
| "item_format strftime name level ev NameFormatItem = Inr name"
| "item_format strftime name level ev ThreadIdFormatItem = Inr (to_string (ev_threadId ev))"
| "item_format strftime name level ev NewLineFormatItem = Inr [LF]"
| "item_format strftime name level ev (DateTimeFormatItem fmt) = date_text strftime fmt (ev_time ev)"
| "item_format strftime name level ev FilenameFormatItem = Inr (ev_file ev)"
| "item_format strftime name level ev LineFormatItem = Inr (int_text (ev_line ev))"
| "item_format strftime name level ev TabFormatItem = Inr [CHR 0x09]"
| "item_format strftime name level ev PIdFormatItem = Inr (to_string (ev_pId ev))"
| "item_format strftime name level ev ThreadNameFormatItem = Inr (ev_threadName ev)"
| "item_format strftime name level ev (StringFormatItem s) = Inr s"

definition DateTimeFormatItem_new :: "string \<Rightarrow> FormatItem" where
  "DateTimeFormatItem_new fmt = DateTimeFormatItem (if fmt = [] then ''%Y-%m-%d %H:%M:%S'' else fmt)"

section \<open>The pattern parser\<close>

record LogFormatter =
  m_pattern :: string
  m_items :: "FormatItem list"
  m_error :: bool

definition substr :: "string \<Rightarrow> nat \<Rightarrow> nat \<Rightarrow> string" where
  "substr s p k = take k (drop p s)"

text \<open>The inner loop: from position \<open>n\<close> behind the \<open>%\<close> at \<open>i\<close>; \<open>fs\<close> is \<open>fmt_status\<close>.\<close>

function spec_loop :: "string \<Rightarrow> nat \<Rightarrow> nat \<Rightarrow> bool \<Rightarrow> nat \<Rightarrow> string \<Rightarrow> string \<Rightarrow> nat \<times> bool \<times> string \<times> string" where
  "spec_loop p i n fs fb str fmt =
     (if n < length p then
        if \<not> fs \<and> \<not> is_alpha (p ! n) \<and> p ! n \<noteq> CHR ''{'' \<and> p ! n \<noteq> CHR ''}'' then
          (n, fs, substr p (i + 1) (n - i - 1), fmt)
        else if \<not> fs \<and> p ! n = CHR ''{'' then
          spec_loop p i (n + 1) True n (substr p (i + 1) (n - i - 1)) fmt
        else if fs \<and> p ! n = CHR ''}'' then
          (n + 1, False, str, substr p (fb + 1) (n - fb - 1))
        else
          spec_loop p i (n + 1) fs fb
            (if n + 1 = length p \<and> str = [] then drop (i + 1) p else str) fmt
      else (n, fs, str, fmt))"
  by pat_completeness auto
termination by (relation "measure (\<lambda>(p, i, n, fs, fb, str, fmt). length p - n)") auto

declare spec_loop.simps [simp del]

lemma spec_loop_advances: "n \<le> fst (spec_loop p i n fs fb str fmt)"
proof (induction p i n fs fb str fmt rule: spec_loop.induct)
  case (1 p i n fs fb str fmt)
  then show ?case by (subst spec_loop.simps) (auto dest: Suc_leD)
qed

type_synonym token = "string \<times> string \<times> bool"

function init_loop :: "string \<Rightarrow> nat \<Rightarrow> string \<Rightarrow> token list \<Rightarrow> bool \<Rightarrow> string \<times> token list \<times> bool" where
  "init_loop p i nstr vec err =
     (if i < length p then
        if p ! i \<noteq> CHR ''%'' then init_loop p (i + 1) (nstr @ [p ! i]) vec err
        else if i + 1 < length p \<and> p ! (i + 1) = CHR ''%'' then init_loop p (i + 1) (nstr @ ''%'') vec err
        else
          (case spec_loop p i (i + 1) False 0 [] [] of (n, fs, str, fmt) \<Rightarrow>
             if \<not> fs then
               init_loop p n []
                 (vec @ (if nstr \<noteq> [] then [(nstr, [], False)] else []) @ [(str, fmt, True)]) err
             else init_loop p (i + 1) nstr (vec @ [(''<<pattern_error>>'', fmt, False)]) True)
      else (nstr, vec, err))"
  by pat_completeness auto
termination
proof (relation "measure (\<lambda>(p, i, nstr, vec, err). length p - i)", goal_cases)
  case (4 p i)
  then show ?case using spec_loop_advances [of "i + 1" p i False 0 "[]" "[]"]
    by (cases "spec_loop p i (i + 1) False 0 [] []") auto
qed auto

declare init_loop.simps [simp del]

definition format_items :: "(string \<times> (string \<Rightarrow> FormatItem)) list" where
  "format_items =
     [(''m'', \<lambda>_. MessageFormatItem), (''p'', \<lambda>_. LevelFormatItem), (''r'', \<lambda>_. ElapseFormatItem),
      (''c'', \<lambda>_. NameFormatItem), (''t'', \<lambda>_. ThreadIdFormatItem), (''n'', \<lambda>_. NewLineFormatItem),
      (''d'', DateTimeFormatItem_new), (''f'', \<lambda>_. FilenameFormatItem), (''l'', \<lambda>_. LineFormatItem),
      (''T'', \<lambda>_. TabFormatItem), (''P'', \<lambda>_. PIdFormatItem), (''N'', \<lambda>_. ThreadNameFormatItem)]"

fun build_items :: "token list \<Rightarrow> FormatItem list \<times> bool" where
  "build_items [] = ([], False)"
| "build_items ((str, fmt, directive) # ts) =
     (let (items, err) = build_items ts in
      if \<not> directive then (StringFormatItem str # items, err)
      else (case map_of format_items str of
              None \<Rightarrow> (StringFormatItem (''<<error_format %'' @ str @ ''>>'') # items, True)
            | Some c \<Rightarrow> (c fmt # items, err)))"

definition LogFormatter_init :: "string \<Rightarrow> FormatItem list \<times> bool" where
  "LogFormatter_init p =
     (case init_loop p 0 [] [] False of (nstr, vec, err) \<Rightarrow>
        case build_items (vec @ (if nstr \<noteq> [] then [(nstr, [], False)] else [])) of (items, err') \<Rightarrow>
          (items, err \<or> err'))"

definition LogFormatter_new :: "string \<Rightarrow> LogFormatter" where
  "LogFormatter_new p = (case LogFormatter_init p of (items, err) \<Rightarrow> \<lparr>m_pattern = p, m_items = items, m_error = err\<rparr>)"

fun format_all :: "(string \<Rightarrow> nat \<Rightarrow> string) \<Rightarrow> string \<Rightarrow> Level \<Rightarrow> LogEvent \<Rightarrow> FormatItem list \<Rightarrow> string result" where
  "format_all strftime name level ev [] = Inr []"
| "format_all strftime name level ev (it # its) =
     and_then (item_format strftime name level ev it) (\<lambda>s.
     and_then (format_all strftime name level ev its) (\<lambda>s'. Inr (s @ s')))"

definition LogFormatter_format :: "(string \<Rightarrow> nat \<Rightarrow> string) \<Rightarrow> LogFormatter \<Rightarrow> string \<Rightarrow> Level \<Rightarrow> LogEvent \<Rightarrow> string result" where
  "LogFormatter_format strftime fm name level ev = format_all strftime name level ev (m_items fm)"


section \<open>Patterns that parse\<close>

text \<open>
  A pattern as a sequence of pieces: text, and directives with or without a format in braces.  A
  directive without braces is not followed by a letter or a brace, which the parser would take for
  a part of its name.
\<close>

datatype piece = Text string | Directive char | Directive_fmt char string

fun piece_text :: "piece \<Rightarrow> string" where
  "piece_text (Text s) = s"
| "piece_text (Directive c) = [CHR ''%'', c]"
| "piece_text (Directive_fmt c f) = [CHR ''%'', c, CHR ''{''] @ f @ [CHR ''}'']"

definition pattern_text :: "piece list \<Rightarrow> string" where
  "pattern_text ps = concat (map piece_text ps)"

fun piece_token :: "piece \<Rightarrow> token" where
  "piece_token (Text s) = (s, [], False)"
| "piece_token (Directive c) = ([c], [], True)"
| "piece_token (Directive_fmt c f) = ([c], f, True)"

fun is_text :: "piece list \<Rightarrow> bool" where
  "is_text (Text s # _) = True"
| "is_text _ = False"

definition ends_name :: "string \<Rightarrow> bool" where
  "ends_name s \<longleftrightarrow> (case s of [] \<Rightarrow> True | c # _ \<Rightarrow> \<not> is_alpha c \<and> c \<noteq> CHR ''{'' \<and> c \<noteq> CHR ''}'')"

definition known_letter :: "char \<Rightarrow> bool" where
  "known_letter c \<longleftrightarrow> c \<in> set ''mprctndflTPN''"

fun well_formed :: "piece list \<Rightarrow> bool" where
  "well_formed [] \<longleftrightarrow> True"
| "well_formed (Text s # ps) \<longleftrightarrow> s \<noteq> [] \<and> CHR ''%'' \<notin> set s \<and> \<not> is_text ps \<and> well_formed ps"
| "well_formed (Directive c # ps) \<longleftrightarrow> known_letter c \<and> ends_name (pattern_text ps) \<and> well_formed ps"
| "well_formed (Directive_fmt c f # ps) \<longleftrightarrow> known_letter c \<and> CHR ''}'' \<notin> set f \<and> well_formed ps"

lemma pattern_text_simps [simp]:
  "pattern_text [] = []" "pattern_text (p # ps) = piece_text p @ pattern_text ps"
  by (simp_all add: pattern_text_def)

lemma known_letter_alpha:
  assumes "known_letter c"
  shows "is_alpha c" "c \<noteq> CHR ''%''" "c \<noteq> CHR ''{''" "c \<noteq> CHR ''}''"
  using assms by (auto simp: known_letter_def is_alpha_def is_upper_def is_lower_def)

lemma nth_append_here: "(pre @ c # rest) ! length pre = c"
  by simp

lemma spec_loop_stop:
  assumes "ends_name rest" "is_alpha c"
  shows "spec_loop (pre @ CHR ''%'' # c # rest) (length pre) (length pre + 1) False 0 [] [] =
    (length pre + 2, False, [c], [])"
proof -
  let ?p = "pre @ CHR ''%'' # c # rest" and ?i = "length pre"
  have c: "?p ! (?i + 1) = c" by (simp add: nth_append)
  have alpha: "c \<noteq> CHR ''{''" using assms(2) by (auto simp: is_alpha_def is_upper_def is_lower_def)
  show ?thesis
  proof (cases rest)
    case Nil
    then show ?thesis using assms(2) c alpha
      by (subst spec_loop.simps, subst spec_loop.simps) (simp add: nth_append)
  next
    case (Cons d rest')
    have d: "?p ! (?i + 2) = d" using Cons by (simp add: nth_append)
    have "spec_loop ?p ?i (?i + 2) False 0 [] [] = (?i + 2, False, substr ?p (?i + 1) (?i + 2 - ?i - 1), [])"
      using d assms(1) Cons by (subst spec_loop.simps) (simp add: ends_name_def)
    moreover have "substr ?p (?i + 1) (?i + 2 - ?i - 1) = [c]" by (simp add: substr_def)
    moreover have "spec_loop ?p ?i (?i + 1) False 0 [] [] = spec_loop ?p ?i (?i + 2) False 0 [] []"
      using c assms(2) alpha Cons by (subst spec_loop.simps) simp
    ultimately show ?thesis by simp
  qed
qed

text \<open>Inside the braces the loop copies everything up to the closing brace.\<close>

lemma spec_loop_braces:
  assumes "CHR ''}'' \<notin> set f" "p = pre @ g @ f @ CHR ''}'' # rest" "fb + 1 = length pre" "str \<noteq> []"
  shows "spec_loop p i (length pre + length g) True fb str fmt =
    (length pre + length g + length f + 1, False, str, g @ f)"
  using assms
proof (induction f arbitrary: g)
  case Nil
  have "p ! (length pre + length g) = CHR ''}''" using Nil by (simp add: nth_append)
  moreover have "substr p (fb + 1) (length pre + length g - fb - 1) = g"
    using Nil by (simp add: substr_def)
  ultimately show ?case using Nil by (subst spec_loop.simps) simp
next
  case (Cons c f)
  have "p ! (length pre + length g) = c" "c \<noteq> CHR ''}''" using Cons.prems by (auto simp: nth_append)
  moreover have "spec_loop p i (length pre + length (g @ [c])) True fb str fmt =
      (length pre + length (g @ [c]) + length f + 1, False, str, (g @ [c]) @ f)"
    using Cons.prems by (intro Cons.IH) auto
  ultimately show ?case using Cons.prems by (subst spec_loop.simps) simp
qed

lemma spec_loop_fmt:
  assumes "CHR ''}'' \<notin> set f" "is_alpha c"
  shows "spec_loop (pre @ CHR ''%'' # c # CHR ''{'' # f @ CHR ''}'' # rest) (length pre) (length pre + 1) False 0 [] [] =
    (length pre + length f + 4, False, [c], f)"
proof -
  let ?p = "pre @ CHR ''%'' # c # CHR ''{'' # f @ CHR ''}'' # rest" and ?i = "length pre"
  have alpha: "c \<noteq> CHR ''{''" using assms(2) by (auto simp: is_alpha_def is_upper_def is_lower_def)
  have c: "?p ! (?i + 1) = c" "?p ! (?i + 2) = CHR ''{''" by (simp_all add: nth_append)
  have "spec_loop ?p ?i (?i + 1) False 0 [] [] = spec_loop ?p ?i (?i + 2) False 0 [] []"
    using c assms(2) alpha by (subst spec_loop.simps) simp
  also have "\<dots> = spec_loop ?p ?i (?i + 3) True (?i + 2) (substr ?p (?i + 1) (?i + 2 - ?i - 1)) []"
    using c by (subst spec_loop.simps) (simp add: numeral_3_eq_3)
  also have "substr ?p (?i + 1) (?i + 2 - ?i - 1) = [c]" by (simp add: substr_def)
  also have "spec_loop ?p ?i (?i + 3) True (?i + 2) [c] [] = (?i + length f + 4, False, [c], f)"
    using spec_loop_braces [OF assms(1), of ?p "pre @ CHR ''%'' # c # [CHR ''{'']" "[]" rest "?i + 2" "[c]" ?i "[]"]
    by (simp add: eval_nat_numeral)
  finally show ?thesis .
qed


lemma init_loop_text:
  assumes "CHR ''%'' \<notin> set s"
  shows "init_loop (pre @ s @ rest) (length pre) nstr vec err = init_loop (pre @ s @ rest) (length pre + length s) (nstr @ s) vec err"
  using assms
proof (induction s arbitrary: pre nstr)
  case (Cons c s)
  have c: "(pre @ (c # s) @ rest) ! length pre = c" "c \<noteq> CHR ''%''" using Cons.prems by auto
  have "init_loop (pre @ (c # s) @ rest) (length pre) nstr vec err =
      init_loop (pre @ (c # s) @ rest) (length pre + 1) (nstr @ [c]) vec err"
    using c by (subst init_loop.simps) simp
  then show ?case using Cons.IH [of "pre @ [c]" "nstr @ [c]"] Cons.prems by simp
qed simp

definition flush :: "string \<Rightarrow> token list" where
  "flush nstr = (if nstr \<noteq> [] then [(nstr, [], False)] else [])"

definition finish :: "string \<times> token list \<times> bool \<Rightarrow> token list \<times> bool" where
  "finish r = (case r of (nstr, vec, err) \<Rightarrow> (vec @ flush nstr, err))"

lemma init_loop_directive:
  assumes "spec_loop p i (i + 1) False 0 [] [] = (n, False, str, fmt)" "i < length p" "p ! i = CHR ''%''"
    and "i + 1 < length p \<Longrightarrow> p ! (i + 1) \<noteq> CHR ''%''"
  shows "init_loop p i nstr vec err = init_loop p n [] (vec @ flush nstr @ [(str, fmt, True)]) err"
  using assms by (subst init_loop.simps) (auto simp: flush_def)

lemma init_loop_pieces:
  assumes "well_formed ps" "nstr \<noteq> [] \<Longrightarrow> \<not> is_text ps"
  shows "finish (init_loop (pre @ pattern_text ps) (length pre) nstr vec err) = (vec @ flush nstr @ map piece_token ps, err)"
  using assms
proof (induction ps arbitrary: pre nstr vec rule: well_formed.induct)
  case 1
  then show ?case by (simp add: init_loop.simps finish_def)
next
  case (2 s ps)
  then have [simp]: "nstr = []" by auto
  have "init_loop (pre @ pattern_text (Text s # ps)) (length pre) nstr vec err =
      init_loop (pre @ s @ pattern_text ps) (length pre + length s) (nstr @ s) vec err"
    using 2 init_loop_text [of s pre "pattern_text ps" nstr] by simp
  then show ?case using 2 "2.IH" [of s "pre @ s" vec] by (simp add: flush_def)
next
  case (3 c ps)
  let ?p = "pre @ pattern_text (Directive c # ps)"
  have c: "is_alpha c" "c \<noteq> CHR ''%''" using 3 known_letter_alpha by auto
  have "spec_loop ?p (length pre) (length pre + 1) False 0 [] [] = (length pre + 2, False, [c], [])"
    using spec_loop_stop [of "pattern_text ps" c pre] 3 c(1) by simp
  then have "init_loop ?p (length pre) nstr vec err =
      init_loop ?p (length pre + 2) [] (vec @ flush nstr @ [([c], [], True)]) err"
    by (rule init_loop_directive) (use c in \<open>auto simp: nth_append\<close>)
  then show ?case using "3.IH" [of "[]" "pre @ [CHR ''%'', c]"] 3 by (simp add: flush_def)
next
  case (4 c f ps)
  let ?p = "pre @ pattern_text (Directive_fmt c f # ps)"
  have c: "is_alpha c" "c \<noteq> CHR ''%''" using 4 known_letter_alpha by auto
  have "spec_loop ?p (length pre) (length pre + 1) False 0 [] [] = (length pre + length f + 4, False, [c], f)"
    using spec_loop_fmt [of f c pre "pattern_text ps"] 4 c(1) by simp
  then have "init_loop ?p (length pre) nstr vec err =
      init_loop ?p (length pre + length f + 4) [] (vec @ flush nstr @ [([c], f, True)]) err"
    by (rule init_loop_directive) (use c in \<open>auto simp: nth_append\<close>)
  then show ?case using "4.IH" [of "[]" "pre @ piece_text (Directive_fmt c f)"] 4 by (simp add: flush_def eval_nat_numeral)
qed

text \<open>
  What the comment before the constructor in \<^verbatim>\<open>Log.h\<close> says of each letter; the format in braces is for the date, which is written with
  year to second when there is none.
\<close>

definition documented_item :: "char \<Rightarrow> string \<Rightarrow> FormatItem" where
  "documented_item c f =
     (if c = CHR ''m'' then MessageFormatItem
      else if c = CHR ''p'' then LevelFormatItem
      else if c = CHR ''r'' then ElapseFormatItem
      else if c = CHR ''c'' then NameFormatItem
      else if c = CHR ''t'' then ThreadIdFormatItem
      else if c = CHR ''n'' then NewLineFormatItem
      else if c = CHR ''d'' then DateTimeFormatItem (if f = [] then ''%Y-%m-%d %H:%M:%S'' else f)
      else if c = CHR ''f'' then FilenameFormatItem
      else if c = CHR ''l'' then LineFormatItem
      else if c = CHR ''T'' then TabFormatItem
      else if c = CHR ''P'' then PIdFormatItem
      else ThreadNameFormatItem)"

fun piece_item :: "piece \<Rightarrow> FormatItem" where
  "piece_item (Text s) = StringFormatItem s"
| "piece_item (Directive c) = documented_item c []"
| "piece_item (Directive_fmt c f) = documented_item c f"

lemma known_letter_item: "known_letter c \<Longrightarrow> \<exists>k. map_of format_items [c] = Some k \<and> (\<forall>f. k f = documented_item c f)"
  by (auto simp: known_letter_def format_items_def documented_item_def DateTimeFormatItem_new_def)

lemma build_items_pieces: "well_formed ps \<Longrightarrow> build_items (map piece_token ps) = (map piece_item ps, False)"
proof (induction ps rule: well_formed.induct)
  case (3 c ps)
  then show ?case using known_letter_item [of c] by auto
next
  case (4 c f ps)
  then show ?case using known_letter_item [of c] by auto
qed simp_all

lemma LogFormatter_of_pieces:
  assumes "well_formed ps"
  shows "LogFormatter_new (pattern_text ps) = \<lparr>m_pattern = pattern_text ps, m_items = map piece_item ps, m_error = False\<rparr>"
proof -
  obtain nstr vec err where r: "init_loop (pattern_text ps) 0 [] [] False = (nstr, vec, err)" by (metis prod_cases3)
  have "vec @ flush nstr = map piece_token ps" "err = False"
    using init_loop_pieces [OF assms, of "[]" "[]" "[]" False] r by (simp_all add: finish_def flush_def)
  then show ?thesis
    using r build_items_pieces [OF assms] by (simp add: LogFormatter_new_def LogFormatter_init_def flush_def)
qed

text \<open>A double percent sign at the end of a pattern.\<close>

lemma LogFormatter_percent:
  assumes "CHR ''%'' \<notin> set s"
  shows "LogFormatter_new (s @ ''%%'') =
    \<lparr>m_pattern = s @ ''%%'', m_items = [StringFormatItem (s @ ''%''), StringFormatItem ''<<error_format %>>''], m_error = True\<rparr>"
proof -
  let ?p = "s @ ''%%''" and ?i = "length s"
  have "init_loop ?p 0 [] [] False = init_loop ?p ?i s [] False"
    using init_loop_text [OF assms, of "[]" "''%%''" "[]"] by simp
  also have "\<dots> = init_loop ?p (?i + 1) (s @ ''%'') [] False"
    by (subst init_loop.simps) (simp add: nth_append)
  also have "\<dots> = init_loop ?p (?i + 2) [] ([] @ flush (s @ ''%'') @ [([], [], True)]) False"
  proof (rule init_loop_directive)
    show "spec_loop ?p (?i + 1) (?i + 1 + 1) False 0 [] [] = (?i + 2, False, [], [])"
      by (subst spec_loop.simps) simp
  qed (simp_all add: nth_append)
  also have "\<dots> = ([], [(s @ ''%'', [], False), ([], [], True)], False)"
    by (subst init_loop.simps) (simp add: flush_def)
  finally have "init_loop ?p 0 [] [] False = ([], [(s @ ''%'', [], False), ([], [], True)], False)" .
  then show ?thesis by (simp add: LogFormatter_new_def LogFormatter_init_def format_items_def)
qed


section \<open>Appenders\<close>

text \<open>
  An appender writes to the console or to a file.  \<open>ap_open\<close> says whether its file stream is open
  and good: \<open>open\<close> clears the error state when it succeeds and sets it when it fails.  Which files
  can be opened for appending is an argument, \<open>openable\<close>.
\<close>

datatype appender_kind = StdoutLogAppender | FileLogAppender string

record LogAppender =
  ap_kind :: appender_kind
  ap_level :: Level
  ap_hasFormatter :: bool
  ap_formatter :: "LogFormatter option"
  ap_open :: bool
  ap_lastTime :: nat

record log_world =
  lw_appenders :: "nat \<rightharpoonup> LogAppender"
  lw_fresh :: nat
  lw_files :: "string \<Rightarrow> string"
  lw_stdout :: string

definition appender_of :: "log_world \<Rightarrow> nat \<Rightarrow> LogAppender result" where
  "appender_of w a = (case lw_appenders w a of None \<Rightarrow> Inl Null_deref | Some ap \<Rightarrow> Inr ap)"

definition set_appender :: "nat \<Rightarrow> LogAppender \<Rightarrow> log_world \<Rightarrow> log_world" where
  "set_appender a ap w = w\<lparr>lw_appenders := (lw_appenders w)(a \<mapsto> ap)\<rparr>"

definition print_stdout :: "string \<Rightarrow> log_world \<Rightarrow> log_world" where
  "print_stdout s w = w\<lparr>lw_stdout := lw_stdout w @ s\<rparr>"

definition new_appender :: "LogAppender \<Rightarrow> log_world \<Rightarrow> nat \<times> log_world" where
  "new_appender ap w = (lw_fresh w, (set_appender (lw_fresh w) ap w)\<lparr>lw_fresh := lw_fresh w + 1\<rparr>)"

definition LogAppender_setFormatter :: "nat \<Rightarrow> LogFormatter option \<Rightarrow> log_world \<Rightarrow> log_world result" where
  "LogAppender_setFormatter a fm w =
     and_then (appender_of w a) (\<lambda>ap.
       Inr (set_appender a (ap\<lparr>ap_formatter := fm, ap_hasFormatter := (fm \<noteq> None)\<rparr>) w))"

definition LogAppender_getFormatter :: "nat \<Rightarrow> log_world \<Rightarrow> LogFormatter option result" where
  "LogAppender_getFormatter a w = and_then (appender_of w a) (\<lambda>ap. Inr (ap_formatter ap))"

definition LogAppender_setLevel :: "nat \<Rightarrow> Level \<Rightarrow> log_world \<Rightarrow> log_world result" where
  "LogAppender_setLevel a lv w = and_then (appender_of w a) (\<lambda>ap. Inr (set_appender a (ap\<lparr>ap_level := lv\<rparr>) w))"

definition reopen :: "(string \<Rightarrow> bool) \<Rightarrow> string \<Rightarrow> LogAppender \<Rightarrow> LogAppender" where
  "reopen openable filename ap = ap\<lparr>ap_open := openable filename\<rparr>"

definition FileLogAppender_new :: "(string \<Rightarrow> bool) \<Rightarrow> string \<Rightarrow> LogAppender" where
  "FileLogAppender_new openable filename =
     reopen openable filename
       \<lparr>ap_kind = FileLogAppender filename, ap_level = DEBUG, ap_hasFormatter = False, ap_formatter = None,
        ap_open = False, ap_lastTime = 0\<rparr>"

definition format_with :: "(string \<Rightarrow> nat \<Rightarrow> string) \<Rightarrow> LogFormatter option \<Rightarrow> string \<Rightarrow> Level \<Rightarrow> LogEvent \<Rightarrow> string result" where
  "format_with strftime fm name level ev =
     (case fm of None \<Rightarrow> Inl Null_deref | Some fm \<Rightarrow> LogFormatter_format strftime fm name level ev)"

definition FileLogAppender_log ::
  "(string \<Rightarrow> nat \<Rightarrow> string) \<Rightarrow> (string \<Rightarrow> bool) \<Rightarrow> nat \<Rightarrow> string \<Rightarrow> LogAppender \<Rightarrow> string \<Rightarrow> Level \<Rightarrow> LogEvent \<Rightarrow> log_world \<Rightarrow> log_world result" where
  "FileLogAppender_log strftime openable a filename ap name level ev w =
     (if ap_level ap \<le> level then
        (let now = ev_time ev;
             ap = (if (ap_lastTime ap + 3) mod 2 ^ 64 \<le> now then (reopen openable filename ap)\<lparr>ap_lastTime := now\<rparr> else ap);
             w = set_appender a ap w in
         and_then (format_with strftime (ap_formatter ap) name level ev) (\<lambda>s.
           Inr (if ap_open ap then w\<lparr>lw_files := (lw_files w)(filename := lw_files w filename @ s)\<rparr>
                else print_stdout (''error'' @ [LF]) w)))
      else Inr w)"

definition StdoutLogAppender_log ::
  "(string \<Rightarrow> nat \<Rightarrow> string) \<Rightarrow> LogAppender \<Rightarrow> string \<Rightarrow> Level \<Rightarrow> LogEvent \<Rightarrow> log_world \<Rightarrow> log_world result" where
  "StdoutLogAppender_log strftime ap name level ev w =
     (if ap_level ap \<le> level then
        and_then (format_with strftime (ap_formatter ap) name level ev) (\<lambda>s. Inr (print_stdout s w))
      else Inr w)"

definition appender_log ::
  "(string \<Rightarrow> nat \<Rightarrow> string) \<Rightarrow> (string \<Rightarrow> bool) \<Rightarrow> string \<Rightarrow> Level \<Rightarrow> LogEvent \<Rightarrow> nat \<Rightarrow> log_world \<Rightarrow> log_world result" where
  "appender_log strftime openable name level ev a w =
     and_then (appender_of w a) (\<lambda>ap.
       case ap_kind ap of
         StdoutLogAppender \<Rightarrow> StdoutLogAppender_log strftime ap name level ev w
       | FileLogAppender filename \<Rightarrow> FileLogAppender_log strftime openable a filename ap name level ev w)"

section \<open>Loggers\<close>

datatype Logger = Logger
  (lg_name: string) (lg_level: Level) (lg_appenders: "nat list") (lg_formatter: "LogFormatter option")
  (lg_root: "Logger option")

definition default_pattern :: string where
  "default_pattern = ''%d{%Y-%m-%d %H:%M:%S}%T%t%T%N%T%P%T[%p]%T[%c]%T%f:%l%T%m%n''"

definition Logger_new :: "string \<Rightarrow> Logger" where
  "Logger_new name = Logger name DEBUG [] (Some (LogFormatter_new default_pattern)) None"

fun Logger_setLevel :: "Level \<Rightarrow> Logger \<Rightarrow> Logger" where
  "Logger_setLevel lv (Logger name _ as fm r) = Logger name lv as fm r"

fun pass_formatter :: "LogFormatter option \<Rightarrow> nat list \<Rightarrow> log_world \<Rightarrow> log_world result" where
  "pass_formatter fm [] w = Inr w"
| "pass_formatter fm (a # as) w =
     and_then (appender_of w a) (\<lambda>ap.
       pass_formatter fm as (if ap_hasFormatter ap then w else set_appender a (ap\<lparr>ap_formatter := fm\<rparr>) w))"

fun Logger_setFormatter :: "LogFormatter option \<Rightarrow> Logger \<Rightarrow> log_world \<Rightarrow> (Logger \<times> log_world) result" where
  "Logger_setFormatter fm (Logger name lv as _ r) w =
     and_then (pass_formatter fm as w) (\<lambda>w. Inr (Logger name lv as fm r, w))"

definition Logger_setFormatter_text :: "string \<Rightarrow> Logger \<Rightarrow> log_world \<Rightarrow> (Logger \<times> log_world) result" where
  "Logger_setFormatter_text p lg w =
     (let w = print_stdout (''---'' @ p @ [LF]) w; fm = LogFormatter_new p in
      if m_error fm then
        Inr (lg, print_stdout (''Logger setFormatter name='' @ lg_name lg @ '' value='' @ p @ '' invalid formatter'' @ [LF]) w)
      else Logger_setFormatter (Some fm) lg w)"

fun Logger_addAppender :: "nat \<Rightarrow> Logger \<Rightarrow> log_world \<Rightarrow> (Logger \<times> log_world) result" where
  "Logger_addAppender a (Logger name lv as fm r) w =
     and_then (appender_of w a) (\<lambda>ap.
       Inr (Logger name lv (as @ [a]) fm r,
            if ap_formatter ap = None then set_appender a (ap\<lparr>ap_formatter := fm\<rparr>) w else w))"

fun Logger_delAppender :: "nat \<Rightarrow> Logger \<Rightarrow> Logger" where
  "Logger_delAppender a (Logger name lv as fm r) = Logger name lv (remove1 a as) fm r"

fun Logger_clearAppenders :: "Logger \<Rightarrow> Logger" where
  "Logger_clearAppenders (Logger name lv as fm r) = Logger name lv [] fm r"

fun log_each ::
  "(string \<Rightarrow> nat \<Rightarrow> string) \<Rightarrow> (string \<Rightarrow> bool) \<Rightarrow> string \<Rightarrow> Level \<Rightarrow> LogEvent \<Rightarrow> nat list \<Rightarrow> log_world \<Rightarrow> log_world result" where
  "log_each strftime openable name level ev [] w = Inr w"
| "log_each strftime openable name level ev (a # as) w =
     and_then (appender_log strftime openable name level ev a w) (log_each strftime openable name level ev as)"

fun Logger_log ::
  "(string \<Rightarrow> nat \<Rightarrow> string) \<Rightarrow> (string \<Rightarrow> bool) \<Rightarrow> Level \<Rightarrow> LogEvent \<Rightarrow> Logger \<Rightarrow> log_world \<Rightarrow> log_world result" where
  "Logger_log strftime openable level ev (Logger name lv as fm None) w =
     (if lv \<le> level then log_each strftime openable name level ev as w else Inr w)"
| "Logger_log strftime openable level ev (Logger name lv as fm (Some r)) w =
     (if lv \<le> level then
        if as \<noteq> [] then log_each strftime openable name level ev as w
        else Logger_log strftime openable level ev r w
      else Inr w)"

definition Logger_debug where "Logger_debug strftime openable = Logger_log strftime openable DEBUG"
definition Logger_info where "Logger_info strftime openable = Logger_log strftime openable INFO"
definition Logger_warn where "Logger_warn strftime openable = Logger_log strftime openable WARN"
definition Logger_error where "Logger_error strftime openable = Logger_log strftime openable ERROR"
definition Logger_fatal where "Logger_fatal strftime openable = Logger_log strftime openable FATAL"

text \<open>
  \<open>SONE_LOG_LEVEL\<close>: when the logger takes the level, an event is made, filled through the stream, and
  logged by the destructor of the wrapper.
\<close>

definition LogEvent_new :: "Level \<Rightarrow> string \<Rightarrow> int \<Rightarrow> nat \<Rightarrow> nat \<Rightarrow> nat \<Rightarrow> nat \<Rightarrow> string \<Rightarrow> LogEvent" where
  "LogEvent_new level file line elapse thread_id p_id t thread_name =
     \<lparr>ev_file = file, ev_line = line, ev_elapse = elapse, ev_threadId = thread_id, ev_pId = p_id, ev_time = t,
      ev_threadName = thread_name, ev_content = [], ev_level = level\<rparr>"

definition SONE_LOG_LEVEL ::
  "(string \<Rightarrow> nat \<Rightarrow> string) \<Rightarrow> (string \<Rightarrow> bool) \<Rightarrow> Logger \<Rightarrow> Level \<Rightarrow> string \<Rightarrow> int \<Rightarrow> nat \<Rightarrow> nat \<Rightarrow> nat \<Rightarrow> string \<Rightarrow> log_world \<Rightarrow> log_world result" where
  "SONE_LOG_LEVEL strftime openable lg level file line tid pid t msg w =
     (if lg_level lg \<le> level then
        (let ev = LogEvent_new level file line 0 tid pid t ''UNKNOW'' in
         Logger_log strftime openable (ev_level ev) (ev\<lparr>ev_content := ev_content ev @ msg\<rparr>) lg w)
      else Inr w)"

text \<open>
  The printf style: \<open>vasprintf\<close> is an argument, \<open>None\<close> when it reports -1; the event is then logged
  without the text.
\<close>

definition LogEvent_format :: "(string \<Rightarrow> 'a \<Rightarrow> string option) \<Rightarrow> string \<Rightarrow> 'a \<Rightarrow> LogEvent \<Rightarrow> LogEvent" where
  "LogEvent_format vasprintf fmt al ev =
     (case vasprintf fmt al of None \<Rightarrow> ev | Some buf \<Rightarrow> ev\<lparr>ev_content := ev_content ev @ buf\<rparr>)"

definition SONE_LOG_FMT_LEVEL ::
  "(string \<Rightarrow> nat \<Rightarrow> string) \<Rightarrow> (string \<Rightarrow> bool) \<Rightarrow> (string \<Rightarrow> 'a \<Rightarrow> string option) \<Rightarrow> Logger \<Rightarrow> Level \<Rightarrow> string \<Rightarrow> int \<Rightarrow> nat \<Rightarrow> nat \<Rightarrow> nat \<Rightarrow>
   string \<Rightarrow> 'a \<Rightarrow> log_world \<Rightarrow> log_world result" where
  "SONE_LOG_FMT_LEVEL strftime openable vasprintf lg level file line tid pid t fmt al w =
     (if lg_level lg \<le> level then
        (let ev = LogEvent_new level file line 0 tid pid t ''UNKNOW'' in
         Logger_log strftime openable (ev_level ev) (LogEvent_format vasprintf fmt al ev) lg w)
      else Inr w)"

lemma SONE_LOG_FMT_LEVEL_stream:
  "vasprintf fmt al = Some msg \<Longrightarrow>
     SONE_LOG_FMT_LEVEL strftime openable vasprintf lg level file line tid pid t fmt al w =
     SONE_LOG_LEVEL strftime openable lg level file line tid pid t msg w"
  by (simp add: SONE_LOG_FMT_LEVEL_def SONE_LOG_LEVEL_def LogEvent_format_def)

section \<open>The three loggers of the server\<close>

record LoggerManager =
  lm_root :: Logger
  lm_trace :: Logger
  lm_error :: Logger

definition note_pattern :: string where
  "note_pattern = ''%d{%Y-%m-%d %H:%M:%S}%T[TID]:%t%T[PID]:%P%T%f:%l%T[NOTE]:%m%n''"

definition file_logger :: "(string \<Rightarrow> bool) \<Rightarrow> Logger \<Rightarrow> string \<Rightarrow> log_world \<Rightarrow> (Logger \<times> log_world) result" where
  "file_logger openable lg filename w =
     (let (a, w) = new_appender (FileLogAppender_new openable filename) w in Logger_addAppender a lg w)"

definition LoggerManager_new :: "(string \<Rightarrow> bool) \<Rightarrow> log_world \<Rightarrow> (LoggerManager \<times> log_world) result" where
  "LoggerManager_new openable w =
     and_then (file_logger openable (Logger_new ''root'') ''./root.log'' w) (\<lambda>(root, w).
     and_then (Logger_setFormatter (Some (LogFormatter_new note_pattern)) (Logger_new ''root'') w) (\<lambda>(trace, w).
     and_then (file_logger openable trace ''./trace.log'' w) (\<lambda>(trace, w).
     and_then (Logger_setFormatter (Some (LogFormatter_new note_pattern)) (Logger_new ''root'') w) (\<lambda>(err, w).
     and_then (file_logger openable err ''./error.log'' w) (\<lambda>(err, w).
       Inr (\<lparr>lm_root = root, lm_trace = trace, lm_error = err\<rparr>, w))))))"


text \<open>
  The macros \<open>SONE_LOG_ROOT\<close>, \<open>SONE_LOG_TRACE\<close> and \<open>SONE_LOG_ERR\<close> log at level \<open>DEBUG\<close> to one of the
  three loggers; a program is a sequence of such calls.
\<close>

datatype target = Root_log | Trace_log | Error_log

record log_call =
  lc_target :: target
  lc_file :: string
  lc_line :: int
  lc_tid :: nat
  lc_pid :: nat
  lc_time :: nat
  lc_msg :: string

fun manager_logger :: "LoggerManager \<Rightarrow> target \<Rightarrow> Logger" where
  "manager_logger m Root_log = lm_root m"
| "manager_logger m Trace_log = lm_trace m"
| "manager_logger m Error_log = lm_error m"

fun log_calls ::
  "(string \<Rightarrow> nat \<Rightarrow> string) \<Rightarrow> (string \<Rightarrow> bool) \<Rightarrow> LoggerManager \<Rightarrow> log_call list \<Rightarrow> log_world \<Rightarrow> log_world result" where
  "log_calls strftime openable m [] w = Inr w"
| "log_calls strftime openable m (c # cs) w =
     and_then (SONE_LOG_LEVEL strftime openable (manager_logger m (lc_target c)) DEBUG (lc_file c) (lc_line c)
                 (lc_tid c) (lc_pid c) (lc_time c) (lc_msg c) w)
       (log_calls strftime openable m cs)"

section \<open>What ends up in the files\<close>

fun target_file :: "target \<Rightarrow> string" where
  "target_file Root_log = ''./root.log''"
| "target_file Trace_log = ''./trace.log''"
| "target_file Error_log = ''./error.log''"

definition log_line :: "(string \<Rightarrow> nat \<Rightarrow> string) \<Rightarrow> log_call \<Rightarrow> string" where
  "log_line strftime c =
     (if lc_target c = Root_log then
        strftime ''%Y-%m-%d %H:%M:%S'' (lc_time c) @ [CHR 0x09] @ to_string (lc_tid c) @ [CHR 0x09] @ ''UNKNOW'' @
        [CHR 0x09] @ to_string (lc_pid c) @ [CHR 0x09] @ ''[DEBUG]'' @ [CHR 0x09] @ ''[root]'' @ [CHR 0x09] @
        lc_file c @ '':'' @ int_text (lc_line c) @ [CHR 0x09] @ lc_msg c @ [LF]
      else
        strftime ''%Y-%m-%d %H:%M:%S'' (lc_time c) @ [CHR 0x09] @ ''[TID]:'' @ to_string (lc_tid c) @ [CHR 0x09] @
        ''[PID]:'' @ to_string (lc_pid c) @ [CHR 0x09] @ lc_file c @ '':'' @ int_text (lc_line c) @ [CHR 0x09] @
        ''[NOTE]:'' @ lc_msg c @ [LF])"

definition date_pieces :: "piece list" where
  "date_pieces = [Directive_fmt (CHR ''d'') ''%Y-%m-%d %H:%M:%S'']"

definition note_pieces :: "piece list" where
  "note_pieces = date_pieces @
     [Directive (CHR ''T''), Text ''[TID]:'', Directive (CHR ''t''), Directive (CHR ''T''), Text ''[PID]:'',
      Directive (CHR ''P''), Directive (CHR ''T''), Directive (CHR ''f''), Text '':'', Directive (CHR ''l''),
      Directive (CHR ''T''), Text ''[NOTE]:'', Directive (CHR ''m''), Directive (CHR ''n'')]"

definition default_pieces :: "piece list" where
  "default_pieces = date_pieces @
     [Directive (CHR ''T''), Directive (CHR ''t''), Directive (CHR ''T''), Directive (CHR ''N''), Directive (CHR ''T''),
      Directive (CHR ''P''), Directive (CHR ''T''), Text ''['', Directive (CHR ''p''), Text '']'', Directive (CHR ''T''),
      Text ''['', Directive (CHR ''c''), Text '']'', Directive (CHR ''T''), Directive (CHR ''f''), Text '':'',
      Directive (CHR ''l''), Directive (CHR ''T''), Directive (CHR ''m''), Directive (CHR ''n'')]"

lemma patterns_are_pieces: "note_pattern = pattern_text note_pieces" "default_pattern = pattern_text default_pieces"
  by (simp_all add: note_pattern_def note_pieces_def default_pattern_def default_pieces_def date_pieces_def)

lemma pieces_well_formed: "well_formed note_pieces" "well_formed default_pieces"
  by (simp_all add: note_pieces_def default_pieces_def date_pieces_def known_letter_def ends_name_def
      is_alpha_def is_upper_def is_lower_def)

lemma formatters:
  "m_items (LogFormatter_new note_pattern) = map piece_item note_pieces"
  "m_items (LogFormatter_new default_pattern) = map piece_item default_pieces"
  using LogFormatter_of_pieces [OF pieces_well_formed(1)] LogFormatter_of_pieces [OF pieces_well_formed(2)]
  by (simp_all add: patterns_are_pieces)

definition clock_text_ok :: "(string \<Rightarrow> nat \<Rightarrow> string) \<Rightarrow> nat \<Rightarrow> bool" where
  "clock_text_ok strftime t \<longleftrightarrow>
     length (strftime ''%Y-%m-%d %H:%M:%S'' t) < 64 \<and> nul \<notin> set (strftime ''%Y-%m-%d %H:%M:%S'' t)"

definition target_formatter :: "target \<Rightarrow> LogFormatter" where
  "target_formatter t = LogFormatter_new (if t = Root_log then default_pattern else note_pattern)"

lemma date_text_clock:
  "clock_text_ok strftime t \<Longrightarrow>
     date_text strftime ''%Y-%m-%d %H:%M:%S'' t = Inr (strftime ''%Y-%m-%d %H:%M:%S'' t)"
proof -
  assume ok: "clock_text_ok strftime t"
  have "c_str ''%Y-%m-%d %H:%M:%S'' = ''%Y-%m-%d %H:%M:%S''" by (simp add: c_str_def nul_def)
  then show ?thesis using ok by (simp add: date_text_def clock_text_ok_def c_str_id)
qed

definition call_event :: "log_call \<Rightarrow> LogEvent" where
  "call_event c = (LogEvent_new DEBUG (lc_file c) (lc_line c) 0 (lc_tid c) (lc_pid c) (lc_time c) ''UNKNOW'')\<lparr>ev_content := lc_msg c\<rparr>"

lemma target_line:
  assumes "clock_text_ok strftime (lc_time c)"
  shows "LogFormatter_format strftime (target_formatter (lc_target c)) ''root'' DEBUG (call_event c) = Inr (log_line strftime c)"
  using date_text_clock [OF assms]
  by (cases "lc_target c")
    (simp_all add: LogFormatter_format_def target_formatter_def formatters note_pieces_def default_pieces_def
      date_pieces_def documented_item_def call_event_def LogEvent_new_def log_line_def)

text \<open>The state the manager sets up and every call keeps.\<close>

fun target_id :: "nat \<Rightarrow> target \<Rightarrow> nat" where
  "target_id k Root_log = k"
| "target_id k Trace_log = k + 1"
| "target_id k Error_log = k + 2"

definition ready :: "nat \<Rightarrow> log_world \<Rightarrow> bool" where
  "ready k w \<longleftrightarrow>
     (\<forall>t. \<exists>ap. lw_appenders w (target_id k t) = Some ap \<and> ap_kind ap = FileLogAppender (target_file t) \<and>
        ap_level ap = DEBUG \<and> ap_formatter ap = Some (target_formatter t) \<and> ap_open ap)"

definition managed :: "nat \<Rightarrow> LoggerManager \<Rightarrow> bool" where
  "managed k m \<longleftrightarrow> (\<forall>t. \<exists>fm. manager_logger m t = Logger ''root'' DEBUG [target_id k t] fm None)"

lemma target_id_inject: "target_id k t = target_id k u \<longleftrightarrow> t = u"
  by (cases t; cases u) simp_all

lemma target_file_inject: "target_file t = target_file u \<longleftrightarrow> t = u"
  by (cases t; cases u) simp_all


lemma one_call:
  assumes "managed k m" "ready k w" "\<And>t. openable (target_file t)" "clock_text_ok strftime (lc_time c)"
  shows "\<exists>w'. SONE_LOG_LEVEL strftime openable (manager_logger m (lc_target c)) DEBUG (lc_file c) (lc_line c)
        (lc_tid c) (lc_pid c) (lc_time c) (lc_msg c) w = Inr w' \<and> ready k w' \<and> lw_stdout w' = lw_stdout w \<and>
     lw_files w' = (lw_files w)(target_file (lc_target c) := lw_files w (target_file (lc_target c)) @ log_line strftime c)"
proof -
  let ?t = "lc_target c" and ?a = "target_id k (lc_target c)"
  obtain fm where lg: "manager_logger m ?t = Logger ''root'' DEBUG [?a] fm None"
    using assms(1) by (auto simp: managed_def)
  obtain ap where ap: "lw_appenders w ?a = Some ap" "ap_kind ap = FileLogAppender (target_file ?t)"
      "ap_level ap = DEBUG" "ap_formatter ap = Some (target_formatter ?t)" "ap_open ap"
    using assms(2) unfolding ready_def by blast
  define ap' where "ap' = (if (ap_lastTime ap + 3) mod 2 ^ 64 \<le> lc_time c
      then (reopen openable (target_file ?t) ap)\<lparr>ap_lastTime := lc_time c\<rparr> else ap)"
  have ap': "ap_kind ap' = FileLogAppender (target_file ?t)" "ap_level ap' = DEBUG"
      "ap_formatter ap' = Some (target_formatter ?t)" "ap_open ap'"
    using ap assms(3) by (auto simp: ap'_def reopen_def)
  let ?w = "(set_appender ?a ap' w)\<lparr>lw_files := (lw_files w)(target_file ?t := lw_files w (target_file ?t) @ log_line strftime c)\<rparr>"
  have ev: "ev_time (call_event c) = lc_time c" by (simp add: call_event_def LogEvent_new_def)
  have "FileLogAppender_log strftime openable ?a (target_file ?t) ap ''root'' DEBUG (call_event c) w = Inr ?w"
    using ap(3) ap' target_line [OF assms(4)] unfolding FileLogAppender_log_def ev Let_def ap'_def [symmetric]
    by (simp add: format_with_def set_appender_def)
  then have "Logger_log strftime openable DEBUG (call_event c) (manager_logger m ?t) w = Inr ?w"
    using ap lg by (simp add: appender_log_def appender_of_def)
  then have "SONE_LOG_LEVEL strftime openable (manager_logger m ?t) DEBUG (lc_file c) (lc_line c)
        (lc_tid c) (lc_pid c) (lc_time c) (lc_msg c) w = Inr ?w"
    using lg by (simp add: SONE_LOG_LEVEL_def call_event_def LogEvent_new_def)
  moreover have "ready k ?w"
    using assms(2) ap' unfolding ready_def by (auto simp: set_appender_def target_id_inject)
  ultimately show ?thesis by (auto simp: set_appender_def)
qed

lemma many_calls:
  assumes "managed k m" "ready k w" "\<And>t. openable (target_file t)" "\<forall>c \<in> set cs. clock_text_ok strftime (lc_time c)"
  shows "\<exists>w'. log_calls strftime openable m cs w = Inr w' \<and> lw_stdout w' = lw_stdout w \<and>
    (\<forall>t. lw_files w' (target_file t) =
       lw_files w (target_file t) @ concat (map (log_line strftime) (filter (\<lambda>c. lc_target c = t) cs))) \<and>
    (\<forall>f. (\<forall>t. f \<noteq> target_file t) \<longrightarrow> lw_files w' f = lw_files w f)"
  using assms(2,4)
proof (induction cs arbitrary: w)
  case Nil
  then show ?case by simp
next
  case (Cons c cs)
  obtain w1 where w1: "SONE_LOG_LEVEL strftime openable (manager_logger m (lc_target c)) DEBUG (lc_file c) (lc_line c)
        (lc_tid c) (lc_pid c) (lc_time c) (lc_msg c) w = Inr w1" "ready k w1" "lw_stdout w1 = lw_stdout w"
     "lw_files w1 = (lw_files w)(target_file (lc_target c) := lw_files w (target_file (lc_target c)) @ log_line strftime c)"
    using one_call [of k m w openable strftime c] assms(1,3) Cons.prems by auto
  obtain w' where w': "log_calls strftime openable m cs w1 = Inr w'" "lw_stdout w' = lw_stdout w1"
      "\<forall>t. lw_files w' (target_file t) =
         lw_files w1 (target_file t) @ concat (map (log_line strftime) (filter (\<lambda>c. lc_target c = t) cs))"
      "\<forall>f. (\<forall>t. f \<noteq> target_file t) \<longrightarrow> lw_files w' f = lw_files w1 f"
    using Cons.IH [OF w1(2)] Cons.prems(2) by auto
  have "log_calls strftime openable m (c # cs) w = Inr w'" using w1(1) w'(1) by simp
  moreover have "lw_files w' (target_file t) = lw_files w (target_file t) @
      concat (map (log_line strftime) (filter (\<lambda>c. lc_target c = t) (c # cs)))" for t
    using w'(3) w1(4) by (simp add: target_file_inject)
  moreover have "lw_files w' f = lw_files w f" if "\<forall>t. f \<noteq> target_file t" for f
    using w'(4) w1(4) that by simp
  ultimately show ?case using w'(2) w1(3) by auto
qed

lemma manager_ready:
  assumes "\<And>t. openable (target_file t)"
  shows "\<exists>m w'. LoggerManager_new openable w = Inr (m, w') \<and> managed (lw_fresh w) m \<and> ready (lw_fresh w) w' \<and>
    lw_files w' = lw_files w \<and> lw_stdout w' = lw_stdout w"
proof -
  have o: "openable ''./root.log''" "openable ''./trace.log''" "openable ''./error.log''"
    using assms [of Root_log] assms [of Trace_log] assms [of Error_log] by simp_all
  let ?ap = "\<lambda>t. \<lparr>ap_kind = FileLogAppender (target_file t), ap_level = DEBUG, ap_hasFormatter = False,
      ap_formatter = Some (target_formatter t), ap_open = True, ap_lastTime = 0\<rparr>"
  let ?k = "lw_fresh w"
  let ?w = "w\<lparr>lw_appenders := (lw_appenders w)(?k \<mapsto> ?ap Root_log, ?k + 1 \<mapsto> ?ap Trace_log, ?k + 2 \<mapsto> ?ap Error_log),
      lw_fresh := ?k + 3\<rparr>"
  let ?lg = "\<lambda>t. Logger ''root'' DEBUG [target_id ?k t] (Some (target_formatter t)) None"
  let ?m = "\<lparr>lm_root = ?lg Root_log, lm_trace = ?lg Trace_log, lm_error = ?lg Error_log\<rparr>"
  have "LoggerManager_new openable w = Inr (?m, ?w)"
    using o by (simp add: LoggerManager_new_def file_logger_def new_appender_def FileLogAppender_new_def reopen_def
        Logger_new_def appender_of_def set_appender_def target_formatter_def)
  moreover have "managed ?k ?m"
    unfolding managed_def
  proof
    fix t
    show "\<exists>fm. manager_logger ?m t = Logger ''root'' DEBUG [target_id ?k t] fm None" by (cases t) auto
  qed
  moreover have "ready ?k ?w"
    unfolding ready_def
  proof
    fix t
    show "\<exists>ap. lw_appenders ?w (target_id ?k t) = Some ap \<and> ap_kind ap = FileLogAppender (target_file t) \<and>
        ap_level ap = DEBUG \<and> ap_formatter ap = Some (target_formatter t) \<and> ap_open ap" by (cases t) auto
  qed
  ultimately show ?thesis by (intro exI [of _ ?m] exI [of _ ?w]) simp
qed

section \<open>Properties\<close>

text \<open>
  C28. The parser of format patterns reads a pattern put together from text without percent signs, directives of a known letter,
  and directives of a known letter with a format in braces, without an error and with the items in order, each the one the
  documentation of the constructor gives its letter.  A directive without braces must be followed by the end of the
  pattern or by a character that is no letter and no brace: the parser takes letters that follow for a part of its name.
\<close>

theorem LogFormatter_parses_patterns:
  assumes "well_formed ps"
  shows "LogFormatter_new (pattern_text ps) =
    \<lparr>m_pattern = pattern_text ps, m_items = map piece_item ps, m_error = False\<rparr>"
  by (rule LogFormatter_of_pieces [OF assms])

theorem LogFormatter_parses_patterns_witness:
  "m_error (LogFormatter_new ''%m%n'') = False \<and> m_items (LogFormatter_new ''%m%n'') = [MessageFormatItem, NewLineFormatItem]"
  using LogFormatter_parses_patterns [of "[Directive (CHR ''m''), Directive (CHR ''n'')]"]
  by (simp add: known_letter_def ends_name_def is_alpha_def is_upper_def is_lower_def documented_item_def)

text \<open>
  A double percent sign is not the escape the comment before the parser announces: at the end
  of a pattern it makes the pattern an error, and the formatter writes an error text after the sign.
\<close>

theorem LogFormatter_double_percent:
  assumes "CHR ''%'' \<notin> set s"
  shows "LogFormatter_new (s @ ''%%'') =
    \<lparr>m_pattern = s @ ''%%'', m_items = [StringFormatItem (s @ ''%''), StringFormatItem ''<<error_format %>>''], m_error = True\<rparr>"
  by (rule LogFormatter_percent [OF assms])

theorem LogFormatter_double_percent_witness: "m_error (LogFormatter_new ''100%%'')"
  using LogFormatter_double_percent [of "''100''"] by simp

text \<open>
  C29. After the logger manager is set up, any sequence of logging calls of the server, to the three
  loggers in any order, writes for every call one line of its logger's format to the file of that
  logger, in the order of the calls, and writes nothing else.
\<close>

theorem server_logs_in_order:
  assumes "\<And>t. openable (target_file t)" "\<forall>c \<in> set cs. clock_text_ok strftime (lc_time c)"
  shows "\<exists>m w1 w2. LoggerManager_new openable w = Inr (m, w1) \<and> log_calls strftime openable m cs w1 = Inr w2 \<and>
    lw_stdout w2 = lw_stdout w \<and>
    (\<forall>t. lw_files w2 (target_file t) =
       lw_files w (target_file t) @ concat (map (log_line strftime) (filter (\<lambda>c. lc_target c = t) cs))) \<and>
    (\<forall>f. (\<forall>t. f \<noteq> target_file t) \<longrightarrow> lw_files w2 f = lw_files w f)"
proof -
  obtain m w1 where m: "LoggerManager_new openable w = Inr (m, w1)" "managed (lw_fresh w) m" "ready (lw_fresh w) w1"
      "lw_files w1 = lw_files w" "lw_stdout w1 = lw_stdout w"
    using manager_ready [of openable w] assms(1) by blast
  show ?thesis using m(1) many_calls [of _ m w1 openable cs strftime, OF m(2,3) assms] unfolding m(4,5) by blast
qed

theorem server_logs_in_order_witness:
  "\<exists>m w1 w2. LoggerManager_new (\<lambda>_. True) \<lparr>lw_appenders = Map.empty, lw_fresh = 0, lw_files = (\<lambda>_. []), lw_stdout = []\<rparr> = Inr (m, w1) \<and>
    log_calls (\<lambda>_ _. ''now'') (\<lambda>_. True) m
      [\<lparr>lc_target = Trace_log, lc_file = ''a.cpp'', lc_line = 7, lc_tid = 1, lc_pid = 2, lc_time = 100, lc_msg = ''hello''\<rparr>] w1 = Inr w2 \<and>
    lw_files w2 ''./trace.log'' = ''now'' @ [CHR 0x09] @ ''[TID]:1'' @ [CHR 0x09] @ ''[PID]:2'' @ [CHR 0x09] @ ''a.cpp:7'' @ [CHR 0x09] @ ''[NOTE]:hello'' @ [LF]"
proof -
  let ?c = "\<lparr>lc_target = Trace_log, lc_file = ''a.cpp'', lc_line = 7, lc_tid = 1, lc_pid = 2, lc_time = 100, lc_msg = ''hello''\<rparr>"
  let ?w = "\<lparr>lw_appenders = Map.empty, lw_fresh = 0, lw_files = (\<lambda>_. []), lw_stdout = []\<rparr>"
  have "\<forall>c \<in> set [?c]. clock_text_ok (\<lambda>_ _. ''now'') (lc_time c)" by (simp add: clock_text_ok_def nul_def)
  then obtain m w1 w2 where w: "LoggerManager_new (\<lambda>_. True) ?w = Inr (m, w1)" "log_calls (\<lambda>_ _. ''now'') (\<lambda>_. True) m [?c] w1 = Inr w2"
      "\<forall>t. lw_files w2 (target_file t) = lw_files ?w (target_file t) @
         concat (map (log_line (\<lambda>_ _. ''now'')) (filter (\<lambda>c. lc_target c = t) [?c]))"
    using server_logs_in_order [of "\<lambda>_. True" "[?c]" "\<lambda>_ _. ''now''" ?w] by blast
  moreover have "lw_files w2 (target_file Trace_log) = log_line (\<lambda>_ _. ''now'') ?c"
    using spec [OF w(3), of Trace_log] by simp
  then have "lw_files w2 ''./trace.log'' = ''now'' @ [CHR 0x09] @ ''[TID]:1'' @ [CHR 0x09] @ ''[PID]:2'' @ [CHR 0x09] @ ''a.cpp:7'' @ [CHR 0x09] @ ''[NOTE]:hello'' @ [LF]"
    by (simp add: log_line_def to_string.simps int_text_def digit_char_table)
  ultimately show ?thesis by blast
qed

end
