(* ===== verification/M_Vector.thy ===== *)
theory M_Vector
  imports Sone_Prelude
begin

text \<open>
  The vector of \<^verbatim>\<open>src/cpp/structure/m_vector.h\<close>: its storage, the editing operations, the
  searches in a sorted range and the two sorting algorithms.

  An iterator is the offset of its cell from the start of the array.  The array is the list of
  its \<open>m_capcity\<close> cells, \<open>None\<close> after it has been moved away; the cells of a new
  array that nothing has been stored in have the contents \<open>junk\<close>.  The element type is any
  linear order with a zero, as the code compares with \<open><\<close> and \<open>==\<close> and fills with 0.
\<close>

section \<open>Storage\<close>

record 'a m_vector =
  m_capcity :: nat
  m_size :: nat
  mv_vec :: "'a list option"

definition DEFAULT_SZIE :: nat where "DEFAULT_SZIE = 16"

definition cells :: "'a m_vector \<Rightarrow> 'a list result" where
  "cells v = (case mv_vec v of None \<Rightarrow> Inl Null_deref | Some xs \<Rightarrow> Inr xs)"

definition m_vector_fill :: "(nat \<Rightarrow> 'a) \<Rightarrow> nat \<Rightarrow> 'a \<Rightarrow> 'a m_vector result" where
  "m_vector_fill junk n x =
     (let cap = (2 * n) mod 2 ^ 64 in
      if n \<le> cap
      then Inr \<lparr>m_capcity = cap, m_size = n, mv_vec = Some (replicate n x @ map junk [n..<cap])\<rparr>
      else Inl Out_of_bounds)"

definition m_vector_zeros :: "(nat \<Rightarrow> 'a::zero) \<Rightarrow> nat \<Rightarrow> 'a m_vector result" where
  "m_vector_zeros junk n = m_vector_fill junk n 0"

definition m_vector_default :: "(nat \<Rightarrow> 'a) \<Rightarrow> 'a m_vector" where
  "m_vector_default junk =
     \<lparr>m_capcity = DEFAULT_SZIE, m_size = 0, mv_vec = Some (map junk [0..<DEFAULT_SZIE])\<rparr>"

text \<open>Moving takes the array and leaves the sizes of the source as they were.\<close>

definition m_vector_move :: "'a m_vector \<Rightarrow> 'a m_vector \<times> 'a m_vector" where
  "m_vector_move v = (v, v\<lparr>mv_vec := None\<rparr>)"

definition m_vector_at :: "'a m_vector \<Rightarrow> nat \<Rightarrow> 'a result" where
  "m_vector_at v pos =
     (if pos \<ge> m_size v then Inl Out_of_range else and_then (cells v) (\<lambda>xs. cell xs pos))"

text \<open>\<open>vec[i] = v[i]\<close> for \<open>i\<close> below the size, into an array of its own.\<close>

fun copy_cells :: "'a m_vector \<Rightarrow> nat \<Rightarrow> 'a list \<Rightarrow> 'a list result" where
  "copy_cells v 0 xs = Inr xs"
| "copy_cells v (Suc n) xs =
     and_then (copy_cells v n xs) (\<lambda>xs. and_then (m_vector_at v n) (set_cell xs n))"

text \<open>Assignment from another vector.\<close>

definition m_vector_assign :: "(nat \<Rightarrow> 'a) \<Rightarrow> 'a m_vector \<Rightarrow> 'a m_vector result" where
  "m_vector_assign junk v =
     and_then (copy_cells v (m_size v) (map junk [0..<m_capcity v])) (\<lambda>xs.
       Inr \<lparr>m_capcity = m_capcity v, m_size = m_size v, mv_vec = Some xs\<rparr>)"

text \<open>
  Assignment between two of several vectors, where both may be the same.  Copying deletes the own array first, so that a copy from
  itself reads the new one; moving takes the array of the source and clears the pointer of the source last.
\<close>

definition m_vector_assign_at :: "(nat \<Rightarrow> 'a) \<Rightarrow> nat \<Rightarrow> nat \<Rightarrow> (nat \<Rightarrow> 'a m_vector) \<Rightarrow> (nat \<Rightarrow> 'a m_vector) result" where
  "m_vector_assign_at junk this v objs =
     (let fresh = \<lparr>m_capcity = m_capcity (objs v), m_size = m_size (objs v),
                    mv_vec = Some (map junk [0..<m_capcity (objs v)])\<rparr>
      in and_then (m_vector_assign junk ((objs(this := fresh)) v)) (\<lambda>x. Inr (objs(this := x))))"

definition m_vector_move_at :: "nat \<Rightarrow> nat \<Rightarrow> (nat \<Rightarrow> 'a m_vector) \<Rightarrow> nat \<Rightarrow> 'a m_vector" where
  "m_vector_move_at this v objs =
     (let objs = objs(this := objs v) in objs(v := (objs v)\<lparr>mv_vec := None\<rparr>))"

definition mv_empty :: "'a m_vector \<Rightarrow> bool" where
  "mv_empty v \<longleftrightarrow> m_size v = 0"

definition mv_reserve :: "(nat \<Rightarrow> 'a) \<Rightarrow> nat \<Rightarrow> 'a m_vector \<Rightarrow> 'a m_vector result" where
  "mv_reserve junk newcapcity v =
     and_then (cells v) (\<lambda>xs.
       if m_size v \<le> newcapcity \<and> m_size v \<le> length xs
       then Inr (v\<lparr>m_capcity := newcapcity,
                   mv_vec := Some (take (m_size v) xs @ map junk [m_size v..<newcapcity])\<rparr>)
       else Inl Out_of_bounds)"

section \<open>Editing\<close>

definition push_back :: "(nat \<Rightarrow> 'a) \<Rightarrow> 'a \<Rightarrow> 'a m_vector \<Rightarrow> 'a m_vector result" where
  "push_back junk x v =
     and_then (if m_size v + 1 > m_capcity v then mv_reserve junk ((m_size v * 2) mod 2 ^ 64) v else Inr v) (\<lambda>v.
     and_then (cells v) (\<lambda>xs.
     and_then (set_cell xs (m_size v) x) (\<lambda>xs.
       Inr (v\<lparr>m_size := m_size v + 1, mv_vec := Some xs\<rparr>))))"

text \<open>The index \<open>m_size - 1\<close> wraps around when the vector is empty.\<close>

definition last_index :: "'a m_vector \<Rightarrow> nat" where
  "last_index v = to_size_t (int (m_size v) - 1)"

definition pop_back :: "'a::zero m_vector \<Rightarrow> 'a m_vector result" where
  "pop_back v =
     and_then (cells v) (\<lambda>xs.
     and_then (set_cell xs (last_index v) 0) (\<lambda>xs.
       Inr (v\<lparr>m_size := last_index v, mv_vec := Some xs\<rparr>)))"

definition mv_tail :: "'a m_vector \<Rightarrow> 'a result" where
  "mv_tail v = and_then (cells v) (\<lambda>xs. cell xs (last_index v))"

text \<open>\<open>for(p = end() - 1; p != pos; --p) *p = *(p - 1)\<close>.\<close>

fun shift_up :: "'a list \<Rightarrow> nat \<Rightarrow> nat \<Rightarrow> 'a list result" where
  "shift_up xs pos 0 = (if pos = 0 then Inr xs else Inl Out_of_bounds)"
| "shift_up xs pos (Suc p) =
     (if Suc p = pos then Inr xs
      else and_then (cell xs p) (\<lambda>x. and_then (set_cell xs (Suc p) x) (\<lambda>xs. shift_up xs pos p)))"

definition mv_insert :: "(nat \<Rightarrow> 'a) \<Rightarrow> nat \<Rightarrow> 'a \<Rightarrow> 'a m_vector \<Rightarrow> 'a m_vector result" where
  "mv_insert junk pos x v =
     and_then (if m_size v + 1 > m_capcity v then mv_reserve junk ((m_size v * 2) mod 2 ^ 64) v else Inr v) (\<lambda>v.
     and_then (cells v) (\<lambda>xs.
     and_then (shift_up xs pos (m_size v)) (\<lambda>xs.
     and_then (set_cell xs pos x) (\<lambda>xs.
       Inr (v\<lparr>m_size := m_size v + 1, mv_vec := Some xs\<rparr>)))))"

text \<open>\<open>for(p = pos; p != end() - 1; ++p) *p = *(p + 1)\<close>: a start behind the end leaves the array.\<close>

function shift_down :: "'a list \<Rightarrow> nat \<Rightarrow> nat \<Rightarrow> 'a list result" where
  "shift_down xs p fin =
     (if p = fin then Inr xs
      else and_then (cell xs (p + 1)) (\<lambda>x. and_then (set_cell xs p x) (\<lambda>xs. shift_down xs (p + 1) fin)))"
  by pat_completeness auto
termination
  by (relation "measure (\<lambda>(xs, p, fin). length xs - p)")
    (auto simp: cell_def set_cell_def split: if_splits)

declare shift_down.simps [simp del]

definition mv_remove :: "nat \<Rightarrow> 'a m_vector \<Rightarrow> ('a \<times> 'a m_vector) result" where
  "mv_remove pos v =
     and_then (cells v) (\<lambda>xs.
     and_then (cell xs pos) (\<lambda>res.
     and_then (shift_down xs pos (last_index v)) (\<lambda>xs.
       Inr (res, v\<lparr>m_size := last_index v, mv_vec := Some xs\<rparr>))))"

function erase_loop :: "'a list \<Rightarrow> nat \<Rightarrow> nat \<Rightarrow> nat \<Rightarrow> ('a list \<times> nat \<times> nat) result" where
  "erase_loop xs l r en =
     (if r = en then Inr (xs, l, r)
      else and_then (cell xs r) (\<lambda>x. and_then (set_cell xs l x) (\<lambda>xs. erase_loop xs (l + 1) (r + 1) en)))"
  by pat_completeness auto
termination
  by (relation "measure (\<lambda>(xs, l, r, en). length xs - r)")
    (auto simp: cell_def set_cell_def split: if_splits)

declare erase_loop.simps [simp del]

definition mv_erase :: "nat \<Rightarrow> nat \<Rightarrow> 'a m_vector \<Rightarrow> 'a m_vector result" where
  "mv_erase l r v =
     (if l \<ge> r then Inr v
      else
        and_then (cells v) (\<lambda>xs.
        and_then (erase_loop xs l r (m_size v)) (\<lambda>(xs, l, r).
          Inr (v\<lparr>m_size := to_size_t (int (m_size v) - (int r - int l)), mv_vec := Some xs\<rparr>))))"

section \<open>Unsorted ranges\<close>

function find_range :: "'a list \<Rightarrow> 'a \<Rightarrow> nat \<Rightarrow> nat \<Rightarrow> nat result" where
  "find_range xs e p en =
     (if p = en then Inr en
      else and_then (cell xs p) (\<lambda>x. if x = e then Inr p else find_range xs e (p + 1) en))"
  by pat_completeness auto
termination
  by (relation "measure (\<lambda>(xs, e, p, en). length xs - p)") (auto simp: cell_def split: if_splits)

declare find_range.simps [simp del]

definition mv_find :: "'a m_vector \<Rightarrow> 'a \<Rightarrow> nat result" where
  "mv_find v e = and_then (cells v) (\<lambda>xs. find_range xs e 0 (m_size v))"

text \<open>The inner and the outer loop of \<open>deduplicate\<close>; both end because the range shrinks or the
  index grows.\<close>

function dedup_inner :: "nat \<Rightarrow> nat \<Rightarrow> 'a m_vector \<Rightarrow> 'a m_vector result" where
  "dedup_inner i j v =
     (if j < m_size v then
        and_then (cells v) (\<lambda>xs.
        and_then (cell xs j) (\<lambda>x.
        and_then (cell xs i) (\<lambda>y.
          if x = y then and_then (mv_remove j v) (\<lambda>(_, v). dedup_inner i j v)
          else dedup_inner i (j + 1) v)))
      else Inr v)"
  by pat_completeness auto

lemma mv_remove_size: "mv_remove j v = Inr (x, v') \<Longrightarrow> m_size v' = last_index v"
  by (auto simp: mv_remove_def and_then_eq_Inr_conv)

lemma last_index_less: "j < m_size v \<Longrightarrow> m_size v < 2 ^ 64 \<Longrightarrow> last_index v = m_size v - 1"
  by (simp add: last_index_def to_size_t_id)

lemma last_index_le: "0 < m_size v \<Longrightarrow> last_index v < m_size v"
proof -
  assume *: "0 < m_size v"
  then have "(int (m_size v) - 1) mod 2 ^ 64 \<le> int (m_size v) - 1" by (intro zmod_le_nonneg_dividend) simp
  then have "(int (m_size v) - 1) mod 2 ^ 64 < int (m_size v)" by linarith
  then show ?thesis by (simp add: last_index_def to_size_t_def nat_less_iff)
qed

lemma diff_less_shrink: "(b :: nat) < c \<Longrightarrow> j < c \<Longrightarrow> b - j < c - j"
  by simp

termination dedup_inner
  by (relation "measure (\<lambda>(i, j, v). m_size v - j)")
    (auto simp: mv_remove_size last_index_le diff_less_shrink)

declare dedup_inner.simps [simp del]

function dedup_outer :: "nat \<Rightarrow> 'a m_vector \<Rightarrow> 'a m_vector result" where
  "dedup_outer i v =
     (if i < m_size v then and_then (dedup_inner i (i + 1) v) (dedup_outer (i + 1)) else Inr v)"
  by pat_completeness auto

lemma dedup_inner_size: "dedup_inner i j v = Inr v' \<Longrightarrow> m_size v' \<le> m_size v"
proof (induction i j v arbitrary: v' rule: dedup_inner.induct)
  case (1 i j v)
  show ?case
  proof (cases "j < m_size v")
    case False
    then show ?thesis using "1.prems" by (simp add: dedup_inner.simps [of i j v])
  next
    case True
    then obtain xs x y where c: "cells v = Inr xs" "cell xs j = Inr x" "cell xs i = Inr y"
      "(if x = y then and_then (mv_remove j v) (\<lambda>(_, v). dedup_inner i j v) else dedup_inner i (j + 1) v) = Inr v'"
      using "1.prems" by (auto simp: dedup_inner.simps [of i j v] and_then_eq_Inr_conv)
    show ?thesis
    proof (cases "x = y")
      case True
      then obtain z v1 where r: "mv_remove j v = Inr (z, v1)" "dedup_inner i j v1 = Inr v'"
        using c(4) by (auto simp: and_then_eq_Inr_conv)
      have "m_size v' \<le> m_size v1" using "1.IH"(1) [OF \<open>j < m_size v\<close> c(1-3) True r(1) refl r(2)] .
      then show ?thesis using mv_remove_size [OF r(1)] last_index_le [of v] \<open>j < m_size v\<close> by simp
    next
      case False
      then show ?thesis using "1.IH"(2) [OF \<open>j < m_size v\<close> c(1-3) False] c(4) by simp
    qed
  qed
qed

termination dedup_outer
  by (relation "measure (\<lambda>(i, v). m_size v - i)") (auto dest: dedup_inner_size)

declare dedup_outer.simps [simp del]

definition deduplicate :: "'a m_vector \<Rightarrow> (int \<times> 'a m_vector) result" where
  "deduplicate v =
     and_then (dedup_outer 0 v) (\<lambda>v'. Inr (to_int32 (int (m_size v) - int (m_size v')), v'))"

section \<open>Sorted ranges\<close>

text \<open>The compaction loop of \<open>unique\<close>; the function has no return statement, so only the vector is
  given.\<close>

function unique_loop :: "'a list \<Rightarrow> nat \<Rightarrow> nat \<Rightarrow> nat \<Rightarrow> ('a list \<times> nat) result" where
  "unique_loop xs i j n =
     (if j + 1 < n then
        and_then (cell xs i) (\<lambda>x.
        and_then (cell xs (j + 1)) (\<lambda>y.
          if x \<noteq> y then and_then (set_cell xs (i + 1) y) (\<lambda>xs. unique_loop xs (i + 1) (j + 1) n)
          else unique_loop xs i (j + 1) n))
      else Inr (xs, i))"
  by pat_completeness auto
termination
  by (relation "measure (\<lambda>(xs, i, j, n). n - j)") auto

declare unique_loop.simps [simp del]

definition mv_unique :: "'a m_vector \<Rightarrow> 'a m_vector result" where
  "mv_unique v =
     and_then (cells v) (\<lambda>xs.
     and_then (unique_loop xs 0 0 (m_size v)) (\<lambda>(xs, i).
       Inr (v\<lparr>m_size := i + 1, mv_vec := Some xs\<rparr>)))"

text \<open>Binary search: the cell of an element, or the end of the range.\<close>

function search_loop :: "'a::linorder list \<Rightarrow> 'a \<Rightarrow> nat \<Rightarrow> nat \<Rightarrow> nat option result" where
  "search_loop xs e start en =
     (if start < en then
        let mid = start + (en - start) div 2 in
        and_then (cell xs mid) (\<lambda>x.
          if x < e then search_loop xs e (mid + 1) en
          else if e < x then search_loop xs e start mid
          else Inr (Some mid))
      else Inr None)"
  by pat_completeness auto
termination
  by (relation "measure (\<lambda>(xs, e, start, en). en - start)") auto

declare search_loop.simps [simp del]

definition search_range :: "'a::linorder list \<Rightarrow> 'a \<Rightarrow> nat \<Rightarrow> nat \<Rightarrow> nat result" where
  "search_range xs e lo hi =
     and_then (search_loop xs e lo hi) (\<lambda>r. Inr (case r of Some mid \<Rightarrow> mid | None \<Rightarrow> hi))"

definition mv_search :: "'a::linorder m_vector \<Rightarrow> 'a \<Rightarrow> nat result" where
  "mv_search v e = and_then (cells v) (\<lambda>xs. search_range xs e 0 (m_size v))"

text \<open>The class \<open>Fib\<close>: two neighbouring Fibonacci numbers as 32-bit integers.\<close>

record Fib =
  fib_f :: int
  fib_g :: int

definition fib_next :: "Fib \<Rightarrow> Fib result" where
  "fib_next s =
     (if fib_g s + fib_f s < 2 ^ 31 then Inr \<lparr>fib_f = fib_g s + fib_f s - fib_f s, fib_g = fib_g s + fib_f s\<rparr>
      else Inl Signed_overflow)"

definition fib_prev :: "Fib \<Rightarrow> Fib" where
  "fib_prev s = \<lparr>fib_f = fib_g s - fib_f s, fib_g = fib_g s - (fib_g s - fib_f s)\<rparr>"

partial_function (option) Fib_loop :: "int \<Rightarrow> Fib \<Rightarrow> Fib result option" where
  "Fib_loop n s =
     (if fib_g s < n then (case fib_next s of Inl e \<Rightarrow> Some (Inl e) | Inr s' \<Rightarrow> Fib_loop n s') else Some (Inr s))"

definition Fib_new :: "int \<Rightarrow> Fib result option" where
  "Fib_new n = Fib_loop n \<lparr>fib_f = 1, fib_g = 0\<rparr>"

partial_function (option) fib_shrink :: "int \<Rightarrow> Fib \<Rightarrow> Fib option" where
  "fib_shrink n s = (if n < fib_g s then fib_shrink n (fib_prev s) else Some s)"

partial_function (option) fibsearch_loop ::
  "'a::linorder list \<Rightarrow> 'a \<Rightarrow> int \<Rightarrow> int \<Rightarrow> Fib \<Rightarrow> int option result option" where
  "fibsearch_loop xs e lo hi s =
     (if lo < hi then
        Option.bind (fib_shrink (hi - lo) s) (\<lambda>s.
          let mid = lo + fib_g s - 1 in
          case (if 0 \<le> mid then cell xs (nat mid) else Inl Out_of_bounds) of
            Inl err \<Rightarrow> Some (Inl err)
          | Inr x \<Rightarrow>
              if x < e then fibsearch_loop xs e (mid + 1) hi s
              else if e < x then fibsearch_loop xs e lo mid s
              else Some (Inr (Some mid)))
      else Some (Inr None))"

definition fibsearch :: "'a::linorder list \<Rightarrow> 'a \<Rightarrow> nat \<Rightarrow> nat \<Rightarrow> nat result option" where
  "fibsearch xs e lo hi =
     (case Fib_new (to_int32 (int hi - int lo)) of
        None \<Rightarrow> None
      | Some (Inl err) \<Rightarrow> Some (Inl err)
      | Some (Inr s) \<Rightarrow>
          map_option (\<lambda>r. and_then r (\<lambda>m. Inr (case m of Some mid \<Rightarrow> nat mid | None \<Rightarrow> hi)))
            (fibsearch_loop xs e (int lo) (int hi) s))"

section \<open>Sorting\<close>

function bubble_loop :: "'a::linorder list \<Rightarrow> nat \<Rightarrow> nat \<Rightarrow> nat \<Rightarrow> ('a list \<times> nat) result" where
  "bubble_loop xs p lst hi =
     (if p + 1 < hi then
        and_then (cell xs (p + 1)) (\<lambda>x.
        and_then (cell xs p) (\<lambda>y.
          if x < y then and_then (swap_cells xs (p + 1) p) (\<lambda>xs. bubble_loop xs (p + 1) (p + 1) hi)
          else bubble_loop xs (p + 1) lst hi))
      else Inr (xs, lst))"
  by pat_completeness auto
termination
  by (relation "measure (\<lambda>(xs, p, lst, hi). hi - p)") auto

declare bubble_loop.simps [simp del]

definition bubble :: "'a::linorder list \<Rightarrow> nat \<Rightarrow> nat \<Rightarrow> ('a list \<times> nat) result" where
  "bubble xs lo hi = bubble_loop xs lo lo hi"

lemma bubble_loop_last: "bubble_loop xs p lst hi = Inr (xs', l) \<Longrightarrow> l = lst \<or> l < hi"
proof (induction xs p lst hi arbitrary: xs' l rule: bubble_loop.induct)
  case (1 xs p lst hi)
  show ?case
  proof (cases "p + 1 < hi")
    case False
    then show ?thesis using "1.prems" by (simp add: bubble_loop.simps [of xs p])
  next
    case True
    then obtain x y where c: "cell xs (p + 1) = Inr x" "cell xs p = Inr y"
      "(if x < y then and_then (swap_cells xs (p + 1) p) (\<lambda>xs. bubble_loop xs (p + 1) (p + 1) hi)
        else bubble_loop xs (p + 1) lst hi) = Inr (xs', l)"
      using "1.prems" by (auto simp: bubble_loop.simps [of xs p] and_then_eq_Inr_conv)
    show ?thesis
    proof (cases "x < y")
      case lt: True
      then obtain ys where y: "swap_cells xs (p + 1) p = Inr ys" "bubble_loop ys (p + 1) (p + 1) hi = Inr (xs', l)"
        using c(3) by (auto simp: and_then_eq_Inr_conv)
      then show ?thesis using "1.IH"(1) [OF True c(1,2) lt y] True by auto
    next
      case False
      then show ?thesis using "1.IH"(2) [OF True c(1,2) False] c(3) by simp
    qed
  qed
qed

lemma bubble_shrinks: "bubble xs lo hi = Inr (xs', hi') \<Longrightarrow> lo < hi' \<Longrightarrow> hi' < hi"
  by (auto simp: bubble_def dest: bubble_loop_last)

text \<open>\<open>while(lo < (hi = bubble(lo, hi)));\<close>\<close>

function bubbleSort :: "'a::linorder list \<Rightarrow> nat \<Rightarrow> nat \<Rightarrow> 'a list result" where
  "bubbleSort xs lo hi =
     and_then (bubble xs lo hi) (\<lambda>(xs, hi). if lo < hi then bubbleSort xs lo hi else Inr xs)"
  by pat_completeness auto
termination
  by (relation "measure (\<lambda>(xs, lo, hi). hi)") (auto dest: bubble_shrinks)

declare bubbleSort.simps [simp del]

text \<open>The merge into a new array, which is as long as what has been stored in it, and the copy back.\<close>

function merge_loop :: "'a::linorder list \<Rightarrow> nat \<Rightarrow> nat \<Rightarrow> nat \<Rightarrow> nat \<Rightarrow> 'a list \<Rightarrow> ('a list \<times> nat \<times> nat) result" where
  "merge_loop xs p1 mid p2 hi temp =
     (if p1 \<noteq> mid \<and> p2 \<noteq> hi then
        and_then (cell xs p1) (\<lambda>x.
        and_then (cell xs p2) (\<lambda>y.
          if x < y then merge_loop xs (p1 + 1) mid p2 hi (temp @ [x])
          else merge_loop xs p1 mid (p2 + 1) hi (temp @ [y])))
      else Inr (temp, p1, p2))"
  by pat_completeness auto
termination
  by (relation "measure (\<lambda>(xs, p1, mid, p2, hi, temp). (length xs - p1) + (length xs - p2))")
    (auto simp: cell_def split: if_splits)

declare merge_loop.simps [simp del]

function drain_loop :: "'a list \<Rightarrow> nat \<Rightarrow> nat \<Rightarrow> 'a list \<Rightarrow> 'a list result" where
  "drain_loop xs p en temp =
     (if p \<noteq> en then and_then (cell xs p) (\<lambda>x. drain_loop xs (p + 1) en (temp @ [x])) else Inr temp)"
  by pat_completeness auto
termination
  by (relation "measure (\<lambda>(xs, p, en, temp). length xs - p)") (auto simp: cell_def split: if_splits)

declare drain_loop.simps [simp del]

definition mv_merge :: "'a::linorder list \<Rightarrow> nat \<Rightarrow> nat \<Rightarrow> nat \<Rightarrow> 'a list result" where
  "mv_merge xs lo mid hi =
     and_then (merge_loop xs lo mid mid hi []) (\<lambda>(temp, p1, p2).
     and_then (if p1 = mid \<and> p2 \<noteq> hi then drain_loop xs p2 hi temp
               else if p1 \<noteq> mid \<and> p2 = hi then drain_loop xs p1 mid temp else Inr temp) (\<lambda>temp.
       if length temp = hi - lo then mem_write xs (int lo) temp else Inl Out_of_bounds))"

function mergeSort :: "'a::linorder list \<Rightarrow> nat \<Rightarrow> nat \<Rightarrow> 'a list result" where
  "mergeSort xs lo hi =
     (if hi - lo < 2 then Inr xs
      else
        let mid = lo + (hi - lo) div 2 in
        and_then (mergeSort xs lo mid) (\<lambda>xs.
        and_then (mergeSort xs mid hi) (\<lambda>xs. mv_merge xs lo mid hi)))"
  by pat_completeness auto
termination
  by (relation "measure (\<lambda>(xs, lo, hi). hi - lo)") auto

declare mergeSort.simps [simp del]

text \<open>\<open>operator<<\<close> with the elements' own printing as an argument.\<close>

definition mv_print :: "('a \<Rightarrow> string) \<Rightarrow> 'a m_vector \<Rightarrow> string result" where
  "mv_print print v =
     and_then (fold (\<lambda>i acc. and_then acc (\<lambda>s. and_then (m_vector_at v i) (\<lambda>x. Inr (s @ print x @ '' ''))))
                [0..<m_size v] (Inr []))
       (\<lambda>s. Inr (s @ [LF]))"

section \<open>Contents\<close>

definition mv_ok :: "'a m_vector \<Rightarrow> bool" where
  "mv_ok v \<longleftrightarrow>
     (case mv_vec v of None \<Rightarrow> False | Some xs \<Rightarrow> length xs = m_capcity v) \<and> m_size v \<le> m_capcity v \<and> m_size v < 2 ^ 63"

definition contents :: "'a m_vector \<Rightarrow> 'a list" where
  "contents v = (case mv_vec v of None \<Rightarrow> [] | Some xs \<Rightarrow> take (m_size v) xs)"

lemma mv_ok_cells:
  assumes "mv_ok v"
  obtains xs where "mv_vec v = Some xs" "cells v = Inr xs" "length xs = m_capcity v" "m_size v \<le> length xs"
    "contents v = take (m_size v) xs" "m_size v < 2 ^ 63"
  using assms by (auto simp: mv_ok_def cells_def contents_def split: option.splits)

lemma length_contents: "mv_ok v \<Longrightarrow> length (contents v) = m_size v"
  by (erule mv_ok_cells) simp

lemma mv_ok_stored:
  assumes "length ys = m_capcity v" and "n \<le> length ys" and "n < 2 ^ 63"
  shows "mv_ok (v\<lparr>m_size := n, mv_vec := Some ys\<rparr>)" "contents (v\<lparr>m_size := n, mv_vec := Some ys\<rparr>) = take n ys"
  using assms by (simp_all add: mv_ok_def contents_def)

text \<open>Making room for one more element.\<close>

lemma grow_ok:
  assumes "mv_ok v" and "0 < m_capcity v"
  shows "\<exists>v'. (if m_size v + 1 > m_capcity v then mv_reserve junk ((m_size v * 2) mod 2 ^ 64) v else Inr v) = Inr v' \<and>
    mv_ok v' \<and> contents v' = contents v \<and> m_size v' = m_size v \<and> m_size v < m_capcity v'"
  using assms(1)
proof (rule mv_ok_cells)
  fix xs assume v: "mv_vec v = Some xs" "cells v = Inr xs" "length xs = m_capcity v" "m_size v \<le> length xs"
    "contents v = take (m_size v) xs" "m_size v < 2 ^ 63"
  show ?thesis
  proof (cases "m_size v + 1 > m_capcity v")
    case True
    have "(m_size v * 2) mod 2 ^ 64 = m_size v * 2" using v(6) by simp
    then show ?thesis using True v assms(2) by (auto simp: mv_reserve_def mv_ok_def contents_def)
  next
    case False
    then show ?thesis using assms v by auto
  qed
qed

lemma push_back_ok:
  assumes "mv_ok v" and "0 < m_capcity v" and "m_size v + 1 < 2 ^ 63"
  shows "\<exists>v'. push_back junk x v = Inr v' \<and> mv_ok v' \<and> contents v' = contents v @ [x]"
proof -
  obtain v1 where g: "(if m_size v + 1 > m_capcity v then mv_reserve junk ((m_size v * 2) mod 2 ^ 64) v else Inr v) = Inr v1"
      "mv_ok v1" "contents v1 = contents v" "m_size v1 = m_size v" "m_size v < m_capcity v1"
    using grow_ok [OF assms(1,2)] by blast
  obtain xs where xs: "mv_vec v1 = Some xs" "cells v1 = Inr xs" "length xs = m_capcity v1" "contents v1 = take (m_size v1) xs"
    using g(2) by (rule mv_ok_cells)
  show ?thesis
    using g xs assms(3) mv_ok_stored [of "xs[m_size v := x]" v1 "m_size v + 1"]
    by (auto simp: push_back_def set_cell_ok take_Suc_conv_app_nth)
qed

lemma last_index_ok: "mv_ok v \<Longrightarrow> 0 < m_size v \<Longrightarrow> last_index v = m_size v - 1"
  by (rule last_index_less [of 0]) (auto simp: mv_ok_def)

lemma pop_back_ok:
  assumes "mv_ok v" and "0 < m_size v"
  shows "\<exists>v'. pop_back v = Inr v' \<and> mv_ok v' \<and> contents v' = butlast (contents v) \<and> mv_tail v = Inr (last (contents v))"
  using assms(1)
proof (rule mv_ok_cells)
  fix xs assume v: "mv_vec v = Some xs" "cells v = Inr xs" "length xs = m_capcity v" "m_size v \<le> length xs"
    "contents v = take (m_size v) xs" "m_size v < 2 ^ 63"
  have l: "last_index v = m_size v - 1" using assms by (rule last_index_ok)
  have "last (contents v) = xs ! (m_size v - 1)" using v(4,5) assms(2) by (subst last_conv_nth) auto
  then show ?thesis
    using v assms(2) l mv_ok_stored [of "xs[m_size v - 1 := 0]" v "m_size v - 1"]
    by (auto simp: pop_back_def mv_tail_def cells_ok butlast_take)
qed

lemma shift_up_ok:
  assumes "pos \<le> p" and "p < length xs"
  shows "\<exists>ys. shift_up xs pos p = Inr ys \<and> length ys = length xs \<and>
    (\<forall>k < length xs. ys ! k = (if pos < k \<and> k \<le> p then xs ! (k - 1) else xs ! k))"
  using assms
proof (induction p arbitrary: xs)
  case 0
  then show ?case by simp
next
  case (Suc p)
  show ?case
  proof (cases "Suc p = pos")
    case True
    then show ?thesis by (intro exI [of _ xs]) auto
  next
    case False
    let ?zs = "xs[Suc p := xs ! p]"
    obtain ys where ys: "shift_up ?zs pos p = Inr ys" "length ys = length ?zs"
        "\<forall>k < length ?zs. ys ! k = (if pos < k \<and> k \<le> p then ?zs ! (k - 1) else ?zs ! k)"
      using Suc.IH [of ?zs] Suc.prems False by auto
    have "ys ! k = (if pos < k \<and> k \<le> Suc p then xs ! (k - 1) else xs ! k)" if "k < length xs" for k
      using ys(3) that Suc.prems False by (auto simp: nth_list_update)
    then show ?thesis using ys(1,2) Suc.prems False by (simp add: cells_ok)
  qed
qed

lemma mv_insert_ok:
  assumes "mv_ok v" and "0 < m_capcity v" and "m_size v + 1 < 2 ^ 63" and "pos \<le> m_size v"
  shows "\<exists>v'. mv_insert junk pos x v = Inr v' \<and> mv_ok v' \<and>
    contents v' = take pos (contents v) @ x # drop pos (contents v)"
proof -
  obtain v1 where g: "(if m_size v + 1 > m_capcity v then mv_reserve junk ((m_size v * 2) mod 2 ^ 64) v else Inr v) = Inr v1"
      "mv_ok v1" "contents v1 = contents v" "m_size v1 = m_size v" "m_size v < m_capcity v1"
    using grow_ok [OF assms(1,2)] by blast
  obtain xs where xs: "mv_vec v1 = Some xs" "cells v1 = Inr xs" "length xs = m_capcity v1" "contents v1 = take (m_size v1) xs"
    using g(2) by (rule mv_ok_cells)
  obtain ys where ys: "shift_up xs pos (m_size v) = Inr ys" "length ys = length xs"
      "\<forall>k < length xs. ys ! k = (if pos < k \<and> k \<le> m_size v then xs ! (k - 1) else xs ! k)"
    using shift_up_ok [of pos "m_size v" xs] assms(4) g(5) xs(3) by auto
  have c: "contents v = take (m_size v) xs" using g(3,4) xs(4) by simp
  have "take (m_size v + 1) (ys[pos := x]) = take pos (contents v) @ x # drop pos (contents v)"
    using ys(2,3) g(5) xs(3) assms(4) unfolding c
    by (intro nth_equalityI) (auto simp: nth_append nth_list_update nth_Cons' min_absorb1 min_absorb2)
  then show ?thesis
    using g xs ys assms(3,4) mv_ok_stored [of "ys[pos := x]" v1 "m_size v + 1"]
    by (simp add: mv_insert_def set_cell_ok)
qed

lemma shift_down_ok:
  assumes "p \<le> fin" and "fin < length xs"
  shows "\<exists>ys. shift_down xs p fin = Inr ys \<and> length ys = length xs \<and>
    (\<forall>k < length xs. ys ! k = (if p \<le> k \<and> k < fin then xs ! (k + 1) else xs ! k))"
  using assms
proof (induction xs p fin rule: shift_down.induct)
  case (1 xs p fin)
  show ?case
  proof (cases "p = fin")
    case True
    then show ?thesis by (intro exI [of _ xs]) (auto simp: shift_down.simps [of xs fin])
  next
    case False
    let ?zs = "xs[p := xs ! (p + 1)]"
    have "cell xs (p + 1) = Inr (xs ! (p + 1))" "set_cell xs p (xs ! (p + 1)) = Inr ?zs"
      using 1 False by (simp_all add: cells_ok)
    then obtain ys where ys: "shift_down ?zs (p + 1) fin = Inr ys" "length ys = length xs"
        "\<forall>k < length xs. ys ! k = (if p + 1 \<le> k \<and> k < fin then ?zs ! (k + 1) else ?zs ! k)"
      using "1.IH" [OF False, of "xs ! (p + 1)" ?zs] "1.prems" False by auto
    have "ys ! k = (if p \<le> k \<and> k < fin then xs ! (k + 1) else xs ! k)" if "k < length xs" for k
      using ys(3) that "1.prems" False by (auto simp: nth_list_update)
    then show ?thesis using ys(1,2) "1.prems" False by (simp add: shift_down.simps [of xs p] cells_ok)
  qed
qed

lemma mv_remove_ok:
  assumes "mv_ok v" and "pos < m_size v"
  shows "\<exists>v'. mv_remove pos v = Inr (contents v ! pos, v') \<and> mv_ok v' \<and>
    contents v' = take pos (contents v) @ drop (pos + 1) (contents v)"
  using assms(1)
proof (rule mv_ok_cells)
  fix xs assume v: "mv_vec v = Some xs" "cells v = Inr xs" "length xs = m_capcity v" "m_size v \<le> length xs"
    "contents v = take (m_size v) xs" "m_size v < 2 ^ 63"
  have l: "last_index v = m_size v - 1" using assms by (intro last_index_ok) auto
  obtain ys where ys: "shift_down xs pos (m_size v - 1) = Inr ys" "length ys = length xs"
      "\<forall>k < length xs. ys ! k = (if pos \<le> k \<and> k < m_size v - 1 then xs ! (k + 1) else xs ! k)"
  proof -
    have "pos \<le> m_size v - 1" "m_size v - 1 < length xs" using assms(2) v(4) by auto
    from shift_down_ok [OF this] that show ?thesis by blast
  qed
  have "take (m_size v - 1) ys = take pos (contents v) @ drop (pos + 1) (contents v)"
    using ys(2,3) v(4) assms(2) unfolding v(5)
    by (intro nth_equalityI) (auto simp: nth_append min_absorb1 min_absorb2)
  then show ?thesis
    using v ys assms(2) l mv_ok_stored [of ys v "m_size v - 1"] by (auto simp: mv_remove_def cell_ok)
qed

lemma erase_loop_ok:
  assumes "l < r" and "r \<le> en" and "en \<le> length xs"
  shows "\<exists>ys. erase_loop xs l r en = Inr (ys, l + (en - r), en) \<and> length ys = length xs \<and>
    (\<forall>k < length xs. ys ! k = (if l \<le> k \<and> k < l + (en - r) then xs ! (k + (r - l)) else xs ! k))"
  using assms
proof (induction xs l r en rule: erase_loop.induct)
  case (1 xs l r en)
  show ?case
  proof (cases "r = en")
    case True
    then show ?thesis by (intro exI [of _ xs]) (auto simp: erase_loop.simps [of xs l en])
  next
    case False
    let ?zs = "xs[l := xs ! r]"
    have c: "cell xs r = Inr (xs ! r)" "set_cell xs l (xs ! r) = Inr ?zs"
      using "1.prems" False by (simp_all add: cells_ok)
    obtain ys where ys: "erase_loop ?zs (l + 1) (r + 1) en = Inr (ys, l + 1 + (en - (r + 1)), en)" "length ys = length xs"
        "\<forall>k < length xs. ys ! k = (if l + 1 \<le> k \<and> k < l + 1 + (en - (r + 1)) then ?zs ! (k + (r + 1 - (l + 1))) else ?zs ! k)"
      using "1.IH" [OF False c] "1.prems" False by auto
    have "ys ! k = (if l \<le> k \<and> k < l + (en - r) then xs ! (k + (r - l)) else xs ! k)" if "k < length xs" for k
      using ys(3) that "1.prems" False by (auto simp: nth_list_update)
    moreover have "l + 1 + (en - (r + 1)) = l + (en - r)" using "1.prems" False by simp
    ultimately show ?thesis using ys(1,2) c False by (simp add: erase_loop.simps [of xs l r])
  qed
qed

lemma mv_erase_ok:
  assumes "mv_ok v" and "l < r" and "r \<le> m_size v"
  shows "\<exists>v'. mv_erase l r v = Inr v' \<and> mv_ok v' \<and> contents v' = take l (contents v) @ drop r (contents v)"
  using assms(1)
proof (rule mv_ok_cells)
  fix xs assume v: "mv_vec v = Some xs" "cells v = Inr xs" "length xs = m_capcity v" "m_size v \<le> length xs"
    "contents v = take (m_size v) xs" "m_size v < 2 ^ 63"
  let ?n = "m_size v - (r - l)"
  obtain ys where ys: "erase_loop xs l r (m_size v) = Inr (ys, l + (m_size v - r), m_size v)" "length ys = length xs"
      "\<forall>k < length xs. ys ! k = (if l \<le> k \<and> k < l + (m_size v - r) then xs ! (k + (r - l)) else xs ! k)"
    using erase_loop_ok [of l r "m_size v" xs] assms(2,3) v(4) by auto
  have "to_size_t (int (m_size v) + (int l - int r)) = ?n"
    using assms(2,3) v(6) by (subst to_size_t_id) auto
  moreover have "take ?n ys = take l (contents v) @ drop r (contents v)"
    using ys(2,3) v(4) assms(2,3) unfolding v(5)
    by (intro nth_equalityI) (auto simp: nth_append min_absorb1 min_absorb2 add.commute)
  ultimately show ?thesis
    using v ys assms(2,3) mv_ok_stored [of ys v ?n] by (auto simp: mv_erase_def)
qed

section \<open>Duplicates\<close>

text \<open>\<open>find\<close> gives the first cell that holds the element, or the end.\<close>

lemma find_range_ok:
  assumes "p \<le> en" and "en \<le> length xs"
  shows "\<exists>i. find_range xs e p en = Inr i \<and> p \<le> i \<and> i \<le> en \<and> (i < en \<longrightarrow> xs ! i = e) \<and>
    (\<forall>k. p \<le> k \<and> k < i \<longrightarrow> xs ! k \<noteq> e)"
  using assms
proof (induction xs e p en rule: find_range.induct)
  case (1 xs e p en)
  show ?case
  proof (cases "p = en")
    case True
    then show ?thesis by (auto simp: find_range.simps [of xs e en])
  next
    case False
    then have c: "cell xs p = Inr (xs ! p)" using "1.prems" by (simp add: cell_ok)
    show ?thesis
    proof (cases "xs ! p = e")
      case True
      then show ?thesis using False c "1.prems" by (auto simp: find_range.simps [of xs e p])
    next
      case ne: False
      obtain i where "find_range xs e (p + 1) en = Inr i" "p + 1 \<le> i" "i \<le> en" "i < en \<longrightarrow> xs ! i = e"
          "\<forall>k. p + 1 \<le> k \<and> k < i \<longrightarrow> xs ! k \<noteq> e"
        using "1.IH" [OF False c ne] "1.prems" False by auto
      then show ?thesis using False c ne
        by (intro exI [of _ i]) (auto simp: find_range.simps [of xs e p] le_less_Suc_eq nat_less_le Suc_le_eq)
    qed
  qed
qed

text \<open>The elements of a list at their first positions.\<close>

function firsts :: "'a list \<Rightarrow> 'a list" where
  "firsts [] = []"
| "firsts (x # xs) = x # firsts (filter (\<lambda>y. y \<noteq> x) xs)"
  by pat_completeness auto
termination
  by (relation "measure length") (auto simp: le_imp_less_Suc)

lemma remdups_snoc: "remdups (xs @ [x]) = remdups (filter (\<lambda>y. y \<noteq> x) xs) @ [x]"
  by (induction xs) auto

lemma firsts_remdups: "firsts xs = rev (remdups (rev xs))"
  by (induction xs rule: firsts.induct) (simp_all add: remdups_snoc rev_filter)

lemma dedup_inner_ok:
  assumes "mv_ok v" and "i < j" and "j \<le> m_size v"
  shows "\<exists>v'. dedup_inner i j v = Inr v' \<and> mv_ok v' \<and>
    contents v' = take j (contents v) @ filter (\<lambda>y. y \<noteq> contents v ! i) (drop j (contents v))"
  using assms
proof (induction i j v rule: dedup_inner.induct)
  case (1 i j v)
  obtain xs where v: "cells v = Inr xs" "m_size v \<le> length xs" "contents v = take (m_size v) xs"
    using "1.prems"(1) by (rule mv_ok_cells)
  note len = length_contents [OF "1.prems"(1)]
  show ?case
  proof (cases "j < m_size v")
    case False
    then show ?thesis using "1.prems" len by (intro exI [of _ v]) (simp add: dedup_inner.simps [of i _ v])
  next
    case True
    have c: "cell xs j = Inr (contents v ! j)" "cell xs i = Inr (contents v ! i)"
      using True "1.prems"(2) v by (simp_all add: cell_ok)
    have d: "drop j (contents v) = contents v ! j # drop (j + 1) (contents v)"
      using True len by (simp add: Cons_nth_drop_Suc)
    show ?thesis
    proof (cases "contents v ! j = contents v ! i")
      case eq: True
      obtain v1 where v1: "mv_remove j v = Inr (contents v ! j, v1)" "mv_ok v1"
          "contents v1 = take j (contents v) @ drop (j + 1) (contents v)"
        using mv_remove_ok [OF "1.prems"(1) True] by blast
      have "j \<le> m_size v1" using length_contents [OF v1(2)] v1(3) len True by simp
      then obtain v' where "dedup_inner i j v1 = Inr v'" "mv_ok v'"
          "contents v' = take j (contents v1) @ filter (\<lambda>y. y \<noteq> contents v1 ! i) (drop j (contents v1))"
        using "1.IH"(1) [OF True v(1) c eq v1(1) refl v1(2) "1.prems"(2)] by blast
      then show ?thesis using v1 v c True eq d len "1.prems"(2)
        by (simp add: dedup_inner.simps [of i j v] nth_append)
    next
      case False
      obtain v' where "dedup_inner i (j + 1) v = Inr v'" "mv_ok v'"
          "contents v' = take (j + 1) (contents v) @ filter (\<lambda>y. y \<noteq> contents v ! i) (drop (j + 1) (contents v))"
        using "1.IH"(2) [OF True v(1) c False "1.prems"(1)] "1.prems" True by auto
      then show ?thesis using v c True False d len
        by (simp add: dedup_inner.simps [of i j v] take_Suc_conv_app_nth)
    qed
  qed
qed

lemma dedup_outer_ok:
  assumes "mv_ok v" and "i \<le> m_size v"
  shows "\<exists>v'. dedup_outer i v = Inr v' \<and> mv_ok v' \<and>
    contents v' = take i (contents v) @ firsts (drop i (contents v))"
  using assms
proof (induction i v rule: dedup_outer.induct)
  case (1 i v)
  note len = length_contents [OF "1.prems"(1)]
  show ?case
  proof (cases "i < m_size v")
    case False
    then show ?thesis using "1.prems" len by (intro exI [of _ v]) (simp add: dedup_outer.simps [of _ v])
  next
    case True
    then obtain v1 where v1: "dedup_inner i (i + 1) v = Inr v1" "mv_ok v1"
        "contents v1 = take (i + 1) (contents v) @ filter (\<lambda>y. y \<noteq> contents v ! i) (drop (i + 1) (contents v))"
      using dedup_inner_ok [OF "1.prems"(1), of i "i + 1"] by auto
    have "i + 1 \<le> m_size v1" using length_contents [OF v1(2)] v1(3) len True by simp
    then obtain v' where "dedup_outer (i + 1) v1 = Inr v'" "mv_ok v'"
        "contents v' = take (i + 1) (contents v1) @ firsts (drop (i + 1) (contents v1))"
      using "1.IH" [OF True v1(1,2)] by auto
    moreover have "drop i (contents v) = contents v ! i # drop (i + 1) (contents v)"
      using True len by (simp add: Cons_nth_drop_Suc)
    ultimately show ?thesis using v1 True len
      by (simp add: dedup_outer.simps [of i v] take_Suc_conv_app_nth)
  qed
qed

lemma deduplicate_ok:
  assumes "mv_ok v" and "m_size v < 2 ^ 31"
  shows "\<exists>v'. deduplicate v = Inr (int (length (contents v)) - int (length (contents v')), v') \<and> mv_ok v' \<and>
    contents v' = rev (remdups (rev (contents v)))"
proof -
  obtain v' where v': "dedup_outer 0 v = Inr v'" "mv_ok v'" "contents v' = firsts (contents v)"
    using dedup_outer_ok [OF assms(1), of 0] by auto
  have "length (contents v') \<le> length (contents v)"
    using length_remdups_leq [of "rev (contents v)"] by (simp add: v'(3) firsts_remdups)
  then have "to_int32 (int (m_size v) - int (m_size v')) = int (m_size v) - int (m_size v')"
    using assms length_contents [OF assms(1)] length_contents [OF v'(2)] by (intro to_int32_id) auto
  then show ?thesis using v' length_contents [OF assms(1)] length_contents [OF v'(2)]
    by (auto simp: deduplicate_def firsts_remdups)
qed

text \<open>\<open>unique\<close> keeps one element of every run of equal ones.\<close>

lemma unique_loop_ok:
  assumes "i \<le> j" and "j < n" and "n \<le> length xs"
  shows "\<exists>ys i'. unique_loop xs i j n = Inr (ys, i') \<and> length ys = length xs \<and> i' < n \<and>
    take (i' + 1) ys = take i xs @ remdups_adj (xs ! i # take (n - (j + 1)) (drop (j + 1) xs))"
  using assms
proof (induction xs i j n rule: unique_loop.induct)
  case (1 xs i j n)
  show ?case
  proof (cases "j + 1 < n")
    case False
    then have "n - (j + 1) = 0" by simp
    then show ?thesis using False "1.prems"
      by (intro exI [of _ xs] exI [of _ i]) (simp add: unique_loop.simps [of xs i j] take_Suc_conv_app_nth)
  next
    case True
    have c: "cell xs i = Inr (xs ! i)" "cell xs (j + 1) = Inr (xs ! (j + 1))"
      using True "1.prems" by (simp_all add: cell_ok)
    have d: "take (n - (j + 1)) (drop (j + 1) xs) = xs ! (j + 1) # take (n - (j + 2)) (drop (j + 2) xs)"
      using True "1.prems"(3) by (simp add: Cons_nth_drop_Suc [symmetric] take_Cons' Suc_diff_Suc)
    show ?thesis
    proof (cases "xs ! i = xs ! (j + 1)")
      case eq: True
      then show ?thesis
        using "1.IH"(2) [OF True c] True "1.prems" c d by (auto simp: unique_loop.simps [of xs i j])
    next
      case ne: False
      let ?zs = "xs[i + 1 := xs ! (j + 1)]"
      have s: "set_cell xs (i + 1) (xs ! (j + 1)) = Inr ?zs" using True "1.prems" by (simp add: set_cell_ok)
      obtain ys i' where ys: "unique_loop ?zs (i + 1) (j + 1) n = Inr (ys, i')" "length ys = length xs" "i' < n"
          "take (i' + 1) ys = take (i + 1) ?zs @ remdups_adj (?zs ! (i + 1) # take (n - (j + 2)) (drop (j + 2) ?zs))"
        using "1.IH"(1) [OF True c ne s] True "1.prems" by auto
      have "take (i + 1) ?zs = take i xs @ [xs ! i]" using "1.prems" True by (simp add: take_Suc_conv_app_nth)
      moreover have "?zs ! (i + 1) = xs ! (j + 1)" using "1.prems" True by simp
      moreover have "drop (j + 2) ?zs = drop (j + 2) xs" using "1.prems" by (simp add: drop_update_cancel)
      ultimately have "take (i' + 1) ys = take i xs @ remdups_adj (xs ! i # take (n - (j + 1)) (drop (j + 1) xs))"
        using ys(4) ne d by simp
      then show ?thesis using ys(1-3) True c s ne by (auto simp: unique_loop.simps [of xs i j])
    qed
  qed
qed

lemma mv_unique_ok:
  assumes "mv_ok v" and "0 < m_size v"
  shows "\<exists>v'. mv_unique v = Inr v' \<and> mv_ok v' \<and> contents v' = remdups_adj (contents v)"
  using assms(1)
proof (rule mv_ok_cells)
  fix xs assume v: "mv_vec v = Some xs" "cells v = Inr xs" "length xs = m_capcity v" "m_size v \<le> length xs"
    "contents v = take (m_size v) xs" "m_size v < 2 ^ 63"
  obtain ys i where ys: "unique_loop xs 0 0 (m_size v) = Inr (ys, i)" "length ys = length xs" "i < m_size v"
      "take (i + 1) ys = remdups_adj (xs ! 0 # take (m_size v - 1) (drop 1 xs))"
    using unique_loop_ok [of 0 0 "m_size v" xs] assms(2) v(4) by auto
  have "xs ! 0 # take (m_size v - 1) (drop 1 xs) = contents v"
    using assms(2) v(4,5) by (cases xs; cases "m_size v") auto
  then show ?thesis using ys v mv_ok_stored [of ys v "i + 1"] by (auto simp: mv_unique_def)
qed

section \<open>Searching\<close>

text \<open>What a search in the range \<open>lo\<close> to \<open>hi\<close> has to return.\<close>

definition found_in :: "'a list \<Rightarrow> 'a \<Rightarrow> nat \<Rightarrow> nat \<Rightarrow> nat option \<Rightarrow> bool" where
  "found_in xs e lo hi r \<longleftrightarrow>
     (case r of Some m \<Rightarrow> lo \<le> m \<and> m < hi \<and> xs ! m = e | None \<Rightarrow> \<forall>k. lo \<le> k \<and> k < hi \<longrightarrow> xs ! k \<noteq> e)"

definition sorted_range :: "'a::linorder list \<Rightarrow> nat \<Rightarrow> nat \<Rightarrow> bool" where
  "sorted_range xs lo hi \<longleftrightarrow> (\<forall>i j. lo \<le> i \<and> i \<le> j \<and> j < hi \<longrightarrow> xs ! i \<le> xs ! j)"

lemma sorted_range_one: "sorted_range xs a (a + 1)"
  unfolding sorted_range_def
proof (intro allI impI)
  fix i j assume "a \<le> i \<and> i \<le> j \<and> j < a + 1"
  then have "i = j" by simp
  then show "xs ! i \<le> xs ! j" by simp
qed

text \<open>Both searches narrow the range around a pivot.\<close>

lemma narrow_right:
  assumes "sorted_range xs lo hi" and "lo \<le> m" and "m < hi" and "xs ! m < e"
  shows "sorted_range xs (m + 1) hi" "found_in xs e (m + 1) hi r \<Longrightarrow> found_in xs e lo hi r"
proof -
  show "sorted_range xs (m + 1) hi" using assms(1,2) unfolding sorted_range_def by force
  have "xs ! k \<noteq> e" if "lo \<le> k" "k \<le> m" for k
    using assms that unfolding sorted_range_def by (metis leD)
  then show "found_in xs e (m + 1) hi r \<Longrightarrow> found_in xs e lo hi r"
    using assms(2) by (fastforce simp: found_in_def Suc_le_eq not_le split: option.splits)
qed

lemma narrow_left:
  assumes "sorted_range xs lo hi" and "lo \<le> m" and "m < hi" and "e < xs ! m"
  shows "sorted_range xs lo m" "found_in xs e lo m r \<Longrightarrow> found_in xs e lo hi r"
proof -
  show "sorted_range xs lo m" using assms(1,3) unfolding sorted_range_def by (meson less_trans)
  have "xs ! k \<noteq> e" if "m \<le> k" "k < hi" for k
    using assms that unfolding sorted_range_def by (metis leD)
  then show "found_in xs e lo m r \<Longrightarrow> found_in xs e lo hi r"
    using assms(3) by (fastforce simp: found_in_def not_le split: option.splits)
qed

lemma search_loop_ok:
  assumes "sorted_range xs lo hi" and "hi \<le> length xs"
  shows "\<exists>r. search_loop xs e lo hi = Inr r \<and> found_in xs e lo hi r"
  using assms
proof (induction xs e lo hi rule: search_loop.induct)
  case (1 xs e lo hi)
  show ?case
  proof (cases "lo < hi")
    case False
    then show ?thesis by (auto simp: search_loop.simps [of xs e lo] found_in_def)
  next
    case True
    define m where "m = lo + (hi - lo) div 2"
    have m: "lo \<le> m" "m < hi" using True by (auto simp: m_def)
    have c: "cell xs m = Inr (xs ! m)" using m "1.prems"(2) by (simp add: cell_ok)
    have step: "search_loop xs e lo hi =
        (if xs ! m < e then search_loop xs e (m + 1) hi
         else if e < xs ! m then search_loop xs e lo m else Inr (Some m))"
      using True c by (simp add: search_loop.simps [of xs e lo hi] m_def Let_def)
    consider "xs ! m < e" | "e < xs ! m" | "xs ! m = e" by fastforce
    then show ?thesis
    proof cases
      case lt: 1
      note n = narrow_right [OF "1.prems"(1) m lt]
      show ?thesis using "1.IH"(1) [OF True m_def c lt n(1) "1.prems"(2)] n(2) step lt by auto
    next
      case gt: 2
      note n = narrow_left [OF "1.prems"(1) m gt]
      then show ?thesis using "1.IH"(2) [OF True m_def c _ gt n(1)] n(2) step gt m "1.prems"(2) by fastforce
    next
      case 3
      then show ?thesis using step m by (simp add: found_in_def)
    qed
  qed
qed

text \<open>Pairs of neighbouring Fibonacci numbers, and stepping back from one until it fits.\<close>

inductive fib_pair :: "int \<Rightarrow> int \<Rightarrow> bool" where
  start: "fib_pair 1 0"
| up: "fib_pair f g \<Longrightarrow> fib_pair g (g + f)"

inductive_cases fib_pairE: "fib_pair f g"

lemma fib_pair_bounds: "fib_pair f g \<Longrightarrow> 0 \<le> f \<and> 0 \<le> g \<and> 0 < f + g"
  by (induction rule: fib_pair.induct) auto

lemma fib_pair_back:
  assumes "fib_pair f g" and "1 < g"
  shows "fib_pair (g - f) f" and "0 < f"
proof -
  obtain f0 where "fib_pair f0 f" "g = f + f0" using assms by (auto elim: fib_pairE)
  then show "fib_pair (g - f) f" by simp
  show "0 < f"
  proof (rule ccontr)
    assume "\<not> 0 < f"
    then have "f = 0" using fib_pair_bounds [OF assms(1)] by simp
    then have "fib_pair f0 0" "1 < f0" using \<open>fib_pair f0 f\<close> \<open>g = f + f0\<close> assms(2) by auto
    then show False
    proof (induction f0 "0 :: int" rule: fib_pair.induct)
      case (up f g)
      then show ?case using fib_pair_bounds [OF up(1)] by simp
    qed simp
  qed
qed

lemma fib_pair_zero: "fib_pair f 0 \<Longrightarrow> f = 1" "fib_pair 0 g \<Longrightarrow> g = 1"
proof -
  show *: "fib_pair f 0 \<Longrightarrow> f = 1" for f
    by (erule fib_pair.cases) (use fib_pair_bounds in force)+
  show "fib_pair 0 g \<Longrightarrow> g = 1"
    by (erule fib_pair.cases) (use * in auto)
qed

lemma fib_pair_smaller:
  assumes "fib_pair f g" and "1 < g"
  shows "f < g"
proof -
  obtain f0 where "fib_pair f0 f" "g = f + f0" using assms by (auto elim: fib_pairE)
  moreover have "f0 \<noteq> 0" using calculation fib_pair_zero(2) [of f] assms(2) by auto
  ultimately show ?thesis using fib_pair_bounds [of f0 f] by simp
qed

lemma fib_pair_le: "fib_pair f g \<Longrightarrow> f \<le> g + 1"
  by (erule fib_pair.cases) (auto dest: fib_pair_bounds)

lemma fib_shrink_ok:
  assumes "fib_pair (fib_f s) (fib_g s)" and "1 \<le> n" and "1 \<le> fib_g s"
  shows "\<exists>s'. fib_shrink n s = Some s' \<and> fib_pair (fib_f s') (fib_g s') \<and> 1 \<le> fib_g s' \<and> fib_g s' \<le> n"
  using assms
proof (induction "nat (fib_g s)" arbitrary: s rule: less_induct)
  case less
  show ?case
  proof (cases "n < fib_g s")
    case False
    then show ?thesis using less.prems by (simp add: fib_shrink.simps [of n s])
  next
    case True
    let ?t = "fib_prev s"
    have g: "1 < fib_g s" using True less.prems(2) by simp
    have t: "fib_f ?t = fib_g s - fib_f s" "fib_g ?t = fib_f s" by (simp_all add: fib_prev_def)
    have "\<exists>s'. fib_shrink n ?t = Some s' \<and> fib_pair (fib_f s') (fib_g s') \<and> 1 \<le> fib_g s' \<and> fib_g s' \<le> n"
      using fib_pair_back [OF less.prems(1) g] fib_pair_smaller [OF less.prems(1) g] less.prems(2)
      by (intro less.hyps) (simp_all add: t)
    then show ?thesis using True by (simp add: fib_shrink.simps [of n s])
  qed
qed

lemma Fib_loop_ok:
  assumes "fib_pair (fib_f s) (fib_g s)" and "n \<le> 2 ^ 30"
  shows "\<exists>s'. Fib_loop n s = Some (Inr s') \<and> fib_pair (fib_f s') (fib_g s') \<and> n \<le> fib_g s'"
  using assms(1)
proof (induction "nat (3 * n + 3 - (fib_f s + 2 * fib_g s))" arbitrary: s rule: less_induct)
  case less
  show ?case
  proof (cases "fib_g s < n")
    case False
    then show ?thesis using less.prems by (simp add: Fib_loop.simps [of n s])
  next
    case True
    note b = fib_pair_bounds [OF less.prems] fib_pair_le [OF less.prems]
    let ?t = "\<lparr>fib_f = fib_g s, fib_g = fib_g s + fib_f s\<rparr>"
    have nx: "fib_next s = Inr ?t" using True b assms(2) by (simp add: fib_next_def)
    have "\<exists>s'. Fib_loop n ?t = Some (Inr s') \<and> fib_pair (fib_f s') (fib_g s') \<and> n \<le> fib_g s'"
      using True b fib_pair.up [OF less.prems] by (intro less.hyps) auto
    then show ?thesis using True nx by (simp add: Fib_loop.simps [of n s])
  qed
qed

lemma fibsearch_loop_ok:
  assumes "sorted_range xs lo hi" and "hi \<le> length xs" and "fib_pair (fib_f s) (fib_g s)" and "lo < hi \<longrightarrow> 1 \<le> fib_g s"
  shows "\<exists>r. fibsearch_loop xs e (int lo) (int hi) s = Some (Inr (map_option int r)) \<and> found_in xs e lo hi r"
  using assms
proof (induction "hi - lo" arbitrary: lo hi s rule: less_induct)
  case less
  show ?case
  proof (cases "lo < hi")
    case False
    then show ?thesis by (intro exI [of _ None]) (auto simp: fibsearch_loop.simps [of xs e "int lo"] found_in_def)
  next
    case True
    obtain t where t: "fib_shrink (int hi - int lo) s = Some t" "fib_pair (fib_f t) (fib_g t)" "1 \<le> fib_g t"
        "fib_g t \<le> int hi - int lo"
      using fib_shrink_ok [OF less.prems(3), of "int hi - int lo"] less.prems(4) True by auto
    define m where "m = nat (int lo + fib_g t - 1)"
    have m: "lo \<le> m" "m < hi" "int lo + fib_g t - 1 = int m" using t(3,4) by (auto simp: m_def)
    have step: "fibsearch_loop xs e (int lo) (int hi) s =
        (if xs ! m < e then fibsearch_loop xs e (int (m + 1)) (int hi) t
         else if e < xs ! m then fibsearch_loop xs e (int lo) (int m) t else Some (Inr (Some (int m))))"
      using True t(1) m less.prems(2)
      by (simp add: fibsearch_loop.simps [of xs e "int lo" "int hi" s] cell_ok add.commute)
    consider "xs ! m < e" | "e < xs ! m" | "xs ! m = e" by fastforce
    then show ?thesis
    proof cases
      case 1
      note n = narrow_right [OF less.prems(1) m(1,2) 1]
      have "\<exists>r. fibsearch_loop xs e (int (m + 1)) (int hi) t = Some (Inr (map_option int r)) \<and> found_in xs e (m + 1) hi r"
        using m t n(1) less.prems(2) True by (intro less.hyps) auto
      then show ?thesis using step 1 n(2) by auto
    next
      case 2
      note n = narrow_left [OF less.prems(1) m(1,2) 2]
      have "\<exists>r. fibsearch_loop xs e (int lo) (int m) t = Some (Inr (map_option int r)) \<and> found_in xs e lo m r"
        using m t n(1) less.prems(2) True by (intro less.hyps) auto
      then show ?thesis using step 2 n(2) by auto
    next
      case 3
      then show ?thesis using step m by (intro exI [of _ "Some m"]) (simp add: found_in_def)
    qed
  qed
qed

section \<open>Sorting\<close>

definition slice :: "'a list \<Rightarrow> nat \<Rightarrow> nat \<Rightarrow> 'a list" where
  "slice xs a b = take (b - a) (drop a xs)"

lemma length_slice [simp]: "b \<le> length xs \<Longrightarrow> length (slice xs a b) = b - a"
  by (auto simp: slice_def)

lemma nth_slice: "i < b - a \<Longrightarrow> b \<le> length xs \<Longrightarrow> slice xs a b ! i = xs ! (a + i)"
  by (simp add: slice_def)

lemma slice_split: "a \<le> b \<Longrightarrow> b \<le> length xs \<Longrightarrow> xs = take a xs @ slice xs a b @ drop b xs"
  unfolding slice_def by (metis append_take_drop_id drop_drop le_add_diff_inverse2)

lemma sorted_range_slice: "a \<le> b \<Longrightarrow> b \<le> length xs \<Longrightarrow> sorted_range xs a b \<longleftrightarrow> sorted (slice xs a b)"
proof
  assume *: "a \<le> b" "b \<le> length xs"
  show "sorted_range xs a b \<Longrightarrow> sorted (slice xs a b)"
    using * by (auto simp: sorted_range_def sorted_iff_nth_mono nth_slice)
  assume s: "sorted (slice xs a b)"
  show "sorted_range xs a b" unfolding sorted_range_def
  proof (intro allI impI)
    fix i j assume "a \<le> i \<and> i \<le> j \<and> j < b"
    then show "xs ! i \<le> xs ! j"
      using sorted_nth_mono [OF s, of "i - a" "j - a"] * by (auto simp: nth_slice diff_le_mono diff_less_mono)
  qed
qed

lemma set_slice: "b \<le> length xs \<Longrightarrow> x \<in> set (slice xs a b) \<longleftrightarrow> (\<exists>k. a \<le> k \<and> k < b \<and> xs ! k = x)"
proof
  assume b: "b \<le> length xs"
  show "x \<in> set (slice xs a b) \<Longrightarrow> \<exists>k. a \<le> k \<and> k < b \<and> xs ! k = x"
  proof -
    assume "x \<in> set (slice xs a b)"
    then obtain i where "i < b - a" "x = xs ! (a + i)" using b by (auto simp: in_set_conv_nth nth_slice)
    then show ?thesis by (intro exI [of _ "a + i"]) auto
  qed
  show "\<exists>k. a \<le> k \<and> k < b \<and> xs ! k = x \<Longrightarrow> x \<in> set (slice xs a b)"
  proof -
    assume "\<exists>k. a \<le> k \<and> k < b \<and> xs ! k = x"
    then obtain k where "a \<le> k" "k < b" "xs ! k = x" by blast
    then show ?thesis using b nth_slice [of "k - a" b a xs] by (auto simp: in_set_conv_nth intro!: exI [of _ "k - a"])
  qed
qed

text \<open>Rearranging a range and nothing else.\<close>

definition permuted :: "'a list \<Rightarrow> 'a list \<Rightarrow> nat \<Rightarrow> nat \<Rightarrow> bool" where
  "permuted xs ys a b \<longleftrightarrow>
     length ys = length xs \<and> take a ys = take a xs \<and> drop b ys = drop b xs \<and> mset (slice ys a b) = mset (slice xs a b)"

lemma permuted_refl: "permuted xs xs a b"
  by (simp add: permuted_def)

lemma permuted_trans: "permuted xs ys a b \<Longrightarrow> permuted ys zs a b \<Longrightarrow> permuted xs zs a b"
  by (simp add: permuted_def)

lemma permuted_nth:
  assumes "permuted xs ys a b" and "k < length xs" and "k < a \<or> b \<le> k"
  shows "ys ! k = xs ! k"
proof (cases "k < a")
  case True
  then show ?thesis using assms(1) by (metis nth_take permuted_def)
next
  case False
  then have "b \<le> k" "drop b ys ! (k - b) = drop b xs ! (k - b)" "length ys = length xs"
    using assms(1,3) by (simp_all add: permuted_def)
  then show ?thesis using assms(2) by simp
qed

lemma permuted_from:
  assumes "permuted xs ys a b" and "b \<le> length xs" and "a \<le> k" and "k < b"
  shows "\<exists>m. a \<le> m \<and> m < b \<and> ys ! k = xs ! m"
proof -
  have "length ys = length xs" "set (slice ys a b) = set (slice xs a b)"
    using assms(1) by (auto simp: permuted_def dest: mset_eq_setD)
  then show ?thesis using assms(2-4) set_slice [of b ys "ys ! k" a] set_slice [of b xs "ys ! k" a] by auto
qed

lemma permutedI:
  assumes "length ys = length xs" and "mset ys = mset xs" and "a \<le> b" and "b \<le> length xs"
    and "\<And>k. k < length xs \<Longrightarrow> k < a \<or> b \<le> k \<Longrightarrow> ys ! k = xs ! k"
  shows "permuted xs ys a b"
proof -
  have t: "take a ys = take a xs" "drop b ys = drop b xs"
    using assms by (auto intro!: nth_equalityI)
  have "mset (take a ys) + mset (slice ys a b) + mset (drop b ys) =
        mset (take a xs) + mset (slice xs a b) + mset (drop b xs)"
    using slice_split [of a b xs] slice_split [of a b ys] assms(1-4)
    by (metis mset_append union_assoc)
  then show ?thesis using t assms(1) by (simp add: permuted_def)
qed

lemma permuted_wider:
  assumes "permuted xs ys a b" and "a' \<le> a" and "a \<le> b" and "b \<le> b'" and "b' \<le> length xs"
  shows "permuted xs ys a' b'"
proof (rule permutedI)
  have l: "length ys = length xs" using assms(1) by (simp add: permuted_def)
  have "mset (take a ys @ slice ys a b @ drop b ys) = mset (take a xs @ slice xs a b @ drop b xs)"
    using assms(1) by (simp add: permuted_def)
  then show "mset ys = mset xs" using slice_split [of a b xs] slice_split [of a b ys] assms l by simp
  show "ys ! k = xs ! k" if "k < length xs" "k < a' \<or> b' \<le> k" for k
    using permuted_nth [OF assms(1), of k] that assms by auto
qed (use assms in \<open>auto simp: permuted_def\<close>)

lemma permuted_sorted:
  assumes "permuted xs ys a b" and "sorted_range ys a b" and "a \<le> b" and "b \<le> length xs"
  shows "ys = take a xs @ sort (slice xs a b) @ drop b xs"
proof -
  have "slice ys a b = sort (slice xs a b)"
    using assms by (intro properties_for_sort [symmetric]) (simp_all add: permuted_def sorted_range_slice)
  then show ?thesis using slice_split [of a b ys] assms by (simp add: permuted_def)
qed

lemma bubble_loop_ok:
  assumes "lo \<le> lst" "lst \<le> p" "p < hi" "hi \<le> length xs" "sorted_range xs lst (p + 1)"
    and "\<And>j k. lo \<le> j \<Longrightarrow> j < lst \<Longrightarrow> lst \<le> k \<Longrightarrow> k \<le> p \<Longrightarrow> xs ! j \<le> xs ! k"
  shows "\<exists>ys l. bubble_loop xs p lst hi = Inr (ys, l) \<and> permuted xs ys lo hi \<and> lo \<le> l \<and> l < hi \<and>
    sorted_range ys l hi \<and> (\<forall>j k. lo \<le> j \<and> j < l \<and> l \<le> k \<and> k < hi \<longrightarrow> ys ! j \<le> ys ! k)"
  using assms
proof (induction xs p lst hi rule: bubble_loop.induct)
  case (1 xs p lst hi)
  have le: "xs ! j \<le> xs ! p" if "lo \<le> j" "j \<le> p" for j
    using "1.prems"(2,5) "1.prems"(6) [of j p] that by (cases "j < lst") (auto simp: sorted_range_def)
  show ?case
  proof (cases "p + 1 < hi")
    case False
    then have "hi = p + 1" using "1.prems"(3) by simp
    then show ?thesis using "1.prems"
      by (intro exI [of _ xs] exI [of _ lst]) (auto simp: bubble_loop.simps [of xs p] permuted_refl)
  next
    case True
    then have c: "cell xs (p + 1) = Inr (xs ! (p + 1))" "cell xs p = Inr (xs ! p)"
      using "1.prems"(4) by (simp_all add: cell_ok)
    show ?thesis
    proof (cases "xs ! (p + 1) < xs ! p")
      case lt: True
      let ?zs = "list_swap xs (p + 1) p"
      have z: "swap_cells xs (p + 1) p = Inr ?zs" using True "1.prems"(4) by (simp add: swap_cells_ok)
      have nz: "?zs ! k = (if k = p + 1 then xs ! p else if k = p then xs ! (p + 1) else xs ! k)"
        if "k < length xs" for k
        using True "1.prems"(4) that by (simp add: nth_list_swap)
      have pm: "permuted xs ?zs lo hi"
        using True "1.prems"(1-4) nz by (intro permutedI) auto
      have "\<exists>ys l. bubble_loop ?zs (p + 1) (p + 1) hi = Inr (ys, l) \<and> permuted ?zs ys lo hi \<and> lo \<le> l \<and> l < hi \<and>
          sorted_range ys l hi \<and> (\<forall>j k. lo \<le> j \<and> j < l \<and> l \<le> k \<and> k < hi \<longrightarrow> ys ! j \<le> ys ! k)"
      proof (rule "1.IH"(1) [OF True c lt z])
        show "?zs ! j \<le> ?zs ! k" if "lo \<le> j" "j < p + 1" "p + 1 \<le> k" "k \<le> p + 1" for j k
          using that nz [of j] nz [of k] True "1.prems"(4) le [of j] lt by auto
      qed (use True "1.prems" sorted_range_one in auto)
      then show ?thesis using True c lt z permuted_trans [OF pm] by (auto simp: bubble_loop.simps [of xs p])
    next
      case False
      have "\<exists>ys l. bubble_loop xs (p + 1) lst hi = Inr (ys, l) \<and> permuted xs ys lo hi \<and> lo \<le> l \<and> l < hi \<and>
          sorted_range ys l hi \<and> (\<forall>j k. lo \<le> j \<and> j < l \<and> l \<le> k \<and> k < hi \<longrightarrow> ys ! j \<le> ys ! k)"
      proof (rule "1.IH"(2) [OF True c False])
        have e: "xs ! j \<le> xs ! (p + 1)" if "lo \<le> j" "j \<le> p" for j using le [OF that] False by simp
        show "sorted_range xs lst (p + 1 + 1)"
          unfolding sorted_range_def
        proof (intro allI impI)
          fix i j assume ij: "lst \<le> i \<and> i \<le> j \<and> j < p + 1 + 1"
          show "xs ! i \<le> xs ! j"
          proof (cases "j = p + 1")
            case True
            then have "i \<le> p \<or> i = j" using ij by linarith
            then show ?thesis using e [of i] ij "1.prems"(1) \<open>j = p + 1\<close> by auto
          next
            case False
            then show ?thesis using ij "1.prems"(5) by (simp add: sorted_range_def)
          qed
        qed
        show "xs ! j \<le> xs ! k" if "lo \<le> j" "j < lst" "lst \<le> k" "k \<le> p + 1" for j k
          using that "1.prems"(2) "1.prems"(6) [of j k] e [of j] by (cases "k = p + 1") auto
      qed (use True "1.prems" in auto)
      then show ?thesis using True c False by (auto simp: bubble_loop.simps [of xs p])
    qed
  qed
qed

lemma bubbleSort_ok:
  assumes "lo \<le> hi" and "hi \<le> length xs"
  shows "\<exists>ys. bubbleSort xs lo hi = Inr ys \<and> permuted xs ys lo hi \<and> sorted_range ys lo hi"
  using assms
proof (induction xs lo hi rule: bubbleSort.induct)
  case (1 xs lo hi)
  show ?case
  proof (cases "lo < hi")
    case False
    then have "bubble xs lo hi = Inr (xs, lo)" by (simp add: bubble_def bubble_loop.simps [of xs lo])
    then show ?thesis using False "1.prems"(1)
      by (auto simp: bubbleSort.simps [of xs] permuted_refl sorted_range_def)
  next
    case True
    obtain ys l where b: "bubble xs lo hi = Inr (ys, l)" "permuted xs ys lo hi" "lo \<le> l" "l < hi"
        "sorted_range ys l hi" "\<forall>j k. lo \<le> j \<and> j < l \<and> l \<le> k \<and> k < hi \<longrightarrow> ys ! j \<le> ys ! k"
    proof -
      from bubble_loop_ok [OF _ _ True "1.prems"(2) sorted_range_one, of lo] that show ?thesis
        by (auto simp: bubble_def)
    qed
    have len: "length ys = length xs" using b(2) by (simp add: permuted_def)
    show ?thesis
    proof (cases "lo < l")
      case False
      then have "l = lo" using b(3) by simp
      then show ?thesis using b by (intro exI [of _ ys]) (simp add: bubbleSort.simps [of xs lo hi])
    next
      case lt: True
      obtain zs where z: "bubbleSort ys lo l = Inr zs" "permuted ys zs lo l" "sorted_range zs lo l"
        using "1.IH" [OF b(1) refl lt] b(4) len "1.prems"(2) lt by auto
      have up: "zs ! k = ys ! k" if "l \<le> k" "k < length xs" for k
        using permuted_nth [OF z(2), of k] that len by simp
      have dn: "\<exists>m. lo \<le> m \<and> m < l \<and> zs ! k = ys ! m" if "lo \<le> k" "k < l" for k
        using permuted_from [OF z(2) _ that] len b(4) "1.prems"(2) by simp
      have "sorted_range zs lo hi" unfolding sorted_range_def
      proof (intro allI impI)
        fix i j assume ij: "lo \<le> i \<and> i \<le> j \<and> j < hi"
        consider "j < l" | "l \<le> i" | "i < l" "l \<le> j" by linarith
        then show "zs ! i \<le> zs ! j"
        proof cases
          case 1
          then show ?thesis using z(3) ij by (simp add: sorted_range_def)
        next
          case 2
          then show ?thesis using up [of i] up [of j] b(5) ij "1.prems"(2) by (simp add: sorted_range_def)
        next
          case 3
          then show ?thesis using dn [of i] up [of j] b(6) ij "1.prems"(2) by fastforce
        qed
      qed
      moreover have "permuted xs zs lo hi"
        using permuted_trans [OF b(2) permuted_wider [OF z(2), of lo hi]] b(3,4) len "1.prems"(2) by simp
      ultimately show ?thesis using b(1) lt z(1) by (auto simp: bubbleSort.simps [of xs lo hi])
    qed
  qed
qed

text \<open>Merging: the right element goes first when the two are equal.\<close>

fun mrg :: "'a::linorder list \<Rightarrow> 'a list \<Rightarrow> 'a list" where
  "mrg [] ys = ys"
| "mrg (x # xs) [] = x # xs"
| "mrg (x # xs) (y # ys) = (if x < y then x # mrg xs (y # ys) else y # mrg (x # xs) ys)"

lemma mset_mrg: "mset (mrg xs ys) = mset xs + mset ys"
  by (induction xs ys rule: mrg.induct) auto

lemma set_mrg: "set (mrg xs ys) = set xs \<union> set ys"
  using mset_mrg [of xs ys] by (metis set_mset_mset set_mset_union)

lemma sorted_mrg: "sorted xs \<Longrightarrow> sorted ys \<Longrightarrow> sorted (mrg xs ys)"
  by (induction xs ys rule: mrg.induct) (auto simp: set_mrg)

lemma slice_Cons: "a < b \<Longrightarrow> b \<le> length xs \<Longrightarrow> slice xs a b = xs ! a # slice xs (a + 1) b"
  by (simp add: slice_def Cons_nth_drop_Suc [symmetric] take_Cons' Suc_diff_Suc)

lemma slice_self [simp]: "slice xs a a = []"
  by (simp add: slice_def)

lemma drain_loop_ok:
  assumes "p \<le> en" and "en \<le> length xs"
  shows "drain_loop xs p en temp = Inr (temp @ slice xs p en)"
  using assms
proof (induction xs p en temp rule: drain_loop.induct)
  case (1 xs p en temp)
  show ?case
  proof (cases "p = en")
    case True
    then show ?thesis by (simp add: drain_loop.simps [of xs en])
  next
    case False
    then have c: "cell xs p = Inr (xs ! p)" using "1.prems" by (simp add: cell_ok)
    have "drain_loop xs (p + 1) en (temp @ [xs ! p]) = Inr ((temp @ [xs ! p]) @ slice xs (p + 1) en)"
      using "1.IH" [OF _ c] False "1.prems" by auto
    then show ?thesis using False c "1.prems" slice_Cons [of p en xs] by (simp add: drain_loop.simps [of xs p])
  qed
qed

lemma merge_loop_ok:
  assumes "p1 \<le> mid" "p2 \<le> hi" "mid \<le> length xs" "hi \<le> length xs"
  shows "\<exists>t q1 q2. merge_loop xs p1 mid p2 hi temp = Inr (t, q1, q2) \<and> q1 \<le> mid \<and> q2 \<le> hi \<and> (q1 = mid \<or> q2 = hi) \<and>
    t @ slice xs q1 mid @ slice xs q2 hi = temp @ mrg (slice xs p1 mid) (slice xs p2 hi)"
  using assms
proof (induction xs p1 mid p2 hi temp rule: merge_loop.induct)
  case (1 xs p1 mid p2 hi temp)
  show ?case
  proof (cases "p1 \<noteq> mid \<and> p2 \<noteq> hi")
    case False
    then have "slice xs p1 mid @ slice xs p2 hi = mrg (slice xs p1 mid) (slice xs p2 hi)"
      by (cases "slice xs p1 mid") auto
    then show ?thesis using False "1.prems"
      by (intro exI [of _ temp] exI [of _ p1] exI [of _ p2]) (auto simp: merge_loop.simps [of xs p1])
  next
    case True
    then have c: "cell xs p1 = Inr (xs ! p1)" "cell xs p2 = Inr (xs ! p2)" using "1.prems" by (simp_all add: cell_ok)
    have d: "slice xs p1 mid = xs ! p1 # slice xs (p1 + 1) mid" "slice xs p2 hi = xs ! p2 # slice xs (p2 + 1) hi"
      using True "1.prems" by (simp_all add: slice_Cons)
    show ?thesis
    proof (cases "xs ! p1 < xs ! p2")
      case lt: True
      then show ?thesis using "1.IH"(1) [OF True c lt] True "1.prems" c d
        by (auto simp: merge_loop.simps [of xs p1 mid p2])
    next
      case False
      then show ?thesis using "1.IH"(2) [OF True c False] True "1.prems" c d
        by (auto simp: merge_loop.simps [of xs p1 mid p2])
    qed
  qed
qed

lemma mv_merge_ok:
  assumes "lo \<le> mid" "mid \<le> hi" "hi \<le> length xs"
  shows "mv_merge xs lo mid hi = Inr (take lo xs @ mrg (slice xs lo mid) (slice xs mid hi) @ drop hi xs)"
proof -
  let ?m = "mrg (slice xs lo mid) (slice xs mid hi)"
  obtain t q1 q2 where l: "merge_loop xs lo mid mid hi [] = Inr (t, q1, q2)" "q1 \<le> mid" "q2 \<le> hi" "q1 = mid \<or> q2 = hi"
      "t @ slice xs q1 mid @ slice xs q2 hi = ?m"
    using merge_loop_ok [of lo mid mid hi xs "[]"] assms by auto
  have "(if q1 = mid \<and> q2 \<noteq> hi then drain_loop xs q2 hi t else if q1 \<noteq> mid \<and> q2 = hi then drain_loop xs q1 mid t else Inr t) = Inr ?m"
    using l(2-5) assms by (auto simp: drain_loop_ok)
  moreover have "length ?m = hi - lo"
    using arg_cong [OF mset_mrg [of "slice xs lo mid" "slice xs mid hi"], of size] assms by simp
  ultimately show ?thesis using l(1) assms by (simp add: mv_merge_def mem_write_def)
qed

lemma mergeSort_ok:
  assumes "lo \<le> hi" and "hi \<le> length xs"
  shows "\<exists>ys. mergeSort xs lo hi = Inr ys \<and> permuted xs ys lo hi \<and> sorted_range ys lo hi"
  using assms
proof (induction xs lo hi rule: mergeSort.induct)
  case (1 xs lo hi)
  show ?case
  proof (cases "hi - lo < 2")
    case True
    then have "hi = lo \<or> hi = lo + 1" using "1.prems"(1) by auto
    then have "sorted_range xs lo hi" using sorted_range_one by (auto simp: sorted_range_def)
    then show ?thesis using True by (simp add: mergeSort.simps [of xs lo] permuted_refl)
  next
    case False
    define mid where "mid = lo + (hi - lo) div 2"
    have m: "lo \<le> mid" "mid \<le> hi" using False by (auto simp: mid_def)
    obtain ys where ys: "mergeSort xs lo mid = Inr ys" "permuted xs ys lo mid" "sorted_range ys lo mid"
      using "1.IH"(1) [OF False mid_def] m "1.prems"(2) by auto
    have len: "length ys = length xs" using ys(2) by (simp add: permuted_def)
    obtain zs where zs: "mergeSort ys mid hi = Inr zs" "permuted ys zs mid hi" "sorted_range zs mid hi"
      using "1.IH"(2) [OF False mid_def ys(1)] m "1.prems"(2) len by auto
    have lz: "length zs = length xs" using zs(2) len by (simp add: permuted_def)
    let ?m = "mrg (slice zs lo mid) (slice zs mid hi)" and ?ws = "take lo zs @ mrg (slice zs lo mid) (slice zs mid hi) @ drop hi zs"
    have "sorted_range zs lo mid" unfolding sorted_range_def
      using ys(3) permuted_nth [OF zs(2)] len m "1.prems"(2) unfolding sorted_range_def by auto
    then have s: "sorted ?m" using zs(3) m lz "1.prems"(2) by (intro sorted_mrg) (simp_all add: sorted_range_slice)
    have ml: "length ?m = hi - lo"
      using arg_cong [OF mset_mrg [of "slice zs lo mid" "slice zs mid hi"], of size] m lz "1.prems"(2) by simp
    have sl: "slice ?ws lo hi = ?m" using ml m lz "1.prems"(2) by (simp add: slice_def)
    have lw: "length ?ws = length xs" using ml m lz "1.prems"(2) by simp
    have "slice zs lo hi = slice zs lo mid @ slice zs mid hi"
    proof -
      have "drop mid zs = drop (mid - lo) (drop lo zs)" using m by simp
      then show ?thesis using m unfolding slice_def
        by (metis (no_types, lifting) add.commute diff_add_assoc2 le_add_diff_inverse2 take_add)
    qed
    then have "permuted zs ?ws lo hi"
      using sl lw lz ml m "1.prems"(2) by (simp add: permuted_def mset_mrg)
    moreover have "permuted xs zs lo hi"
      using permuted_trans [OF permuted_wider [OF ys(2), of lo hi] permuted_wider [OF zs(2), of lo hi]] m len "1.prems"(2) by simp
    moreover have "sorted_range ?ws lo hi"
      using s sl lw m "1.prems" by (subst sorted_range_slice) auto
    moreover have "mergeSort xs lo hi = Inr ?ws"
      using False ys(1) zs(1) mv_merge_ok [OF m, of zs] lz "1.prems"(2)
      by (simp add: mergeSort.simps [of xs lo hi] Let_def mid_def [symmetric])
    ultimately show ?thesis using permuted_trans by blast
  qed
qed

section \<open>The vector as a stack\<close>

text \<open>What code that only adds and takes at the end relies on: \<open>room s n\<close> says that \<open>n\<close> more
  elements can be added.\<close>

locale end_store =
  fixes add :: "'x \<Rightarrow> 's \<Rightarrow> 's result"
    and take_off :: "'s \<Rightarrow> 's result"
    and top :: "'s \<Rightarrow> 'x result"
    and items :: "'s \<Rightarrow> 'x list"
    and good :: "'s \<Rightarrow> bool"
    and room :: "'s \<Rightarrow> nat \<Rightarrow> bool"
  assumes add_law: "good s \<Longrightarrow> room s (Suc n) \<Longrightarrow>
      \<exists>s'. add x s = Inr s' \<and> good s' \<and> room s' n \<and> items s' = items s @ [x]"
    and take_law: "good s \<Longrightarrow> items s \<noteq> [] \<Longrightarrow>
      \<exists>s'. take_off s = Inr s' \<and> good s' \<and> items s' = butlast (items s) \<and> top s = Inr (last (items s))"
begin

fun add_all :: "'x list \<Rightarrow> 's \<Rightarrow> 's result" where
  "add_all [] s = Inr s"
| "add_all (x # xs) s = and_then (add x s) (add_all xs)"

lemma add_all_items:
  "good s \<Longrightarrow> room s (length xs) \<Longrightarrow> \<exists>s'. add_all xs s = Inr s' \<and> good s' \<and> items s' = items s @ xs"
proof (induction xs arbitrary: s)
  case (Cons x xs)
  obtain s1 where "add x s = Inr s1" "good s1" "room s1 (length xs)" "items s1 = items s @ [x]"
    using add_law [OF Cons.prems(1)] Cons.prems(2) by auto
  then show ?case using Cons.IH [of s1] by auto
qed simp

text \<open>Taking off what was just added gives back the element and the old items.\<close>

lemma add_take:
  assumes "good s" and "room s (Suc n)"
  shows "\<exists>s1 s2. add x s = Inr s1 \<and> top s1 = Inr x \<and> take_off s1 = Inr s2 \<and> good s2 \<and> items s2 = items s"
  using add_law [OF assms, of x] take_law by force

end

definition mv_room :: "'a m_vector \<Rightarrow> nat \<Rightarrow> bool" where
  "mv_room v n \<longleftrightarrow> 0 < m_capcity v \<and> m_size v + n < 2 ^ 63"

lemma push_back_room:
  assumes "mv_ok v" and "mv_room v (Suc n)"
  shows "\<exists>v'. push_back junk x v = Inr v' \<and> mv_ok v' \<and> mv_room v' n \<and> contents v' = contents v @ [x]"
proof -
  obtain v' where v': "push_back junk x v = Inr v'" "mv_ok v'" "contents v' = contents v @ [x]"
    using push_back_ok [OF assms(1)] assms(2) by (auto simp: mv_room_def)
  have "m_size v' = m_size v + 1" using length_contents [OF v'(2)] v'(3) length_contents [OF assms(1)] by simp
  moreover have "m_size v' \<le> m_capcity v'" using v'(2) by (simp add: mv_ok_def)
  ultimately show ?thesis using v' assms(2) by (auto simp: mv_room_def)
qed

interpretation mvs: end_store "push_back (\<lambda>_. 0)" pop_back mv_tail contents mv_ok mv_room
proof unfold_locales
  show "\<exists>s'. pop_back s = Inr s' \<and> mv_ok s' \<and> contents s' = butlast (contents s) \<and> mv_tail s = Inr (last (contents s))"
    if "mv_ok s" "contents s \<noteq> []" for s :: "'a m_vector"
    using pop_back_ok [OF that(1)] that length_contents [OF that(1)] by fastforce
qed (rule push_back_room)

section \<open>Properties\<close>

text \<open>
  On a vector whose size is within its capacity every editing operation stays inside the array
  and does to the elements what it does to a list: appending, inserting, removing one element or a
  range, and taking off the last one.
\<close>

theorem vector_edits_refine_lists:
  fixes v :: "('a :: {linorder, zero}) m_vector"
  assumes "mv_ok v" and "0 < m_capcity v" and "m_size v + 1 < 2 ^ 63"
  shows "(\<exists>v'. push_back junk x v = Inr v' \<and> mv_ok v' \<and> contents v' = contents v @ [x]) \<and>
    (pos \<le> m_size v \<longrightarrow> (\<exists>v'. mv_insert junk pos x v = Inr v' \<and> mv_ok v' \<and>
       contents v' = take pos (contents v) @ x # drop pos (contents v))) \<and>
    (pos < m_size v \<longrightarrow> (\<exists>v'. mv_remove pos v = Inr (contents v ! pos, v') \<and> mv_ok v' \<and>
       contents v' = take pos (contents v) @ drop (pos + 1) (contents v))) \<and>
    (l < r \<and> r \<le> m_size v \<longrightarrow> (\<exists>v'. mv_erase l r v = Inr v' \<and> mv_ok v' \<and>
       contents v' = take l (contents v) @ drop r (contents v))) \<and>
    (0 < m_size v \<longrightarrow> (\<exists>v'. pop_back v = Inr v' \<and> mv_ok v' \<and> contents v' = butlast (contents v) \<and>
       mv_tail v = Inr (last (contents v))))"
proof (intro conjI impI)
  show "\<exists>v'. push_back junk x v = Inr v' \<and> mv_ok v' \<and> contents v' = contents v @ [x]"
    using assms by (rule push_back_ok)
qed (use assms mv_insert_ok mv_remove_ok mv_erase_ok pop_back_ok in auto)

definition sample_vector :: "nat m_vector" where
  "sample_vector = \<lparr>m_capcity = 4, m_size = 4, mv_vec = Some [3, 1, 3, 2]\<rparr>"

lemma sample_vector_simps [simp]:
  "mv_ok sample_vector" "contents sample_vector = [3, 1, 3, 2]" "m_size sample_vector = 4" "m_capcity sample_vector = 4"
  by (simp_all add: sample_vector_def mv_ok_def contents_def)

theorem vector_edits_refine_lists_witness:
  "(\<exists>v'. push_back (\<lambda>_. 0) 7 sample_vector = Inr v' \<and> contents v' = [3, 1, 3, 2, 7]) \<and>
   (\<exists>v'. mv_erase 1 3 sample_vector = Inr v' \<and> contents v' = [3, 2])"
  using vector_edits_refine_lists [of sample_vector "\<lambda>_. 0" 7 0 1 3] by auto

text \<open>
  \<open>deduplicate\<close> keeps the first of all equal elements in their old order and returns how many
  it removed; \<open>unique\<close> keeps one element of every run.
\<close>

theorem vector_duplicates:
  assumes "mv_ok v" and "m_size v < 2 ^ 31"
  shows "(\<exists>v'. deduplicate v = Inr (int (length (contents v)) - int (length (contents v')), v') \<and> mv_ok v' \<and>
            contents v' = rev (remdups (rev (contents v)))) \<and>
         (0 < m_size v \<longrightarrow> (\<exists>v'. mv_unique v = Inr v' \<and> mv_ok v' \<and> contents v' = remdups_adj (contents v)))"
  using deduplicate_ok [OF assms] mv_unique_ok [OF assms(1)] by blast

theorem vector_duplicates_witness:
  "\<exists>v'. deduplicate sample_vector = Inr (1, v') \<and> contents v' = [3, 1, 2]"
  using vector_duplicates [of sample_vector] by force

text \<open>
  C36. Bubble sort and merge sort, on any range of the array, end, stay inside the range and leave
  exactly the sorted elements of the range there; so the two agree.  The \<open>int\<close> index of \<open>merge\<close>
  is taken without its bound, so the statement is about ranges of fewer than \<open>2 ^ 31\<close> elements.
\<close>

theorem vector_sorts:
  assumes "lo \<le> hi" and "hi \<le> length xs"
  shows "bubbleSort xs lo hi = Inr (take lo xs @ sort (slice xs lo hi) @ drop hi xs) \<and>
         mergeSort xs lo hi = Inr (take lo xs @ sort (slice xs lo hi) @ drop hi xs)"
  using bubbleSort_ok [OF assms] mergeSort_ok [OF assms] permuted_sorted [OF _ _ assms] by metis

theorem vector_sorts_witness:
  "bubbleSort [9, 5, 1, 4, 0 :: nat] 1 4 = Inr [9, 1, 4, 5, 0] \<and> mergeSort [9, 5, 1, 4, 0 :: nat] 1 4 = Inr [9, 1, 4, 5, 0]"
  using vector_sorts [of 1 4 "[9, 5, 1, 4, 0 :: nat]"] by (simp add: slice_def)

text \<open>
  In a sorted range the binary search and the Fibonacci search both end and return a cell that
  holds the element if there is one, and the end of the range otherwise (for the Fibonacci search
  up to \<open>2 ^ 30\<close> elements, so that its numbers fit an \<open>int\<close>).
\<close>

theorem vector_searches:
  assumes "sorted_range xs lo hi" and "lo \<le> hi" and "hi \<le> length xs" and "hi - lo \<le> 2 ^ 30"
  shows "\<exists>m n. search_range xs e lo hi = Inr m \<and> fibsearch xs e lo hi = Some (Inr n) \<and>
    (if \<exists>k. lo \<le> k \<and> k < hi \<and> xs ! k = e
     then lo \<le> m \<and> m < hi \<and> xs ! m = e \<and> lo \<le> n \<and> n < hi \<and> xs ! n = e else m = hi \<and> n = hi)"
proof -
  obtain r where r: "search_loop xs e lo hi = Inr r" "found_in xs e lo hi r"
    using search_loop_ok [OF assms(1,3)] by blast
  have n: "to_int32 (int hi - int lo) = int hi - int lo" using assms(2,4) by (intro to_int32_id) auto
  obtain s where s: "Fib_new (int hi - int lo) = Some (Inr s)" "fib_pair (fib_f s) (fib_g s)" "int hi - int lo \<le> fib_g s"
  proof -
    have "int (hi - lo) \<le> int (2 ^ 30)" using assms(4) by (simp only: of_nat_le_iff)
    moreover have "int (2 ^ 30) = 2 ^ 30" by simp
    ultimately have "int hi - int lo \<le> 2 ^ 30" using of_nat_diff [OF assms(2), where 'a = int] by linarith
    then show ?thesis using Fib_loop_ok [of "\<lparr>fib_f = 1, fib_g = 0\<rparr>" "int hi - int lo"] fib_pair.start that
      by (auto simp: Fib_new_def)
  qed
  obtain q where q: "fibsearch_loop xs e (int lo) (int hi) s = Some (Inr (map_option int q))" "found_in xs e lo hi q"
    using fibsearch_loop_ok [OF assms(1,3) s(2)] s(3) by auto
  have "fibsearch xs e lo hi = Some (Inr (case q of Some m \<Rightarrow> m | None \<Rightarrow> hi))"
    using s(1) q(1) n by (cases q) (simp_all add: fibsearch_def)
  moreover have "search_range xs e lo hi = Inr (case r of Some m \<Rightarrow> m | None \<Rightarrow> hi)"
    using r(1) by (simp add: search_range_def)
  ultimately show ?thesis using r(2) q(2) by (cases r; cases q) (auto simp: found_in_def)
qed

theorem vector_searches_witness:
  "\<exists>m n. search_range [1, 3, 5, 7 :: nat] 5 0 4 = Inr m \<and> fibsearch [1, 3, 5, 7 :: nat] 5 0 4 = Some (Inr n) \<and>
     [1, 3, 5, 7 :: nat] ! m = 5 \<and> [1, 3, 5, 7 :: nat] ! n = 5"
proof -
  have s: "sorted_range [1, 3, 5, 7 :: nat] 0 4" by (simp add: sorted_range_slice slice_def)
  have "\<exists>k. 0 \<le> k \<and> k < 4 \<and> [1, 3, 5, 7 :: nat] ! k = 5" by (rule exI [of _ 2]) simp
  then show ?thesis using vector_searches [OF s, of 5] by auto
qed

text \<open>
  The empty vector is not handled: a vector made with size 0 has capacity 0, doubling it gives
  no room and appending writes outside the array; taking off the last element of an empty vector
  writes outside; \<open>unique\<close> on an empty vector gives it one (uninitialised) element.
\<close>

theorem vector_empty_cases:
  shows "(\<exists>v. m_vector_zeros junk 0 = Inr v \<and> push_back junk x v = Inl Out_of_bounds) \<and>
         pop_back (m_vector_default junk) = Inl Out_of_bounds \<and>
         (\<exists>v. mv_unique (m_vector_default junk) = Inr v \<and> contents v = [junk 0])"
proof (intro conjI)
  show "\<exists>v. m_vector_zeros junk 0 = Inr v \<and> push_back junk x v = Inl Out_of_bounds"
    by (simp add: m_vector_zeros_def m_vector_fill_def push_back_def mv_reserve_def cells_def set_cell_def)
  show "pop_back (m_vector_default junk) = Inl Out_of_bounds"
    by (simp add: pop_back_def m_vector_default_def cells_def set_cell_def last_index_def DEFAULT_SZIE_def to_size_t_def)
  show "\<exists>v. mv_unique (m_vector_default junk) = Inr v \<and> contents v = [junk 0]"
    by (simp add: mv_unique_def m_vector_default_def cells_def unique_loop.simps [of _ 0 0 0] contents_def
        DEFAULT_SZIE_def upt_conv_Cons)
qed

text \<open>Copying cell by cell reads the elements of a sound vector.\<close>

lemma copy_cells_ok:
  assumes "mv_ok v" "n \<le> m_size v" "m_size v \<le> length xs"
  shows "copy_cells v n xs = Inr (take n (contents v) @ drop n xs)"
  using assms(2)
proof (induction n)
  case (Suc n)
  obtain ys where ys: "mv_vec v = Some ys" "m_size v \<le> length ys" "contents v = take (m_size v) ys"
    using assms(1) by (auto simp: mv_ok_def contents_def split: option.splits)
  have "m_vector_at v n = Inr (contents v ! n)" using Suc.prems ys by (simp add: m_vector_at_def cells_def cell_def)
  moreover have "(take n (contents v) @ drop n xs)[n := contents v ! n] = take (Suc n) (contents v) @ drop (Suc n) xs"
    using Suc.prems ys assms(3)
    by (simp add: list_update_append take_Suc_conv_app_nth min_def flip: Cons_nth_drop_Suc)
  ultimately show ?case using Suc assms(3) ys by (simp add: set_cell_def)
qed simp

lemma m_vector_assign_ok:
  assumes "mv_ok v"
  shows "\<exists>u. m_vector_assign junk v = Inr u \<and> contents u = contents v"
proof -
  let ?xs = "map junk [0..<m_capcity v]"
  have "m_size v \<le> m_capcity v" using assms by (simp add: mv_ok_def)
  then have "copy_cells v (m_size v) ?xs = Inr (contents v @ drop (m_size v) ?xs)"
    using copy_cells_ok [OF assms, of "m_size v" ?xs] length_contents [OF assms] by simp
  then show ?thesis using length_contents [OF assms] by (simp add: m_vector_assign_def contents_def [of "\<lparr>m_capcity = _, m_size = _, mv_vec = _\<rparr>"])
qed

text \<open>
  Assignment between different vectors copies or moves the elements, and a vector that was moved from
  still reports its old size but has no array.  A vector assigned to itself loses its elements.
\<close>

theorem vector_assignments:
  assumes "mv_ok (objs v)"
  shows "\<exists>objs'. m_vector_assign_at junk this v objs = Inr objs' \<and>
      contents (objs' this) = (if this = v then map junk [0..<m_size (objs v)] else contents (objs v)) \<and>
      (\<forall>u. u \<noteq> this \<longrightarrow> objs' u = objs u) \<and>
      (this \<noteq> v \<longrightarrow> m_vector_move_at this v objs this = objs v) \<and>
      m_size (m_vector_move_at this v objs v) = m_size (objs v) \<and>
      (\<forall>i < m_size (objs v). m_vector_at (m_vector_move_at this v objs v) i = Inl Null_deref)"
proof -
  let ?fresh = "\<lparr>m_capcity = m_capcity (objs v), m_size = m_size (objs v), mv_vec = Some (map junk [0..<m_capcity (objs v)])\<rparr>"
  have ok: "mv_ok ((objs(this := ?fresh)) v)" using assms by (auto simp: mv_ok_def split: option.splits)
  have "m_size (objs v) \<le> m_capcity (objs v)" using assms by (simp add: mv_ok_def)
  then have c: "contents ((objs(this := ?fresh)) v) = (if this = v then map junk [0..<m_size (objs v)] else contents (objs v))"
    by (simp add: contents_def take_map)
  obtain u where "m_vector_assign junk ((objs(this := ?fresh)) v) = Inr u" "contents u = contents ((objs(this := ?fresh)) v)"
    using m_vector_assign_ok [OF ok] by blast
  then have "m_vector_assign_at junk this v objs = Inr (objs(this := u)) \<and> contents ((objs(this := u)) this) = (if this = v then map junk [0..<m_size (objs v)] else contents (objs v))"
    using c by (simp only: m_vector_assign_at_def Let_def and_then_simps fun_upd_same simp_thms)
  then show ?thesis
    by (intro exI [of _ "objs(this := u)"]) (simp add: m_vector_move_at_def m_vector_at_def cells_def Let_def)
qed

theorem vector_assignments_witness:
  "\<exists>objs'. m_vector_assign_at (\<lambda>_. 0) 0 0 (\<lambda>_. \<lparr>m_capcity = 2, m_size = 1, mv_vec = Some [7, 0 :: int]\<rparr>) = Inr objs' \<and>
     contents (objs' 0) = [0]"
  using vector_assignments [of "\<lambda>_. \<lparr>m_capcity = 2, m_size = 1, mv_vec = Some [7, 0 :: int]\<rparr>" 0 "\<lambda>_. 0" 0]
  by (auto simp: mv_ok_def)

end
