(* ===== verification/Sta_Algorithms.thy ===== *)
theory Sta_Algorithms
  imports M_Vector "HOL-Library.Sublist"
begin

text \<open>
  The algorithms of \<^verbatim>\<open>src/sta/algorithms.h\<close> and \<^verbatim>\<open>algorithms.cpp\<close>: bubble sort, merge
  sort and two ways to compute the length of a longest common subsequence.  The array is the list
  of its cells, the bounds are \<open>int\<close>s and inclusive.  The loops that need not end are partial
  functions whose value is \<open>None\<close> when they do not.
\<close>

section \<open>Arrays indexed by int\<close>

definition icell :: "'a list \<Rightarrow> int \<Rightarrow> 'a result" where
  "icell xs i = (if 0 \<le> i then cell xs (nat i) else Inl Out_of_bounds)"

definition iset_cell :: "'a list \<Rightarrow> int \<Rightarrow> 'a \<Rightarrow> 'a list result" where
  "iset_cell xs i x = (if 0 \<le> i then set_cell xs (nat i) x else Inl Out_of_bounds)"

section \<open>Bubble sort\<close>

function sta_pass :: "int list \<Rightarrow> int \<Rightarrow> int \<Rightarrow> int \<Rightarrow> int \<Rightarrow> (int list \<times> int) result" where
  "sta_pass vec i j high lst =
     (if j \<le> high then
        and_then (icell vec i) (\<lambda>x.
        and_then (icell vec j) (\<lambda>y.
          if x > y then
            and_then (iset_cell vec j x) (\<lambda>vec.
            and_then (iset_cell vec i y) (\<lambda>vec. sta_pass vec (i + 1) (j + 1) high j))
          else sta_pass vec (i + 1) (j + 1) high lst))
      else Inr (vec, lst))"
  by pat_completeness auto
termination
  by (relation "measure (\<lambda>(vec, i, j, high, lst). nat (high + 1 - j))") auto

declare sta_pass.simps [simp del]

partial_function (option) sta_bubbleSort :: "int list \<Rightarrow> int \<Rightarrow> int \<Rightarrow> int list result option" where
  "sta_bubbleSort vec low high =
     (if low < high then
        (case sta_pass vec low (low + 1) high low of
           Inl e \<Rightarrow> Some (Inl e)
         | Inr (vec, lst) \<Rightarrow> sta_bubbleSort vec low lst)
      else Some (Inr vec))"

section \<open>Merge sort\<close>

text \<open>One round of the merge loop takes from the right half, then from the left half, each only if
  its next element is smaller than the other's.\<close>

definition take_right :: "int list \<Rightarrow> int list \<Rightarrow> int list \<times> nat \<times> nat \<times> int \<Rightarrow> (int list \<times> nat \<times> nat \<times> int) result" where
  "take_right v1 v2 = (\<lambda>(vec, i, j, index).
     if j < length v2 \<and> (i \<ge> length v1 \<or> v1 ! i > v2 ! j)
     then and_then (iset_cell vec index (v2 ! j)) (\<lambda>vec. Inr (vec, i, j + 1, index + 1))
     else Inr (vec, i, j, index))"

definition take_left :: "int list \<Rightarrow> int list \<Rightarrow> int list \<times> nat \<times> nat \<times> int \<Rightarrow> (int list \<times> nat \<times> nat \<times> int) result" where
  "take_left v1 v2 = (\<lambda>(vec, i, j, index).
     if i < length v1 \<and> (j \<ge> length v2 \<or> v2 ! j > v1 ! i)
     then and_then (iset_cell vec index (v1 ! i)) (\<lambda>vec. Inr (vec, i + 1, j, index + 1))
     else Inr (vec, i, j, index))"

partial_function (option) sta_merge_loop ::
  "int list \<Rightarrow> int list \<Rightarrow> int list \<times> nat \<times> nat \<times> int \<Rightarrow> int list result option" where
  "sta_merge_loop v1 v2 s =
     (if fst (snd s) < length v1 \<or> fst (snd (snd s)) < length v2 then
        (case and_then (take_right v1 v2 s) (take_left v1 v2) of
           Inl e \<Rightarrow> Some (Inl e)
         | Inr s' \<Rightarrow> sta_merge_loop v1 v2 s')
      else Some (Inr (fst s)))"

definition sta_merge :: "int list \<Rightarrow> int \<Rightarrow> int \<Rightarrow> int \<Rightarrow> int list result option" where
  "sta_merge vec low mid high =
     (case and_then (mem_read vec low (mid + 1)) (\<lambda>v1. and_then (mem_read vec (mid + 1) (high + 1)) (\<lambda>v2. Inr (v1, v2))) of
        Inl e \<Rightarrow> Some (Inl e)
      | Inr (v1, v2) \<Rightarrow> sta_merge_loop v1 v2 (vec, 0, 0, low))"

text \<open>\<open>(low + high) >> 1\<close>, where the sum is an \<open>int\<close>.\<close>

definition middle :: "int \<Rightarrow> int \<Rightarrow> int result" where
  "middle low high =
     (if - (2 ^ 31) \<le> low + high \<and> low + high < 2 ^ 31 then Inr (drop_bit 1 (low + high)) else Inl Signed_overflow)"

partial_function (option) sta_mergeSort :: "int list \<Rightarrow> int \<Rightarrow> int \<Rightarrow> int list result option" where
  "sta_mergeSort vec low high =
     (if low = high then Some (Inr vec)
      else
        case middle low high of
          Inl e \<Rightarrow> Some (Inl e)
        | Inr mid \<Rightarrow>
            Option.bind (sta_mergeSort vec low mid) (\<lambda>r.
              case r of
                Inl e \<Rightarrow> Some (Inl e)
              | Inr vec \<Rightarrow>
                  Option.bind (sta_mergeSort vec (mid + 1) high) (\<lambda>r.
                    case r of
                      Inl e \<Rightarrow> Some (Inl e)
                    | Inr vec \<Rightarrow> sta_merge vec low mid high)))"

section \<open>Longest common subsequence\<close>

definition Max_int :: "int \<Rightarrow> int \<Rightarrow> int" where
  "Max_int a b = (if a > b then a else b)"

fun lcsWithRecursion1 :: "string \<Rightarrow> nat \<Rightarrow> string \<Rightarrow> nat \<Rightarrow> int result" where
  "lcsWithRecursion1 s1 0 s2 n = Inr 0"
| "lcsWithRecursion1 s1 (Suc m) s2 0 = Inr 0"
| "lcsWithRecursion1 s1 (Suc m) s2 (Suc n) =
     and_then (cell s1 m) (\<lambda>c1.
     and_then (cell s2 n) (\<lambda>c2.
       if c1 = c2 then and_then (lcsWithRecursion1 s1 m s2 n) (\<lambda>r. Inr (1 + r))
       else
         and_then (lcsWithRecursion1 s1 (Suc m) s2 n) (\<lambda>a.
         and_then (lcsWithRecursion1 s1 m s2 (Suc n)) (\<lambda>b. Inr (Max_int a b)))))"

type_synonym memo = "int list list"

definition memo_get :: "memo \<Rightarrow> nat \<Rightarrow> nat \<Rightarrow> int result" where
  "memo_get ix i j = and_then (cell ix i) (\<lambda>row. cell row j)"

definition memo_set :: "memo \<Rightarrow> nat \<Rightarrow> nat \<Rightarrow> int \<Rightarrow> memo result" where
  "memo_set ix i j x = and_then (cell ix i) (\<lambda>row. and_then (set_cell row j x) (set_cell ix i))"

fun childRecursion :: "string \<Rightarrow> nat \<Rightarrow> string \<Rightarrow> nat \<Rightarrow> memo \<Rightarrow> (int \<times> memo) result" where
  "childRecursion s1 0 s2 n ix = Inr (0, ix)"
| "childRecursion s1 (Suc m) s2 0 ix = Inr (0, ix)"
| "childRecursion s1 (Suc m) s2 (Suc n) ix =
     and_then (memo_get ix m n) (\<lambda>v.
       if v > 0 then Inr (v, ix)
       else
         and_then (cell s1 m) (\<lambda>c1.
         and_then (cell s2 n) (\<lambda>c2.
         and_then
           (if c1 = c2 then and_then (childRecursion s1 m s2 n ix) (\<lambda>(r, ix). Inr (1 + r, ix))
            else
              and_then (childRecursion s1 (Suc m) s2 n ix) (\<lambda>(a, ix).
              and_then (childRecursion s1 m s2 (Suc n) ix) (\<lambda>(b, ix). Inr (Max_int a b, ix)))) (\<lambda>(r, ix).
         and_then (memo_set ix m n r) (\<lambda>ix.
         and_then (memo_get ix m n) (\<lambda>v. Inr (v, ix)))))))"

definition lcsWithRecursion2 :: "string \<Rightarrow> nat \<Rightarrow> string \<Rightarrow> nat \<Rightarrow> int result" where
  "lcsWithRecursion2 s1 m s2 n =
     and_then (childRecursion s1 m s2 n (replicate m (replicate n (-1)))) (\<lambda>(r, _). Inr r)"

section \<open>Bubble sort is correct\<close>

lemma icell_int [simp]: "icell xs (int i) = cell xs i" "iset_cell xs (int i) x = set_cell xs i x"
  by (simp_all add: icell_def iset_cell_def)

lemma int_Suc: "int i + 1 = int (i + 1)"
  by simp

text \<open>The inner loop is the one of the vector, on an inclusive upper bound.\<close>

lemma sta_pass_bubble:
  assumes "p \<le> hi" and "hi < length xs"
  shows "sta_pass xs (int p) (int (p + 1)) (int hi) (int lst) =
    and_then (bubble_loop xs p lst (hi + 1)) (\<lambda>(ys, l). Inr (ys, int l))"
  using assms
proof (induction xs p lst "hi + 1" rule: bubble_loop.induct)
  case (1 xs p lst)
  show ?case
  proof (cases "p + 1 < hi + 1")
    case False
    then show ?thesis
      by (simp add: sta_pass.simps [of xs "int p"] bubble_loop.simps [of xs p])
  next
    case True
    then have c: "cell xs (p + 1) = Inr (xs ! (p + 1))" "cell xs p = Inr (xs ! p)"
      using "1.prems" by (simp_all add: cell_ok)
    have le: "int (p + 1) \<le> int hi" "p + 1 \<le> hi" using True by simp_all
    show ?thesis
    proof (cases "xs ! (p + 1) < xs ! p")
      case lt: True
      have z: "swap_cells xs (p + 1) p = Inr (list_swap xs (p + 1) p)"
          "xs[p + 1 := xs ! p, p := xs ! (p + 1)] = list_swap xs (p + 1) p"
        using True "1.prems" by (simp_all add: swap_cells_ok list_swap_def)
      note ih = "1.hyps"(1) [OF True c lt z(1) le(2)]
      show ?thesis
        using ih lt c le "1.prems" z
        by (simp add: sta_pass.simps [of xs "int p"] bubble_loop.simps [of xs p] set_cell_ok int_Suc del: of_nat_add of_nat_Suc)
    next
      case False
      show ?thesis
        using "1.hyps"(2) [OF True c False le(2)] "1.prems" False c le
        by (simp add: sta_pass.simps [of xs "int p"] bubble_loop.simps [of xs p] int_Suc del: of_nat_add of_nat_Suc)
    qed
  qed
qed

text \<open>When the last element of the range is already its maximum, the last swap is before it.\<close>

lemma bubble_loop_top:
  assumes "p < h" and "lst < h" and "h < length xs" and "\<And>k. p \<le> k \<Longrightarrow> k \<le> h \<Longrightarrow> xs ! k \<le> xs ! h"
    and "bubble_loop xs p lst (h + 1) = Inr (ys, l)"
  shows "l < h"
  using assms
proof (induction xs p lst "h + 1" rule: bubble_loop.induct)
  case (1 xs p lst)
  have True': "p + 1 < h + 1" using "1.prems"(1) by simp
  then have c: "cell xs (p + 1) = Inr (xs ! (p + 1))" "cell xs p = Inr (xs ! p)"
    using "1.prems"(3) by (simp_all add: cell_ok)
  show ?case
  proof (cases "p + 1 = h")
    case True
    then have "\<not> xs ! (p + 1) < xs ! p" using "1.prems"(4) [of p] by auto
    then have "bubble_loop xs (p + 1) lst (h + 1) = Inr (ys, l)"
      using "1.prems"(5) c True' by (simp add: bubble_loop.simps [of xs p])
    then show ?thesis using True "1.prems"(2) by (simp add: bubble_loop.simps [of xs h])
  next
    case False
    then have ph: "p + 1 < h" using "1.prems"(1) by simp
    show ?thesis
    proof (cases "xs ! (p + 1) < xs ! p")
      case lt: True
      let ?zs = "list_swap xs (p + 1) p"
      have z: "swap_cells xs (p + 1) p = Inr ?zs" using ph "1.prems"(3) by (simp add: swap_cells_ok)
      have "?zs ! k \<le> ?zs ! h" if "p + 1 \<le> k" "k \<le> h" for k
        using that ph "1.prems"(3) "1.prems"(4) [of k] "1.prems"(4) [of p] by (simp add: nth_list_swap)
      then show ?thesis
        using "1.hyps"(1) [OF True' c lt z ph ph] "1.prems"(3,5) lt c z True'
        by (simp add: bubble_loop.simps [of xs p])
    next
      case ge: False
      then show ?thesis
        using "1.hyps"(2) [OF True' c ge ph "1.prems"(2,3)] "1.prems"(4,5) c True'
        by (simp add: bubble_loop.simps [of xs p])
    qed
  qed
qed

definition top_unsorted :: "int list \<Rightarrow> nat \<Rightarrow> nat \<Rightarrow> nat" where
  "top_unsorted xs lo h = (if \<forall>k. lo \<le> k \<and> k \<le> h \<longrightarrow> xs ! k \<le> xs ! h then 0 else 1)"

lemma sta_bubbleSort_ok:
  assumes "lo \<le> h" and "h < length xs"
  shows "\<exists>ys. sta_bubbleSort xs (int lo) (int h) = Some (Inr ys) \<and> permuted xs ys lo (h + 1) \<and> sorted_range ys lo (h + 1)"
  using assms
proof (induction "2 * h + top_unsorted xs lo h" arbitrary: xs h rule: less_induct)
  case less
  show ?case
  proof (cases "lo < h")
    case False
    then have "h = lo" using less.prems(1) by simp
    then show ?thesis using sorted_range_one [of xs lo]
      by (simp add: sta_bubbleSort.simps [of xs "int lo"] permuted_refl)
  next
    case True
    obtain ys l where b: "bubble_loop xs lo lo (h + 1) = Inr (ys, l)" "permuted xs ys lo (h + 1)" "lo \<le> l" "l < h + 1"
        "sorted_range ys l (h + 1)" "\<forall>j k. lo \<le> j \<and> j < l \<and> l \<le> k \<and> k < h + 1 \<longrightarrow> ys ! j \<le> ys ! k"
      using bubble_loop_ok [OF _ _ _ _ sorted_range_one, of lo lo "h + 1" xs] less.prems by auto
    have len: "length ys = length xs" using b(2) by (simp add: permuted_def)
    have step: "sta_bubbleSort xs (int lo) (int h) = sta_bubbleSort ys (int lo) (int l)"
      using sta_pass_bubble [of lo h xs lo] True less.prems b(1)
      by (simp add: sta_bubbleSort.simps [of xs "int lo"] add.commute)
    have decr: "2 * l + top_unsorted ys lo l < 2 * h + top_unsorted xs lo h"
    proof (cases "l < h")
      case True
      then show ?thesis by (auto simp: top_unsorted_def)
    next
      case False
      then have "l = h" using b(4) by simp
      then have "\<not> (\<forall>k. lo \<le> k \<and> k \<le> h \<longrightarrow> xs ! k \<le> xs ! h)"
        using bubble_loop_top [OF True True less.prems(2) _ b(1)] by auto
      moreover have "\<forall>k. lo \<le> k \<and> k \<le> h \<longrightarrow> ys ! k \<le> ys ! h"
        using b(6) \<open>l = h\<close> by (auto simp: le_less)
      ultimately show ?thesis using \<open>l = h\<close> by (auto simp: top_unsorted_def)
    qed
    obtain zs where z: "sta_bubbleSort ys (int lo) (int l) = Some (Inr zs)" "permuted ys zs lo (l + 1)" "sorted_range zs lo (l + 1)"
      using less.hyps [OF decr b(3)] b(4) len less.prems(2) by auto
    have cross: "ys ! j \<le> ys ! k" if "lo \<le> j" "j \<le> l" "l < k" "k \<le> h" for j k
      using that b(5,6) by (cases "j = l") (auto simp: sorted_range_def)
    have up: "zs ! k = ys ! k" if "l < k" "k < length xs" for k
      using permuted_nth [OF z(2), of k] that len by simp
    have dn: "\<exists>m. lo \<le> m \<and> m \<le> l \<and> zs ! k = ys ! m" if "lo \<le> k" "k \<le> l" for k
      using permuted_from [OF z(2), of k] that len b(4) less.prems(2) by (auto simp: less_Suc_eq_le)
    have "sorted_range zs lo (h + 1)" unfolding sorted_range_def
    proof (intro allI impI)
      fix i j assume ij: "lo \<le> i \<and> i \<le> j \<and> j < h + 1"
      consider "j \<le> l" | "l < i" | "i \<le> l" "l < j" by linarith
      then show "zs ! i \<le> zs ! j"
      proof cases
        case 1
        then show ?thesis using z(3) ij by (simp add: sorted_range_def)
      next
        case 2
        then show ?thesis using up [of i] up [of j] b(5) ij less.prems(2) by (simp add: sorted_range_def)
      next
        case 3
        then show ?thesis using dn [of i] up [of j] cross ij less.prems(2) by fastforce
      qed
    qed
    moreover have "permuted xs zs lo (h + 1)"
      using permuted_trans [OF b(2) permuted_wider [OF z(2), of lo "h + 1"]] b(3,4) len less.prems(2) by simp
    ultimately show ?thesis using step z(1) by auto
  qed
qed

section \<open>Merging\<close>

lemma mrg_Nil2 [simp]: "mrg xs [] = xs"
  by (cases xs) simp_all

text \<open>The result the merge works towards from a state: what is written already, the rest in order,
  and what is behind.\<close>

definition merge_goal :: "int list \<Rightarrow> int list \<Rightarrow> int list \<times> nat \<times> nat \<times> int \<Rightarrow> int list" where
  "merge_goal v1 v2 = (\<lambda>(vec, i, j, index).
     let rest = mrg (drop i v1) (drop j v2) in take (nat index) vec @ rest @ drop (nat index + length rest) vec)"

definition merge_room :: "int list \<Rightarrow> int list \<Rightarrow> int list \<times> nat \<times> nat \<times> int \<Rightarrow> bool" where
  "merge_room v1 v2 = (\<lambda>(vec, i, j, index).
     0 \<le> index \<and> i \<le> length v1 \<and> j \<le> length v2 \<and>
     nat index + (length v1 - i) + (length v2 - j) \<le> length vec)"

definition left_over :: "int list \<Rightarrow> int list \<Rightarrow> int list \<times> nat \<times> nat \<times> int \<Rightarrow> nat" where
  "left_over v1 v2 = (\<lambda>(vec, i, j, index). (length v1 - i) + (length v2 - j))"

definition disjoint_rest :: "int list \<Rightarrow> int list \<Rightarrow> int list \<times> nat \<times> nat \<times> int \<Rightarrow> bool" where
  "disjoint_rest v1 v2 = (\<lambda>(vec, i, j, index). set (drop i v1) \<inter> set (drop j v2) = {})"

lemmas merge_defs = merge_goal_def merge_room_def left_over_def disjoint_rest_def

lemma length_mrg [simp]: "length (mrg xs ys) = length xs + length ys"
  using arg_cong [OF mset_mrg [of xs ys], of size] by simp

lemma write_one:
  assumes "n < length vec"
  shows "take (Suc n) (vec[n := x]) = take n vec @ [x]" "drop (Suc n) (vec[n := x]) = drop (Suc n) vec"
  using assms by (simp_all add: take_Suc_conv_app_nth drop_update_cancel)

lemma sorted_drop_ge: "sorted xs \<Longrightarrow> x \<in> set (drop i xs) \<Longrightarrow> i < length xs \<and> xs ! i \<le> x"
  by (cases "i < length xs") (auto simp: in_set_conv_nth sorted_nth_mono)

lemma take_right_ok:
  assumes "merge_room v1 v2 s" and "sorted v1"
  shows "\<exists>s'. take_right v1 v2 s = Inr s' \<and> merge_room v1 v2 s' \<and> merge_goal v1 v2 s' = merge_goal v1 v2 s \<and>
    (disjoint_rest v1 v2 s' \<longleftrightarrow> disjoint_rest v1 v2 s) \<and> left_over v1 v2 s' \<le> left_over v1 v2 s \<and>
    (s' = s \<or> left_over v1 v2 s' < left_over v1 v2 s)"
proof -
  obtain vec i j index where s: "s = (vec, i, j, index)" by (cases s)
  show ?thesis
  proof (cases "j < length v2 \<and> (i \<ge> length v1 \<or> v1 ! i > v2 ! j)")
    case False
    then show ?thesis using assms by (intro exI [of _ s]) (auto simp: s take_right_def)
  next
    case True
    define n where "n = nat index"
    have n: "index = int n" "n < length vec" using assms(1) True by (auto simp: s merge_room_def n_def)
    have d2: "drop j v2 = v2 ! j # drop (j + 1) v2" using True by (simp add: Cons_nth_drop_Suc)
    have d1: "x > v2 ! j" if "x \<in> set (drop i v1)" for x
      using sorted_drop_ge [OF assms(2) that] True by auto
    have m: "mrg (drop i v1) (drop j v2) = v2 ! j # mrg (drop i v1) (drop (j + 1) v2)"
      using d1 [of "hd (drop i v1)"] by (cases "drop i v1") (auto simp: d2)
    let ?s = "(vec[n := v2 ! j], i, j + 1, int (n + 1))"
    have nn: "nat (1 + int n) = Suc n" "length v2 - j = Suc (length v2 - Suc j)" using True by auto
    have "take_right v1 v2 s = Inr ?s" using True n by (simp add: s take_right_def set_cell_ok)
    moreover have "merge_room v1 v2 ?s" using assms(1) True n by (auto simp: s merge_room_def)
    moreover have "merge_goal v1 v2 ?s = merge_goal v1 v2 s"
      using n m by (simp add: s merge_goal_def Let_def write_one drop_update_cancel nn)
    moreover have "disjoint_rest v1 v2 ?s \<longleftrightarrow> disjoint_rest v1 v2 s"
      using d1 by (auto simp: s disjoint_rest_def d2)
    moreover have "left_over v1 v2 ?s < left_over v1 v2 s" using True by (auto simp: s left_over_def)
    ultimately show ?thesis by (intro exI [of _ ?s]) auto
  qed
qed

lemma take_left_ok:
  assumes "merge_room v1 v2 s" and "sorted v2"
  shows "\<exists>s'. take_left v1 v2 s = Inr s' \<and> merge_room v1 v2 s' \<and> merge_goal v1 v2 s' = merge_goal v1 v2 s \<and>
    (disjoint_rest v1 v2 s' \<longleftrightarrow> disjoint_rest v1 v2 s) \<and> left_over v1 v2 s' \<le> left_over v1 v2 s \<and>
    (s' = s \<or> left_over v1 v2 s' < left_over v1 v2 s)"
proof -
  obtain vec i j index where s: "s = (vec, i, j, index)" by (cases s)
  show ?thesis
  proof (cases "i < length v1 \<and> (j \<ge> length v2 \<or> v2 ! j > v1 ! i)")
    case False
    then show ?thesis using assms by (intro exI [of _ s]) (auto simp: s take_left_def)
  next
    case True
    define n where "n = nat index"
    have n: "index = int n" "n < length vec" using assms(1) True by (auto simp: s merge_room_def n_def)
    have d2: "drop i v1 = v1 ! i # drop (i + 1) v1" using True by (simp add: Cons_nth_drop_Suc)
    have d1: "x > v1 ! i" if "x \<in> set (drop j v2)" for x
      using sorted_drop_ge [OF assms(2) that] True by auto
    have m: "mrg (drop i v1) (drop j v2) = v1 ! i # mrg (drop (i + 1) v1) (drop j v2)"
      using d1 [of "hd (drop j v2)"] by (cases "drop j v2") (auto simp: d2)
    let ?s = "(vec[n := v1 ! i], i + 1, j, int (n + 1))"
    have nn: "nat (1 + int n) = Suc n" "length v1 - i = Suc (length v1 - Suc i)" using True by auto
    have "take_left v1 v2 s = Inr ?s" using True n by (simp add: s take_left_def set_cell_ok)
    moreover have "merge_room v1 v2 ?s" using assms(1) True n by (auto simp: s merge_room_def)
    moreover have "merge_goal v1 v2 ?s = merge_goal v1 v2 s"
      using n m by (simp add: s merge_goal_def Let_def write_one drop_update_cancel nn)
    moreover have "disjoint_rest v1 v2 ?s \<longleftrightarrow> disjoint_rest v1 v2 s"
      using d1 by (auto simp: s disjoint_rest_def d2)
    moreover have "left_over v1 v2 ?s < left_over v1 v2 s" using True by (auto simp: s left_over_def)
    ultimately show ?thesis by (intro exI [of _ ?s]) auto
  qed
qed

text \<open>One round of the loop, and when it gets on.\<close>

lemma merge_round:
  assumes "merge_room v1 v2 s" and "sorted v1" and "sorted v2"
  shows "\<exists>s'. and_then (take_right v1 v2 s) (take_left v1 v2) = Inr s' \<and> merge_room v1 v2 s' \<and>
    merge_goal v1 v2 s' = merge_goal v1 v2 s \<and> (disjoint_rest v1 v2 s' \<longleftrightarrow> disjoint_rest v1 v2 s) \<and>
    (s' = s \<or> left_over v1 v2 s' < left_over v1 v2 s)"
proof -
  obtain s1 where s1: "take_right v1 v2 s = Inr s1" "merge_room v1 v2 s1" "merge_goal v1 v2 s1 = merge_goal v1 v2 s"
      "disjoint_rest v1 v2 s1 \<longleftrightarrow> disjoint_rest v1 v2 s" "left_over v1 v2 s1 \<le> left_over v1 v2 s"
      "s1 = s \<or> left_over v1 v2 s1 < left_over v1 v2 s"
    using take_right_ok [OF assms(1,2)] by blast
  obtain s2 where "take_left v1 v2 s1 = Inr s2" "merge_room v1 v2 s2" "merge_goal v1 v2 s2 = merge_goal v1 v2 s1"
      "disjoint_rest v1 v2 s2 \<longleftrightarrow> disjoint_rest v1 v2 s1" "left_over v1 v2 s2 \<le> left_over v1 v2 s1"
      "s2 = s1 \<or> left_over v1 v2 s2 < left_over v1 v2 s1"
    using take_left_ok [OF s1(2) assms(3)] by blast
  then show ?thesis using s1 by (intro exI [of _ s2]) auto
qed

lemma merge_round_progress:
  assumes "merge_room v1 v2 s" and "disjoint_rest v1 v2 s" and "fst (snd s) < length v1 \<or> fst (snd (snd s)) < length v2"
    and "and_then (take_right v1 v2 s) (take_left v1 v2) = Inr s'"
  shows "s' \<noteq> s"
proof
  assume "s' = s"
  obtain vec i j index where s: "s = (vec, i, j, index)" by (cases s)
  have ne: "v1 ! i \<noteq> v2 ! j" if "i < length v1" "j < length v2"
    using assms(2) that by (auto simp: s disjoint_rest_def Cons_nth_drop_Suc [symmetric])
  show False
    using assms(1,3,4) \<open>s' = s\<close> ne
    by (auto simp: s take_right_def take_left_def and_then_eq_Inr_conv split: if_splits)
qed

lemma merge_loop_returns:
  assumes "merge_room v1 v2 s" and "sorted v1" and "sorted v2" and "disjoint_rest v1 v2 s"
  shows "sta_merge_loop v1 v2 s = Some (Inr (merge_goal v1 v2 s))"
  using assms
proof (induction "left_over v1 v2 s" arbitrary: s rule: less_induct)
  case less
  obtain vec i j index where s: "s = (vec, i, j, index)" by (cases s)
  show ?case
  proof (cases "fst (snd s) < length v1 \<or> fst (snd (snd s)) < length v2")
    case False
    then show ?thesis using less.prems(1)
      by (simp add: s sta_merge_loop.simps [of v1 v2] merge_goal_def)
  next
    case True
    obtain s' where r: "and_then (take_right v1 v2 s) (take_left v1 v2) = Inr s'" "merge_room v1 v2 s'"
        "merge_goal v1 v2 s' = merge_goal v1 v2 s" "disjoint_rest v1 v2 s'" "s' = s \<or> left_over v1 v2 s' < left_over v1 v2 s"
      using merge_round [OF less.prems(1-3)] less.prems(4) by blast
    have "left_over v1 v2 s' < left_over v1 v2 s"
      using merge_round_progress [OF less.prems(1,4) True r(1)] r(5) by simp
    from less.hyps [OF this r(2) less.prems(2,3) r(4)] show ?thesis
      using True r(1,3) by (simp add: sta_merge_loop.simps [of v1 v2 s])
  qed
qed

text \<open>Conversely the loop does not return when the two halves share an element.\<close>

lemma merge_loop_diverges:
  assumes "sta_merge_loop v1 v2 s = Some y" and "merge_room v1 v2 s" and "sorted v1" and "sorted v2"
  shows "disjoint_rest v1 v2 s"
proof -
  have "merge_room v1 v2 s \<longrightarrow> sorted v1 \<longrightarrow> sorted v2 \<longrightarrow> disjoint_rest v1 v2 s"
  proof (rule sta_merge_loop.raw_induct [OF _ assms(1),
        where P = "\<lambda>v1 v2 s y. merge_room v1 v2 s \<longrightarrow> sorted v1 \<longrightarrow> sorted v2 \<longrightarrow> disjoint_rest v1 v2 s"], intro impI)
    fix f v1 v2 s y
    assume IH: "\<And>v1 v2 s y. f v1 v2 s = Some y \<Longrightarrow>
        merge_room v1 v2 s \<longrightarrow> sorted v1 \<longrightarrow> sorted v2 \<longrightarrow> disjoint_rest v1 v2 s"
      and body: "(if fst (snd s) < length v1 \<or> fst (snd (snd s)) < length v2 then
        (case and_then (take_right v1 v2 s) (take_left v1 v2) of Inl e \<Rightarrow> Some (Inl e) | Inr s' \<Rightarrow> f v1 v2 s')
      else Some (Inr (fst s))) = Some y"
      and a: "merge_room v1 v2 s" "sorted v1" "sorted v2"
    obtain s' where r: "and_then (take_right v1 v2 s) (take_left v1 v2) = Inr s'" "merge_room v1 v2 s'"
        "disjoint_rest v1 v2 s' \<longleftrightarrow> disjoint_rest v1 v2 s"
      using merge_round [OF a] by blast
    show "disjoint_rest v1 v2 s"
    proof (cases "fst (snd s) < length v1 \<or> fst (snd (snd s)) < length v2")
      case True
      then have "f v1 v2 s' = Some y" using body r(1) by simp
      then show ?thesis using IH r(2,3) a by blast
    next
      case False
      then show ?thesis by (cases s) (simp add: disjoint_rest_def)
    qed
  qed
  then show ?thesis using assms by blast
qed

section \<open>Merge sort\<close>

lemma middle_int: "lo + hi < 2 ^ 31 \<Longrightarrow> middle (int lo) (int hi) = Inr (int ((lo + hi) div 2))"
  by (simp add: middle_def drop_bit_eq_div zdiv_int)

lemma mem_read_slice: "a \<le> b \<Longrightarrow> b \<le> length xs \<Longrightarrow> mem_read xs (int a) (int b) = Inr (slice xs a b)"
  by (simp add: mem_read_def slice_def nat_diff_distrib)

lemma slice_append:
  assumes "a \<le> b" and "b \<le> c"
  shows "slice xs a c = slice xs a b @ slice xs b c"
proof -
  have "c - a = (b - a) + (c - b)" using assms by simp
  then show ?thesis using assms unfolding slice_def by (simp only: take_add drop_drop) (simp add: add.commute)
qed

lemma sta_merge_ok:
  assumes "lo \<le> mid" "mid < hi" "hi < length xs" "sorted (slice xs lo (mid + 1))" "sorted (slice xs (mid + 1) (hi + 1))"
  shows "sta_merge xs (int lo) (int mid) (int hi) =
    (if set (slice xs lo (mid + 1)) \<inter> set (slice xs (mid + 1) (hi + 1)) = {}
     then Some (Inr (take lo xs @ sort (slice xs lo (hi + 1)) @ drop (hi + 1) xs)) else None)"
proof -
  let ?v1 = "slice xs lo (mid + 1)" and ?v2 = "slice xs (mid + 1) (hi + 1)"
  let ?s = "(xs, 0, 0, int lo) :: int list \<times> nat \<times> nat \<times> int"
  have unf: "sta_merge xs (int lo) (int mid) (int hi) = sta_merge_loop ?v1 ?v2 ?s"
    using mem_read_slice [of lo "mid + 1" xs] mem_read_slice [of "mid + 1" "hi + 1" xs] assms(1-3)
    by (simp add: sta_merge_def add.commute)
  have room: "merge_room ?v1 ?v2 ?s" using assms(1-3) by (simp add: merge_room_def)
  show ?thesis
  proof (cases "set ?v1 \<inter> set ?v2 = {}")
    case True
    have "sort (slice xs lo (hi + 1)) = mrg ?v1 ?v2"
      using slice_append [of lo "mid + 1" "hi + 1" xs] assms(1-5)
      by (intro properties_for_sort) (simp_all add: mset_mrg sorted_mrg)
    moreover have "merge_goal ?v1 ?v2 ?s = take lo xs @ mrg ?v1 ?v2 @ drop (hi + 1) xs"
      using assms(1-3) by (simp add: merge_goal_def)
    ultimately show ?thesis using merge_loop_returns [OF room assms(4,5)] True unf
      by (simp add: disjoint_rest_def)
  next
    case False
    have "sta_merge_loop ?v1 ?v2 ?s = None"
    proof (rule ccontr)
      assume "sta_merge_loop ?v1 ?v2 ?s \<noteq> None"
      then obtain y where "sta_merge_loop ?v1 ?v2 ?s = Some y" by blast
      from merge_loop_diverges [OF this room assms(4,5)] False show False by (simp add: disjoint_rest_def)
    qed
    then show ?thesis using False unf by simp
  qed
qed

text \<open>Replacing a range by its sorted elements.\<close>

definition sort_range :: "int list \<Rightarrow> nat \<Rightarrow> nat \<Rightarrow> int list" where
  "sort_range xs lo hi = take lo xs @ sort (slice xs lo hi) @ drop hi xs"

lemma sort_range_slices:
  assumes "a \<le> b" "b \<le> length xs"
  shows "length (sort_range xs a b) = length xs" "slice (sort_range xs a b) a b = sort (slice xs a b)"
    "take a (sort_range xs a b) = take a xs" "drop b (sort_range xs a b) = drop b xs"
    "b \<le> c \<Longrightarrow> slice (sort_range xs a b) b c = slice xs b c"
    "c \<le> a \<Longrightarrow> slice (sort_range xs a b) c a = slice xs c a"
proof -
  show *: "length (sort_range xs a b) = length xs" "take a (sort_range xs a b) = take a xs" "drop b (sort_range xs a b) = drop b xs"
    using assms by (simp_all add: sort_range_def)
  show "slice (sort_range xs a b) a b = sort (slice xs a b)" using assms by (simp add: sort_range_def slice_def)
  show "b \<le> c \<Longrightarrow> slice (sort_range xs a b) b c = slice xs b c" using * by (simp add: slice_def)
  show "c \<le> a \<Longrightarrow> slice (sort_range xs a b) c a = slice xs c a"
    using * by (simp add: slice_def take_drop)
qed

lemma sta_mergeSort_ok:
  assumes "lo \<le> hi" and "hi < length xs" and "hi < 2 ^ 30"
  shows "sta_mergeSort xs (int lo) (int hi) =
    (if distinct (slice xs lo (hi + 1)) then Some (Inr (sort_range xs lo (hi + 1))) else None)"
  using assms
proof (induction "hi - lo" arbitrary: lo hi xs rule: less_induct)
  case less
  show ?case
  proof (cases "lo = hi")
    case True
    then have "slice xs lo (hi + 1) = [xs ! lo]" using less.prems slice_Cons [of lo "lo + 1" xs] by simp
    moreover have "sort_range xs lo (hi + 1) = xs"
      using True less.prems calculation id_take_nth_drop [of hi xs] by (simp add: sort_range_def)
    ultimately show ?thesis using True by (simp add: sta_mergeSort.simps [of xs "int hi"])
  next
    case False
    define mid where "mid = (lo + hi) div 2"
    have m: "lo \<le> mid" "mid < hi" using False less.prems(1) by (auto simp: mid_def)
    let ?l = "slice xs lo (mid + 1)" and ?r = "slice xs (mid + 1) (hi + 1)"
    let ?ys = "sort_range xs lo (mid + 1)"
    let ?zs = "sort_range ?ys (mid + 1) (hi + 1)"
    have split: "slice xs lo (hi + 1) = ?l @ ?r" using m by (intro slice_append) auto
    have "lo \<le> mid + 1" "mid + 1 \<le> length xs" using m less.prems(2) by auto
    note ys = sort_range_slices [OF this]
    have ry: "slice ?ys (mid + 1) (hi + 1) = ?r" using ys(5) m by simp
    have "mid + 1 \<le> hi + 1" "hi + 1 \<le> length ?ys" using m less.prems(2) ys(1) by auto
    note zs = sort_range_slices [OF this]
    have unf: "sta_mergeSort xs (int lo) (int hi) =
        Option.bind (sta_mergeSort xs (int lo) (int mid)) (\<lambda>r. case r of Inl e \<Rightarrow> Some (Inl e)
          | Inr vec \<Rightarrow> Option.bind (sta_mergeSort vec (int (mid + 1)) (int hi)) (\<lambda>r. case r of Inl e \<Rightarrow> Some (Inl e)
             | Inr vec \<Rightarrow> sta_merge vec (int lo) (int mid) (int hi)))"
      using False less.prems(1,3) middle_int [of lo hi] by (subst sta_mergeSort.simps) (simp add: mid_def add.commute)
    have left: "sta_mergeSort xs (int lo) (int mid) = (if distinct ?l then Some (Inr ?ys) else None)"
      using m less.prems(2,3) by (intro less.hyps) auto
    have right: "sta_mergeSort ?ys (int (mid + 1)) (int hi) = (if distinct ?r then Some (Inr ?zs) else None)"
      using less.hyps [of hi "mid + 1" ?ys] m less.prems(2,3) ys(1) ry by simp
    have zl: "slice ?zs lo (mid + 1) = sort ?l" using zs(6) [of lo] ys(2) m by simp
    have zr: "slice ?zs (mid + 1) (hi + 1) = sort ?r" using zs(2) ry by simp
    have "sta_merge ?zs (int lo) (int mid) (int hi) =
        (if set ?l \<inter> set ?r = {} then Some (Inr (take lo ?zs @ sort (slice ?zs lo (hi + 1)) @ drop (hi + 1) ?zs)) else None)"
      using sta_merge_ok [OF m, of ?zs] zl zr zs(1) ys(1) less.prems(2) by simp
    moreover have "sort (slice ?zs lo (hi + 1)) = sort (slice xs lo (hi + 1))"
      using slice_append [of lo "mid + 1" "hi + 1" ?zs] m zl zr split
      by (intro properties_for_sort) (simp_all)
    moreover have "take lo ?zs = take lo xs"
    proof -
      have "take lo ?zs = take lo (take (mid + 1) ?zs)" using m by simp
      also have "\<dots> = take lo ?ys" using zs(3) m by simp
      finally show ?thesis using ys(3) by simp
    qed
    moreover have "drop (hi + 1) ?zs = drop (hi + 1) xs"
    proof -
      have "drop (hi + 1) ?ys = drop (hi - mid) (drop (mid + 1) ?ys)" using m by simp
      also have "\<dots> = drop (hi - mid) (drop (mid + 1) xs)" by (simp only: ys(4))
      also have "\<dots> = drop (hi + 1) xs" using m by simp
      finally show ?thesis using zs(4) by simp
    qed
    ultimately have fin: "sta_merge ?zs (int lo) (int mid) (int hi) =
        (if set ?l \<inter> set ?r = {} then Some (Inr (sort_range xs lo (hi + 1))) else None)"
      unfolding sort_range_def [of xs lo "hi + 1"] by (simp only:)
    have d: "distinct (slice xs lo (hi + 1)) \<longleftrightarrow> distinct ?l \<and> distinct ?r \<and> set ?l \<inter> set ?r = {}"
      by (simp only: split distinct_append)
    show ?thesis unfolding unf left d
      by (cases "distinct ?l"; cases "distinct ?r"; cases "set ?l \<inter> set ?r = {}")
        (simp_all only: if_True if_False bind.simps sum.case right fin simp_thms)
  qed
qed

section \<open>Longest common subsequence\<close>

definition common :: "string \<Rightarrow> string \<Rightarrow> string \<Rightarrow> bool" where
  "common a b w \<longleftrightarrow> subseq w a \<and> subseq w b"

definition is_lcs :: "string \<Rightarrow> string \<Rightarrow> nat \<Rightarrow> bool" where
  "is_lcs a b k \<longleftrightarrow> (\<exists>w. common a b w \<and> length w = k) \<and> (\<forall>w. common a b w \<longrightarrow> length w \<le> k)"

lemma subseq_snoc: "subseq w (a @ [c]) \<longleftrightarrow> subseq w a \<or> (\<exists>w'. w = w' @ [c] \<and> subseq w' a)"
proof
  assume "subseq w (a @ [c])"
  then obtain u v where w: "w = u @ v" "subseq u a" "subseq v [c]" by (auto simp: subseq_append_iff)
  then have "v = [] \<or> v = [c]" by (cases v) (auto split: if_splits)
  then show "subseq w a \<or> (\<exists>w'. w = w' @ [c] \<and> subseq w' a)" using w by auto
next
  assume "subseq w a \<or> (\<exists>w'. w = w' @ [c] \<and> subseq w' a)"
  then show "subseq w (a @ [c])" by (auto intro: subseq_order.order_trans [OF _ subseq_rev_drop_many] simp: subseq_append_iff)
qed

lemma subseq_butlast: "subseq (w @ [d]) a \<Longrightarrow> subseq w a"
  by (meson list_emb_append2 subseq_order.order_trans subseq_rev_drop_many subseq_order.order_refl)

lemma is_lcs_Nil: "is_lcs [] b 0" "is_lcs a [] 0"
  by (auto simp: is_lcs_def common_def)

lemma is_lcs_same:
  assumes "is_lcs a b k"
  shows "is_lcs (a @ [c]) (b @ [c]) (Suc k)"
  unfolding is_lcs_def
proof (intro conjI allI impI)
  obtain w where "common a b w" "length w = k" using assms by (auto simp: is_lcs_def)
  then show "\<exists>w. common (a @ [c]) (b @ [c]) w \<and> length w = Suc k"
    by (intro exI [of _ "w @ [c]"]) (auto simp: common_def subseq_snoc)
  fix w assume w: "common (a @ [c]) (b @ [c]) w"
  show "length w \<le> Suc k"
  proof (cases w rule: rev_cases)
    case (snoc v d)
    then have "common a b v" using w by (auto simp: common_def subseq_snoc dest: subseq_butlast)
    then show ?thesis using assms snoc by (auto simp: is_lcs_def)
  qed simp
qed

lemma is_lcs_differ:
  assumes "is_lcs (a @ [c]) b k" and "is_lcs a (b @ [d]) l" and "c \<noteq> d"
  shows "is_lcs (a @ [c]) (b @ [d]) (max k l)"
  unfolding is_lcs_def
proof (intro conjI allI impI)
  have "\<exists>w. common (a @ [c]) (b @ [d]) w \<and> length w = k" "\<exists>w. common (a @ [c]) (b @ [d]) w \<and> length w = l"
    using assms(1,2) by (auto simp: is_lcs_def common_def subseq_snoc)
  then show "\<exists>w. common (a @ [c]) (b @ [d]) w \<and> length w = max k l" by (auto simp: max_def)
  fix w assume "common (a @ [c]) (b @ [d]) w"
  then have "common (a @ [c]) b w \<or> common a (b @ [d]) w"
    using assms(3) by (auto simp: common_def subseq_snoc)
  then show "length w \<le> max k l" using assms(1,2) by (auto simp: is_lcs_def le_max_iff_disj)
qed

lemma lcsWithRecursion1_ok:
  assumes "m \<le> length s1" and "n \<le> length s2"
  shows "\<exists>k. lcsWithRecursion1 s1 m s2 n = Inr (int k) \<and> is_lcs (take m s1) (take n s2) k"
  using assms
proof (induction s1 m s2 n rule: lcsWithRecursion1.induct)
  case (1 s1 s2 n)
  then show ?case by (simp add: is_lcs_Nil)
next
  case (2 s1 m s2)
  then show ?case by (simp add: is_lcs_Nil)
next
  case (3 s1 m s2 n)
  have c: "cell s1 m = Inr (s1 ! m)" "cell s2 n = Inr (s2 ! n)" using "3.prems" by (simp_all add: cell_ok)
  have t: "take (Suc m) s1 = take m s1 @ [s1 ! m]" "take (Suc n) s2 = take n s2 @ [s2 ! n]"
    using "3.prems" by (simp_all add: take_Suc_conv_app_nth)
  show ?case
  proof (cases "s1 ! m = s2 ! n")
    case True
    then obtain k where "lcsWithRecursion1 s1 m s2 n = Inr (int k)" "is_lcs (take m s1) (take n s2) k"
      using "3.IH"(1) [OF c] "3.prems" by auto
    then show ?thesis using True c t is_lcs_same [of "take m s1" "take n s2" k "s2 ! n"]
      by (intro exI [of _ "Suc k"]) simp
  next
    case False
    obtain a where a: "lcsWithRecursion1 s1 (Suc m) s2 n = Inr (int a)" "is_lcs (take (Suc m) s1) (take n s2) a"
      using "3.IH"(2) [OF c False] "3.prems" by auto
    obtain b where b: "lcsWithRecursion1 s1 m s2 (Suc n) = Inr (int b)" "is_lcs (take m s1) (take (Suc n) s2) b"
      using "3.IH"(3) [OF c False a(1)] "3.prems" by auto
    have "is_lcs (take (Suc m) s1) (take (Suc n) s2) (max a b)"
      using is_lcs_differ [OF _ _ False] a(2) b(2) t by simp
    moreover have "Max_int (int a) (int b) = int (max a b)" by (simp add: Max_int_def max_def)
    ultimately show ?thesis using False c a(1) b(1) by (intro exI [of _ "max a b"]) simp
  qed
qed

text \<open>The table holds a value only where it is the right one.\<close>

definition memo_ok :: "string \<Rightarrow> string \<Rightarrow> nat \<Rightarrow> nat \<Rightarrow> memo \<Rightarrow> bool" where
  "memo_ok s1 s2 M N ix \<longleftrightarrow>
     length ix = M \<and> (\<forall>i < M. length (ix ! i) = N \<and>
       (\<forall>j < N. ix ! i ! j \<le> 0 \<or> lcsWithRecursion1 s1 (Suc i) s2 (Suc j) = Inr (ix ! i ! j)))"

lemma memo_ok_get: "memo_ok s1 s2 M N ix \<Longrightarrow> i < M \<Longrightarrow> j < N \<Longrightarrow> memo_get ix i j = Inr (ix ! i ! j)"
  by (simp add: memo_ok_def memo_get_def cell_ok)

lemma memo_ok_set:
  assumes "memo_ok s1 s2 M N ix" and "i < M" and "j < N" and "lcsWithRecursion1 s1 (Suc i) s2 (Suc j) = Inr r"
  shows "\<exists>ix'. memo_set ix i j r = Inr ix' \<and> memo_ok s1 s2 M N ix' \<and> memo_get ix' i j = Inr r"
proof -
  have l: "length ix = M" "length (ix ! i) = N" using assms by (simp_all add: memo_ok_def)
  let ?ix = "ix[i := (ix ! i)[j := r]]"
  have "memo_set ix i j r = Inr ?ix" using l assms(2,3) by (simp add: memo_set_def cells_ok)
  moreover have "memo_ok s1 s2 M N ?ix"
    using assms l by (auto simp: memo_ok_def nth_list_update)
  moreover have "memo_get ?ix i j = Inr r" using l assms(2,3) by (simp add: memo_get_def cell_ok)
  ultimately show ?thesis by blast
qed

lemma childRecursion_ok:
  assumes "memo_ok s1 s2 M N ix" and "m \<le> M" and "n \<le> N" and "M \<le> length s1" and "N \<le> length s2"
  shows "\<exists>r ix'. childRecursion s1 m s2 n ix = Inr (r, ix') \<and> lcsWithRecursion1 s1 m s2 n = Inr r \<and> memo_ok s1 s2 M N ix'"
  using assms
proof (induction s1 m s2 n ix rule: childRecursion.induct)
  case (3 s1 m s2 n ix)
  have g: "memo_get ix m n = Inr (ix ! m ! n)" using "3.prems" by (intro memo_ok_get) auto
  show ?case
  proof (cases "ix ! m ! n > 0")
    case True
    then have "lcsWithRecursion1 s1 (Suc m) s2 (Suc n) = Inr (ix ! m ! n)"
      using "3.prems"(1-3) unfolding memo_ok_def by (metis Suc_le_lessD leD)
    then show ?thesis using True g "3.prems"(1) by simp
  next
    case False
    have c: "cell s1 m = Inr (s1 ! m)" "cell s2 n = Inr (s2 ! n)" using "3.prems" by (simp_all add: cell_ok)
    obtain r ix1 where r: "(if s1 ! m = s2 ! n then and_then (childRecursion s1 m s2 n ix) (\<lambda>(r, ix). Inr (1 + r, ix))
            else and_then (childRecursion s1 (Suc m) s2 n ix) (\<lambda>(a, ix).
                 and_then (childRecursion s1 m s2 (Suc n) ix) (\<lambda>(b, ix). Inr (Max_int a b, ix)))) = Inr (r, ix1)"
        "lcsWithRecursion1 s1 (Suc m) s2 (Suc n) = Inr r" "memo_ok s1 s2 M N ix1"
    proof (cases "s1 ! m = s2 ! n")
      case True
      then obtain a ix1 where "childRecursion s1 m s2 n ix = Inr (a, ix1)" "lcsWithRecursion1 s1 m s2 n = Inr a" "memo_ok s1 s2 M N ix1"
        using "3.IH"(1) [OF g False c True] "3.prems" by auto
      then show ?thesis using that [of "1 + a" ix1] True c by simp
    next
      case ne: False
      obtain a ix1 where a: "childRecursion s1 (Suc m) s2 n ix = Inr (a, ix1)" "lcsWithRecursion1 s1 (Suc m) s2 n = Inr a" "memo_ok s1 s2 M N ix1"
        using "3.IH"(2) [OF g False c ne] "3.prems" by auto
      obtain b ix2 where "childRecursion s1 m s2 (Suc n) ix1 = Inr (b, ix2)" "lcsWithRecursion1 s1 m s2 (Suc n) = Inr b" "memo_ok s1 s2 M N ix2"
        using "3.IH"(3) [OF g False c ne a(1) refl a(3)] "3.prems" by auto
      then show ?thesis using that [of "Max_int a b" ix2] ne c a by simp
    qed
    obtain ix2 where "memo_set ix1 m n r = Inr ix2" "memo_ok s1 s2 M N ix2" "memo_get ix2 m n = Inr r"
      using memo_ok_set [OF r(3) _ _ r(2)] "3.prems"(2,3) by auto
    then show ?thesis using False g c r by simp
  qed
qed simp_all

section \<open>Properties\<close>

text \<open>
  Bubble sort ends, although a pass need not shrink the range, and sorts exactly the range.
\<close>

theorem sta_bubbleSort_correct:
  assumes "lo \<le> hi" and "hi < length xs"
  shows "sta_bubbleSort xs (int lo) (int hi) = Some (Inr (sort_range xs lo (hi + 1)))"
proof -
  obtain ys where "sta_bubbleSort xs (int lo) (int hi) = Some (Inr ys)" "permuted xs ys lo (hi + 1)" "sorted_range ys lo (hi + 1)"
    using sta_bubbleSort_ok [OF assms] by blast
  then show ?thesis using permuted_sorted [of xs ys lo "hi + 1"] assms by (simp add: sort_range_def)
qed

theorem sta_bubbleSort_correct_witness: "sta_bubbleSort [3, 1, 2, 0] 0 2 = Some (Inr [1, 2, 3, 0])"
  using sta_bubbleSort_correct [of 0 2 "[3, 1, 2, 0]"] by (simp add: sort_range_def slice_def)

text \<open>
  C37. On a range that ends below \<open>2 ^ 30\<close>, where the sum of two indices is an \<open>int\<close>, merge sort returns exactly when the
  elements of the range are pairwise different, and then sorts the range; as soon as two elements are equal the
  merge takes neither and loops for ever.
\<close>

theorem sta_mergeSort_returns_iff_distinct:
  assumes "lo \<le> hi" and "hi < length xs" and "hi < 2 ^ 30"
  shows "sta_mergeSort xs (int lo) (int hi) =
    (if distinct (slice xs lo (hi + 1)) then Some (Inr (sort_range xs lo (hi + 1))) else None)"
  using assms by (rule sta_mergeSort_ok)

theorem sta_mergeSort_returns_iff_distinct_witness:
  "sta_mergeSort [3, 1, 2] 0 2 = Some (Inr [1, 2, 3]) \<and> sta_mergeSort [3, 1, 3] 0 2 = None"
  using sta_mergeSort_returns_iff_distinct [of 0 2 "[3, 1, 2]"] sta_mergeSort_returns_iff_distinct [of 0 2 "[3, 1, 3]"]
  by (simp add: sort_range_def slice_def)

text \<open>Beyond, the sum of the bounds overflows.\<close>

lemma sta_mergeSort_overflows: "lo < hi \<Longrightarrow> 2 ^ 31 \<le> lo + hi \<Longrightarrow> sta_mergeSort xs (int lo) (int hi) = Some (Inl Signed_overflow)"
  by (subst sta_mergeSort.simps) (simp add: middle_def)

text \<open>
  Both recursions compute the length of a longest common subsequence of the two prefixes; the
  table of the second one never gives a wrong entry.
\<close>

theorem lcs_correct:
  assumes "m \<le> length s1" and "n \<le> length s2"
  shows "\<exists>k. lcsWithRecursion1 s1 m s2 n = Inr (int k) \<and> lcsWithRecursion2 s1 m s2 n = Inr (int k) \<and>
    (\<exists>w. subseq w (take m s1) \<and> subseq w (take n s2) \<and> length w = k) \<and>
    (\<forall>w. subseq w (take m s1) \<and> subseq w (take n s2) \<longrightarrow> length w \<le> k)"
proof -
  obtain k where k: "lcsWithRecursion1 s1 m s2 n = Inr (int k)" "is_lcs (take m s1) (take n s2) k"
    using lcsWithRecursion1_ok [OF assms] by blast
  have "memo_ok s1 s2 m n (replicate m (replicate n (-1)))" by (simp add: memo_ok_def)
  from childRecursion_ok [OF this le_refl le_refl assms] have "lcsWithRecursion2 s1 m s2 n = Inr (int k)"
    using k(1) by (auto simp: lcsWithRecursion2_def)
  then show ?thesis using k by (auto simp: is_lcs_def common_def)
qed

theorem lcs_correct_witness:
  "lcsWithRecursion2 ''abcd'' 4 ''bxd'' 3 = Inr 2 \<and>
   (\<exists>w. subseq w (take 4 ''abcd'') \<and> subseq w (take 3 ''bxd'') \<and> length w = 2)"
proof -
  obtain k where k: "lcsWithRecursion1 ''abcd'' 4 ''bxd'' 3 = Inr (int k)" "lcsWithRecursion2 ''abcd'' 4 ''bxd'' 3 = Inr (int k)"
      "\<exists>w. subseq w (take 4 ''abcd'') \<and> subseq w (take 3 ''bxd'') \<and> length w = k"
    using lcs_correct [of 4 "''abcd''" 3 "''bxd''"] by auto
  have "lcsWithRecursion1 ''abcd'' 4 ''bxd'' 3 = Inr 2"
    by (simp add: numeral_eq_Suc cell_def Max_int_def)
  then have "k = 2" using k(1) by simp
  then show ?thesis using k by simp
qed

end
