(* ===== verification/Sta_Lists.thy ===== *)
theory Sta_Lists
  imports Sone_Prelude
begin

text \<open>
  The linked lists of \<^verbatim>\<open>src/sta/linkedlist.h\<close> and \<^verbatim>\<open>linkedlist.cpp\<close>: the singly
  linked list with a header node and the circular doubly linked list.  Nodes live in a store from
  addresses to nodes, the null pointer is \<open>None\<close>, \<open>delete\<close> removes the address, and \<open>new\<close>
  takes the next unused one.  A loop that follows the links need not end on a cyclic structure, so
  it is a partial function.
\<close>

section \<open>The singly linked list\<close>

record node =
  nd_value :: int
  nd_next :: "nat option"

type_synonym store = "nat \<rightharpoonup> node"

record linkedList =
  ll_header :: "nat option"
  ll_store :: store
  ll_fresh :: nat

definition node_of :: "store \<Rightarrow> nat option \<Rightarrow> node result" where
  "node_of st p =
     (case p of None \<Rightarrow> Inl Null_deref
      | Some a \<Rightarrow> (case st a of None \<Rightarrow> Inl Use_after_free | Some n \<Rightarrow> Inr n))"

definition new_node :: "int \<Rightarrow> linkedList \<Rightarrow> nat \<times> linkedList" where
  "new_node x l =
     (ll_fresh l, l\<lparr>ll_store := (ll_store l)(ll_fresh l \<mapsto> \<lparr>nd_value = x, nd_next = None\<rparr>),
                    ll_fresh := ll_fresh l + 1\<rparr>)"

definition set_next :: "nat option \<Rightarrow> nat option \<Rightarrow> store \<Rightarrow> store result" where
  "set_next p q st =
     (case p of None \<Rightarrow> Inl Null_deref
      | Some a \<Rightarrow> (case st a of None \<Rightarrow> Inl Use_after_free | Some n \<Rightarrow> Inr (st(a \<mapsto> n\<lparr>nd_next := q\<rparr>))))"

definition delete_node :: "nat option \<Rightarrow> store \<Rightarrow> store result" where
  "delete_node p st =
     (case p of None \<Rightarrow> Inr st
      | Some a \<Rightarrow> (case st a of None \<Rightarrow> Inl Use_after_free | Some _ \<Rightarrow> Inr (st(a := None))))"

definition linkedList_new :: "store \<Rightarrow> nat \<Rightarrow> linkedList" where
  "linkedList_new st fresh =
     (let (h, l) = new_node 0 \<lparr>ll_header = None, ll_store = st, ll_fresh = fresh\<rparr> in l\<lparr>ll_header := Some h\<rparr>)"

definition ll_isEmpty :: "linkedList \<Rightarrow> bool result" where
  "ll_isEmpty l =
     (if ll_header l = None then Inr True
      else and_then (node_of (ll_store l) (ll_header l)) (\<lambda>h. Inr (nd_next h = None)))"

definition ll_insert :: "int \<Rightarrow> nat option \<Rightarrow> linkedList \<Rightarrow> (bool \<times> linkedList) result" where
  "ll_insert x pos l =
     (if pos = None then Inr (False, l)
      else
        and_then (node_of (ll_store l) pos) (\<lambda>n.
        let (a, l) = new_node x l in
        and_then (set_next pos (Some a) (ll_store l)) (\<lambda>st.
        and_then (set_next (Some a) (nd_next n) st) (\<lambda>st. Inr (True, l\<lparr>ll_store := st\<rparr>)))))"

text \<open>\<open>while(p != NULL) { prev = p; p = p->next; }\<close>\<close>

partial_function (option) walk_end :: "store \<Rightarrow> nat option \<Rightarrow> nat option \<Rightarrow> nat option result option" where
  "walk_end st p prev =
     (if p = None then Some (Inr prev)
      else case node_of st p of Inl e \<Rightarrow> Some (Inl e) | Inr n \<Rightarrow> walk_end st (nd_next n) p)"

definition ll_push :: "int \<Rightarrow> linkedList \<Rightarrow> (bool \<times> linkedList) result option" where
  "ll_push x l =
     (case node_of (ll_store l) (ll_header l) of
        Inl e \<Rightarrow> Some (Inl e)
      | Inr h \<Rightarrow>
          if nd_next h = None then
            let (a, l) = new_node x l in
            Some (and_then (set_next (ll_header l) (Some a) (ll_store l)) (\<lambda>st. Inr (True, l\<lparr>ll_store := st\<rparr>)))
          else
            map_option (\<lambda>r. and_then r (\<lambda>prev.
                let (a, l) = new_node x l in
                and_then (set_next prev (Some a) (ll_store l)) (\<lambda>st. Inr (True, l\<lparr>ll_store := st\<rparr>))))
              (walk_end (ll_store l) (nd_next h) None))"

fun linkedList_of :: "int list \<Rightarrow> linkedList \<Rightarrow> linkedList result option" where
  "linkedList_of [] l = Some (Inr l)"
| "linkedList_of (x # xs) l =
     Option.bind (ll_push x l) (\<lambda>r. case r of Inl e \<Rightarrow> Some (Inl e) | Inr (_, l) \<Rightarrow> linkedList_of xs l)"

partial_function (option) find_loop :: "store \<Rightarrow> int \<Rightarrow> nat option \<Rightarrow> nat option result option" where
  "find_loop st x p =
     (if p = None then Some (Inr None)
      else case node_of st p of
        Inl e \<Rightarrow> Some (Inl e)
      | Inr n \<Rightarrow> if nd_value n = x then Some (Inr p) else find_loop st x (nd_next n))"

definition ll_find :: "int \<Rightarrow> linkedList \<Rightarrow> nat option result option" where
  "ll_find x l =
     (case node_of (ll_store l) (ll_header l) of
        Inl e \<Rightarrow> Some (Inl e) | Inr h \<Rightarrow> find_loop (ll_store l) x (nd_next h))"

partial_function (option) delete_loop :: "store \<Rightarrow> int \<Rightarrow> nat option \<Rightarrow> nat option \<Rightarrow> (bool \<times> store) result option" where
  "delete_loop st x p prev =
     (if p = None then Some (Inr (False, st))
      else case node_of st p of
        Inl e \<Rightarrow> Some (Inl e)
      | Inr n \<Rightarrow>
          if nd_value n = x then
            Some (and_then (set_next prev (nd_next n) st) (\<lambda>st. and_then (delete_node p st) (\<lambda>st. Inr (True, st))))
          else case node_of st prev of
            Inl e \<Rightarrow> Some (Inl e)
          | Inr pr \<Rightarrow> delete_loop st x (nd_next n) (nd_next pr))"

definition ll_Delete :: "int \<Rightarrow> linkedList \<Rightarrow> (bool \<times> linkedList) result option" where
  "ll_Delete x l =
     (case node_of (ll_store l) (ll_header l) of
        Inl e \<Rightarrow> Some (Inl e)
      | Inr h \<Rightarrow>
          if nd_next h = None then Some (Inr (False, l))
          else map_option (\<lambda>r. and_then r (\<lambda>(b, st). Inr (b, l\<lparr>ll_store := st\<rparr>)))
                 (delete_loop (ll_store l) x (nd_next h) (ll_header l)))"

partial_function (option) pop_loop :: "store \<Rightarrow> nat option \<Rightarrow> (int \<times> store) result option" where
  "pop_loop st p =
     (case node_of st p of
        Inl e \<Rightarrow> Some (Inl e)
      | Inr n \<Rightarrow>
          (case node_of st (nd_next n) of
             Inl e \<Rightarrow> Some (Inl e)
           | Inr q \<Rightarrow>
               if nd_next q = None then
                 Some (and_then (set_next p None st) (\<lambda>st. and_then (delete_node (nd_next n) st) (\<lambda>st. Inr (nd_value q, st))))
               else pop_loop st (nd_next n)))"

definition ll_pop :: "linkedList \<Rightarrow> (int \<times> linkedList) result option" where
  "ll_pop l =
     (case node_of (ll_store l) (ll_header l) of
        Inl e \<Rightarrow> Some (Inl e)
      | Inr h \<Rightarrow> map_option (\<lambda>r. and_then r (\<lambda>(x, st). Inr (x, l\<lparr>ll_store := st\<rparr>))) (pop_loop (ll_store l) (nd_next h)))"

definition ll_dequeue :: "linkedList \<Rightarrow> (int \<times> linkedList) result" where
  "ll_dequeue l =
     and_then (node_of (ll_store l) (ll_header l)) (\<lambda>h.
       if nd_next h = None then Inr (0, l)
       else
         and_then (node_of (ll_store l) (nd_next h)) (\<lambda>n.
         and_then (delete_node (nd_next h) (ll_store l)) (\<lambda>st.
         and_then (set_next (ll_header l) (nd_next n) st) (\<lambda>st.
           Inr (nd_value n, l\<lparr>ll_store := st\<rparr>)))))"

partial_function (option) destroy_loop :: "store \<Rightarrow> nat option \<Rightarrow> store result option" where
  "destroy_loop st p =
     (if p = None then Some (Inr st)
      else case node_of st p of
        Inl e \<Rightarrow> Some (Inl e)
      | Inr n \<Rightarrow> (case delete_node p st of Inl e \<Rightarrow> Some (Inl e) | Inr st \<Rightarrow> destroy_loop st (nd_next n)))"

definition ll_destroy :: "linkedList \<Rightarrow> store result option" where
  "ll_destroy l =
     (case and_then (node_of (ll_store l) (ll_header l)) (\<lambda>h.
             and_then (delete_node (ll_header l) (ll_store l)) (\<lambda>st. Inr (nd_next h, st))) of
        Inl e \<Rightarrow> Some (Inl e) | Inr (p, st) \<Rightarrow> destroy_loop st p)"

text \<open>\<open>operator<<\<close>, with the printed form of a number as an argument.\<close>

partial_function (option) print_loop :: "(int \<Rightarrow> string) \<Rightarrow> store \<Rightarrow> nat option \<Rightarrow> string \<Rightarrow> string result option" where
  "print_loop print st p os =
     (if p = None then Some (Inr os)
      else case node_of st p of
        Inl e \<Rightarrow> Some (Inl e)
      | Inr n \<Rightarrow> print_loop print st (nd_next n) (os @ print (nd_value n) @ '' ''))"

definition ll_print :: "(int \<Rightarrow> string) \<Rightarrow> linkedList \<Rightarrow> string result option" where
  "ll_print print l =
     (case node_of (ll_store l) (ll_header l) of Inl e \<Rightarrow> Some (Inl e) | Inr h \<Rightarrow> print_loop print (ll_store l) (nd_next h) [])"


section \<open>What a list holds\<close>

text \<open>
  \<open>path st p cs q\<close>: following the links from \<open>p\<close> visits the addresses and values
  \<open>cs\<close> and ends at \<open>q\<close>.  \<open>ll_rep F l xs\<close>: the list \<open>l\<close> holds the numbers
  \<open>xs\<close>, in nodes of its own, and the rest of its store is \<open>F\<close>.
\<close>

fun path :: "store \<Rightarrow> nat option \<Rightarrow> (nat \<times> int) list \<Rightarrow> nat option \<Rightarrow> bool" where
  "path st p [] q \<longleftrightarrow> p = q"
| "path st p (c # cs) q \<longleftrightarrow>
     p = Some (fst c) \<and> (\<exists>n. st (fst c) = Some n \<and> nd_value n = snd c \<and> path st (nd_next n) cs q)"

definition ll_rep :: "store \<Rightarrow> linkedList \<Rightarrow> int list \<Rightarrow> bool" where
  "ll_rep F l xs \<longleftrightarrow>
     (\<exists>h v cs.
        ll_header l = Some h \<and> path (ll_store l) (Some h) ((h, v) # cs) None \<and> xs = map snd cs \<and>
        distinct (h # map fst cs) \<and> ll_store l |` (- set (h # map fst cs)) = F \<and>
        (\<forall>a \<ge> ll_fresh l. ll_store l a = None))"

lemma path_None [simp]: "path st None cs q \<longleftrightarrow> cs = [] \<and> q = None"
  by (cases cs) auto

lemma path_append: "path st p (cs @ ds) q \<longleftrightarrow> (\<exists>r. path st p cs r \<and> path st r ds q)"
  by (induction cs arbitrary: p) auto

lemma path_away: "a \<notin> fst ` set cs \<Longrightarrow> path (st(a := n)) p cs q \<longleftrightarrow> path st p cs q"
  by (induction cs arbitrary: p) auto

lemma path_live: "path st p cs q \<Longrightarrow> c \<in> set cs \<Longrightarrow> \<exists>n. st (fst c) = Some n \<and> nd_value n = snd c"
  by (induction cs arbitrary: p) auto

lemma path_end: "path st p cs None \<Longrightarrow> cs = [] \<longleftrightarrow> p = None"
  by (cases cs) auto

lemma path_snoc:
  "path st p (cs @ [c]) q \<longleftrightarrow>
     path st p cs (Some (fst c)) \<and> (\<exists>n. st (fst c) = Some n \<and> nd_value n = snd c \<and> nd_next n = q)"
  by (auto simp: path_append)

lemma node_of_simps [simp]:
  "node_of st None = Inl Null_deref"
  "st a = Some n \<Longrightarrow> node_of st (Some a) = Inr n"
  by (simp_all add: node_of_def)

lemma set_next_live [simp]: "st a = Some n \<Longrightarrow> set_next (Some a) q st = Inr (st(a \<mapsto> n\<lparr>nd_next := q\<rparr>))"
  by (simp add: set_next_def)

lemma delete_node_live [simp]: "st a = Some n \<Longrightarrow> delete_node (Some a) st = Inr (st(a := None))"
  by (simp add: delete_node_def)

lemma restrict_own: "a \<in> A \<Longrightarrow> m(a := x) |` (- A) = m |` (- A)"
  by (auto simp: restrict_map_def fun_eq_iff)

lemma restrict_released: "a \<in> A \<Longrightarrow> m(a := None) |` (- (A - {a})) = m |` (- A)"
  by (auto simp: restrict_map_def fun_eq_iff)

lemma restrict_acquired: "m a = None \<Longrightarrow> m(a := x) |` (- insert a A) = m |` (- A)"
  by (auto simp: restrict_map_def fun_eq_iff)

lemma ll_repI:
  assumes "ll_header l = Some h" "path (ll_store l) (Some h) ((h, v) # cs) None" "xs = map snd cs"
    "distinct (h # map fst cs)" "ll_store l |` (- set (h # map fst cs)) = F"
    "\<And>a. ll_fresh l \<le> a \<Longrightarrow> ll_store l a = None"
  shows "ll_rep F l xs"
  unfolding ll_rep_def using assms by blast

lemma ll_repE:
  assumes "ll_rep F l xs"
  obtains h hn cs where "ll_header l = Some h" "ll_store l h = Some hn" "path (ll_store l) (nd_next hn) cs None"
    "xs = map snd cs" "distinct (h # map fst cs)" "ll_store l |` (- set (h # map fst cs)) = F"
    "\<And>a. ll_fresh l \<le> a \<Longrightarrow> ll_store l a = None"
  using assms unfolding ll_rep_def by auto

text \<open>The last link of a path is where a node is linked in; \<open>relink\<close> is the update all the
  operations perform: the link behind a prefix of the list gets a new target.\<close>

lemma relink:
  assumes "path st p (cs @ [c]) q" and "distinct (map fst (cs @ [c]))" and "st (fst c) = Some n"
  shows "path (st(fst c \<mapsto> n\<lparr>nd_next := r\<rparr>)) p (cs @ [c]) r"
proof -
  have "fst c \<notin> fst ` set cs" using assms(2) by auto
  then show ?thesis using assms(1,3) by (auto simp: path_snoc path_away)
qed

section \<open>The operations on lists of numbers\<close>

theorem linkedList_new_rep:
  "(\<And>a. fresh \<le> a \<Longrightarrow> st a = None) \<Longrightarrow> ll_rep st (linkedList_new st fresh) []"
  by (rule ll_repI [where h = fresh and v = 0 and cs = "[]"])
    (auto simp: linkedList_new_def new_node_def restrict_map_def fun_eq_iff)

lemma walk_end_path:
  assumes "path st p cs None"
  shows "walk_end st p prev = Some (Inr (if cs = [] then prev else Some (fst (last cs))))"
  using assms
proof (induction cs arbitrary: p prev)
  case Nil
  then show ?case by (subst walk_end.simps) simp
next
  case (Cons c cs)
  then show ?case by (subst walk_end.simps) (auto split: if_splits)
qed

text \<open>Linking a new node behind the last one.\<close>

lemma append_node:
  assumes rep: "ll_header l = Some h" "path (ll_store l) (Some h) ((h, v) # cs) None"
    "distinct (h # map fst cs)" "\<And>a. ll_fresh l \<le> a \<Longrightarrow> ll_store l a = None"
    and st: "ll_store l (fst (last ((h, v) # cs))) = Some n"
    and l': "l' = l\<lparr>ll_fresh := Suc (ll_fresh l),
      ll_store := (ll_store l)(ll_fresh l \<mapsto> \<lparr>nd_value = x, nd_next = None\<rparr>,
                               fst (last ((h, v) # cs)) \<mapsto> n\<lparr>nd_next := Some (ll_fresh l)\<rparr>)\<rparr>"
  shows "ll_rep (ll_store l |` (- set (h # map fst cs))) l' (map snd cs @ [x])"
proof -
  let ?as = "(h, v) # cs" and ?f = "ll_fresh l" and ?new = "\<lparr>nd_value = x, nd_next = None\<rparr>"
  obtain bs c where bs: "?as = bs @ [c]" by (metis list.distinct(1) rev_exhaust)
  have c: "last ?as = c" using bs by simp
  have own: "a \<in> set (map fst ?as) \<Longrightarrow> ll_store l a \<noteq> None" for a
    using path_live [OF rep(2)] by fastforce
  then have fresh: "?f \<notin> set (map fst ?as)" using rep(4) [of ?f] by blast
  have dist: "distinct (map fst (bs @ [c]))" using rep(3) unfolding bs [symmetric] by simp
  have "path ((ll_store l)(?f \<mapsto> ?new)) (Some h) (bs @ [c]) None"
    using rep(2) fresh unfolding bs by (subst path_away) auto
  then have "path ((ll_store l)(?f \<mapsto> ?new, fst c \<mapsto> n\<lparr>nd_next := Some ?f\<rparr>)) (Some h) (bs @ [c]) (Some ?f)"
    by (rule relink [OF _ dist]) (use st c fresh bs in auto)
  moreover have cf: "fst c \<noteq> ?f" using fresh unfolding bs by auto
  ultimately have p: "path (ll_store l') (Some h) (?as @ [(?f, x)]) None"
    unfolding bs path_snoc [of _ _ "bs @ [c]"] by (simp add: l' c [simplified] del: append_assoc)
  have "fst c \<in> set (map fst ?as)" unfolding bs by simp
  then have "ll_store l' |` (- insert ?f (set (map fst ?as))) = ll_store l |` (- set (map fst ?as))"
    using rep(4) [of ?f] by (auto simp: l' c restrict_map_def fun_eq_iff)
  then have r: "ll_store l' |` (- set (h # map fst (cs @ [(?f, x)]))) = ll_store l |` (- set (h # map fst cs))"
    by (simp add: insert_commute)
  show ?thesis
  proof (rule ll_repI [where h = h and v = v and cs = "cs @ [(?f, x)]"])
    show "ll_header l' = Some h" by (simp add: l' rep(1))
    show "path (ll_store l') (Some h) ((h, v) # cs @ [(?f, x)]) None" using p by simp
    show "distinct (h # map fst (cs @ [(?f, x)]))" using rep(3) fresh by auto
    show "ll_store l' |` (- set (h # map fst (cs @ [(?f, x)]))) = ll_store l |` (- set (h # map fst cs))" by (rule r)
    show "ll_store l' a = None" if "ll_fresh l' \<le> a" for a
    proof -
      have "fst c \<in> set (map fst ?as)" unfolding bs by simp
      then have "ll_store l (fst c) \<noteq> None" by (rule own)
      then have "fst c < ?f" using rep(4) [of "fst c"] by (meson linorder_not_le)
      then show ?thesis using that rep(4) [of a] c unfolding l' by (simp del: last.simps)
    qed
  qed simp
qed

lemma push_appends:
  assumes "ll_rep F l xs"
  shows "\<exists>l'. ll_push x l = Some (Inr (True, l')) \<and> ll_rep F l' (xs @ [x])"
proof -
  obtain h hn cs where r: "ll_header l = Some h" "ll_store l h = Some hn"
      "path (ll_store l) (nd_next hn) cs None" "xs = map snd cs" "distinct (h # map fst cs)"
      "ll_store l |` (- set (h # map fst cs)) = F" "\<And>a. ll_fresh l \<le> a \<Longrightarrow> ll_store l a = None"
    by (rule ll_repE [OF assms]) blast
  have p: "path (ll_store l) (Some h) ((h, nd_value hn) # cs) None" using r by simp
  have "last ((h, nd_value hn) # cs) \<in> set ((h, nd_value hn) # cs)" by (rule last_in_set) simp
  from path_live [OF p this] obtain n where n: "ll_store l (fst (last ((h, nd_value hn) # cs))) = Some n" by blast
  have ne: "fst (last ((h, nd_value hn) # cs)) \<noteq> ll_fresh l" using n r(7) [of "ll_fresh l"] by auto
  have end': "walk_end (ll_store l) (nd_next hn) None = Some (Inr (if cs = [] then None else Some (fst (last cs))))"
    by (rule walk_end_path [OF r(3)])
  show ?thesis
    using append_node [OF r(1) p r(5,7) n refl, of x] n ne r(1,2,4,6) end' path_end [OF r(3)]
    by (cases "cs = []") (auto simp: ll_push_def new_node_def)
qed

lemma dequeue_takes_front:
  assumes "ll_rep F l xs"
  shows "\<exists>l'. ll_dequeue l = Inr (if xs = [] then 0 else hd xs, l') \<and> ll_rep F l' (tl xs)"
proof -
  obtain h hn cs where r: "ll_header l = Some h" "ll_store l h = Some hn"
      "path (ll_store l) (nd_next hn) cs None" "xs = map snd cs" "distinct (h # map fst cs)"
      "ll_store l |` (- set (h # map fst cs)) = F" "\<And>a. ll_fresh l \<le> a \<Longrightarrow> ll_store l a = None"
    by (rule ll_repE [OF assms]) blast
  show ?thesis
  proof (cases cs)
    case Nil
    then show ?thesis using assms r(1-4) by (simp add: ll_dequeue_def)
  next
    case (Cons c ds)
    then obtain n where n: "ll_store l (fst c) = Some n" "nd_value n = snd c" "nd_next hn = Some (fst c)"
        "path (ll_store l) (nd_next n) ds None"
      using r(3) by auto
    let ?st = "(ll_store l)(fst c := None, h \<mapsto> hn\<lparr>nd_next := nd_next n\<rparr>)"
    have "ll_rep F (l\<lparr>ll_store := ?st\<rparr>) (map snd ds)"
    proof (rule ll_repI [where h = h and v = "nd_value hn" and cs = ds])
      show "path (ll_store (l\<lparr>ll_store := ?st\<rparr>)) (Some h) ((h, nd_value hn) # ds) None"
        using n(4) r(5) Cons by (simp add: path_away image_iff)
      show "ll_store (l\<lparr>ll_store := ?st\<rparr>) |` (- set (h # map fst ds)) = F"
        unfolding r(6) [symmetric] using r(5) Cons by (auto simp: restrict_map_def fun_eq_iff)
    qed (use r Cons in auto)
    then show ?thesis using r(1,2,4,5) n Cons by (auto simp: ll_dequeue_def)
  qed
qed


lemma find_loop_path:
  assumes "path st p cs None"
  shows "find_loop st x p = Some (Inr (map_option fst (List.find (\<lambda>c. snd c = x) cs)))"
  using assms
proof (induction cs arbitrary: p)
  case Nil
  then show ?case by (subst find_loop.simps) simp
next
  case (Cons c cs)
  then show ?case by (subst find_loop.simps) auto
qed

lemma find_first:
  assumes "ll_rep F l xs"
  shows "\<exists>r. ll_find x l = Some (Inr r) \<and>
    (case r of None \<Rightarrow> x \<notin> set xs
     | Some a \<Rightarrow> x \<in> set xs \<and> (\<exists>n. ll_store l a = Some n \<and> nd_value n = x))"
proof -
  obtain h hn cs where r: "ll_header l = Some h" "ll_store l h = Some hn"
      "path (ll_store l) (nd_next hn) cs None" "xs = map snd cs"
    by (rule ll_repE [OF assms]) blast
  have "(case map_option fst (List.find (\<lambda>c. snd c = x) cs) of None \<Rightarrow> x \<notin> set xs
     | Some a \<Rightarrow> x \<in> set xs \<and> (\<exists>n. ll_store l a = Some n \<and> nd_value n = x))"
  proof (cases "List.find (\<lambda>c. snd c = x) cs")
    case None
    then have "x \<notin> set xs" using r(4) by (auto simp: find_None_iff)
    then show ?thesis using None by simp
  next
    case (Some c)
    then have "c \<in> set cs" "snd c = x" by (auto simp: find_Some_iff)
    then show ?thesis using path_live [OF r(3), of c] r(4) Some by auto
  qed
  then show ?thesis using r find_loop_path [OF r(3)] by (simp add: ll_find_def)
qed

text \<open>The walk of \<open>Delete\<close>, with the cells \<open>bs\<close> behind it that end at \<open>prev\<close>.\<close>

lemma delete_loop_path:
  assumes "path st q (bs @ b # cs) None" and "distinct (map fst (bs @ b # cs))" and "st (fst b) = Some n"
  shows "\<exists>st'. delete_loop st x (nd_next n) (Some (fst b)) = Some (Inr (x \<in> snd ` set cs, st')) \<and>
    (\<exists>cs'. path st' q (bs @ b # cs') None \<and> map snd cs' = remove1 x (map snd cs) \<and> set cs' \<subseteq> set cs \<and>
       distinct (map fst (bs @ b # cs')) \<and> (\<forall>a. a \<notin> fst ` set (bs @ b # cs) \<longrightarrow> st' a = st a) \<and>
       (\<forall>a \<in> fst ` set cs - fst ` set cs'. st' a = None))"
  using assms
proof (induction cs arbitrary: bs b n)
  case Nil
  then have "nd_next n = None" by (auto simp: path_append)
  then show ?case using Nil by (subst delete_loop.simps) auto
next
  case (Cons c cs)
  from Cons.prems obtain m where m: "nd_next n = Some (fst c)" "st (fst c) = Some m" "nd_value m = snd c"
      "path st (nd_next m) cs None" "path st q bs (Some (fst b))" "snd b = nd_value n"
    by (auto simp: path_append)
  show ?case
  proof (cases "snd c = x")
    case True
    let ?st = "st(fst b \<mapsto> n\<lparr>nd_next := nd_next m\<rparr>, fst c := None)"
    have ne: "fst b \<noteq> fst c" "fst b \<notin> fst ` set bs" "fst c \<notin> fst ` set bs" "fst b \<notin> fst ` set cs"
        "fst c \<notin> fst ` set cs" using Cons.prems(2) by auto
    have "path ?st q (bs @ b # cs) None"
      using m ne by (auto simp: path_append path_away)
    moreover have "delete_loop st x (nd_next n) (Some (fst b)) = Some (Inr (True, ?st))"
      using True m ne Cons.prems(3) by (subst delete_loop.simps) simp
    moreover have "\<forall>a \<in> fst ` set (c # cs) - fst ` set cs. ?st a = None" by auto
    moreover have "\<forall>a. a \<notin> fst ` set (bs @ b # c # cs) \<longrightarrow> ?st a = st a" by auto
    moreover have "distinct (map fst (bs @ b # cs))" using Cons.prems(2) by auto
    moreover have "map snd cs = remove1 x (map snd (c # cs))" "set cs \<subseteq> set (c # cs)" "(x \<in> snd ` set (c # cs)) = True"
      using True by auto
    ultimately show ?thesis by metis
  next
    case False
    have step: "delete_loop st x (nd_next n) (Some (fst b)) = delete_loop st x (nd_next m) (Some (fst c))"
      using False m Cons.prems(3) by (subst delete_loop.simps) simp
    have "path st q ((bs @ [b]) @ c # cs) None" "distinct (map fst ((bs @ [b]) @ c # cs))"
      using Cons.prems by simp_all
    from Cons.IH [OF this m(2)] obtain st' cs' where st':
        "delete_loop st x (nd_next m) (Some (fst c)) = Some (Inr (x \<in> snd ` set cs, st'))"
        "path st' q (bs @ b # c # cs') None" "map snd cs' = remove1 x (map snd cs)" "set cs' \<subseteq> set cs"
        "distinct (map fst (bs @ b # c # cs'))" "\<forall>a. a \<notin> fst ` set (bs @ b # c # cs) \<longrightarrow> st' a = st a"
        "\<forall>a \<in> fst ` set cs - fst ` set cs'. st' a = None"
      by auto
    then show ?thesis using False step
      by (intro exI [of _ st'] conjI exI [of _ "c # cs'"]) auto
  qed
qed

lemma Delete_removes_first:
  assumes "ll_rep F l xs"
  shows "\<exists>l'. ll_Delete x l = Some (Inr (x \<in> set xs, l')) \<and> ll_rep F l' (remove1 x xs)"
proof -
  obtain h hn cs where r: "ll_header l = Some h" "ll_store l h = Some hn"
      "path (ll_store l) (nd_next hn) cs None" "xs = map snd cs" "distinct (h # map fst cs)"
      "ll_store l |` (- set (h # map fst cs)) = F" "\<And>a. ll_fresh l \<le> a \<Longrightarrow> ll_store l a = None"
    by (rule ll_repE [OF assms]) blast
  have "path (ll_store l) (Some h) ([] @ (h, nd_value hn) # cs) None" "distinct (map fst ([] @ (h, nd_value hn) # cs))"
    using r by simp_all
  from delete_loop_path [OF this, of hn x] r(2) obtain st' cs' where st':
      "delete_loop (ll_store l) x (nd_next hn) (Some h) = Some (Inr (x \<in> snd ` set cs, st'))"
      "path st' (Some h) ((h, nd_value hn) # cs') None" "map snd cs' = remove1 x (map snd cs)" "set cs' \<subseteq> set cs"
      "distinct (h # map fst cs')" "\<forall>a. a \<notin> insert h (fst ` set cs) \<longrightarrow> st' a = ll_store l a"
      "\<forall>a \<in> fst ` set cs - fst ` set cs'. st' a = None"
    by auto
  have "ll_rep F (l\<lparr>ll_store := st'\<rparr>) (remove1 x xs)"
  proof (rule ll_repI [where h = h and v = "nd_value hn" and cs = cs'])
    show "ll_store (l\<lparr>ll_store := st'\<rparr>) |` (- set (h # map fst cs')) = F"
      unfolding r(6) [symmetric] using st'(4,6,7) by (auto simp: restrict_map_def fun_eq_iff image_iff)
    show "ll_store (l\<lparr>ll_store := st'\<rparr>) a = None" if "ll_fresh (l\<lparr>ll_store := st'\<rparr>) \<le> a" for a
    proof -
      have "a \<notin> insert h (fst ` set cs)"
        using that r(2) r(7) [of a] path_live [OF r(3)] by fastforce
      then show ?thesis using that st'(6) r(7) [of a] by simp
    qed
  qed (use r(1,4) st' in auto)
  then show ?thesis
    using r(1,2,4) st'(1) path_end [OF r(3)] assms by (cases "cs = []") (auto simp: ll_Delete_def)
qed


text \<open>
  \<open>pop\<close> steps to the second node before it looks at it: it takes the last element of a list of
  two or more, and follows the null pointer on a list of one element and on the empty list.
\<close>

lemma pop_loop_path:
  assumes "path st q (bs @ b # c # cs) None" and "distinct (map fst (bs @ b # c # cs))"
  shows "\<exists>st'. pop_loop st (Some (fst b)) = Some (Inr (snd (last (c # cs)), st')) \<and>
    path st' q (bs @ b # butlast (c # cs)) None \<and> st' (fst (last (c # cs))) = None \<and>
    (\<forall>a. a \<notin> fst ` set (bs @ b # c # cs) \<longrightarrow> st' a = st a)"
  using assms
proof (induction cs arbitrary: bs b c)
  case Nil
  then obtain n m where m: "st (fst b) = Some n" "nd_value n = snd b" "nd_next n = Some (fst c)"
      "st (fst c) = Some m" "nd_value m = snd c" "nd_next m = None" "path st q bs (Some (fst b))"
    by (auto simp: path_append)
  let ?st = "st(fst b \<mapsto> n\<lparr>nd_next := None\<rparr>, fst c := None)"
  have "fst b \<noteq> fst c" "fst b \<notin> fst ` set bs" "fst c \<notin> fst ` set bs" using Nil.prems(2) by auto
  then have "path ?st q (bs @ [b]) None" "pop_loop st (Some (fst b)) = Some (Inr (snd c, ?st))"
    using m by (auto simp: path_append path_away pop_loop.simps [of st "Some (fst b)"])
  then show ?case by auto
next
  case (Cons d cs)
  then obtain n m where m: "st (fst b) = Some n" "nd_next n = Some (fst c)"
      "st (fst c) = Some m" "nd_next m = Some (fst d)"
    by (auto simp: path_append)
  have step: "pop_loop st (Some (fst b)) = pop_loop st (Some (fst c))"
    using m by (subst pop_loop.simps) simp
  have "path st q ((bs @ [b]) @ c # d # cs) None" "distinct (map fst ((bs @ [b]) @ c # d # cs))"
    using Cons.prems by simp_all
  from Cons.IH [OF this] obtain st' where st': "pop_loop st (Some (fst c)) = Some (Inr (snd (last (d # cs)), st'))"
      "path st' q (bs @ b # c # butlast (d # cs)) None" "st' (fst (last (d # cs))) = None"
      "\<forall>a. a \<notin> fst ` set ((bs @ [b]) @ c # d # cs) \<longrightarrow> st' a = st a"
    by auto
  then show ?case using step by (intro exI [of _ st']) simp
qed

lemma pop_cases:
  assumes "ll_rep F l xs"
  shows "if 2 \<le> length xs then \<exists>l'. ll_pop l = Some (Inr (last xs, l')) \<and> ll_rep F l' (butlast xs)
         else ll_pop l = Some (Inl Null_deref)"
proof -
  obtain h hn cs where r: "ll_header l = Some h" "ll_store l h = Some hn"
      "path (ll_store l) (nd_next hn) cs None" "xs = map snd cs" "distinct (h # map fst cs)"
      "ll_store l |` (- set (h # map fst cs)) = F" "\<And>a. ll_fresh l \<le> a \<Longrightarrow> ll_store l a = None"
    by (rule ll_repE [OF assms]) blast
  consider "cs = []" | c where "cs = [c]" | b c ds where "cs = b # c # ds" by (metis neq_Nil_conv)
  then show ?thesis
  proof cases
    case 1
    then show ?thesis using r by (simp add: ll_pop_def pop_loop.simps [of _ None])
  next
    case (2 c)
    then obtain n where "nd_next hn = Some (fst c)" "ll_store l (fst c) = Some n" "nd_next n = None"
      using r(3) by auto
    then show ?thesis using r 2 by (simp add: ll_pop_def pop_loop.simps [of _ "Some (fst c)"])
  next
    case (3 b c ds)
    have p: "path (ll_store l) (Some h) ([(h, nd_value hn)] @ b # c # ds) None"
        "distinct (map fst ([(h, nd_value hn)] @ b # c # ds))" using r 3 by simp_all
    from pop_loop_path [OF this] obtain st' where st':
        "pop_loop (ll_store l) (Some (fst b)) = Some (Inr (snd (last (c # ds)), st'))"
        "path st' (Some h) ((h, nd_value hn) # b # butlast (c # ds)) None" "st' (fst (last (c # ds))) = None"
        "\<forall>a. a \<notin> insert h (fst ` set cs) \<longrightarrow> st' a = ll_store l a"
      using 3 by auto
    have cs: "cs = butlast cs @ [last cs]" "last cs = last (c # ds)" "butlast cs = b # butlast (c # ds)"
      using 3 by auto
    then have addrs: "set (map fst cs) = insert (fst (last cs)) (set (map fst (butlast cs)))"
      by (metis list.set_map list.simps(15) map_append set_append Un_insert_right append_Nil2 list.simps(8,9) sup_bot.right_neutral)
    have "ll_rep F (l\<lparr>ll_store := st'\<rparr>) (butlast xs)"
    proof (rule ll_repI [where h = h and v = "nd_value hn" and cs = "butlast cs"])
      show "distinct (h # map fst (butlast cs))"
        using r(5) by (auto simp: map_butlast distinct_butlast dest: in_set_butlastD)
      show "ll_store (l\<lparr>ll_store := st'\<rparr>) |` (- set (h # map fst (butlast cs))) = F"
        unfolding r(6) [symmetric] using st'(3,4) addrs cs(2)
        by (auto simp: restrict_map_def fun_eq_iff)
      show "ll_store (l\<lparr>ll_store := st'\<rparr>) a = None" if "ll_fresh (l\<lparr>ll_store := st'\<rparr>) \<le> a" for a
      proof -
        have "a \<notin> insert h (fst ` set cs)"
          using that r(2) r(7) [of a] path_live [OF r(3)] by fastforce
        then show ?thesis using that st'(4) r(7) [of a] by simp
      qed
      show "path (ll_store (l\<lparr>ll_store := st'\<rparr>)) (Some h) ((h, nd_value hn) # butlast cs) None"
        using st'(2) cs(3) by simp
    qed (use r(1,4) in \<open>auto simp: map_butlast\<close>)
    moreover have "nd_next hn = Some (fst b)" using r(3) 3 by simp
    ultimately show ?thesis using r(1,2,4) st'(1) 3 by (auto simp: ll_pop_def last_map)
  qed
qed

lemma destroy_loop_path:
  assumes "path st p cs None" and "distinct (map fst cs)"
  shows "destroy_loop st p = Some (Inr (st |` (- fst ` set cs)))"
  using assms
proof (induction cs arbitrary: st p)
  case Nil
  then show ?case by (subst destroy_loop.simps) (simp add: restrict_map_def)
next
  case (Cons c cs)
  then obtain n where n: "p = Some (fst c)" "st (fst c) = Some n" "path st (nd_next n) cs None" by auto
  have "path (st(fst c := None)) (nd_next n) cs None" using n(3) Cons.prems(2) by (simp add: path_away)
  moreover have "st(fst c := None) |` (- fst ` set cs) = st |` (- fst ` set (c # cs))"
    by (auto simp: restrict_map_def fun_eq_iff)
  ultimately have "destroy_loop (st(fst c := None)) (nd_next n) = Some (Inr (st |` (- fst ` set (c # cs))))"
    using Cons.IH [of "st(fst c := None)" "nd_next n"] Cons.prems(2) by (simp only: distinct.simps list.map simp_thms)
  then show ?case using n(1,2) by (subst destroy_loop.simps) simp
qed

lemma destroy_frees_all:
  assumes "ll_rep F l xs"
  shows "ll_destroy l = Some (Inr F)"
proof -
  obtain h hn cs where r: "ll_header l = Some h" "ll_store l h = Some hn"
      "path (ll_store l) (nd_next hn) cs None" "distinct (h # map fst cs)"
      "ll_store l |` (- set (h # map fst cs)) = F"
    by (rule ll_repE [OF assms]) blast
  have "path ((ll_store l)(h := None)) (nd_next hn) cs None" using r(3,4) by (simp add: path_away)
  then have "destroy_loop ((ll_store l)(h := None)) (nd_next hn) =
      Some (Inr ((ll_store l)(h := None) |` (- fst ` set cs)))"
    using r(4) by (intro destroy_loop_path) simp_all
  moreover have "(ll_store l)(h := None) |` (- fst ` set cs) = F"
    unfolding r(5) [symmetric] by (auto simp: restrict_map_def fun_eq_iff)
  ultimately show ?thesis using r(1,2) by (simp add: ll_destroy_def)
qed

lemma print_loop_path:
  assumes "path st p cs None"
  shows "print_loop print st p os = Some (Inr (os @ concat (map (\<lambda>c. print (snd c) @ '' '') cs)))"
  using assms
proof (induction cs arbitrary: p os)
  case Nil
  then show ?case by (subst print_loop.simps) simp
next
  case (Cons c cs)
  then show ?case by (subst print_loop.simps) auto
qed

lemma print_all:
  assumes "ll_rep F l xs"
  shows "ll_print print l = Some (Inr (concat (map (\<lambda>x. print x @ '' '') xs)))"
proof -
  obtain h hn cs where r: "ll_header l = Some h" "ll_store l h = Some hn"
      "path (ll_store l) (nd_next hn) cs None" "xs = map snd cs"
    by (rule ll_repE [OF assms]) blast
  show ?thesis using r print_loop_path [OF r(3), of print "[]"] by (simp add: ll_print_def comp_def)
qed

lemma isEmpty_iff: "ll_rep F l xs \<Longrightarrow> ll_isEmpty l = Inr (xs = [])"
  by (erule ll_repE) (auto simp: ll_isEmpty_def dest: path_end)


text \<open>
  \<open>insert\<close> behind a node of the list; the header node counts as position 0.
\<close>

lemma insert_behind:
  assumes "ll_header l = Some h" "path (ll_store l) (Some h) ((h, v) # cs) None"
    and "distinct (h # map fst cs)" "\<And>a. ll_fresh l \<le> a \<Longrightarrow> ll_store l a = None"
    and "(h, v) # cs = as @ b # ds"
  shows "\<exists>l'. ll_insert x (Some (fst b)) l = Inr (True, l') \<and>
    ll_rep (ll_store l |` (- set (h # map fst cs))) l' (map snd (tl (as @ [b])) @ x # map snd ds)"
proof -
  obtain n where n: "path (ll_store l) (Some h) as (Some (fst b))" "ll_store l (fst b) = Some n" "nd_value n = snd b"
      "path (ll_store l) (nd_next n) ds None"
    using assms(2) unfolding assms(5) by (auto simp: path_append)
  let ?f = "ll_fresh l"
  have live: "ll_store l (fst d) \<noteq> None" if "d \<in> set (as @ b # ds)" for d
    using path_live [OF assms(2)] that unfolding assms(5) [symmetric] by fastforce
  then have f: "?f \<notin> fst ` set (as @ b # ds)" using assms(4) [of ?f] by force
  have less_f: "fst d < ?f" if "d \<in> set (as @ b # ds)" for d
    using live [OF that] assms(4) [of "fst d"] by (meson linorder_not_le)
  have dist: "distinct (map fst (as @ b # ds))" using assms(3) unfolding assms(5) [symmetric] by simp
  let ?st = "(ll_store l)(?f \<mapsto> \<lparr>nd_value = x, nd_next = nd_next n\<rparr>, fst b \<mapsto> n\<lparr>nd_next := Some ?f\<rparr>)"
  let ?l = "l\<lparr>ll_fresh := Suc ?f, ll_store := ?st\<rparr>"
  have p: "path ?st (Some h) (as @ b # (?f, x) # ds) None"
    using n f dist by (auto simp: path_append path_away image_Un)
  have as': "as @ b # (?f, x) # ds = (h, v) # tl (as @ [b]) @ (?f, x) # ds"
    using assms(5) by (cases as) auto
  have cs: "cs = tl (as @ [b]) @ ds" using assms(5) by (cases as) auto
  have "ll_insert x (Some (fst b)) l = Inr (True, ?l)"
    using n(2) f by (simp add: ll_insert_def new_node_def fun_upd_twist)
  moreover have "ll_rep (ll_store l |` (- set (h # map fst cs))) ?l (map snd (tl (as @ [b])) @ x # map snd ds)"
  proof (rule ll_repI [where h = h and v = v and cs = "tl (as @ [b]) @ (?f, x) # ds"])
    show "path (ll_store ?l) (Some h) ((h, v) # tl (as @ [b]) @ (?f, x) # ds) None"
      using p unfolding as' by simp
    have "distinct (map fst (as @ b # (?f, x) # ds))" using dist f by auto
    then show "distinct (h # map fst (tl (as @ [b]) @ (?f, x) # ds))" unfolding as' by simp
    have own: "fst b \<in> insert h (fst ` set cs)"
      using assms(5) by (metis fst_conv image_insert imageI in_set_conv_decomp list.simps(15))
    have "?st |` (- insert ?f (insert h (fst ` set cs))) = ll_store l |` (- insert h (fst ` set cs))"
      using assms(4) [of ?f] own by (auto simp: restrict_map_def fun_eq_iff)
    moreover have "set (h # map fst (tl (as @ [b]) @ (?f, x) # ds)) = insert ?f (insert h (fst ` set cs))"
      unfolding cs by auto
    ultimately show "ll_store ?l |` (- set (h # map fst (tl (as @ [b]) @ (?f, x) # ds))) =
        ll_store l |` (- set (h # map fst cs))" by (simp only:) simp
    show "ll_store ?l a = None" if "ll_fresh ?l \<le> a" for a
      using that assms(4) [of a] less_f [of b] by simp
  qed (use assms(1) in auto)
  ultimately show ?thesis by blast
qed

text \<open>
  The list as a first-in first-out queue: what \<open>push\<close> puts in, \<open>dequeue\<close> gives out in the
  same order.  The interface is stated once for any queue and proved for the list.
\<close>

locale fifo =
  fixes rep :: "'q \<Rightarrow> int list \<Rightarrow> bool"
    and enq :: "int \<Rightarrow> 'q \<Rightarrow> (bool \<times> 'q) result option"
    and deq :: "'q \<Rightarrow> (int \<times> 'q) result"
  assumes enq: "rep q xs \<Longrightarrow> \<exists>q'. enq x q = Some (Inr (True, q')) \<and> rep q' (xs @ [x])"
    and deq: "rep q xs \<Longrightarrow> \<exists>q'. deq q = Inr (if xs = [] then 0 else hd xs, q') \<and> rep q' (tl xs)"
begin

fun enq_all :: "int list \<Rightarrow> 'q \<Rightarrow> 'q result option" where
  "enq_all [] q = Some (Inr q)"
| "enq_all (x # xs) q =
     Option.bind (enq x q) (\<lambda>r. case r of Inl e \<Rightarrow> Some (Inl e) | Inr (_, q) \<Rightarrow> enq_all xs q)"

fun deq_n :: "nat \<Rightarrow> 'q \<Rightarrow> (int list \<times> 'q) result" where
  "deq_n 0 q = Inr ([], q)"
| "deq_n (Suc k) q = and_then (deq q) (\<lambda>(x, q). and_then (deq_n k q) (\<lambda>(xs, q). Inr (x # xs, q)))"

lemma enq_all_rep:
  "rep q ys \<Longrightarrow> \<exists>q'. enq_all xs q = Some (Inr q') \<and> rep q' (ys @ xs)"
proof (induction xs arbitrary: q ys)
  case Nil
  then show ?case by simp
next
  case (Cons x xs)
  from enq [OF Cons.prems, of x] obtain q' where q': "enq x q = Some (Inr (True, q'))" "rep q' (ys @ [x])" by blast
  then show ?case using Cons.IH [OF q'(2)] by simp
qed

lemma deq_n_rep:
  "rep q xs \<Longrightarrow> k \<le> length xs \<Longrightarrow> \<exists>q'. deq_n k q = Inr (take k xs, q') \<and> rep q' (drop k xs)"
proof (induction k arbitrary: q xs)
  case 0
  then show ?case by simp
next
  case (Suc k)
  then obtain y ys where xs: "xs = y # ys" by (cases xs) auto
  from deq [OF Suc.prems(1)] xs obtain q' where q': "deq q = Inr (y, q')" "rep q' ys" by auto
  then show ?case using Suc.IH [OF q'(2)] Suc.prems(2) xs by auto
qed

lemma first_in_first_out:
  assumes "rep q []"
  shows "\<exists>q' q''. enq_all xs q = Some (Inr q') \<and> deq_n (length xs) q' = Inr (xs, q'') \<and> rep q'' []"
proof -
  obtain q' where "enq_all xs q = Some (Inr q')" "rep q' xs" using enq_all_rep [OF assms, of xs] by auto
  with deq_n_rep [of q' xs "length xs"] show ?thesis by auto
qed

end

interpretation lq: fifo "ll_rep F" ll_push ll_dequeue for F
  by unfold_locales (rule push_appends dequeue_takes_front, assumption)+

lemma linkedList_of_enq_all: "linkedList_of xs l = lq.enq_all xs l"
  by (induction xs arbitrary: l) (auto split: option.splits sum.splits Option.bind_splits)


section \<open>The circular doubly linked list\<close>

text \<open>
  A new list is one node with \<open>flag\<close> false, linked to itself; the first \<open>push\<close> fills that
  node.
\<close>

record dbnode =
  db_value :: int
  db_next :: "nat option"
  db_prev :: "nat option"
  db_flag :: bool

type_synonym dbstore = "nat \<rightharpoonup> dbnode"

record dbLinkedList =
  db_head :: "nat option"
  db_tail :: "nat option"
  db_store :: dbstore
  db_fresh :: nat

definition dbnode_of :: "dbstore \<Rightarrow> nat option \<Rightarrow> dbnode result" where
  "dbnode_of st p =
     (case p of None \<Rightarrow> Inl Null_deref
      | Some a \<Rightarrow> (case st a of None \<Rightarrow> Inl Use_after_free | Some n \<Rightarrow> Inr n))"

definition db_upd :: "nat option \<Rightarrow> (dbnode \<Rightarrow> dbnode) \<Rightarrow> dbstore \<Rightarrow> dbstore result" where
  "db_upd p f st =
     (case p of None \<Rightarrow> Inl Null_deref
      | Some a \<Rightarrow> (case st a of None \<Rightarrow> Inl Use_after_free | Some n \<Rightarrow> Inr (st(a \<mapsto> f n))))"

definition db_delete :: "nat option \<Rightarrow> dbstore \<Rightarrow> dbstore result" where
  "db_delete p st =
     (case p of None \<Rightarrow> Inr st
      | Some a \<Rightarrow> (case st a of None \<Rightarrow> Inl Use_after_free | Some _ \<Rightarrow> Inr (st(a := None))))"

definition dbLinkedList_new :: "dbstore \<Rightarrow> nat \<Rightarrow> dbLinkedList" where
  "dbLinkedList_new st a =
     \<lparr>db_head = Some a, db_tail = Some a,
      db_store = st(a \<mapsto> \<lparr>db_value = 0, db_next = Some a, db_prev = Some a, db_flag = False\<rparr>), db_fresh = a + 1\<rparr>"

definition db_push :: "int \<Rightarrow> dbLinkedList \<Rightarrow> (bool \<times> dbLinkedList) result" where
  "db_push x l =
     (let append =
        (let a = db_fresh l; st = (db_store l)(a \<mapsto> \<lparr>db_value = x, db_next = None, db_prev = None, db_flag = True\<rparr>) in
         and_then (db_upd (db_tail l) (db_next_update (\<lambda>_. Some a)) st) (\<lambda>st.
         and_then (db_upd (Some a) (db_prev_update (\<lambda>_. db_tail l)) st) (\<lambda>st.
         and_then (db_upd (Some a) (db_next_update (\<lambda>_. db_head l)) st) (\<lambda>st.
         and_then (db_upd (db_head l) (db_prev_update (\<lambda>_. Some a)) st) (\<lambda>st.
           Inr (True, l\<lparr>db_tail := Some a, db_store := st, db_fresh := a + 1\<rparr>))))))
      in
        if db_head l = db_tail l then
          and_then (dbnode_of (db_store l) (db_head l)) (\<lambda>h.
            if \<not> db_flag h then
              and_then (db_upd (db_head l) (\<lambda>n. n\<lparr>db_value := x, db_flag := True\<rparr>) (db_store l)) (\<lambda>st.
                Inr (True, l\<lparr>db_store := st\<rparr>))
            else append)
        else append)"

text \<open>The three ways to unlink the node \<open>p\<close> that was found.\<close>

definition db_unlink :: "nat option \<Rightarrow> dbnode \<Rightarrow> dbLinkedList \<Rightarrow> dbLinkedList result" where
  "db_unlink p n l =
     and_then (db_delete p (db_store l)) (\<lambda>st.
       if p = db_head l then
         and_then (db_upd (db_next n) (db_prev_update (\<lambda>_. db_tail l)) st) (\<lambda>st.
         and_then (db_upd (db_tail l) (db_next_update (\<lambda>_. db_next n)) st) (\<lambda>st.
           Inr (l\<lparr>db_store := st, db_head := db_next n\<rparr>)))
       else if p = db_tail l then
         and_then (db_upd (db_prev n) (db_next_update (\<lambda>_. db_head l)) st) (\<lambda>st.
         and_then (db_upd (db_head l) (db_prev_update (\<lambda>_. db_prev n)) st) (\<lambda>st.
           Inr (l\<lparr>db_store := st, db_tail := db_prev n\<rparr>)))
       else
         and_then (db_upd (db_prev n) (db_next_update (\<lambda>_. db_next n)) st) (\<lambda>st.
         and_then (db_upd (db_next n) (db_prev_update (\<lambda>_. db_prev n)) st) (\<lambda>st.
           Inr (l\<lparr>db_store := st\<rparr>))))"

partial_function (option) db_delete_loop :: "dbLinkedList \<Rightarrow> int \<Rightarrow> nat option \<Rightarrow> (bool \<times> dbLinkedList) result option" where
  "db_delete_loop l x p =
     (case dbnode_of (db_store l) p of
        Inl e \<Rightarrow> Some (Inl e)
      | Inr n \<Rightarrow>
          if db_value n = x then Some (and_then (db_unlink p n l) (\<lambda>l. Inr (True, l)))
          else if db_next n = db_head l then Some (Inr (False, l))
          else db_delete_loop l x (db_next n))"

definition db_Delete :: "int \<Rightarrow> dbLinkedList \<Rightarrow> (bool \<times> dbLinkedList) result option" where
  "db_Delete x l =
     (if db_head l = db_tail l then
        (case dbnode_of (db_store l) (db_head l) of
           Inl e \<Rightarrow> Some (Inl e)
         | Inr h \<Rightarrow>
             if \<not> db_flag h then Some (Inr (False, l))
             else if x = db_value h then
               Some (and_then (db_delete (db_head l) (db_store l)) (\<lambda>st.
                 Inr (True, l\<lparr>db_store := st, db_head := None, db_tail := None\<rparr>)))
             else db_delete_loop l x (db_head l))
      else db_delete_loop l x (db_head l))"

definition db_getHeader :: "dbLinkedList \<Rightarrow> int result" where
  "db_getHeader l = and_then (dbnode_of (db_store l) (db_head l)) (\<lambda>h. Inr (db_value h))"

partial_function (option) db_destroy_loop :: "dbstore \<Rightarrow> nat option \<Rightarrow> nat option \<Rightarrow> dbstore result option" where
  "db_destroy_loop st p t =
     (if p = t then Some (db_delete t st)
      else case dbnode_of st p of
        Inl e \<Rightarrow> Some (Inl e)
      | Inr n \<Rightarrow> (case db_delete p st of Inl e \<Rightarrow> Some (Inl e) | Inr st \<Rightarrow> db_destroy_loop st (db_next n) t))"

definition db_destroy :: "dbLinkedList \<Rightarrow> dbstore result option" where
  "db_destroy l = db_destroy_loop (db_store l) (db_head l) (db_tail l)"

subsection \<open>Doubly linked segments\<close>

text \<open>
  \<open>seg st pr cs nx\<close>: the cells \<open>cs\<close> are linked to each other in both directions, the first
  back to \<open>pr\<close>, the last on to \<open>nx\<close>.  The list is one segment whose ends meet.
\<close>

definition hd_addr :: "(nat \<times> int) list \<Rightarrow> nat \<Rightarrow> nat" where
  "hd_addr cs nx = (case cs of [] \<Rightarrow> nx | c # _ \<Rightarrow> fst c)"

definition last_addr :: "nat \<Rightarrow> (nat \<times> int) list \<Rightarrow> nat" where
  "last_addr pr cs = (if cs = [] then pr else fst (last cs))"

lemma addr_simps [simp]:
  "hd_addr [] nx = nx" "hd_addr (c # cs) nx = fst c"
  "last_addr pr [] = pr" "last_addr pr (cs @ [c]) = fst c" "last_addr pr (c # cs) = last_addr (fst c) cs"
  by (simp_all add: hd_addr_def last_addr_def)

lemma addr_ends: "cs \<noteq> [] \<Longrightarrow> hd_addr cs nx = fst (hd cs)" "cs \<noteq> [] \<Longrightarrow> last_addr pr cs = fst (last cs)"
  by (cases cs) (simp_all add: last_addr_def)

fun seg :: "dbstore \<Rightarrow> nat \<Rightarrow> (nat \<times> int) list \<Rightarrow> nat \<Rightarrow> bool" where
  "seg st pr [] nx \<longleftrightarrow> True"
| "seg st pr (c # cs) nx \<longleftrightarrow>
     st (fst c) = Some \<lparr>db_value = snd c, db_next = Some (hd_addr cs nx), db_prev = Some pr, db_flag = True\<rparr> \<and>
     seg st (fst c) cs nx"

definition db_ring :: "dbLinkedList \<Rightarrow> (nat \<times> int) list \<Rightarrow> bool" where
  "db_ring l cs \<longleftrightarrow>
     cs \<noteq> [] \<and> distinct (map fst cs) \<and> db_head l = Some (fst (hd cs)) \<and> db_tail l = Some (fst (last cs)) \<and>
     seg (db_store l) (fst (last cs)) cs (fst (hd cs))"

definition db_rep :: "dbstore \<Rightarrow> dbLinkedList \<Rightarrow> int list \<Rightarrow> bool" where
  "db_rep F l xs \<longleftrightarrow>
     (\<forall>a \<ge> db_fresh l. db_store l a = None) \<and>
     (if xs = [] then
        (\<exists>a v. db_head l = Some a \<and> db_tail l = Some a \<and> db_store l |` (- {a}) = F \<and>
           db_store l a = Some \<lparr>db_value = v, db_next = Some a, db_prev = Some a, db_flag = False\<rparr>)
      else (\<exists>cs. db_ring l cs \<and> xs = map snd cs \<and> db_store l |` (- fst ` set cs) = F))"

lemma seg_append: "seg st pr (cs @ ds) nx \<longleftrightarrow> seg st pr cs (hd_addr ds nx) \<and> seg st (last_addr pr cs) ds nx"
  by (induction cs arbitrary: pr) (auto simp: hd_addr_def split: list.splits)

lemma seg_away: "a \<notin> fst ` set cs \<Longrightarrow> seg (st(a := n)) pr cs nx \<longleftrightarrow> seg st pr cs nx"
  by (induction cs arbitrary: pr) auto

lemma seg_live: "seg st pr cs nx \<Longrightarrow> c \<in> set cs \<Longrightarrow> \<exists>n. st (fst c) = Some n \<and> db_value n = snd c \<and> db_flag n"
  by (induction cs arbitrary: pr) auto

lemma db_simps [simp]:
  "dbnode_of st None = Inl Null_deref"
  "st a = Some n \<Longrightarrow> dbnode_of st (Some a) = Inr n"
  "st a = Some n \<Longrightarrow> db_upd (Some a) f st = Inr (st(a \<mapsto> f n))"
  "st a = Some n \<Longrightarrow> db_delete (Some a) st = Inr (st(a := None))"
  by (simp_all add: dbnode_of_def db_upd_def db_delete_def)


lemma seg_upd_next:
  assumes "seg st pr cs nx" "cs \<noteq> []" "distinct (map fst cs)"
  shows "\<exists>m. st (fst (last cs)) = Some m \<and> seg (st(fst (last cs) \<mapsto> m\<lparr>db_next := Some nx'\<rparr>)) pr cs nx'"
proof -
  obtain bs c where cs: "cs = bs @ [c]" using assms(2) by (metis rev_exhaust)
  then have "fst c \<notin> fst ` set bs" using assms(3) by auto
  then show ?thesis using assms(1) cs by (simp add: seg_append seg_away)
qed

lemma seg_upd_prev:
  assumes "seg st pr cs nx" "cs \<noteq> []" "distinct (map fst cs)"
  shows "\<exists>m. st (fst (hd cs)) = Some m \<and> seg (st(fst (hd cs) \<mapsto> m\<lparr>db_prev := Some pr'\<rparr>)) pr' cs nx"
  using assms by (cases cs) (auto simp: seg_away)

lemma ends_in: "cs \<noteq> [] \<Longrightarrow> fst (hd cs) \<in> fst ` set cs \<and> fst (last cs) \<in> fst ` set cs"
  by simp

text \<open>Closing a segment into a ring: the two writes every operation ends with.\<close>

lemma close_ring:
  assumes "seg st pr cs nx" "cs \<noteq> []" "distinct (map fst cs)"
  shows "\<exists>st'. and_then (db_upd (Some (fst (hd cs))) (db_prev_update (\<lambda>_. Some pr')) st)
             (db_upd (Some (fst (last cs))) (db_next_update (\<lambda>_. Some nx'))) = Inr st' \<and>
    seg st' pr' cs nx' \<and> (\<forall>a. a \<notin> fst ` set cs \<longrightarrow> st' a = st a)"
proof -
  obtain m where m: "st (fst (hd cs)) = Some m" "seg (st(fst (hd cs) \<mapsto> m\<lparr>db_prev := Some pr'\<rparr>)) pr' cs nx"
    using seg_upd_prev [OF assms] by blast
  obtain n where n: "(st(fst (hd cs) \<mapsto> m\<lparr>db_prev := Some pr'\<rparr>)) (fst (last cs)) = Some n"
      "seg (st(fst (hd cs) \<mapsto> m\<lparr>db_prev := Some pr'\<rparr>, fst (last cs) \<mapsto> n\<lparr>db_next := Some nx'\<rparr>)) pr' cs nx'"
    using seg_upd_next [OF m(2) assms(2,3)] by blast
  have "\<forall>a. a \<notin> fst ` set cs \<longrightarrow>
      (st(fst (hd cs) \<mapsto> m\<lparr>db_prev := Some pr'\<rparr>, fst (last cs) \<mapsto> n\<lparr>db_next := Some nx'\<rparr>)) a = st a"
    using ends_in [OF assms(2)] by auto
  then show ?thesis using m(1) n by (auto simp del: fun_upd_apply)
qed

lemma close_ring':
  assumes "seg st pr cs nx" "cs \<noteq> []" "distinct (map fst cs)"
  shows "\<exists>st'. and_then (db_upd (Some (fst (last cs))) (db_next_update (\<lambda>_. Some nx')) st)
             (db_upd (Some (fst (hd cs))) (db_prev_update (\<lambda>_. Some pr'))) = Inr st' \<and>
    seg st' pr' cs nx' \<and> (\<forall>a. a \<notin> fst ` set cs \<longrightarrow> st' a = st a)"
proof -
  obtain m where m: "st (fst (last cs)) = Some m" "seg (st(fst (last cs) \<mapsto> m\<lparr>db_next := Some nx'\<rparr>)) pr cs nx'"
    using seg_upd_next [OF assms] by blast
  obtain n where n: "(st(fst (last cs) \<mapsto> m\<lparr>db_next := Some nx'\<rparr>)) (fst (hd cs)) = Some n"
      "seg (st(fst (last cs) \<mapsto> m\<lparr>db_next := Some nx'\<rparr>, fst (hd cs) \<mapsto> n\<lparr>db_prev := Some pr'\<rparr>)) pr' cs nx'"
    using seg_upd_prev [OF m(2) assms(2,3)] by blast
  have "\<forall>a. a \<notin> fst ` set cs \<longrightarrow>
      (st(fst (last cs) \<mapsto> m\<lparr>db_next := Some nx'\<rparr>, fst (hd cs) \<mapsto> n\<lparr>db_prev := Some pr'\<rparr>)) a = st a"
    using ends_in [OF assms(2)] by auto
  then show ?thesis using m(1) n by (auto simp del: fun_upd_apply)
qed

text \<open>Joining two segments around a removed node.\<close>

lemma join_segs:
  assumes "seg st pr as nx" "seg st pr' bs nx'" "as \<noteq> []" "bs \<noteq> []" "distinct (map fst (as @ bs))"
  shows "\<exists>st'. and_then (db_upd (Some (fst (last as))) (db_next_update (\<lambda>_. Some (fst (hd bs)))) st)
             (db_upd (Some (fst (hd bs))) (db_prev_update (\<lambda>_. Some (fst (last as))))) = Inr st' \<and>
    seg st' pr (as @ bs) nx' \<and> (\<forall>a. a \<notin> fst ` set (as @ bs) \<longrightarrow> st' a = st a)"
proof -
  have d: "distinct (map fst as)" "distinct (map fst bs)" "fst ` set as \<inter> fst ` set bs = {}"
    using assms(5) by auto
  obtain m where m: "st (fst (last as)) = Some m" "seg (st(fst (last as) \<mapsto> m\<lparr>db_next := Some (fst (hd bs))\<rparr>)) pr as (fst (hd bs))"
    using seg_upd_next [OF assms(1,3) d(1)] by blast
  have "fst (last as) \<notin> fst ` set bs" using ends_in [OF assms(3)] d(3) by auto
  then have "seg (st(fst (last as) \<mapsto> m\<lparr>db_next := Some (fst (hd bs))\<rparr>)) pr' bs nx'" using assms(2) by (simp add: seg_away)
  from seg_upd_prev [OF this assms(4) d(2), of "fst (last as)"] obtain n where
    n: "(st(fst (last as) \<mapsto> m\<lparr>db_next := Some (fst (hd bs))\<rparr>)) (fst (hd bs)) = Some n"
      "seg (st(fst (last as) \<mapsto> m\<lparr>db_next := Some (fst (hd bs))\<rparr>, fst (hd bs) \<mapsto> n\<lparr>db_prev := Some (fst (last as))\<rparr>))
         (fst (last as)) bs nx'" by blast
  have "fst (hd bs) \<notin> fst ` set as" using ends_in [OF assms(4)] d(3) by auto
  then have "seg (st(fst (last as) \<mapsto> m\<lparr>db_next := Some (fst (hd bs))\<rparr>, fst (hd bs) \<mapsto> n\<lparr>db_prev := Some (fst (last as))\<rparr>))
      pr (as @ bs) nx'"
    using m(2) n(2) assms(3,4) by (simp add: seg_append seg_away addr_ends)
  moreover have "\<forall>a. a \<notin> fst ` set (as @ bs) \<longrightarrow>
      (st(fst (last as) \<mapsto> m\<lparr>db_next := Some (fst (hd bs))\<rparr>, fst (hd bs) \<mapsto> n\<lparr>db_prev := Some (fst (last as))\<rparr>)) a = st a"
    using ends_in [OF assms(3)] ends_in [OF assms(4)] by (auto simp: image_Un)
  ultimately show ?thesis using m(1) n(1) by (auto simp del: fun_upd_apply)
qed


lemma db_unlink_ring:
  assumes ring: "db_ring l (as @ c # bs)" and ne: "as @ bs \<noteq> []" and n: "db_store l (fst c) = Some n"
  shows "\<exists>l'. db_unlink (Some (fst c)) n l = Inr l' \<and> db_ring l' (as @ bs) \<and> db_store l' (fst c) = None \<and>
    (\<forall>a. a \<notin> fst ` set (as @ c # bs) \<longrightarrow> db_store l' a = db_store l a) \<and> db_fresh l' = db_fresh l"
proof -
  let ?h = "fst (hd (as @ c # bs))" and ?t = "fst (last (as @ c # bs))" and ?st = "(db_store l)(fst c := None)"
  have d: "distinct (map fst (as @ c # bs))" and ht: "db_head l = Some ?h" "db_tail l = Some ?t"
    and sg: "seg (db_store l) ?t (as @ c # bs) ?h"
    using ring by (auto simp: db_ring_def)
  have c: "fst c \<notin> fst ` set as" "fst c \<notin> fst ` set bs" and d': "distinct (map fst (as @ bs))" using d by auto
  have sg': "seg ?st ?t as (fst c)" "seg ?st (fst c) bs ?h"
    and n': "db_next n = Some (hd_addr bs ?h)" "db_prev n = Some (last_addr ?t as)"
    using sg n c by (auto simp: seg_append seg_away)
  have del: "db_delete (Some (fst c)) (db_store l) = Inr ?st" using n by simp
  have off: "fst c \<notin> fst ` set (as @ bs)" using c by (simp add: image_Un)
  consider "as = []" "bs \<noteq> []" | "as \<noteq> []" "bs = []" | "as \<noteq> []" "bs \<noteq> []" using ne by auto
  then show ?thesis
  proof cases
    case 1
    then obtain st' where "and_then (db_upd (Some (fst (hd bs))) (db_prev_update (\<lambda>_. Some ?t)) ?st)
             (db_upd (Some (fst (last bs))) (db_next_update (\<lambda>_. Some (fst (hd bs))))) = Inr st'"
        "seg st' ?t bs (fst (hd bs))" "\<forall>a. a \<notin> fst ` set bs \<longrightarrow> st' a = ?st a"
      using close_ring [OF sg'(2), of ?t "fst (hd bs)"] d' by auto
    then show ?thesis using 1 ht n' del d' c
      by (auto simp: db_unlink_def db_ring_def and_then_eq_Inr_conv addr_ends)
  next
    case 2
    then obtain st' where "and_then (db_upd (Some (fst (last as))) (db_next_update (\<lambda>_. Some ?h)) ?st)
             (db_upd (Some (fst (hd as))) (db_prev_update (\<lambda>_. Some (fst (last as))))) = Inr st'"
        "seg st' (fst (last as)) as ?h" "\<forall>a. a \<notin> fst ` set as \<longrightarrow> st' a = ?st a"
      using close_ring' [OF sg'(1), of ?h "fst (last as)"] d' by auto
    moreover have "fst c \<noteq> fst (hd as)" using 2 c(1) by auto
    ultimately show ?thesis using 2 ht n' del d' c
      by (auto simp: db_unlink_def db_ring_def and_then_eq_Inr_conv addr_ends)
  next
    case 3
    then obtain st' where st': "and_then (db_upd (Some (fst (last as))) (db_next_update (\<lambda>_. Some (fst (hd bs)))) ?st)
             (db_upd (Some (fst (hd bs))) (db_prev_update (\<lambda>_. Some (fst (last as))))) = Inr st'"
        "seg st' ?t (as @ bs) ?h" "\<forall>a. a \<notin> fst ` set (as @ bs) \<longrightarrow> st' a = ?st a"
      using join_segs [OF sg' _ _ d'] by auto
    moreover have "fst c \<noteq> fst (hd as)" "fst c \<noteq> fst (last bs)" using 3 c by auto
    moreover have "st' (fst c) = None" using st'(3) off by simp
    ultimately show ?thesis using 3 ht n' del d'
      by (auto simp: db_unlink_def db_ring_def and_then_eq_Inr_conv addr_ends image_Un)
  qed
qed

lemma db_delete_loop_ring:
  assumes "db_ring l (as @ bs)" "bs \<noteq> []" "x \<notin> snd ` set as"
  shows "(x \<in> snd ` set bs \<longrightarrow> (\<exists>as' c bs' n. as @ bs = as' @ c # bs' \<and> snd c = x \<and> x \<notin> snd ` set as' \<and>
            db_store l (fst c) = Some n \<and>
            db_delete_loop l x (Some (fst (hd bs))) = Some (and_then (db_unlink (Some (fst c)) n l) (\<lambda>l. Inr (True, l))))) \<and>
         (x \<notin> snd ` set bs \<longrightarrow> db_delete_loop l x (Some (fst (hd bs))) = Some (Inr (False, l)))"
  using assms
proof (induction bs arbitrary: as)
  case Nil
  then show ?case by simp
next
  case (Cons c bs)
  let ?h = "fst (hd (as @ c # bs))"
  have node: "db_store l (fst c) = Some \<lparr>db_value = snd c, db_next = Some (hd_addr bs ?h),
      db_prev = Some (last_addr (fst (last (as @ c # bs))) as), db_flag = True\<rparr>"
    and h: "db_head l = Some ?h" and d: "distinct (map fst (as @ c # bs))"
    using Cons.prems(1) by (auto simp: db_ring_def seg_append)
  show ?case
  proof (cases "snd c = x")
    case True
    obtain n where n: "db_store l (fst c) = Some n" "db_value n = x" using node True by auto
    have "db_delete_loop l x (Some (fst (hd (c # bs)))) = Some (and_then (db_unlink (Some (fst c)) n l) (\<lambda>l. Inr (True, l)))"
      using n by (subst db_delete_loop.simps) simp
    moreover have "x \<in> snd ` set (c # bs)" using True by auto
    ultimately show ?thesis using n(1) True Cons.prems(3) by blast
  next
    case False
    show ?thesis
    proof (cases bs)
      case Nil
      have "db_delete_loop l x (Some (fst c)) = Some (Inr (False, l))"
        using node False h Nil by (subst db_delete_loop.simps) simp
      then show ?thesis using False Nil by simp
    next
      case (Cons b bs')
      have "fst b \<noteq> ?h" using d Cons by (cases as) auto
      then have step: "db_delete_loop l x (Some (fst c)) = db_delete_loop l x (Some (fst (hd bs)))"
        using node False h Cons by (subst db_delete_loop.simps) simp
      have "db_ring l ((as @ [c]) @ bs)" "x \<notin> snd ` set (as @ [c])" using Cons.prems False by auto
      from Cons.IH [OF this(1) _ this(2)] Cons show ?thesis using step False by simp
    qed
  qed
qed


lemma db_repE:
  assumes "db_rep F l xs" "xs \<noteq> []"
  obtains cs where "db_ring l cs" "xs = map snd cs" "db_store l |` (- fst ` set cs) = F"
    "\<And>a. db_fresh l \<le> a \<Longrightarrow> db_store l a = None"
  using assms by (auto simp: db_rep_def)

lemma db_new_rep: "(\<And>b. a \<le> b \<Longrightarrow> st b = None) \<Longrightarrow> db_rep st (dbLinkedList_new st a) []"
  by (auto simp: db_rep_def dbLinkedList_new_def restrict_map_def fun_eq_iff)

lemma remove1_first: "x \<notin> set as \<Longrightarrow> remove1 x (as @ x # bs) = as @ bs"
  by (simp add: remove1_append)

lemma db_Delete_ring:
  assumes rep: "db_rep F l xs" and two: "2 \<le> length xs \<or> x \<notin> set xs"
  shows "\<exists>l'. db_Delete x l = Some (Inr (x \<in> set xs, l')) \<and> db_rep F l' (remove1 x xs)"
proof (cases "xs = []")
  case True
  then show ?thesis using rep by (auto simp: db_rep_def db_Delete_def)
next
  case False
  obtain cs where r: "db_ring l cs" "xs = map snd cs" "db_store l |` (- fst ` set cs) = F"
      "\<And>a. db_fresh l \<le> a \<Longrightarrow> db_store l a = None"
    by (rule db_repE [OF rep False]) blast
  have ne: "cs \<noteq> []" and h: "db_head l = Some (fst (hd cs))" using r(1) by (auto simp: db_ring_def)
  have live: "c \<in> set cs \<Longrightarrow> \<exists>n. db_store l (fst c) = Some n \<and> db_value n = snd c \<and> db_flag n" for c
    using r(1) seg_live by (auto simp: db_ring_def)
  have del: "db_Delete x l = db_delete_loop l x (db_head l)"
  proof (cases "db_head l = db_tail l")
    case True
    obtain d ds where cs: "cs = d # ds" using ne by (cases cs) auto
    have "ds = []"
    proof (rule ccontr)
      assume "ds \<noteq> []"
      then have "fst (last cs) \<in> fst ` set ds" using cs by simp
      moreover have "fst (last cs) = fst d" "fst d \<notin> fst ` set ds" using True r(1) cs by (auto simp: db_ring_def)
      ultimately show False by simp
    qed
    then have "x \<notin> set xs" using two r(2) cs by auto
    then have "x \<noteq> snd (hd cs)" using ne r(2) by auto
    moreover obtain n where "db_store l (fst (hd cs)) = Some n" "db_value n = snd (hd cs)" "db_flag n"
      using live [of "hd cs"] ne by auto
    moreover have "db_tail l = Some (fst (hd cs))" using True h by simp
    ultimately show ?thesis using h by (simp add: db_Delete_def)
  qed (simp add: db_Delete_def)
  have r0: "db_ring l ([] @ cs)" and x0: "x \<notin> snd ` set ([] :: (nat \<times> int) list)" using r(1) by simp_all
  note loop = db_delete_loop_ring [OF r0 ne x0]
  have xs: "x \<in> snd ` set cs \<longleftrightarrow> x \<in> set xs" using r(2) by auto
  show ?thesis
  proof (cases "x \<in> set xs")
    case True
    then obtain as c bs n where c: "cs = as @ c # bs" "snd c = x" "x \<notin> snd ` set as" "db_store l (fst c) = Some n"
        "db_delete_loop l x (db_head l) = Some (and_then (db_unlink (Some (fst c)) n l) (\<lambda>l. Inr (True, l)))"
      using conjunct1 [OF loop] xs unfolding h append_Nil by blast
    have "as @ bs \<noteq> []" using two True c(1) r(2) by auto
    from db_unlink_ring [OF r(1) [unfolded c(1)] this c(4)] obtain l' where
      l': "db_unlink (Some (fst c)) n l = Inr l'" "db_ring l' (as @ bs)" "db_store l' (fst c) = None"
        "\<forall>a. a \<notin> fst ` set cs \<longrightarrow> db_store l' a = db_store l a" "db_fresh l' = db_fresh l"
      unfolding c(1) by blast
    have "db_store l' |` (- fst ` set (as @ bs)) = F"
      unfolding r(3) [symmetric] using l'(3,4) c(1) by (auto simp: restrict_map_def fun_eq_iff image_Un)
    moreover have "db_store l' a = None" if "db_fresh l' \<le> a" for a
    proof -
      have "a \<notin> fst ` set cs" using that l'(5) r(4) [of a] live by fastforce
      then show ?thesis using l'(4,5) r(4) [of a] that by simp
    qed
    moreover have "remove1 x xs = map snd (as @ bs)"
      using c(1-3) r(2) remove1_first [of x "map snd as" "map snd bs"] by simp
    ultimately have "db_rep F l' (remove1 x xs)"
      using l'(2) \<open>as @ bs \<noteq> []\<close> by (auto simp: db_rep_def)
    then show ?thesis using l'(1) c(5) True del by simp
  next
    case False
    then show ?thesis using conjunct2 [OF loop] xs h rep del by (simp add: remove1_idem)
  qed
qed


text \<open>Deleting the only element leaves no node and two null pointers.\<close>

lemma db_Delete_only:
  assumes "db_rep F l [x]"
  shows "\<exists>l'. db_Delete x l = Some (Inr (True, l')) \<and> db_head l' = None \<and> db_tail l' = None \<and> db_store l' = F"
proof -
  obtain cs where r: "db_ring l cs" "[x] = map snd cs" "db_store l |` (- fst ` set cs) = F"
    by (rule db_repE [OF assms]) auto
  then obtain c where c: "cs = [c]" "snd c = x" by auto
  then have n: "db_head l = Some (fst c)" "db_tail l = Some (fst c)"
      "db_store l (fst c) = Some \<lparr>db_value = x, db_next = Some (fst c), db_prev = Some (fst c), db_flag = True\<rparr>"
    using r(1) by (auto simp: db_ring_def)
  have "(db_store l)(fst c := None) = F"
    unfolding r(3) [symmetric] c(1) by (auto simp: restrict_map_def fun_eq_iff)
  then show ?thesis using n by (simp add: db_Delete_def)
qed

lemma db_push_appends:
  assumes rep: "db_rep F l xs"
  shows "\<exists>l'. db_push x l = Inr (True, l') \<and> db_rep F l' (xs @ [x])"
proof (cases "xs = []")
  case True
  then obtain a v where a: "db_head l = Some a" "db_tail l = Some a" "db_store l |` (- {a}) = F"
      "db_store l a = Some \<lparr>db_value = v, db_next = Some a, db_prev = Some a, db_flag = False\<rparr>"
      "\<forall>a \<ge> db_fresh l. db_store l a = None"
    using rep by (auto simp: db_rep_def)
  let ?st = "(db_store l)(a \<mapsto> \<lparr>db_value = x, db_next = Some a, db_prev = Some a, db_flag = True\<rparr>)"
  have "db_ring (l\<lparr>db_store := ?st\<rparr>) [(a, x)]" using a by (simp add: db_ring_def)
  moreover have "?st |` (- {a}) = F" unfolding a(3) [symmetric] by (auto simp: restrict_map_def fun_eq_iff)
  moreover have "\<forall>b \<ge> db_fresh l. ?st b = None" using a(4,5) by auto
  ultimately have "db_rep F (l\<lparr>db_store := ?st\<rparr>) [x]"
    unfolding db_rep_def by (simp add: exI [of _ "[(a, x)]"])
  then show ?thesis using a True by (simp add: db_push_def)
next
  case False
  obtain cs where r: "db_ring l cs" "xs = map snd cs" "db_store l |` (- fst ` set cs) = F"
      "\<And>a. db_fresh l \<le> a \<Longrightarrow> db_store l a = None"
    by (rule db_repE [OF rep False]) blast
  let ?h = "fst (hd cs)" and ?t = "fst (last cs)" and ?f = "db_fresh l"
  have ne: "cs \<noteq> []" "distinct (map fst cs)" and ht: "db_head l = Some ?h" "db_tail l = Some ?t"
    and sg: "seg (db_store l) ?t cs ?h" using r(1) by (auto simp: db_ring_def)
  have live: "c \<in> set cs \<Longrightarrow> \<exists>n. db_store l (fst c) = Some n \<and> db_value n = snd c \<and> db_flag n" for c
    using seg_live [OF sg] by blast
  have f: "?f \<notin> fst ` set cs" using live r(4) [of ?f] by fastforce
  let ?new = "\<lparr>db_value = x, db_next = Some ?h, db_prev = Some ?t, db_flag = True\<rparr>"
  have "seg ((db_store l)(?f \<mapsto> ?new)) ?t cs ?h" using sg f by (simp add: seg_away)
  from close_ring' [OF this ne, of ?f ?f] obtain st' where
    st': "and_then (db_upd (Some ?t) (db_next_update (\<lambda>_. Some ?f)) ((db_store l)(?f \<mapsto> ?new)))
            (db_upd (Some ?h) (db_prev_update (\<lambda>_. Some ?f))) = Inr st'"
      "seg st' ?f cs ?f" "\<forall>a. a \<notin> fst ` set cs \<longrightarrow> st' a = ((db_store l)(?f \<mapsto> ?new)) a" by blast
  let ?l = "l\<lparr>db_tail := Some ?f, db_store := st', db_fresh := Suc ?f\<rparr>"
  have "st' ?f = Some ?new" using st'(3) f by simp
  then have "db_ring ?l (cs @ [(?f, x)])"
    using ne f ht st'(2) by (auto simp: db_ring_def seg_append addr_ends)
  moreover have "st' |` (- fst ` set (cs @ [(?f, x)])) = F"
    unfolding r(3) [symmetric] using st'(3) r(4) [of ?f] by (auto simp: restrict_map_def fun_eq_iff)
  moreover have "st' a = None" if "Suc ?f \<le> a" for a
  proof -
    have "a \<notin> fst ` set cs" using that r(4) [of a] live by fastforce
    then show ?thesis using that st'(3) r(4) [of a] by simp
  qed
  ultimately have "db_rep F ?l (xs @ [x])"
    using r(2) unfolding db_rep_def by (auto intro!: exI [of _ "cs @ [(?f, x)]"])
  moreover have "db_push x l = Inr (True, ?l)"
  proof -
    obtain m where m: "db_store l ?t = Some m" "db_flag m" using live [of "last cs"] ne(1) by auto
    obtain n where n: "db_store l ?h = Some n" "db_flag n" using live [of "hd cs"] ne(1) by auto
    have tf: "?t \<noteq> ?f" using f ends_in [OF ne(1)] by metis
    let ?blank = "\<lparr>db_value = x, db_next = None, db_prev = None, db_flag = True\<rparr>" and ?m = "m\<lparr>db_next := Some ?f\<rparr>"
    have "(db_store l)(?f \<mapsto> ?blank, ?t \<mapsto> ?m, ?f \<mapsto> ?blank\<lparr>db_prev := Some ?t\<rparr>, ?f \<mapsto> ?new) = (db_store l)(?f \<mapsto> ?new, ?t \<mapsto> ?m)"
      using tf by (simp add: fun_upd_twist)
    moreover have "db_upd (Some ?h) (db_prev_update (\<lambda>_. Some ?f)) ((db_store l)(?f \<mapsto> ?new, ?t \<mapsto> ?m)) = Inr st'"
      using st'(1) m tf by simp
    ultimately show ?thesis using m n tf ht
      by (simp add: db_push_def Let_def)
  qed
  ultimately show ?thesis by blast
qed


lemma db_destroy_loop_seg:
  assumes "seg st pr cs nx" "cs \<noteq> []" "distinct (map fst cs)"
  shows "db_destroy_loop st (Some (fst (hd cs))) (Some (fst (last cs))) = Some (Inr (st |` (- fst ` set cs)))"
  using assms
proof (induction cs arbitrary: st pr)
  case Nil
  then show ?case by simp
next
  case (Cons c cs)
  show ?case
  proof (cases "cs = []")
    case True
    then show ?thesis using Cons.prems(1) by (subst db_destroy_loop.simps) (simp, auto simp: restrict_map_def fun_eq_iff)
  next
    case False
    have "seg (st(fst c := None)) (fst c) cs nx" using Cons.prems by (auto simp: seg_away)
    then have "db_destroy_loop (st(fst c := None)) (Some (fst (hd cs))) (Some (fst (last cs))) =
        Some (Inr ((st(fst c := None)) |` (- fst ` set cs)))"
      by (rule Cons.IH) (use Cons.prems(3) False in simp_all)
    moreover have "(st(fst c := None)) |` (- fst ` set cs) = st |` (- fst ` set (c # cs))"
      by (auto simp: restrict_map_def fun_eq_iff)
    moreover have "fst c \<noteq> fst (last cs)" using Cons.prems(3) ends_in [OF False] by (metis distinct.simps(2) list.map(2) list.set_map)
    ultimately show ?thesis using Cons.prems(1) False
      by (subst db_destroy_loop.simps) (simp add: addr_ends del: restrict_fun_upd fun_upd_restrict_conv fun_upd_None_restrict)
  qed
qed

lemma db_destroy_frees_all:
  assumes "db_rep F l xs"
  shows "db_destroy l = Some (Inr F)"
proof (cases "xs = []")
  case True
  then obtain a v where a: "db_head l = Some a" "db_tail l = Some a" "db_store l |` (- {a}) = F"
      "db_store l a = Some \<lparr>db_value = v, db_next = Some a, db_prev = Some a, db_flag = False\<rparr>"
    using assms by (auto simp: db_rep_def)
  have "(db_store l)(a := None) = F" unfolding a(3) [symmetric] by (auto simp: restrict_map_def fun_eq_iff)
  then show ?thesis using a by (simp add: db_destroy_def db_destroy_loop.simps [of _ "Some a" "Some a"])
next
  case False
  obtain cs where "db_ring l cs" "db_store l |` (- fst ` set cs) = F"
    by (rule db_repE [OF assms False]) blast
  then show ?thesis by (auto simp: db_destroy_def db_ring_def db_destroy_loop_seg)
qed

lemma db_getHeader_first: "db_rep F l xs \<Longrightarrow> xs \<noteq> [] \<Longrightarrow> db_getHeader l = Inr (hd xs)"
  by (erule db_repE, assumption) (auto simp: db_getHeader_def db_ring_def neq_Nil_conv hd_map)

section \<open>Properties\<close>

text \<open>
  The singly linked list implements a list of numbers: on a list that holds \<open>xs\<close>, \<open>push\<close>
  appends, \<open>dequeue\<close> takes the first number (and answers 0 on the empty list), \<open>Delete\<close>
  removes the first occurrence and says whether there was one, \<open>find\<close> gives a node with the number
  exactly when the list holds it, \<open>isEmpty\<close> is true exactly for the empty list, \<open>operator<<\<close> prints
  the numbers in order, and the destructor frees all the nodes of the list and no other memory.  In
  particular every loop ends, and no operation follows a null or dangling pointer.
\<close>

theorem linkedList_refines_list:
  assumes "ll_rep F l xs"
  shows "(\<exists>l'. ll_push x l = Some (Inr (True, l')) \<and> ll_rep F l' (xs @ [x])) \<and>
    (\<exists>l'. ll_dequeue l = Inr (if xs = [] then 0 else hd xs, l') \<and> ll_rep F l' (tl xs)) \<and>
    (\<exists>l'. ll_Delete x l = Some (Inr (x \<in> set xs, l')) \<and> ll_rep F l' (remove1 x xs)) \<and>
    (\<exists>r. ll_find x l = Some (Inr r) \<and>
       (case r of None \<Rightarrow> x \<notin> set xs | Some a \<Rightarrow> x \<in> set xs \<and> (\<exists>n. ll_store l a = Some n \<and> nd_value n = x))) \<and>
    ll_isEmpty l = Inr (xs = []) \<and>
    ll_print print l = Some (Inr (concat (map (\<lambda>x. print x @ '' '') xs))) \<and>
    ll_destroy l = Some (Inr F)"
  using push_appends [OF assms] dequeue_takes_front [OF assms] Delete_removes_first [OF assms]
    find_first [OF assms] isEmpty_iff [OF assms] print_all [OF assms] destroy_frees_all [OF assms]
  by blast

theorem linkedList_refines_list_witness:
  "ll_rep Map.empty (linkedList_new Map.empty 0) [] \<and> ll_destroy (linkedList_new Map.empty 0) = Some (Inr Map.empty)"
  using linkedList_refines_list [OF linkedList_new_rep [of 0 Map.empty]] linkedList_new_rep [of 0 Map.empty] by simp

text \<open>
  A queue built by the constructor from a vector gives the numbers back in the order of the
  vector, whatever else is in memory.
\<close>

theorem linkedList_queue_order:
  assumes "\<And>a. fresh \<le> a \<Longrightarrow> st a = None"
  shows "\<exists>l l'. linkedList_of xs (linkedList_new st fresh) = Some (Inr l) \<and>
    lq.deq_n (length xs) l = Inr (xs, l') \<and> ll_isEmpty l' = Inr True \<and> ll_destroy l' = Some (Inr st)"
  using lq.first_in_first_out [OF linkedList_new_rep [OF assms], where xs = xs] isEmpty_iff destroy_frees_all
  unfolding linkedList_of_enq_all by fastforce

theorem linkedList_queue_order_witness:
  "\<exists>l l'. linkedList_of [3, 1, 2] (linkedList_new Map.empty 0) = Some (Inr l) \<and>
    lq.deq_n 3 l = Inr ([3, 1, 2], l') \<and> ll_isEmpty l' = Inr True"
  using linkedList_queue_order [of 0 Map.empty "[3, 1, 2]"] by (auto simp: numeral_3_eq_3)

text \<open>
  \<open>pop\<close> takes the last number of a list of two or more; on a list of one number and on the
  empty list it dereferences the null pointer.
\<close>

theorem linkedList_pop_cases:
  assumes "ll_rep F l xs"
  shows "if 2 \<le> length xs then \<exists>l'. ll_pop l = Some (Inr (last xs, l')) \<and> ll_rep F l' (butlast xs)
         else ll_pop l = Some (Inl Null_deref)"
  by (rule pop_cases [OF assms])

theorem linkedList_pop_cases_witness: "ll_pop (linkedList_new Map.empty 0) = Some (Inl Null_deref)"
  using linkedList_pop_cases [OF linkedList_new_rep [of 0 Map.empty]] by simp

text \<open>
  The circular doubly linked list implements a list of numbers: \<open>push\<close> appends,
  \<open>Delete\<close> removes the first occurrence as long as a number remains, and the destructor frees
  exactly the nodes of the list.  Deleting the only number frees the only node and leaves two null
  pointers, and then \<open>push\<close>, \<open>Delete\<close> and \<open>getHeader\<close> all dereference the null pointer.
\<close>

theorem dbLinkedList_refines_list:
  assumes "db_rep F l xs"
  shows "(\<exists>l'. db_push x l = Inr (True, l') \<and> db_rep F l' (xs @ [x])) \<and>
    db_destroy l = Some (Inr F) \<and>
    (if xs = [x] then
       \<exists>l'. db_Delete x l = Some (Inr (True, l')) \<and> db_store l' = F \<and> db_push y l' = Inl Null_deref \<and>
         db_Delete y l' = Some (Inl Null_deref) \<and> db_getHeader l' = Inl Null_deref \<and> db_destroy l' = Some (Inr F)
     else \<exists>l'. db_Delete x l = Some (Inr (x \<in> set xs, l')) \<and> db_rep F l' (remove1 x xs))"
proof (cases "xs = [x]")
  case True
  with db_Delete_only [of F l x] assms obtain l' where l': "db_Delete x l = Some (Inr (True, l'))"
      "db_head l' = None" "db_tail l' = None" "db_store l' = F" by auto
  then have "db_push y l' = Inl Null_deref" "db_Delete y l' = Some (Inl Null_deref)" "db_getHeader l' = Inl Null_deref"
      "db_destroy l' = Some (Inr F)"
    by (simp_all add: db_push_def db_Delete_def db_getHeader_def db_destroy_def db_delete_def
        db_destroy_loop.simps [of _ None None])
  then show ?thesis using True l' db_push_appends [OF assms] db_destroy_frees_all [OF assms] by auto
next
  case False
  then have "2 \<le> length xs \<or> x \<notin> set xs" by (cases xs; cases "tl xs") auto
  then show ?thesis
    using False db_Delete_ring [OF assms] db_push_appends [OF assms] db_destroy_frees_all [OF assms] by simp
qed

theorem dbLinkedList_refines_list_witness:
  "\<exists>l'. db_push 7 (dbLinkedList_new Map.empty 0) = Inr (True, l') \<and> db_rep Map.empty l' [7]"
  using dbLinkedList_refines_list [OF db_new_rep [of 0 Map.empty], of 7] by simp

end
