(* ===== verification/Sta_Trees.thy ===== *)
theory Sta_Trees
  imports Sone_Prelude
begin

text \<open>
  The trees and the graph of \<^verbatim>\<open>src/sta\<close>: the binary search tree of \<^verbatim>\<open>tree.h\<close>, the AVL tree of
  \<^verbatim>\<open>avltree.h\<close> and the adjacency matrix of \<^verbatim>\<open>graph.h\<close>.  No node of a tree has two parents, so a
  pointer to a node is the datatype of the subtree below it, with the null pointer as \<open>Null\<close>.
\<close>

section \<open>The search tree\<close>

datatype 'a treenode = Null | Node (left: "'a treenode") (val: 'a) (right: "'a treenode")

text \<open>
  The member \<open>root\<close> of a \<open>SearchTree\<close> keeps its address when the recursive \<open>Delete\<close> frees the
  node there; the model then says \<open>Freed\<close>.
\<close>

datatype 'a root = Live "'a treenode" | Freed

definition root_node :: "'a root \<Rightarrow> 'a treenode result" where
  "root_node r = (case r of Live t \<Rightarrow> Inr t | Freed \<Rightarrow> Inl Use_after_free)"

definition SearchTree_new :: "'a root" where
  "SearchTree_new = Live Null"

fun insert_below :: "'a::linorder \<Rightarrow> 'a treenode \<Rightarrow> bool \<times> 'a treenode" where
  "insert_below v Null = (True, Node Null v Null)"
| "insert_below v (Node l x r) =
     (if v < x then (let (b, l') = insert_below v l in (b, Node l' x r))
      else if x < v then (let (b, r') = insert_below v r in (b, Node l x r'))
      else (False, Node l x r))"

definition st_insert :: "'a::linorder \<Rightarrow> 'a root \<Rightarrow> (bool \<times> 'a root) result" where
  "st_insert v root =
     and_then (root_node root) (\<lambda>t.
       case t of
         Null \<Rightarrow> Inr (True, Live (Node Null v Null))
       | Node l x r \<Rightarrow>
           if v < x then (let (b, l') = insert_below v l in Inr (b, Live (Node l' x r)))
           else if x < v then (let (b, r') = insert_below v r in Inr (b, Live (Node l x r')))
           else Inr (False, Live t))"

text \<open>The constructor from a vector: the middle element first, then outwards on both sides.\<close>

definition at_int :: "'a list \<Rightarrow> int \<Rightarrow> 'a result" where
  "at_int vec j = (if 0 \<le> j then cell vec (nat j) else Inl Out_of_bounds)"

function build_loop :: "'a::linorder list \<Rightarrow> nat \<Rightarrow> int \<Rightarrow> 'a root \<Rightarrow> (int \<times> 'a root) result" where
  "build_loop vec i j t =
     (if i < length vec then
        and_then (cell vec i) (\<lambda>x. and_then (st_insert x t) (\<lambda>(_, t).
        and_then (at_int vec j) (\<lambda>y. and_then (st_insert y t) (\<lambda>(_, t).
          build_loop vec (i + 1) (j - 1) t))))
      else Inr (j, t))"
  by pat_completeness auto
termination by (relation "measure (\<lambda>(vec, i, j, t). length vec - i)") auto

declare build_loop.simps [simp del]

definition SearchTree_of :: "'a::linorder list \<Rightarrow> 'a root result" where
  "SearchTree_of vec =
     (let size = length vec in
      and_then (cell vec (size div 2)) (\<lambda>x. and_then (st_insert x SearchTree_new) (\<lambda>(_, t).
      and_then (build_loop vec (size div 2 + 1) (int (size div 2) - 1) t) (\<lambda>(j, t).
        if j = 0 then and_then (at_int vec j) (\<lambda>y. and_then (st_insert y t) (\<lambda>(_, t). Inr t))
        else Inr t))))"

text \<open>The recursive \<open>Delete\<close> of the destructor: the values of the nodes it frees.\<close>

fun free_tree :: "'a treenode \<Rightarrow> 'a list result" where
  "free_tree Null = Inl Null_deref"
| "free_tree (Node l x r) =
     (if l = Null then Inr [x]
      else and_then (free_tree l) (\<lambda>ls.
        if r = Null then Inr (x # ls) else and_then (free_tree r) (\<lambda>rs. Inr (x # ls @ rs))))"

definition SearchTree_destroy :: "'a root \<Rightarrow> 'a list result" where
  "SearchTree_destroy root = and_then (root_node root) free_tree"

fun findMin_loop :: "'a treenode \<Rightarrow> 'a treenode \<Rightarrow> 'a treenode" where
  "findMin_loop Null res = res"
| "findMin_loop (Node l x r) res = findMin_loop l (if l = Null then Node l x r else res)"

definition findMin_node :: "'a treenode \<Rightarrow> 'a treenode" where
  "findMin_node t = findMin_loop t Null"

definition node_value :: "'a treenode \<Rightarrow> 'a result" where
  "node_value t = (case t of Null \<Rightarrow> Inl Null_deref | Node _ x _ \<Rightarrow> Inr x)"

definition st_findMin :: "'a root \<Rightarrow> 'a result" where
  "st_findMin root = and_then (root_node root) (\<lambda>t. node_value (findMin_node t))"

fun find_node :: "'a::linorder \<Rightarrow> 'a treenode \<Rightarrow> 'a treenode" where
  "find_node v Null = Null"
| "find_node v (Node l x r) = (if x = v then Node l x r else if x < v then find_node v r else find_node v l)"

text \<open>
  The recursive \<open>Delete\<close>: the pointer it returns, and whether it freed the node it was called on.
  A node with a left child only is freed, and its left subtree is no longer reachable.
\<close>

lemma findMin_loop_size [termination_simp]:
  "t \<noteq> Null \<Longrightarrow> size (findMin_loop t res) \<le> size t"
proof (induction t res rule: findMin_loop.induct)
  case (2 l x r res)
  then show ?case by (cases l) auto
qed simp

fun Delete_node :: "'a::linorder \<Rightarrow> 'a treenode \<Rightarrow> ('a treenode \<times> bool) result" where
  "Delete_node v Null = Inl Null_deref"
| "Delete_node v (Node l x r) =
     (if x < v then and_then (Delete_node v r) (\<lambda>(r', _). Inr (Node l x r', False))
      else if v < x then and_then (Delete_node v l) (\<lambda>(l', _). Inr (Node l' x r, False))
      else if l \<noteq> Null \<and> r \<noteq> Null then
        and_then (node_value (findMin_node r)) (\<lambda>y.
        and_then (Delete_node y r) (\<lambda>(r', _). Inr (Node l y r', False)))
      else if r \<noteq> Null then Inr (r, True)
      else Inr (Null, True))"

definition st_Delete :: "'a::linorder \<Rightarrow> 'a root \<Rightarrow> (bool \<times> 'a root) result" where
  "st_Delete v root =
     and_then (root_node root) (\<lambda>t.
       case find_node v t of
         Null \<Rightarrow> Inr (False, root)
       | Node _ x _ \<Rightarrow>
           and_then (Delete_node x t) (\<lambda>(t', freed). Inr (True, if freed then Freed else Live t')))"

fun printTree :: "('a \<Rightarrow> string) \<Rightarrow> 'a treenode \<Rightarrow> string" where
  "printTree print Null = []"
| "printTree print (Node l x r) = printTree print l @ (print x @ '' '') @ printTree print r"

definition st_print :: "('a \<Rightarrow> string) \<Rightarrow> 'a root \<Rightarrow> string result" where
  "st_print print root = and_then (root_node root) (\<lambda>t. Inr (printTree print t))"

section \<open>Keys in order\<close>

fun keys :: "'a treenode \<Rightarrow> 'a list" where
  "keys Null = []"
| "keys (Node l x r) = keys l @ x # keys r"

definition ordered :: "'a::linorder treenode \<Rightarrow> bool" where
  "ordered t \<longleftrightarrow> sorted_wrt (<) (keys t)"

lemma ordered_simps [simp]:
  "ordered Null"
  "ordered (Node l x r) \<longleftrightarrow>
     ordered l \<and> ordered r \<and> (\<forall>y \<in> set (keys l). y < x) \<and> (\<forall>y \<in> set (keys r). x < y)"
  by (auto simp: ordered_def sorted_wrt_append intro: less_trans)

lemma keys_empty [simp]: "keys t = [] \<longleftrightarrow> t = Null"
  by (cases t) auto

lemma insert_below_keys:
  "ordered t \<Longrightarrow> insert_below v t = (b, t') \<Longrightarrow>
     ordered t' \<and> set (keys t') = insert v (set (keys t)) \<and> (b \<longleftrightarrow> v \<notin> set (keys t))"
proof (induction t arbitrary: b t')
  case (Node l x r)
  obtain b1 l' where l: "insert_below v l = (b1, l')" by fastforce
  obtain b2 r' where r: "insert_below v r = (b2, r')" by fastforce
  have IH: "ordered l' \<and> set (keys l') = insert v (set (keys l)) \<and> (b1 \<longleftrightarrow> v \<notin> set (keys l))"
      "ordered r' \<and> set (keys r') = insert v (set (keys r)) \<and> (b2 \<longleftrightarrow> v \<notin> set (keys r))"
    using Node.IH(1) [OF _ l] Node.IH(2) [OF _ r] Node.prems(1) by simp_all
  consider "v < x" | "x < v" | "v = x" by (rule linorder_cases)
  then show ?case
  proof cases
    case 1
    then have "t' = Node l' x r" "b = b1" using Node.prems(2) l by simp_all
    moreover have "v \<notin> set (keys r)" using 1 Node.prems(1) by (auto dest: less_asym)
    ultimately show ?thesis using 1 Node.prems(1) IH(1) by auto
  next
    case 2
    then have "t' = Node l x r'" "b = b2" using Node.prems(2) r less_not_sym [OF 2] by simp_all
    moreover have "v \<notin> set (keys l)" using 2 Node.prems(1) by (auto dest: less_asym)
    ultimately show ?thesis using 2 Node.prems(1) IH(2) by auto
  next
    case 3
    then have "t' = Node l x r" "\<not> b" using Node.prems(2) by simp_all
    then show ?thesis using 3 Node.prems(1) by auto
  qed
qed auto

lemma st_insert_is: "st_insert v (Live t) = Inr (map_prod id Live (insert_below v t))"
  by (cases t) (auto simp: st_insert_def root_node_def split: prod.splits)

lemma st_insert_keys:
  assumes "ordered t"
  shows "\<exists>t'. st_insert v (Live t) = Inr (v \<notin> set (keys t), Live t') \<and> ordered t' \<and>
    set (keys t') = insert v (set (keys t))"
  using insert_below_keys [OF assms, of v] by (cases "insert_below v t") (auto simp: st_insert_is)

lemma find_node_keys:
  "ordered t \<Longrightarrow> (case find_node v t of Null \<Rightarrow> v \<notin> set (keys t) | Node _ x _ \<Rightarrow> x = v \<and> v \<in> set (keys t))"
  by (induction t) (auto split: treenode.splits)

lemma findMin_loop_hd: "t \<noteq> Null \<Longrightarrow> \<exists>r. findMin_loop t res = Node Null (hd (keys t)) r"
proof (induction t res rule: findMin_loop.induct)
  case (2 l x r res)
  then show ?case by (cases "l = Null") (auto simp: hd_append)
qed simp

lemma findMin_node_value:
  "node_value (findMin_node t) = (if t = Null then Inl Null_deref else Inr (hd (keys t)))"
  using findMin_loop_hd [of t Null] by (auto simp: findMin_node_def node_value_def)


text \<open>
  \<open>lost v t\<close>: the keys a \<open>Delete\<close> of \<open>v\<close> makes unreachable besides \<open>v\<close> itself, the left
  subtree of a node that has no right one.
\<close>

definition lost :: "'a::linorder \<Rightarrow> 'a treenode \<Rightarrow> 'a set" where
  "lost v t = (case find_node v t of Null \<Rightarrow> {} | Node l _ r \<Rightarrow> if r = Null then set (keys l) else {})"

lemma find_node_subset: "find_node v t = Node l x r \<Longrightarrow> set (keys l) \<subseteq> set (keys t)"
  by (induction t) (auto split: if_splits)

lemma lost_subset: "lost v t \<subseteq> set (keys t)"
  using find_node_subset [of v t] by (auto simp: lost_def split: treenode.splits if_splits)

lemma find_node_min: "ordered t \<Longrightarrow> t \<noteq> Null \<Longrightarrow> \<exists>r. find_node (hd (keys t)) t = Node Null (hd (keys t)) r"
proof (induction t)
  case (Node l x r)
  show ?case
  proof (cases "l = Null")
    case False
    then have "hd (keys l) \<in> set (keys l)" by simp
    then have "hd (keys l) < x" using Node.prems(1) by auto
    then have "\<not> x < hd (keys l)" "x \<noteq> hd (keys l)" by auto
    then show ?thesis using Node.IH(1) Node.prems(1) False by (simp add: hd_append)
  qed simp
qed simp

lemma lost_min: "ordered t \<Longrightarrow> t \<noteq> Null \<Longrightarrow> lost (hd (keys t)) t = {}"
  by (frule find_node_min, assumption) (auto simp: lost_def split: if_splits)

lemma hd_least: "ordered t \<Longrightarrow> t \<noteq> Null \<Longrightarrow> y \<in> set (keys t) \<Longrightarrow> hd (keys t) \<le> y"
  by (cases "keys t") (auto simp: ordered_def)

lemma Delete_node_keys:
  assumes "ordered t" "v \<in> set (keys t)"
  shows "\<exists>t' freed. Delete_node v t = Inr (t', freed) \<and> ordered t' \<and>
    set (keys t') = set (keys t) - {v} - lost v t \<and>
    (freed \<longleftrightarrow> val t = v \<and> (left t = Null \<or> right t = Null))"
  using assms
proof (induction v t rule: Delete_node.induct)
  case (2 v l x r)
  have o: "ordered l" "ordered r" "\<And>y. y \<in> set (keys l) \<Longrightarrow> y < x" "\<And>y. y \<in> set (keys r) \<Longrightarrow> x < y"
    using "2.prems"(1) by auto
  consider "x < v" | "v < x" | "v = x" "l \<noteq> Null" "r \<noteq> Null" | "v = x" "l = Null \<or> r = Null"
    by (metis linorder_cases)
  then show ?case
  proof cases
    case 1
    then have "v \<in> set (keys r)" using "2.prems"(2) o(3) [of v] by auto
    with "2.IH"(1) [OF 1 o(2)] obtain r' f where r': "Delete_node v r = Inr (r', f)" "ordered r'"
        "set (keys r') = set (keys r) - {v} - lost v r" by auto
    moreover have "x \<noteq> v" using 1 by simp
    moreover have "lost v (Node l x r) = lost v r" using 1 \<open>x \<noteq> v\<close> by (simp add: lost_def)
    moreover have "v \<notin> set (keys l)" "lost v r \<inter> set (keys l) = {}" "x \<notin> lost v r"
      using 1 o(3,4) lost_subset [of v r] by fastforce+
    ultimately show ?thesis using 1 o by auto
  next
    case 2
    then have "v \<in> set (keys l)" using "2.prems"(2) o(4) [of v] by auto
    moreover have "\<not> x < v" using 2 by simp
    ultimately obtain l' f where l': "Delete_node v l = Inr (l', f)" "ordered l'"
        "set (keys l') = set (keys l) - {v} - lost v l" using "2.IH"(2) [OF _ 2 o(1)] by auto
    moreover have "x \<noteq> v" using 2 by simp
    moreover have "lost v (Node l x r) = lost v l" using 2 \<open>x \<noteq> v\<close> less_not_sym [OF 2] by (simp add: lost_def)
    moreover have "v \<notin> set (keys r)" "lost v l \<inter> set (keys r) = {}" "x \<notin> lost v l"
      using 2 o(3,4) lost_subset [of v l] by fastforce+
    ultimately show ?thesis using 2 o by auto
  next
    case 3
    let ?y = "hd (keys r)"
    have y: "?y \<in> set (keys r)" "lost ?y r = {}" "node_value (findMin_node r) = Inr ?y"
      using 3 o(2) lost_min [of r] by (simp_all add: findMin_node_value)
    with "2.IH"(3) [of ?y] 3 o(2) obtain r' f where r': "Delete_node ?y r = Inr (r', f)" "ordered r'"
        "set (keys r') = set (keys r) - {?y}" by auto
    moreover have "\<And>z. z \<in> set (keys r) \<Longrightarrow> z \<noteq> ?y \<Longrightarrow> ?y < z"
      using hd_least [OF o(2) 3(3)] by (simp add: order_less_le)
    moreover have "lost v (Node l x r) = {}" using 3 by (simp add: lost_def)
    moreover have "v \<notin> set (keys l)" "v \<notin> set (keys r)" using 3 o(3) [of v] o(4) [of v] by auto
    ultimately show ?thesis using 3 o y less_trans [OF o(3) o(4) [OF y(1)]] by auto
  next
    case 4
    have "v \<notin> set (keys l)" "v \<notin> set (keys r)" using 4(1) o(3) [of v] o(4) [of v] by auto
    moreover have "Delete_node v (Node l x r) = Inr (r, True)" using 4 by (cases "r = Null") auto
    moreover have "lost v (Node l x r) = (if r = Null then set (keys l) else {})" using 4(1) by (simp add: lost_def)
    ultimately show ?thesis using 4 o(1,2) by (cases "r = Null") auto
  qed
qed simp


subsection \<open>The constructor\<close>

text \<open>The loop inserts the elements above the middle and as many below it.\<close>

lemma build_loop_keys:
  assumes "ordered t" "i \<le> length vec" "int (length vec) - int i \<le> j + 1" "j < int (length vec)"
  shows "\<exists>t'. build_loop vec i j (Live t) = Inr (j - (int (length vec) - int i), Live t') \<and> ordered t' \<and>
    set (keys t') = set (keys t) \<union> set (drop i vec) \<union> set (drop (nat (j + 1 - (int (length vec) - int i))) (take (nat (j + 1)) vec))"
  using assms
proof (induction "length vec - i" arbitrary: i j t)
  case 0
  then have i: "i = length vec" by simp
  then have "build_loop vec i j (Live t) = Inr (j, Live t)" by (simp add: build_loop.simps)
  then show ?case using 0 i by simp
next
  case (Suc k)
  then have i: "i < length vec" and j: "0 \<le> j" "nat j < length vec" and k: "k = length vec - Suc i" by auto
  obtain t1 where t1: "st_insert (vec ! i) (Live t) = Inr (vec ! i \<notin> set (keys t), Live t1)" "ordered t1"
      "set (keys t1) = insert (vec ! i) (set (keys t))" using st_insert_keys [OF Suc.prems(1)] by blast
  obtain t2 where t2: "st_insert (vec ! nat j) (Live t1) = Inr (vec ! nat j \<notin> set (keys t1), Live t2)" "ordered t2"
      "set (keys t2) = insert (vec ! nat j) (set (keys t1))" using st_insert_keys [OF t1(2)] by blast
  have "build_loop vec i j (Live t) = build_loop vec (Suc i) (j - 1) (Live t2)"
    using i j t1(1) t2(1) by (subst build_loop.simps) (simp add: cell_ok at_int_def)
  moreover have e: "j - 1 + 1 - (int (length vec) - int (Suc i)) = j + 1 - (int (length vec) - int i)" "j - 1 + 1 = j"
      "j - 1 - (int (length vec) - int (Suc i)) = j - (int (length vec) - int i)" by simp_all
  have pr: "Suc i \<le> length vec" "int (length vec) - int (Suc i) \<le> j - 1 + 1" "j - 1 < int (length vec)"
    using Suc.prems i by simp_all
  obtain t' where t': "build_loop vec (Suc i) (j - 1) (Live t2) = Inr (j - (int (length vec) - int i), Live t')" "ordered t'"
      "set (keys t') = set (keys t2) \<union> set (drop (Suc i) vec) \<union>
         set (drop (nat (j + 1 - (int (length vec) - int i))) (take (nat j) vec))"
    using Suc.hyps(1) [OF k t2(2) pr, unfolded e(1,3), unfolded e(2)] by blast
  moreover have "drop i vec = vec ! i # drop (Suc i) vec" using i by (simp add: Cons_nth_drop_Suc)
  moreover have "take (nat (j + 1)) vec = take (nat j) vec @ [vec ! nat j]"
    using j by (simp add: nat_add_distrib take_Suc_conv_app_nth)
  moreover have "nat (j + 1 - (int (length vec) - int i)) \<le> length (take (nat j) vec)" using Suc.prems i j by simp
  ultimately show ?case using t1(3) t2(3) by (intro exI [of _ t']) auto
qed

lemma middle_split:
  assumes "m < length vec"
  shows "set vec = insert (vec ! m) (set (drop (Suc m) vec) \<union> set (take m vec))"
proof -
  have "vec = take m vec @ vec ! m # drop (Suc m) vec" using assms by (rule id_take_nth_drop)
  then have "set vec = set (take m vec @ vec ! m # drop (Suc m) vec)" by (rule arg_cong)
  then show ?thesis by auto
qed

lemma SearchTree_of_keys:
  assumes "vec \<noteq> []"
  shows "\<exists>t. SearchTree_of vec = Inr (Live t) \<and> ordered t \<and> set (keys t) = set vec"
proof -
  let ?n = "length vec" and ?m = "length vec div 2"
  have m: "?m < ?n" using assms by simp
  let ?t0 = "Node Null (vec ! ?m) Null"
  have loop: "\<exists>t'. build_loop vec (Suc ?m) (int ?m - 1) (Live ?t0) = Inr (int ?m - 1 - (int ?n - int (Suc ?m)), Live t') \<and>
      ordered t' \<and> set (keys t') = set (keys ?t0) \<union> set (drop (Suc ?m) vec) \<union>
        set (drop (nat (int ?m - 1 + 1 - (int ?n - int (Suc ?m)))) (take (nat (int ?m - 1 + 1)) vec))"
    using m by (intro build_loop_keys) auto
  have ins: "st_insert (vec ! ?m) SearchTree_new = Inr (True, Live ?t0)"
    by (simp add: st_insert_def SearchTree_new_def root_node_def)
  show ?thesis
  proof (cases "even ?n")
    case True
    then have n: "?n = 2 * ?m" by simp
    have e: "int ?m - 1 - (int ?n - int (Suc ?m)) = 0" "nat (int ?m - 1 + 1 - (int ?n - int (Suc ?m))) = 1"
        "nat (int ?m - 1 + 1) = ?m" using n by linarith+
    obtain t' where t': "build_loop vec (Suc ?m) (int ?m - 1) (Live ?t0) = Inr (0, Live t')" "ordered t'"
        "set (keys t') = set (keys ?t0) \<union> set (drop (Suc ?m) vec) \<union> set (drop 1 (take ?m vec))"
      using loop unfolding e by blast
    obtain t2 where t2: "st_insert (vec ! 0) (Live t') = Inr (vec ! 0 \<notin> set (keys t'), Live t2)" "ordered t2"
        "set (keys t2) = insert (vec ! 0) (set (keys t'))" using st_insert_keys [OF t'(2)] by blast
    have "0 < ?m" using n assms by (cases vec) auto
    then have "take ?m vec = vec ! 0 # drop 1 (take ?m vec)"
      using m by (cases vec; cases ?m) auto
    then have "set (take ?m vec) = insert (vec ! 0) (set (drop 1 (take ?m vec)))" by (metis list.simps(15))
    then have "set (keys t2) = set vec" using t2(3) t'(3) middle_split [OF m] by auto
    moreover have "SearchTree_of vec = Inr (Live t2)"
      using m assms ins t'(1) t2(1) by (simp add: SearchTree_of_def cell_ok at_int_def)
    ultimately show ?thesis using t2(2) by blast
  next
    case False
    then have n: "?n = 2 * ?m + 1" by presburger
    have e: "int ?m - 1 - (int ?n - int (Suc ?m)) = - 1" "nat (int ?m - 1 + 1 - (int ?n - int (Suc ?m))) = 0"
        "nat (int ?m - 1 + 1) = ?m" using n by linarith+
    obtain t' where t': "build_loop vec (Suc ?m) (int ?m - 1) (Live ?t0) = Inr (- 1, Live t')" "ordered t'"
        "set (keys t') = set (keys ?t0) \<union> set (drop (Suc ?m) vec) \<union> set (take ?m vec)"
      using loop unfolding e drop_0 by blast
    then have "set (keys t') = set vec" using middle_split [OF m] by auto
    moreover have "SearchTree_of vec = Inr (Live t')"
      using m ins t'(1) by (simp add: SearchTree_of_def cell_ok)
    ultimately show ?thesis using t'(2) by blast
  qed
qed

lemma ordered_keys_unique: "ordered t \<Longrightarrow> keys t = sorted_list_of_set (set (keys t))"
  unfolding ordered_def
  by (metis sorted_list_of_set.idem_if_sorted_distinct strict_sorted_iff)

lemma printTree_keys: "printTree print t = concat (map (\<lambda>x. print x @ '' '') (keys t))"
  by (induction t) simp_all

text \<open>The destructor stops at a node without a left child, and forgets its right subtree.\<close>

fun no_right_only :: "'a treenode \<Rightarrow> bool" where
  "no_right_only Null \<longleftrightarrow> True"
| "no_right_only (Node l x r) \<longleftrightarrow> (if l = Null then r = Null else no_right_only l \<and> no_right_only r)"

lemma free_tree_frees:
  "t \<noteq> Null \<Longrightarrow>
     \<exists>vs. free_tree t = Inr vs \<and> mset vs \<subseteq># mset (keys t) \<and> (mset vs = mset (keys t) \<longleftrightarrow> no_right_only t)"
proof (induction t)
  case (Node l x r)
  show ?case
  proof (cases "l = Null")
    case True
    then show ?thesis by (auto simp: single_subset_iff)
  next
    case False
    then obtain ls where ls: "free_tree l = Inr ls" "mset ls \<subseteq># mset (keys l)" "mset ls = mset (keys l) \<longleftrightarrow> no_right_only l"
      using Node.IH(1) by blast
    show ?thesis
    proof (cases "r = Null")
      case True
      then show ?thesis using ls False by simp
    next
      case r: False
      then obtain rs where rs: "free_tree r = Inr rs" "mset rs \<subseteq># mset (keys r)" "mset rs = mset (keys r) \<longleftrightarrow> no_right_only r"
        using Node.IH(2) by blast
      have "mset ls + mset rs \<subseteq># mset (keys l) + mset (keys r)" by (rule subset_mset.add_mono [OF ls(2) rs(2)])
      moreover obtain A B where "mset (keys l) = mset ls + A" "mset (keys r) = mset rs + B"
        using ls(2) rs(2) unfolding mset_subset_eq_exists_conv by blast
      then have "mset ls + mset rs = mset (keys l) + mset (keys r) \<longleftrightarrow> mset ls = mset (keys l) \<and> mset rs = mset (keys r)"
        by (auto simp: add.assoc add.left_commute [of A])
      ultimately show ?thesis using ls rs False r by simp
    qed
  qed
qed simp


section \<open>The AVL tree\<close>

datatype 'a AVLNode = ANull | ANode (aleft: "'a AVLNode") (aval: 'a) (aheight: int) (aright: "'a AVLNode")

definition Height :: "'a AVLNode \<Rightarrow> int" where
  "Height t = (case t of ANull \<Rightarrow> -1 | ANode _ _ h _ \<Rightarrow> h)"

definition higher :: "'a AVLNode \<Rightarrow> 'a AVLNode \<Rightarrow> int" where
  "higher l r = (if Height r < Height l then Height l + 1 else Height r + 1)"

definition SingleRotateWithLeft :: "'a AVLNode \<Rightarrow> 'a AVLNode result" where
  "SingleRotateWithLeft root =
     (case root of
        ANode (ANode ll lv lh lr) v h r \<Rightarrow>
          (let root' = ANode lr v (higher lr r) r in Inr (ANode ll lv (higher ll root') root'))
      | _ \<Rightarrow> Inl Null_deref)"

definition SingleRotateWithRight :: "'a AVLNode \<Rightarrow> 'a AVLNode result" where
  "SingleRotateWithRight root =
     (case root of
        ANode l v h (ANode rl rv rh rr) \<Rightarrow>
          (let root' = ANode l v (higher l rl) rl in Inr (ANode root' rv (higher root' rr) rr))
      | _ \<Rightarrow> Inl Null_deref)"

definition DoubleRotateWithLeft :: "'a AVLNode \<Rightarrow> 'a AVLNode result" where
  "DoubleRotateWithLeft root =
     (case root of
        ANull \<Rightarrow> Inl Null_deref
      | ANode l v h r \<Rightarrow> and_then (SingleRotateWithLeft r) (\<lambda>r'. SingleRotateWithRight (ANode l v h r')))"

definition DoubleRotateWithRight :: "'a AVLNode \<Rightarrow> 'a AVLNode result" where
  "DoubleRotateWithRight root =
     (case root of
        ANull \<Rightarrow> Inl Null_deref
      | ANode l v h r \<Rightarrow> and_then (SingleRotateWithRight l) (\<lambda>l'. SingleRotateWithLeft (ANode l' v h r)))"

text \<open>
  The last statement of \<open>insert\<close> reads \<open>root->left->height\<close> and \<open>root->right->height\<close> without
  the test for null that \<open>Height\<close> makes.
\<close>

definition set_height :: "'a AVLNode \<Rightarrow> 'a AVLNode result" where
  "set_height root =
     (case root of
        ANode (ANode ll lv lh lr) v h (ANode rl rv rh rr) \<Rightarrow>
          Inr (ANode (ANode ll lv lh lr) v (if rh < lh then lh + 1 else rh + 1) (ANode rl rv rh rr))
      | _ \<Rightarrow> Inl Null_deref)"

definition rebalance_left :: "'a::linorder \<Rightarrow> 'a AVLNode \<Rightarrow> 'a AVLNode result" where
  "rebalance_left x root =
     (if Height (aleft root) - Height (aright root) = 2 then
        (case aleft root of
           ANull \<Rightarrow> Inl Null_deref
         | ANode _ lv _ _ \<Rightarrow> if x < lv then SingleRotateWithLeft root else DoubleRotateWithLeft root)
      else Inr root)"

definition rebalance_right :: "'a::linorder \<Rightarrow> 'a AVLNode \<Rightarrow> 'a AVLNode result" where
  "rebalance_right x root =
     (if Height (aright root) - Height (aleft root) = 2 then
        (case aright root of
           ANull \<Rightarrow> Inl Null_deref
         | ANode _ rv _ _ \<Rightarrow> if rv < x then SingleRotateWithRight root else DoubleRotateWithRight root)
      else Inr root)"

fun avl_insert :: "'a::linorder \<Rightarrow> 'a AVLNode \<Rightarrow> 'a AVLNode result" where
  "avl_insert x ANull = set_height (ANode ANull x 0 ANull)"
| "avl_insert x (ANode l v h r) =
     (if x < v then
        and_then (avl_insert x l) (\<lambda>l'. and_then (rebalance_left x (ANode l' v h r)) set_height)
      else if v < x then
        and_then (avl_insert x r) (\<lambda>r'. and_then (rebalance_right x (ANode l v h r')) set_height)
      else set_height (ANode l v h r))"

fun avl_keys :: "'a AVLNode \<Rightarrow> 'a list" where
  "avl_keys ANull = []"
| "avl_keys (ANode l v h r) = avl_keys l @ v # avl_keys r"

lemma rotations_keep_keys:
  "SingleRotateWithLeft t = Inr t' \<Longrightarrow> avl_keys t' = avl_keys t"
  "SingleRotateWithRight t = Inr t' \<Longrightarrow> avl_keys t' = avl_keys t"
  "DoubleRotateWithLeft t = Inr t' \<Longrightarrow> avl_keys t' = avl_keys t"
  "DoubleRotateWithRight t = Inr t' \<Longrightarrow> avl_keys t' = avl_keys t"
proof -
  show L: "SingleRotateWithLeft t = Inr t' \<Longrightarrow> avl_keys t' = avl_keys t" for t t' :: "'a AVLNode"
    by (auto simp: SingleRotateWithLeft_def Let_def split: AVLNode.splits)
  show R: "SingleRotateWithRight t = Inr t' \<Longrightarrow> avl_keys t' = avl_keys t" for t t' :: "'a AVLNode"
    by (auto simp: SingleRotateWithRight_def Let_def split: AVLNode.splits)
  show "DoubleRotateWithLeft t = Inr t' \<Longrightarrow> avl_keys t' = avl_keys t"
    by (auto simp: DoubleRotateWithLeft_def and_then_eq_Inr_conv split: AVLNode.splits dest!: L R)
  show "DoubleRotateWithRight t = Inr t' \<Longrightarrow> avl_keys t' = avl_keys t"
    by (auto simp: DoubleRotateWithRight_def and_then_eq_Inr_conv split: AVLNode.splits dest!: L R)
qed

lemma avl_insert_new: "x \<notin> set (avl_keys t) \<Longrightarrow> avl_insert x t = Inl Null_deref"
  by (induction t) (auto simp: set_height_def)

lemma set_height_keys: "set_height t = Inr t' \<Longrightarrow> avl_keys t' = avl_keys t"
  by (auto simp: set_height_def split: AVLNode.splits)

lemma rebalance_keys:
  "rebalance_left x t = Inr t' \<Longrightarrow> avl_keys t' = avl_keys t"
  "rebalance_right x t = Inr t' \<Longrightarrow> avl_keys t' = avl_keys t"
  by (auto simp: rebalance_left_def rebalance_right_def split: if_splits AVLNode.splits dest: rotations_keep_keys)

lemma avl_insert_keys: "avl_insert x t = Inr t' \<Longrightarrow> avl_keys t' = avl_keys t"
proof (induction x t arbitrary: t' rule: avl_insert.induct)
  case (1 x)
  then show ?case by (simp add: set_height_def)
next
  case (2 x l v h r)
  consider "x < v" | "v < x" | "x = v" by (rule linorder_cases)
  then show ?case
  proof cases
    case 1
    then obtain l' u where "avl_insert x l = Inr l'" "rebalance_left x (ANode l' v h r) = Inr u" "set_height u = Inr t'"
      using "2.prems" by (auto simp: and_then_eq_Inr_conv)
    then show ?thesis using "2.IH"(1) [OF 1] rebalance_keys(1) set_height_keys by fastforce
  next
    case 2
    then have n: "\<not> x < v" by simp
    then obtain r' u where "avl_insert x r = Inr r'" "rebalance_right x (ANode l v h r') = Inr u" "set_height u = Inr t'"
      using "2.prems" 2 by (auto simp: and_then_eq_Inr_conv)
    then show ?thesis using "2.IH"(2) [OF n 2] rebalance_keys(2) set_height_keys by fastforce
  next
    case 3
    then show ?thesis using "2.prems" set_height_keys by fastforce
  qed
qed


section \<open>The graph as an adjacency matrix\<close>

datatype VStatus = UNDISCOVERED | DISCOVERED | VISITED
datatype EStatus = UNDETERMINED | TREE | CROSS | FORWORD | BACKWARD

record 'v Vertex =
  v_data :: 'v
  outDegree :: int
  inDegree :: int
  v_status :: VStatus
  dtime :: int
  ftime :: int
  v_parent :: int
  v_priority :: int

definition Vertex_new :: "'v \<Rightarrow> 'v Vertex" where
  "Vertex_new x =
     \<lparr>v_data = x, outDegree = 0, inDegree = 0, v_status = UNDISCOVERED, dtime = -1, ftime = -1,
      v_parent = -1, v_priority = 2 ^ 31 - 1\<rparr>"

record 'e Edge =
  e_data :: 'e
  e_weight :: int
  e_status :: EStatus

definition Edge_new :: "'e \<Rightarrow> int \<Rightarrow> 'e Edge" where
  "Edge_new x w = \<lparr>e_data = x, e_weight = w, e_status = UNDETERMINED\<rparr>"

text \<open>
  The constructor gives the members \<open>n\<close> and \<open>e\<close> no value; they are arguments of the model.  An
  entry of the matrix is a pointer to an edge or null.
\<close>

record ('v, 'e) GraphMatrix =
  g_n :: int
  g_e :: int
  g_V :: "'v Vertex list"
  g_E :: "'e Edge option list list"

definition GraphMatrix_new :: "int \<Rightarrow> int \<Rightarrow> ('v, 'e) GraphMatrix" where
  "GraphMatrix_new n e = \<lparr>g_n = n, g_e = e, g_V = [], g_E = []\<rparr>"

definition entry :: "('v, 'e) GraphMatrix \<Rightarrow> int \<Rightarrow> int \<Rightarrow> 'e Edge option result" where
  "entry g i j = and_then (at_int (g_E g) i) (\<lambda>row. at_int row j)"

definition set_entry :: "('v, 'e) GraphMatrix \<Rightarrow> int \<Rightarrow> int \<Rightarrow> 'e Edge option \<Rightarrow> ('v, 'e) GraphMatrix" where
  "set_entry g i j x = g\<lparr>g_E := (g_E g)[nat i := (g_E g ! nat i)[nat j := x]]\<rparr>"

definition upd_vertex :: "('v Vertex \<Rightarrow> 'v Vertex) \<Rightarrow> int \<Rightarrow> ('v, 'e) GraphMatrix \<Rightarrow> ('v, 'e) GraphMatrix result" where
  "upd_vertex f i g = and_then (at_int (g_V g) i) (\<lambda>v. Inr (g\<lparr>g_V := (g_V g)[nat i := f v]\<rparr>))"

definition g_exists :: "int \<Rightarrow> int \<Rightarrow> ('v, 'e) GraphMatrix \<Rightarrow> bool result" where
  "g_exists i j g =
     (if 0 \<le> i \<and> i < g_n g \<and> 0 \<le> j \<and> j < g_n g then and_then (entry g i j) (\<lambda>x. Inr (x \<noteq> None)) else Inr False)"

definition g_insert :: "'e \<Rightarrow> int \<Rightarrow> int \<Rightarrow> int \<Rightarrow> ('v, 'e) GraphMatrix \<Rightarrow> ('v, 'e) GraphMatrix result" where
  "g_insert edge w i j g =
     and_then (entry g i j) (\<lambda>x.
       if x \<noteq> None then Inr g
       else
         (let g = (set_entry g i j (Some (Edge_new edge w)))\<lparr>g_e := g_e g + 1\<rparr> in
          and_then (upd_vertex (\<lambda>v. v\<lparr>outDegree := outDegree v + 1\<rparr>) i g)
            (upd_vertex (\<lambda>v. v\<lparr>inDegree := inDegree v + 1\<rparr>) j)))"

definition g_remove :: "int \<Rightarrow> int \<Rightarrow> ('v, 'e) GraphMatrix \<Rightarrow> ('e \<times> ('v, 'e) GraphMatrix) result" where
  "g_remove i j g =
     and_then (entry g i j) (\<lambda>x.
       case x of
         None \<Rightarrow> Inl Null_deref
       | Some edge \<Rightarrow>
           (let g = (set_entry g i j None)\<lparr>g_e := g_e g - 1\<rparr> in
            and_then (upd_vertex (\<lambda>v. v\<lparr>outDegree := outDegree v - 1\<rparr>) i g) (\<lambda>g.
            and_then (upd_vertex (\<lambda>v. v\<lparr>inDegree := inDegree v - 1\<rparr>) j g) (\<lambda>g.
              Inr (e_data edge, g)))))"

text \<open>The destructor deletes every cell of the first \<open>n\<close> rows and columns; the result is the cells that had an edge.\<close>

fun delete_cells :: "('v, 'e) GraphMatrix \<Rightarrow> (nat \<times> nat) list \<Rightarrow> (nat \<times> nat) list result" where
  "delete_cells g [] = Inr []"
| "delete_cells g ((i, j) # cs) =
     and_then (entry g (int i) (int j)) (\<lambda>x.
     and_then (delete_cells g cs) (\<lambda>ds. Inr (if x = None then ds else (i, j) # ds)))"

definition GraphMatrix_destroy :: "('v, 'e) GraphMatrix \<Rightarrow> (nat \<times> nat) list result" where
  "GraphMatrix_destroy g = delete_cells g (List.product [0..<nat (g_n g)] [0..<nat (g_n g)])"

text \<open>
  The invariant: the matrix is square of size \<open>n\<close>, \<open>e\<close> is the number of edges, and the degrees
  of a vertex are the numbers of edges that leave and enter it.
\<close>

definition edges :: "('v, 'e) GraphMatrix \<Rightarrow> (nat \<times> nat) set" where
  "edges g = {(i, j). i < length (g_E g) \<and> j < length (g_E g ! i) \<and> g_E g ! i ! j \<noteq> None}"

definition square :: "nat \<Rightarrow> ('v, 'e) GraphMatrix \<Rightarrow> bool" where
  "square k g \<longleftrightarrow> g_n g = int k \<and> length (g_V g) = k \<and> length (g_E g) = k \<and> (\<forall>i < k. length (g_E g ! i) = k)"

definition degrees :: "('v, 'e) GraphMatrix \<Rightarrow> bool" where
  "degrees g \<longleftrightarrow>
     g_e g = int (card (edges g)) \<and>
     (\<forall>i < length (g_V g). outDegree (g_V g ! i) = int (card {j. (i, j) \<in> edges g}) \<and>
                         inDegree (g_V g ! i) = int (card {j. (j, i) \<in> edges g}))"

lemma at_int_nat [simp]: "i < length xs \<Longrightarrow> at_int xs (int i) = Inr (xs ! i)"
  by (simp add: at_int_def cell_ok)

lemma entry_in: "square k g \<Longrightarrow> i < k \<Longrightarrow> j < k \<Longrightarrow> entry g (int i) (int j) = Inr (g_E g ! i ! j)"
  by (simp add: entry_def square_def)

lemma square_set_entry [simp]: "square k g \<Longrightarrow> i < k \<Longrightarrow> square k (set_entry g (int i) j x)"
  by (auto simp: square_def set_entry_def nth_list_update)

lemma edges_set_entry:
  assumes "square k g" "i < k" "j < k"
  shows "edges (set_entry g (int i) (int j) x) =
    (if x = None then edges g - {(i, j)} else insert (i, j) (edges g))"
  using assms by (auto simp: edges_def square_def set_entry_def nth_list_update split: if_splits)

lemma edges_bounded: "square k g \<Longrightarrow> edges g \<subseteq> {..<k} \<times> {..<k}"
  by (auto simp: edges_def square_def)

lemma edges_finite: "square k g \<Longrightarrow> finite (edges g)"
  by (rule finite_subset [OF edges_bounded]) auto

lemma row_finite:
  assumes "finite (S :: (nat \<times> nat) set)"
  shows "finite {j. (a, j) \<in> S}" "finite {j. (j, a) \<in> S}"
proof -
  have "{j. (a, j) \<in> S} \<subseteq> snd ` S" "{j. (j, a) \<in> S} \<subseteq> fst ` S" by force+
  then show "finite {j. (a, j) \<in> S}" "finite {j. (j, a) \<in> S}" using assms by (meson finite_imageI finite_subset)+
qed

lemma card_row_insert:
  assumes "finite (S :: (nat \<times> nat) set)" "(i, j) \<notin> S"
  shows "card {b. (a, b) \<in> insert (i, j) S} = card {b. (a, b) \<in> S} + (if a = i then 1 else 0)"
    and "card {b. (b, a) \<in> insert (i, j) S} = card {b. (b, a) \<in> S} + (if a = j then 1 else 0)"
proof -
  have "{b. (i, b) \<in> insert (i, j) S} = insert j {b. (i, b) \<in> S}"
    and "{b. (b, j) \<in> insert (i, j) S} = insert i {b. (b, j) \<in> S}" by auto
  then show "card {b. (a, b) \<in> insert (i, j) S} = card {b. (a, b) \<in> S} + (if a = i then 1 else 0)"
    and "card {b. (b, a) \<in> insert (i, j) S} = card {b. (b, a) \<in> S} + (if a = j then 1 else 0)"
    using assms row_finite [OF assms(1)] by auto
qed


text \<open>The two degree updates together; \<open>d\<close> is \<open>1\<close> or \<open>-1\<close>.\<close>

definition shift_degrees :: "int \<Rightarrow> nat \<Rightarrow> nat \<Rightarrow> 'v Vertex list \<Rightarrow> 'v Vertex list" where
  "shift_degrees d i j V =
     (let V = V[i := (V ! i)\<lparr>outDegree := outDegree (V ! i) + d\<rparr>] in
      V[j := (V ! j)\<lparr>inDegree := inDegree (V ! j) + d\<rparr>])"

lemma shift_degrees_nth:
  assumes "i < length V" "j < length V" "a < length V"
  shows "outDegree (shift_degrees d i j V ! a) = outDegree (V ! a) + (if a = i then d else 0)"
    and "inDegree (shift_degrees d i j V ! a) = inDegree (V ! a) + (if a = j then d else 0)"
  using assms by (auto simp: shift_degrees_def Let_def nth_list_update)

lemma length_shift_degrees [simp]: "length (shift_degrees d i j V) = length V"
  by (simp add: shift_degrees_def Let_def)

lemma shift_degrees_back:
  assumes "i < length V" "j < length V"
  shows "shift_degrees (- d) i j (shift_degrees d i j V) = V"
  using assms
  by (intro nth_equalityI) (auto simp: shift_degrees_def Let_def nth_list_update intro!: Vertex.equality)

lemma square_V: "square k g \<Longrightarrow> length (g_V g) = k"
  by (simp add: square_def)

lemma g_insert_new:
  assumes "square k g" "i < k" "j < k" "g_E g ! i ! j = None"
  shows "g_insert x w (int i) (int j) g = Inr ((set_entry g (int i) (int j) (Some (Edge_new x w)))
    \<lparr>g_e := g_e g + 1, g_V := shift_degrees 1 i j (g_V g)\<rparr>)"
  using entry_in [OF assms(1-3)] assms(2-4) square_V [OF assms(1)]
  by (simp add: g_insert_def upd_vertex_def shift_degrees_def Let_def set_entry_def)

lemma g_remove_old:
  assumes "square k g" "i < k" "j < k" "g_E g ! i ! j = Some edge"
  shows "g_remove (int i) (int j) g = Inr (e_data edge, (set_entry g (int i) (int j) None)
    \<lparr>g_e := g_e g - 1, g_V := shift_degrees (- 1) i j (g_V g)\<rparr>)"
  using entry_in [OF assms(1-3)] assms(2-4) square_V [OF assms(1)]
  by (simp add: g_remove_def upd_vertex_def shift_degrees_def Let_def set_entry_def)

lemma edges_irrelevant [simp]: "edges (g\<lparr>g_e := e, g_V := V\<rparr>) = edges g"
  by (simp add: edges_def)

lemma square_irrelevant [simp]: "length V = length (g_V g) \<Longrightarrow> square k (g\<lparr>g_e := e, g_V := V\<rparr>) \<longleftrightarrow> square k g"
  by (simp add: square_def)

lemma set_entry_members [simp]: "g_V (set_entry g i j x) = g_V g" "g_e (set_entry g i j x) = g_e g"
  by (simp_all add: set_entry_def)

lemma degrees_insert:
  assumes "square k g" "degrees g" "i < k" "j < k" "(i, j) \<notin> edges g" "edges g' = insert (i, j) (edges g)"
    and "g_e g' = g_e g + 1" "g_V g' = shift_degrees 1 i j (g_V g)"
  shows "degrees g'"
  using assms edges_finite [OF assms(1)] card_row_insert [OF edges_finite [OF assms(1)] assms(5)]
  by (auto simp: degrees_def square_def shift_degrees_nth)

lemma degrees_remove:
  assumes "square k g" "degrees g" "i < k" "j < k" "(i, j) \<in> edges g" "edges g' = edges g - {(i, j)}"
    and "g_e g' = g_e g - 1" "g_V g' = shift_degrees (- 1) i j (g_V g)"
  shows "degrees g'"
proof -
  have e: "edges g = insert (i, j) (edges g')" and n: "(i, j) \<notin> edges g'" using assms(5,6) by auto
  have f: "finite (edges g')" using edges_finite [OF assms(1)] assms(6) by simp
  show ?thesis
    using assms(1-4,7,8) f n card_row_insert [OF f n] unfolding degrees_def e
    by (auto simp: square_def shift_degrees_nth)
qed

section \<open>Properties\<close>

text \<open>
  On a search tree in order, \<open>insert\<close> answers whether the key is new and adds it, and
  \<open>findMin\<close> gives the least key; the constructor from a vector that is not empty gives a tree whose
  keys, in order, are the sorted elements of the vector without repetition, which is what \<open>operator<<\<close>
  prints.  On the empty vector the constructor reads outside it.
\<close>

theorem SearchTree_sorts:
  fixes vec :: "'a::linorder list"
  shows "(vec = [] \<longrightarrow> SearchTree_of vec = Inl Out_of_bounds) \<and>
    (vec \<noteq> [] \<longrightarrow> (\<exists>t. SearchTree_of vec = Inr (Live t) \<and> ordered t \<and>
       keys t = sorted_list_of_set (set vec) \<and> st_findMin (Live t) = Inr (Min (set vec)) \<and>
       st_print print (Live t) = Inr (concat (map (\<lambda>x. print x @ '' '') (sorted_list_of_set (set vec)))) \<and>
       (\<forall>v. \<exists>t'. st_insert v (Live t) = Inr (v \<notin> set vec, Live t') \<and> ordered t' \<and>
          keys t' = sorted_list_of_set (insert v (set vec)))))"
proof (cases "vec = []")
  case True
  then show ?thesis by (simp add: SearchTree_of_def cell_def)
next
  case False
  obtain t where t: "SearchTree_of vec = Inr (Live t)" "ordered t" "set (keys t) = set vec"
    using SearchTree_of_keys [OF False] by blast
  have k: "keys t = sorted_list_of_set (set vec)" using ordered_keys_unique [OF t(2)] t(3) by simp
  have "t \<noteq> Null" using t(3) False by auto
  then have "st_findMin (Live t) = Inr (hd (keys t))" by (simp add: st_findMin_def root_node_def findMin_node_value)
  moreover have "hd (keys t) = Min (set vec)"
    using hd_least [OF t(2) \<open>t \<noteq> Null\<close>] \<open>t \<noteq> Null\<close> unfolding t(3) [symmetric] by (intro Min_eqI [symmetric]) simp_all
  moreover have "\<exists>t'. st_insert v (Live t) = Inr (v \<notin> set vec, Live t') \<and> ordered t' \<and>
      keys t' = sorted_list_of_set (insert v (set vec))" for v
    using st_insert_keys [OF t(2), of v] ordered_keys_unique t(3) by metis
  ultimately show ?thesis using False t(1,2) k by (simp add: st_print_def root_node_def printTree_keys)
qed

theorem SearchTree_sorts_witness:
  "\<exists>t. SearchTree_of [5, 2, 9, 2 :: int] = Inr (Live t) \<and> keys t = sorted_list_of_set {2, 5, 9}"
  using SearchTree_sorts [of "[5, 2, 9, 2 :: int]" "\<lambda>_. []"] by (auto simp: insert_commute)

text \<open>
  \<open>Delete\<close> of a key that is not in the tree answers false and changes nothing.  \<open>Delete\<close> of a
  key in the tree answers true; the member \<open>root\<close> dangles when the key was in the root node and that
  node has at most one child, and every later operation then reads freed memory.  Otherwise the tree
  stays in order and loses the key, and also the whole left subtree of its node when there is no right one.
\<close>

theorem SearchTree_Delete_keys:
  assumes "ordered t"
  shows "if v \<notin> set (keys t) then st_Delete v (Live t) = Inr (False, Live t)
    else if val t = v \<and> (left t = Null \<or> right t = Null) then
      st_Delete v (Live t) = Inr (True, Freed) \<and> st_insert w (Freed :: 'a root) = Inl Use_after_free \<and>
      st_Delete w (Freed :: 'a root) = Inl Use_after_free \<and> st_findMin (Freed :: 'a root) = Inl Use_after_free \<and>
      SearchTree_destroy (Freed :: 'a root) = Inl Use_after_free
    else \<exists>t'. st_Delete v (Live t) = Inr (True, Live t') \<and> ordered t' \<and>
      set (keys t') = set (keys t) - {v} - lost v (t :: 'a::linorder treenode)"
proof (cases "find_node v t")
  case Null
  then show ?thesis using find_node_keys [OF assms, of v] by (simp add: st_Delete_def root_node_def)
next
  case (Node l x r)
  then have v: "x = v" "v \<in> set (keys t)" using find_node_keys [OF assms, of v] by simp_all
  obtain t' freed where t': "Delete_node v t = Inr (t', freed)" "ordered t'"
      "set (keys t') = set (keys t) - {v} - lost v t" "freed \<longleftrightarrow> val t = v \<and> (left t = Null \<or> right t = Null)"
    using Delete_node_keys [OF assms v(2)] by blast
  have "st_Delete v (Live t) = Inr (True, if freed then Freed else Live t')"
    using Node v(1) t'(1) by (simp add: st_Delete_def root_node_def)
  then show ?thesis using v(2) t'
    by (cases freed) (simp_all add: st_Delete_def st_insert_def st_findMin_def SearchTree_destroy_def root_node_def)
qed

theorem SearchTree_Delete_keys_witness:
  "ordered (Node (Node Null 1 Null) (2 :: int) Null) \<and>
   st_Delete 2 (Live (Node (Node Null 1 Null) (2 :: int) Null)) = Inr (True, Freed)"
  using SearchTree_Delete_keys [of "Node (Node Null 1 Null) (2 :: int) Null" 2 2] by simp

text \<open>
  The destructor of a search tree dereferences the null pointer on the empty tree; on any other
  it frees nodes of the tree, each once, and frees all of them exactly when no node has a right child
  only.
\<close>

theorem SearchTree_destroy_frees:
  "SearchTree_destroy (Live Null) = Inl Null_deref \<and>
   (t \<noteq> Null \<longrightarrow> (\<exists>vs. SearchTree_destroy (Live t) = Inr vs \<and> mset vs \<subseteq># mset (keys t) \<and>
      (mset vs = mset (keys t) \<longleftrightarrow> no_right_only t)))"
  using free_tree_frees [of t] by (simp add: SearchTree_destroy_def root_node_def)

theorem SearchTree_destroy_frees_witness:
  "\<exists>vs. SearchTree_destroy (Live (Node Null (1 :: int) (Node Null 2 Null))) = Inr vs \<and> mset vs \<noteq> mset [1, 2]"
  using SearchTree_destroy_frees [of "Node Null (1 :: int) (Node Null 2 Null)"] by auto

text \<open>
  \<open>AVLTree::insert\<close> never adds a key: for a key that is not in the tree it dereferences the null
  pointer, whatever the tree, and when it returns, the keys are those of the tree before.
\<close>

theorem avl_insert_never_adds:
  "(x \<notin> set (avl_keys t) \<longrightarrow> avl_insert x t = Inl Null_deref) \<and>
   (avl_insert x t = Inr t' \<longrightarrow> avl_keys t' = avl_keys t)"
  using avl_insert_new avl_insert_keys by blast

theorem avl_insert_never_adds_witness: "avl_insert (1 :: int) ANull = Inl Null_deref"
  using avl_insert_never_adds [of "1 :: int" ANull] by simp

text \<open>
  The destructor of a graph in order frees every edge, once; on a new graph it reads outside the empty matrix as
  soon as the uninitialised \<open>n\<close> happens to be positive.
\<close>

lemma delete_cells_square:
  assumes "square k g" "\<forall>(i, j) \<in> set cs. i < k \<and> j < k" "distinct cs"
  shows "\<exists>ds. delete_cells g cs = Inr ds \<and> distinct ds \<and> set ds = set cs \<inter> edges g"
  using assms(2,3)
proof (induction cs)
  case (Cons c cs)
  obtain i j where c: "c = (i, j)" by (cases c)
  have r: "i < k" "j < k" using Cons.prems c by auto
  have mem: "(i, j) \<in> edges g \<longleftrightarrow> g_E g ! i ! j \<noteq> None" using assms(1) r by (auto simp: edges_def square_def)
  obtain ds where "delete_cells g cs = Inr ds" "distinct ds" "set ds = set cs \<inter> edges g" using Cons by auto
  then show ?case using entry_in [OF assms(1) r] mem Cons.prems(2) c by auto
qed simp

theorem graph_destroy_frees:
  fixes g :: "('v, 'e) GraphMatrix"
  assumes "square k g"
  shows "(\<exists>ds. GraphMatrix_destroy g = Inr ds \<and> distinct ds \<and> set ds = edges g) \<and>
    GraphMatrix_destroy (GraphMatrix_new n e :: ('v, 'e) GraphMatrix) = (if n \<le> 0 then Inr [] else Inl Out_of_bounds)"
proof
  have k: "nat (g_n g) = k" using assms by (simp add: square_def)
  have cells: "\<forall>(i, j) \<in> set (List.product [0..<k] [0..<k]). i < k \<and> j < k" "distinct (List.product [0..<k] [0..<k])"
    by (auto simp: distinct_product)
  have "edges g \<subseteq> set (List.product [0..<k] [0..<k])" using assms by (auto simp: edges_def square_def)
  then show "\<exists>ds. GraphMatrix_destroy g = Inr ds \<and> distinct ds \<and> set ds = edges g"
    using delete_cells_square [OF assms cells] by (auto simp: GraphMatrix_destroy_def k)
  show "GraphMatrix_destroy (GraphMatrix_new n e :: ('v, 'e) GraphMatrix) = (if n \<le> 0 then Inr [] else Inl Out_of_bounds)"
  proof (cases "n \<le> 0")
    case False
    then have "[0..<nat n] = 0 # [1..<nat n]" by (simp add: upt_conv_Cons)
    then show ?thesis using False by (simp add: GraphMatrix_destroy_def GraphMatrix_new_def entry_def at_int_def cell_def)
  qed (simp add: GraphMatrix_destroy_def GraphMatrix_new_def)
qed

theorem graph_destroy_frees_witness:
  "GraphMatrix_destroy (GraphMatrix_new 3 0 :: (int, int) GraphMatrix) = Inl Out_of_bounds"
proof -
  have "square 0 (GraphMatrix_new 0 0 :: (int, int) GraphMatrix)" by (simp add: square_def GraphMatrix_new_def)
  from graph_destroy_frees [OF this, of 3 0] show ?thesis by simp
qed

text \<open>
  On a square matrix whose counts are right, \<open>insert\<close> of a new edge adds it, keeps the counts of
  edges and the degrees right and is undone by \<open>remove\<close>, which returns the data of the edge; \<open>insert\<close>
  over an edge changes nothing, \<open>remove\<close> of an edge keeps the counts right, and \<open>remove\<close> where there
  is none dereferences the null pointer.
\<close>

theorem graph_insert_remove:
  assumes "square k g" "degrees g" "i < k" "j < k"
  shows "if (i, j) \<in> edges g then
      g_exists (int i) (int j) g = Inr True \<and> g_insert x w (int i) (int j) g = Inr g \<and>
      (\<exists>y g'. g_remove (int i) (int j) g = Inr (y, g') \<and> square k g' \<and> degrees g' \<and> edges g' = edges g - {(i, j)})
    else
      g_exists (int i) (int j) g = Inr False \<and> g_remove (int i) (int j) g = Inl Null_deref \<and>
      (\<exists>g'. g_insert x w (int i) (int j) g = Inr g' \<and> square k g' \<and> degrees g' \<and>
         edges g' = insert (i, j) (edges g) \<and> g_remove (int i) (int j) g' = Inr (x, g))"
proof -
  have mem: "(i, j) \<in> edges g \<longleftrightarrow> g_E g ! i ! j \<noteq> None" using assms by (auto simp: edges_def square_def)
  have n: "g_n g = int k" using assms(1) by (simp add: square_def)
  show ?thesis
  proof (cases "g_E g ! i ! j")
    case None
    let ?g = "(set_entry g (int i) (int j) (Some (Edge_new x w)))\<lparr>g_e := g_e g + 1, g_V := shift_degrees 1 i j (g_V g)\<rparr>"
    have sq: "square k ?g" using assms by simp
    have ed: "edges ?g = insert (i, j) (edges g)" using edges_set_entry [OF assms(1,3,4)] by simp
    have deg: "degrees ?g" using None mem by (intro degrees_insert [OF assms _ ed]) auto
    have "g_E ?g ! i ! j = Some (Edge_new x w)"
      using assms by (simp add: set_entry_def square_def)
    note g_remove_old [OF sq assms(3,4) this]
    moreover have "(set_entry ?g (int i) (int j) None)
        \<lparr>g_e := g_e ?g - 1, g_V := shift_degrees (- 1) i j (g_V ?g)\<rparr> = g"
      using assms shift_degrees_back [of i "g_V g" j 1] list_update_id [of "g_E g ! i" j] None
      by (simp add: set_entry_def square_def)
    ultimately have "g_remove (int i) (int j) ?g = Inr (x, g)" by (simp add: Edge_new_def)
    moreover have "g_remove (int i) (int j) g = Inl Null_deref"
      using entry_in [OF assms(1,3,4)] None by (simp add: g_remove_def)
    ultimately show ?thesis
      using deg None mem n assms(3,4) sq ed g_insert_new [OF assms(1,3,4) None] entry_in [OF assms(1,3,4)]
      by (simp add: g_exists_def)
  next
    case (Some edge)
    let ?g = "(set_entry g (int i) (int j) None)\<lparr>g_e := g_e g - 1, g_V := shift_degrees (- 1) i j (g_V g)\<rparr>"
    have ed: "edges ?g = edges g - {(i, j)}" using edges_set_entry [OF assms(1,3,4)] by simp
    have "degrees ?g" using Some mem by (intro degrees_remove [OF assms _ ed]) auto
    moreover have "square k ?g" using assms by simp
    ultimately show ?thesis
      using Some mem n assms(3,4) ed g_remove_old [OF assms(1,3,4) Some] entry_in [OF assms(1,3,4)]
      by (simp add: g_exists_def g_insert_def)
  qed
qed

theorem graph_insert_remove_witness:
  "\<exists>g' :: (int, int) GraphMatrix.
    g_insert 7 1 0 0 \<lparr>g_n = 1, g_e = 0, g_V = [Vertex_new 5], g_E = [[None]]\<rparr> = Inr g' \<and>
    g_remove 0 0 g' = Inr (7, \<lparr>g_n = 1, g_e = 0, g_V = [Vertex_new 5], g_E = [[None]]\<rparr>)"
proof -
  let ?g = "\<lparr>g_n = 1, g_e = 0, g_V = [Vertex_new (5 :: int)], g_E = [[None :: int Edge option]]\<rparr>"
  have e: "edges ?g = {}"
  proof -
    have "(a, b) \<notin> edges ?g" for a b by (cases a; cases b) (simp_all add: edges_def)
    then show ?thesis by auto
  qed
  have "square 1 ?g" by (simp add: square_def)
  moreover have "degrees ?g" unfolding degrees_def e by (simp add: Vertex_new_def)
  ultimately have "\<exists>g'. g_insert 7 1 (int 0) (int 0) ?g = Inr g' \<and> g_remove (int 0) (int 0) g' = Inr (7, ?g)"
    using graph_insert_remove [of 1 ?g 0 0 7 1] unfolding e by auto
  then show ?thesis by simp
qed

end
