(* ===== verification/Prac_LRU.thy ===== *)
theory Prac_LRU
  imports Sone_Prelude
begin

text \<open>
  The integer cache of \<^verbatim>\<open>src/prac/LRUCache.h\<close>: a doubly linked list of nodes between two sentinels and
  an index from keys to nodes.  Nodes live in a store; the assignments to \<open>next\<close> and \<open>prev\<close> are
  made one by one, in the order of the source.  The specification is a list of entries, the most
  recently used first; the locale \<open>lru_laws\<close> says what a client may rely on, and is interpreted for
  the pointer structure.
\<close>

section \<open>Nodes and pointers\<close>

type_synonym ptr = "nat option"

record cache_node =
  n_key :: int
  n_value :: int
  n_next :: ptr
  n_prev :: ptr

type_synonym node_store = "nat \<rightharpoonup> cache_node"

definition node_new :: cache_node where
  "node_new = \<lparr>n_key = -1, n_value = -1, n_next = None, n_prev = None\<rparr>"

record IntCache =
  lru_store :: node_store
  lru_fresh :: nat
  lru_head :: nat
  lru_tail :: nat
  capacity :: int
  cursize :: int
  lru_index :: "int \<rightharpoonup> nat"

definition deref :: "ptr \<Rightarrow> IntCache \<Rightarrow> cache_node result" where
  "deref p c =
     (case p of None \<Rightarrow> Inl Null_deref
      | Some a \<Rightarrow> (case lru_store c a of None \<Rightarrow> Inl Use_after_free | Some n \<Rightarrow> Inr n))"

definition upd :: "nat \<Rightarrow> (cache_node \<Rightarrow> cache_node) \<Rightarrow> node_store \<Rightarrow> node_store" where
  "upd a f st = st(a := map_option f (st a))"

definition modify :: "ptr \<Rightarrow> (cache_node \<Rightarrow> cache_node) \<Rightarrow> IntCache \<Rightarrow> IntCache result" where
  "modify p f c =
     (case p of None \<Rightarrow> Inl Null_deref
      | Some a \<Rightarrow> (case lru_store c a of None \<Rightarrow> Inl Use_after_free
                  | Some _ \<Rightarrow> Inr (c\<lparr>lru_store := upd a f (lru_store c)\<rparr>)))"

definition next_of :: "ptr \<Rightarrow> IntCache \<Rightarrow> ptr result" where
  "next_of p c = and_then (deref p c) (\<lambda>n. Inr (n_next n))"

definition prev_of :: "ptr \<Rightarrow> IntCache \<Rightarrow> ptr result" where
  "prev_of p c = and_then (deref p c) (\<lambda>n. Inr (n_prev n))"

definition link_next :: "ptr \<Rightarrow> ptr \<Rightarrow> IntCache \<Rightarrow> IntCache result" where
  "link_next p q = modify p (\<lambda>n. n\<lparr>n_next := q\<rparr>)"

definition link_prev :: "ptr \<Rightarrow> ptr \<Rightarrow> IntCache \<Rightarrow> IntCache result" where
  "link_prev p q = modify p (\<lambda>n. n\<lparr>n_prev := q\<rparr>)"

section \<open>Operations\<close>

definition IntCache_new :: "int \<Rightarrow> IntCache" where
  "IntCache_new cap =
     \<lparr>lru_store = [0 \<mapsto> node_new\<lparr>n_next := Some 1\<rparr>, 1 \<mapsto> node_new\<lparr>n_prev := Some 0\<rparr>], lru_fresh = 2,
      lru_head = 0, lru_tail = 1, capacity = cap, cursize = 0, lru_index = Map.empty\<rparr>"

text \<open>The node \<open>inode\<close> is moved behind the head, unless it is there (\<open>temp\<close> is the first node).\<close>

definition move_front :: "ptr \<Rightarrow> IntCache \<Rightarrow> IntCache result" where
  "move_front inode c =
     and_then (next_of (Some (lru_head c)) c) (\<lambda>temp.
     if temp \<noteq> inode then
       and_then (prev_of inode c) (\<lambda>tprev.
       and_then (next_of inode c) (\<lambda>tnext.
       and_then (link_next (Some (lru_head c)) inode c) (\<lambda>c.
       and_then (link_prev inode (Some (lru_head c)) c) (\<lambda>c.
       and_then (link_next inode temp c) (\<lambda>c.
       and_then (link_prev temp inode c) (\<lambda>c.
       and_then (link_next tprev tnext c) (\<lambda>c.
       link_prev tnext tprev c)))))))
     else Inr c)"

definition lru_get :: "int \<Rightarrow> IntCache \<Rightarrow> (int \<times> IntCache) result" where
  "lru_get key c =
     (case lru_index c key of
        None \<Rightarrow> Inr (-1, c)
      | Some i \<Rightarrow>
          and_then (move_front (Some i) c) (\<lambda>c.
          and_then (deref (Some i) c) (\<lambda>n. Inr (n_value n, c))))"

text \<open>\<open>new node()\<close>, with its key and value.\<close>

definition alloc :: "int \<Rightarrow> int \<Rightarrow> IntCache \<Rightarrow> nat \<times> IntCache" where
  "alloc key val c =
     (lru_fresh c,
      c\<lparr>lru_store := (lru_store c)(lru_fresh c \<mapsto> node_new\<lparr>n_value := val, n_key := key\<rparr>),
        lru_fresh := lru_fresh c + 1\<rparr>)"

text \<open>Below the capacity the new node goes behind the head.\<close>

definition put_room :: "int \<Rightarrow> nat \<Rightarrow> IntCache \<Rightarrow> IntCache result" where
  "put_room key n c =
     and_then (next_of (Some (lru_head c)) c) (\<lambda>temp.
     and_then (link_next (Some (lru_head c)) (Some n) c) (\<lambda>c.
     and_then (link_next (Some n) temp c) (\<lambda>c.
     and_then (link_prev temp (Some n) c) (\<lambda>c.
     and_then (link_prev (Some n) (Some (lru_head c)) c) (\<lambda>c.
       Inr (c\<lparr>lru_index := (lru_index c)(key \<mapsto> n), cursize := cursize c + 1\<rparr>))))))"

text \<open>At the capacity the last node is unlinked first; \<open>m.find(end->key)\<close> must find it.\<close>

definition put_full :: "int \<Rightarrow> nat \<Rightarrow> IntCache \<Rightarrow> IntCache result" where
  "put_full key n c =
     and_then (prev_of (Some (lru_tail c)) c) (\<lambda>end.
     and_then (prev_of end c) (\<lambda>endprev.
     and_then (link_next endprev (Some (lru_tail c)) c) (\<lambda>c.
     and_then (link_prev (Some (lru_tail c)) endprev c) (\<lambda>c.
     and_then (next_of (Some (lru_head c)) c) (\<lambda>temp.
     and_then (link_next (Some (lru_head c)) (Some n) c) (\<lambda>c.
     and_then (link_prev (Some n) (Some (lru_head c)) c) (\<lambda>c.
     and_then (link_next (Some n) temp c) (\<lambda>c.
     and_then (link_prev temp (Some n) c) (\<lambda>c.
     and_then (deref end c) (\<lambda>e.
       if lru_index c (n_key e) = None then Inl Out_of_bounds
       else Inr (c\<lparr>lru_index := ((lru_index c)(n_key e := None))(key \<mapsto> n)\<rparr>)))))))))))"

definition lru_put :: "int \<Rightarrow> int \<Rightarrow> IntCache \<Rightarrow> IntCache result" where
  "lru_put key val c =
     (let (n, c) = alloc key val c in
      case lru_index c key of
        None \<Rightarrow> if cursize c < capacity c then put_room key n c else put_full key n c
      | Some i \<Rightarrow> and_then (modify (Some i) (\<lambda>n. n\<lparr>n_value := val\<rparr>) c) (move_front (Some i)))"


section \<open>Chains of nodes\<close>

text \<open>The two links of a node, and a chain: neighbours point to each other.\<close>

definition nxt :: "node_store \<Rightarrow> nat \<Rightarrow> ptr" where
  "nxt st a = (case st a of None \<Rightarrow> None | Some n \<Rightarrow> n_next n)"

definition prv :: "node_store \<Rightarrow> nat \<Rightarrow> ptr" where
  "prv st a = (case st a of None \<Rightarrow> None | Some n \<Rightarrow> n_prev n)"

definition kv :: "node_store \<Rightarrow> nat \<Rightarrow> int \<times> int" where
  "kv st a = (case st a of None \<Rightarrow> (0, 0) | Some n \<Rightarrow> (n_key n, n_value n))"

fun chain :: "(nat \<Rightarrow> ptr) \<Rightarrow> (nat \<Rightarrow> ptr) \<Rightarrow> nat list \<Rightarrow> bool" where
  "chain nx pv (a # b # zs) \<longleftrightarrow> nx a = Some b \<and> pv b = Some a \<and> chain nx pv (b # zs)"
| "chain nx pv _ \<longleftrightarrow> True"

lemma chain_append:
  "xs \<noteq> [] \<Longrightarrow> ys \<noteq> [] \<Longrightarrow>
     chain nx pv (xs @ ys) \<longleftrightarrow> chain nx pv xs \<and> nx (last xs) = Some (hd ys) \<and> pv (hd ys) = Some (last xs) \<and> chain nx pv ys"
proof (induction xs)
  case (Cons a xs)
  show ?case
  proof (cases xs)
    case Nil
    then show ?thesis using Cons.prems by (cases ys) auto
  next
    case (Cons b zs)
    then show ?thesis using Cons.IH Cons.prems by auto
  qed
qed simp

lemma chain_Cons: "zs \<noteq> [] \<Longrightarrow> chain nx pv (a # zs) \<longleftrightarrow> nx a = Some (hd zs) \<and> pv (hd zs) = Some a \<and> chain nx pv zs"
  by (cases zs) auto

text \<open>A chain does not depend on the links out of its last and into its first node.\<close>

lemma chain_cong:
  assumes "\<forall>a \<in> set (butlast zs). nx' a = nx a" "\<forall>a \<in> set (tl zs). pv' a = pv a"
  shows "chain nx' pv' zs = chain nx pv zs"
  using assms by (induction nx pv zs rule: chain.induct) auto

lemma chain_upd_outside [simp]:
  "a \<notin> set (butlast zs) \<Longrightarrow> chain (nx(a := q)) pv zs = chain nx pv zs"
  "a \<notin> set (tl zs) \<Longrightarrow> chain nx (pv(a := q)) zs = chain nx pv zs"
  by (rule chain_cong; auto)+

section \<open>Assignments to the links\<close>

lemma upd_None [simp]: "upd a f st b = None \<longleftrightarrow> st b = None"
  by (simp add: upd_def)

lemma links_upd [simp]:
  "st a \<noteq> None \<Longrightarrow> nxt (upd a (\<lambda>n. n\<lparr>n_next := q\<rparr>) st) = (nxt st)(a := q)"
  "nxt (upd a (\<lambda>n. n\<lparr>n_prev := q\<rparr>) st) = nxt st"
  "nxt (upd a (\<lambda>n. n\<lparr>n_value := v\<rparr>) st) = nxt st"
  "st a \<noteq> None \<Longrightarrow> prv (upd a (\<lambda>n. n\<lparr>n_prev := q\<rparr>) st) = (prv st)(a := q)"
  "prv (upd a (\<lambda>n. n\<lparr>n_next := q\<rparr>) st) = prv st"
  "prv (upd a (\<lambda>n. n\<lparr>n_value := v\<rparr>) st) = prv st"
  "kv (upd a (\<lambda>n. n\<lparr>n_next := q\<rparr>) st) = kv st"
  "kv (upd a (\<lambda>n. n\<lparr>n_prev := q\<rparr>) st) = kv st"
  "st a \<noteq> None \<Longrightarrow> kv (upd a (\<lambda>n. n\<lparr>n_value := v\<rparr>) st) = (kv st)(a := (fst (kv st a), v))"
  by (auto simp: nxt_def prv_def kv_def upd_def fun_eq_iff split: option.splits)

lemma pointer_steps [simp]:
  "lru_store c a \<noteq> None \<Longrightarrow> link_next (Some a) q c = Inr (c\<lparr>lru_store := upd a (\<lambda>n. n\<lparr>n_next := q\<rparr>) (lru_store c)\<rparr>)"
  "lru_store c a \<noteq> None \<Longrightarrow> link_prev (Some a) q c = Inr (c\<lparr>lru_store := upd a (\<lambda>n. n\<lparr>n_prev := q\<rparr>) (lru_store c)\<rparr>)"
  "lru_store c a \<noteq> None \<Longrightarrow> next_of (Some a) c = Inr (nxt (lru_store c) a)"
  "lru_store c a \<noteq> None \<Longrightarrow> prev_of (Some a) c = Inr (prv (lru_store c) a)"
  by (auto simp: link_next_def link_prev_def modify_def next_of_def prev_of_def deref_def nxt_def prv_def)

lemma kv_deref: "lru_store c a \<noteq> None \<Longrightarrow> \<exists>n. deref (Some a) c = Inr n \<and> kv (lru_store c) a = (n_key n, n_value n)"
  by (auto simp: deref_def kv_def)

section \<open>Representation\<close>

text \<open>
  The nodes between the sentinels are the list \<open>xs\<close>, most recent first; their keys are distinct and
  the index finds exactly them.
\<close>

definition lru_links :: "IntCache \<Rightarrow> nat list \<Rightarrow> bool" where
  "lru_links c xs \<longleftrightarrow>
     (let zs = lru_head c # xs @ [lru_tail c]; st = lru_store c in
      distinct zs \<and> (\<forall>a \<in> set zs. a < lru_fresh c \<and> st a \<noteq> None) \<and>
      chain (nxt st) (prv st) zs \<and> prv st (lru_head c) = None)"

definition lru_repr :: "IntCache \<Rightarrow> nat list \<Rightarrow> bool" where
  "lru_repr c xs \<longleftrightarrow>
     lru_links c xs \<and> distinct (map (fst \<circ> kv (lru_store c)) xs) \<and>
     (\<forall>k a. lru_index c k = Some a \<longleftrightarrow> a \<in> set xs \<and> fst (kv (lru_store c) a) = k) \<and>
     cursize c = int (length xs)"

lemma lru_linksD:
  assumes "lru_links c xs"
  shows "distinct xs" "lru_head c \<notin> set xs" "lru_tail c \<notin> set xs" "lru_head c \<noteq> lru_tail c"
    and "lru_store c (lru_head c) \<noteq> None" "lru_store c (lru_tail c) \<noteq> None" "\<And>a. a \<in> set xs \<Longrightarrow> lru_store c a \<noteq> None"
    and "chain (nxt (lru_store c)) (prv (lru_store c)) (lru_head c # xs @ [lru_tail c])"
    and "prv (lru_store c) (lru_head c) = None"
  using assms by (auto simp: lru_links_def Let_def)

lemma lru_links_ends:
  assumes "lru_links c xs"
  shows "distinct (lru_head c # xs @ [lru_tail c])"
    and "\<And>a. a \<in> set (lru_head c # xs @ [lru_tail c]) \<Longrightarrow> a < lru_fresh c \<and> lru_store c a \<noteq> None"
  using assms unfolding lru_links_def Let_def by blast+

lemma lru_linksI:
  assumes "zs = lru_head c # xs @ [lru_tail c]" "distinct zs" "\<And>a. a \<in> set zs \<Longrightarrow> a < lru_fresh c \<and> lru_store c a \<noteq> None"
    and "chain (nxt (lru_store c)) (prv (lru_store c)) zs" "prv (lru_store c) (lru_head c) = None"
  shows "lru_links c xs"
  using assms by (simp add: lru_links_def Let_def)

lemma distinct_ends:
  assumes "distinct xs" "xs \<noteq> []"
  shows "last xs \<notin> set (butlast xs)" "hd xs \<notin> set (tl xs)"
proof -
  have "distinct (butlast xs @ [last xs])" using assms by simp
  then show "last xs \<notin> set (butlast xs)" by simp
  show "hd xs \<notin> set (tl xs)" using assms by (cases xs) auto
qed

lemma in_tlD: "x \<in> set (tl xs) \<Longrightarrow> x \<in> set xs"
  by (cases xs) auto

text \<open>Moving a node to the front.\<close>

lemma move_front_links:
  assumes "lru_links c (A @ i # B)"
  shows "\<exists>st. move_front (Some i) c = Inr (c\<lparr>lru_store := st\<rparr>) \<and> lru_links (c\<lparr>lru_store := st\<rparr>) (i # A @ B) \<and>
    kv st = kv (lru_store c) \<and> (\<forall>a. st a = None \<longleftrightarrow> lru_store c a = None)"
proof (cases A)
  case Nil
  have "nxt (lru_store c) (lru_head c) = Some i"
    using lru_linksD(8) [OF assms] Nil by simp
  then have "move_front (Some i) c = Inr c" using lru_linksD(5) [OF assms] by (simp add: move_front_def)
  then show ?thesis using assms Nil by (intro exI [of _ "lru_store c"]) simp
next
  case (Cons t A')
  define h where "h = lru_head c"
  define st where "st = lru_store c"
  define Q where "Q = B @ [lru_tail c]"
  define p where "p = last A"
  define q where "q = hd Q"
  have A: "A \<noteq> []" "hd A = t" and Q: "Q \<noteq> []" using Cons by (simp_all add: Q_def)
  have d: "distinct (h # A @ i # Q)" and st: "\<forall>a \<in> set (h # A @ i # Q). a < lru_fresh c \<and> st a \<noteq> None"
    and ch: "chain (nxt st) (prv st) (h # A @ i # Q)" and hd: "prv st h = None"
    using assms by (simp_all add: lru_links_def Let_def h_def st_def Q_def)
  have mem: "t \<in> set A" "p \<in> set A" "q \<in> set Q" using A Q by (auto simp: p_def q_def Cons)
  have links: "nxt st h = Some t" "prv st t = Some h" "chain (nxt st) (prv st) A" "nxt st p = Some i" "prv st i = Some p"
      "nxt st i = Some q" "prv st q = Some i" "chain (nxt st) (prv st) Q"
    using ch A Q by (simp_all add: chain_Cons chain_append p_def q_def hd_append)
  have ne: "h \<noteq> t" "h \<noteq> p" "h \<noteq> i" "h \<noteq> q" "t \<noteq> i" "p \<noteq> i" "q \<noteq> i" "q \<noteq> t" "q \<noteq> p"
    using d mem by auto
  let ?n = "(nxt st)(h := Some i, i := Some t, p := Some q)" and ?p = "(prv st)(i := Some h, t := Some i, q := Some p)"
  have ends: "p \<notin> set (butlast A)" "t \<notin> set (tl A)" "q \<notin> set (tl Q)"
    using distinct_ends [of A] distinct_ends(2) [of Q] d A Q by (auto simp: p_def q_def)
  have out: "p \<notin> set (butlast A)" "h \<notin> set (butlast A)" "i \<notin> set (butlast A)" "t \<notin> set (tl A)" "i \<notin> set (tl A)" "q \<notin> set (tl A)"
    "h \<notin> set (butlast Q)" "i \<notin> set (butlast Q)" "p \<notin> set (butlast Q)" "q \<notin> set (tl Q)" "i \<notin> set (tl Q)" "t \<notin> set (tl Q)"
    using d mem ends by (auto dest!: in_set_butlastD in_tlD)
  have new: "chain ?n ?p (h # i # A @ Q)"
    using A Q links ne out by (simp add: chain_Cons chain_append hd_append p_def [symmetric] q_def [symmetric])
  have live: "st h \<noteq> None" "st i \<noteq> None" "st t \<noteq> None" "st p \<noteq> None" "st q \<noteq> None" using st mem by auto
  define st' where "st' = upd q (\<lambda>n. n\<lparr>n_prev := Some p\<rparr>) (upd p (\<lambda>n. n\<lparr>n_next := Some q\<rparr>)
      (upd t (\<lambda>n. n\<lparr>n_prev := Some i\<rparr>) (upd i (\<lambda>n. n\<lparr>n_next := Some t\<rparr>) (upd i (\<lambda>n. n\<lparr>n_prev := Some h\<rparr>)
      (upd h (\<lambda>n. n\<lparr>n_next := Some i\<rparr>) st)))))"
  have st': "nxt st' = ?n" "prv st' = ?p" "kv st' = kv st" "\<And>a. st' a = None \<longleftrightarrow> st a = None"
    using live by (simp_all add: st'_def)
  have "move_front (Some i) c = Inr (c\<lparr>lru_store := st'\<rparr>)"
    using live links ne by (simp add: move_front_def h_def [symmetric] st_def [symmetric] st'_def)
  moreover have "lru_links (c\<lparr>lru_store := st'\<rparr>) (i # A @ B)"
  proof (rule lru_linksI)
    show "distinct (h # i # A @ Q)" using d by auto
    show "a < lru_fresh (c\<lparr>lru_store := st'\<rparr>) \<and> lru_store (c\<lparr>lru_store := st'\<rparr>) a \<noteq> None" if "a \<in> set (h # i # A @ Q)" for a
      using bspec [OF st, of a] that st'(4) [of a] by (auto simp del: not_None_eq)
  qed (use new hd ne in \<open>simp_all add: h_def Q_def st'(1,2)\<close>)
  ultimately show ?thesis using st'(3,4) unfolding st_def by blast
qed

text \<open>Linking a node in behind the head, and unlinking the last one.\<close>

lemma links_insert:
  assumes ok: "lru_links c xs" and t: "t = hd (xs @ [lru_tail c])"
    and n: "n < lru_fresh c" "lru_store c n \<noteq> None" "n \<notin> set (lru_head c # xs @ [lru_tail c])"
    and st: "nxt st = (nxt (lru_store c))(lru_head c := Some n, n := Some t)"
      "prv st = (prv (lru_store c))(n := Some (lru_head c), t := Some n)" "\<And>a. st a = None \<longleftrightarrow> lru_store c a = None"
  shows "lru_links (c\<lparr>lru_store := st\<rparr>) (n # xs)"
proof (rule lru_linksI [OF refl])
  let ?Q = "xs @ [lru_tail c]"
  note l = lru_linksD [OF ok]
  note d = lru_links_ends(1) [OF ok] and live = lru_links_ends(2) [OF ok]
  have Q: "?Q \<noteq> []" "t \<in> set ?Q" "t \<notin> set (tl ?Q)" using d distinct_ends(2) [of ?Q] by (auto simp: t hd_append)
  have out: "lru_head c \<notin> set (butlast ?Q)" "n \<notin> set (butlast ?Q)" "n \<notin> set (tl ?Q)"
    using d n(3) by (auto dest!: in_set_butlastD in_tlD)
  have ne: "t \<noteq> n" "lru_head c \<noteq> t" "lru_head c \<noteq> n" using d Q(2) n(3) by auto
  have "chain (nxt (lru_store c)) (prv (lru_store c)) ?Q" using l(8) Q(1) by (simp add: chain_Cons)
  then have "chain (nxt st) (prv st) (lru_head c # n # ?Q)"
    using Q out ne unfolding st(1,2) by (simp add: chain_Cons t [symmetric])
  then show "chain (nxt (lru_store (c\<lparr>lru_store := st\<rparr>))) (prv (lru_store (c\<lparr>lru_store := st\<rparr>)))
      (lru_head (c\<lparr>lru_store := st\<rparr>) # (n # xs) @ [lru_tail (c\<lparr>lru_store := st\<rparr>)])" by simp
  show "prv (lru_store (c\<lparr>lru_store := st\<rparr>)) (lru_head (c\<lparr>lru_store := st\<rparr>)) = None"
    using l(9) ne by (simp add: st(2))
  show "a < lru_fresh (c\<lparr>lru_store := st\<rparr>) \<and> lru_store (c\<lparr>lru_store := st\<rparr>) a \<noteq> None"
    if "a \<in> set (lru_head (c\<lparr>lru_store := st\<rparr>) # (n # xs) @ [lru_tail (c\<lparr>lru_store := st\<rparr>)])" for a
    using live [of a] that n(1,2) st(3) [of a] by (auto simp del: not_None_eq)
qed (use ok n(3) in \<open>auto simp: lru_links_def Let_def\<close>)

lemma links_unlink:
  assumes ok: "lru_links c (xs @ [e])" and p: "p = last (lru_head c # xs)"
    and st: "nxt st = (nxt (lru_store c))(p := Some (lru_tail c))" "prv st = (prv (lru_store c))(lru_tail c := Some p)"
      "\<And>a. st a = None \<longleftrightarrow> lru_store c a = None"
  shows "lru_links (c\<lparr>lru_store := st\<rparr>) xs"
proof (rule lru_linksI [OF refl])
  let ?P = "lru_head c # xs"
  note l = lru_linksD [OF ok]
  note d = lru_links_ends(1) [OF ok] and live = lru_links_ends(2) [OF ok]
  have "distinct ?P" using d by simp
  then have out: "p \<notin> set (butlast ?P)" unfolding p by (rule distinct_ends(1)) simp
  have "lru_tail c \<notin> set (tl ?P)" using d by auto
  moreover have "chain (nxt (lru_store c)) (prv (lru_store c)) (?P @ [e, lru_tail c])" using l(8) by simp
  then have "chain (nxt (lru_store c)) (prv (lru_store c)) ?P"
    by (subst (asm) chain_append) (simp_all del: last.simps)
  ultimately have "chain (nxt st) (prv st) (?P @ [lru_tail c])"
    using out unfolding st(1,2) by (subst chain_append) (simp_all add: p [symmetric] del: last.simps butlast.simps)
  then show "chain (nxt (lru_store (c\<lparr>lru_store := st\<rparr>))) (prv (lru_store (c\<lparr>lru_store := st\<rparr>)))
      (lru_head (c\<lparr>lru_store := st\<rparr>) # xs @ [lru_tail (c\<lparr>lru_store := st\<rparr>)])" by simp
  show "prv (lru_store (c\<lparr>lru_store := st\<rparr>)) (lru_head (c\<lparr>lru_store := st\<rparr>)) = None"
    using l(4,9) by (simp add: st(2))
  show "a < lru_fresh (c\<lparr>lru_store := st\<rparr>) \<and> lru_store (c\<lparr>lru_store := st\<rparr>) a \<noteq> None"
    if "a \<in> set (lru_head (c\<lparr>lru_store := st\<rparr>) # xs @ [lru_tail (c\<lparr>lru_store := st\<rparr>)])" for a
    using live [of a] that st(3) [of a] by (auto simp del: not_None_eq)
  show "distinct (lru_head (c\<lparr>lru_store := st\<rparr>) # xs @ [lru_tail (c\<lparr>lru_store := st\<rparr>)])" using d by auto
qed

section \<open>Entries, most recently used first\<close>

type_synonym entries = "(int \<times> int) list"

definition touch :: "int \<Rightarrow> entries \<Rightarrow> entries" where
  "touch k es = (case map_of es k of None \<Rightarrow> es | Some v \<Rightarrow> (k, v) # filter (\<lambda>e. fst e \<noteq> k) es)"

definition store :: "int \<Rightarrow> int \<Rightarrow> int \<Rightarrow> entries \<Rightarrow> entries" where
  "store cap k v es =
     (if map_of es k = None then (k, v) # (if int (length es) < cap then es else butlast es)
      else (k, v) # filter (\<lambda>e. fst e \<noteq> k) es)"

definition lookup :: "int \<Rightarrow> entries \<Rightarrow> int" where
  "lookup k es = (case map_of es k of None \<Rightarrow> -1 | Some v \<Rightarrow> v)"

definition lru_rep :: "IntCache \<Rightarrow> entries \<Rightarrow> bool" where
  "lru_rep c es \<longleftrightarrow> (\<exists>xs. lru_repr c xs \<and> es = map (kv (lru_store c)) xs)"

lemma lru_reprD:
  assumes "lru_repr c xs"
  shows "lru_links c xs" "distinct (map (fst \<circ> kv (lru_store c)) xs)" "cursize c = int (length xs)"
    and "\<And>k a. lru_index c k = Some a \<longleftrightarrow> a \<in> set xs \<and> fst (kv (lru_store c) a) = k"
  using assms by (auto simp: lru_repr_def)

lemma repr_miss: "lru_repr c xs \<Longrightarrow> lru_index c k = None \<Longrightarrow> map_of (map (kv (lru_store c)) xs) k = None"
  using lru_reprD(4) [of c xs k] by (simp add: map_of_eq_None_iff image_image) blast

lemma repr_hit:
  assumes "lru_repr c xs" "lru_index c k = Some i"
  obtains A B where "xs = A @ i # B" "fst (kv (lru_store c) i) = k"
    "map_of (map (kv (lru_store c)) xs) k = Some (snd (kv (lru_store c) i))"
    "filter (\<lambda>e. fst e \<noteq> k) (map (kv (lru_store c)) xs) = map (kv (lru_store c)) (A @ B)"
proof -
  let ?kv = "kv (lru_store c)"
  have i: "i \<in> set xs" "fst (?kv i) = k" using lru_reprD(4) [OF assms(1)] assms(2) by auto
  from i(1) obtain A B where xs: "xs = A @ i # B" by (auto simp: in_set_conv_decomp)
  have d: "distinct (map fst (map ?kv xs))" using lru_reprD(2) [OF assms(1)] by simp
  have "(k, snd (?kv i)) \<in> set (map ?kv xs)" using i by force
  then have "map_of (map ?kv xs) k = Some (snd (?kv i))" using d by simp
  moreover have "fst (?kv i) \<notin> (\<lambda>a. fst (?kv a)) ` set (A @ B)"
    using lru_reprD(2) [OF assms(1)] unfolding xs by (auto simp: image_Un o_def)
  then have "fst (?kv a) \<noteq> k" if "a \<in> set (A @ B)" for a using that i(2) by blast
  then have "filter (\<lambda>e. fst e \<noteq> k) (map ?kv (A @ B)) = map ?kv (A @ B)" by (auto simp: filter_id_conv)
  then have "filter (\<lambda>e. fst e \<noteq> k) (map ?kv xs) = map ?kv (A @ B)" unfolding xs using i(2) by simp
  ultimately show ?thesis using that xs i(2) by blast
qed

lemma front_repr:
  assumes "lru_repr c (A @ i # B)"
  shows "\<exists>st. move_front (Some i) c = Inr (c\<lparr>lru_store := st\<rparr>) \<and> lru_repr (c\<lparr>lru_store := st\<rparr>) (i # A @ B) \<and>
    kv st = kv (lru_store c) \<and> st i \<noteq> None"
proof -
  obtain st where st: "move_front (Some i) c = Inr (c\<lparr>lru_store := st\<rparr>)" "lru_links (c\<lparr>lru_store := st\<rparr>) (i # A @ B)"
      "kv st = kv (lru_store c)" "\<forall>a. st a = None \<longleftrightarrow> lru_store c a = None"
    using move_front_links [OF lru_reprD(1) [OF assms]] by blast
  have "lru_repr (c\<lparr>lru_store := st\<rparr>) (i # A @ B)"
    using st(2,3) assms by (auto simp: lru_repr_def)
  moreover have "st i \<noteq> None" using lru_linksD(7) [OF st(2), of i] by simp
  ultimately show ?thesis using st(1,3) by blast
qed

lemma lru_get_spec:
  assumes "lru_rep c es"
  shows "\<exists>c'. lru_get k c = Inr (lookup k es, c') \<and> lru_rep c' (touch k es) \<and> capacity c' = capacity c"
proof -
  obtain xs where xs: "lru_repr c xs" "es = map (kv (lru_store c)) xs" using assms by (auto simp: lru_rep_def)
  show ?thesis
  proof (cases "lru_index c k")
    case None
    then show ?thesis using repr_miss [OF xs(1) None] xs assms by (simp add: lru_get_def lookup_def touch_def)
  next
    case (Some i)
    obtain A B where AB: "xs = A @ i # B" "fst (kv (lru_store c) i) = k" "map_of es k = Some (snd (kv (lru_store c) i))"
        "filter (\<lambda>e. fst e \<noteq> k) es = map (kv (lru_store c)) (A @ B)"
      using repr_hit [OF xs(1) Some] unfolding xs(2) by blast
    obtain st where st: "move_front (Some i) c = Inr (c\<lparr>lru_store := st\<rparr>)" "lru_repr (c\<lparr>lru_store := st\<rparr>) (i # A @ B)"
        "kv st = kv (lru_store c)" "st i \<noteq> None"
      using front_repr xs(1) unfolding AB(1) by blast
    obtain n where n: "deref (Some i) (c\<lparr>lru_store := st\<rparr>) = Inr n" "kv st i = (n_key n, n_value n)"
      using kv_deref [of "c\<lparr>lru_store := st\<rparr>" i] st(4) by auto
    have "lru_get k c = Inr (lookup k es, c\<lparr>lru_store := st\<rparr>)"
      using Some st(1,3) n AB(3) by (simp add: lru_get_def lookup_def)
    moreover have "touch k es = map (kv st) (i # A @ B)"
      using AB(2-4) st(3) by (auto simp: touch_def prod_eq_iff)
    ultimately show ?thesis using st(2) by (auto simp: lru_rep_def)
  qed
qed

section \<open>Storing\<close>

text \<open>A new node, not yet linked in.\<close>

definition spare :: "IntCache \<Rightarrow> nat list \<Rightarrow> nat \<Rightarrow> bool" where
  "spare c xs n \<longleftrightarrow> n < lru_fresh c \<and> lru_store c n \<noteq> None \<and> n \<notin> set (lru_head c # xs @ [lru_tail c])"

lemma alloc_repr:
  assumes "lru_repr c xs" "alloc k v c = (n, c1)"
  shows "lru_repr c1 xs" "map (kv (lru_store c1)) xs = map (kv (lru_store c)) xs" "kv (lru_store c1) n = (k, v)" "spare c1 xs n"
    and "lru_index c1 = lru_index c" "cursize c1 = cursize c" "capacity c1 = capacity c"
proof -
  let ?zs = "lru_head c # xs @ [lru_tail c]"
  note l = lru_reprD(1) [OF assms(1)]
  have c1: "n = lru_fresh c" "c1 = c\<lparr>lru_store := (lru_store c)(n \<mapsto> node_new\<lparr>n_value := v, n_key := k\<rparr>), lru_fresh := n + 1\<rparr>"
    using assms(2) by (auto simp: alloc_def)
  have n: "a \<noteq> n" if "a \<in> set ?zs" for a using lru_links_ends(2) [OF l that] c1(1) by auto
  have same: "nxt (lru_store c1) a = nxt (lru_store c) a" "prv (lru_store c1) a = prv (lru_store c) a"
      "kv (lru_store c1) a = kv (lru_store c) a" if "a \<in> set ?zs" for a
    using n [OF that] by (simp_all add: c1(2) nxt_def prv_def kv_def)
  have links: "lru_links c1 xs"
  proof (rule lru_linksI)
    show "?zs = lru_head c1 # xs @ [lru_tail c1]" by (simp add: c1(2))
    show "distinct ?zs" by (rule lru_links_ends(1) [OF l])
    show "a < lru_fresh c1 \<and> lru_store c1 a \<noteq> None" if "a \<in> set ?zs" for a
      using lru_links_ends(2) [OF l that] c1 by auto
    show "chain (nxt (lru_store c1)) (prv (lru_store c1)) ?zs"
      using lru_linksD(8) [OF l] same by (subst chain_cong) (auto dest!: in_set_butlastD in_tlD)
    show "prv (lru_store c1) (lru_head c1) = None" using lru_linksD(9) [OF l] same(2) [of "lru_head c"] by (simp add: c1(2))
  qed
  show kvs: "map (kv (lru_store c1)) xs = map (kv (lru_store c)) xs" using same(3) by simp
  show rest: "lru_index c1 = lru_index c" "cursize c1 = cursize c" "capacity c1 = capacity c" by (simp_all add: c1(2))
  show "lru_repr c1 xs" using links assms(1) same(3) rest by (auto simp: lru_repr_def o_def cong: map_cong)
  show "kv (lru_store c1) n = (k, v)" by (simp add: c1(2) kv_def)
  show "spare c1 xs n" using n by (auto simp: spare_def c1(2))
qed

lemma put_room_spec:
  assumes r: "lru_repr c xs" and n: "spare c xs n" "kv (lru_store c) n = (k, v)" and k: "lru_index c k = None"
  shows "\<exists>c'. put_room k n c = Inr c' \<and> lru_rep c' ((k, v) # map (kv (lru_store c)) xs) \<and> capacity c' = capacity c"
proof -
  define t where "t = hd (xs @ [lru_tail c])"
  note l = lru_linksD [OF lru_reprD(1) [OF r]]
  have t: "nxt (lru_store c) (lru_head c) = Some t" using l(8) by (simp add: chain_Cons t_def)
  have n': "n < lru_fresh c" "lru_store c n \<noteq> None" "n \<notin> set (lru_head c # xs @ [lru_tail c])"
    using n(1) by (auto simp: spare_def)
  have "t \<in> set (xs @ [lru_tail c])" by (cases xs) (auto simp: t_def)
  then have live: "lru_store c t \<noteq> None" "t \<noteq> n" using l(6,7) n'(3) by auto
  define st where "st = upd n (\<lambda>m. m\<lparr>n_prev := Some (lru_head c)\<rparr>) (upd t (\<lambda>m. m\<lparr>n_prev := Some n\<rparr>)
      (upd n (\<lambda>m. m\<lparr>n_next := Some t\<rparr>) (upd (lru_head c) (\<lambda>m. m\<lparr>n_next := Some n\<rparr>) (lru_store c))))"
  have st: "nxt st = (nxt (lru_store c))(lru_head c := Some n, n := Some t)"
      "prv st = (prv (lru_store c))(n := Some (lru_head c), t := Some n)" "\<And>a. st a = None \<longleftrightarrow> lru_store c a = None"
      "kv st = kv (lru_store c)"
    using live l(5) n'(2) by (simp_all add: st_def fun_upd_twist)
  let ?c = "c\<lparr>lru_store := st, lru_index := (lru_index c)(k \<mapsto> n), cursize := cursize c + 1\<rparr>"
  have "put_room k n c = Inr ?c" using t live l(5) n'(2) by (simp add: put_room_def st_def)
  moreover have "lru_links ?c (n # xs)"
    using links_insert [OF lru_reprD(1) [OF r] t_def n' st(1-3)] by (simp add: lru_links_def)
  then have "lru_repr ?c (n # xs)"
    using r n(2) k st(4) lru_reprD(4) [OF r, of k] n'(3) by (auto simp: lru_repr_def)
  ultimately show ?thesis using n(2) st(4) by (auto simp: lru_rep_def)
qed

lemma put_full_spec:
  assumes r: "lru_repr c (ys @ [e])" and n: "spare c (ys @ [e]) n" "kv (lru_store c) n = (k, v)" and k: "lru_index c k = None"
  shows "\<exists>c'. put_full k n c = Inr c' \<and> cursize c' = cursize c \<and> lru_links c' (n # ys) \<and> kv (lru_store c') = kv (lru_store c) \<and>
    lru_index c' = ((lru_index c)(fst (kv (lru_store c) e) := None))(k \<mapsto> n) \<and> capacity c' = capacity c"
proof -
  define p where "p = last (lru_head c # ys)"
  define t where "t = hd (ys @ [lru_tail c])"
  note l = lru_linksD [OF lru_reprD(1) [OF r]]
  have "chain (nxt (lru_store c)) (prv (lru_store c)) ((lru_head c # ys) @ [e, lru_tail c])" using l(8) by simp
  then have e: "prv (lru_store c) (lru_tail c) = Some e" "prv (lru_store c) e = Some p"
    by (subst (asm) chain_append; simp add: p_def del: last.simps)+
  have p: "lru_store c p \<noteq> None" "lru_store c e \<noteq> None" "p \<noteq> e" "p \<noteq> lru_tail c" "e \<noteq> lru_tail c"
    using l(1-7) last_in_set [of "lru_head c # ys"] unfolding p_def [symmetric] by auto
  define s1 where "s1 = upd (lru_tail c) (\<lambda>m. m\<lparr>n_prev := Some p\<rparr>) (upd p (\<lambda>m. m\<lparr>n_next := Some (lru_tail c)\<rparr>) (lru_store c))"
  have s1: "nxt s1 = (nxt (lru_store c))(p := Some (lru_tail c))" "prv s1 = (prv (lru_store c))(lru_tail c := Some p)"
      "\<And>a. s1 a = None \<longleftrightarrow> lru_store c a = None" "kv s1 = kv (lru_store c)"
    using p(1) l(6) by (simp_all add: s1_def)
  let ?c1 = "c\<lparr>lru_store := s1\<rparr>"
  have l1: "lru_links ?c1 ys" by (rule links_unlink [OF lru_reprD(1) [OF r] p_def s1(1-3)])
  have t: "nxt s1 (lru_head c) = Some t" using lru_linksD(8) [OF l1] by (simp add: chain_Cons t_def)
  have n': "n < lru_fresh ?c1" "lru_store ?c1 n \<noteq> None" "n \<notin> set (lru_head ?c1 # ys @ [lru_tail ?c1])"
    using n(1) s1(3) [of n] by (auto simp: spare_def simp del: not_None_eq)
  have "t \<in> set (ys @ [lru_tail c])" by (cases ys) (auto simp: t_def)
  then have live: "s1 t \<noteq> None" "t \<noteq> n" "s1 n \<noteq> None" "s1 (lru_head c) \<noteq> None"
    using lru_linksD(5-7) [OF l1] n'(2,3) by auto
  define st where "st = upd t (\<lambda>m. m\<lparr>n_prev := Some n\<rparr>) (upd n (\<lambda>m. m\<lparr>n_next := Some t\<rparr>)
      (upd n (\<lambda>m. m\<lparr>n_prev := Some (lru_head c)\<rparr>) (upd (lru_head c) (\<lambda>m. m\<lparr>n_next := Some n\<rparr>) s1)))"
  have st: "nxt st = (nxt s1)(lru_head c := Some n, n := Some t)" "prv st = (prv s1)(n := Some (lru_head c), t := Some n)"
      "\<And>a. st a = None \<longleftrightarrow> s1 a = None" "kv st = kv s1"
    using live by (simp_all add: st_def)
  have l2: "lru_links (?c1\<lparr>lru_store := st\<rparr>) (n # ys)"
    using links_insert [OF l1 _ n', of t st] st(1-3) by (simp add: t_def)
  have "st e \<noteq> None" using p(2) st(3) s1(3) by simp
  then obtain en where en: "deref (Some e) (c\<lparr>lru_store := st\<rparr>) = Inr en" "kv st e = (n_key en, n_value en)"
    using kv_deref [of "c\<lparr>lru_store := st\<rparr>" e] by auto
  have key: "n_key en = fst (kv (lru_store c) e)" using en(2) st(4) s1(4) by simp
  have idx: "lru_index c (n_key en) \<noteq> None" using lru_reprD(4) [OF r, of "n_key en" e] key by simp
  let ?c = "c\<lparr>lru_store := st, lru_index := ((lru_index c)(n_key en := None))(k \<mapsto> n)\<rparr>"
  have "put_full k n c = Inr ?c"
    using l(6) e p t live en(1) idx by (simp add: put_full_def s1_def [symmetric] st_def)
  moreover have "lru_links ?c (n # ys)" using l2 by (simp add: lru_links_def)
  ultimately show ?thesis using key st(4) s1(4) by (intro exI [of _ ?c]) simp
qed

text \<open>What \<open>put\<close> does to the entries.\<close>

lemma lru_put_hit:
  assumes r: "lru_repr c xs" and k: "lru_index c k = Some i" and al: "alloc k v c = (n, c1)"
  shows "\<exists>c'. lru_put k v c = Inr c' \<and> lru_rep c' ((k, v) # filter (\<lambda>e. fst e \<noteq> k) (map (kv (lru_store c)) xs)) \<and>
    capacity c' = capacity c"
proof -
  note a = alloc_repr [OF r al]
  have k1: "lru_index c1 k = Some i" using k a(5) by simp
  obtain A B where AB: "xs = A @ i # B" "fst (kv (lru_store c1) i) = k"
      "filter (\<lambda>e. fst e \<noteq> k) (map (kv (lru_store c)) xs) = map (kv (lru_store c1)) (A @ B)"
    using repr_hit [OF a(1) k1] unfolding a(2) by blast
  have live: "lru_store c1 i \<noteq> None" using lru_linksD(7) [OF lru_reprD(1) [OF a(1)]] AB(1) by simp
  define s1 where "s1 = upd i (\<lambda>m. m\<lparr>n_value := v\<rparr>) (lru_store c1)"
  have s1: "nxt s1 = nxt (lru_store c1)" "prv s1 = prv (lru_store c1)" "\<And>b. s1 b = None \<longleftrightarrow> lru_store c1 b = None"
      "kv s1 = (kv (lru_store c1))(i := (k, v))"
    using live AB(2) by (simp_all add: s1_def)
  have "lru_links (c1\<lparr>lru_store := s1\<rparr>) xs"
    using lru_reprD(1) [OF a(1)] s1(1-3) by (simp add: lru_links_def Let_def del: not_None_eq)
  moreover have "fst (kv s1 b) = fst (kv (lru_store c1) b)" for b using s1(4) AB(2) by simp
  ultimately have "lru_repr (c1\<lparr>lru_store := s1\<rparr>) (A @ i # B)"
    using a(1) AB(1) by (simp add: lru_repr_def o_def)
  then obtain st where st: "move_front (Some i) (c1\<lparr>lru_store := s1\<rparr>) = Inr (c1\<lparr>lru_store := st\<rparr>)"
      "lru_repr (c1\<lparr>lru_store := st\<rparr>) (i # A @ B)" "kv st = kv s1"
    using front_repr [of "c1\<lparr>lru_store := s1\<rparr>" A i B] by auto
  have "lru_put k v c = Inr (c1\<lparr>lru_store := st\<rparr>)"
    using al k1 live st(1) by (auto simp: lru_put_def modify_def s1_def)
  moreover have "i \<notin> set (A @ B)" using lru_linksD(1) [OF lru_reprD(1) [OF a(1)]] AB(1) by auto
  then have "map (kv s1) (A @ B) = map (kv (lru_store c1)) (A @ B)" unfolding s1(4) by (auto simp del: fun_upd_apply intro!: fun_upd_other)
  then have "map (kv st) (i # A @ B) = (k, v) # filter (\<lambda>e. fst e \<noteq> k) (map (kv (lru_store c)) xs)"
    using st(3) s1(4) AB(3) by simp
  ultimately show ?thesis using st(2) a(7) by (auto simp: lru_rep_def)
qed

lemma lru_put_spec:
  assumes rep: "lru_rep c es" and cap: "0 < capacity c" "int (length es) \<le> capacity c"
  shows "\<exists>c'. lru_put k v c = Inr c' \<and> lru_rep c' (store (capacity c) k v es) \<and> capacity c' = capacity c"
proof -
  obtain xs where xs: "lru_repr c xs" "es = map (kv (lru_store c)) xs" using rep by (auto simp: lru_rep_def)
  obtain n c1 where al: "alloc k v c = (n, c1)" by fastforce
  note a = alloc_repr [OF xs(1) al]
  show ?thesis
  proof (cases "lru_index c k")
    case (Some i)
    then have "map_of es k \<noteq> None" using repr_hit [OF xs(1) Some] xs(2) by (metis option.simps(3))
    then show ?thesis using lru_put_hit [OF xs(1) Some al] xs(2) by (auto simp: store_def)
  next
    case None
    then have k1: "lru_index c1 k = None" and miss: "map_of es k = None"
      using a(5) repr_miss [OF xs(1) None] xs(2) by simp_all
    have sz: "cursize c1 = int (length es)" using a(6) lru_reprD(3) [OF xs(1)] xs(2) by simp
    show ?thesis
    proof (cases "int (length es) < capacity c")
      case True
      then have "lru_put k v c = put_room k n c1" using al k1 sz a(7) by (simp add: lru_put_def)
      then show ?thesis
        using put_room_spec [OF a(1,4,3) k1] a(2,7) xs(2) miss True by (simp add: store_def)
    next
      case False
      then have put: "lru_put k v c = put_full k n c1" using al k1 sz a(7) by (simp add: lru_put_def)
      have "xs \<noteq> []" using False cap xs(2) by auto
      then obtain ys e where ys: "xs = ys @ [e]" by (metis append_butlast_last_id)
      obtain c' where c': "put_full k n c1 = Inr c'" "cursize c' = cursize c1" "lru_links c' (n # ys)" "kv (lru_store c') = kv (lru_store c1)"
          "lru_index c' = ((lru_index c1)(fst (kv (lru_store c1) e) := None))(k \<mapsto> n)" "capacity c' = capacity c1"
        using put_full_spec [of c1 ys e n k v] a(1,3,4) k1 unfolding ys by blast
      have n: "n \<notin> set xs" using a(4) by (auto simp: spare_def)
      have "fst (kv (lru_store c1) e) \<notin> (\<lambda>b. fst (kv (lru_store c1) b)) ` set ys"
        using lru_reprD(2) [OF a(1)] unfolding ys by (simp add: o_def)
      then have "\<forall>b \<in> set ys. fst (kv (lru_store c1) b) \<noteq> fst (kv (lru_store c1) e)" by (metis imageI)
      then have "lru_repr c' (n # ys)"
        using c'(2-5) a(1,3) n ys k1 lru_reprD(4) [OF a(1), of k] by (auto simp: lru_repr_def)
      moreover have "map (kv (lru_store c')) (n # ys) = (k, v) # butlast es"
        using c'(4) a(2,3) xs(2) ys by simp
      ultimately show ?thesis
        using put c'(1,6) a(7) False miss by (auto simp: store_def lru_rep_def)
    qed
  qed
qed

lemma lru_rep_new: "lru_rep (IntCache_new cap) []"
proof -
  have "lru_links (IntCache_new cap) []"
    by (simp add: lru_links_def IntCache_new_def Let_def nxt_def prv_def node_new_def)
  then have "lru_repr (IntCache_new cap) []" by (simp add: lru_repr_def IntCache_new_def)
  then show ?thesis by (auto simp: lru_rep_def)
qed

section \<open>Sequences of calls\<close>

datatype lru_op = Get int | Put int int

fun op_key :: "lru_op \<Rightarrow> int" where
  "op_key (Get k) = k"
| "op_key (Put k v) = k"

fun is_put :: "lru_op \<Rightarrow> bool" where
  "is_put (Get k) = False"
| "is_put (Put k v) = True"

text \<open>A client makes calls and collects what \<open>get\<close> returns; the same on the specification.\<close>

fun run_ops ::
  "(int \<Rightarrow> 'c \<Rightarrow> (int \<times> 'c) result) \<Rightarrow> (int \<Rightarrow> int \<Rightarrow> 'c \<Rightarrow> 'c result) \<Rightarrow> lru_op list \<Rightarrow> 'c \<Rightarrow> (int list \<times> 'c) result" where
  "run_ops get put [] c = Inr ([], c)"
| "run_ops get put (Get k # ops) c =
     and_then (get k c) (\<lambda>(v, c). and_then (run_ops get put ops c) (\<lambda>(vs, c). Inr (v # vs, c)))"
| "run_ops get put (Put k v # ops) c = and_then (put k v c) (run_ops get put ops)"

fun spec_ops :: "int \<Rightarrow> lru_op list \<Rightarrow> entries \<Rightarrow> int list \<times> entries" where
  "spec_ops cap [] es = ([], es)"
| "spec_ops cap (Get k # ops) es = (let (vs, es') = spec_ops cap ops (touch k es) in (lookup k es # vs, es'))"
| "spec_ops cap (Put k v # ops) es = spec_ops cap ops (store cap k v es)"

lemma spec_ops_append:
  "spec_ops cap (xs @ ys) es =
     (let (vs, es) = spec_ops cap xs es; (ws, es) = spec_ops cap ys es in (vs @ ws, es))"
  by (induction cap xs es rule: spec_ops.induct) (simp_all add: Let_def split_beta)

definition tidy :: "int \<Rightarrow> entries \<Rightarrow> bool" where
  "tidy cap es \<longleftrightarrow> distinct (map fst es) \<and> int (length es) \<le> cap"

lemma distinct_keys_filter: "distinct (map fst es) \<Longrightarrow> distinct (map fst (filter P es))"
  by (rule distinct_map_filter)

lemma filter_hit_length:
  assumes "map_of es k \<noteq> None"
  shows "length (filter (\<lambda>e. fst e \<noteq> k) es) < length es"
proof -
  obtain v where "(k, v) \<in> set es" using assms by (auto dest: map_of_SomeD)
  then show ?thesis by (intro length_filter_less [of "(k, v)"]) auto
qed

lemma tidy_front:
  "tidy cap es \<Longrightarrow> map_of es k \<noteq> None \<Longrightarrow> tidy cap ((k, v) # filter (\<lambda>e. fst e \<noteq> k) es)"
  using filter_hit_length [of es k] by (simp add: tidy_def distinct_keys_filter) auto

lemma tidy_touch: "tidy cap es \<Longrightarrow> tidy cap (touch k es)"
  using tidy_front [of cap es k] by (cases "map_of es k") (simp_all add: touch_def)

lemma tidy_store: "0 < cap \<Longrightarrow> tidy cap es \<Longrightarrow> tidy cap (store cap k v es)"
  using tidy_front [of cap es k v]
  by (cases "map_of es k = None")
    (auto simp: tidy_def store_def map_of_eq_None_iff map_butlast distinct_butlast dest: in_set_butlastD)

locale lru_laws =
  fixes rep :: "'c \<Rightarrow> entries \<Rightarrow> bool" and cap :: "'c \<Rightarrow> int"
    and get :: "int \<Rightarrow> 'c \<Rightarrow> (int \<times> 'c) result" and put :: "int \<Rightarrow> int \<Rightarrow> 'c \<Rightarrow> 'c result"
  assumes get_law: "rep c es \<Longrightarrow> \<exists>c'. get k c = Inr (lookup k es, c') \<and> rep c' (touch k es) \<and> cap c' = cap c"
    and put_law: "rep c es \<Longrightarrow> 0 < cap c \<Longrightarrow> int (length es) \<le> cap c \<Longrightarrow>
      \<exists>c'. put k v c = Inr c' \<and> rep c' (store (cap c) k v es) \<and> cap c' = cap c"
begin

lemma run_spec:
  assumes "rep c es" "0 < cap c" "tidy (cap c) es"
  shows "\<exists>c'. run_ops get put ops c = Inr (fst (spec_ops (cap c) ops es), c') \<and> rep c' (snd (spec_ops (cap c) ops es)) \<and> cap c' = cap c"
  using assms
proof (induction ops arbitrary: c es)
  case (Cons x ops)
  show ?case
  proof (cases x)
    case (Get k)
    obtain c1 where c1: "get k c = Inr (lookup k es, c1)" "rep c1 (touch k es)" "cap c1 = cap c"
      using get_law [OF Cons.prems(1)] by blast
    show ?thesis
      using Cons.IH [OF c1(2)] Cons.prems(2) tidy_touch [OF Cons.prems(3)] c1 Get by (auto simp: split_beta Let_def)
  next
    case (Put k v)
    have "int (length es) \<le> cap c" using Cons.prems(3) by (simp add: tidy_def)
    then obtain c1 where c1: "put k v c = Inr c1" "rep c1 (store (cap c) k v es)" "cap c1 = cap c"
      using put_law [OF Cons.prems(1,2)] by blast
    show ?thesis
      using Cons.IH [OF c1(2)] Cons.prems(2) tidy_store [OF Cons.prems(2,3)] c1 Put by auto
  qed
qed auto

end

interpretation ic: lru_laws lru_rep capacity lru_get lru_put
  by unfold_locales (rule lru_get_spec lru_put_spec, assumption+)+

section \<open>What stays in the cache\<close>

text \<open>Only keys of \<open>S\<close> have been used since \<open>k\<close> was.\<close>

definition recent :: "int set \<Rightarrow> int \<Rightarrow> int \<Rightarrow> entries \<Rightarrow> bool" where
  "recent S k v es \<longleftrightarrow> (\<exists>pre post. es = pre @ (k, v) # post \<and> fst ` set pre \<subseteq> S - {k})"

lemma recent_lookup:
  assumes "recent S k v es"
  shows "lookup k es = v" "map_of es k = Some v"
proof -
  obtain pre post where "es = pre @ (k, v) # post" "k \<notin> fst ` set pre" using assms by (auto simp: recent_def)
  then show "map_of es k = Some v" by (simp add: map_add_def map_of_eq_None_iff [THEN iffD2])
  then show "lookup k es = v" by (simp add: lookup_def)
qed

lemma recent_front:
  assumes "recent S k v es" "k' \<in> S" "k' \<noteq> k"
  shows "recent S k v ((k', v') # filter (\<lambda>e. fst e \<noteq> k') es)" "recent S k v ((k', v') # es)"
proof -
  obtain pre post where es: "es = pre @ (k, v) # post" "fst ` set pre \<subseteq> S - {k}" using assms by (auto simp: recent_def)
  have "(k', v') # filter (\<lambda>e. fst e \<noteq> k') es = ((k', v') # filter (\<lambda>e. fst e \<noteq> k') pre) @ (k, v) # filter (\<lambda>e. fst e \<noteq> k') post"
    using es(1) assms(3) by simp
  moreover have "fst ` set ((k', v') # filter (\<lambda>e. fst e \<noteq> k') pre) \<subseteq> S - {k}" using es(2) assms(2,3) by auto
  ultimately show "recent S k v ((k', v') # filter (\<lambda>e. fst e \<noteq> k') es)" unfolding recent_def by blast
  show "recent S k v ((k', v') # es)"
    unfolding recent_def using es assms(2,3) by (intro exI [of _ "(k', v') # pre"] exI [of _ post]) auto
qed

lemma recent_touch:
  assumes "recent S k v es" "k' \<in> insert k S"
  shows "recent S k v (touch k' es)"
proof (cases "k' = k")
  case True
  have "recent S k v ((k, v) # filter (\<lambda>e. fst e \<noteq> k) es)"
    unfolding recent_def by (intro exI [of _ "[]"] exI [of _ "filter (\<lambda>e. fst e \<noteq> k) es"]) simp
  then show ?thesis using True recent_lookup(2) [OF assms(1)] by (simp add: touch_def)
next
  case False
  then show ?thesis
    using assms recent_front(1) [OF assms(1), of k'] by (auto simp: touch_def split: option.splits)
qed

lemma recent_store:
  assumes r: "recent S k v es" and k: "k' \<in> S" "k' \<noteq> k" and S: "finite S" "int (card S) < cap" and t: "tidy cap es"
  shows "recent S k v (store cap k' v' es)"
proof (cases "map_of es k' = None \<and> \<not> int (length es) < cap")
  case False
  then show ?thesis using recent_front [OF r k] by (auto simp: store_def)
next
  case True
  obtain pre post where es: "es = pre @ (k, v) # post" "fst ` set pre \<subseteq> S - {k}" using r by (auto simp: recent_def)
  have "post \<noteq> []"
  proof
    assume "post = []"
    have "fst ` set pre \<subseteq> S - {k'}" using es True by (auto simp: map_of_eq_None_iff)
    then have "card (fst ` set pre) \<le> card (S - {k'})" using S(1) by (intro card_mono) auto
    moreover have "length pre = card (fst ` set pre)"
      using t es(1) distinct_card [of "map fst pre"] by (simp add: tidy_def)
    moreover have "card (S - {k'}) < card S" using S(1) k(1) by (rule card_Diff1_less)
    ultimately show False using True S(2) es(1) \<open>post = []\<close> by simp
  qed
  then have "store cap k' v' es = ((k', v') # pre) @ (k, v) # butlast post"
    using True es(1) by (simp add: store_def butlast_append)
  then show ?thesis unfolding recent_def using es(2) k by (intro exI [of _ "(k', v') # pre"] exI [of _ "butlast post"]) auto
qed

lemma recent_stored: "recent S k v (store cap k v es)"
proof -
  have "\<exists>post. store cap k v es = [] @ (k, v) # post" by (simp add: store_def)
  then show ?thesis by (force simp: recent_def)
qed

lemma tidy_ops: "0 < cap \<Longrightarrow> tidy cap es \<Longrightarrow> tidy cap (snd (spec_ops cap ops es))"
  by (induction cap ops es rule: spec_ops.induct) (simp_all add: tidy_touch tidy_store split_beta Let_def)

lemma recent_ops:
  assumes "recent S k v es" "tidy cap es" "0 < cap" "finite S" "int (card S) < cap"
    and "\<forall>x \<in> set ops. op_key x \<in> S \<or> x = Get k" "k \<notin> S"
  shows "recent S k v (snd (spec_ops cap ops es)) \<and> tidy cap (snd (spec_ops cap ops es))"
  using assms(1,2,6)
proof (induction ops arbitrary: es)
  case (Cons x ops)
  show ?case
  proof (cases x)
    case (Get k')
    then show ?thesis
      using Cons.IH [OF recent_touch tidy_touch] Cons.prems by (auto simp: split_beta Let_def)
  next
    case (Put k' v')
    then have k': "k' \<in> S" "k' \<noteq> k" using Cons.prems(3) assms(7) by auto
    show ?thesis
      using Cons.IH [OF recent_store [OF Cons.prems(1) k' assms(4,5) Cons.prems(2)] tidy_store [OF assms(3) Cons.prems(2)]]
        Cons.prems(3) Put by simp
  qed
qed simp

section \<open>Properties\<close>

text \<open>
  C40. On a cache of positive capacity every sequence of calls of \<open>get\<close> and \<open>put\<close> runs without a
  bad access and returns what a list of at most that many entries, most recently used first, returns;
  the linked nodes and the index represent that list afterwards.
\<close>

theorem prac_cache_refines_list:
  assumes "0 < cap"
  shows "\<exists>c. run_ops lru_get lru_put ops (IntCache_new cap) = Inr (fst (spec_ops cap ops []), c) \<and>
    lru_rep c (snd (spec_ops cap ops []))"
  using ic.run_spec [OF lru_rep_new, of cap ops] assms by (auto simp: tidy_def IntCache_new_def)

theorem prac_cache_refines_list_witness:
  "\<exists>c. run_ops lru_get lru_put [Put 1 10, Put 2 20, Get 1, Put 3 30, Get 2, Get 1] (IntCache_new 2) = Inr ([10, -1, 10], c) \<and>
    lru_rep c [(1, 10), (3, 30)]"
  using prac_cache_refines_list [of 2 "[Put 1 10, Put 2 20, Get 1, Put 3 30, Get 2, Get 1]"]
  by (simp add: store_def touch_def lookup_def)

text \<open>
  A value stays in the cache while fewer other keys than its capacity are used: after
  \<open>put(k, v)\<close> at any time, a \<open>get(k)\<close> returns \<open>v\<close> as long as \<open>k\<close> is not stored again and the
  calls in between use fewer other keys than the capacity.
\<close>

theorem prac_cache_keeps_recent:
  assumes "0 < cap" "\<forall>x \<in> set ops. op_key x = k \<longrightarrow> \<not> is_put x" "int (card (op_key ` set ops - {k})) < cap"
  shows "\<exists>vs c. run_ops lru_get lru_put (before @ Put k v # ops @ [Get k]) (IntCache_new cap) = Inr (vs @ [v], c)"
proof -
  let ?S = "op_key ` set ops - {k}"
  define es where "es = store cap k v (snd (spec_ops cap before []))"
  have "tidy cap []" using assms(1) by (simp add: tidy_def)
  then have "tidy cap es" unfolding es_def by (intro tidy_store tidy_ops assms(1))
  moreover have "recent ?S k v es" unfolding es_def by (rule recent_stored)
  moreover have "op_key x \<in> ?S \<or> x = Get k" if "x \<in> set ops" for x
    using assms(2) that imageI [OF that, of op_key] by (cases x) auto
  ultimately have "recent ?S k v (snd (spec_ops cap ops es))"
    using recent_ops [of ?S k v es cap ops] assms(1,3) by simp
  then have "lookup k (snd (spec_ops cap ops es)) = v" by (rule recent_lookup)
  then have "fst (spec_ops cap (before @ Put k v # ops @ [Get k]) []) =
      (fst (spec_ops cap before []) @ fst (spec_ops cap ops es)) @ [v]"
    by (simp add: spec_ops_append es_def split_beta Let_def)
  then show ?thesis
    using ic.run_spec [OF lru_rep_new, of cap "before @ Put k v # ops @ [Get k]"] assms(1) \<open>tidy cap []\<close>
    by (auto simp: IntCache_new_def)
qed

theorem prac_cache_keeps_recent_witness:
  "\<exists>vs c. run_ops lru_get lru_put ([Put 7 1] @ Put 1 10 # [Put 2 20, Get 1, Get 2] @ [Get 1]) (IntCache_new 2) = Inr (vs @ [10], c)"
proof (rule prac_cache_keeps_recent)
  have "op_key ` set [Put 2 20, Get 1, Get 2] - {1} = {2}" by auto
  then show "int (card (op_key ` set [Put 2 20, Get 1, Get 2] - {1})) < 2" by simp
qed simp_all

text \<open>
  A cache without capacity has no place to evict from: its first \<open>put\<close> follows the null link
  of the head sentinel.
\<close>

theorem prac_cache_without_capacity:
  assumes "cap \<le> 0"
  shows "lru_put k v (IntCache_new cap) = Inl Null_deref"
proof -
  obtain n c1 where al: "alloc k v (IntCache_new cap) = (n, c1)" by fastforce
  then have c1: "lru_store c1 1 = Some (node_new\<lparr>n_prev := Some 0\<rparr>)" "lru_store c1 0 = Some (node_new\<lparr>n_next := Some 1\<rparr>)"
      "lru_tail c1 = 1" "cursize c1 = 0" "capacity c1 = cap" "lru_index c1 = Map.empty"
    by (auto simp: alloc_def IntCache_new_def)
  have "put_full k n c1 = Inl Null_deref"
    using c1 by (simp add: put_full_def prev_of_def deref_def node_new_def link_next_def modify_def)
  then show ?thesis using al c1 assms by (simp add: lru_put_def)
qed

theorem prac_cache_without_capacity_witness: "lru_put 1 2 (IntCache_new 0) = Inl Null_deref"
  by (rule prac_cache_without_capacity) simp

end
