(* ===== verification/Cpp_Util.thy ===== *)
theory Cpp_Util
  imports Sone_Prelude
begin

text \<open>
  The helpers of \<^verbatim>\<open>src/cpp/util.cpp\<close>: \<open>isPrime\<close> and \<open>nextPrime\<close> on \<open>unsigned int\<close>, as naturals
  below \<open>2 ^ 32\<close> with the wrap-around written out; and the connection with a time limit, over the results of its
  system calls.
\<close>

section \<open>Operations\<close>

text \<open>
  The bound of the loop is \<open>i <= sqrt(v)\<close> on doubles.  A 32-bit integer and the square root of a
  32-bit square are exact in a double and the root is correctly rounded, so it is \<open>i * i \<le> v\<close>.
\<close>

function prime_loop :: "nat \<Rightarrow> nat \<Rightarrow> bool" where
  "prime_loop v i = (if i * i \<le> v then if v mod i = 0 then False else prime_loop v (i + 1) else True)"
  by auto
termination
proof (relation "measure (\<lambda>(v, i). v + 1 - i)")
  fix v i :: nat
  assume "i * i \<le> v"
  moreover have "i \<le> i * i" by (cases i) simp_all
  ultimately have "i \<le> v" by (rule order_trans [rotated])
  then show "((v, i + 1), v, i) \<in> measure (\<lambda>(v, i). v + 1 - i)" by simp
qed simp

declare prime_loop.simps [simp del]

definition isPrime :: "nat \<Rightarrow> bool" where
  "isPrime v = (if v = 1 then True else if v mod 2 = 0 then False else prime_loop v 3)"

definition UINT_RANGE :: nat where "UINT_RANGE = 2 ^ 32"

lemma isPrime_1: "isPrime 1"
  by (simp add: isPrime_def)

text \<open>\<open>while(!isPrime(++i));\<close> ends at the latest when the counter has wrapped around to 1.\<close>

function nextPrime :: "nat \<Rightarrow> nat" where
  "nextPrime i = (let i = (i + 1) mod UINT_RANGE in if isPrime i then i else nextPrime i)"
  by auto
termination
proof (relation "measure (\<lambda>i. nat ((- int i) mod int UINT_RANGE))")
  fix i j :: nat
  assume j: "j = (i + 1) mod UINT_RANGE" "\<not> isPrime j"
  let ?N = "int UINT_RANGE" and ?d = "(- int i) mod int UINT_RANGE"
  have N: "1 < ?N" by (simp add: UINT_RANGE_def)
  have "(- int j) mod ?N = (?d - 1) mod ?N" unfolding j(1) zmod_int
    by (metis (no_types, opaque_lifting) add.commute minus_add_distrib mod_diff_left_eq mod_minus_eq of_nat_1 of_nat_add uminus_add_conv_diff)
  moreover have "?d \<noteq> 0"
  proof
    assume "?d = 0"
    then have "?N dvd int i" by (simp add: mod_eq_0_iff_dvd)
    then have "i mod UINT_RANGE = 0" by simp
    then have "j = 1" unfolding j(1) using N by (simp add: mod_Suc UINT_RANGE_def)
    then show False using j(2) isPrime_1 by simp
  qed
  moreover have "0 \<le> ?d" "?d < ?N" using N by simp_all
  ultimately show "(j, i) \<in> measure (\<lambda>i. nat ((- int i) mod int UINT_RANGE))" by simp
qed simp

declare nextPrime.simps [simp del]

section \<open>Primes\<close>

lemma prime_loop_iff: "0 < i \<Longrightarrow> prime_loop v i \<longleftrightarrow> (\<forall>d. i \<le> d \<longrightarrow> d * d \<le> v \<longrightarrow> \<not> d dvd v)"
proof (induction v i rule: prime_loop.induct)
  case (1 v i)
  show ?case
  proof (cases "i * i \<le> v \<and> \<not> i dvd v")
    case True
    then have "prime_loop v i = prime_loop v (i + 1)" by (subst prime_loop.simps) (simp add: dvd_eq_mod_eq_0)
    also have "\<dots> \<longleftrightarrow> (\<forall>d. i + 1 \<le> d \<longrightarrow> d * d \<le> v \<longrightarrow> \<not> d dvd v)"
      using 1 True by (simp add: dvd_eq_mod_eq_0)
    also have "\<dots> \<longleftrightarrow> (\<forall>d. i \<le> d \<longrightarrow> d * d \<le> v \<longrightarrow> \<not> d dvd v)"
    proof -
      have d: "i \<le> d \<longleftrightarrow> d = i \<or> i + 1 \<le> d" for d by auto
      show ?thesis unfolding d using True by blast
    qed
    finally show ?thesis .
  next
    case False
    have "prime_loop v i \<longleftrightarrow> \<not> i * i \<le> v"
      using False by (subst prime_loop.simps) (auto simp: dvd_eq_mod_eq_0)
    moreover have "i * i \<le> d * d" if "i \<le> d" for d using that by (simp add: mult_le_mono)
    ultimately show ?thesis using False by (meson order_refl order_trans)
  qed
qed

lemma small_divisor:
  assumes "d dvd v" "d \<noteq> 1" "d \<noteq> v" "0 < v"
  shows "\<exists>e. e dvd v \<and> 1 < e \<and> e * e \<le> (v::nat)"
proof -
  obtain e where e: "v = d * e" using assms(1) by (auto simp: dvd_def)
  have "1 < d" "1 < e" using e assms by (auto simp: nat_neq_iff)
  moreover have "d * d \<le> v \<or> e * e \<le> v" using e by (cases "d \<le> e") (auto simp: mult_le_mono)
  ultimately show ?thesis using e by (metis dvd_triv_left dvd_triv_right)
qed

section \<open>Properties\<close>

lemma isPrime_divisors:
  "isPrime v \<longleftrightarrow> v = 1 \<or> 3 \<le> v \<and> (\<forall>d. d dvd v \<longrightarrow> d = 1 \<or> d = v)"
proof -
  consider "v = 0" | "v = 1" | "v = 2" | "3 \<le> v" "even v" | "3 \<le> v" "odd v" by linarith
  then show ?thesis
  proof cases
    case 4
    then have "2 dvd v \<and> 2 \<noteq> (1::nat) \<and> 2 \<noteq> v" by auto
    then show ?thesis using 4 by (auto simp: isPrime_def)
  next
    case 5
    have "isPrime v \<longleftrightarrow> (\<forall>d. 3 \<le> d \<longrightarrow> d * d \<le> v \<longrightarrow> \<not> d dvd v)"
      using 5 prime_loop_iff [of 3 v] by (simp add: isPrime_def odd_iff_mod_2_eq_one)
    also have "\<dots> \<longleftrightarrow> (\<forall>d. d dvd v \<longrightarrow> d = 1 \<or> d = v)"
    proof
      assume a: "\<forall>d. 3 \<le> d \<longrightarrow> d * d \<le> v \<longrightarrow> \<not> d dvd v"
      have "False" if d: "d dvd v" "d \<noteq> 1" "d \<noteq> v" for d
      proof -
        obtain e where e: "e dvd v" "1 < e" "e * e \<le> v" using small_divisor [OF d] 5 by auto
        have "e \<noteq> 2" using e(1) 5(2) by auto
        then show False using a e by auto
      qed
      then show "\<forall>d. d dvd v \<longrightarrow> d = 1 \<or> d = v" by blast
    next
      assume a: "\<forall>d. d dvd v \<longrightarrow> d = 1 \<or> d = v"
      have "d \<noteq> v" if "3 \<le> d" "d * d \<le> v" for d
      proof -
        have "d * 1 < d * d" using that by (intro mult_strict_left_mono) auto
        then show ?thesis using that by auto
      qed
      then show "\<forall>d. 3 \<le> d \<longrightarrow> d * d \<le> v \<longrightarrow> \<not> d dvd v" using a by force
    qed
    finally show ?thesis using 5 by auto
  qed (simp_all add: isPrime_def)
qed

text \<open>
  From 3 on \<open>isPrime\<close> decides whether a number has no divisor but 1 and itself; it also accepts 1
  and rejects 2.
\<close>

theorem isPrime_correct: "isPrime v \<longleftrightarrow> v = 1 \<or> 3 \<le> v \<and> {d. d dvd v} = {1, v}"
  unfolding isPrime_divisors by auto

lemma nextPrime_least_prime:
  assumes "n < k" "k < UINT_RANGE" "isPrime k"
  shows "isPrime (nextPrime n) \<and> n < nextPrime n \<and> nextPrime n \<le> k \<and> (\<forall>j. n < j \<longrightarrow> j < nextPrime n \<longrightarrow> \<not> isPrime j)"
  using assms
proof (induction n rule: nextPrime.induct)
  case (1 n)
  have n1: "(n + 1) mod UINT_RANGE = n + 1" using 1(2,3) by simp
  show ?case
  proof (cases "isPrime (n + 1)")
    case True
    then have "nextPrime n = n + 1" by (subst nextPrime.simps) (simp only: n1 Let_def if_True)
    then show ?thesis using True 1(2) by auto
  next
    case False
    then have eq: "nextPrime n = nextPrime (n + 1)" by (subst nextPrime.simps) (simp only: n1 Let_def if_False)
    have "n + 1 \<noteq> k" using False 1(4) by auto
    then have "n + 1 < k" using 1(2,3) by simp
    then have "isPrime (nextPrime (n + 1)) \<and> n + 1 < nextPrime (n + 1) \<and> nextPrime (n + 1) \<le> k \<and>
        (\<forall>j. n + 1 < j \<longrightarrow> j < nextPrime (n + 1) \<longrightarrow> \<not> isPrime j)"
      using 1(1) [of "n + 1"] n1 False 1(3,4) by simp
    then show ?thesis using False unfolding eq by (metis Suc_eq_plus1 Suc_lessD linorder_neqE_nat not_less_eq)
  qed
qed

lemma nextPrime_wraps:
  assumes "n < UINT_RANGE" "\<forall>k. n < k \<longrightarrow> k < UINT_RANGE \<longrightarrow> \<not> isPrime k"
  shows "nextPrime n = 1"
  using assms
proof (induction n rule: nextPrime.induct)
  case (1 n)
  have zero: "nextPrime 0 = 1"
    by (subst nextPrime.simps) (simp add: UINT_RANGE_def isPrime_def)
  let ?j = "(n + 1) mod UINT_RANGE"
  have j: "?j = (if n + 1 = UINT_RANGE then 0 else n + 1)" using 1(2) by simp
  have np: "\<not> isPrime ?j" using 1(2,3) unfolding j by (auto simp: isPrime_def)
  then have eq: "nextPrime n = nextPrime ?j" by (subst nextPrime.simps) (simp only: Let_def if_False)
  show ?case
  proof (cases "n + 1 = UINT_RANGE")
    case True
    then show ?thesis unfolding eq j using zero by simp
  next
    case False
    then have "?j = n + 1" unfolding j by simp
    then show ?thesis unfolding eq using 1(1) [OF refl np] 1(2,3) False by auto
  qed
qed

text \<open>
  \<open>nextPrime\<close> ends on every input: it returns the least larger number that \<open>isPrime\<close> accepts, and 1
  when there is none below \<open>2 ^ 32\<close>.
\<close>

theorem nextPrime_correct:
  assumes "n < UINT_RANGE"
  shows "nextPrime n =
    (if \<exists>k. n < k \<and> k < UINT_RANGE \<and> isPrime k then LEAST k. n < k \<and> isPrime k else 1)"
proof (cases "\<exists>k. n < k \<and> k < UINT_RANGE \<and> isPrime k")
  case True
  then obtain k where "n < k" "k < UINT_RANGE" "isPrime k" by blast
  note l = nextPrime_least_prime [OF this]
  have "(LEAST k. n < k \<and> isPrime k) = nextPrime n"
    by (rule Least_equality) (use l in \<open>auto simp: not_less [symmetric]\<close>)
  then show ?thesis using True by simp
next
  case False
  then show ?thesis using nextPrime_wraps [OF assms] by auto
qed

theorem nextPrime_correct_witness: "nextPrime 4294967295 = 1"
proof -
  have "\<not> (\<exists>k. 4294967295 < k \<and> k < UINT_RANGE \<and> isPrime k)" by (auto simp: UINT_RANGE_def)
  moreover have "4294967295 < UINT_RANGE" by (simp add: UINT_RANGE_def)
  ultimately show ?thesis using nextPrime_correct [of 4294967295] if_not_P by metis
qed

section \<open>Connecting with a time limit\<close>

text \<open>
  The descriptors that are open and their file status flags (a set of bits as a number, of which only
  \<open>O_NONBLOCK\<close> matters), and what the calls of \<open>unblockConnect\<close> return: \<open>connect\<close> with its \<open>errno\<close>, \<open>select\<close> with the
  descriptors it leaves in the set, and \<open>getsockopt\<close> with the pending error.
\<close>

record descriptors =
  open_fds :: "int set"
  nonblock :: "int \<Rightarrow> bool"

datatype connect_outcome = Connected | In_progress | Refused

record connect_env =
  ce_socket :: int
  ce_connect :: connect_outcome
  ce_select :: "int \<Rightarrow> int set \<Rightarrow> int \<Rightarrow> int \<times> int set"
  ce_getsockopt :: int
  ce_error :: int

definition setNonBlockingSoc :: "int \<Rightarrow> descriptors \<Rightarrow> bool \<times> descriptors" where
  "setNonBlockingSoc fd w = (nonblock w fd, w\<lparr>nonblock := (nonblock w)(fd := True)\<rparr>)"

definition close_fd :: "int \<Rightarrow> descriptors \<Rightarrow> descriptors" where
  "close_fd fd w = w\<lparr>open_fds := open_fds w - {fd}\<rparr>"

definition unblockConnect :: "connect_env \<Rightarrow> int \<Rightarrow> descriptors \<Rightarrow> int \<times> descriptors" where
  "unblockConnect env secs w =
     (let conn_fd = ce_socket env;
          w = w\<lparr>open_fds := insert conn_fd (open_fds w), nonblock := (nonblock w)(conn_fd := False)\<rparr>;
          (old_option, w) = setNonBlockingSoc conn_fd w;
          restored = w\<lparr>nonblock := (nonblock w)(conn_fd := old_option)\<rparr>
      in case ce_connect env of
           Connected \<Rightarrow> (conn_fd, restored)
         | Refused \<Rightarrow> (- 1, w)
         | In_progress \<Rightarrow>
             (let (ret, writefds) = ce_select env conn_fd {conn_fd} secs in
              if ret \<le> 0 then (- 1, close_fd conn_fd w)
              else if conn_fd \<notin> writefds then (- 1, close_fd conn_fd w)
              else if ce_getsockopt env < 0 then (- 1, close_fd conn_fd w)
              else if ce_error env \<noteq> 0 then (- 1, close_fd conn_fd w)
              else (conn_fd, restored)))"

text \<open>\<open>select\<close> looks only at the descriptors below its first argument, and returns how many of them are ready or \<open>- 1\<close>.\<close>

definition select_below :: "(int \<Rightarrow> int set \<Rightarrow> int \<Rightarrow> int \<times> int set) \<Rightarrow> bool" where
  "select_below sel \<longleftrightarrow> (\<forall>nfds fds t. fst (sel nfds fds t) \<le> int (card {f \<in> fds. f < nfds}))"

text \<open>
  The wait is for the descriptors below the new one, so that the new one is never among them: a connection that is not made at once is
  given up and closed, however soon it would have been made.  A connection made at once is returned in blocking
  mode, and a refused one stays open.
\<close>

theorem unblockConnect_never_waits:
  assumes "select_below (ce_select env)" "ce_socket env \<notin> open_fds w"
  shows "(case ce_connect env of
      Connected \<Rightarrow> fst (unblockConnect env secs w) = ce_socket env \<and>
        open_fds (snd (unblockConnect env secs w)) = insert (ce_socket env) (open_fds w) \<and>
        \<not> nonblock (snd (unblockConnect env secs w)) (ce_socket env)
    | In_progress \<Rightarrow> fst (unblockConnect env secs w) = - 1 \<and> open_fds (snd (unblockConnect env secs w)) = open_fds w
    | Refused \<Rightarrow> fst (unblockConnect env secs w) = - 1 \<and>
        open_fds (snd (unblockConnect env secs w)) = insert (ce_socket env) (open_fds w))"
proof -
  have e: "card {f. f = ce_socket env \<and> f < ce_socket env} = 0" by (rule card_eq_0_iff [THEN iffD2]) auto
  have "fst (ce_select env (ce_socket env) {ce_socket env} secs) \<le> int (card {f \<in> {ce_socket env}. f < ce_socket env})"
    using assms(1) unfolding select_below_def by blast
  then have "fst (ce_select env (ce_socket env) {ce_socket env} secs) \<le> 0" by (simp add: e)
  then show ?thesis using assms(2)
    by (auto simp: unblockConnect_def setNonBlockingSoc_def close_fd_def Let_def split: connect_outcome.split prod.split)
qed

theorem unblockConnect_never_waits_witness:
  "fst (unblockConnect \<lparr>ce_socket = 4, ce_connect = In_progress,
      ce_select = (\<lambda>nfds fds t. (int (card {f \<in> fds. f < nfds}), {f \<in> fds. f < nfds})), ce_getsockopt = 0, ce_error = 0\<rparr> 5
      \<lparr>open_fds = {0, 1, 2}, nonblock = (\<lambda>_. False)\<rparr>) = - 1"
  using unblockConnect_never_waits [of "\<lparr>ce_socket = 4, ce_connect = In_progress,
      ce_select = (\<lambda>nfds fds t. (int (card {f \<in> fds. f < nfds}), {f \<in> fds. f < nfds})), ce_getsockopt = 0, ce_error = 0\<rparr>"
      "\<lparr>open_fds = {0, 1, 2}, nonblock = (\<lambda>_. False)\<rparr>" 5]
  by (simp add: select_below_def)

end
