(* ===== verification/Base64.thy ===== *)
theory Base64
  imports Sone_Prelude "HOL-Library.Word"
begin

unbundle bit_operations_syntax

text \<open>
  The Base64 encoder of \<^verbatim>\<open>src/test/test.cpp\<close>: groups of three bytes become four characters of the
  table, a last group of one or two bytes is padded.  The bytes and the six-bit indices are 8-bit words
  (\<open>unsigned char\<close>); the arrays on the stack keep their places.  The encoder is compared with a decoder
  that knows only the standard: each character stands for six bits, and every eight bits are a byte.
\<close>

section \<open>The encoder\<close>

definition base64_table :: string where
  "base64_table = ''ABCDEFGHIJKLMNOPQRSTUVWXYZabcdefghijklmnopqrstuvwxyz0123456789+/'' @ [nul]"

definition Convert :: "8 word \<Rightarrow> char result" where
  "Convert c = cell base64_table (unat c)"

text \<open>The loops that append the characters of \<open>split4\<close> to the result.\<close>

fun append_converted :: "8 word list \<Rightarrow> string \<Rightarrow> string result" where
  "append_converted [] ret = Inr ret"
| "append_converted (c # split4) ret = and_then (Convert c) (\<lambda>x. append_converted split4 (ret @ [x]))"

definition split_whole :: "8 word list \<Rightarrow> 8 word list" where
  "split_whole split3 =
     [drop_bit 2 (split3 ! 0 AND 0xfc),
      push_bit 4 (split3 ! 0 AND 0x03) + drop_bit 4 (split3 ! 1 AND 0xf0),
      push_bit 2 (split3 ! 1 AND 0x0f) + drop_bit 6 (split3 ! 2 AND 0xc0),
      split3 ! 2 AND 0x3f]"

definition split_one :: "8 word list \<Rightarrow> 8 word list" where
  "split_one split3 =
     [drop_bit 2 (split3 ! 0 AND 0xfc),
      push_bit 4 (split3 ! 0 AND 0x03)]"

definition split_two :: "8 word list \<Rightarrow> 8 word list" where
  "split_two split3 =
     [drop_bit 2 (split3 ! 0 AND 0xfc),
      push_bit 4 (split3 ! 0 AND 0x03) + drop_bit 4 (split3 ! 1 AND 0xf0),
      push_bit 2 (split3 ! 1 AND 0x0f)]"

fun encode_loop :: "8 word list \<Rightarrow> 8 word list \<Rightarrow> nat \<Rightarrow> string \<Rightarrow> (8 word list \<times> nat \<times> string) result" where
  "encode_loop [] split3 i ret = Inr (split3, i, ret)"
| "encode_loop (b # buf) split3 i ret =
     (if i < length split3 then
        let split3 = split3[i := b]; i = i + 1 in
        if i = 3 then and_then (append_converted (split_whole split3) ret) (encode_loop buf split3 0)
        else encode_loop buf split3 i ret
      else Inl Out_of_bounds)"

definition encode_rest :: "8 word list \<times> nat \<times> string \<Rightarrow> string result" where
  "encode_rest = (\<lambda>(split3, i, ret).
     if i = 1 then and_then (append_converted (split_one split3) ret) (\<lambda>ret. Inr (ret @ [CHR ''=''] @ [CHR ''='']))
     else if i = 2 then and_then (append_converted (split_two split3) ret) (\<lambda>ret. Inr (ret @ [CHR ''='']))
     else Inr ret)"

text \<open>\<open>split3\<close> is not initialised: its first contents are an argument.\<close>

definition encode :: "8 word list \<Rightarrow> 8 word list \<Rightarrow> nat \<Rightarrow> string result" where
  "encode split3 buf buflen =
     (if buflen \<le> length buf then and_then (encode_loop (take buflen buf) split3 0 []) encode_rest
      else Inl Out_of_bounds)"

section \<open>The standard\<close>

text \<open>The bits of a number, most significant first, and the numbers of a sequence of bits.\<close>

definition bits :: "nat \<Rightarrow> 8 word \<Rightarrow> bool list" where
  "bits n w = map (bit w) (rev [0..<n])"

definition of_bits :: "bool list \<Rightarrow> 8 word" where
  "of_bits bs = horner_sum of_bool 2 (rev bs)"

fun bytes_of_bits :: "bool list \<Rightarrow> 8 word list" where
  "bytes_of_bits bs = (if length bs < 8 then [] else of_bits (take 8 bs) # bytes_of_bits (drop 8 bs))"

declare bytes_of_bits.simps [simp del]

text \<open>The value of a character, from the ranges of the standard: \<open>A\<close> to \<open>Z\<close> are 0 to 25, \<open>a\<close> to \<open>z\<close> 26 to 51,
  the digits 52 to 61, then plus and slash.\<close>

definition sextet_of_char :: "char \<Rightarrow> nat" where
  "sextet_of_char c =
     (let n = of_char c :: nat in
      if 65 \<le> n \<and> n \<le> 90 then n - 65
      else if 97 \<le> n \<and> n \<le> 122 then n - 97 + 26
      else if 48 \<le> n \<and> n \<le> 57 then n - 48 + 52
      else if c = CHR ''+'' then 62 else 63)"

text \<open>Bits that are left over behind the last whole byte are padding.\<close>

definition base64_decode :: "string \<Rightarrow> 8 word list" where
  "base64_decode s =
     bytes_of_bits (concat (map (\<lambda>c. bits 6 (of_nat (sextet_of_char c))) (takeWhile (\<lambda>c. c \<noteq> CHR ''='') s)))"

section \<open>One character\<close>

lemma base64_table_ok: "length base64_table = 65" "distinct base64_table" "CHR ''='' \<notin> set base64_table"
  by (simp_all add: base64_table_def nul_def)

lemma sextet_of_char_table: "map sextet_of_char (take 64 base64_table) = [0..<64]"
  by (simp add: base64_table_def sextet_of_char_def upt_rec)

definition sextet :: "8 word \<Rightarrow> bool" where
  "sextet w \<longleftrightarrow> take_bit 6 w = w"

lemma sextet_less: "sextet w \<Longrightarrow> unat w < 64"
  using take_bit_nat_less_exp [of 6 "unat w"] by (simp add: sextet_def flip: unsigned_take_bit_eq)

lemma all_bits: "(\<forall>n < 8. P n) \<longleftrightarrow> P 0 \<and> P 1 \<and> P 2 \<and> P 3 \<and> P 4 \<and> P 5 \<and> P 6 \<and> P (7 :: nat)"
  by (simp add: numeral_eq_Suc All_less_Suc) blast

lemma sextet_bits: "sextet w \<longleftrightarrow> \<not> bit w 6 \<and> \<not> bit w 7"
  unfolding sextet_def bit_eq_iff by (simp add: all_bits bit_take_bit_iff)

lemma append_converted_ok:
  "\<forall>w \<in> set ws. sextet w \<Longrightarrow> append_converted ws ret = Inr (ret @ map (\<lambda>w. base64_table ! unat w) ws)"
  by (induction ws arbitrary: ret) (auto simp: Convert_def cell_def base64_table_ok dest: sextet_less)

lemma decoded_char: "sextet w \<Longrightarrow> of_nat (sextet_of_char (base64_table ! unat w)) = w"
proof -
  assume "sextet w"
  then have n: "unat w < 64" by (rule sextet_less)
  then have "sextet_of_char (base64_table ! unat w) = map sextet_of_char (take 64 base64_table) ! unat w"
    by (simp add: base64_table_ok)
  then show ?thesis using n by (simp add: sextet_of_char_table)
qed

lemma char_not_pad: "sextet w \<Longrightarrow> base64_table ! unat w \<noteq> CHR ''=''"
  using nth_mem [of "unat w" base64_table] sextet_less [of w] base64_table_ok by force

text \<open>What is decoded from the characters of some indices and padding.\<close>

lemma decode_chars:
  assumes "\<forall>w \<in> set ws. sextet w"
  shows "base64_decode (map (\<lambda>w. base64_table ! unat w) ws @ replicate n (CHR ''='')) = bytes_of_bits (concat (map (bits 6) ws))"
proof -
  have "takeWhile (\<lambda>c. c \<noteq> CHR ''='') (map (\<lambda>w. base64_table ! unat w) ws @ replicate n (CHR ''='')) = map (\<lambda>w. base64_table ! unat w) ws"
    using assms char_not_pad by (subst takeWhile_append2) auto
  moreover have "map (\<lambda>c. bits 6 (of_nat (sextet_of_char c))) (map (\<lambda>w. base64_table ! unat w) ws) = map (bits 6) ws"
    using assms by (simp add: decoded_char)
  ultimately show ?thesis unfolding base64_decode_def by (simp only:)
qed

section \<open>One group\<close>

lemma of_bits_bits: "of_bits (bits 8 w) = w"
  by (simp add: of_bits_def bits_def rev_map horner_sum_bit_eq_take_bit take_bit_word_eq_self)

lemma bytes_of_bits_byte: "bytes_of_bits (bits 8 w @ bs) = w # bytes_of_bits bs"
  by (subst bytes_of_bits.simps) (simp add: bits_def of_bits_bits [unfolded bits_def])

lemma bytes_of_bits_rest: "length bs < 8 \<Longrightarrow> bytes_of_bits bs = []"
  by (subst bytes_of_bits.simps) simp

lemma nat_ranges: "[0..<6] = [0, 1, 2, 3, 4, 5]" "[0..<8] = [0, 1, 2, 3, 4, 5, 6, 7::nat]"
  by (simp_all add: upt_rec)

lemma add_disjoint: "\<forall>n < 8. \<not> (bit (a :: 8 word) n \<and> bit b n) \<Longrightarrow> a + b = a OR b"
  by (rule disjunctive_add) (use bit_imp_le_length in force)

lemma split_sums:
  "push_bit 4 (a AND 3) + drop_bit 4 (b AND 240) = push_bit 4 (a AND 3) OR drop_bit 4 (b AND 240 :: 8 word)"
  "push_bit 2 (b AND 15) + drop_bit 6 (c AND 192) = push_bit 2 (b AND 15) OR drop_bit 6 (c AND 192 :: 8 word)"
  by (rule add_disjoint; simp add: all_bits bit_simps)+

lemma split_bits:
  "concat (map (bits 6) (split_whole [a, b, c])) = bits 8 a @ bits 8 b @ bits 8 c"
  "concat (map (bits 6) (split_two [a, b, c])) = bits 8 a @ bits 8 b @ [False, False]"
  "concat (map (bits 6) (split_one [a, b, c])) = bits 8 a @ [False, False, False, False]"
  using split_sums [of a b] split_sums [of b c]
  by (simp_all add: split_whole_def split_two_def split_one_def bits_def nat_ranges bit_simps)

lemma split_sextets:
  "\<forall>w \<in> set (split_whole [a, b, c]). sextet w"
  "\<forall>w \<in> set (split_two [a, b, c]). sextet w"
  "\<forall>w \<in> set (split_one [a, b, c]). sextet w"
  using split_sums [of a b] split_sums [of b c]
  by (simp_all add: split_whole_def split_two_def split_one_def sextet_bits bit_simps)

section \<open>The loop\<close>

text \<open>The indices the encoder chooses, in groups of three bytes, and the padding.\<close>

fun sextets :: "8 word list \<Rightarrow> 8 word list \<times> nat" where
  "sextets (a # b # c # xs) = (case sextets xs of (ws, n) \<Rightarrow> (split_whole [a, b, c] @ ws, n))"
| "sextets [a, b] = (split_two [a, b, 0], 1)"
| "sextets [a] = (split_one [a, 0, 0], 2)"
| "sextets [] = ([], 0)"

lemma length_split:
  "length (split_whole xs) = 4" "length (split_two xs) = 3" "length (split_one xs) = 2"
  by (simp_all add: split_whole_def split_two_def split_one_def)

lemma sextets_ok:
  "sextets xs = (ws, n) \<Longrightarrow> (\<forall>w \<in> set ws. sextet w) \<and> bytes_of_bits (concat (map (bits 6) ws)) = xs \<and>
     length ws + n = 4 * ((length xs + 2) div 3)"
proof (induction xs arbitrary: ws n rule: sextets.induct)
  case (1 a b c xs)
  obtain ws' n' where w: "sextets xs = (ws', n')" by fastforce
  then have "ws = split_whole [a, b, c] @ ws'" "n = n'" using 1(2) by simp_all
  moreover have "(length (a # b # c # xs) + 2) div 3 = (length xs + 2) div 3 + 1" by simp
  ultimately show ?case
    using 1(1) [OF w] split_sextets(1) [of a b c] split_bits(1) [of a b c] length_split(1) [of "[a, b, c]"]
    by (simp only: map_append concat_append append_assoc bytes_of_bits_byte set_append length_append) auto
next
  case (2 a b)
  then show ?case
    using split_sextets(2) [of a b 0] split_bits(2) [of a b 0] length_split(2) [of "[a, b, 0]"]
    by (auto simp: bytes_of_bits_byte bytes_of_bits_rest)
next
  case (3 a)
  then show ?case
    using split_sextets(3) [of a 0 0] split_bits(3) [of a 0 0] length_split(3) [of "[a, 0, 0]"]
    by (auto simp: bytes_of_bits_byte bytes_of_bits_rest)
qed (simp add: bytes_of_bits_rest)

lemma encode_loop_ok:
  "length split3 = 3 \<Longrightarrow> sextets xs = (ws, n) \<Longrightarrow>
     and_then (encode_loop xs split3 0 ret) encode_rest = Inr (ret @ map (\<lambda>w. base64_table ! unat w) ws @ replicate n (CHR ''=''))"
proof (induction xs arbitrary: split3 ret ws n rule: sextets.induct)
  case (1 a b c xs)
  obtain ws' n' where w: "sextets xs = (ws', n')" by fastforce
  then have ws: "ws = split_whole [a, b, c] @ ws'" "n = n'" using 1(3) by simp_all
  obtain x y z where "split3 = [x, y, z]" using 1(2) by (auto simp: length_Suc_conv numeral_3_eq_3)
  then show ?case
    using 1(1) [OF _ w, of "[a, b, c]"] append_converted_ok [OF split_sextets(1) [of a b c], of ret] ws by (simp add: Let_def)
next
  case (2 a b)
  obtain x y z where "split3 = [x, y, z]" using 2(1) by (auto simp: length_Suc_conv numeral_3_eq_3)
  moreover have "split_two [a, b, z] = split_two [a, b, 0]" by (simp add: split_two_def)
  ultimately show ?case
    using append_converted_ok [OF split_sextets(2) [of a b 0], of ret] 2(2) by (auto simp: Let_def encode_rest_def)
next
  case (3 a)
  obtain x y z where "split3 = [x, y, z]" using 3(1) by (auto simp: length_Suc_conv numeral_3_eq_3)
  moreover have "split_one [a, y, z] = split_one [a, 0, 0]" by (simp add: split_one_def)
  ultimately show ?case
    using append_converted_ok [OF split_sextets(3) [of a 0 0], of ret] 3(2) by (auto simp: Let_def encode_rest_def numeral_2_eq_2)
next
  case 4
  then show ?case by (simp add: encode_rest_def)
qed

text \<open>
  C38. Whatever is on the stack, the encoder returns a string of four characters for every three bytes that
  were begun, and a decoder of the standard gets exactly the first \<open>buflen\<close> bytes of the
  buffer back from it; a length beyond the buffer is read out of bounds.
\<close>

theorem encode_roundtrip:
  assumes "length split3 = 3"
  shows "(if n \<le> length buf
          then \<exists>s. encode split3 buf n = Inr s \<and> length s = 4 * ((n + 2) div 3) \<and> base64_decode s = take n buf
          else encode split3 buf n = Inl Out_of_bounds)"
proof (cases "n \<le> length buf")
  case True
  obtain ws k where w: "sextets (take n buf) = (ws, k)" by fastforce
  note ok = sextets_ok [OF w]
  have "encode split3 buf n = Inr (map (\<lambda>w. base64_table ! unat w) ws @ replicate k (CHR ''=''))"
    using encode_loop_ok [OF assms w, of "[]"] True by (simp add: encode_def)
  then show ?thesis using ok True decode_chars [of ws k] by simp
qed (simp add: encode_def)

theorem encode_roundtrip_witness:
  "encode [0, 0, 0] [77, 97] 2 = Inr ''TWE='' \<and> base64_decode ''TWE='' = [77, 97]"
proof -
  have e: "encode [0, 0, 0] [77, 97] 2 = Inr ''TWE=''"
    by (simp add: encode_def encode_rest_def split_two_def Convert_def cell_def base64_table_def Let_def)
  show ?thesis using encode_roundtrip [of "[0, 0, 0]" 2 "[77, 97]"] by (simp add: e)
qed

end
