(* ===== verification/Kmp.thy ===== *)
theory Kmp
  imports Sone_Prelude "HOL-Library.Sublist"
begin

text \<open>
  The string search of \<^verbatim>\<open>src/cpp/test.cpp\<close>: \<open>build\<close> fills the table of the longest borders of the
  prefixes of a pattern, \<open>kmp\<close> allocates the table and runs along the text.  Indices are the \<open>int\<close> of the
  source, accesses outside the table are errors, and the loops are partial functions whose termination
  is proved.
\<close>

section \<open>The code\<close>

definition int_cell :: "'a list \<Rightarrow> int \<Rightarrow> 'a result" where
  "int_cell v i = (if 0 \<le> i \<and> i < int (length v) then Inr (v ! nat i) else Inl Out_of_bounds)"

definition set_int_cell :: "'a list \<Rightarrow> int \<Rightarrow> 'a \<Rightarrow> 'a list result" where
  "set_int_cell v i x = (if 0 \<le> i \<and> i < int (length v) then Inr (v[nat i := x]) else Inl Out_of_bounds)"

text \<open>A string of the library has a readable NUL behind its last character.\<close>

definition char_at :: "string \<Rightarrow> int \<Rightarrow> char result" where
  "char_at s i = int_cell (s @ [nul]) i"

definition same_char :: "string \<Rightarrow> int \<Rightarrow> string \<Rightarrow> int \<Rightarrow> bool result" where
  "same_char s i p j = and_then (char_at s i) (\<lambda>x. and_then (char_at p j) (\<lambda>y. Inr (x = y)))"

partial_function (option) table_loop :: "string \<Rightarrow> int list \<Rightarrow> int \<Rightarrow> int \<Rightarrow> int list result option" where
  "table_loop p vec j t =
     (if j < to_int32 (int (length p)) then
        case (if t < 0 then Inr True else same_char p j p t) of
          Inl e \<Rightarrow> Some (Inl e)
        | Inr same \<Rightarrow>
            (if same then
               case set_int_cell vec (j + 1) (t + 1) of
                 Inl e \<Rightarrow> Some (Inl e)
               | Inr vec \<Rightarrow> table_loop p vec (j + 1) (t + 1)
             else case int_cell vec t of Inl e \<Rightarrow> Some (Inl e) | Inr t \<Rightarrow> table_loop p vec j t)
      else Some (Inr vec))"

definition build :: "int list \<Rightarrow> string \<Rightarrow> int list result option" where
  "build vec p =
     (case set_int_cell vec 0 (- 1) of Inl e \<Rightarrow> Some (Inl e) | Inr vec \<Rightarrow> table_loop p vec 0 (- 1))"

partial_function (option) kmp_loop :: "int list \<Rightarrow> string \<Rightarrow> string \<Rightarrow> int \<Rightarrow> int \<Rightarrow> int result option" where
  "kmp_loop ne s p i j =
     (if i < to_int32 (int (length s)) \<and> j < to_int32 (int (length p)) then
        case (if j < 0 then Inr True else same_char s i p j) of
          Inl e \<Rightarrow> Some (Inl e)
        | Inr same \<Rightarrow>
            (if same then kmp_loop ne s p (i + 1) (j + 1)
             else case int_cell ne j of Inl e \<Rightarrow> Some (Inl e) | Inr j \<Rightarrow> kmp_loop ne s p i j)
      else Some (Inr (i - j)))"

definition kmp :: "string \<Rightarrow> string \<Rightarrow> int result option" where
  "kmp s p =
     (case build (replicate (length p) 0) p of
        None \<Rightarrow> None
      | Some (Inl e) \<Rightarrow> Some (Inl e)
      | Some (Inr ne) \<Rightarrow> kmp_loop ne s p 0 (- 1))"

section \<open>Borders\<close>

text \<open>
  A border of the prefix of length \<open>j\<close> is a shorter prefix that is also a suffix of it; the table has the length of the
  longest, and \<open>- 1\<close> for the empty prefix, which has none.
\<close>

definition border :: "'a list \<Rightarrow> nat \<Rightarrow> nat \<Rightarrow> bool" where
  "border p j n \<longleftrightarrow> n < j \<and> suffix (take n p) (take j p)"

definition is_fail :: "'a list \<Rightarrow> nat \<Rightarrow> int \<Rightarrow> bool" where
  "is_fail p j t \<longleftrightarrow> - 1 \<le> t \<and> (0 \<le> t \<longrightarrow> border p j (nat t)) \<and> (\<forall>n. border p j n \<longrightarrow> int n \<le> t)"

lemma border_tl:
  assumes "0 < j" "j \<le> length p"
  shows "border p j n \<longleftrightarrow> n \<le> length p \<and> suffix (take n p) (tl (take j p))"
proof -
  obtain x xs where x: "take j p = x # xs" "length xs = j - 1" using assms by (cases "take j p") (auto dest: arg_cong [of _ _ length])
  have "suffix (take n p) xs" if "suffix (take n p) (x # xs)" "n < j"
  proof -
    have "length (take n p) \<noteq> length (x # xs)" using that(2) x(2) assms by simp
    then have "take n p \<noteq> x # xs" by metis
    then show ?thesis using that(1) by (simp add: suffix_Cons)
  qed
  moreover have "n < j" if "suffix (take n p) xs" "n \<le> length p"
    using suffix_length_le [OF that(1)] that(2) x(2) assms by simp
  ultimately show ?thesis using x(1) assms by (auto simp: border_def suffix_ConsI)
qed

lemma is_fail_0: "is_fail p 0 (- 1)"
  by (simp add: is_fail_def border_def)

lemma is_fail_less: "is_fail p j t \<Longrightarrow> t < int j"
  by (cases "0 \<le> t") (auto simp: is_fail_def border_def)

text \<open>Two matches that end at the same place: the shorter is a border of the longer, and conversely.\<close>

lemma matches_border:
  assumes "suffix (take j p) s" "suffix (take n p) s" "n < j" "j \<le> length p"
  shows "border p j n"
  using suffix_length_suffix [OF assms(2,1)] assms(3,4) by (simp add: border_def)

lemma border_matches: "suffix (take j p) s \<Longrightarrow> border p j n \<Longrightarrow> suffix (take n p) s"
  unfolding border_def by (meson suffix_order.trans)

lemma suffix_snoc_take:
  "n < length p \<Longrightarrow> suffix (take (Suc n) p) (s @ [c]) \<longleftrightarrow> suffix (take n p) s \<and> p ! n = c"
  by (auto simp: take_Suc_conv_app_nth)

declare suffix_snoc [simp del]

section \<open>Scanning\<close>

text \<open>
  Both loops keep the same invariant on the text seen so far and its next character: \<open>j\<close> is a
  match that ends here, and no longer one can be continued by that character.
\<close>

definition scan :: "'a list \<Rightarrow> 'a list \<Rightarrow> 'a \<Rightarrow> int \<Rightarrow> bool" where
  "scan p s c j \<longleftrightarrow> - 1 \<le> j \<and> (0 \<le> j \<longrightarrow> suffix (take (nat j) p) s) \<and>
     (\<forall>n < length p. suffix (take n p) s \<longrightarrow> p ! n = c \<longrightarrow> int n \<le> j)"

lemma scan_start: "scan p [] c 0"
  by (auto simp: scan_def)

lemma scan_longest:
  assumes "scan p s c j" "j < 0 \<or> j < int (length p) \<and> p ! nat j = c"
  shows "suffix (take (nat (j + 1)) p) (s @ [c])" "n \<le> length p \<Longrightarrow> suffix (take n p) (s @ [c]) \<Longrightarrow> int n \<le> j + 1"
proof -
  show "suffix (take (nat (j + 1)) p) (s @ [c])"
  proof (cases "j < 0")
    case False
    then have "nat (j + 1) = Suc (nat j)" "nat j < length p" using assms(2) by auto
    then show ?thesis using assms False by (simp add: suffix_snoc_take scan_def)
  qed (use assms(1) in \<open>auto simp: scan_def\<close>)
  show "int n \<le> j + 1" if "n \<le> length p" "suffix (take n p) (s @ [c])"
    using assms(1) that by (cases n) (auto simp: scan_def suffix_snoc_take)
qed

lemma scan_match:
  assumes "scan p s c j" "j < 0 \<or> j < int (length p) \<and> p ! nat j = c"
  shows "scan p (s @ [c]) d (j + 1)"
  using scan_longest [OF assms] assms(1) by (auto simp: scan_def)

lemma scan_mismatch:
  assumes "scan p s c j" "0 \<le> j" "j < int (length p)" "p ! nat j \<noteq> c" "is_fail p (nat j) t"
  shows "scan p s c t"
proof -
  have j: "suffix (take (nat j) p) s" using assms(1,2) by (simp add: scan_def)
  have "int n \<le> t" if n: "n < length p" "suffix (take n p) s" "p ! n = c" for n
  proof -
    have "n \<noteq> nat j" "int n \<le> j" using assms(1,4) n by (auto simp: scan_def)
    then have "border p (nat j) n" using assms(2-4) j n by (intro matches_border [of _ _ s]) auto
    then show ?thesis using assms(5) by (simp add: is_fail_def)
  qed
  moreover have "suffix (take (nat t) p) s" if "0 \<le> t"
    using border_matches [OF j] assms(5) that by (simp add: is_fail_def)
  ultimately show ?thesis using assms(5) by (simp add: scan_def is_fail_def)
qed

lemma scan_fail:
  assumes "scan p (tl (take j p)) (p ! j) t" "0 < j" "j < length p" "t < 0 \<or> t < int (length p) \<and> p ! nat t = p ! j"
  shows "is_fail p (Suc j) (t + 1)"
proof -
  have s: "tl (take (Suc j) p) = tl (take j p) @ [p ! j]"
    using assms(2,3) by (simp add: take_Suc_conv_app_nth tl_append split: list.splits) auto
  note l = scan_longest [OF assms(1,4), folded s]
  have "- 1 \<le> t" using assms(1) by (simp add: scan_def)
  moreover have "t + 1 \<le> int (length p)" using assms(2-4) by auto
  ultimately show ?thesis using l assms(3) by (auto simp: is_fail_def border_tl)
qed

section \<open>The table\<close>

lemma same_char_in:
  "0 \<le> i \<Longrightarrow> i < int (length s) \<Longrightarrow> 0 \<le> j \<Longrightarrow> j < int (length p) \<Longrightarrow> same_char s i p j = Inr (s ! nat i = p ! nat j)"
  by (simp add: same_char_def char_at_def int_cell_def nth_append nat_less_iff)

definition table_ok :: "string \<Rightarrow> int list \<Rightarrow> nat \<Rightarrow> bool" where
  "table_ok p vec n \<longleftrightarrow> (\<forall>k \<le> n. is_fail p k (vec ! k))"

text \<open>The loop from \<open>j\<close> on: it fills the table, or runs over the end of a vector that is too short.\<close>

lemma table_loop_fills:
  assumes "scan p (tl (take j p)) (p ! j) t" "0 < j" "t < int j" "j \<le> length p" "j < length vec" "table_ok p vec j" "length p < 2 ^ 31"
  shows "if length p < length vec
    then \<exists>vec'. table_loop p vec (int j) t = Some (Inr vec') \<and> length vec' = length vec \<and> table_ok p vec' (length p)
    else table_loop p vec (int j) t = Some (Inl Out_of_bounds)"
  using assms
proof (induction "nat (2 * (int (length p) - int j) + t + 1)" arbitrary: j t vec rule: less_induct)
  case less
  have len: "to_int32 (int (length p)) = int (length p)" using less.prems(7) by (simp add: to_int32_id)
  have t: "- 1 \<le> t" using less.prems(1) by (simp add: scan_def)
  show ?case
  proof (cases "j = length p")
    case True
    then show ?thesis using less.prems by (subst (1 2) table_loop.simps) (simp add: len)
  next
    case False
    then have j: "j < length p" using less.prems(4) by simp
    let ?go = "t < 0 \<or> t < int (length p) \<and> p ! nat t = p ! j"
    have test: "(if t < 0 then Inr True else same_char p (int j) p t) = Inr ?go"
      using j less.prems(3) by (auto simp: same_char_in)
    show ?thesis
    proof (cases ?go)
      case go: True
      show ?thesis
      proof (cases "Suc j < length vec")
        case True
        let ?vec = "vec[Suc j := t + 1]"
        have s: "tl (take (Suc j) p) = tl (take j p) @ [p ! j]"
          using j less.prems(2) by (simp add: take_Suc_conv_app_nth tl_append split: list.splits) auto
        have sc: "scan p (tl (take (Suc j) p)) (p ! Suc j) (t + 1)" unfolding s by (rule scan_match [OF less.prems(1) go])
        have tab: "table_ok p ?vec (Suc j)"
          using scan_fail [OF less.prems(1,2) j go] less.prems(6) True by (auto simp: table_ok_def nth_list_update le_Suc_eq)
        have step: "table_loop p vec (int j) t = table_loop p ?vec (int (Suc j)) (t + 1)"
          using True test go j by (subst table_loop.simps) (simp add: len set_int_cell_def nat_add_distrib add.commute [of 1])
        show ?thesis
          unfolding step using less.hyps [OF _ sc _ _ _ _ tab] less.prems(3,7) j t True by (simp only: length_list_update) simp
      next
        case False
        then show ?thesis using j test go by (subst (1 2) table_loop.simps) (simp add: len set_int_cell_def)
      qed
    next
      case False
      have k: "0 \<le> t" "nat t \<le> j" "int_cell vec t = Inr (vec ! nat t)"
        using False less.prems(3,5) by (auto simp: int_cell_def)
      then have f: "is_fail p (nat t) (vec ! nat t)" using less.prems(6) by (simp add: table_ok_def)
      have lt: "vec ! nat t < t" using is_fail_less [OF f] k by simp
      have "scan p (tl (take j p)) (p ! j) (vec ! nat t)"
        by (rule scan_mismatch [OF less.prems(1) k(1) _ _ f]) (use False less.prems(3) j in auto)
      then show ?thesis
        using less.hyps [of j "vec ! nat t" vec] less.prems lt t k test False j
        by (subst (1 2) table_loop.simps) (simp add: len)
    qed
  qed
qed

lemma table_loop_first:
  assumes "vec \<noteq> []" "p \<noteq> []" "length p < 2 ^ 31"
  shows "table_loop p vec 0 (- 1) =
    (if length vec = 1 then Some (Inl Out_of_bounds) else table_loop p (vec[1 := 0]) 1 0)"
proof -
  have "to_int32 (int (length p)) = int (length p)" using assms(3) by (simp add: to_int32_id)
  moreover have "1 < length vec \<longleftrightarrow> length vec \<noteq> 1" using assms(1) by (cases vec) auto
  ultimately show ?thesis using assms(1,2) by (subst table_loop.simps) (auto simp: set_int_cell_def)
qed

lemma build_spec:
  assumes "length p < 2 ^ 31"
  shows "if length p < length vec
    then \<exists>vec'. build vec p = Some (Inr vec') \<and> length vec' = length vec \<and> table_ok p vec' (length p)
    else build vec p = Some (Inl Out_of_bounds)"
proof (cases "vec = [] \<or> p = []")
  case True
  then show ?thesis using is_fail_0
    by (auto simp: build_def set_int_cell_def table_loop.simps to_int32_def table_ok_def)
next
  case False
  let ?vec = "vec[0 := - 1, 1 := 0]"
  have f: "is_fail p 1 0" using False by (auto simp: is_fail_def border_def)
  have "build vec p = (if length vec = 1 then Some (Inl Out_of_bounds) else table_loop p ?vec (int 1) 0)"
    using table_loop_first [of "vec[0 := - 1]" p] False assms by (simp add: build_def set_int_cell_def)
  moreover have "scan p (tl (take 1 p)) (p ! 1) 0" using scan_start [of p] False by (cases p) simp_all
  moreover have "table_ok p ?vec 1" if "1 < length vec"
    using that f is_fail_0 by (cases vec) (auto simp: table_ok_def nth_list_update le_Suc_eq)
  ultimately show ?thesis
    using table_loop_fills [of p 1 0 ?vec] False assms by (cases "length vec = 1") (auto simp: Suc_le_eq neq_Nil_conv)
qed

section \<open>The search\<close>

text \<open>The pattern stands at position \<open>r\<close> of the text; the search starts behind its first character.\<close>

definition occurs :: "'a list \<Rightarrow> 'a list \<Rightarrow> nat \<Rightarrow> bool" where
  "occurs s p r \<longleftrightarrow> r + length p \<le> length s \<and> take (length p) (drop r s) = p"

lemma suffix_iff_drop: "length l = n + length p \<Longrightarrow> suffix p l \<longleftrightarrow> drop n l = p"
  by (auto simp: suffix_def) (metis append_take_drop_id)

lemma occurs_suffix:
  assumes "i \<le> length s" "r + length p = i" "0 < r"
  shows "occurs s p r \<longleftrightarrow> suffix p (tl (take i s))"
proof -
  have d: "drop (r - 1) (tl (take i s)) = take (length p) (drop r s)"
    using assms by (auto simp: drop_Suc [symmetric] drop_take simp flip: Suc_diff_1)
  have "length (tl (take i s)) = (r - 1) + length p" using assms by simp
  then have "suffix p (tl (take i s)) \<longleftrightarrow> drop (r - 1) (tl (take i s)) = p"
    by (rule suffix_iff_drop)
  then show ?thesis using assms(1,2) d by (simp add: occurs_def)
qed

definition search_result :: "string \<Rightarrow> string \<Rightarrow> int \<Rightarrow> bool" where
  "search_result s p r \<longleftrightarrow> 1 \<le> r \<and> (\<forall>q. 0 < q \<longrightarrow> int q < r \<longrightarrow> \<not> occurs s p q) \<and>
     (occurs s p (nat r) \<or> int (length s) < r + int (length p))"

lemma kmp_loop_searches:
  assumes "scan p (tl (take i s)) (s ! i) j" "0 < i" "i \<le> length s" "j < int i" "j \<le> int (length p)"
    and "\<forall>q. 0 < q \<longrightarrow> q + length p \<le> i \<longrightarrow> occurs s p q \<longrightarrow> j = int (length p) \<and> q + length p = i"
    and "length p \<le> length ne" "\<forall>k < length p. is_fail p k (ne ! k)" "length p < 2 ^ 31" "length s < 2 ^ 31"
  shows "\<exists>r. kmp_loop ne s p (int i) j = Some (Inr r) \<and> search_result s p r"
  using assms
proof (induction "nat (2 * (int (length s) - int i) + j + 1)" arbitrary: i j rule: less_induct)
  case less
  have len: "to_int32 (int (length p)) = int (length p)" "to_int32 (int (length s)) = int (length s)"
    using less.prems(9,10) by (simp_all add: to_int32_id)
  have j: "- 1 \<le> j" using less.prems(1) by (simp add: scan_def)
  show ?case
  proof (cases "i < length s \<and> j < int (length p)")
    case False
    then have e: "kmp_loop ne s p (int i) j = Some (Inr (int i - j))" by (subst kmp_loop.simps) (auto simp: len)
    have "search_result s p (int i - j)"
    proof (cases "j = int (length p)")
      case True
      then have "occurs s p (i - length p)"
        using occurs_suffix [of i s "i - length p" p] less.prems(1-4) by (auto simp: scan_def)
      moreover have "\<not> occurs s p q" if "0 < q" "int q < int i - int (length p)" for q
        using less.prems(6) that by (metis add.commute add_less_cancel_left less_diff_eq nat_less_le of_nat_add of_nat_less_iff)
      ultimately show ?thesis using True less.prems(4) by (simp add: search_result_def nat_diff_distrib)
    next
      case False
      then have "i = length s" using \<open>\<not> (i < length s \<and> j < int (length p))\<close> less.prems(3,5) by auto
      then show ?thesis using False less.prems(4-6) by (force simp: search_result_def occurs_def)
    qed
    with e show ?thesis by blast
  next
    case True
    let ?go = "j < 0 \<or> j < int (length p) \<and> p ! nat j = s ! i"
    have test: "(if j < 0 then Inr True else same_char s (int i) p j) = Inr ?go"
      using True by (auto simp: same_char_in)
    show ?thesis
    proof (cases ?go)
      case go: True
      have s: "tl (take (Suc i) s) = tl (take i s) @ [s ! i]"
        using True less.prems(2) by (simp add: take_Suc_conv_app_nth tl_append split: list.splits) auto
      have sc: "scan p (tl (take (Suc i) s)) (s ! Suc i) (j + 1)" unfolding s by (rule scan_match [OF less.prems(1) go])
      have no: "\<forall>q. 0 < q \<longrightarrow> q + length p \<le> Suc i \<longrightarrow> occurs s p q \<longrightarrow> j + 1 = int (length p) \<and> q + length p = Suc i"
      proof (intro allI impI)
        fix q assume q: "0 < q" "q + length p \<le> Suc i" "occurs s p q"
        have "q + length p = Suc i" using less.prems(6) q True by (auto simp: le_Suc_eq)
        moreover from this have "suffix (take (length p) p) (tl (take i s) @ [s ! i])"
          using occurs_suffix [of "Suc i" s q p] q True by (simp add: s)
        ultimately show "j + 1 = int (length p) \<and> q + length p = Suc i"
          using scan_longest(2) [OF less.prems(1) go, of "length p"] True by simp
      qed
      have step: "kmp_loop ne s p (int i) j = kmp_loop ne s p (int (Suc i)) (j + 1)"
        using True test go by (subst kmp_loop.simps) (simp add: len add.commute [of 1])
      show ?thesis unfolding step by (rule less.hyps [OF _ sc _ _ _ _ no less.prems(7-10)]) (use True less.prems(4) j in auto)
    next
      case False
      have k: "0 \<le> j" "int_cell ne j = Inr (ne ! nat j)" "is_fail p (nat j) (ne ! nat j)"
        using False True less.prems(7,8) by (auto simp: int_cell_def)
      have lt: "ne ! nat j < j" using is_fail_less [OF k(3)] k(1) by simp
      have sc: "scan p (tl (take i s)) (s ! i) (ne ! nat j)"
        by (rule scan_mismatch [OF less.prems(1) k(1) _ _ k(3)]) (use False True in auto)
      have no: "\<forall>q. 0 < q \<longrightarrow> q + length p \<le> i \<longrightarrow> occurs s p q \<longrightarrow> ne ! nat j = int (length p) \<and> q + length p = i"
        using less.prems(6) True by blast
      have step: "kmp_loop ne s p (int i) j = kmp_loop ne s p (int i) (ne ! nat j)"
        using True test False k(2) by (subst kmp_loop.simps) (simp add: len)
      show ?thesis unfolding step
        by (rule less.hyps [OF _ sc _ _ _ _ no less.prems(7-10)]) (use True less.prems(2-5) lt j k in auto)
    qed
  qed
qed

lemma kmp_loop_first:
  assumes "length s < 2 ^ 31" "length p < 2 ^ 31" "s \<noteq> []"
  shows "kmp_loop ne s p 0 (- 1) = kmp_loop ne s p 1 0"
proof -
  have "to_int32 (int (length s)) = int (length s)" "to_int32 (int (length p)) = int (length p)"
    using assms by (simp_all add: to_int32_id)
  then show ?thesis using assms(3) by (subst kmp_loop.simps) simp
qed

lemma kmp_loop_spec:
  assumes "length p \<le> length ne" "\<forall>k < length p. is_fail p k (ne ! k)" "length p < 2 ^ 31" "length s < 2 ^ 31"
  shows "\<exists>r. kmp_loop ne s p 0 (- 1) = Some (Inr r) \<and> search_result s p r"
proof (cases "s = []")
  case True
  then show ?thesis by (subst kmp_loop.simps) (auto simp: to_int32_def search_result_def occurs_def)
next
  case False
  have "scan p (tl (take 1 s)) (s ! 1) 0" using scan_start [of p] False by (cases s) simp_all
  moreover have "0 < q \<Longrightarrow> q + length p \<le> 1 \<Longrightarrow> 0 = int (length p) \<and> q + length p = 1" for q by (cases p) auto
  ultimately show ?thesis
    using kmp_loop_searches [of p 1 s 0 ne] assms kmp_loop_first [OF assms(4,3) False] False by (simp add: Suc_le_eq)
qed

text \<open>
  C39. On every vector \<open>build\<close> ends: with at least one cell more than the pattern has characters it
  fills the table of the longest borders, and the search with that table ends and returns the first
  position, from the second character of the text on, where the pattern stands, or a position from where it
  no longer fits.  On a shorter vector \<open>build\<close> writes behind the end; \<open>kmp\<close> always allocates such a vector.
\<close>

theorem kmp_correct:
  assumes "length p < 2 ^ 31" "length s < 2 ^ 31"
  shows "(if length p < length vec
    then \<exists>vec' r. build vec p = Some (Inr vec') \<and> (\<forall>k \<le> length p. is_fail p k (vec' ! k)) \<and>
      kmp_loop vec' s p 0 (- 1) = Some (Inr r) \<and> search_result s p r
    else build vec p = Some (Inl Out_of_bounds)) \<and>
    kmp s p = Some (Inl Out_of_bounds)"
proof
  show "kmp s p = Some (Inl Out_of_bounds)" using build_spec [OF assms(1), of "replicate (length p) 0"] by (simp add: kmp_def)
  show "if length p < length vec
    then \<exists>vec' r. build vec p = Some (Inr vec') \<and> (\<forall>k \<le> length p. is_fail p k (vec' ! k)) \<and>
      kmp_loop vec' s p 0 (- 1) = Some (Inr r) \<and> search_result s p r
    else build vec p = Some (Inl Out_of_bounds)"
  proof (cases "length p < length vec")
    case True
    then obtain vec' where v: "build vec p = Some (Inr vec')" "length vec' = length vec" "\<forall>k \<le> length p. is_fail p k (vec' ! k)"
      using build_spec [OF assms(1), of vec] by (auto simp: table_ok_def)
    then show ?thesis using kmp_loop_spec [of p vec' s] assms True by auto
  qed (use build_spec [OF assms(1), of vec] in simp)
qed

theorem kmp_correct_witness:
  "\<exists>vec' r. build [0, 0, 0] ''ab'' = Some (Inr vec') \<and> is_fail ''ab'' 2 (vec' ! 2) \<and>
     kmp_loop vec' ''abxab'' ''ab'' 0 (- 1) = Some (Inr r) \<and> search_result ''abxab'' ''ab'' r \<and>
     kmp ''abxab'' ''ab'' = Some (Inl Out_of_bounds)"
  using kmp_correct [of "''ab''" "''abxab''" "[0, 0, 0]"] by auto

end
