(* ===== verification/C_Exercises.thy ===== *)
theory C_Exercises
  imports Sone_Prelude Sone_Steps "HOL-Library.Word"
begin

unbundle bit_operations_syntax

text \<open>
  Four of the C programs beside the server: the permission tool \<^verbatim>\<open>src/io/chmod.c\<close>, the loops around
  \<open>read\<close> and \<open>write\<close> in \<^verbatim>\<open>src/common.c\<close>, and the producer and consumer of
  \<^verbatim>\<open>src/pthread/proc_cons.c\<close>, whose two threads are a step relation; and the counted object of
  \<^verbatim>\<open>src/pthread/main.c\<close>.
\<close>

section \<open>chmod\<close>

text \<open>The permission bits of \<^verbatim>\<open>sys/stat.h\<close>; \<open>mode_t\<close> has 32 bits.\<close>

abbreviation S_IRUSR :: "32 word" where "S_IRUSR \<equiv> 256"
abbreviation S_IWUSR :: "32 word" where "S_IWUSR \<equiv> 128"
abbreviation S_IXUSR :: "32 word" where "S_IXUSR \<equiv> 64"
abbreviation S_IRGRP :: "32 word" where "S_IRGRP \<equiv> 32"
abbreviation S_IWGRP :: "32 word" where "S_IWGRP \<equiv> 16"
abbreviation S_IXGRP :: "32 word" where "S_IXGRP \<equiv> 8"
abbreviation S_IROTH :: "32 word" where "S_IROTH \<equiv> 4"
abbreviation S_IWOTH :: "32 word" where "S_IWOTH \<equiv> 2"
abbreviation S_IXOTH :: "32 word" where "S_IXOTH \<equiv> 1"

definition mode_bits :: "char \<Rightarrow> nat \<Rightarrow> 32 word \<Rightarrow> 32 word" where
  "mode_bits ch i mode =
     (if ch = CHR ''7'' then
        (if i = 1 then mode OR S_IRUSR OR S_IWUSR OR S_IXUSR
         else if i = 2 then mode OR S_IRGRP OR S_IWGRP OR S_IXGRP
         else if i = 3 then mode OR S_IROTH OR S_IWOTH OR S_IXOTH else mode)
      else if ch = CHR ''6'' then
        (if i = 1 then mode OR S_IRUSR OR S_IWUSR
         else if i = 2 then mode OR S_IRGRP OR S_IWGRP
         else if i = 3 then mode OR S_IROTH OR S_IWOTH else mode)
      else if ch = CHR ''5'' then
        (if i = 1 then mode OR S_IRUSR OR S_IXUSR
         else if i = 2 then mode OR S_IRGRP OR S_IXGRP
         else if i = 3 then mode OR S_IROTH OR S_IXOTH else mode)
      else if ch = CHR ''4'' then
        (if i = 1 then mode OR S_IRUSR
         else if i = 2 then mode OR S_IRGRP
         else if i = 3 then mode OR S_IROTH else mode)
      else if ch = CHR ''3'' then
        (if i = 1 then mode OR S_IWUSR OR S_IXUSR
         else if i = 2 then mode OR S_IWGRP OR S_IXGRP
         else if i = 3 then mode OR S_IWOTH OR S_IXOTH else mode)
      else if ch = CHR ''2'' then
        (if i = 1 then mode OR S_IWUSR
         else if i = 2 then mode OR S_IWGRP
         else if i = 3 then mode OR S_IWOTH else mode)
      else if ch = CHR ''1'' then
        (if i = 1 then mode OR S_IXUSR
         else if i = 2 then mode OR S_IXGRP
         else if i = 3 then mode OR S_IXOTH else mode)
      else mode)"

text \<open>The loop: the next character is read, and its pointer advanced, behind each use.\<close>

function chmod_loop :: "string \<Rightarrow> nat \<Rightarrow> char \<Rightarrow> nat \<Rightarrow> 32 word \<Rightarrow> 32 word result" where
  "chmod_loop mode_str pos ch i mode =
     (if i \<le> 3 then
        and_then (cell mode_str pos) (\<lambda>next. chmod_loop mode_str (pos + 1) next (i + 1) (mode_bits ch i mode))
      else Inr mode)"
  by pat_completeness auto
termination by (relation "measure (\<lambda>(_, _, _, i, _). 4 - i)") auto

declare chmod_loop.simps [simp del]

text \<open>The program: nothing with too few arguments, else the mode given to \<open>chmod\<close> and the path.\<close>

definition chmod_main :: "string list \<Rightarrow> (string \<times> 32 word) option result" where
  "chmod_main arg =
     (if length arg < 3 then Inr None
      else let mode_str = arg ! 1 @ [nul] in
        and_then (chmod_loop mode_str 0 (hd mode_str) 1 0) (\<lambda>mode. Inr (Some (arg ! 2, mode))))"

definition octal_digit :: "char \<Rightarrow> bool" where
  "octal_digit c \<longleftrightarrow> c \<in> set ''01234567''"

lemma mode_bits_octal:
  assumes "octal_digit c"
  shows "mode_bits c 1 m = m OR of_nat (64 * digit_val c)" "mode_bits c 2 m = m OR of_nat (8 * digit_val c)"
    "mode_bits c 3 m = m OR of_nat (digit_val c)"
  using assms by (auto simp: octal_digit_def mode_bits_def digit_val_def or.assoc)

text \<open>
  For a mode that starts with two octal digits the program grants the first digit to the owner and again to the
  group, and the second digit to the others: the third digit is never used, so \<open>754\<close> becomes \<open>775\<close>.
\<close>

theorem chmod_shifts_digits:
  assumes "octal_digit a" "octal_digit b"
  shows "chmod_main (prog # (a # b # rest) # path # more) =
    Inr (Some (path, of_nat (64 * digit_val a + 8 * digit_val a + digit_val b)))"
proof -
  have "chmod_main (prog # (a # b # rest) # path # more) =
      Inr (Some (path, of_nat (64 * digit_val a) OR of_nat (8 * digit_val a) OR of_nat (digit_val b)))"
    using mode_bits_octal [OF assms(1)] mode_bits_octal [OF assms(2)]
    by (simp add: chmod_main_def chmod_loop.simps cell_def Let_def or.assoc flip: numeral_2_eq_2 numeral_3_eq_3)
  moreover have "(of_nat (64 * digit_val a) OR of_nat (8 * digit_val a) OR of_nat (digit_val b) :: 32 word) =
      of_nat (64 * digit_val a + 8 * digit_val a + digit_val b)"
    using assms by (auto simp: octal_digit_def digit_val_def)
  ultimately show ?thesis by simp
qed

theorem chmod_shifts_digits_witness:
  "chmod_main [''chmod'', ''754'', ''f''] = Inr (Some (''f'', 509))"
  using chmod_shifts_digits [of "CHR ''7''" "CHR ''5''" "''chmod''" "''4''" "''f''" "[]"]
  by (simp add: octal_digit_def digit_val_def)

section \<open>readn and writen\<close>

text \<open>What a call of \<open>read\<close> or \<open>write\<close> does: it moves some bytes (none at the end of a file), is interrupted, or fails.\<close>

datatype 'a io = Moved 'a | Interrupted | Failed

text \<open>
  \<open>readn\<close> into the memory \<open>mem\<close>, \<open>totRead\<close> bytes of which are filled; the list has what the calls of
  \<open>read\<close> deliver, each up to \<open>n\<close> bytes as it is asked for, and the loop blocks when it is empty.
\<close>

fun readn :: "string io list \<Rightarrow> nat \<Rightarrow> string \<Rightarrow> nat \<Rightarrow> (int \<times> string) result option" where
  "readn calls n mem totRead =
     (if totRead < n then
        case calls of
          [] \<Rightarrow> None
        | Interrupted # calls \<Rightarrow> readn calls n mem totRead
        | Failed # calls \<Rightarrow> Some (Inr (- 1, mem))
        | Moved xs # calls \<Rightarrow>
            (case mem_write mem (int totRead) xs of
               Inl e \<Rightarrow> Some (Inl e)
             | Inr mem \<Rightarrow> if xs = [] then Some (Inr (0, mem)) else readn calls n mem (totRead + length xs))
      else Some (Inr (int totRead, mem)))"

declare readn.simps [simp del]

text \<open>
  \<open>writen\<close>: \<open>totWritten\<close> is not initialised, so its first value is an argument and the pointer into the
  data moves apart from it.  A call of \<open>write\<close> takes some of the bytes it is offered.
\<close>

fun writen :: "nat io list \<Rightarrow> nat \<Rightarrow> string \<Rightarrow> nat \<Rightarrow> string \<Rightarrow> (int \<times> string) result option" where
  "writen calls n buf totWritten sent =
     (if totWritten < n then
        case calls of
          [] \<Rightarrow> None
        | Interrupted # calls \<Rightarrow> writen calls n buf totWritten sent
        | Failed # calls \<Rightarrow> Some (Inr (- 1, sent))
        | Moved k # calls \<Rightarrow>
            (if length buf < n - totWritten then Some (Inl Out_of_bounds)
             else if k = 0 then Some (Inr (int totWritten, sent))
             else writen calls n (drop k buf) (totWritten + k) (sent @ take k buf))
      else Some (Inr (int totWritten, sent)))"

declare writen.simps [simp del]

text \<open>The bytes the calls move before they have moved \<open>n\<close>.\<close>

fun moved :: "string io list \<Rightarrow> string" where
  "moved [] = []"
| "moved (Moved xs # calls) = xs @ moved calls"
| "moved (_ # calls) = moved calls"

definition moves :: "nat \<Rightarrow> string io \<Rightarrow> bool" where
  "moves n c \<longleftrightarrow> (case c of Moved xs \<Rightarrow> xs \<noteq> [] \<and> length xs \<le> n | Interrupted \<Rightarrow> True | Failed \<Rightarrow> False)"

lemma readn_fills:
  assumes "\<forall>c \<in> set calls. moves n c" "length mem = n" "tot \<le> n" "tot + length (moved calls) = n"
  shows "readn calls n mem tot = Some (Inr (int n, take tot mem @ moved calls))"
  using assms
proof (induction calls arbitrary: mem tot)
  case Nil
  then show ?case by (simp add: readn.simps)
next
  case (Cons c calls)
  show ?case
  proof (cases c)
    case (Moved xs)
    let ?mem = "take tot mem @ xs @ drop (tot + length xs) mem"
    have xs: "xs \<noteq> []" "tot + length xs + length (moved calls) = n" using Cons.prems Moved by (auto simp: moves_def)
    then have "mem_write mem (int tot) xs = Inr ?mem" "length ?mem = n" "tot < n" "take (tot + length xs) ?mem = take tot mem @ xs"
      using Cons.prems(2) by (auto simp: mem_write_def nat_add_distrib)
    then show ?thesis using Cons.IH [of ?mem "tot + length xs"] Cons.prems(1) Moved xs by (subst readn.simps) simp
  next
    case Interrupted
    then show ?thesis using Cons by (subst readn.simps) (auto simp: readn.simps)
  qed (use Cons.prems in \<open>simp add: moves_def\<close>)
qed

lemma readn_overflows:
  assumes "\<forall>c \<in> set calls. moves n c" "length mem = n" "tot + length (moved calls) < n" "n < tot + length (moved calls) + length xs"
  shows "readn (calls @ Moved xs # more) n mem tot = Some (Inl Out_of_bounds)"
  using assms
proof (induction calls arbitrary: mem tot)
  case Nil
  then show ?case by (subst readn.simps) (simp add: mem_write_def)
next
  case (Cons c calls)
  show ?case
  proof (cases c)
    case (Moved ys)
    let ?mem = "take tot mem @ ys @ drop (tot + length ys) mem"
    have "mem_write mem (int tot) ys = Inr ?mem" "length ?mem = n" "tot < n" "ys \<noteq> []"
      using Cons.prems Moved by (auto simp: mem_write_def nat_add_distrib moves_def)
    then show ?thesis using Cons.IH [of ?mem "tot + length ys"] Cons.prems Moved by (subst readn.simps) simp
  next
    case Interrupted
    then show ?thesis using Cons by (subst readn.simps) auto
  qed (use Cons.prems in \<open>simp add: moves_def\<close>)
qed

text \<open>
  Into a buffer of \<open>n\<close> bytes \<open>readn\<close> returns exactly the bytes of its calls when these end at
  \<open>n\<close>; but every call asks for \<open>n\<close> bytes again, and one that delivers more than is missing writes
  behind the buffer.
\<close>

theorem readn_correct:
  assumes "\<forall>c \<in> set calls. moves n c" "length mem = n"
  shows "length (moved calls) = n \<Longrightarrow> readn calls n mem 0 = Some (Inr (int n, moved calls))"
    "length (moved calls) < n \<Longrightarrow> n < length (moved calls) + length xs \<Longrightarrow>
       readn (calls @ Moved xs # more) n mem 0 = Some (Inl Out_of_bounds)"
  using readn_fills [OF assms, of 0] readn_overflows [OF assms, of 0 xs more] by simp_all

text \<open>
  The bytes \<open>writen\<close> sends: with every call taking all it is offered, only what lies beyond the value the
  uninitialised counter happened to have.
\<close>

lemma writen_starts_anywhere:
  assumes "length buf = n"
  shows "writen [Moved (n - tot)] n buf tot [] =
    Some (Inr (if tot < n then (int n, take (n - tot) buf) else (int tot, [])))"
  using assms by (auto simp: writen.simps)

section \<open>Producer and consumer\<close>

text \<open>
  The shared variables of the two threads, who of them waits on its condition variable, and the numbers the consumer
  has printed.  A call of \<open>produce\<close> or \<open>consum\<close> holds the lock from its test to its end or to the wait, so
  each is one step; a woken thread takes the lock and tests again, and may be woken without a signal.
\<close>

record shared =
  sh_buf :: "int list"
  proc_index :: nat
  cons_index :: nat
  sh_ind :: int
  waits_notfull :: bool
  waits_notempty :: bool
  printed :: "int list"

definition BUF :: nat where
  "BUF = 1024"

definition shared_start :: "shared \<Rightarrow> bool" where
  "shared_start s \<longleftrightarrow> s = \<lparr>sh_buf = replicate BUF (- 1), proc_index = 0, cons_index = 0, sh_ind = 0,
     waits_notfull = False, waits_notempty = False, printed = []\<rparr>"

definition next_index :: "nat \<Rightarrow> nat" where
  "next_index i = (if i + 1 = BUF then 0 else i + 1)"

definition produce :: "shared \<Rightarrow> shared result" where
  "produce s = and_then (cell (sh_buf s) (proc_index s)) (\<lambda>x.
     Inr (if x \<noteq> - 1 then s\<lparr>waits_notfull := True\<rparr>
          else s\<lparr>sh_buf := (sh_buf s)[proc_index s := sh_ind s], sh_ind := sh_ind s + 1,
                 proc_index := next_index (proc_index s), waits_notempty := False\<rparr>))"

text \<open>The statement \<open>buf[cons_index] == -1;\<close> compares and changes nothing.\<close>

definition consum :: "shared \<Rightarrow> shared result" where
  "consum s = and_then (cell (sh_buf s) (cons_index s)) (\<lambda>x.
     Inr (if proc_index s = cons_index s \<and> x = - 1 then s\<lparr>waits_notempty := True\<rparr>
          else s\<lparr>printed := printed s @ [x], cons_index := next_index (cons_index s), waits_notfull := False\<rparr>))"

inductive thread_step :: "shared \<Rightarrow> shared \<Rightarrow> bool" where
  producer: "\<not> waits_notfull s \<Longrightarrow> produce s = Inr t \<Longrightarrow> thread_step s t"
| consumer: "\<not> waits_notempty s \<Longrightarrow> consum s = Inr t \<Longrightarrow> thread_step s t"
| wake_producer: "thread_step s (s\<lparr>waits_notfull := False\<rparr>)"
| wake_consumer: "thread_step s (s\<lparr>waits_notempty := False\<rparr>)"

interpretation pc: transitions shared_start thread_step .

text \<open>The cells behind the producer keep their numbers for ever.\<close>

definition shared_inv :: "shared \<Rightarrow> bool" where
  "shared_inv s \<longleftrightarrow> (\<exists>n \<le> BUF. sh_ind s = int n \<and> sh_buf s = map int [0..<n] @ replicate (BUF - n) (- 1) \<and>
     proc_index s = n mod BUF \<and> (length (printed s) \<le> n \<or> n = BUF)) \<and>
     cons_index s = length (printed s) mod BUF \<and>
     printed s = map (\<lambda>i. int (i mod BUF)) [0..<length (printed s)]"

lemma next_index_mod: "next_index (n mod BUF) = Suc n mod BUF"
  by (simp add: next_index_def mod_Suc)

lemma BUF_pos: "0 < BUF"
  by (simp add: BUF_def)

lemma shared_inv_start: "shared_start s \<Longrightarrow> shared_inv s"
  using BUF_pos by (auto simp: shared_start_def shared_inv_def)

lemma filled_update:
  "n < m \<Longrightarrow> (map int [0..<n] @ replicate (m - n) (- 1))[n := int n] = map int [0..<Suc n] @ replicate (m - Suc n) (- 1)"
  by (simp add: list_update_append Suc_diff_Suc flip: replicate_Suc) (cases "m - n"; simp)

lemma produce_inv:
  assumes "shared_inv s"
  shows "\<exists>t. produce s = Inr t \<and> shared_inv t \<and> (sh_ind s = int BUF \<longrightarrow> t = s\<lparr>waits_notfull := True\<rparr>) \<and>
    (sh_ind s \<noteq> int BUF \<longrightarrow> sh_ind t = sh_ind s + 1)"
proof -
  obtain n where n: "n \<le> BUF" "sh_ind s = int n" "sh_buf s = map int [0..<n] @ replicate (BUF - n) (- 1)"
      "proc_index s = n mod BUF" "length (printed s) \<le> n \<or> n = BUF"
    using assms by (auto simp: shared_inv_def)
  show ?thesis
  proof (cases "n = BUF")
    case True
    then have "produce s = Inr (s\<lparr>waits_notfull := True\<rparr>)" using n BUF_pos by (simp add: produce_def cell_def)
    then show ?thesis using assms True n(2) by (simp add: shared_inv_def)
  next
    case False
    then have l: "n < BUF" using n(1) by simp
    then have "produce s = Inr (s\<lparr>sh_buf := map int [0..<Suc n] @ replicate (BUF - Suc n) (- 1), sh_ind := int (Suc n),
        proc_index := Suc n mod BUF, waits_notempty := False\<rparr>)"
      using n filled_update [OF l] next_index_mod [of n] by (simp add: produce_def cell_def nth_append)
    then show ?thesis using assms n l by (auto simp: shared_inv_def intro!: exI [of _ "Suc n"])
  qed
qed

lemma consum_inv:
  assumes "shared_inv s"
  shows "\<exists>t. consum s = Inr t \<and> shared_inv t \<and>
    (if int (length (printed s)) = sh_ind s \<and> sh_ind s < int BUF then t = s\<lparr>waits_notempty := True\<rparr>
     else sh_ind t = sh_ind s \<and> printed t = printed s @ [int (length (printed s) mod BUF)])"
proof -
  obtain n where n: "n \<le> BUF" "sh_ind s = int n" "sh_buf s = map int [0..<n] @ replicate (BUF - n) (- 1)"
      "proc_index s = n mod BUF" "length (printed s) \<le> n \<or> n = BUF"
    and p: "cons_index s = length (printed s) mod BUF" "printed s = map (\<lambda>i. int (i mod BUF)) [0..<length (printed s)]"
    using assms by (auto simp: shared_inv_def)
  let ?m = "length (printed s)"
  show ?thesis
  proof (cases "?m = n \<and> n < BUF")
    case True
    then have "consum s = Inr (s\<lparr>waits_notempty := True\<rparr>)" using n p(1) by (simp add: consum_def cell_def nth_append)
    then show ?thesis using assms True n(2) by (simp add: shared_inv_def)
  next
    case False
    then have l: "?m mod BUF < n" using n(1,5) BUF_pos by (metis le_neq_implies_less mod_less mod_less_divisor order.strict_trans2)
    let ?t = "s\<lparr>printed := printed s @ [int (?m mod BUF)], cons_index := Suc ?m mod BUF, waits_notfull := False\<rparr>"
    have "sh_buf s ! (?m mod BUF) = int (?m mod BUF)" using l n(3) by (simp add: nth_append)
    then have "consum s = Inr ?t" using l n(1,3) p(1) next_index_mod [of ?m] by (simp add: consum_def cell_def)
    moreover have "shared_inv ?t"
      using n p False by (auto simp: shared_inv_def intro!: exI [of _ n])
    ultimately show ?thesis using False n(2) by auto
  qed
qed

lemma reachable_inv: "pc.reachable s \<Longrightarrow> shared_inv s"
proof (erule pc.invariantI [where I = shared_inv])
  fix s t assume i: "shared_inv s" "thread_step s t"
  from i(2) show "shared_inv t"
  proof cases
    case producer
    then show ?thesis using produce_inv [OF i(1)] by auto
  next
    case consumer
    then show ?thesis using consum_inv [OF i(1)] by auto
  qed (use i(1) in \<open>simp_all add: shared_inv_def\<close>)
qed (rule shared_inv_start)

text \<open>Schedules that reach every count.\<close>

lemma reach_produced: "n \<le> BUF \<Longrightarrow> \<exists>s. pc.reachable s \<and> sh_ind s = int n \<and> printed s = []"
proof (induction n)
  case 0
  obtain s where s: "shared_start s" by (simp add: shared_start_def)
  then have "sh_ind s = int 0" "printed s = []" by (simp_all add: shared_start_def)
  with pc.initial [OF s] show ?case by blast
next
  case (Suc n)
  then obtain s where s: "pc.reachable s" "sh_ind s = int n" "printed s = []" by auto
  let ?s = "s\<lparr>waits_notfull := False\<rparr>"
  have r: "pc.reachable ?s" using pc.further [OF s(1) wake_producer] .
  from produce_inv [OF reachable_inv [OF r]] s Suc.prems obtain t where "produce ?s = Inr t" "sh_ind t = int (Suc n)"
    by auto
  moreover have "printed t = []" using \<open>produce ?s = Inr t\<close> s(3) by (auto simp: produce_def cell_def split: if_splits)
  ultimately show ?case using pc.further [OF r producer] by auto
qed

lemma reach_printed: "\<exists>s. pc.reachable s \<and> sh_ind s = int BUF \<and> length (printed s) = m"
proof (induction m)
  case 0
  then show ?case using reach_produced [of BUF] by auto
next
  case (Suc m)
  then obtain s where s: "pc.reachable s" "sh_ind s = int BUF" "length (printed s) = m" by auto
  let ?s = "s\<lparr>waits_notempty := False\<rparr>"
  have r: "pc.reachable ?s" using pc.further [OF s(1) wake_consumer] .
  from consum_inv [OF reachable_inv [OF r]] s obtain t where
    "consum ?s = Inr t" "sh_ind t = int BUF" "length (printed t) = Suc m" by auto
  then show ?case using pc.further [OF r consumer] by auto
qed

text \<open>
  Because the consumer compares instead of clearing the cell it has read, the producer makes exactly the numbers
  below 1024 and then waits whenever it runs.  In every interleaving the numbers the consumer prints are 0 to 1023 in
  order, over and over: it never prints a number that was not made yet, but once all cells are filled it
  never waits again, and there are runs in which it has printed any count of numbers.
\<close>

theorem consumer_repeats:
  "(\<forall>s. pc.reachable s \<longrightarrow>
      0 \<le> sh_ind s \<and> sh_ind s \<le> int BUF \<and>
      printed s = map (\<lambda>i. int (i mod BUF)) [0..<length (printed s)] \<and>
      (int (length (printed s)) \<le> sh_ind s \<or> sh_ind s = int BUF) \<and>
      (sh_ind s = int BUF \<longrightarrow> produce s = Inr (s\<lparr>waits_notfull := True\<rparr>) \<and>
         (\<exists>t. consum s = Inr t \<and> length (printed t) = Suc (length (printed s))))) \<and>
   (\<forall>m. \<exists>s. pc.reachable s \<and> length (printed s) = m)"
proof (intro conjI allI impI)
  fix s assume "pc.reachable s"
  then have i: "shared_inv s" by (rule reachable_inv)
  then show "0 \<le> sh_ind s" "sh_ind s \<le> int BUF" "int (length (printed s)) \<le> sh_ind s \<or> sh_ind s = int BUF"
    by (auto simp: shared_inv_def)
  show "printed s = map (\<lambda>i. int (i mod BUF)) [0..<length (printed s)]" using i by (simp add: shared_inv_def)
  assume full: "sh_ind s = int BUF"
  show "produce s = Inr (s\<lparr>waits_notfull := True\<rparr>)" using produce_inv [OF i] full by auto
  show "\<exists>t. consum s = Inr t \<and> length (printed t) = Suc (length (printed s))" using consum_inv [OF i] full by auto
qed (use reach_printed in blast)

theorem consumer_repeats_witness:
  "\<exists>s. pc.reachable s \<and> length (printed s) = 1025 \<and> printed s ! 0 = 0 \<and> printed s ! 1024 = 0"
proof -
  obtain s where s: "pc.reachable s" "length (printed s) = 1025" using consumer_repeats by blast
  then have p: "printed s = map (\<lambda>i. int (i mod BUF)) [0..<1025]" using consumer_repeats by metis
  have "printed s ! 0 = 0" "printed s ! 1024 = 0" unfolding p by (subst nth_map; simp add: BUF_def del: upt_rec_numeral)+
  with s show ?thesis by blast
qed

section \<open>A counted object\<close>

text \<open>
  The object of \<^verbatim>\<open>src/pthread/main.c\<close>: its count and its lock, or nothing once it is freed.  \<open>None\<close> as a result of a
  call is a thread that waits for the lock for ever.
\<close>

record st =
  st_id :: int
  st_count :: int
  st_locked :: bool

type_synonym pst = "st option"

definition init_stat :: pst where
  "init_stat = Some \<lparr>st_id = 1, st_count = 0, st_locked = False\<rparr>"

definition lock_stat :: "pst \<Rightarrow> st result option" where
  "lock_stat p = (case p of None \<Rightarrow> Some (Inl Use_after_free) | Some s \<Rightarrow> if st_locked s then None else Some (Inr (s\<lparr>st_locked := True\<rparr>)))"

definition hold_stat :: "pst \<Rightarrow> pst result option" where
  "hold_stat p =
     (case lock_stat p of
        None \<Rightarrow> None
      | Some (Inl e) \<Rightarrow> Some (Inl e)
      | Some (Inr s) \<Rightarrow> Some (Inr (Some (s\<lparr>st_count := st_count s + 1, st_locked := False\<rparr>))))"

definition release_stat :: "pst \<Rightarrow> pst result option" where
  "release_stat p =
     (case lock_stat p of
        None \<Rightarrow> None
      | Some (Inl e) \<Rightarrow> Some (Inl e)
      | Some (Inr s) \<Rightarrow>
          Some (Inr (if st_count s = 0 then Some s
                     else let s = s\<lparr>st_count := st_count s - 1\<rparr> in
                       if st_count s = 0 then None else Some (s\<lparr>st_locked := False\<rparr>))))"

text \<open>The calls of all threads in the order they get the lock.\<close>

datatype stat_call = Hold | Release

fun stat_calls :: "stat_call list \<Rightarrow> pst \<Rightarrow> pst result option" where
  "stat_calls [] p = Some (Inr p)"
| "stat_calls (c # cs) p =
     (case (if c = Hold then hold_stat p else release_stat p) of
        None \<Rightarrow> None
      | Some (Inl e) \<Rightarrow> Some (Inl e)
      | Some (Inr p) \<Rightarrow> stat_calls cs p)"

lemma stat_calls_append:
  "stat_calls (cs @ ds) p =
     (case stat_calls cs p of None \<Rightarrow> None | Some (Inl e) \<Rightarrow> Some (Inl e) | Some (Inr p) \<Rightarrow> stat_calls ds p)"
  by (induction cs arbitrary: p) (auto split: option.splits sum.splits)

definition counted :: "nat \<Rightarrow> pst" where
  "counted n = Some \<lparr>st_id = 1, st_count = int n, st_locked = False\<rparr>"

lemma counted_step:
  "hold_stat (counted m) = Some (Inr (counted (Suc m)))"
  "release_stat (counted (Suc (Suc m))) = Some (Inr (counted (Suc m)))"
  "release_stat (counted (Suc 0)) = Some (Inr None)"
  by (simp_all add: hold_stat_def release_stat_def lock_stat_def counted_def Let_def)

lemma stat_calls_holds: "stat_calls (replicate n Hold) (counted m) = Some (Inr (counted (m + n)))"
  by (induction n arbitrary: m) (simp_all add: counted_step)

lemma stat_calls_releases: "stat_calls (replicate n Release) (counted (Suc n)) = Some (Inr (counted (Suc 0)))"
  by (induction n) (simp_all add: counted_step)

text \<open>
  When every hold comes before the releases, the object is freed by the last of as many releases, and one call more
  uses freed memory.  A release that comes first finds the count at zero and returns with the lock taken: the next call
  of any thread waits for ever.
\<close>

theorem counted_object:
  "stat_calls (replicate (Suc n) Hold @ replicate (Suc n) Release) init_stat = Some (Inr None) \<and>
   stat_calls (replicate (Suc n) Hold @ replicate (Suc n) Release @ [c]) init_stat = Some (Inl Use_after_free) \<and>
   stat_calls (Release # c # cs) init_stat = None"
proof -
  have i: "init_stat = counted 0" by (simp add: init_stat_def counted_def)
  have r: "replicate (Suc n) Release = replicate n Release @ [Release]" by (simp add: replicate_append_same)
  have "stat_calls (replicate (Suc n) Hold) init_stat = Some (Inr (counted (Suc n)))"
    unfolding i using stat_calls_holds [of "Suc n" 0] by simp
  then have h: "stat_calls (replicate (Suc n) Hold @ replicate (Suc n) Release) init_stat = Some (Inr None)"
    unfolding r by (simp only: stat_calls_append option.case sum.case stat_calls_releases) (simp add: counted_step)
  then have "stat_calls ((replicate (Suc n) Hold @ replicate (Suc n) Release) @ [c]) init_stat = Some (Inl Use_after_free)"
    by (simp only: stat_calls_append [of "_ @ _"] option.case sum.case) (simp add: hold_stat_def release_stat_def lock_stat_def)
  then show ?thesis using h
    by (simp add: init_stat_def hold_stat_def release_stat_def lock_stat_def Let_def)
qed

end
