(* ===== verification/Chat_Room.thy ===== *)
theory Chat_Room
  imports Sone_Prelude
begin

text \<open>
  The chat room of \<^verbatim>\<open>src/chatroom\<close>: the packets of \<^verbatim>\<open>struct_data.h\<close> as bytes, the server that logs
  clients in and passes their messages on (\<^verbatim>\<open>server.cpp\<close>), and the client (\<^verbatim>\<open>client.cpp\<close>).  The
  buffers are arrays of 4096 bytes, the states of the clients live in a store of addresses, and what
  \<open>read\<close> and \<open>open\<close> return are arguments.  What is written to a descriptor is recorded in order.
\<close>

section \<open>Packets\<close>

definition LOG :: nat where "LOG = 0"

definition TRANSLATE :: nat where "TRANSLATE = 1"

definition LOGSIZE :: nat where "LOGSIZE = 12"

definition TRANSIZE :: nat where "TRANSIZE = 108"

definition BUFFSIZE :: nat where "BUFFSIZE = 4096"

text \<open>A \<open>PROTOCOL_ID\<close> is copied as four bytes, least significant first.\<close>

fun le_value :: "string \<Rightarrow> nat" where
  "le_value [] = 0"
| "le_value (c # cs) = of_char c + 256 * le_value cs"

definition id_bytes :: "nat \<Rightarrow> string" where
  "id_bytes n = [char_of n, nul, nul, nul]"

definition read_id :: "string \<Rightarrow> nat \<Rightarrow> nat result" where
  "read_id mem fin = and_then (mem_read mem (int fin) (int (fin + 4))) (\<lambda>bs. Inr (le_value bs))"

text \<open>
  The login packet: the id, a \<open>bool\<close>, four bytes of identity and three of padding.  The message packet: the id, the source and a
  hundred bytes of data.
\<close>

record log_packet =
  log_status :: bool
  identity :: string

definition log_of_bytes :: "string \<Rightarrow> log_packet" where
  "log_of_bytes bs = \<lparr>log_status = (bs ! 4 \<noteq> nul), identity = take 4 (drop 5 bs)\<rparr>"

record translate_packet =
  src :: string
  data :: string

definition translate_of_bytes :: "string \<Rightarrow> translate_packet" where
  "translate_of_bytes bs = \<lparr>src = take 4 (drop 4 bs), data = take 100 (drop 8 bs)\<rparr>"

definition translate_bytes :: "translate_packet \<Rightarrow> string" where
  "translate_bytes t = id_bytes TRANSLATE @ src t @ data t"

definition read_log :: "string \<Rightarrow> nat \<Rightarrow> log_packet result" where
  "read_log mem fin = and_then (mem_read mem (int fin) (int (fin + LOGSIZE))) (\<lambda>bs. Inr (log_of_bytes bs))"

definition read_translate :: "string \<Rightarrow> nat \<Rightarrow> translate_packet result" where
  "read_translate mem fin = and_then (mem_read mem (int fin) (int (fin + TRANSIZE))) (\<lambda>bs. Inr (translate_of_bytes bs))"

text \<open>A character array given to a stream or to \<open>strcmp\<close> is read up to its NUL, and out of bounds without one.\<close>

definition array_str :: "string \<Rightarrow> string result" where
  "array_str bs = (if nul \<in> set bs then Inr (c_str bs) else Inl Out_of_bounds)"

fun strcmp_eq :: "string \<Rightarrow> string \<Rightarrow> bool result" where
  "strcmp_eq (x # xs) (y # ys) = (if x \<noteq> y then Inr False else if x = nul then Inr True else strcmp_eq xs ys)"
| "strcmp_eq _ _ = Inl Out_of_bounds"

section \<open>The server\<close>

record status =
  pri_fifo :: int
  st_name :: string
  online :: bool

record server =
  cli_statlist :: "nat list"
  ser_fifo :: int
  recvbuf :: string
  sendbuf :: string
  datarecv :: string
  statuses :: "nat \<rightharpoonup> status"
  next_addr :: nat
  wrote :: "(int \<times> string) list"

definition status_at :: "server \<Rightarrow> nat \<Rightarrow> status result" where
  "status_at s a = (case statuses s a of None \<Rightarrow> Inl Use_after_free | Some st \<Rightarrow> Inr st)"

text \<open>\<open>find\<close>: the first client of that name, its place and its address.\<close>

fun find_from :: "server \<Rightarrow> string \<Rightarrow> nat \<Rightarrow> nat list \<Rightarrow> (nat \<times> nat) option result" where
  "find_from s nm i [] = Inr None"
| "find_from s nm i (a # as) =
     and_then (status_at s a) (\<lambda>st.
     and_then (strcmp_eq nm (st_name st)) (\<lambda>eq.
       if eq then Inr (Some (i, a)) else find_from s nm (i + 1) as))"

definition find :: "server \<Rightarrow> string \<Rightarrow> (nat \<times> nat) option result" where
  "find s nm = find_from s nm 0 (cli_statlist s)"

definition getSerFifo :: "server \<Rightarrow> string \<Rightarrow> int result" where
  "getSerFifo s nm = and_then (find s nm) (\<lambda>r. Inr (case r of None \<Rightarrow> - 1 | Some _ \<Rightarrow> ser_fifo s))"

text \<open>
  A login.  A new client is described by the variable \<open>newcli\<close> of an inner block, whose address is stored;
  the variable ends with the block.
\<close>

definition newcli_block :: "(string \<Rightarrow> int) \<Rightarrow> log_packet \<Rightarrow> server \<Rightarrow> server result" where
  "newcli_block open_fd l s =
     and_then (array_str (identity l)) (\<lambda>nm.
       let a = next_addr s;
           newcli = \<lparr>pri_fifo = open_fd nm, st_name = identity l, online = True\<rparr>;
           s = s\<lparr>statuses := (statuses s)(a \<mapsto> newcli), next_addr := a + 1\<rparr>;
           s = s\<lparr>cli_statlist := cli_statlist s @ [a]\<rparr>
       in Inr (s\<lparr>statuses := (statuses s)(a := None)\<rparr>))"

definition known_client :: "log_packet \<Rightarrow> nat \<Rightarrow> nat \<Rightarrow> server \<Rightarrow> server result" where
  "known_client l index cli s =
     (if \<not> log_status l then
        and_then (array_str (identity l)) (\<lambda>_.
          Inr (s\<lparr>cli_statlist := take index (cli_statlist s) @ drop (index + 1) (cli_statlist s)\<rparr>))
      else and_then (status_at s cli) (\<lambda>st.
        Inr (s\<lparr>statuses := (statuses s)(cli \<mapsto> st\<lparr>online := log_status l, st_name := identity l\<rparr>)\<rparr>)))"

definition log_case :: "(string \<Rightarrow> int) \<Rightarrow> log_packet \<Rightarrow> server \<Rightarrow> server result" where
  "log_case open_fd l s = and_then (find s (identity l)) (\<lambda>r.
     case r of None \<Rightarrow> newcli_block open_fd l s | Some (index, cli) \<Rightarrow> known_client l index cli s)"

text \<open>The loop of \<open>parse\<close> over the received bytes, which leaves the buffer itself alone.\<close>

function parse_from :: "(string \<Rightarrow> int) \<Rightarrow> string \<Rightarrow> nat \<Rightarrow> nat \<Rightarrow> server \<Rightarrow> server result" where
  "parse_from open_fd buf len fin s =
     (if fin \<noteq> len then
        and_then (read_id buf fin) (\<lambda>id.
          if id = LOG then
            and_then (read_log buf fin) (\<lambda>l.
            and_then (log_case open_fd l s) (\<lambda>s. parse_from open_fd buf len (fin + LOGSIZE) s))
          else Inr s)
      else Inr s)"
  by pat_completeness auto
termination
  by (relation "measure (\<lambda>(_, buf, _, fin, _). length buf + 1 - fin)")
    (auto simp: read_log_def mem_read_def LOGSIZE_def split: if_splits)

declare parse_from.simps [simp del]

definition server_parse :: "(string \<Rightarrow> int) \<Rightarrow> nat \<Rightarrow> server \<Rightarrow> server result" where
  "server_parse open_fd len s = parse_from open_fd (recvbuf s) len 0 s"

text \<open>A message is written to every client but its source.\<close>

fun send_others :: "server \<Rightarrow> string \<Rightarrow> nat option \<Rightarrow> nat list \<Rightarrow> server result" where
  "send_others s t cli_src [] = Inr s"
| "send_others s t cli_src (a # as) =
     (if cli_src \<noteq> Some a then
        and_then (status_at s a) (\<lambda>st. send_others (s\<lparr>wrote := wrote s @ [(pri_fifo st, t)]\<rparr>) t cli_src as)
      else send_others s t cli_src as)"

function parsedata_from :: "string \<Rightarrow> nat \<Rightarrow> nat \<Rightarrow> server \<Rightarrow> server result" where
  "parsedata_from buf len fin s =
     (if fin \<noteq> len then
        and_then (read_id buf fin) (\<lambda>id.
          if id = TRANSLATE then
            and_then (mem_read buf (int fin) (int (fin + TRANSIZE))) (\<lambda>bs.
            and_then (find s (src (translate_of_bytes bs))) (\<lambda>r.
            and_then (send_others s bs (map_option snd r) (cli_statlist s)) (\<lambda>s.
              parsedata_from buf len (fin + TRANSIZE) s)))
          else Inr s)
      else Inr s)"
  by pat_completeness auto
termination
  by (relation "measure (\<lambda>(buf, _, fin, _). length buf + 1 - fin)")
    (auto simp: mem_read_def TRANSIZE_def split: if_splits)

declare parsedata_from.simps [simp del]

definition parsedata :: "nat \<Rightarrow> server \<Rightarrow> server result" where
  "parsedata len s = parsedata_from (datarecv s) len 0 s"

text \<open>
  One pass of the loop in \<open>start\<close>: the input of the common pipe, then that of every client, then both buffers
  are cleared.  \<open>None\<close> is a read that returned \<open>- 1\<close>.
\<close>

fun read_clients :: "(nat \<Rightarrow> string option) \<Rightarrow> nat \<Rightarrow> nat list \<Rightarrow> server \<Rightarrow> server result" where
  "read_clients inp i [] s = Inr s"
| "read_clients inp i (a # as) s =
     and_then (status_at s a) (\<lambda>_.
       case inp i of
         None \<Rightarrow> read_clients inp (i + 1) as s
       | Some xs \<Rightarrow>
           and_then (mem_write (datarecv s) 0 xs) (\<lambda>mem.
           and_then (parsedata (length xs) (s\<lparr>datarecv := mem\<rparr>)) (read_clients inp (i + 1) as)))"

definition server_pass :: "(string \<Rightarrow> int) \<Rightarrow> string option \<Rightarrow> (nat \<Rightarrow> string option) \<Rightarrow> server \<Rightarrow> server result" where
  "server_pass open_fd common inp s =
     and_then
       (case common of
          None \<Rightarrow> Inr s
        | Some xs \<Rightarrow>
            and_then (mem_write (recvbuf s) 0 xs) (\<lambda>mem. server_parse open_fd (length xs) (s\<lparr>recvbuf := mem\<rparr>)))
       (\<lambda>s. and_then (read_clients inp 0 (cli_statlist s) s) (\<lambda>s.
         Inr (s\<lparr>recvbuf := replicate BUFFSIZE nul, datarecv := replicate BUFFSIZE nul\<rparr>)))"

definition server_new :: "int \<Rightarrow> string \<Rightarrow> server" where
  "server_new fd junk = \<lparr>cli_statlist = [], ser_fifo = fd, recvbuf = replicate BUFFSIZE nul,
     sendbuf = replicate BUFFSIZE nul, datarecv = junk, statuses = Map.empty, next_addr = 0, wrote = []\<rparr>"

text \<open>The endless loop of \<open>start\<close>, as far as the given inputs of its passes go.\<close>

fun server_run :: "(string \<Rightarrow> int) \<Rightarrow> (string option \<times> (nat \<Rightarrow> string option)) list \<Rightarrow> server \<Rightarrow> server result" where
  "server_run open_fd [] s = Inr s"
| "server_run open_fd ((common, inp) # ins) s = and_then (server_pass open_fd common inp s) (server_run open_fd ins)"

section \<open>The client\<close>

record client =
  cl_fifo :: int
  cl_name :: string
  cl_online :: bool
  serfifo :: int
  ser_recv :: string
  std_recv :: string
  cl_wrote :: "(int \<times> string) list"
  screen :: "(string \<times> string) list"

definition log_bytes :: "bool \<Rightarrow> string \<Rightarrow> string \<Rightarrow> string" where
  "log_bytes status nm pad = id_bytes LOG @ [char_of (of_bool status :: nat)] @ nm @ pad"

text \<open>\<open>login\<close>: \<open>res\<close> is what \<open>write\<close> returned, \<open>pad\<close> what the stack had in the padding of the packet.\<close>

definition login :: "int \<Rightarrow> string \<Rightarrow> bool \<Rightarrow> client \<Rightarrow> bool \<times> client" where
  "login res pad status c =
     (let c = c\<lparr>cl_wrote := cl_wrote c @ [(serfifo c, log_bytes status (cl_name c) pad)]\<rparr> in
      if res = - 1 then (False, c)
      else if res = int LOGSIZE then (True, c\<lparr>cl_online := status\<rparr>)
      else (False, c))"

text \<open>\<open>parse\<close>: a packet of another kind leaves the index where it is, and the loop goes on for ever.\<close>

partial_function (option) client_parse_from :: "string \<Rightarrow> nat \<Rightarrow> nat \<Rightarrow> (string \<times> string) list \<Rightarrow> (string \<times> string) list result option" where
  "client_parse_from buf len fin out =
     (if fin \<noteq> len then
        case read_id buf fin of
          Inl e \<Rightarrow> Some (Inl e)
        | Inr pid \<Rightarrow>
            (if pid = TRANSLATE then
               case and_then (read_translate buf fin) (\<lambda>t.
                      and_then (array_str (src t)) (\<lambda>x. and_then (array_str (data t)) (\<lambda>y. Inr (x, y)))) of
                 Inl e \<Rightarrow> Some (Inl e)
               | Inr line \<Rightarrow> client_parse_from buf len (fin + TRANSIZE) (out @ [line])
             else client_parse_from buf len fin out)
      else Some (Inr out))"

definition client_parse :: "int \<Rightarrow> client \<Rightarrow> client result option" where
  "client_parse len c =
     (if len = - 1 then Some (Inr c)
      else case client_parse_from (ser_recv c) (nat len) 0 [] of
             None \<Rightarrow> None
           | Some (Inl e) \<Rightarrow> Some (Inl e)
           | Some (Inr out) \<Rightarrow> Some (Inr (c\<lparr>screen := screen c @ out\<rparr>)))"

text \<open>
  The branch for \<open>w\<close>: a line from the terminal goes out as one message.  The flag beside the client
  tells if the program goes on: a failed \<open>write\<close> ends it.
\<close>

definition client_say :: "string \<Rightarrow> int \<Rightarrow> client \<Rightarrow> (bool \<times> client) result" where
  "client_say xs res c =
     and_then (mem_write (std_recv c) 0 xs) (\<lambda>mem.
       let c = c\<lparr>std_recv := mem\<rparr>;
           t = translate_bytes \<lparr>src = cl_name c, data = std_recv c\<rparr>;
           c = c\<lparr>cl_wrote := cl_wrote c @ [(cl_fifo c, t)]\<rparr>
       in if res = - 1 then Inr (False, c)
          else and_then (array_str (cl_name c)) (\<lambda>x. and_then (array_str (std_recv c)) (\<lambda>y.
                 Inr (True, c\<lparr>screen := screen c @ [(x, y)]\<rparr>))))"

text \<open>One pass of the loop in \<open>start\<close>; \<open>None\<close> for the input is a read that returned \<open>- 1\<close>.\<close>

definition client_pass ::
  "char \<Rightarrow> string option \<Rightarrow> string \<Rightarrow> int \<Rightarrow> string \<Rightarrow> client \<Rightarrow> (bool \<times> client) result option" where
  "client_pass req inp line res pad c =
     (case mem_write (replicate BUFFSIZE nul) 0 (case inp of None \<Rightarrow> [] | Some xs \<Rightarrow> xs) of
        Inl e \<Rightarrow> Some (Inl e)
      | Inr mem \<Rightarrow>
          (case client_parse (case inp of None \<Rightarrow> - 1 | Some xs \<Rightarrow> int (length xs)) (c\<lparr>ser_recv := mem\<rparr>) of
             None \<Rightarrow> None
           | Some (Inl e) \<Rightarrow> Some (Inl e)
           | Some (Inr c) \<Rightarrow>
               Some (if req = CHR ''q'' then Inr (False, snd (login res pad False c))
                     else if req = CHR ''w'' then client_say line res c
                     else Inr (True, c))))"

text \<open>The constructor, with the descriptors its calls of \<open>open\<close> got; \<open>nm\<close> are the first bytes of the name.\<close>

definition client_new :: "int \<Rightarrow> int \<Rightarrow> string \<Rightarrow> string \<Rightarrow> string \<Rightarrow> int \<Rightarrow> string \<Rightarrow> client option" where
  "client_new temp fd nm recv0 std0 res pad =
     (if temp = - 1 then None
      else Some (snd (login res pad True
        \<lparr>cl_fifo = fd, cl_name = take 4 nm, cl_online = False, serfifo = temp, ser_recv = recv0, std_recv = std0,
          cl_wrote = [], screen = []\<rparr>)))"

section \<open>Reading packets\<close>

lemma length_id_bytes [simp]: "length (id_bytes n) = 4"
  by (simp add: id_bytes_def)

lemma le_value_id [simp]: "n < 256 \<Longrightarrow> le_value (id_bytes n) = n"
  by (simp add: id_bytes_def nul_def)

lemma le_value_nuls [simp]: "le_value (replicate n nul) = 0"
  by (induction n) (simp_all add: nul_def)

lemma mem_read_at:
  "mem_read (xs @ ys @ zs) (int (length xs)) (int (length xs + length ys)) = Inr ys"
  by (simp add: mem_read_def)

definition well_sized :: "translate_packet \<Rightarrow> bool" where
  "well_sized t \<longleftrightarrow> length (src t) = 4 \<and> nul \<in> set (src t) \<and> length (data t) = 100 \<and> nul \<in> set (data t)"

lemma translate_bytes_ok:
  assumes "well_sized t"
  shows "length (translate_bytes t) = TRANSIZE" "translate_of_bytes (translate_bytes t) = t"
    "take 4 (translate_bytes t) = id_bytes TRANSLATE"
  using assms by (simp_all add: well_sized_def translate_bytes_def translate_of_bytes_def TRANSIZE_def id_bytes_def)

lemma read_packet:
  assumes "well_sized t"
  shows "read_id (xs @ translate_bytes t @ zs) (length xs) = Inr TRANSLATE"
    "mem_read (xs @ translate_bytes t @ zs) (int (length xs)) (int (length xs + TRANSIZE)) = Inr (translate_bytes t)"
    "read_translate (xs @ translate_bytes t @ zs) (length xs) = Inr t"
proof -
  have "mem_read (xs @ id_bytes TRANSLATE @ (src t @ data t @ zs)) (int (length xs)) (int (length xs + 4)) = Inr (id_bytes TRANSLATE)"
    using mem_read_at [of xs "id_bytes TRANSLATE" "src t @ data t @ zs"] by simp
  then show "read_id (xs @ translate_bytes t @ zs) (length xs) = Inr TRANSLATE"
    by (simp add: read_id_def translate_bytes_def TRANSLATE_def)
  show m: "mem_read (xs @ translate_bytes t @ zs) (int (length xs)) (int (length xs + TRANSIZE)) = Inr (translate_bytes t)"
    using mem_read_at [of xs "translate_bytes t" zs] translate_bytes_ok(1) [OF assms] by simp
  then show "read_translate (xs @ translate_bytes t @ zs) (length xs) = Inr t"
    using translate_bytes_ok(2) [OF assms] by (simp add: read_translate_def)
qed

section \<open>A login\<close>

text \<open>The bytes of a read at the start of a cleared buffer.\<close>

definition padded :: "string \<Rightarrow> string" where
  "padded xs = xs @ replicate (BUFFSIZE - length xs) nul"

lemma padded_write: "length xs \<le> BUFFSIZE \<Longrightarrow> mem_write (replicate BUFFSIZE nul) 0 xs = Inr (padded xs)"
  by (simp add: mem_write_def padded_def)

lemma length_padded_buf [simp]: "length xs \<le> BUFFSIZE \<Longrightarrow> length (padded xs) = BUFFSIZE"
  by (simp add: padded_def)

lemma read_at_start:
  assumes "length buf = BUFFSIZE"
  shows "read_id buf 0 = Inr (le_value (take 4 buf))" "read_log buf 0 = Inr (log_of_bytes (take LOGSIZE buf))"
  using assms by (simp_all add: read_id_def read_log_def mem_read_def LOGSIZE_def BUFFSIZE_def)

lemma dangling_pass:
  assumes "length buf = BUFFSIZE" "cli_statlist s = [a]" "statuses s a = None"
  shows "and_then (parse_from open_fd buf len LOGSIZE s) (\<lambda>s. and_then (read_clients inp 0 (cli_statlist s) s) k) = Inl Use_after_free"
proof -
  have "parse_from open_fd buf len LOGSIZE s \<in> {Inr s, Inl Use_after_free}"
    using assms
    by (subst parse_from.simps)
      (auto simp: read_id_def read_log_def mem_read_def LOGSIZE_def BUFFSIZE_def log_case_def find_def status_at_def)
  then show ?thesis using assms by (auto simp: status_at_def)
qed

text \<open>
  What an input of the common pipe does to a server without clients.  A packet that is not a login changes nothing;
  a login stores the address of a variable that ends with its block, and the same pass of the loop follows
  that address.  A login without a terminated identity is read out of bounds before.
\<close>

definition is_login :: "string \<Rightarrow> bool" where
  "is_login xs \<longleftrightarrow> xs \<noteq> [] \<and> le_value (take 4 (padded xs)) = LOG"

definition login_error :: "string \<Rightarrow> cxx_error" where
  "login_error xs = (if nul \<in> set (take 4 (drop 5 (padded xs))) then Use_after_free else Out_of_bounds)"

lemma login_dangles:
  assumes "cli_statlist s = []" "recvbuf s = replicate BUFFSIZE nul" "length xs \<le> BUFFSIZE"
  shows "server_pass open_fd (Some xs) inp s =
    (if is_login xs then Inl (login_error xs) else Inr (s\<lparr>datarecv := replicate BUFFSIZE nul\<rparr>))"
proof -
  let ?s = "s\<lparr>recvbuf := padded xs\<rparr>" and ?l = "log_of_bytes (take LOGSIZE (padded xs))"
  note r = read_at_start [of "padded xs", OF length_padded_buf [OF assms(3)]]
  have i: "identity ?l = take 4 (drop 5 (padded xs))" by (simp add: log_of_bytes_def LOGSIZE_def drop_take)
  have w: "server_pass open_fd (Some xs) inp s = and_then (parse_from open_fd (padded xs) (length xs) 0 ?s)
      (\<lambda>s. and_then (read_clients inp 0 (cli_statlist s) s) (\<lambda>s.
         Inr (s\<lparr>recvbuf := replicate BUFFSIZE nul, datarecv := replicate BUFFSIZE nul\<rparr>)))"
    using padded_write [OF assms(3)] assms(2) by (simp add: server_pass_def server_parse_def)
  show ?thesis
  proof (cases "xs = [] \<or> le_value (take 4 (padded xs)) \<noteq> LOG")
    case True
    then have "parse_from open_fd (padded xs) (length xs) 0 ?s = Inr ?s" by (subst parse_from.simps) (auto simp: r)
    then show ?thesis using True assms(1,2) by (auto simp: w is_login_def)
  next
    case False
    then have p: "parse_from open_fd (padded xs) (length xs) 0 ?s =
        and_then (newcli_block open_fd ?l ?s) (parse_from open_fd (padded xs) (length xs) LOGSIZE)"
      using assms(1) by (subst parse_from.simps) (simp add: r log_case_def find_def)
    show ?thesis
    proof (cases "nul \<in> set (identity ?l)")
      case True
      then obtain s' where "newcli_block open_fd ?l ?s = Inr s'" "cli_statlist s' = [next_addr s]" "statuses s' (next_addr s) = None"
        using assms(1) by (simp add: newcli_block_def array_str_def Let_def)
      then show ?thesis using False True i dangling_pass [OF length_padded_buf [OF assms(3)]]
        by (simp add: w p is_login_def login_error_def)
    next
      case nt: False
      then have "newcli_block open_fd ?l ?s = Inl Out_of_bounds" by (simp add: newcli_block_def array_str_def)
      then show ?thesis using False nt i by (simp add: w p is_login_def login_error_def)
    qed
  qed
qed

lemma silent_pass:
  "cli_statlist s = [] \<Longrightarrow> recvbuf s = replicate BUFFSIZE nul \<Longrightarrow>
     server_pass open_fd None inp s = Inr (s\<lparr>datarecv := replicate BUFFSIZE nul\<rparr>)"
  by (simp add: server_pass_def)

lemma run_without_clients:
  assumes "cli_statlist s = []" "recvbuf s = replicate BUFFSIZE nul" "\<forall>xs \<in> set (List.map_filter fst ins). length xs \<le> BUFFSIZE"
  shows "case List.find is_login (List.map_filter fst ins) of
      None \<Rightarrow> \<exists>mem. server_run open_fd ins s = Inr (s\<lparr>datarecv := mem\<rparr>)
    | Some xs \<Rightarrow> server_run open_fd ins s = Inl (login_error xs)"
  using assms
proof (induction ins arbitrary: s)
  case Nil
  have "server_run open_fd [] s = Inr (s\<lparr>datarecv := datarecv s\<rparr>)" by simp
  then have "\<exists>mem. server_run open_fd [] s = Inr (s\<lparr>datarecv := mem\<rparr>)" ..
  then show ?case unfolding List.map_filter_simps List.find.simps option.case .
next
  case (Cons i ins)
  obtain common inp where i: "i = (common, inp)" by (cases i)
  let ?s = "s\<lparr>datarecv := replicate BUFFSIZE nul\<rparr>"
  have rest: "\<forall>xs \<in> set (List.map_filter fst ins). length xs \<le> BUFFSIZE"
    using Cons.prems(3) by (auto simp: List.map_filter_simps split: option.splits)
  have ih: "case List.find is_login (List.map_filter fst ins) of
      None \<Rightarrow> \<exists>mem. server_run open_fd ins ?s = Inr (s\<lparr>datarecv := mem\<rparr>)
    | Some xs \<Rightarrow> server_run open_fd ins ?s = Inl (login_error xs)"
    using Cons.IH [of ?s] Cons.prems(1,2) rest by (simp split: option.splits)
  show ?case
  proof (cases common)
    case None
    then have "server_run open_fd (i # ins) s = server_run open_fd ins ?s"
      using silent_pass [OF Cons.prems(1,2)] by (simp add: i)
    then show ?thesis using ih None by (simp add: i List.map_filter_simps del: server_run.simps split: option.splits)
  next
    case (Some xs)
    then have "length xs \<le> BUFFSIZE" using Cons.prems(3) by (simp add: i List.map_filter_simps)
    note l = login_dangles [OF Cons.prems(1,2) this, of open_fd inp]
    show ?thesis
    proof (cases "is_login xs")
      case True
      then show ?thesis using Some l by (simp add: i List.map_filter_simps)
    next
      case False
      then have "server_run open_fd (i # ins) s = server_run open_fd ins ?s" using Some l by (simp add: i)
      then show ?thesis using ih Some False by (simp add: i List.map_filter_simps del: server_run.simps split: option.splits)
    qed
  qed
qed

text \<open>
  C34. The server of the chat room from its start, over any inputs of its pipes that fit the buffer.  As long as no login comes in it has
  no clients and writes nothing; the first login ends the run in the same pass, because the stored address of the client's state dangles (or,
  without a terminated identity, because the name is read out of bounds).  So no message is ever passed on.
\<close>

theorem server_survives_no_login:
  assumes "\<forall>xs \<in> set (List.map_filter fst ins). length xs \<le> BUFFSIZE"
  shows "case List.find is_login (List.map_filter fst ins) of
      None \<Rightarrow> \<exists>s. server_run open_fd ins (server_new fd junk) = Inr s \<and> cli_statlist s = [] \<and> wrote s = []
    | Some xs \<Rightarrow> server_run open_fd ins (server_new fd junk) = Inl (login_error xs)"
proof -
  have "cli_statlist (server_new fd junk) = []" "recvbuf (server_new fd junk) = replicate BUFFSIZE nul" "wrote (server_new fd junk) = []"
    by (simp_all add: server_new_def)
  with run_without_clients [OF this(1,2) assms, of open_fd] show ?thesis by (auto split: option.splits)
qed

text \<open>A pass without input, and then a client that logs in.\<close>

theorem server_survives_no_login_witness:
  "server_run (\<lambda>_. 7)
     [(None, \<lambda>_. None), (Some (log_bytes True [CHR ''C'', CHR ''1'', nul, nul] [nul, nul, nul]), \<lambda>_. None)] (server_new 3 []) =
     Inl Use_after_free"
proof -
  let ?xs = "log_bytes True [CHR ''C'', CHR ''1'', nul, nul] [nul, nul, nul]"
  let ?ins = "[(None, \<lambda>_. None), (Some ?xs, \<lambda>_. None)] :: (string option \<times> (nat \<Rightarrow> string option)) list"
  have x: "length ?xs \<le> BUFFSIZE" "?xs \<noteq> []" "take 4 (padded ?xs) = id_bytes LOG" "nul \<in> set (take 4 (drop 5 (padded ?xs)))"
    by (simp_all add: log_bytes_def BUFFSIZE_def padded_def id_bytes_def)
  have ins: "List.map_filter fst ?ins = [?xs]" by (simp add: List.map_filter_simps)
  have "is_login ?xs" using x(2,3) by (simp add: is_login_def LOG_def)
  moreover have "\<forall>ys \<in> set (List.map_filter fst ?ins). length ys \<le> BUFFSIZE" using x(1) unfolding ins by simp
  ultimately have "server_run (\<lambda>_. 7) ?ins (server_new 3 []) = Inl (login_error ?xs)"
    using server_survives_no_login [of ?ins "\<lambda>_. 7" 3 "[]"] unfolding ins by simp
  then show ?thesis using x(4) by (simp add: login_error_def)
qed

section \<open>What a client reads\<close>

definition line :: "translate_packet \<Rightarrow> string \<times> string" where
  "line t = (c_str (src t), c_str (data t))"

definition packets :: "translate_packet list \<Rightarrow> string" where
  "packets ts = concat (map translate_bytes ts)"

lemma length_packets: "\<forall>t \<in> set ts. well_sized t \<Longrightarrow> length (packets ts) = TRANSIZE * length ts"
  by (induction ts) (auto simp: packets_def translate_bytes_ok)

text \<open>Whole packets at the front are printed, whatever follows.\<close>

lemma client_parse_packets:
  assumes "\<forall>t \<in> set ts. well_sized t" "length (pre @ packets ts) \<le> len"
  shows "client_parse_from (pre @ packets ts @ rest) len (length pre) out =
    client_parse_from (pre @ packets ts @ rest) len (length (pre @ packets ts)) (out @ map line ts)"
  using assms
proof (induction ts arbitrary: pre out)
  case (Cons t ts)
  have t: "well_sized t" "length pre \<noteq> len" using Cons.prems length_packets [of "t # ts"] by (auto simp: TRANSIZE_def)
  have e: "pre @ packets (t # ts) @ rest = pre @ translate_bytes t @ packets ts @ rest" by (simp add: packets_def)
  have "client_parse_from (pre @ packets (t # ts) @ rest) len (length pre) out =
      client_parse_from (pre @ packets (t # ts) @ rest) len (length pre + TRANSIZE) (out @ [line t])"
    unfolding e using t read_packet [OF t(1), of pre "packets ts @ rest"]
    by (subst client_parse_from.simps) (simp add: array_str_def line_def well_sized_def)
  also have "\<dots> = client_parse_from (pre @ packets (t # ts) @ rest) len (length (pre @ packets (t # ts))) (out @ map line (t # ts))"
    using Cons.IH [of "pre @ translate_bytes t" "out @ [line t]"] Cons.prems translate_bytes_ok(1) [OF t(1)]
    by (simp add: packets_def)
  finally show ?case .
qed (simp add: packets_def)

text \<open>Conversely, a parse that returns has read whole packets up to the length.\<close>

lemma byte_sum_1: "a + 256 * k = (1 :: nat) \<Longrightarrow> a = 1 \<and> k = 0"
  by (cases k) auto

lemma char_of_value: "of_char a = (n :: nat) \<Longrightarrow> a = char_of n"
  by auto

lemma nul_char: "char_of (0 :: nat) = nul"
  by (simp add: nul_def char_of_def)

lemma le_value_1: "length bs = 4 \<Longrightarrow> le_value bs = 1 \<Longrightarrow> bs = id_bytes 1"
proof -
  assume l: "length bs = 4" "le_value bs = 1"
  obtain a b c d where bs: "bs = [a, b, c, d]" using l(1) by (auto simp: numeral_eq_Suc length_Suc_conv)
  have "of_char a + 256 * le_value [b, c, d] = 1" using l(2) bs by (simp only: le_value.simps)
  note s = byte_sum_1 [OF this]
  then have "of_char a = (1 :: nat)" "of_char b = (0 :: nat)" "of_char c = (0 :: nat)" "of_char d = (0 :: nat)"
    by simp_all
  from this [THEN char_of_value] show ?thesis using bs by (simp add: id_bytes_def nul_char)
qed

lemma packet_at:
  assumes "read_id buf fin = Inr TRANSLATE" "read_translate buf fin = Inr t"
    and "array_str (src t) = Inr x" "array_str (data t) = Inr y"
  shows "well_sized t \<and> take TRANSIZE (drop fin buf) = translate_bytes t \<and> line t = (x, y)"
proof -
  let ?bs = "take TRANSIZE (drop fin buf)"
  have b: "t = translate_of_bytes ?bs" "length ?bs = TRANSIZE" and i: "le_value (take 4 (drop fin buf)) = 1"
    using assms(1,2) by (auto simp: read_translate_def read_id_def mem_read_def TRANSLATE_def nat_add_distrib split: if_splits)
  have "take 4 ?bs = take 4 (drop fin buf)" by (simp add: TRANSIZE_def)
  then have "take 4 ?bs = id_bytes 1" using le_value_1 [of "take 4 ?bs"] i b(2) by (simp add: TRANSIZE_def)
  moreover have "?bs = take 4 ?bs @ take 4 (drop 4 ?bs) @ take 100 (drop 8 ?bs)"
    using b(2) append_take_drop_id [of 4 ?bs] append_take_drop_id [of 4 "drop 4 ?bs"] by (simp add: TRANSIZE_def)
  ultimately have "?bs = translate_bytes t" unfolding b(1) translate_bytes_def translate_of_bytes_def by (simp add: TRANSLATE_def)
  moreover have "length (src t) = 4" "length (data t) = 100" using b by (simp_all add: translate_of_bytes_def TRANSIZE_def)
  ultimately show ?thesis using assms(3,4) by (auto simp: well_sized_def line_def array_str_def split: if_splits)
qed

definition reads :: "string \<Rightarrow> nat \<Rightarrow> nat \<Rightarrow> (string \<times> string) list \<Rightarrow> (string \<times> string) list \<Rightarrow> bool" where
  "reads buf len fin out out' \<longleftrightarrow> (\<exists>ts. (\<forall>t \<in> set ts. well_sized t) \<and> len = fin + TRANSIZE * length ts \<and>
     take (TRANSIZE * length ts) (drop fin buf) = packets ts \<and> out' = out @ map line ts)"

lemma reads_none: "reads buf fin fin out out"
  unfolding reads_def by (intro exI [of _ "[]"]) (simp add: packets_def)

lemma reads_packet:
  assumes "well_sized t" "take TRANSIZE (drop fin buf) = translate_bytes t" "reads buf len (fin + TRANSIZE) (out @ [line t]) out'"
  shows "reads buf len fin out out'"
proof -
  obtain ts where ts: "\<forall>t \<in> set ts. well_sized t" "len = fin + TRANSIZE + TRANSIZE * length ts"
      "take (TRANSIZE * length ts) (drop (fin + TRANSIZE) buf) = packets ts" "out' = out @ [line t] @ map line ts"
    using assms(3) by (auto simp: reads_def)
  have "take (TRANSIZE * length (t # ts)) (drop fin buf) = packets (t # ts)"
    using assms(2) ts(3) by (simp add: packets_def take_add add.commute)
  then show ?thesis unfolding reads_def using assms(1) ts by (intro exI [of _ "t # ts"]) simp
qed

lemma client_parse_returns:
  assumes "client_parse_from buf len fin out = Some (Inr out')"
  shows "reads buf len fin out out'"
proof -
  have "\<forall>o'. (Inr out' :: (string \<times> string) list result) = Inr o' \<longrightarrow> reads buf len fin out o'"
  proof (rule client_parse_from.raw_induct [OF _ assms, where P = "\<lambda>buf len fin out r. \<forall>o'. r = Inr o' \<longrightarrow> reads buf len fin out o'"],
      intro allI impI)
    fix f buf len fin out r o'
    assume IH: "\<And>buf len fin out r. f buf len fin out = Some r \<Longrightarrow> \<forall>o'. r = Inr o' \<longrightarrow> reads buf len fin out o'"
      and run: "(if fin \<noteq> len then
        case read_id buf fin of
          Inl e \<Rightarrow> Some (Inl e)
        | Inr pid \<Rightarrow>
            (if pid = TRANSLATE then
               case and_then (read_translate buf fin) (\<lambda>t.
                      and_then (array_str (src t)) (\<lambda>x. and_then (array_str (data t)) (\<lambda>y. Inr (x, y)))) of
                 Inl e \<Rightarrow> Some (Inl e)
               | Inr ln \<Rightarrow> f buf len (fin + TRANSIZE) (out @ [ln])
             else f buf len fin out)
      else Some (Inr out)) = Some r" "r = Inr o'"
    show "reads buf len fin out o'"
    proof (cases "fin = len")
      case True
      then show ?thesis using run reads_none by simp
    next
      case False
      then obtain pid where pid: "read_id buf fin = Inr pid" using run by (auto split: sum.splits)
      show ?thesis
      proof (cases "pid = TRANSLATE")
        case True
        then obtain t x y where t: "read_translate buf fin = Inr t" "array_str (src t) = Inr x" "array_str (data t) = Inr y"
            "f buf len (fin + TRANSIZE) (out @ [(x, y)]) = Some (Inr o')"
          using run False pid by (auto simp: and_then_def split: sum.splits)
        note p = packet_at [OF pid [unfolded True] t(1-3)]
        then show ?thesis using IH [OF t(4)] reads_packet [of t fin buf len out o'] by simp
      next
        case other: False
        then show ?thesis using run IH False pid by simp
      qed
    qed
  qed
  then show ?thesis by simp
qed

text \<open>
  C35. The client returns from \<open>parse\<close> exactly when the bytes it has read are whole message packets with
  terminated fields, and then it has printed source and text of each, in order.  On everything else it does not
  return: an unknown kind of packet is looked at for ever, a packet cut off by the end of the
  buffer is read out of bounds.
\<close>

theorem client_parse_iff_packets:
  assumes "length xs \<le> BUFFSIZE" "ser_recv c = padded xs"
  shows "client_parse (int (length xs)) c = Some (Inr c') \<longleftrightarrow>
    (\<exists>ts. (\<forall>t \<in> set ts. well_sized t) \<and> xs = packets ts \<and> c' = c\<lparr>screen := screen c @ map line ts\<rparr>)"
proof
  assume "client_parse (int (length xs)) c = Some (Inr c')"
  then obtain out where o: "client_parse_from (padded xs) (length xs) 0 [] = Some (Inr out)" "c' = c\<lparr>screen := screen c @ out\<rparr>"
    using assms(2) by (auto simp: client_parse_def split: option.splits sum.splits)
  then obtain ts where ts: "\<forall>t \<in> set ts. well_sized t" "length xs = TRANSIZE * length ts"
      "take (TRANSIZE * length ts) (padded xs) = packets ts" "out = map line ts"
    using client_parse_returns [OF o(1)] by (auto simp: reads_def)
  then have "xs = packets ts" by (simp flip: ts(2) add: padded_def)
  then show "\<exists>ts. (\<forall>t \<in> set ts. well_sized t) \<and> xs = packets ts \<and> c' = c\<lparr>screen := screen c @ map line ts\<rparr>"
    using ts(1,4) o(2) by blast
next
  assume "\<exists>ts. (\<forall>t \<in> set ts. well_sized t) \<and> xs = packets ts \<and> c' = c\<lparr>screen := screen c @ map line ts\<rparr>"
  then obtain ts where ts: "\<forall>t \<in> set ts. well_sized t" "xs = packets ts" "c' = c\<lparr>screen := screen c @ map line ts\<rparr>" by blast
  have "client_parse_from (padded xs) (length xs) 0 [] = Some (Inr (map line ts))"
    using client_parse_packets [OF ts(1), of "[]" "length xs" "replicate (BUFFSIZE - length xs) nul" "[]"] ts(2)
    by (simp add: padded_def client_parse_from.simps)
  then show "client_parse (int (length xs)) c = Some (Inr c')" using assms(2) ts(3) by (simp add: client_parse_def)
qed

definition hello :: translate_packet where
  "hello = \<lparr>src = [CHR ''C'', CHR ''1'', nul, nul], data = ''hi'' @ replicate 98 nul\<rparr>"

definition client_C2 :: client where
  "client_C2 = \<lparr>cl_fifo = 4, cl_name = [CHR ''C'', CHR ''2'', nul, nul], cl_online = True, serfifo = 3,
     ser_recv = replicate BUFFSIZE nul, std_recv = replicate 100 nul, cl_wrote = [], screen = []\<rparr>"

lemma hello_ok: "well_sized hello" "line hello = (''C1'', ''hi'')" "length (packets [hello]) \<le> BUFFSIZE"
proof -
  show w: "well_sized hello" and "line hello = (''C1'', ''hi'')"
    by (simp_all add: well_sized_def line_def c_str_def nul_def hello_def)
  show "length (packets [hello]) \<le> BUFFSIZE" using length_packets [of "[hello]"] w by (simp add: TRANSIZE_def BUFFSIZE_def)
qed

theorem client_parse_iff_packets_witness:
  "\<exists>c'. client_parse (int (length (packets [hello]))) (client_C2\<lparr>ser_recv := padded (packets [hello])\<rparr>) = Some (Inr c') \<and>
     screen c' = [(''C1'', ''hi'')]"
proof -
  let ?c = "client_C2\<lparr>ser_recv := padded (packets [hello])\<rparr>"
  have "client_parse (int (length (packets [hello]))) ?c = Some (Inr (?c\<lparr>screen := screen ?c @ map line [hello]\<rparr>))"
    by (subst client_parse_iff_packets [OF hello_ok(3)]) (use hello_ok in \<open>auto intro!: exI [of _ "[hello]"]\<close>)
  then show ?thesis by (intro exI conjI) (assumption | simp add: client_C2_def hello_ok)+
qed

text \<open>The two ways not to return, after any number of whole packets.\<close>

lemma client_parse_unknown:
  assumes "read_id buf fin = Inr pid" "pid \<noteq> TRANSLATE" "fin \<noteq> len"
  shows "client_parse_from buf len fin out = None"
proof (cases "client_parse_from buf len fin out")
  case (Some r)
  have "buf = buf0 \<and> len = len0 \<and> fin = fin0 \<longrightarrow> False"
    if "client_parse_from buf len fin out = Some r" "read_id buf0 fin0 = Inr pid" "fin0 \<noteq> len0" for buf len fin out buf0 len0 fin0
    by (rule client_parse_from.raw_induct [OF _ that(1), where P = "\<lambda>buf len fin out r. buf = buf0 \<and> len = len0 \<and> fin = fin0 \<longrightarrow> False"])
      (use that(2,3) assms(2) in auto, blast)
  then show ?thesis using Some assms by blast
qed

lemma client_parse_cut:
  assumes "\<forall>t \<in> set ts. well_sized t" "length ts = 37" "well_sized t"
  shows "client_parse_from (packets ts @ take 100 (translate_bytes t)) BUFFSIZE 0 [] = Some (Inl Out_of_bounds)"
proof -
  let ?buf = "packets ts @ take 100 (translate_bytes t)"
  have l: "length (packets ts) = 3996" using length_packets [OF assms(1)] assms(2) by (simp add: TRANSIZE_def)
  have "?buf = packets ts @ id_bytes TRANSLATE @ take 96 (src t @ data t)" by (simp add: translate_bytes_def)
  then have "read_id ?buf 3996 = Inr TRANSLATE"
    using mem_read_at [of "packets ts" "id_bytes TRANSLATE" "take 96 (src t @ data t)"] l by (simp add: read_id_def TRANSLATE_def)
  moreover have "read_translate ?buf 3996 = Inl Out_of_bounds"
    using l translate_bytes_ok(1) [OF assms(3)] by (simp add: read_translate_def mem_read_def TRANSIZE_def)
  ultimately have "client_parse_from ?buf BUFFSIZE 3996 (map line ts) = Some (Inl Out_of_bounds)"
    by (subst client_parse_from.simps) (simp add: BUFFSIZE_def)
  then show ?thesis
    using client_parse_packets [OF assms(1), of "[]" BUFFSIZE "take 100 (translate_bytes t)" "[]"] l by (simp add: BUFFSIZE_def)
qed

section \<open>Passing messages on\<close>

text \<open>
  What \<open>parsedata\<close> does with the states of the clients alive, which no run of this server reaches.  The client a message
  names as its source is the first of that name.
\<close>

definition named :: "server \<Rightarrow> string \<Rightarrow> nat \<Rightarrow> bool" where
  "named s nm a \<longleftrightarrow> (\<exists>st. statuses s a = Some st \<and> c_str (st_name st) = c_str nm)"

definition alive :: "server \<Rightarrow> bool" where
  "alive s \<longleftrightarrow> (\<forall>a \<in> set (cli_statlist s). \<exists>st. statuses s a = Some st \<and> length (st_name st) = 4 \<and> nul \<in> set (st_name st))"

definition receivers :: "server \<Rightarrow> string \<Rightarrow> int list" where
  "receivers s nm =
     map (\<lambda>a. pri_fifo (the (statuses s a)))
       (filter (\<lambda>a. Some a \<noteq> List.find (named s nm) (cli_statlist s)) (cli_statlist s))"

lemma named_kept [simp]: "named (s\<lparr>wrote := w\<rparr>) = named s" "named (s\<lparr>datarecv := b\<rparr>) = named s"
  by (simp_all add: named_def fun_eq_iff)

lemma strcmp_eq_c_str:
  "length xs = length ys \<Longrightarrow> nul \<in> set xs \<Longrightarrow> nul \<in> set ys \<Longrightarrow> strcmp_eq xs ys = Inr (c_str xs = c_str ys)"
  by (induction xs ys rule: list_induct2') (auto simp: c_str_def)

lemma find_from_ok:
  assumes "\<forall>a \<in> set as. \<exists>st. statuses s a = Some st \<and> length (st_name st) = 4 \<and> nul \<in> set (st_name st)"
    and "length nm = 4" "nul \<in> set nm"
  shows "\<exists>r. find_from s nm i as = Inr r \<and> map_option snd r = List.find (named s nm) as"
  using assms(1)
proof (induction as arbitrary: i)
  case (Cons a as)
  then obtain st where st: "statuses s a = Some st" "length (st_name st) = 4" "nul \<in> set (st_name st)" by auto
  have "strcmp_eq nm (st_name st) = Inr (named s nm a)"
    using strcmp_eq_c_str [of nm "st_name st"] assms(2,3) st by (auto simp: named_def)
  then show ?case using Cons st(1) by (auto simp: status_at_def)
qed simp

lemma send_others_ok:
  assumes "\<forall>a \<in> set as. \<exists>st. statuses s a = Some st"
  shows "send_others s t who as =
    Inr (s\<lparr>wrote := wrote s @ map (\<lambda>a. (pri_fifo (the (statuses s a)), t)) (filter (\<lambda>a. Some a \<noteq> who) as)\<rparr>)"
  using assms
proof (induction as arbitrary: s)
  case (Cons a as)
  then obtain st where "statuses s a = Some st" by auto
  then show ?case using Cons.IH [of "s\<lparr>wrote := wrote s @ [(pri_fifo st, t)]\<rparr>"] Cons.IH [of s] Cons.prems
    by (auto simp: status_at_def)
qed simp

lemma send_packet:
  assumes "alive s" "well_sized t"
  shows "\<exists>r. find s (src t) = Inr r \<and> send_others s bs (map_option snd r) (cli_statlist s) =
    Inr (s\<lparr>wrote := wrote s @ map (\<lambda>fd. (fd, bs)) (receivers s (src t))\<rparr>)"
proof -
  obtain r where r: "find s (src t) = Inr r" "map_option snd r = List.find (named s (src t)) (cli_statlist s)"
    using find_from_ok [of "cli_statlist s" s "src t" 0] assms by (auto simp: alive_def well_sized_def find_def)
  have "\<forall>a \<in> set (cli_statlist s). \<exists>st. statuses s a = Some st" using assms(1) by (auto simp: alive_def)
  from send_others_ok [OF this, of bs "map_option snd r"] show ?thesis using r by (simp add: receivers_def comp_def)
qed

text \<open>The writes for a sequence of messages.\<close>

definition relayed :: "server \<Rightarrow> translate_packet list \<Rightarrow> (int \<times> string) list" where
  "relayed s ts = concat (map (\<lambda>t. map (\<lambda>fd. (fd, translate_bytes t)) (receivers s (src t))) ts)"

lemma parsedata_packets:
  assumes "\<forall>t \<in> set ts. well_sized t" "alive s"
  shows "parsedata_from (pre @ packets ts @ rest) (length (pre @ packets ts)) (length pre) s =
    Inr (s\<lparr>wrote := wrote s @ relayed s ts\<rparr>)"
  using assms
proof (induction ts arbitrary: pre s)
  case Nil
  then show ?case by (subst parsedata_from.simps) (simp add: packets_def relayed_def)
next
  case (Cons t ts)
  let ?s = "s\<lparr>wrote := wrote s @ map (\<lambda>fd. (fd, translate_bytes t)) (receivers s (src t))\<rparr>"
  have t: "well_sized t" using Cons.prems by simp
  obtain r where r: "find s (src t) = Inr r"
      "send_others s (translate_bytes t) (map_option snd r) (cli_statlist s) = Inr ?s"
    using send_packet [OF Cons.prems(2) t] by blast
  have keep: "alive ?s" "relayed ?s ts = relayed s ts"
    using Cons.prems(2) by (simp_all add: alive_def relayed_def receivers_def)
  have ne: "length pre \<noteq> length (pre @ packets (t # ts))" using length_packets [OF Cons.prems(1)] by (simp add: TRANSIZE_def)
  have e: "pre @ packets (t # ts) @ rest = pre @ translate_bytes t @ packets ts @ rest" by (simp add: packets_def)
  have "parsedata_from (pre @ packets (t # ts) @ rest) (length (pre @ packets (t # ts))) (length pre) s =
      parsedata_from (pre @ packets (t # ts) @ rest) (length (pre @ packets (t # ts))) (length pre + TRANSIZE) ?s"
    using ne read_packet [OF t, of pre "packets ts @ rest"] r translate_bytes_ok(2) [OF t]
    by (subst parsedata_from.simps) (simp add: e)
  also have "\<dots> = Inr (s\<lparr>wrote := wrote s @ relayed s (t # ts)\<rparr>)"
    using Cons.IH [of ?s "pre @ translate_bytes t"] Cons.prems(1) keep translate_bytes_ok(1) [OF t]
    by (simp add: packets_def relayed_def)
  finally show ?case .
qed

end
