(* ===== verification/Poll_Chat.thy ===== *)
theory Poll_Chat
  imports Sone_Prelude "HOL-Library.Word"
begin

unbundle bit_operations_syntax

text \<open>
  The chat server of \<^verbatim>\<open>src/cpp/chatServer.cpp\<close>: one loop over \<open>poll\<close> that accepts clients, reads their lines and
  passes each to all others.  A line is not copied: the others get a pointer into the buffer of the sender, here
  the place of the sender in the list of clients.  What \<open>poll\<close>, \<open>accept\<close> and \<open>recv\<close> return are arguments.
\<close>

section \<open>The program\<close>

definition POLLIN :: "16 word" where "POLLIN = 1"

definition POLLOUT :: "16 word" where "POLLOUT = 4"

definition POLLRDHUP :: "16 word" where "POLLRDHUP = 0x2000"

record pollfd =
  pf_fd :: int
  events :: "16 word"
  revents :: "16 word"

record cli_data =
  cd_buf :: string
  write_pos :: "nat option"
  cd_fd :: int

record chat_server =
  fds :: "pollfd list"
  clidatas :: "cli_data list"
  sent :: "(int \<times> string) list"

definition has :: "16 word \<Rightarrow> 16 word \<Rightarrow> bool" where
  "has flag x \<longleftrightarrow> x AND flag \<noteq> 0"

definition chat_start :: "int \<Rightarrow> chat_server" where
  "chat_start server_fd = \<lparr>fds = [\<lparr>pf_fd = server_fd, events = POLLIN, revents = 0\<rparr>], clidatas = [], sent = []\<rparr>"

text \<open>A new connection; \<open>con_fd\<close> is what \<open>accept\<close> returned.\<close>

definition accept_client :: "int \<Rightarrow> chat_server \<Rightarrow> chat_server result" where
  "accept_client con_fd s =
     (if con_fd = - 1 then Inl Assert_failed
      else Inr (s\<lparr>fds := fds s @ [\<lparr>pf_fd = con_fd, events = POLLIN OR POLLRDHUP, revents = 0\<rparr>],
                  clidatas := clidatas s @ [\<lparr>cd_buf = replicate 64 nul, write_pos = None, cd_fd = con_fd\<rparr>]\<rparr>))"

text \<open>The loop that marks a line of client \<open>me\<close> for every client with another descriptor.\<close>

fun notify_from :: "nat \<Rightarrow> nat \<Rightarrow> int \<Rightarrow> nat \<Rightarrow> chat_server \<Rightarrow> chat_server result" where
  "notify_from 0 j fd me s = Inr s"
| "notify_from (Suc n) j fd me s =
     and_then (cell (clidatas s) j) (\<lambda>d.
       if cd_fd d = fd then notify_from n (j + 1) fd me s
       else
         and_then (cell (fds s) (j + 1)) (\<lambda>f.
           notify_from n (j + 1) fd me
             (s\<lparr>fds := (fds s)[j + 1 := f\<lparr>events := (events f OR NOT POLLIN) OR POLLOUT\<rparr>],
                clidatas := (clidatas s)[j := d\<lparr>write_pos := Some me\<rparr>]\<rparr>)))"

text \<open>Reading from client \<open>me\<close>: \<open>Some []\<close> is a closed connection, \<open>None\<close> an error; the last byte is overwritten.\<close>

definition read_client :: "nat \<Rightarrow> string option \<Rightarrow> chat_server \<Rightarrow> chat_server result" where
  "read_client me inp s =
     and_then (cell (clidatas s) me) (\<lambda>d.
     and_then (mem_write (replicate (length (cd_buf d)) nul) 0 (case inp of None \<Rightarrow> [] | Some xs \<Rightarrow> xs)) (\<lambda>buf.
       let res = (case inp of None \<Rightarrow> - 1 | Some xs \<Rightarrow> int (length xs)) in
       and_then (mem_write buf (res - 1) [nul]) (\<lambda>buf.
         let s = s\<lparr>clidatas := (clidatas s)[me := d\<lparr>cd_buf := buf\<rparr>]\<rparr> in
         if res - 1 > 0 then and_then (cell (fds s) (me + 1)) (\<lambda>f. notify_from (length (clidatas s)) 0 (pf_fd f) me s)
         else Inr s)))"

text \<open>Writing what is marked for client \<open>me\<close>, up to the NUL.\<close>

definition write_client :: "nat \<Rightarrow> chat_server \<Rightarrow> chat_server result" where
  "write_client me s =
     and_then (cell (clidatas s) me) (\<lambda>d.
       case write_pos d of
         None \<Rightarrow> Inr s
       | Some src \<Rightarrow>
           and_then (cell (clidatas s) src) (\<lambda>from.
           and_then (cell (fds s) (me + 1)) (\<lambda>f.
             if nul \<in> set (cd_buf from) then
               Inr (s\<lparr>sent := sent s @ [(cd_fd d, c_str (cd_buf from))],
                      clidatas := (clidatas s)[me := d\<lparr>write_pos := None\<rparr>],
                      fds := (fds s)[me + 1 := f\<lparr>events := (events f OR NOT POLLOUT) OR POLLIN\<rparr>]\<rparr>)
             else Inl Out_of_bounds)))"

text \<open>The body of the loop for one entry, and a pass over the entries there were when \<open>poll\<close> returned.\<close>

definition chat_entry :: "int \<Rightarrow> int \<Rightarrow> (nat \<Rightarrow> string option) \<Rightarrow> nat \<Rightarrow> chat_server \<Rightarrow> chat_server result" where
  "chat_entry server_fd con_fd inp i s =
     and_then (cell (fds s) i) (\<lambda>f.
       if pf_fd f = server_fd then (if has POLLIN (revents f) then accept_client con_fd s else Inr s)
       else
         and_then (if has POLLIN (revents f) then read_client (i - 1) (inp i) s else Inr s) (\<lambda>s.
           if has POLLOUT (revents f) then write_client (i - 1) s else Inr s))"

fun chat_entries :: "int \<Rightarrow> int \<Rightarrow> (nat \<Rightarrow> string option) \<Rightarrow> nat \<Rightarrow> nat \<Rightarrow> chat_server \<Rightarrow> chat_server result" where
  "chat_entries server_fd con_fd inp 0 i s = Inr s"
| "chat_entries server_fd con_fd inp (Suc n) i s =
     and_then (chat_entry server_fd con_fd inp i s) (chat_entries server_fd con_fd inp n (i + 1))"

definition chat_pass :: "int \<Rightarrow> (nat \<Rightarrow> 16 word) \<Rightarrow> int \<Rightarrow> (nat \<Rightarrow> string option) \<Rightarrow> chat_server \<Rightarrow> chat_server result" where
  "chat_pass server_fd polled con_fd inp s =
     (let s = s\<lparr>fds := map (\<lambda>i. (fds s ! i)\<lparr>revents := polled i\<rparr>) [0..<length (fds s)]\<rparr>
      in chat_entries server_fd con_fd inp (length (fds s)) 0 s)"

section \<open>The tables agree\<close>

text \<open>Every client has an entry for \<open>poll\<close>, a buffer that ends in a NUL, and pointers only to clients.\<close>

definition client_ok :: "nat \<Rightarrow> cli_data \<Rightarrow> bool" where
  "client_ok n d \<longleftrightarrow> length (cd_buf d) = 64 \<and> nul \<in> set (cd_buf d) \<and> (\<forall>src. write_pos d = Some src \<longrightarrow> src < n)"

definition chat_inv :: "int \<Rightarrow> chat_server \<Rightarrow> bool" where
  "chat_inv server_fd s \<longleftrightarrow>
     map pf_fd (fds s) = server_fd # map cd_fd (clidatas s) \<and> server_fd \<notin> cd_fd ` set (clidatas s) \<and>
     (\<forall>d \<in> set (clidatas s). client_ok (length (clidatas s)) d)"

lemma chat_inv_start: "chat_inv server_fd (chat_start server_fd)"
  by (simp add: chat_inv_def chat_start_def)

lemma chat_inv_length: "chat_inv server_fd s \<Longrightarrow> length (fds s) = Suc (length (clidatas s))"
  unfolding chat_inv_def by (metis length_Cons length_map)

lemma chat_inv_fd:
  assumes "chat_inv server_fd s" "j < length (clidatas s)"
  shows "pf_fd (fds s ! Suc j) = cd_fd (clidatas s ! j)"
proof -
  have "map pf_fd (fds s) ! Suc j = (server_fd # map cd_fd (clidatas s)) ! Suc j" using assms(1) by (simp add: chat_inv_def)
  then show ?thesis using assms(2) chat_inv_length [OF assms(1)] by simp
qed

lemma chat_inv_update:
  assumes "chat_inv server_fd s" "j < length (clidatas s)" "client_ok (length (clidatas s)) d" "cd_fd d = cd_fd (clidatas s ! j)"
    and "pf_fd f = pf_fd (fds s ! i)" "i < length (fds s)"
  shows "chat_inv server_fd (s\<lparr>fds := (fds s)[i := f], clidatas := (clidatas s)[j := d]\<rparr>)"
proof -
  have m: "map pf_fd ((fds s)[i := f]) = map pf_fd (fds s)" "map cd_fd ((clidatas s)[j := d]) = map cd_fd (clidatas s)"
    using assms by (simp_all add: map_update list_update_same_conv)
  have "cd_fd ` set ((clidatas s)[j := d]) = cd_fd ` set (clidatas s)" using m(2) by (metis set_map)
  then show ?thesis using assms(1,3) m set_update_subset_insert [of "clidatas s" j d] by (auto simp: chat_inv_def)
qed

section \<open>Reading and writing\<close>

definition mark :: "int \<Rightarrow> nat \<Rightarrow> cli_data \<Rightarrow> cli_data" where
  "mark fd me d = (if cd_fd d = fd then d else d\<lparr>write_pos := Some me\<rparr>)"

lemma notify_from_ok:
  assumes "chat_inv server_fd s" "me < length (clidatas s)" "j + n = length (clidatas s)"
  shows "\<exists>s'. notify_from n j fd me s = Inr s' \<and> chat_inv server_fd s' \<and> sent s' = sent s \<and>
    clidatas s' = take j (clidatas s) @ map (mark fd me) (drop j (clidatas s))"
  using assms
proof (induction n arbitrary: j s)
  case (Suc n)
  let ?d = "clidatas s ! j"
  have j: "j < length (clidatas s)" "Suc j < length (fds s)" using Suc.prems(3) chat_inv_length [OF Suc.prems(1)] by simp_all
  have dr: "drop j (clidatas s) = ?d # drop (Suc j) (clidatas s)" using j(1) by (simp add: Cons_nth_drop_Suc)
  show ?case
  proof (cases "cd_fd ?d = fd")
    case True
    then show ?thesis using Suc.IH [OF Suc.prems(1,2), of "Suc j"] Suc.prems(3) j
      by (simp add: cell_def dr mark_def take_Suc_conv_app_nth)
  next
    case False
    let ?f = "(fds s ! Suc j)\<lparr>events := (events (fds s ! Suc j) OR NOT POLLIN) OR POLLOUT\<rparr>"
    let ?s = "s\<lparr>fds := (fds s)[Suc j := ?f], clidatas := (clidatas s)[j := ?d\<lparr>write_pos := Some me\<rparr>]\<rparr>"
    have "client_ok (length (clidatas s)) ?d" using Suc.prems(1) j(1) by (simp add: chat_inv_def)
    then have "chat_inv server_fd ?s" using Suc.prems(1,2) j by (intro chat_inv_update) (auto simp: client_ok_def)
    have tk: "take (Suc j) (clidatas ?s) = take j (clidatas s) @ [mark fd me ?d]"
      using j(1) False by (simp add: mark_def take_Suc_conv_app_nth)
    from Suc.IH [OF \<open>chat_inv server_fd ?s\<close>, of "Suc j"] show ?thesis
      unfolding tk using Suc.prems(2,3) j False by (simp add: cell_def dr)
  qed
qed simp

lemma read_client_ok:
  assumes "chat_inv server_fd s" "me < length (clidatas s)" "xs \<noteq> []" "length xs \<le> 63"
  shows "\<exists>s'. read_client me (Some xs) s = Inr s' \<and> chat_inv server_fd s' \<and> sent s' = sent s \<and>
    length (clidatas s') = length (clidatas s) \<and> cd_fd (clidatas s' ! me) = cd_fd (clidatas s ! me) \<and>
    cd_buf (clidatas s' ! me) = butlast xs @ replicate (65 - length xs) nul \<and>
    (1 < length xs \<longrightarrow> (\<forall>j < length (clidatas s). cd_fd (clidatas s ! j) \<noteq> cd_fd (clidatas s ! me) \<longrightarrow>
       write_pos (clidatas s' ! j) = Some me \<and> cd_fd (clidatas s' ! j) = cd_fd (clidatas s ! j)))"
proof -
  let ?d = "clidatas s ! me" and ?n = "length (clidatas s)"
  let ?buf = "butlast xs @ replicate (65 - length xs) nul"
  have d: "client_ok ?n ?d" using assms(1,2) by (simp add: chat_inv_def)
  have w1: "mem_write (replicate 64 nul) 0 xs = Inr (xs @ replicate (64 - length xs) nul)"
    using assms(4) by (simp add: mem_write_def)
  have "65 - length xs = Suc (64 - length xs)" using assms(4) by simp
  then have w2: "mem_write (xs @ replicate (64 - length xs) nul) (int (length xs) - 1) [nul] = Inr ?buf"
    using assms(3,4) by (simp add: mem_write_def nat_diff_distrib butlast_conv_take Suc_le_eq)
  have l: "length ?buf = 64" "nul \<in> set ?buf" using assms(3,4) by (cases xs; simp)+
  let ?s = "s\<lparr>clidatas := (clidatas s)[me := ?d\<lparr>cd_buf := ?buf\<rparr>]\<rparr>"
  have "chat_inv server_fd (s\<lparr>fds := (fds s)[me := fds s ! me], clidatas := (clidatas s)[me := ?d\<lparr>cd_buf := ?buf\<rparr>]\<rparr>)"
    using assms(1,2) d chat_inv_length [OF assms(1)] l by (intro chat_inv_update) (simp_all add: client_ok_def del: length_append)
  then have inv: "chat_inv server_fd ?s" by simp
  have r: "read_client me (Some xs) s = (if 1 < length xs then notify_from ?n 0 (cd_fd ?d) me ?s else Inr ?s)"
    using w1 w2 d assms(2) chat_inv_length [OF assms(1)] chat_inv_fd [OF assms(1,2)]
    by (simp add: read_client_def cell_def client_ok_def Let_def)
  show ?thesis
  proof (cases "1 < length xs")
    case True
    from notify_from_ok [OF inv, of me 0 ?n "cd_fd ?d"] obtain s' where
      "notify_from ?n 0 (cd_fd ?d) me ?s = Inr s'" "chat_inv server_fd s'" "sent s' = sent s"
      "clidatas s' = map (mark (cd_fd ?d) me) ((clidatas s)[me := ?d\<lparr>cd_buf := ?buf\<rparr>])"
      using assms(2) by auto
    then show ?thesis using True r assms(2) by (auto simp: mark_def nth_list_update)
  next
    case False
    then show ?thesis using r inv assms(2) by simp
  qed
qed

lemma write_client_ok:
  assumes "chat_inv server_fd s" "j < length (clidatas s)" "write_pos (clidatas s ! j) = Some me"
  shows "\<exists>s'. write_client j s = Inr s' \<and> chat_inv server_fd s' \<and> length (clidatas s') = length (clidatas s) \<and>
    sent s' = sent s @ [(cd_fd (clidatas s ! j), c_str (cd_buf (clidatas s ! me)))]"
proof -
  let ?d = "clidatas s ! j"
  have d: "client_ok (length (clidatas s)) ?d" and me: "me < length (clidatas s)"
    using assms by (auto simp: chat_inv_def client_ok_def)
  have fr: "nul \<in> set (cd_buf (clidatas s ! me))" using assms(1) me by (simp add: chat_inv_def client_ok_def)
  have f: "Suc j < length (fds s)" using assms(2) chat_inv_length [OF assms(1)] by simp
  let ?f = "(fds s ! Suc j)\<lparr>events := (events (fds s ! Suc j) OR NOT POLLOUT) OR POLLIN\<rparr>"
  have "chat_inv server_fd (s\<lparr>fds := (fds s)[Suc j := ?f], clidatas := (clidatas s)[j := ?d\<lparr>write_pos := None\<rparr>]\<rparr>)"
    using assms d f by (intro chat_inv_update) (auto simp: client_ok_def)
  then show ?thesis using assms(2,3) me fr f by (simp add: write_client_def cell_def chat_inv_def)
qed

section \<open>A pass\<close>

lemma chat_entry_ok:
  assumes "chat_inv server_fd s" "i < length (fds s)" "con_fd \<noteq> - 1" "con_fd \<noteq> server_fd"
    and "\<exists>xs. inp i = Some xs \<and> xs \<noteq> [] \<and> length xs \<le> 63"
  shows "\<exists>s'. chat_entry server_fd con_fd inp i s = Inr s' \<and> chat_inv server_fd s' \<and> length (fds s) \<le> length (fds s')"
proof (cases "pf_fd (fds s ! i) = server_fd")
  case True
  have "\<forall>d \<in> set (clidatas s). client_ok (Suc (length (clidatas s))) d"
    using assms(1) by (fastforce simp: chat_inv_def client_ok_def)
  then show ?thesis using True assms by (auto simp: chat_entry_def cell_def accept_client_def chat_inv_def) (simp add: client_ok_def)
next
  case False
  obtain xs where xs: "inp i = Some xs" "xs \<noteq> []" "length xs \<le> 63" using assms(5) by blast
  have "i \<noteq> 0" using False assms(1) by (cases "fds s") (auto simp: chat_inv_def)
  then have me: "i - 1 < length (clidatas s)" using assms(2) chat_inv_length [OF assms(1)] by simp
  obtain s0 where s0: "read_client (i - 1) (inp i) s = Inr s0" "chat_inv server_fd s0" "length (clidatas s0) = length (clidatas s)"
    using read_client_ok [OF assms(1) me xs(2,3)] unfolding xs(1) by blast
  define s1 where "s1 = (if has POLLIN (revents (fds s ! i)) then s0 else s)"
  have s1: "(if has POLLIN (revents (fds s ! i)) then read_client (i - 1) (inp i) s else Inr s) = Inr s1"
      "chat_inv server_fd s1" "length (clidatas s1) = length (clidatas s)"
    using s0 assms(1) by (simp_all add: s1_def)
  have "\<exists>s'. write_client (i - 1) s1 = Inr s' \<and> chat_inv server_fd s' \<and> length (clidatas s') = length (clidatas s1)"
  proof (cases "write_pos (clidatas s1 ! (i - 1))")
    case None
    then show ?thesis using me s1(2,3) by (simp add: write_client_def cell_def)
  next
    case (Some src)
    then show ?thesis using write_client_ok [OF s1(2) _ Some] me s1(3) by auto
  qed
  then obtain s2 where s2: "write_client (i - 1) s1 = Inr s2" "chat_inv server_fd s2" "length (clidatas s2) = length (clidatas s1)"
    by blast
  have "length (fds s1) = length (fds s)" "length (fds s2) = length (fds s)"
    using assms(1) s1(2,3) s2(2,3) by (simp_all add: chat_inv_length)
  then show ?thesis using False s1 s2 assms(2) by (simp add: chat_entry_def cell_def)
qed

text \<open>
  As long as every client that is read delivers a line, no pass fails, whatever \<open>poll\<close> reports: the tables of
  descriptors and clients stay in step, every buffer ends in a NUL and every pointer leads to a client.
\<close>

theorem chat_pass_safe:
  assumes "chat_inv server_fd s" "con_fd \<noteq> - 1" "con_fd \<noteq> server_fd"
    and "\<And>i. \<exists>xs. inp i = Some xs \<and> xs \<noteq> [] \<and> length xs \<le> 63"
  shows "\<exists>s'. chat_pass server_fd polled con_fd inp s = Inr s' \<and> chat_inv server_fd s'"
proof -
  have entries: "\<exists>s'. chat_entries server_fd con_fd inp n i s = Inr s' \<and> chat_inv server_fd s'"
    if "chat_inv server_fd s" "i + n \<le> length (fds s)" for n i s
    using that
  proof (induction n arbitrary: i s)
    case (Suc n)
    obtain s1 where "chat_entry server_fd con_fd inp i s = Inr s1" "chat_inv server_fd s1" "length (fds s) \<le> length (fds s1)"
      using chat_entry_ok [where i = i and inp = inp, OF Suc.prems(1) _ assms(2,3) assms(4)] Suc.prems(2)
      by (auto simp: Suc_le_eq)
    then show ?case using Suc.IH [of s1 "i + 1"] Suc.prems(2) by simp
  qed simp
  let ?s = "s\<lparr>fds := map (\<lambda>i. (fds s ! i)\<lparr>revents := polled i\<rparr>) [0..<length (fds s)]\<rparr>"
  have "map pf_fd (fds ?s) = map pf_fd (fds s)" by (rule nth_equalityI) simp_all
  then have "chat_inv server_fd ?s" using assms(1) by (simp add: chat_inv_def)
  from entries [OF this, of 0 "length (fds ?s)"] show ?thesis by (simp add: chat_pass_def Let_def)
qed

theorem chat_pass_safe_witness:
  "\<exists>s'. chat_pass 3 (\<lambda>_. POLLIN) 4 (\<lambda>_. Some ''hi'') (chat_start 3) = Inr s' \<and> chat_inv 3 s'"
  by (rule chat_pass_safe [OF chat_inv_start]) simp_all

text \<open>
  A line of one client is written to any other client at its next turn, without its last character (the line feed) and up to
  the first NUL.  A client that closes its connection makes the server write before its buffer.
\<close>

theorem line_relayed:
  assumes "chat_inv server_fd s" "me < length (clidatas s)" "1 < length xs" "length xs \<le> 63"
    and "j < length (clidatas s)" "cd_fd (clidatas s ! j) \<noteq> cd_fd (clidatas s ! me)"
  shows "(\<exists>s1 s2. read_client me (Some xs) s = Inr s1 \<and> write_client j s1 = Inr s2 \<and>
      sent s2 = sent s @ [(cd_fd (clidatas s ! j), c_str (butlast xs))]) \<and>
    read_client me (Some []) s = Inl Out_of_bounds"
proof
  have "xs \<noteq> []" using assms(3) by auto
  from read_client_ok [OF assms(1,2) this assms(4)] obtain s1 where
    s1: "read_client me (Some xs) s = Inr s1" "chat_inv server_fd s1" "sent s1 = sent s" "length (clidatas s1) = length (clidatas s)"
      "cd_buf (clidatas s1 ! me) = butlast xs @ replicate (65 - length xs) nul"
      "write_pos (clidatas s1 ! j) = Some me" "cd_fd (clidatas s1 ! j) = cd_fd (clidatas s ! j)"
    using assms(3,5,6) by blast
  have "65 - length xs = Suc (64 - length xs)" using assms(4) by simp
  then have "c_str (cd_buf (clidatas s1 ! me)) = c_str (butlast xs)" using s1(5) by (simp add: c_str_def takeWhile_tail)
  moreover obtain s2 where "write_client j s1 = Inr s2" "sent s2 = sent s1 @ [(cd_fd (clidatas s1 ! j), c_str (cd_buf (clidatas s1 ! me)))]"
    using write_client_ok [OF s1(2) _ s1(6)] assms(5) s1(4) by auto
  ultimately show "\<exists>s1 s2. read_client me (Some xs) s = Inr s1 \<and> write_client j s1 = Inr s2 \<and>
      sent s2 = sent s @ [(cd_fd (clidatas s ! j), c_str (butlast xs))]"
    using s1(1,3,7) by auto
  show "read_client me (Some []) s = Inl Out_of_bounds"
    using assms(2) by (simp add: read_client_def cell_def mem_write_def Let_def)
qed

end
