(* ===== verification/Sone_Threads.thy ===== *)
theory Sone_Threads
  imports Sone_Sync
begin

text \<open>
  The rest of the thread primitives: the spin lock and the constructors of \<^verbatim>\<open>src/http_server/mutex.cpp\<close>, the
  condition variable of \<^verbatim>\<open>condition.h\<close>, the cached thread number of \<^verbatim>\<open>utils.cpp\<close>, the singleton of
  \<^verbatim>\<open>Singleton.h\<close> and the life of a loop thread (\<^verbatim>\<open>eventloopThread.cpp\<close>).  The last two are step relations: the
  steps of the threads interleave in any way, and a waiting thread may wake up without reason.
\<close>

section \<open>Locks and semaphores\<close>

definition MutexLock_new :: "nat option" where
  "MutexLock_new = None"

definition SpinLock_new :: "nat option" where
  "SpinLock_new = None"

definition SpinLock_lock :: "nat \<Rightarrow> nat option \<Rightarrow> nat option option" where
  "SpinLock_lock tid m = (if m = None then Some (Some tid) else None)"

definition SpinLock_unlock :: "nat \<Rightarrow> nat option \<Rightarrow> nat option" where
  "SpinLock_unlock tid m = None"

text \<open>\<open>sem_init\<close> refuses a count above \<open>SEM_VALUE_MAX\<close>, although the constructor takes any 32-bit number.\<close>

definition SEM_VALUE_MAX :: nat where "SEM_VALUE_MAX = 2147483647"

definition Semaphore_new :: "nat \<Rightarrow> nat result" where
  "Semaphore_new n = (if SEM_VALUE_MAX < n then Inl Logic_error else Inr n)"

lemma Semaphore_new_range:
  "n < 2 ^ 32 \<Longrightarrow> Semaphore_new n = Inl Logic_error \<longleftrightarrow> 2 ^ 31 \<le> n"
  by (auto simp: Semaphore_new_def SEM_VALUE_MAX_def)

section \<open>The number of the calling thread\<close>

text \<open>The thread-local cache and the answer of the kernel; the result and the new cache.\<close>

definition cache_tid_init :: int where "cache_tid_init = - 1"

definition getTid :: "int \<Rightarrow> int \<Rightarrow> int \<times> int" where
  "getTid cache_tid gettid = (if cache_tid \<noteq> - 1 then (cache_tid, cache_tid) else (gettid, gettid))"

text \<open>Every call returns what the kernel said first, whatever it would say later.\<close>

lemma getTid_cached:
  assumes "tid \<noteq> - 1" "getTid cache_tid_init tid = (r, c)"
  shows "r = tid" "getTid c later = (tid, c)"
  using assms by (auto simp: getTid_def cache_tid_init_def)

section \<open>Condition variables\<close>

text \<open>The threads that wait; the mutex is given up on the way in and taken again after waking up.\<close>

record Condition =
  cond_waiters :: "nat list"

definition Condition_new :: Condition where
  "Condition_new = \<lparr>cond_waiters = []\<rparr>"

definition Condition_wait :: "nat \<Rightarrow> nat option \<Rightarrow> Condition \<Rightarrow> nat option \<times> Condition" where
  "Condition_wait tid m c = (MutexLock_unlock tid m, c\<lparr>cond_waiters := cond_waiters c @ [tid]\<rparr>)"

definition Condition_woken :: "nat \<Rightarrow> nat option \<Rightarrow> Condition \<Rightarrow> nat option option" where
  "Condition_woken tid m c = (if tid \<in> set (cond_waiters c) then None else MutexLock_lock tid m)"

inductive Condition_notify :: "Condition \<Rightarrow> Condition \<Rightarrow> bool" where
  nobody: "cond_waiters c = [] \<Longrightarrow> Condition_notify c c"
| somebody: "cond_waiters c = xs @ t # ys \<Longrightarrow> Condition_notify c (c\<lparr>cond_waiters := xs @ ys\<rparr>)"

definition Condition_notifyAll :: "Condition \<Rightarrow> Condition" where
  "Condition_notifyAll c = c\<lparr>cond_waiters := []\<rparr>"

lemma notify_total: "\<exists>c'. Condition_notify c c'"
proof (cases "cond_waiters c")
  case Nil
  then show ?thesis by (blast intro: nobody)
next
  case (Cons t ys)
  then show ?thesis using somebody [of c "[]" t ys] by auto
qed

lemma notify_one:
  assumes "Condition_notify c c'"
  shows "length (cond_waiters c') = length (cond_waiters c) - 1" "set (cond_waiters c') \<subseteq> set (cond_waiters c)"
  using assms by (auto elim!: Condition_notify.cases)

section \<open>The singleton\<close>

text \<open>\<open>pthread_once\<close>: the first caller runs \<open>init\<close>, the others wait until it has returned.\<close>

datatype once_state = Once_init | Once_running nat | Once_done

datatype get_pc = G_idle | G_once | G_init | G_leave | G_read | G_got "nat option"

record singleton =
  m_once :: once_state
  m_value :: "nat option"
  sg_next :: nat
  sg_made :: "nat list"
  sg_pc :: "nat \<Rightarrow> get_pc"

definition singleton_start :: "singleton \<Rightarrow> bool" where
  "singleton_start s \<longleftrightarrow> m_once s = Once_init \<and> m_value s = None \<and> sg_made s = [] \<and> sg_pc s = (\<lambda>_. G_idle)"

inductive getInstance :: "singleton \<Rightarrow> singleton \<Rightarrow> bool" where
  call: "sg_pc s t = G_idle \<or> sg_pc s t = G_got p \<Longrightarrow> getInstance s (s\<lparr>sg_pc := (sg_pc s)(t := G_once)\<rparr>)"
| first: "sg_pc s t = G_once \<Longrightarrow> m_once s = Once_init \<Longrightarrow>
    getInstance s (s\<lparr>m_once := Once_running t, sg_pc := (sg_pc s)(t := G_init)\<rparr>)"
| make: "sg_pc s t = G_init \<Longrightarrow>
    getInstance s (s\<lparr>m_value := Some (sg_next s), sg_made := sg_made s @ [sg_next s], sg_next := sg_next s + 1,
      sg_pc := (sg_pc s)(t := G_leave)\<rparr>)"
| leave: "sg_pc s t = G_leave \<Longrightarrow> getInstance s (s\<lparr>m_once := Once_done, sg_pc := (sg_pc s)(t := G_read)\<rparr>)"
| later: "sg_pc s t = G_once \<Longrightarrow> m_once s = Once_done \<Longrightarrow> getInstance s (s\<lparr>sg_pc := (sg_pc s)(t := G_read)\<rparr>)"
| read: "sg_pc s t = G_read \<Longrightarrow> getInstance s (s\<lparr>sg_pc := (sg_pc s)(t := G_got (m_value s))\<rparr>)"

interpretation sg: transitions singleton_start getInstance .

inductive_cases getInstanceE: "getInstance s t"

text \<open>What the place of a thread says of the shared state.\<close>

definition made_one :: "singleton \<Rightarrow> bool" where
  "made_one s \<longleftrightarrow> (\<exists>p. sg_made s = [p] \<and> m_value s = Some p)"

fun get_pc_ok :: "singleton \<Rightarrow> nat \<Rightarrow> get_pc \<Rightarrow> bool" where
  "get_pc_ok s t G_init \<longleftrightarrow> m_once s = Once_running t \<and> sg_made s = []"
| "get_pc_ok s t G_leave \<longleftrightarrow> m_once s = Once_running t \<and> made_one s"
| "get_pc_ok s t G_read \<longleftrightarrow> m_once s = Once_done"
| "get_pc_ok s t (G_got v) \<longleftrightarrow> m_once s = Once_done \<and> v = m_value s"
| "get_pc_ok s t pc \<longleftrightarrow> True"

definition once_ok :: "singleton \<Rightarrow> bool" where
  "once_ok s \<longleftrightarrow>
     (case m_once s of
        Once_init \<Rightarrow> sg_made s = []
      | Once_running t \<Rightarrow> sg_pc s t = G_init \<or> sg_pc s t = G_leave
      | Once_done \<Rightarrow> made_one s)"

definition singleton_inv :: "singleton \<Rightarrow> bool" where
  "singleton_inv s \<longleftrightarrow> (\<forall>t. get_pc_ok s t (sg_pc s t)) \<and> once_ok s"

lemma singleton_invI:
  assumes "singleton_inv s" "sg_pc s' = (sg_pc s)(t := pc)" "get_pc_ok s' t pc" "once_ok s'"
    and "\<And>u. u \<noteq> t \<Longrightarrow> get_pc_ok s u (sg_pc s u) \<Longrightarrow> get_pc_ok s' u (sg_pc s u)"
  shows "singleton_inv s'"
  using assms unfolding singleton_inv_def by auto

lemma get_pc_ok_moved [simp]: "get_pc_ok (s\<lparr>sg_pc := pcs\<rparr>) u pc = get_pc_ok s u pc"
  by (cases pc) (simp_all add: made_one_def)

lemma get_pc_ok_other:
  "get_pc_ok s u pc \<Longrightarrow> m_once s = Once_init \<or> m_once s = Once_running t \<Longrightarrow> u \<noteq> t \<Longrightarrow> get_pc_ok s' u pc"
  by (cases pc) auto

lemma singleton_inv_step:
  assumes inv: "singleton_inv s" and step: "getInstance s s'"
  shows "singleton_inv s'"
proof -
  have pc: "get_pc_ok s t (sg_pc s t)" and once: "once_ok s" for t using inv by (auto simp: singleton_inv_def)
  from step show ?thesis
  proof (cases rule: getInstance.cases)
    case (call t p)
    have "once_ok s'" using call once pc [of t] by (auto simp: once_ok_def made_one_def split: once_state.splits)
    then show ?thesis using call by (intro singleton_invI [OF inv, of s' t G_once]) simp_all
  next
    case (first t)
    then show ?thesis using once
      by (intro singleton_invI [OF inv, of s' t G_init]) (simp_all add: once_ok_def get_pc_ok_other [of s _ _ t])
  next
    case (make t)
    then have "m_once s = Once_running t" "sg_made s = []" using pc [of t] by auto
    then show ?thesis using make
      by (intro singleton_invI [OF inv, of s' t G_leave]) (simp_all add: once_ok_def made_one_def get_pc_ok_other [of s _ _ t])
  next
    case (leave t)
    then have "m_once s = Once_running t" "made_one s" using pc [of t] by auto
    then show ?thesis using leave
      by (intro singleton_invI [OF inv, of s' t G_read]) (simp_all add: once_ok_def made_one_def get_pc_ok_other [of s _ _ t])
  next
    case (later t)
    then show ?thesis using once
      by (intro singleton_invI [OF inv, of s' t G_read]) (simp_all add: once_ok_def made_one_def)
  next
    case (read t)
    then show ?thesis using once pc [of t]
      by (intro singleton_invI [OF inv, of s' t "G_got (m_value s)"]) (simp_all add: once_ok_def made_one_def)
  qed
qed

lemma getInstance_goes_on:
  assumes "singleton_inv s" "sg_pc s t \<noteq> G_idle"
  shows "\<exists>s'. getInstance s s'"
proof -
  have "\<exists>s'. getInstance s s'" if "sg_pc s u = G_init \<or> sg_pc s u = G_leave" for u
    using that getInstance.make [of s u] getInstance.leave [of s u] by blast
  note inside = this
  show ?thesis
  proof (cases "sg_pc s t")
    case G_once
    show ?thesis
    proof (cases "m_once s")
      case Once_init
      then show ?thesis using getInstance.first [OF G_once] by blast
    next
      case (Once_running u)
      then show ?thesis using assms(1) inside [of u] by (simp add: singleton_inv_def once_ok_def)
    next
      case Once_done
      then show ?thesis using getInstance.later [OF G_once] by blast
    qed
  next
    case G_read
    then show ?thesis using getInstance.read by blast
  next
    case (G_got p)
    then show ?thesis using getInstance.call by blast
  qed (use assms(2) inside in blast)+
qed

lemma singleton_inv_reachable: "sg.reachable s \<Longrightarrow> singleton_inv s"
proof (erule sg.invariantI)
  show "singleton_start s \<Longrightarrow> singleton_inv s" for s by (simp add: singleton_start_def singleton_inv_def once_ok_def)
qed (rule singleton_inv_step)

text \<open>
  Whatever the interleaving of its callers, \<open>getInstance\<close> makes one object, and every caller that has
  returned got that object; while a caller is on its way, some thread can go on.
\<close>

theorem singleton_made_once:
  assumes "sg.reachable s"
  shows "length (sg_made s) \<le> 1 \<and> (\<forall>t v. sg_pc s t = G_got v \<longrightarrow> (\<exists>p. v = Some p \<and> sg_made s = [p])) \<and>
    ((\<exists>t. sg_pc s t \<noteq> G_idle) \<longrightarrow> (\<exists>s'. getInstance s s'))"
proof (intro conjI allI impI)
  note i = singleton_inv_reachable [OF assms]
  then have pc: "get_pc_ok s t (sg_pc s t)" and once: "once_ok s" for t by (auto simp: singleton_inv_def)
  show "length (sg_made s) \<le> 1"
  proof (cases "m_once s")
    case (Once_running t)
    then show ?thesis using once pc [of t] by (auto simp: once_ok_def made_one_def)
  qed (use once in \<open>auto simp: once_ok_def made_one_def\<close>)
  show "\<exists>p. v = Some p \<and> sg_made s = [p]" if "sg_pc s t = G_got v" for t v
    using pc [of t] once that by (auto simp: once_ok_def made_one_def)
  show "\<exists>s'. getInstance s s'" if "\<exists>t. sg_pc s t \<noteq> G_idle"
    using getInstance_goes_on [OF i] that by blast
qed

definition singleton_at :: "once_state \<Rightarrow> nat option \<Rightarrow> nat list \<Rightarrow> nat \<Rightarrow> get_pc \<Rightarrow> get_pc \<Rightarrow> singleton" where
  "singleton_at once v made a pc1 pc2 =
     \<lparr>m_once = once, m_value = v, sg_next = a, sg_made = made, sg_pc = (\<lambda>t. if t = 0 then pc1 else if t = 2 then pc2 else G_idle)\<rparr>"

lemma singleton_at_steps:
  "getInstance (singleton_at once v made a G_idle pc) (singleton_at once v made a G_once pc)"
  "getInstance (singleton_at once v made a pc G_idle) (singleton_at once v made a pc G_once)"
  "getInstance (singleton_at Once_init v made a G_once pc) (singleton_at (Once_running 0) v made a G_init pc)"
  "getInstance (singleton_at once v made a G_init pc) (singleton_at once (Some a) (made @ [a]) (a + 1) G_leave pc)"
  "getInstance (singleton_at once v made a G_leave pc) (singleton_at Once_done v made a G_read pc)"
  "getInstance (singleton_at once v made a G_read pc) (singleton_at once v made a (G_got v) pc)"
proof -
  have upd: "(\<lambda>t. if t = 0 then p else if t = 2 then q else G_idle) (0 := r) = (\<lambda>t. if t = (0::nat) then r else if t = 2 then q else G_idle)"
    "(\<lambda>t. if t = 0 then p else if t = 2 then q else G_idle) (2 := r) = (\<lambda>t. if t = (0::nat) then p else if t = 2 then r else G_idle)" for p q r
    by (auto simp: fun_eq_iff)
  show "getInstance (singleton_at once v made a G_idle pc) (singleton_at once v made a G_once pc)"
    using getInstance.call [of "singleton_at once v made a G_idle pc" 0] by (simp add: singleton_at_def upd)
  show "getInstance (singleton_at once v made a pc G_idle) (singleton_at once v made a pc G_once)"
    using getInstance.call [of "singleton_at once v made a pc G_idle" 2] by (simp add: singleton_at_def upd)
  show "getInstance (singleton_at Once_init v made a G_once pc) (singleton_at (Once_running 0) v made a G_init pc)"
    using getInstance.first [of "singleton_at Once_init v made a G_once pc" 0] by (simp add: singleton_at_def upd)
  show "getInstance (singleton_at once v made a G_init pc) (singleton_at once (Some a) (made @ [a]) (a + 1) G_leave pc)"
    using getInstance.make [of "singleton_at once v made a G_init pc" 0] by (simp add: singleton_at_def upd)
  show "getInstance (singleton_at once v made a G_leave pc) (singleton_at Once_done v made a G_read pc)"
    using getInstance.leave [of "singleton_at once v made a G_leave pc" 0] by (simp add: singleton_at_def upd)
  show "getInstance (singleton_at once v made a G_read pc) (singleton_at once v made a (G_got v) pc)"
    using getInstance.read [of "singleton_at once v made a G_read pc" 0] by (simp add: singleton_at_def upd)
qed

theorem singleton_made_once_witness:
  "\<exists>s :: singleton. sg_pc s 0 = G_got (Some 7) \<and> sg_pc s 2 = G_once \<and> sg_made s = [7] \<and> length (sg_made s) \<le> 1"
proof -
  have "sg.reachable (singleton_at Once_init None [] 7 G_idle G_idle)"
    by (rule sg.initial) (auto simp: singleton_start_def singleton_at_def)
  from this [THEN sg.further, OF singleton_at_steps(1)] have "sg.reachable (singleton_at Once_init None [] 7 G_once G_idle)" .
  from this [THEN sg.further, OF singleton_at_steps(3)] have "sg.reachable (singleton_at (Once_running 0) None [] 7 G_init G_idle)" .
  from this [THEN sg.further, OF singleton_at_steps(2)] have "sg.reachable (singleton_at (Once_running 0) None [] 7 G_init G_once)" .
  from this [THEN sg.further, OF singleton_at_steps(4)] have "sg.reachable (singleton_at (Once_running 0) (Some 7) [7] 8 G_leave G_once)"
    by simp
  from this [THEN sg.further, OF singleton_at_steps(5)] have "sg.reachable (singleton_at Once_done (Some 7) [7] 8 G_read G_once)" .
  from this [THEN sg.further, OF singleton_at_steps(6)]
  have "sg.reachable (singleton_at Once_done (Some 7) [7] 8 (G_got (Some 7)) G_once)" .
  note singleton_made_once [OF this]
  moreover have "sg_pc (singleton_at Once_done (Some 7) [7] 8 (G_got (Some 7)) G_once) 0 = G_got (Some 7)"
      "sg_pc (singleton_at Once_done (Some 7) [7] 8 (G_got (Some 7)) G_once) 2 = G_once"
      "sg_made (singleton_at Once_done (Some 7) [7] 8 (G_got (Some 7)) G_once) = [7]"
    by (simp_all add: singleton_at_def)
  ultimately show ?thesis by blast
qed

section \<open>The life of a loop thread\<close>

text \<open>
  The owner (thread 0) calls \<open>start\<close>, later the destructor; the new thread (thread 1) makes its loop,
  publishes it under the mutex, runs it until it is told to quit, takes the pointer back and destroys the loop.  The
  constructor does not initialise \<open>_loop\<close>: \<open>before\<close> is the value it happens to have (\<open>None\<close> for null).

  The destructor reads \<open>_loop\<close> twice, for the test and for the call; \<open>exit\<close> on another thread first sets \<open>quit\<close> and then
  reads \<open>threadId\<close> and \<open>wakeupfd\<close> of the loop, which may be gone by then (the loop also looks at \<open>quit\<close> when its wait for events has
  timed out).  \<open>S_crashed\<close> is the use of a pointer that is not the live loop.
\<close>

datatype owner_pc = S_lock | S_test | S_wait | S_started | S_exit | S_wake | S_join | S_gone | S_crashed

datatype thread_pc = W_lock | W_publish | W_notify | W_unlock | W_loop | W_clear | W_destroy | W_end

record loop_thread =
  lt_mutex :: "nat option"
  lt_cond :: Condition
  lt_loop :: "nat option"
  lt_quit :: bool
  lt_result :: "nat option"
  lt_owner :: owner_pc
  lt_thread :: thread_pc

definition loop_thread_start :: "nat option \<Rightarrow> loop_thread \<Rightarrow> bool" where
  "loop_thread_start before s \<longleftrightarrow>
     s = \<lparr>lt_mutex = MutexLock_new, lt_cond = Condition_new, lt_loop = before, lt_quit = False, lt_result = None,
          lt_owner = S_lock, lt_thread = W_lock\<rparr>"

inductive loop_thread_step :: "nat \<Rightarrow> loop_thread \<Rightarrow> loop_thread \<Rightarrow> bool" for own where
  owner_locks: "lt_owner s = S_lock \<Longrightarrow> MutexLock_lock 0 (lt_mutex s) = Some m \<Longrightarrow>
    loop_thread_step own s (s\<lparr>lt_mutex := m, lt_owner := S_test\<rparr>)"
| owner_finds: "lt_owner s = S_test \<Longrightarrow> lt_loop s = Some l \<Longrightarrow>
    loop_thread_step own s (s\<lparr>lt_result := Some l, lt_mutex := MutexLock_unlock 0 (lt_mutex s), lt_owner := S_started\<rparr>)"
| owner_waits: "lt_owner s = S_test \<Longrightarrow> lt_loop s = None \<Longrightarrow> Condition_wait 0 (lt_mutex s) (lt_cond s) = (m, c) \<Longrightarrow>
    loop_thread_step own s (s\<lparr>lt_mutex := m, lt_cond := c, lt_owner := S_wait\<rparr>)"
| owner_woken: "lt_owner s = S_wait \<Longrightarrow> Condition_woken 0 (lt_mutex s) (lt_cond s) = Some m \<Longrightarrow>
    loop_thread_step own s (s\<lparr>lt_mutex := m, lt_owner := S_test\<rparr>)"
| thread_locks: "lt_thread s = W_lock \<Longrightarrow> MutexLock_lock 1 (lt_mutex s) = Some m \<Longrightarrow>
    loop_thread_step own s (s\<lparr>lt_mutex := m, lt_thread := W_publish\<rparr>)"
| thread_publishes: "lt_thread s = W_publish \<Longrightarrow>
    loop_thread_step own s (s\<lparr>lt_loop := Some own, lt_thread := W_notify\<rparr>)"
| thread_notifies: "lt_thread s = W_notify \<Longrightarrow> Condition_notify (lt_cond s) c \<Longrightarrow>
    loop_thread_step own s (s\<lparr>lt_cond := c, lt_thread := W_unlock\<rparr>)"
| thread_unlocks: "lt_thread s = W_unlock \<Longrightarrow>
    loop_thread_step own s (s\<lparr>lt_mutex := MutexLock_unlock 1 (lt_mutex s), lt_thread := W_loop\<rparr>)"
| loop_ends: "lt_thread s = W_loop \<Longrightarrow> lt_quit s \<Longrightarrow>
    loop_thread_step own s (s\<lparr>lt_thread := W_clear\<rparr>)"
| thread_clears: "lt_thread s = W_clear \<Longrightarrow>
    loop_thread_step own s (s\<lparr>lt_loop := None, lt_thread := W_destroy\<rparr>)"
| loop_dies: "lt_thread s = W_destroy \<Longrightarrow> loop_thread_step own s (s\<lparr>lt_thread := W_end\<rparr>)"
| owner_leaves: "lt_owner s = S_started \<Longrightarrow> lt_loop s = None \<Longrightarrow>
    loop_thread_step own s (s\<lparr>lt_owner := S_gone\<rparr>)"
| owner_tests: "lt_owner s = S_started \<Longrightarrow> lt_loop s \<noteq> None \<Longrightarrow>
    loop_thread_step own s (s\<lparr>lt_owner := S_exit\<rparr>)"
| exit_quits: "lt_owner s = S_exit \<Longrightarrow> lt_loop s = Some own \<Longrightarrow>
    loop_thread_step own s (s\<lparr>lt_quit := True, lt_owner := S_wake\<rparr>)"
| exit_wild: "lt_owner s = S_exit \<Longrightarrow> lt_loop s \<noteq> Some own \<Longrightarrow>
    loop_thread_step own s (s\<lparr>lt_owner := S_crashed\<rparr>)"
| exit_wakes: "lt_owner s = S_wake \<Longrightarrow> lt_thread s \<noteq> W_end \<Longrightarrow>
    loop_thread_step own s (s\<lparr>lt_owner := S_join\<rparr>)"
| exit_dangles: "lt_owner s = S_wake \<Longrightarrow> lt_thread s = W_end \<Longrightarrow>
    loop_thread_step own s (s\<lparr>lt_owner := S_crashed\<rparr>)"
| owner_joins: "lt_owner s = S_join \<Longrightarrow> lt_thread s = W_end \<Longrightarrow>
    loop_thread_step own s (s\<lparr>lt_owner := S_gone\<rparr>)"

text \<open>A wait that ends without a notification.\<close>

inductive spurious_step :: "loop_thread \<Rightarrow> loop_thread \<Rightarrow> bool" where
  wakes: "lt_owner s = S_wait \<Longrightarrow> spurious_step s (s\<lparr>lt_cond := Condition_notifyAll (lt_cond s)\<rparr>)"

definition loop_thread_moves :: "nat \<Rightarrow> loop_thread \<Rightarrow> loop_thread \<Rightarrow> bool" where
  "loop_thread_moves own s t \<longleftrightarrow> loop_thread_step own s t \<or> spurious_step s t"

interpretation lt: transitions "loop_thread_start before" "loop_thread_moves own" for before own .

definition loop_thread_inv :: "nat \<Rightarrow> loop_thread \<Rightarrow> bool" where
  "loop_thread_inv own s \<longleftrightarrow>
     (lt_mutex s = Some 0 \<longleftrightarrow> lt_owner s = S_test) \<and>
     (lt_mutex s = Some 1 \<longleftrightarrow> lt_thread s \<in> {W_publish, W_notify, W_unlock}) \<and> lt_mutex s \<in> {None, Some 0, Some 1} \<and>
     lt_loop s = (if lt_thread s \<in> {W_notify, W_unlock, W_loop, W_clear} then Some own else None) \<and>
     cond_waiters (lt_cond s) \<in> {[], [0]} \<and>
     (cond_waiters (lt_cond s) = [0] \<longrightarrow> lt_owner s = S_wait \<and> lt_thread s \<in> {W_lock, W_publish, W_notify}) \<and>
     (lt_owner s \<notin> {S_lock, S_test, S_wait} \<longrightarrow> lt_result s = Some own \<and> lt_thread s \<notin> {W_lock, W_publish}) \<and>
     (lt_quit s \<longleftrightarrow> lt_owner s \<in> {S_wake, S_join, S_gone, S_crashed}) \<and>
     (lt_thread s \<in> {W_clear, W_destroy, W_end} \<longrightarrow> lt_quit s) \<and>
     (lt_owner s \<in> {S_gone, S_crashed} \<longrightarrow> lt_thread s = W_end)"

lemmas lock_defs = MutexLock_lock_def MutexLock_unlock_def Condition_wait_def Condition_woken_def

lemma loop_thread_inv_step:
  assumes inv: "loop_thread_inv own s" and step: "loop_thread_step own s t"
  shows "loop_thread_inv own t"
  using step
proof (cases rule: loop_thread_step.cases)
  case (thread_notifies c)
  have "cond_waiters (lt_cond s) \<in> {[], [0]}" using inv unfolding loop_thread_inv_def by blast
  then have "cond_waiters c = []" using notify_one(1) [OF thread_notifies(3)] by auto
  then show ?thesis using inv thread_notifies unfolding loop_thread_inv_def by auto
next
  case (owner_waits m c)
  then show ?thesis using inv by (cases "lt_thread s") (auto simp: loop_thread_inv_def lock_defs)
next
  case owner_leaves
  then show ?thesis using inv by (cases "lt_thread s") (auto simp: loop_thread_inv_def)
next
  case exit_wild
  then show ?thesis using inv by (cases "lt_thread s") (auto simp: loop_thread_inv_def)
qed (use inv in \<open>auto simp: loop_thread_inv_def lock_defs split: if_splits\<close>)

lemma loop_thread_inv_spurious: "loop_thread_inv own s \<Longrightarrow> spurious_step s t \<Longrightarrow> loop_thread_inv own t"
  by (erule spurious_step.cases) (auto simp: loop_thread_inv_def Condition_notifyAll_def)

lemma loop_thread_inv_reachable: "lt.reachable None own s \<Longrightarrow> loop_thread_inv own s"
proof (erule lt.invariantI)
  show "loop_thread_start None s \<Longrightarrow> loop_thread_inv own s" for s
    by (simp add: loop_thread_start_def loop_thread_inv_def MutexLock_new_def Condition_new_def)
qed (auto simp: loop_thread_moves_def intro: loop_thread_inv_step loop_thread_inv_spurious)

text \<open>The steps a life of a loop thread may still take, when nobody wakes up without reason.\<close>

fun thread_left :: "thread_pc \<Rightarrow> nat" where
  "thread_left W_lock = 7" | "thread_left W_publish = 6" | "thread_left W_notify = 5" | "thread_left W_unlock = 4"
| "thread_left W_loop = 3" | "thread_left W_clear = 2" | "thread_left W_destroy = 1" | "thread_left W_end = 0"

fun owner_left :: "bool \<Rightarrow> owner_pc \<Rightarrow> nat" where
  "owner_left w S_lock = 8" | "owner_left w S_test = 7" | "owner_left w S_wait = (if w then 6 else 8)"
| "owner_left w S_started = 4" | "owner_left w S_exit = 3" | "owner_left w S_wake = 2" | "owner_left w S_join = 1"
| "owner_left w S_gone = 0" | "owner_left w S_crashed = 0"

definition life_left :: "loop_thread \<Rightarrow> nat" where
  "life_left s = 10 * thread_left (lt_thread s) + owner_left (cond_waiters (lt_cond s) \<noteq> []) (lt_owner s)"

lemma owner_left_less: "owner_left w pc < 10 + owner_left w' pc"
  by (cases pc) auto

lemma life_left_step: "loop_thread_inv own s \<Longrightarrow> loop_thread_step own s t \<Longrightarrow> life_left t < life_left s"
  by (erule loop_thread_step.cases) (auto simp: life_left_def loop_thread_inv_def lock_defs owner_left_less split: if_splits)

lemma loop_thread_stuck:
  assumes inv: "loop_thread_inv own s" and ends: "\<And>t. \<not> loop_thread_step own s t"
  shows "lt_owner s \<in> {S_gone, S_crashed} \<and> lt_thread s = W_end"
proof (cases "lt_thread s")
  case W_lock
  have "lt_mutex s \<noteq> None"
  proof
    assume "lt_mutex s = None"
    then have "MutexLock_lock 1 (lt_mutex s) = Some (Some 1)" by (simp add: lock_defs)
    then show False using thread_locks [OF W_lock] ends by blast
  qed
  then have t: "lt_owner s = S_test" "lt_loop s = None" using inv W_lock by (auto simp: loop_thread_inv_def)
  obtain m c where "Condition_wait 0 (lt_mutex s) (lt_cond s) = (m, c)" by (cases "Condition_wait 0 (lt_mutex s) (lt_cond s)")
  then show ?thesis using owner_waits [OF t] ends by blast
next
  case W_notify
  then show ?thesis using ends thread_notifies [of s] notify_total [of "lt_cond s"] by blast
next
  case W_loop
  then have "\<not> lt_quit s" using ends loop_ends [of s] by auto
  then have o: "lt_owner s \<notin> {S_wake, S_join, S_gone, S_crashed}" "lt_loop s = Some own" "cond_waiters (lt_cond s) = []" "lt_mutex s \<noteq> Some 1"
    using inv W_loop by (auto simp: loop_thread_inv_def)
  have "lt_mutex s = None" if "lt_owner s \<noteq> S_test" using inv that o(4) by (auto simp: loop_thread_inv_def)
  then have free: "lt_owner s \<noteq> S_test \<Longrightarrow> MutexLock_lock 0 (lt_mutex s) = Some (Some 0)"
      "lt_owner s \<noteq> S_test \<Longrightarrow> Condition_woken 0 (lt_mutex s) (lt_cond s) = Some (Some 0)"
    using o(3) by (simp_all add: lock_defs)
  show ?thesis
  proof (cases "lt_owner s")
    case S_lock
    then have "MutexLock_lock 0 (lt_mutex s) = Some (Some 0)" using free(1) by simp
    then show ?thesis using owner_locks [OF S_lock] ends by blast
  next
    case S_test
    then show ?thesis using owner_finds [OF S_test o(2)] ends by blast
  next
    case S_wait
    then have "Condition_woken 0 (lt_mutex s) (lt_cond s) = Some (Some 0)" using free(2) by simp
    then show ?thesis using owner_woken [OF S_wait] ends by blast
  next
    case S_started
    then show ?thesis using owner_tests [OF S_started] o(2) ends by blast
  next
    case S_exit
    then show ?thesis using exit_quits [OF S_exit o(2)] ends by blast
  qed (use o(1) in auto)
next
  case W_end
  then have "lt_owner s \<in> {S_wake, S_join, S_gone, S_crashed}" using inv by (auto simp: loop_thread_inv_def)
  then show ?thesis using W_end ends owner_joins [of s] exit_dangles [of s] by auto
qed (use ends thread_publishes [of s] thread_unlocks [of s] thread_clears [of s] loop_dies [of s] in blast)+

text \<open>
  C27. When \<open>_loop\<close> happens to be null before \<open>start\<close> (the constructor does not see to it), then in every interleaving and with
  waits that end without reason, \<open>start\<close> returns the loop of its own thread, and the destructor returns only after that thread
  has ended.  The one thing that can go wrong is that \<open>exit\<close>, after it has set \<open>quit\<close>, reads a loop that its thread has
  already destroyed.  Nothing blocks for ever: without spurious wake-ups every step uses up one of finitely many, and the only
  states without a step are the end of both threads and that use after free.
\<close>

theorem loop_thread_life:
  assumes "lt.reachable None own s"
  shows "(lt_owner s \<notin> {S_lock, S_test, S_wait} \<longrightarrow> lt_result s = Some own) \<and>
    (lt_owner s = S_gone \<longrightarrow> lt_thread s = W_end) \<and> (lt_owner s = S_crashed \<longrightarrow> lt_quit s \<and> lt_thread s = W_end) \<and>
    (\<forall>t. loop_thread_step own s t \<longrightarrow> life_left t < life_left s) \<and>
    ((\<forall>t. \<not> loop_thread_step own s t) \<longrightarrow> lt_owner s \<in> {S_gone, S_crashed} \<and> lt_thread s = W_end)"
proof (intro conjI allI impI)
  note inv = loop_thread_inv_reachable [OF assms]
  show "lt_result s = Some own" if "lt_owner s \<notin> {S_lock, S_test, S_wait}" using inv that unfolding loop_thread_inv_def by blast
  show "lt_thread s = W_end" if "lt_owner s = S_gone" using inv that unfolding loop_thread_inv_def by blast
  show "lt_quit s" "lt_thread s = W_end" if "lt_owner s = S_crashed" using inv that unfolding loop_thread_inv_def by blast+
  show "life_left t < life_left s" if "loop_thread_step own s t" for t by (rule life_left_step [OF inv that])
  show "lt_owner s \<in> {S_gone, S_crashed}" "lt_thread s = W_end" if "\<forall>t. \<not> loop_thread_step own s t"
    using loop_thread_stuck [OF inv] that by blast+
qed

text \<open>States of the two threads when nobody waits, for examples.\<close>

definition lt_at :: "nat option \<Rightarrow> nat option \<Rightarrow> bool \<Rightarrow> nat option \<Rightarrow> owner_pc \<Rightarrow> thread_pc \<Rightarrow> loop_thread" where
  "lt_at m l quit res o_pc t_pc = \<lparr>lt_mutex = m, lt_cond = Condition_new, lt_loop = l, lt_quit = quit, lt_result = res,
     lt_owner = o_pc, lt_thread = t_pc\<rparr>"

lemma lt_at_start: "lt.reachable before own (lt_at None before False None S_lock W_lock)"
  by (rule lt.initial) (simp add: loop_thread_start_def lt_at_def MutexLock_new_def)

lemma lt_at_owner:
  "loop_thread_moves own (lt_at None l q r S_lock t) (lt_at (Some 0) l q r S_test t)"
  "loop_thread_moves own (lt_at (Some 0) (Some p) q r S_test t) (lt_at None (Some p) q (Some p) S_started t)"
  "loop_thread_moves own (lt_at m (Some p) q r S_started t) (lt_at m (Some p) q r S_exit t)"
  "loop_thread_moves own (lt_at m (Some own) q r S_exit t) (lt_at m (Some own) True r S_wake t)"
  "loop_thread_moves own (lt_at m l q r S_wake W_end) (lt_at m l q r S_crashed W_end)"
  unfolding loop_thread_moves_def
  using owner_locks [of "lt_at None l q r S_lock t" "Some 0" own] owner_finds [of "lt_at (Some 0) (Some p) q r S_test t" p own]
    owner_tests [of "lt_at m (Some p) q r S_started t" own] exit_quits [of "lt_at m (Some own) q r S_exit t" own]
    exit_dangles [of "lt_at m l q r S_wake W_end" own]
  by (simp_all add: lt_at_def lock_defs)

lemma lt_at_thread:
  "loop_thread_moves own (lt_at None l q r o_pc W_lock) (lt_at (Some 1) l q r o_pc W_publish)"
  "loop_thread_moves own (lt_at m l q r o_pc W_publish) (lt_at m (Some own) q r o_pc W_notify)"
  "loop_thread_moves own (lt_at m l q r o_pc W_notify) (lt_at m l q r o_pc W_unlock)"
  "loop_thread_moves own (lt_at (Some 1) l q r o_pc W_unlock) (lt_at None l q r o_pc W_loop)"
  "loop_thread_moves own (lt_at m l True r o_pc W_loop) (lt_at m l True r o_pc W_clear)"
  "loop_thread_moves own (lt_at m l q r o_pc W_clear) (lt_at m None q r o_pc W_destroy)"
  "loop_thread_moves own (lt_at m l q r o_pc W_destroy) (lt_at m l q r o_pc W_end)"
  unfolding loop_thread_moves_def
  using thread_locks [of "lt_at None l q r o_pc W_lock" "Some 1" own] thread_publishes [of "lt_at m l q r o_pc W_publish" own]
    thread_notifies [of "lt_at m l q r o_pc W_notify" Condition_new own]
    thread_unlocks [of "lt_at (Some 1) l q r o_pc W_unlock" own] loop_ends [of "lt_at m l True r o_pc W_loop" own]
    thread_clears [of "lt_at m l q r o_pc W_clear" own] loop_dies [of "lt_at m l q r o_pc W_destroy" own]
    Condition_notify.nobody [of Condition_new]
  by (simp_all add: lt_at_def lock_defs Condition_new_def)

lemma lt_exit_reached: "lt.reachable None own (lt_at None (Some own) True (Some own) S_wake W_loop)"
  by (rule lt_at_start [of None own, THEN lt.further, OF lt_at_thread(1), THEN lt.further, OF lt_at_thread(2),
        THEN lt.further, OF lt_at_thread(3), THEN lt.further, OF lt_at_thread(4), THEN lt.further, OF lt_at_owner(1),
        THEN lt.further, OF lt_at_owner(2), THEN lt.further, OF lt_at_owner(3), THEN lt.further, OF lt_at_owner(4)])

theorem loop_thread_life_witness:
  "\<exists>s t. lt.reachable None 7 s \<and> lt_owner s = S_wake \<and> lt_result s = Some 7 \<and> loop_thread_step 7 s t \<and> life_left t < life_left s"
proof -
  let ?s = "lt_at None (Some 7) True (Some 7) S_wake W_loop"
  have o: "lt_owner ?s = S_wake" "lt_thread ?s \<noteq> W_end" by (simp_all add: lt_at_def)
  have "lt_result ?s = Some 7" using loop_thread_life [OF lt_exit_reached [of 7]] o(1) by simp
  moreover have "loop_thread_step 7 ?s (?s\<lparr>lt_owner := S_join\<rparr>)" by (rule exit_wakes [OF o])
  moreover from this have "life_left (?s\<lparr>lt_owner := S_join\<rparr>) < life_left ?s"
    using loop_thread_life [OF lt_exit_reached [of 7]] by blast
  ultimately show ?thesis using lt_exit_reached [of 7] o(1) by blast
qed

text \<open>
  The two defects.  The loop may be gone when \<open>exit\<close> looks at it after setting \<open>quit\<close>; and when \<open>_loop\<close> is not null
  before \<open>start\<close>, \<open>start\<close> may return that value before the thread has made a loop at all.
\<close>

theorem loop_thread_defects:
  "(\<exists>s. lt.reachable None own s \<and> lt_owner s = S_crashed) \<and>
   (\<exists>s. lt.reachable (Some garbage) own s \<and> lt_owner s = S_started \<and> lt_result s = Some garbage \<and> lt_thread s = W_lock)"
proof
  let ?s = "lt_at None None True (Some own) S_crashed W_end"
  have "lt.reachable None own ?s"
    by (rule lt_exit_reached [of own, THEN lt.further, OF lt_at_thread(5), THEN lt.further, OF lt_at_thread(6),
          THEN lt.further, OF lt_at_thread(7), THEN lt.further, OF lt_at_owner(5)])
  moreover have "lt_owner ?s = S_crashed" by (simp add: lt_at_def)
  ultimately show "\<exists>s. lt.reachable None own s \<and> lt_owner s = S_crashed" by blast
  let ?s = "lt_at None (Some garbage) False (Some garbage) S_started W_lock"
  have "lt.reachable (Some garbage) own ?s"
    by (rule lt_at_start [of "Some garbage" own, THEN lt.further, OF lt_at_owner(1), THEN lt.further, OF lt_at_owner(2)])
  moreover have "lt_owner ?s = S_started" "lt_result ?s = Some garbage" "lt_thread ?s = W_lock" by (simp_all add: lt_at_def)
  ultimately show "\<exists>s. lt.reachable (Some garbage) own s \<and> lt_owner s = S_started \<and> lt_result s = Some garbage \<and> lt_thread s = W_lock"
    by blast
qed

end
