(* ===== verification/Cpp_Tools.thy ===== *)
theory Cpp_Tools
  imports Sone_Prelude
begin

text \<open>
  Three small libraries: the timing wheel of \<^verbatim>\<open>src/cpp/timeWheel.h\<close> (slots of linked timers, over a store of
  nodes), the log tool of \<^verbatim>\<open>src/tools/Log.h\<close> and \<^verbatim>\<open>Log.cpp\<close>, and the shared vector of strings of
  \<^verbatim>\<open>src/cpp/primer.cpp\<close>.
\<close>

section \<open>The timing wheel\<close>

record tw_timer =
  rotation :: int
  tw_slot :: int
  tw_func :: "nat option"
  tw_data :: "nat option"
  tw_next :: "nat option"
  tw_prev :: "nat option"

type_synonym tw_store = "tw_timer option list"

definition SLOTS :: nat where "SLOTS = 60"

record timeWheel =
  tw_slots :: "nat option list"
  curslot :: int

text \<open>The constructor: \<open>mem\<close> is what the memory of the array holds before.\<close>

fun clear_slots :: "nat \<Rightarrow> nat \<Rightarrow> nat option list \<Rightarrow> nat option list" where
  "clear_slots i 0 slots = slots"
| "clear_slots i (Suc k) slots = clear_slots (i + 1) k (slots[i := None])"

definition timeWheel_new :: "nat option list \<Rightarrow> timeWheel" where
  "timeWheel_new mem = \<lparr>tw_slots = clear_slots 0 SLOTS mem, curslot = 0\<rparr>"

definition deref_tw :: "tw_store \<Rightarrow> nat \<Rightarrow> tw_timer result" where
  "deref_tw st p = (if p < length st then case st ! p of None \<Rightarrow> Inl Use_after_free | Some t \<Rightarrow> Inr t else Inl Use_after_free)"

text \<open>
  One slot of the destructor: the slot takes the successor, the node is deleted, until the slot is
  empty.  Every round deletes a node that is alive or fails, so the loop ends.
\<close>

function free_slot :: "nat option \<Rightarrow> tw_store \<Rightarrow> (nat option \<times> tw_store) result" where
  "free_slot None st = Inr (None, st)"
| "free_slot (Some p) st =
     (case deref_tw st p of Inl e \<Rightarrow> Inl e | Inr t \<Rightarrow> free_slot (tw_next t) (st[p := None]))"
  by pat_completeness auto

definition alive :: "tw_store \<Rightarrow> nat" where
  "alive st = length (filter (\<lambda>x. x \<noteq> None) st)"

lemma alive_free: "deref_tw st p = Inr t \<Longrightarrow> alive (st[p := None]) < alive st"
proof (induction st arbitrary: p)
  case Nil
  then show ?case by (simp add: deref_tw_def)
next
  case (Cons x st)
  then show ?case by (cases p) (auto simp: deref_tw_def alive_def split: if_splits option.splits)
qed

termination free_slot
  by (relation "measure (\<lambda>(_, st). alive st)") (use alive_free in auto)

fun free_slots :: "nat option list \<Rightarrow> tw_store \<Rightarrow> (nat option list \<times> tw_store) result" where
  "free_slots [] st = Inr ([], st)"
| "free_slots (s # slots) st =
     and_then (free_slot s st) (\<lambda>(s, st). and_then (free_slots slots st) (\<lambda>(slots, st). Inr (s # slots, st)))"

definition timeWheel_destroy :: "timeWheel \<Rightarrow> tw_store \<Rightarrow> (timeWheel \<times> tw_store) result" where
  "timeWheel_destroy w st = and_then (free_slots (tw_slots w) st) (\<lambda>(slots, st). Inr (w\<lparr>tw_slots := slots\<rparr>, st))"

lemma clear_slots_eq: "i + k \<le> length slots \<Longrightarrow> clear_slots i k slots = take i slots @ replicate k None @ drop (i + k) slots"
proof (induction i k slots rule: clear_slots.induct)
  case (2 i k slots)
  then have "clear_slots (i + 1) k (slots[i := None]) = take (i + 1) (slots[i := None]) @ replicate k None @ drop (i + 1 + k) (slots[i := None])"
    by simp
  also have "take (i + 1) (slots[i := None]) = take i slots @ [None]" using 2(2) by (simp add: take_Suc_conv_app_nth)
  finally show ?case by simp
qed simp

text \<open>The nodes of a slot, in order.\<close>

fun chain :: "tw_store \<Rightarrow> nat option \<Rightarrow> nat list \<Rightarrow> bool" where
  "chain st p [] \<longleftrightarrow> p = None"
| "chain st p (x # xs) \<longleftrightarrow> p = Some x \<and> (\<exists>t. deref_tw st x = Inr t \<and> chain st (tw_next t) xs)"

definition freed :: "nat set \<Rightarrow> tw_store \<Rightarrow> tw_store" where
  "freed A st = map (\<lambda>i. if i \<in> A then None else st ! i) [0..<length st]"

lemma deref_freed: "x \<notin> A \<Longrightarrow> deref_tw (freed A st) x = deref_tw st x"
  by (auto simp: deref_tw_def freed_def)

lemma freed_more: "(freed A st)[p := None] = freed (insert p A) st"
proof (cases "p < length st")
  case True
  then show ?thesis by (intro nth_equalityI) (auto simp: freed_def nth_list_update)
next
  case False
  then have "length (freed A st) \<le> p" by (simp add: freed_def)
  then have "(freed A st)[p := None] = freed A st" by (rule list_update_beyond)
  also have "\<dots> = freed (insert p A) st" using False by (auto simp: freed_def)
  finally show ?thesis .
qed

lemma chain_freed: "chain st p xs \<Longrightarrow> set xs \<inter> A = {} \<Longrightarrow> chain (freed A st) p xs"
  by (induction xs arbitrary: p) (auto simp: deref_freed)

lemma free_slot_chain:
  "chain st p xs \<Longrightarrow> distinct xs \<Longrightarrow> set xs \<inter> A = {} \<Longrightarrow> free_slot p (freed A st) = Inr (None, freed (A \<union> set xs) st)"
proof (induction xs arbitrary: p A)
  case (Cons x xs)
  then obtain t where t: "p = Some x" "deref_tw st x = Inr t" "chain st (tw_next t) xs" by auto
  have "free_slot (tw_next t) (freed (insert x A) st) = Inr (None, freed (insert x A \<union> set xs) st)"
    using Cons.prems by (intro Cons.IH [OF t(3)]) auto
  then show ?case using t(1,2) Cons.prems(3) by (simp add: deref_freed freed_more)
qed simp

lemma free_slots_chains:
  "list_all2 (chain st) slots xss \<Longrightarrow> distinct (concat xss) \<Longrightarrow> set (concat xss) \<inter> A = {} \<Longrightarrow>
     free_slots slots (freed A st) = Inr (replicate (length slots) None, freed (A \<union> set (concat xss)) st)"
proof (induction slots xss arbitrary: A rule: list_all2_induct)
  case (Cons s slots xs xss)
  have "free_slot s (freed A st) = Inr (None, freed (A \<union> set xs) st)"
    using Cons.prems by (intro free_slot_chain [OF Cons.hyps(1)]) auto
  moreover have "free_slots slots (freed (A \<union> set xs) st) = Inr (replicate (length slots) None, freed (A \<union> set xs \<union> set (concat xss)) st)"
    using Cons.prems by (intro Cons.IH) auto
  ultimately show ?case by (simp add: Un_assoc)
qed simp

text \<open>
  The wheel: a new one has empty slots whatever was in the memory; the destructor of a wheel whose slots are
  lists of different nodes frees exactly those nodes, ends and leaves the slots empty.
\<close>

theorem timeWheel_lifecycle:
  assumes "length mem = SLOTS" "list_all2 (chain st) (tw_slots w) xss" "distinct (concat xss)"
  shows "tw_slots (timeWheel_new mem) = replicate SLOTS None \<and>
    timeWheel_destroy w st = Inr (w\<lparr>tw_slots := replicate (length (tw_slots w)) None\<rparr>, freed (set (concat xss)) st)"
proof -
  have "freed {} st = st" by (rule nth_equalityI) (simp_all add: freed_def)
  then show ?thesis
    using free_slots_chains [OF assms(2,3), of "{}"] clear_slots_eq [of 0 SLOTS mem] assms(1)
    by (simp add: timeWheel_new_def timeWheel_destroy_def)
qed

definition sample_timers :: tw_store where
  "sample_timers =
     [Some \<lparr>rotation = 0, tw_slot = 0, tw_func = None, tw_data = None, tw_next = Some 2, tw_prev = None\<rparr>,
      Some \<lparr>rotation = 1, tw_slot = 1, tw_func = None, tw_data = None, tw_next = None, tw_prev = None\<rparr>,
      Some \<lparr>rotation = 0, tw_slot = 0, tw_func = None, tw_data = None, tw_next = None, tw_prev = Some 0\<rparr>]"

theorem timeWheel_lifecycle_witness:
  "timeWheel_destroy \<lparr>tw_slots = [Some 0, Some 1, None], curslot = 0\<rparr> sample_timers =
     Inr (\<lparr>tw_slots = [None, None, None], curslot = 0\<rparr>, [None, None, None])"
proof -
  have "list_all2 (chain sample_timers) (tw_slots \<lparr>tw_slots = [Some 0, Some 1, None], curslot = 0\<rparr>) [[0, 2], [1], []]"
    by (simp add: sample_timers_def deref_tw_def)
  from timeWheel_lifecycle [of "replicate SLOTS None", OF _ this]
  show ?thesis by (simp add: numeral_eq_Suc freed_def sample_timers_def upt_rec)
qed

section \<open>The log tool\<close>

datatype tool_level = DEBUG | INFO | WARN | ERROR | FATAL

fun level_number :: "tool_level \<Rightarrow> int" where
  "level_number DEBUG = 1" | "level_number INFO = 2" | "level_number WARN = 3" | "level_number ERROR = 4" | "level_number FATAL = 5"

record tool_event =
  te_file :: "string option"
  te_line :: int
  te_elapse :: int
  te_threadId :: int
  te_fiberId :: int
  te_time :: int
  te_content :: string

text \<open>
  A formatter has a pattern and items; the constructor keeps the pattern and nothing calls \<open>init\<close>, which
  has no definition.
\<close>

record tool_formatter =
  tf_pattern :: string
  tf_items :: "(tool_event \<Rightarrow> string) list"

definition tool_LogFormatter :: "string \<Rightarrow> tool_formatter" where
  "tool_LogFormatter pattern = \<lparr>tf_pattern = pattern, tf_items = []\<rparr>"

definition tool_format :: "tool_event \<Rightarrow> tool_formatter \<Rightarrow> string" where
  "tool_format event f = fold (\<lambda>i ss. ss @ i event) (tf_items f) []"

text \<open>The appenders of a logger are pointers; \<open>m_level\<close> gets no value from the constructor and is an argument.\<close>

record tool_logger =
  tl_name :: string
  tl_level :: int
  tl_appenders :: "nat list"

definition tool_Logger :: "int \<Rightarrow> string \<Rightarrow> tool_logger" where
  "tool_Logger memory name = \<lparr>tl_name = name, tl_level = memory, tl_appenders = []\<rparr>"

text \<open>The calls of the appenders, in order.\<close>

definition tool_log :: "tool_level \<Rightarrow> tool_event \<Rightarrow> tool_logger \<Rightarrow> (nat \<times> tool_level \<times> tool_event) list" where
  "tool_log level event l = (if tl_level l \<le> level_number level then map (\<lambda>it. (it, level, event)) (tl_appenders l) else [])"

definition tool_debug :: "tool_event \<Rightarrow> tool_logger \<Rightarrow> (nat \<times> tool_level \<times> tool_event) list" where "tool_debug = tool_log DEBUG"
definition tool_info :: "tool_event \<Rightarrow> tool_logger \<Rightarrow> (nat \<times> tool_level \<times> tool_event) list" where "tool_info = tool_log INFO"
definition tool_warn :: "tool_event \<Rightarrow> tool_logger \<Rightarrow> (nat \<times> tool_level \<times> tool_event) list" where "tool_warn = tool_log WARN"
definition tool_error :: "tool_event \<Rightarrow> tool_logger \<Rightarrow> (nat \<times> tool_level \<times> tool_event) list" where "tool_error = tool_log ERROR"
definition tool_fatal :: "tool_event \<Rightarrow> tool_logger \<Rightarrow> (nat \<times> tool_level \<times> tool_event) list" where "tool_fatal = tool_log FATAL"

definition tool_addAppender :: "nat \<Rightarrow> tool_logger \<Rightarrow> tool_logger" where
  "tool_addAppender a l = l\<lparr>tl_appenders := tl_appenders l @ [a]\<rparr>"

definition tool_setLevel :: "tool_level \<Rightarrow> tool_logger \<Rightarrow> tool_logger" where
  "tool_setLevel level l = l\<lparr>tl_level := level_number level\<rparr>"

text \<open>
  The loop of \<open>delAppender\<close>: \<open>erase\<close> frees the node of the iterator, and the loop then moves the iterator on, which
  reads the node.
\<close>

fun del_loop :: "nat \<Rightarrow> nat list \<Rightarrow> nat list \<Rightarrow> nat list result" where
  "del_loop a seen [] = Inr seen"
| "del_loop a seen (x # xs) = (if x = a then Inl Use_after_free else del_loop a (seen @ [x]) xs)"

definition tool_delAppender :: "nat \<Rightarrow> tool_logger \<Rightarrow> tool_logger result" where
  "tool_delAppender a l = and_then (del_loop a [] (tl_appenders l)) (\<lambda>as. Inr (l\<lparr>tl_appenders := as\<rparr>))"

text \<open>
  The log tool: an event reaches every appender once and in the order they were added, exactly when its
  level is at least the one set; an appender cannot be taken out again, because every call of \<open>delAppender\<close> that finds
  one reads freed memory; and a formatter writes nothing, whatever its pattern.
\<close>

theorem tool_logger_behaviour:
  assumes "l = tool_setLevel lev (fold tool_addAppender as (tool_Logger memory name))"
  shows "tool_log level event l = (if level_number lev \<le> level_number level then map (\<lambda>a. (a, level, event)) as else []) \<and>
    tool_delAppender a l = (if a \<in> set as then Inl Use_after_free else Inr l) \<and>
    tool_format event (tool_LogFormatter pattern) = []"
proof -
  have app: "fold tool_addAppender as l0 = l0\<lparr>tl_appenders := tl_appenders l0 @ as\<rparr>" for l0
    by (induction as arbitrary: l0) (simp_all add: tool_addAppender_def)
  have del: "del_loop a seen xs = (if a \<in> set xs then Inl Use_after_free else Inr (seen @ xs))" for seen xs
    by (induction xs arbitrary: seen) auto
  show ?thesis
    by (simp add: assms app del tool_log_def tool_setLevel_def tool_Logger_def tool_delAppender_def tool_format_def tool_LogFormatter_def)
qed

theorem tool_logger_behaviour_witness:
  "tool_delAppender 4 (tool_setLevel WARN (fold tool_addAppender [4, 9] (tool_Logger 0 ''root''))) = Inl Use_after_free"
  using tool_logger_behaviour [OF refl, where a = 4 and as = "[4, 9]"] by simp

section \<open>A vector of strings that copies share\<close>

text \<open>A blob is a shared pointer; the store has the use count and the vector behind each pointer.\<close>

type_synonym blob_store = "nat \<rightharpoonup> nat \<times> string list"

definition deref_blob :: "blob_store \<Rightarrow> nat \<Rightarrow> string list result" where
  "deref_blob st p = (case st p of None \<Rightarrow> Inl Use_after_free | Some (_, v) \<Rightarrow> Inr v)"

definition strblob_new :: "nat \<Rightarrow> blob_store \<Rightarrow> blob_store" where
  "strblob_new p st = st(p \<mapsto> (1, []))"

definition strblob_of_list :: "nat \<Rightarrow> string list \<Rightarrow> blob_store \<Rightarrow> blob_store" where
  "strblob_of_list p il st = st(p \<mapsto> (1, il))"

text \<open>The copy and the end of a blob, which the compiler writes: the count of the pointer goes up and down.\<close>

definition strblob_copy :: "nat \<Rightarrow> blob_store \<Rightarrow> blob_store" where
  "strblob_copy p st = (case st p of None \<Rightarrow> st | Some (n, v) \<Rightarrow> st(p \<mapsto> (n + 1, v)))"

definition strblob_destroy :: "nat \<Rightarrow> blob_store \<Rightarrow> blob_store" where
  "strblob_destroy p st = (case st p of None \<Rightarrow> st | Some (n, v) \<Rightarrow> st(p := if n \<le> 1 then None else Some (n - 1, v)))"

definition strblob_empty :: "nat \<Rightarrow> blob_store \<Rightarrow> bool result" where
  "strblob_empty p st = and_then (deref_blob st p) (\<lambda>v. Inr (v = []))"

definition strblob_size :: "nat \<Rightarrow> blob_store \<Rightarrow> nat result" where
  "strblob_size p st = and_then (deref_blob st p) (\<lambda>v. Inr (length v))"

definition strblob_push_back :: "nat \<Rightarrow> string \<Rightarrow> blob_store \<Rightarrow> blob_store result" where
  "strblob_push_back p s st = (case st p of None \<Rightarrow> Inl Use_after_free | Some (n, v) \<Rightarrow> Inr (st(p \<mapsto> (n, v @ [s]))))"

definition strblob_pop_back :: "nat \<Rightarrow> blob_store \<Rightarrow> blob_store result" where
  "strblob_pop_back p st =
     (case st p of
        None \<Rightarrow> Inl Use_after_free
      | Some (n, v) \<Rightarrow> if v = [] then Inl Out_of_bounds else Inr (st(p \<mapsto> (n, butlast v))))"

definition strblob_front :: "nat \<Rightarrow> blob_store \<Rightarrow> string result" where
  "strblob_front p st =
     and_then (strblob_size p st) (\<lambda>n. if n = 0 then Inl Out_of_range else and_then (deref_blob st p) (\<lambda>v. cell v 0))"

definition strblob_back :: "nat \<Rightarrow> blob_store \<Rightarrow> string result" where
  "strblob_back p st =
     and_then (strblob_size p st) (\<lambda>n. if n = 0 then Inl Out_of_range else and_then (deref_blob st p) (\<lambda>v. cell v (n - 1)))"

lemmas blob_defs = deref_blob_def strblob_empty_def strblob_size_def strblob_push_back_def strblob_pop_back_def
  strblob_front_def strblob_back_def strblob_copy_def strblob_destroy_def cell_def

text \<open>
  Copies of a blob share their strings: what is pushed through one is at the back of the other, taking it off again
  restores both, and the vector lives until the last of them is gone.  On an empty blob \<open>front\<close> and \<open>back\<close> throw, but
  \<open>pop_back\<close> leaves the vector.
\<close>

theorem strblob_shared:
  assumes "st p = Some (n, v)" "0 < n"
  shows "(\<exists>st'. strblob_push_back p s (strblob_copy p st) = Inr st' \<and> strblob_back p st' = Inr s \<and>
      strblob_size p (strblob_destroy p st') = Inr (length v + 1) \<and>
      strblob_front p st' = Inr (hd (v @ [s])) \<and> strblob_pop_back p st' = Inr (strblob_copy p st)) \<and>
    strblob_destroy p (strblob_copy p st) = st \<and> (n = 1 \<longrightarrow> strblob_destroy p st p = None) \<and>
    (v = [] \<longrightarrow> strblob_front p st = Inl Out_of_range \<and> strblob_back p st = Inl Out_of_range \<and> strblob_pop_back p st = Inl Out_of_bounds)"
  using assms by (cases v) (auto simp: blob_defs fun_upd_idem)

theorem strblob_shared_witness:
  "\<exists>st'. strblob_push_back 3 ''b'' (strblob_copy 3 (strblob_of_list 3 [''a''] Map.empty)) = Inr st' \<and> strblob_back 3 st' = Inr ''b''"
  using strblob_shared [of "strblob_of_list 3 [''a''] Map.empty" 3 1 "[''a'']" "''b''"] by (auto simp: strblob_of_list_def)

end
