(* ===== verification/C_Programs.thy ===== *)
theory C_Programs
  imports Sone_Prelude Sone_Steps
begin

text \<open>
  Three C programs: the recursive listing of a directory (\<^verbatim>\<open>src/io/deepDir.c\<close>), the synchronisation of a parent
  with its child by signals (\<^verbatim>\<open>src/signal/sync_proc.c\<close>), a step relation, and a \<open>sleep\<close> made of an alarm and
  \<open>sigsuspend\<close> (\<^verbatim>\<open>src/signal/sleep.c\<close>).
\<close>

section \<open>Listing a directory\<close>

text \<open>
  What \<open>readdir\<close> yields: a file with its size, unless \<open>stat\<close> fails, and a directory with its entries, unless \<open>opendir\<close>
  fails.  The end of the process by \<open>exit\<close> counts as \<^const>\<open>Aborted\<close>.
\<close>

datatype dirent = Dfile string "nat option" | Ddir string "dirent list option"

definition PATH_SIZE :: nat where "PATH_SIZE = 1024"

text \<open>The three calls of \<open>strcat\<close> on the zeroed array, which needs room for the NUL too.\<close>

definition newpath :: "string \<Rightarrow> string \<Rightarrow> string result" where
  "newpath path name =
     (let p = path @ ''/'' @ name in if length p < PATH_SIZE then Inr p else Inl Out_of_bounds)"

definition dashes :: "int \<Rightarrow> string" where
  "dashes n = replicate (nat n) CHR ''-''"

definition print_file_info :: "string \<Rightarrow> nat option \<Rightarrow> string result" where
  "print_file_info name st =
     (case st of None \<Rightarrow> Inl Aborted | Some sz \<Rightarrow> Inr (''File name:'' @ name @ '',File size:'' @ to_string sz))"

text \<open>The body of the loop over the entries; \<open>n\<close> is the global counter, which a call has incremented on entry.\<close>

fun deep_entries :: "string \<Rightarrow> int \<Rightarrow> dirent list \<Rightarrow> (string list \<times> int) result" where
  "deep_entries path n [] = Inr ([], n)"
| "deep_entries path n (Dfile name st # es) =
     (if name = ''.'' \<or> name = ''..'' then deep_entries path n es
      else and_then (newpath path name) (\<lambda>p.
           and_then (print_file_info p st) (\<lambda>l.
           and_then (deep_entries path n es) (\<lambda>(ls, n'). Inr ((dashes n @ l) # ls, n')))))"
| "deep_entries path n (Ddir name sub # es) =
     (if name = ''.'' \<or> name = ''..'' then deep_entries path n es
      else and_then (newpath path name) (\<lambda>p.
           case sub of
             None \<Rightarrow> Inl Null_deref
           | Some ds \<Rightarrow>
               and_then (deep_entries p (n + 1) ds) (\<lambda>(ls, n').
               and_then (deep_entries path (n' - 1) es) (\<lambda>(ls', n'').
                 Inr ((dashes n @ ''Dir:'' @ p) # ls @ ls', n'')))))"

definition deep :: "string \<Rightarrow> int \<Rightarrow> dirent list option \<Rightarrow> (string list \<times> int) result" where
  "deep path n dir = (case dir of None \<Rightarrow> Inl Null_deref | Some es \<Rightarrow> deep_entries path (n + 1) es)"

definition deep_main :: "string option \<Rightarrow> (string \<Rightarrow> dirent list option) \<Rightarrow> (string list \<times> int) result" where
  "deep_main arg fs = (case arg of None \<Rightarrow> deep ''.'' (- 1) (fs ''.'') | Some p \<Rightarrow> deep p (- 1) (fs p))"

text \<open>The listing meant: every entry below its directory, indented by its depth.\<close>

definition dotted :: "string \<Rightarrow> bool" where
  "dotted name \<longleftrightarrow> name = ''.'' \<or> name = ''..''"

fun tree_ok :: "nat \<Rightarrow> dirent \<Rightarrow> bool" where
  "tree_ok len (Dfile name st) \<longleftrightarrow> dotted name \<or> st \<noteq> None \<and> len + 1 + length name < PATH_SIZE"
| "tree_ok len (Ddir name sub) \<longleftrightarrow>
     dotted name \<or>
     len + 1 + length name < PATH_SIZE \<and> (case sub of None \<Rightarrow> False | Some ds \<Rightarrow> (\<forall>d \<in> set ds. tree_ok (len + 1 + length name) d))"

fun tree_lines :: "nat \<Rightarrow> string \<Rightarrow> dirent \<Rightarrow> string list" where
  "tree_lines depth path (Dfile name st) =
     (if dotted name then []
      else [replicate depth CHR ''-'' @ ''File name:'' @ path @ ''/'' @ name @ '',File size:'' @ to_string (the st)])"
| "tree_lines depth path (Ddir name sub) =
     (if dotted name then []
      else (replicate depth CHR ''-'' @ ''Dir:'' @ path @ ''/'' @ name) #
           (case sub of None \<Rightarrow> [] | Some ds \<Rightarrow> concat (map (tree_lines (depth + 1) (path @ ''/'' @ name)) ds)))"

lemma deep_entries_lines:
  "\<forall>e \<in> set es. tree_ok (length path) e \<Longrightarrow>
     deep_entries path (int depth) es = Inr (concat (map (tree_lines depth path) es), int depth)"
proof (induction path "int depth" es arbitrary: depth rule: deep_entries.induct)
  case (2 path name st es)
  then show ?case
    by (cases st) (auto simp: dotted_def newpath_def print_file_info_def dashes_def)
next
  case (3 path name sub es)
  show ?case
  proof (cases "dotted name")
    case True
    then show ?thesis using 3 by (auto simp: dotted_def)
  next
    case False
    then obtain ds where sub: "sub = Some ds" "length path + 1 + length name < PATH_SIZE"
        "\<forall>d \<in> set ds. tree_ok (length path + 1 + length name) d"
      using "3.prems" by (auto split: option.splits)
    let ?p = "path @ ''/'' @ name"
    have p: "newpath path name = Inr ?p" using sub(2) by (simp add: newpath_def)
    have n: "name \<noteq> ''.''" "name \<noteq> ''..''" using False by (auto simp: dotted_def)
    have d1: "int depth + 1 = int (depth + 1)" by simp
    have "deep_entries ?p (int (depth + 1)) ds = Inr (concat (map (tree_lines (depth + 1) ?p) ds), int (depth + 1))"
      using "3.hyps"(2) [of ?p ds "depth + 1"] n p sub by (auto simp: d1)
    moreover have "deep_entries path (int depth) es = Inr (concat (map (tree_lines depth path) es), int depth)"
      using "3.hyps"(3) "3.prems" n p sub calculation d1 by auto
    ultimately show ?thesis using n p sub False by (simp add: d1 dashes_def)
  qed
qed simp

lemma and_then_Inr: "and_then r Inr = r"
  by (cases r) simp_all

lemma deep_entries_first:
  "deep_entries path n (e # es) = and_then (deep_entries path n [e]) (\<lambda>(ls, n'). and_then (deep_entries path n' es) (\<lambda>(ls', n'). Inr (ls @ ls', n')))"
proof (cases e)
  case (Dfile name st)
  then show ?thesis by (cases "newpath path name"; cases st; cases "deep_entries path n es") (auto simp: print_file_info_def and_then_Inr)
next
  case (Ddir name sub)
  show ?thesis
  proof (cases sub)
    case (Some ds)
    then show ?thesis using Ddir
      by (cases "newpath path name"; cases "deep_entries (path @ ''/'' @ name) (n + 1) ds")
        (auto simp: newpath_def Let_def and_then_Inr split: if_splits)
  qed (use Ddir in \<open>cases "newpath path name"; auto simp: and_then_Inr\<close>)
qed

text \<open>
  The listing of a directory whose entries can all be opened and whose paths fit the array: every entry once, below its
  directory, indented by its depth, although the depth is kept in a global counter that the callee increments and
  the caller decrements; the counter is back where it was.  A path of 1024 characters is written behind the array.
\<close>

theorem deep_lists_tree:
  assumes "\<forall>e \<in> set es. tree_ok (length path) e"
  shows "deep path (- 1) (Some es) = Inr (concat (map (tree_lines 0 path) es), 0) \<and>
    (\<not> dotted name \<and> PATH_SIZE \<le> length path + 1 + length name \<longrightarrow>
       deep path (- 1) (Some (es @ [Dfile name st])) = Inl Out_of_bounds)"
proof
  show "deep path (- 1) (Some es) = Inr (concat (map (tree_lines 0 path) es), 0)"
    using deep_entries_lines [OF assms, of 0] by (simp add: deep_def)
  have long: "deep_entries path (int d) (es @ [Dfile name st]) = Inl Out_of_bounds"
    if "\<not> dotted name" "PATH_SIZE \<le> length path + 1 + length name" "\<forall>e \<in> set es. tree_ok (length path) e" for es d
    using that(3)
  proof (induction es)
    case Nil
    then show ?case using that(1,2) by (simp add: dotted_def newpath_def)
  next
    case (Cons e es)
    have ih: "deep_entries path (int d) (es @ [Dfile name st]) = Inl Out_of_bounds" using Cons by simp
    have one: "deep_entries path (int d) [e] = Inr (concat (map (tree_lines d path) [e]), int d)"
      using Cons.prems by (intro deep_entries_lines) simp
    show ?case using ih one deep_entries_first [of path "int d" e "es @ [Dfile name st]"] by simp
  qed
  show "\<not> dotted name \<and> PATH_SIZE \<le> length path + 1 + length name \<longrightarrow>
       deep path (- 1) (Some (es @ [Dfile name st])) = Inl Out_of_bounds"
    using long [OF _ _ assms, of 0] by (simp add: deep_def)
qed

theorem deep_lists_tree_witness:
  "deep ''d'' (- 1) (Some [Ddir ''.'' None, Ddir ''s'' (Some [Dfile ''f'' (Some 3)]), Dfile ''g'' (Some 0)]) =
     Inr ([''Dir:d/s'', ''-File name:d/s/f,File size:3'', ''File name:d/g,File size:0''], 0)"
proof -
  have "\<forall>e \<in> set [Ddir ''.'' None, Ddir ''s'' (Some [Dfile ''f'' (Some 3)]), Dfile ''g'' (Some 0)]. tree_ok (length ''d'') e"
    by (simp add: dotted_def PATH_SIZE_def)
  from deep_lists_tree [OF this] show ?thesis by (simp add: dotted_def to_string.simps digit_char_table)
qed

section \<open>Parent and child\<close>

text \<open>
  Both signals are blocked before the \<open>fork\<close>; \<open>sigsuspend\<close> unblocks them and waits in one step, so that a signal that came
  before is delivered then.  The child prints and signals the parent; the parent waits for the flag, prints and reaps the child.
\<close>

datatype signo = SIGUSR1 | SIGUSR2 | SIG_other nat

definition child_line :: string where "child_line = ''first child''"
definition parent_line :: string where "parent_line = ''later parent''"

datatype parent_pc = P_test | P_suspend | P_query | P_print | P_wait | P_done
datatype child_pc = C_print | C_tell | C_exit | C_dead

record sync_proc =
  sp_flag :: bool
  sp_pending :: bool
  sp_mask :: "signo set"
  sp_old :: "signo set"
  sp_parent :: parent_pc
  sp_child :: child_pc
  sp_out :: "string list"

definition tell_wait :: "signo set \<Rightarrow> sync_proc \<Rightarrow> bool" where
  "tell_wait m s \<longleftrightarrow>
     s = \<lparr>sp_flag = False, sp_pending = False, sp_mask = m \<union> {SIGUSR1, SIGUSR2}, sp_old = m,
          sp_parent = P_test, sp_child = C_print, sp_out = []\<rparr>"

inductive sync_step :: "sync_proc \<Rightarrow> sync_proc \<Rightarrow> bool" where
  child_prints: "sp_child s = C_print \<Longrightarrow> sync_step s (s\<lparr>sp_out := sp_out s @ [child_line], sp_child := C_tell\<rparr>)"
| tell_parent: "sp_child s = C_tell \<Longrightarrow> sync_step s (s\<lparr>sp_pending := True, sp_child := C_exit\<rparr>)"
| child_exits: "sp_child s = C_exit \<Longrightarrow> sync_step s (s\<lparr>sp_child := C_dead\<rparr>)"
| wait_child_tests: "sp_parent s = P_test \<Longrightarrow> \<not> sp_flag s \<Longrightarrow> sync_step s (s\<lparr>sp_parent := P_suspend\<rparr>)"
| wait_child_handler: "sp_parent s = P_suspend \<Longrightarrow> sp_pending s \<Longrightarrow>
    sync_step s (s\<lparr>sp_pending := False, sp_flag := True, sp_parent := P_test\<rparr>)"
| wait_child_leaves: "sp_parent s = P_test \<Longrightarrow> sp_flag s \<Longrightarrow> sync_step s (s\<lparr>sp_flag := False, sp_parent := P_query\<rparr>)"
| wait_child_queries: "sp_parent s = P_query \<Longrightarrow> sync_step s (s\<lparr>sp_old := sp_mask s, sp_parent := P_print\<rparr>)"
| parent_prints: "sp_parent s = P_print \<Longrightarrow> sync_step s (s\<lparr>sp_out := sp_out s @ [parent_line], sp_parent := P_wait\<rparr>)"
| parent_reaps: "sp_parent s = P_wait \<Longrightarrow> sp_child s = C_dead \<Longrightarrow> sync_step s (s\<lparr>sp_parent := P_done\<rparr>)"

interpretation sp: transitions "tell_wait m" sync_step for m .

definition sync_inv :: "signo set \<Rightarrow> sync_proc \<Rightarrow> bool" where
  "sync_inv m s \<longleftrightarrow>
     sp_mask s = m \<union> {SIGUSR1, SIGUSR2} \<and>
     (sp_flag s \<longrightarrow> sp_parent s = P_test) \<and>
     (sp_pending s \<longrightarrow> \<not> sp_flag s \<and> sp_parent s \<in> {P_test, P_suspend} \<and> sp_child s \<in> {C_exit, C_dead}) \<and>
     (sp_flag s \<or> sp_parent s \<notin> {P_test, P_suspend} \<longrightarrow> sp_child s \<in> {C_exit, C_dead}) \<and>
     (sp_child s \<in> {C_exit, C_dead} \<and> sp_parent s \<in> {P_test, P_suspend} \<longrightarrow> sp_pending s \<or> sp_flag s) \<and>
     (sp_parent s = P_done \<longrightarrow> sp_child s = C_dead) \<and>
     (sp_parent s \<in> {P_print, P_wait, P_done} \<longrightarrow> sp_old s = sp_mask s) \<and>
     sp_out s = (if sp_child s = C_print then [] else [child_line]) @ (if sp_parent s \<in> {P_wait, P_done} then [parent_line] else [])"

lemma sync_inv_step: "sync_inv m s \<Longrightarrow> sync_step s t \<Longrightarrow> sync_inv m t"
  by (erule sync_step.cases) (auto simp: sync_inv_def)

lemma sync_inv_reachable: "sp.reachable m s \<Longrightarrow> sync_inv m s"
proof (erule sp.invariantI)
  show "tell_wait m s \<Longrightarrow> sync_inv m s" for s by (simp add: tell_wait_def sync_inv_def)
qed (rule sync_inv_step)

fun child_left :: "child_pc \<Rightarrow> nat" where
  "child_left C_print = 3" | "child_left C_tell = 2" | "child_left C_exit = 1" | "child_left C_dead = 0"

fun parent_left :: "bool \<Rightarrow> parent_pc \<Rightarrow> nat" where
  "parent_left f P_test = (if f then 4 else 6)" | "parent_left f P_suspend = 5" | "parent_left f P_query = 3"
| "parent_left f P_print = 2" | "parent_left f P_wait = 1" | "parent_left f P_done = 0"

definition sync_left :: "sync_proc \<Rightarrow> nat" where
  "sync_left s = child_left (sp_child s) + parent_left (sp_flag s) (sp_parent s)"

lemma sync_left_step: "sync_inv m s \<Longrightarrow> sync_step s t \<Longrightarrow> sync_left t < sync_left s"
  by (erule sync_step.cases) (auto simp: sync_left_def sync_inv_def)

lemma sync_stuck:
  assumes inv: "sync_inv m s" and ends: "\<And>t. \<not> sync_step s t"
  shows "sp_parent s = P_done"
proof -
  have "sp_child s \<noteq> C_print" "sp_child s \<noteq> C_tell" "sp_child s \<noteq> C_exit"
    using ends child_prints [of s] tell_parent [of s] child_exits [of s] by blast+
  then have c: "sp_child s = C_dead" by (cases "sp_child s") auto
  show ?thesis
  proof (cases "sp_parent s")
    case P_test
    then show ?thesis using ends wait_child_tests [of s] wait_child_leaves [of s] by blast
  next
    case P_suspend
    then have "sp_pending s" using inv c by (auto simp: sync_inv_def)
    then show ?thesis using P_suspend ends wait_child_handler [of s] by blast
  next
    case P_wait
    then show ?thesis using c ends parent_reaps [of s] by blast
  qed (use ends wait_child_queries [of s] parent_prints [of s] in blast)+
qed

text \<open>
  The child's line always comes before the parent's, and the signal is never lost: every run ends, after at most nine
  steps, with both lines printed and the child reaped.  The signals stay blocked: the call that is meant to restore the mask
  only stores the present one in the variable of the old.
\<close>

theorem parent_after_child:
  assumes "sp.reachable m s"
  shows "sp_out s \<in> {[], [child_line], [child_line, parent_line]} \<and>
    (\<forall>t. sync_step s t \<longrightarrow> sync_left t < sync_left s) \<and> sync_left s \<le> 9 \<and>
    ((\<forall>t. \<not> sync_step s t) \<longrightarrow> sp_out s = [child_line, parent_line] \<and> sp_child s = C_dead \<and>
       sp_mask s = m \<union> {SIGUSR1, SIGUSR2} \<and> sp_old s = sp_mask s)"
proof (intro conjI allI impI)
  note inv = sync_inv_reachable [OF assms]
  have out: "sp_out s = (if sp_child s = C_print then [] else [child_line]) @ (if sp_parent s \<in> {P_wait, P_done} then [parent_line] else [])"
    using inv unfolding sync_inv_def by (elim conjE)
  have late: "sp_parent s \<in> {P_wait, P_done} \<Longrightarrow> sp_child s \<noteq> C_print" using inv unfolding sync_inv_def by auto
  show "sp_out s \<in> {[], [child_line], [child_line, parent_line]}"
    using late by (cases "sp_parent s \<in> {P_wait, P_done}"; cases "sp_child s = C_print") (simp_all add: out)
  show "sync_left t < sync_left s" if "sync_step s t" for t by (rule sync_left_step [OF inv that])
  have "child_left c \<le> 3" "parent_left f p \<le> 6" for c f p by (cases c; simp) (cases p; simp)
  then show "sync_left s \<le> 9" unfolding sync_left_def using add_mono by fastforce
  assume "\<forall>t. \<not> sync_step s t"
  then have d: "sp_parent s = P_done" using sync_stuck [OF inv] by blast
  then show "sp_child s = C_dead" "sp_mask s = m \<union> {SIGUSR1, SIGUSR2}" "sp_old s = sp_mask s"
    using inv unfolding sync_inv_def by simp_all
  show "sp_out s = [child_line, parent_line]" using d late by (simp add: out)
qed

theorem parent_after_child_witness:
  "\<exists>s t. sp.reachable {} s \<and> sync_step s t \<and> sync_left t < sync_left s \<and> sp_out s = [child_line]"
proof -
  let ?s0 = "\<lparr>sp_flag = False, sp_pending = False, sp_mask = {} \<union> {SIGUSR1, SIGUSR2}, sp_old = {},
          sp_parent = P_test, sp_child = C_print, sp_out = []\<rparr>"
  let ?s1 = "?s0\<lparr>sp_out := sp_out ?s0 @ [child_line], sp_child := C_tell\<rparr>"
  have "sp.reachable {} ?s0" by (rule sp.initial) (simp add: tell_wait_def)
  moreover have "sync_step ?s0 ?s1" by (rule child_prints) simp
  ultimately have r: "sp.reachable {} ?s1" by (rule sp.further)
  have st: "sync_step ?s1 (?s1\<lparr>sp_pending := True, sp_child := C_exit\<rparr>)" by (rule tell_parent) simp
  moreover have "sp_out ?s1 = [child_line]" by simp
  ultimately show ?thesis using r parent_after_child [OF r] by blast
qed

section \<open>Sleeping\<close>

text \<open>The signal mask, what is done on \<open>SIGALRM\<close>, and the seconds until the alarm, if one is set.\<close>

definition SIGALRM :: nat where "SIGALRM = 14"

datatype disposition = Sig_default | Sig_wakeup | Sig_handler nat

record sleeper =
  sl_mask :: "nat set"
  sl_action :: disposition
  sl_alarm :: "nat option"

definition set_alarm :: "nat \<Rightarrow> sleeper \<Rightarrow> nat \<times> sleeper" where
  "set_alarm sec s =
     ((case sl_alarm s of None \<Rightarrow> 0 | Some r \<Rightarrow> r), s\<lparr>sl_alarm := if sec = 0 then None else Some sec\<rparr>)"

text \<open>
  \<open>sigsuspend\<close> returns after a signal that is caught: the alarm, or another one that comes before it, here after \<open>t\<close>
  seconds.  \<open>None\<close> is a wait that never ends.
\<close>

definition sigsuspend :: "nat set \<Rightarrow> nat option \<Rightarrow> sleeper \<Rightarrow> sleeper option" where
  "sigsuspend blocked other s =
     (case other of
        Some t \<Rightarrow> Some (s\<lparr>sl_alarm := map_option (\<lambda>r. r - t) (sl_alarm s)\<rparr>)
      | None \<Rightarrow> if sl_alarm s \<noteq> None \<and> SIGALRM \<notin> blocked then Some (s\<lparr>sl_alarm := None\<rparr>) else None)"

definition sleep_call :: "nat option \<Rightarrow> nat \<Rightarrow> sleeper \<Rightarrow> (nat \<times> sleeper) option" where
  "sleep_call other sec s =
     (let omask = sl_mask s;
          s = s\<lparr>sl_mask := omask \<union> {SIGALRM}\<rparr>;
          oact = sl_action s;
          s = s\<lparr>sl_action := Sig_wakeup\<rparr>;
          s = snd (set_alarm sec s);
          susmask = omask - {SIGALRM}
      in case sigsuspend susmask other s of
           None \<Rightarrow> None
         | Some s \<Rightarrow>
             let (res, s) = set_alarm 0 s;
                 s = s\<lparr>sl_mask := omask\<rparr>;
                 s = s\<lparr>sl_action := oact\<rparr>
             in Some (res, s))"

text \<open>
  \<open>sleep\<close> returns 0 when the time is over and the rest of it when another signal ends it, with the mask and the action of
  \<open>SIGALRM\<close> as they were, also when the caller had blocked that signal; an alarm the caller had set is lost.
  Sleeping for 0 seconds does not end before some other signal comes.
\<close>

theorem sleep_restores:
  "(\<forall>t < sec. sleep_call (Some t) sec s = Some (sec - t, s\<lparr>sl_alarm := None\<rparr>)) \<and>
   sleep_call None sec s = (if sec = 0 then None else Some (0, s\<lparr>sl_alarm := None\<rparr>))"
  by (cases s) (auto simp: sleep_call_def set_alarm_def sigsuspend_def Let_def)

theorem sleep_restores_witness:
  "sleep_call (Some 2) 5 \<lparr>sl_mask = {14}, sl_action = Sig_handler 3, sl_alarm = Some 9\<rparr> =
     Some (3, \<lparr>sl_mask = {14}, sl_action = Sig_handler 3, sl_alarm = None\<rparr>)"
  using sleep_restores [of 5 "\<lparr>sl_mask = {14}, sl_action = Sig_handler 3, sl_alarm = Some 9\<rparr>"] by simp

end
