(* ===== verification/Spec2Isabelle.thy ===== *)
theory Spec2Isabelle
  imports Server_Clients Thread_Pool Philosophers Sone_Log Sta_Algorithms Sta_Lists Sta_Trees
    Prac_LRU Cpp_Util Base64 Kmp C_Exercises Chat_Room Poll_Chat Sone_Threads Cpp_Tools C_Programs
begin

text \<open>
  \<^bold>\<open>The program.\<close>  The repository is built around an HTTP server in C++
  (\<^verbatim>\<open>src/http_server\<close>), with a container and thread exercise (\<^verbatim>\<open>src/cpp\<close>), a small
  library of algorithms and data structures (\<^verbatim>\<open>src/sta\<close>), a chat over pipes (\<^verbatim>\<open>src/chatroom\<close>) and
  C programs beside it.  The server accepts connections in one
  loop and gives each to one of several loop threads, chosen by its descriptor.  A loop waits in
  \<open>epoll\<close>, runs the callbacks of the ready descriptors and then the calls other threads have left for
  it.  Input is read into the buffer of the connection, parsed line by line, and answered with an
  error page, a file (through a cache of file contents), or the output of a PHP process reached over
  FastCGI.  A reply the kernel does not take at once is kept in the output buffer.  A connection is
  closed after the reply, or kept under a timer in a heap that an alarm signal drives.  Everything
  writes to three log files.

  \<^bold>\<open>The theories,\<close> in the order of their imports; each opens with its own description.

  \<^item> \<open>Sone_Prelude\<close>: the errors of C++ as values (null and out-of-bounds access, use after free,
    exceptions), the result type with its sequencing \<open>and_then\<close>, the integer conversions of a 64-bit
    target, reads and writes of raw memory, C strings, generic lemmas.  \<open>Sone_Steps\<close>: interleaved threads
    as transition systems (locale \<open>transitions\<close>): reachability, invariants, measures.
  \<^item> \<open>Cxx_Map\<close>: \<open>std::map\<close> over a strict weak order (a locale, interpreted for the
    case-insensitive and the plain order of strings).
  \<^item> \<open>Sone_Buffer\<close> (\<^verbatim>\<open>Buffer.cpp\<close>): the byte buffer, kept at the width of its indices.  Appending and
    reading refine appending to a list of bytes, except where compaction overflows, which is proved.
  \<^item> \<open>Http_Message\<close> (\<^verbatim>\<open>http.cpp\<close>), \<open>Http_Util\<close> (\<^verbatim>\<open>utils.cpp\<close>), \<open>Http_Parser\<close> (the parser in
    \<^verbatim>\<open>HttpServer.cpp\<close>), \<open>Http_Line_Parser\<close> (its specification on text): the tables, headers, requests and
    responses; URL decoding and dates; the parse loop with its buffer indices.  The loop ends on every input and
    computes the specification, so that printed requests are read back, input in pieces is read as
    input at once, and no memory outside the buffer is touched; the inputs that end the process with an
    exception are characterised.
  \<^item> \<open>LRU_Cache\<close> (\<^verbatim>\<open>LRUCache.cpp\<close>): the doubly linked list and the index over an explicit store refine
    a list of entries, most recent first; a lookup never returns stale contents.
  \<^item> \<open>Fcgi\<close> (\<^verbatim>\<open>FcgiConnection.cpp\<close>, \<^verbatim>\<open>fast_cgi.h\<close>): records on the wire and the loop that reads the answer.
  \<^item> \<open>Http_Server\<close> (the rest of \<^verbatim>\<open>HttpServer.cpp\<close>): error page, file responses, PHP responses and
    \<open>onMessage\<close>.  The replies are read back by a reader of the message format, here by \<open>read_message\<close>.
  \<^item> \<open>Timer_Heap\<close> (\<^verbatim>\<open>TimerHeap.cpp\<close>): the binary heap of timers over a store; heap order, the index
    kept in each timer, and \<open>tick\<close>, which calls a timer back before it takes it out, runs exactly the timers that are due, in
    order of expiry, when the callbacks leave the heap alone.
  \<^item> \<open>Epoll_Loop\<close> (\<^verbatim>\<open>dispatcher.cpp\<close>, \<^verbatim>\<open>epoller.cpp\<close>, \<^verbatim>\<open>eventloop.cpp\<close>, \<^verbatim>\<open>eventloopThread.cpp\<close>,
    \<^verbatim>\<open>eventloopThreadPool.cpp\<close>): the wrapper mirrors the registrations of the kernel, calls from the
    loop's own thread run at once, and no deferred call is lost whatever the interleaving of its submitters, until the loop stops.
  \<^item> \<open>Http_Connection\<close> (\<^verbatim>\<open>TcpConnection.cpp\<close>, \<^verbatim>\<open>HttpConnection.cpp\<close>, the callbacks of
    \<^verbatim>\<open>HttpServer.cpp\<close>): accepting, reading, writing, keeping alive and closing, over the models above.
  \<^item> \<open>Http_Session\<close>: no code of its own; what a client sees over one connection, from the models above:
    the way of a request through \<open>handleRead\<close>, sessions of several requests, and the end of an idle connection.
  \<^item> \<open>Sone_Socket\<close> (\<^verbatim>\<open>InetAddress.cpp\<close>, \<^verbatim>\<open>Socket.cpp\<close>): addresses as the bytes of their union, sockets over a table of descriptors
    with their flags.  \<open>Server_Start\<close> (\<^verbatim>\<open>main.cpp\<close>, the constructors of the server and of a loop, the alarm): \<open>main\<close> ends with a server
    in order or aborts.  \<open>Server_Clients\<close>: no code of its own; the shared tables (connections, epoll, timers, cache) under any
    interleaving of clients that connect and ask.
  \<^item> \<open>Sone_Sync\<close> (\<^verbatim>\<open>mutex.cpp\<close>, \<^verbatim>\<open>Thread.cpp\<close>), \<open>Thread_Pool\<close> (\<^verbatim>\<open>FixedThreadPool.cpp\<close>), \<open>Philosophers\<close>
    (\<^verbatim>\<open>src/cpp/philosopher.cpp\<close>): step relations over the locks, condition variables and
    semaphores; order, bounds, exclusion, absence of deadlock and of lost wake-ups.  \<open>Sone_Threads\<close> (\<^verbatim>\<open>condition.h\<close>,
    \<^verbatim>\<open>Singleton.h\<close>, \<^verbatim>\<open>eventloopThread.cpp\<close>): condition variables, the singleton, and the life of a loop thread from
    \<open>start\<close> to the join, with the uninitialised \<open>_loop\<close> and the race of \<open>exit\<close> with the end of the loop.
  \<^item> \<open>Sone_Log\<close> (\<^verbatim>\<open>Log.cpp\<close>): the parser of format patterns, appenders, loggers and the three logs of the
    server.
  \<^item> \<open>M_Vector\<close> (\<^verbatim>\<open>src/cpp/structure/m_vector.h\<close>), \<open>Sta_Algorithms\<close>, \<open>Sta_Lists\<close>, \<open>Sta_Trees\<close>
    (\<^verbatim>\<open>src/sta\<close>): a growing vector with sorts and searches, merge sort and longest
    common subsequences, linked lists over a store of nodes, a binary search tree, an AVL tree and a
    graph matrix.

  \<^item> \<open>Prac_LRU\<close> (\<^verbatim>\<open>src/prac/LRUCache.h\<close>): a cache of integers as a doubly linked list between
    sentinels, one assignment of a pointer at a time; it refines a list of entries, behind the
    interface \<open>lru_laws\<close>.  \<open>Cpp_Util\<close> (\<^verbatim>\<open>src/cpp/util.cpp\<close>): prime numbers on 32-bit integers, and a connection with a
    time limit over the results of its system calls.
  \<^item> \<open>Chat_Room\<close> (\<^verbatim>\<open>src/chatroom\<close>): packets as bytes, the server and the client of a chat over named pipes; the
    server survives no login, so it never passes a message on, and the reader of a client returns exactly on whole packets.  \<open>Poll_Chat\<close> (\<^verbatim>\<open>src/cpp/chatServer.cpp\<close>): a chat server over \<open>poll\<close> whose tables stay in
    step as long as no client hangs up.
  \<^item> \<open>Base64\<close> (\<^verbatim>\<open>src/test/test.cpp\<close>) and \<open>Kmp\<close> (\<^verbatim>\<open>src/cpp/test.cpp\<close>): an encoder on 8-bit words against a decoder of the
    standard, and a string search with its table of borders.  \<open>C_Exercises\<close> (\<^verbatim>\<open>src/io/chmod.c\<close>,
    \<^verbatim>\<open>src/common.c\<close>, \<^verbatim>\<open>src/pthread/proc_cons.c\<close>, \<^verbatim>\<open>src/pthread/main.c\<close>): permission bits, loops around \<open>read\<close> and
    \<open>write\<close>, a producer and a consumer, a counted object.  \<open>C_Programs\<close> (\<^verbatim>\<open>src/io/deepDir.c\<close>,
    \<^verbatim>\<open>src/signal/sync_proc.c\<close>, \<^verbatim>\<open>src/signal/sleep.c\<close>): the listing of a directory tree, a parent that waits for the signal of its
    child, and a sleep made of an alarm.  \<open>Cpp_Tools\<close> (\<^verbatim>\<open>src/cpp/timeWheel.h\<close>, \<^verbatim>\<open>src/tools\<close>, \<^verbatim>\<open>src/cpp/primer.cpp\<close>): a timing wheel, a
    log tool, and a vector that copies share.

  This theory joins the parts of the server: \<open>started_server_serves_clients\<close> goes from \<open>main\<close> to the replies of any
  number of interleaved clients, \<open>client_gets_file\<close> follows a request from \<open>accept\<close> to the
  last byte of its answer, \<open>keep_alive_session\<close> several requests on one connection,
  \<open>idle_connection_expires\<close> says what the alarm does to it when it stays idle (closed through its loop, or a write to a freed
  timer when the signal reaches the thread of that loop), and \<open>keep_alive_overflow\<close> shows where such a connection leaves its
  buffer.

  \<^bold>\<open>State and calls.\<close>  Objects are records; objects shared by pointers live in stores, maps
  from addresses.  An operation returns its new state or an error; what system calls and the
  libraries return (\<open>read\<close>, \<open>write\<close>, \<open>accept\<close>, \<open>epoll_wait\<close>, the file system, the clock,
  \<open>strftime\<close>, gzip, the PHP process) is an argument; what the calls on descriptors and on the interest list of epoll do to their
  own tables (\<open>epoll_ctl\<close>, \<open>bind\<close>, \<open>listen\<close>, \<open>fcntl\<close>) is written out as their manual pages have it.  Loops are total functions with a measure; where a loop of the
  source may not end (the parse loops, the merge of equal elements, the string search, a lock taken twice) the model is a
  partial function into \<open>option\<close> and termination is a theorem, so no fuel is used.  Buffer lengths are
  bounded by \<open>2 ^ 31\<close> in hypotheses, because the source keeps them in \<open>int\<close>.

  The epoll wrappers of the loop threads are one table, because a descriptor is watched by one loop only.

  \<^bold>\<open>Not modelled.\<close>  \<open>addTask\<close> before \<open>start\<close> and a change of the maximum of a running thread pool.  The files of \<^verbatim>\<open>src/prac\<close> that are copies of the server's (thread pool, threads, locks and log are the same
  code); programs that try out library calls (the chat client of \<^verbatim>\<open>src/cpp\<close>, the other C exercises on system calls), tests, and
  what CMake generated.  Threads of the server
  share the models above one call at a time: an interleaving inside a call is modelled only for the
  loop, the life of a loop thread, the singleton, the thread pool and the philosophers.
\<close>

section \<open>From the first byte to the reply\<close>

text \<open>
  A client that connects and sends a request for a file that exists (any path, parameters and
  headers it can print, no condition on the date) gets that file: the connection is accepted, given
  to the loop of its descriptor and watched for input, the request is parsed, and exactly one message
  is written back, which reads as status 200 with the compressed contents of the file.  The connection
  is closed when the request asked for that or is HTTP/1.0, and kept otherwise.
\<close>

theorem client_gets_file:
  assumes "world_ok w" "accept_loop accepts = Some fd" "0 \<le> fd" "dispatcher_map (cw_ep w) fd = None"
    and "getLoop fd pool = Inr (Some l)" and "clock_ok env"
    and "v \<noteq> http_version.UNKNOW" "nul \<notin> set url" "params_ok ps" "headers_ok hs"
    and "lru_good (env_fs env) (cw_cache w)" "file_in (env_fs env) (WEB_ROOT @ url) bytes"
      "fs_stat (env_fs env) (WEB_ROOT @ url) = Some (s, ns, sz)"
    and "\<not> is_php url" "map_of (rev hs) If_Modified_Since = None"
    and "4096 + 2 * length (print_request GET url ps v hs body) < 2 ^ 31"
      "4096 + 2 * length (file_reply env t v url s bytes) < 2 ^ 31"
  shows "\<exists>c w1 w2 w3 reply rhs.
    AcceptCallback accepts pool w = Some (Inr (Some (l, c), w1)) \<and> connecionEstablished c w1 = Inr w2 \<and>
    ep_kernel (cw_ep w2) fd = Some (EPOLLIN, cw_next w) \<and>
    handleRead env penv junk dataLen t (Some (print_request GET url ps v hs body)) c w2 = Some (Inr w3) \<and>
    cw_sent w3 = (cw_sent w)(fd := cw_sent w fd @ reply) \<and>
    read_message reply = Some (version_text v @ ''200 OK'', rhs, gzipCompress env bytes) \<and>
    header_value rhs Content_Length = to_string (length (gzipCompress env bytes)) \<and>
    header_value rhs Content_Encoding = ''gzip'' \<and>
    (cw_conns w3 c = None \<longleftrightarrow> map_of (rev hs) Connection = Some ''close'' \<or> v = HTTP10)"
proof -
  obtain w1 w2 where w: "AcceptCallback accepts pool w = Some (Inr (Some (l, cw_next w + 1), w1))"
      "connecionEstablished (cw_next w + 1) w1 = Inr w2" "conn_ok (cw_next w + 1) (HttpConnection_new fd (cw_next w)) w2"
      "ep_kernel (cw_ep w2) fd = Some (EPOLLIN, cw_next w)" "cw_sent w2 = cw_sent w" "cw_cache w2 = cw_cache w"
    using accept_established [OF assms(1-5) refl] by blast
  have lru: "lru_good (env_fs env) (cw_cache w2)" using assms(11) w(6) by simp
  obtain w3 where w3: "handleRead env penv junk dataLen t (Some (print_request GET url ps v hs body)) (cw_next w + 1) w2 = Some (Inr w3)"
      "cw_sent w3 = (cw_sent w)(fd := cw_sent w fd @ file_reply env t v url s bytes)"
      "cw_conns w3 (cw_next w + 1) = None \<longleftrightarrow> map_of (rev hs) Connection = Some ''close'' \<or> v = HTTP10"
    using read_file_request [OF w(3) refl assms(7-10) lru assms(12-17), of penv junk] unfolding w(5)
    by (elim exE conjE) (rule that)
  obtain rhs where r: "read_message (file_reply env t v url s bytes) = Some (version_text v @ ''200 OK'', rhs, gzipCompress env bytes)"
      "header_value rhs Content_Length = to_string (length (gzipCompress env bytes))"
      "header_value rhs Content_Encoding = ''gzip''"
    using file_reply_read [OF assms(6,7)] by blast
  show ?thesis
    by (intro exI [of _ "cw_next w + 1"] exI [of _ w1] exI [of _ w2] exI [of _ w3]
        exI [of _ "file_reply env t v url s bytes"] exI [of _ rhs] conjI) (fact w(1,2,4) w3 r)+
qed

text \<open>A server that has just started, with two loops.\<close>

definition fresh_w :: conn_world where
  "fresh_w = \<lparr>cw_conns = Map.empty, cw_list = [], cw_ep = epoller_new Map.empty,
     cw_heap = TimerHeap_new 64 Map.empty, cw_locked = False, cw_cache = LRUCache_new 8, cw_sent = (\<lambda>_. []), cw_next = 0\<rparr>"

definition fresh_pool :: eventloopThreadPool where
  "fresh_pool = eventloopThreadPool_start (\<lambda>_. None) id (eventloopThreadPool_new 2)"

lemma fresh_w_ok: "world_ok fresh_w" "lru_good fs (cw_cache fresh_w)" "getLoop 5 fresh_pool = Inr (Some 1)"
  using ep_inv_new [of Map.empty] th_inv_new [of 64 Map.empty] getLoop_started [of 2 5 id] lru_good_new [of 8 fs]
  by (simp_all add: world_ok_def fresh_w_def fresh_pool_def TimerHeap_new_def epoller_new_def)

text \<open>A bound on the length of a reply, one header at a time.\<close>

definition header_bytes :: "(string \<times> string) list \<Rightarrow> nat" where
  "header_bytes hs = (\<Sum>(k, v) \<leftarrow> hs. length k + length v + 4)"

lemma header_bytes_assign: "header_bytes (map_assign lt k v m) \<le> header_bytes m + length k + length v + 4"
  by (induction m) (auto simp: header_bytes_def)

lemma header_name_length: "length (ConvertHeaderToString h) \<le> 30"
  by (cases h) simp_all

lemma header_bytes_with_header: "header_bytes (rs_headers (with_header key x r)) \<le> header_bytes (rs_headers r) + length x + 34"
proof (rule find_HEADERS_cases [of key])
  fix h assume "map_find CaseInsensitiveLess key HEADERS = Some (ConvertHeaderToString h, h)"
  then show ?thesis
    using header_bytes_assign [of CaseInsensitiveLess "ConvertHeaderToString h" x "rs_headers r"] header_name_length [of h]
    by (simp add: with_header_def resp_setHeader_def)
qed (simp add: with_header_def resp_setHeader_def)

lemma toString_length:
  "length (fst (toString r)) =
     length (version_text (rs_version r)) + length (state_text (rs_state r)) + header_bytes (rs_headers r) + 2 + length (rs_content r)"
proof -
  have "length (fold (\<lambda>(k, v) res. res @ k @ '': '' @ v @ CRLF) hs res) = length res + header_bytes hs" for hs res
    by (induction hs arbitrary: res) (auto simp: header_bytes_def CRLF_def)
  then show ?thesis by (simp add: toString_def Let_def CRLF_def)
qed

lemma header_bytes_le:
  "header_bytes (rs_headers r) \<le> n - (length x + 34) \<Longrightarrow> length x + 34 \<le> n \<Longrightarrow>
     header_bytes (rs_headers (with_header key x r)) \<le> n"
  using header_bytes_with_header [of key x r] by simp

lemma file_reply_length: "length (file_reply sample_env 0 HTTP11 ''/i.css'' 5 ''hey'') < 4096"
proof -
  let ?b = "page_base sample_env (HttpRequest_new\<lparr>rq_version := HTTP11\<rparr>)"
  let ?r = "file_page ''/i.css'' ''yeh'' (page_dates sample_env 0 (toGMTString (env_localtime sample_env) (Timestamp_at 5 0)) ?b)"
  have tm: "length (toGMTString (env_localtime sample_env) x) = 29" for x
    by (simp add: toGMTString_def sample_env_def sample_tm_def gmt_text_def wday_name_def mon_name_def to_string.simps
        numeral_2_eq_2)
  have ty: "extension_of ''/i.css'' = Some ''css''" "content_type ''css'' = ''text/css''"
    by (simp_all add: is_alpha_def is_upper_def is_lower_def content_type_def CaseInsensitiveEqual_def
        ci_key_simps of_char_tolower nul_def)
  have [simp]: "rs_headers (setRespState x r) = rs_headers r" "rs_headers (resp_setContent c r) = rs_headers r"
      "rs_headers (resp_setVersion v r) = rs_headers r" "header_bytes (rs_headers (HttpResponse_new n)) = 0" for x c v r n
    by (simp_all add: setRespState_def resp_setContent_def resp_setVersion_def HttpResponse_new_def header_bytes_def)
  have "header_bytes (rs_headers ?r) \<le> 2000"
    unfolding file_page_def page_dates_def page_base_def ty option.case Let_def
    by (simp add: header_bytes_le tm now_text_def SERVER_VERSION_def HTTP_CACHE_MAX_AGE_def to_string.simps)
  moreover have "length (version_text (rs_version ?r)) \<le> 9" by (simp add: version_text_def)
  moreover have "length (state_text (rs_state ?r)) \<le> 40" by (cases "rs_state ?r") (simp_all add: CRLF_def)
  moreover have "rs_content ?r = ''yeh''"
    by (simp add: file_page_def ty Let_def setRespState_def resp_setContent_def)
  ultimately show ?thesis by (simp add: file_reply_def toString_length)
qed

theorem client_gets_file_witness:
  "\<exists>c w1 w2 w3 reply rhs.
    AcceptCallback [(- 1, True), (5, False)] fresh_pool fresh_w = Some (Inr (Some (1, c), w1)) \<and>
    connecionEstablished c w1 = Inr w2 \<and>
    handleRead sample_env php_sample (\<lambda>_. nul) dataLen 0
      (Some (print_request GET ''/i.css'' [] HTTP11 [(Host, ''h''), (Connection, ''close'')] [])) c w2 = Some (Inr w3) \<and>
    cw_sent w3 5 = reply \<and> read_message reply = Some (''HTTP/1.1 200 OK'', rhs, ''yeh'') \<and> cw_conns w3 c = None"
proof -
  let ?hs = "[(Host, ''h''), (Connection, ''close'')]"
  have h: "4096 + 2 * length (print_request GET ''/i.css'' [] HTTP11 ?hs []) < 2 ^ 31"
    by (simp add: print_request_def print_request_line_def print_target_def
        print_params_def url_encode_def header_fields_def print_fields_def ConvertMethodToString_def CRLF_def)
  have p: "accept_loop [(- 1, True), (5, False)] = Some 5" "dispatcher_map (cw_ep fresh_w) 5 = None" "nul \<notin> set ''/i.css''"
      "params_ok []" "headers_ok ?hs" "\<not> is_php ''/i.css''" "map_of (rev ?hs) If_Modified_Since = None"
    by (simp_all add: fresh_w_def epoller_new_def nul_def params_ok_def headers_ok_def is_php_def)
  have v: "HTTP11 \<noteq> http_version.UNKNOW" "(0::int) \<le> 5" by simp_all
  have l: "4096 + 2 * length (file_reply sample_env 0 HTTP11 ''/i.css'' 5 ''hey'') < 2 ^ 31"
    using file_reply_length by simp
  have "version_text HTTP11 @ ''200 OK'' = ''HTTP/1.1 200 OK''" "rev ''hey'' = ''yeh''" "cw_sent fresh_w 5 = []"
      "map_of (rev ?hs) Connection = Some ''close''"
    by (simp_all add: version_text_def fresh_w_def)
  note eq = this
  from client_gets_file [OF fresh_w_ok(1) p(1) v(2) p(2) fresh_w_ok(3) sample_env_simps(1) v(1) p(3-5) fresh_w_ok(2)
      sample_env_simps(5,6) p(6,7) h l, of php_sample "\<lambda>_. nul"]
  obtain c w1 w2 w3 reply rhs where
    "AcceptCallback [(- 1, True), (5, False)] fresh_pool fresh_w = Some (Inr (Some (1, c), w1))"
    "connecionEstablished c w1 = Inr w2"
    "handleRead sample_env php_sample (\<lambda>_. nul) dataLen 0
      (Some (print_request GET ''/i.css'' [] HTTP11 ?hs [])) c w2 = Some (Inr w3)"
    "cw_sent w3 = (cw_sent fresh_w)(5 := cw_sent fresh_w 5 @ reply)"
    "read_message reply = Some (''HTTP/1.1 200 OK'', rhs, ''yeh'')" "cw_conns w3 c = None"
    unfolding sample_env_simps(2) eq by blast
  then show ?thesis using eq(3) by (intro exI conjI) (assumption | simp)+
qed

section \<open>Sessions\<close>

text \<open>
  C2. A client that keeps its connection open and asks for files one after the other (no condition on
  dates, no request to close), with at most 4096 bytes of requests in all, gets the replies to all of
  them, in order and nothing else, and each reads as status 200 with the compressed contents of its file;
  the connection is still open after the last.  The timer of the connection is
  created with the first reply and put off by every later request.
\<close>

theorem keep_alive_session:
  assumes "world_ok w" "th_nums (cw_heap w) = 0" "1 < length (th_vec (cw_heap w))"
    and "accept_loop accepts = Some fd" "0 \<le> fd" "dispatcher_map (cw_ep w) fd = None" "getLoop fd pool = Inr (Some l)"
    and "lru_good (env_fs env) (cw_cache w)" "\<forall>q \<in> set qs. plain_request env q" "total qs \<le> 4096" "clock_ok env"
  shows "\<exists>c w1 w2 w3. AcceptCallback accepts pool w = Some (Inr (Some (l, c), w1)) \<and> connecionEstablished c w1 = Inr w2 \<and>
    serve env penv junk c qs w2 = Some (Inr w3) \<and>
    cw_sent w3 = (cw_sent w)(fd := cw_sent w fd @ concat (map (reply_text env) qs)) \<and>
    cw_conns w3 c \<noteq> None \<and>
    (\<forall>q \<in> set qs. \<exists>hs. read_message (reply_text env q) = Some (''HTTP/1.1 200 OK'', hs, gzipCompress env (fq_bytes q)))"
proof -
  have "\<exists>hs. read_message (reply_text env q) = Some (''HTTP/1.1 200 OK'', hs, gzipCompress env (fq_bytes q))" for q
    using file_reply_read [OF assms(11), of HTTP11] unfolding reply_text_def by (fastforce simp: version_text_def)
  note reads = this
  obtain c k w1 w2 w3 where w: "AcceptCallback accepts pool w = Some (Inr (Some (l, c), w1))" "connecionEstablished c w1 = Inr w2"
      "serve env penv junk c qs w2 = Some (Inr w3)" "served c k w3 (total qs)"
      "cw_sent w3 = (cw_sent w)(fd := cw_sent w fd @ concat (map (reply_text env) qs))"
    using session_served [OF assms(1-10), of penv junk] by blast
  have "cw_conns w3 c \<noteq> None" using served_open [OF w(4)] by simp
  with w(1-3,5) reads show ?thesis by blast
qed

text \<open>
  C3. The buffer of a connection that is kept alive is never reset, so that its free space shrinks with every
  request.  After a session as above, the first input that takes the bytes received on the
  connection past 4096 (and is itself no longer than the buffer) ends in a write behind the end of the
  buffer, whatever the input is: the compaction of the buffer computes its new end from the start it has
  just set to zero.
\<close>

theorem keep_alive_overflow:
  assumes "world_ok w" "th_nums (cw_heap w) = 0" "1 < length (th_vec (cw_heap w))"
    and "accept_loop accepts = Some fd" "0 \<le> fd" "dispatcher_map (cw_ep w) fd = None" "getLoop fd pool = Inr (Some l)"
    and "lru_good (env_fs env) (cw_cache w)" "\<forall>q \<in> set qs. plain_request env q" "total qs \<le> 4096"
    and "4096 < total qs + length xs" "length xs \<le> 4096"
  shows "\<exists>c w1 w2 w3. AcceptCallback accepts pool w = Some (Inr (Some (l, c), w1)) \<and> connecionEstablished c w1 = Inr w2 \<and>
    serve env penv junk c qs w2 = Some (Inr w3) \<and>
    handleRead env penv junk wr t (Some xs) c w3 = Some (Inl Out_of_bounds)"
  using session_served [OF assms(1-10), of penv junk] read_overflows [OF _ assms(11,12)] by blast


text \<open>The same server and file as above, and a request that keeps the connection.\<close>

definition keep_request :: file_request where
  "keep_request = \<lparr>fq_url = ''/i.css'', fq_params = [], fq_headers = [(Host, ''h'')], fq_body = [],
     fq_bytes = ''hey'', fq_mtime = 5, fq_time = 0\<rparr>"

lemma fresh_w_heap: "th_nums (cw_heap fresh_w) = 0" "1 < length (th_vec (cw_heap fresh_w))"
  by (simp_all add: fresh_w_def TimerHeap_new_def)

lemma fresh_accept: "accept_loop [(5, False)] = Some 5" "(0::int) \<le> 5" "dispatcher_map (cw_ep fresh_w) 5 = None"
  by (simp_all add: fresh_w_def epoller_new_def)

lemma keep_request_plain: "plain_request sample_env keep_request"
  using file_reply_length sample_env_simps(5,6)
  by (simp add: plain_request_def keep_request_def reply_text_def nul_def params_ok_def headers_ok_def is_php_def)

lemma keep_request_length: "0 < length (request_text keep_request)" "length (request_text keep_request) \<le> 100"
  by (simp_all add: request_text_def keep_request_def print_request_def print_request_line_def print_target_def
      print_params_def url_encode_def header_fields_def print_fields_def ConvertMethodToString_def CRLF_def)

theorem keep_alive_session_witness:
  "\<exists>c w1 w2 w3. AcceptCallback [(5, False)] fresh_pool fresh_w = Some (Inr (Some (1, c), w1)) \<and>
    connecionEstablished c w1 = Inr w2 \<and>
    serve sample_env php_sample (\<lambda>_. nul) c [keep_request, keep_request] w2 = Some (Inr w3) \<and>
    cw_sent w3 5 = reply_text sample_env keep_request @ reply_text sample_env keep_request \<and>
    cw_conns w3 c \<noteq> None \<and>
    (\<exists>hs. read_message (reply_text sample_env keep_request) = Some (''HTTP/1.1 200 OK'', hs, ''yeh''))"
proof -
  have q: "\<forall>q \<in> set [keep_request, keep_request]. plain_request sample_env q" "total [keep_request, keep_request] \<le> 4096"
    using keep_request_plain keep_request_length by (simp_all add: total_def)
  have eq: "gzipCompress sample_env (fq_bytes keep_request) = ''yeh''" "cw_sent fresh_w 5 = []"
    by (simp_all add: keep_request_def sample_env_simps(2) fresh_w_def)
  from keep_alive_session [OF fresh_w_ok(1) fresh_w_heap fresh_accept fresh_w_ok(3,2) q sample_env_simps(1),
      of php_sample "\<lambda>_. nul"]
  obtain c w1 w2 w3 where w: "AcceptCallback [(5, False)] fresh_pool fresh_w = Some (Inr (Some (1, c), w1))"
    "connecionEstablished c w1 = Inr w2"
    "serve sample_env php_sample (\<lambda>_. nul) c [keep_request, keep_request] w2 = Some (Inr w3)"
    "cw_sent w3 = (cw_sent fresh_w)(5 := cw_sent fresh_w 5 @ concat (map (reply_text sample_env) [keep_request, keep_request]))"
    "cw_conns w3 c \<noteq> None"
    "\<exists>hs. read_message (reply_text sample_env keep_request) = Some (''HTTP/1.1 200 OK'', hs, ''yeh'')"
    unfolding eq(1) [symmetric] by auto
  have "cw_sent w3 5 = reply_text sample_env keep_request @ reply_text sample_env keep_request"
    using w(4) eq(2) by simp
  with w show ?thesis by blast
qed

theorem keep_alive_overflow_witness:
  "\<exists>c w1 w2 w3. AcceptCallback [(5, False)] fresh_pool fresh_w = Some (Inr (Some (1, c), w1)) \<and>
    connecionEstablished c w1 = Inr w2 \<and>
    serve sample_env php_sample (\<lambda>_. nul) c [keep_request] w2 = Some (Inr w3) \<and>
    handleRead sample_env php_sample (\<lambda>_. nul) dataLen 0 (Some (replicate 4096 (CHR ''x''))) c w3 = Some (Inl Out_of_bounds)"
proof -
  have q: "\<forall>q \<in> set [keep_request]. plain_request sample_env q" "total [keep_request] \<le> 4096"
      "4096 < total [keep_request] + length (replicate 4096 (CHR ''x''))" "length (replicate 4096 (CHR ''x'')) \<le> 4096"
    using keep_request_plain keep_request_length by (simp_all add: total_def)
  show ?thesis
    by (rule keep_alive_overflow [OF fresh_w_ok(1) fresh_w_heap fresh_accept fresh_w_ok(3,2) q])
qed


section \<open>From the start of the program to many clients\<close>

text \<open>
  C1. The whole server: when the kernel lets \<open>main\<close> start it, then whatever the order in which clients
  connect and ask for files, and whichever of them ask to be closed, every client gets the reply to its own
  request and nothing else, and each reply reads as status 200 with the compressed contents of its file.  A
  descriptor that was closed serves the next client it is given to.  At most 64 connections may be kept open: the
  heap has room for that many timers.
\<close>

theorem started_server_serves_clients:
  assumes "loops_good k" "length (pton_bytes 4 (se_pton k AF_INET ''172.17.0.16'')) = 4"
    and "0 \<le> se_listen_fd k" "se_bindable k (server_address k)" "se_free k"
    and "schedule env 64 (\<lambda>fd. if fd \<in> snd ` set (se_loops k) then In_use else Free) es" "clock_ok env"
  shows "\<exists>srv n' w'. main_start k n = Inr (srv, n') \<and>
    serve_events env penv junk (hs_threadpool srv) es (\<lambda>_. 0) (hs_world srv) = Some (Inr w') \<and>
    (\<forall>fd. cw_sent w' fd = replies env fd es) \<and>
    (\<forall>fd q. Asks fd q \<in> set es \<longrightarrow>
       (\<exists>hs. read_message (reply_text env q) = Some (''HTTP/1.1 200 OK'', hs, gzipCompress env (fq_bytes q))))"
proof -
  obtain srv n' where s: "main_start k n = Inr (srv, n')" "server_up k srv"
    using main_start_ok [OF assms(1-5), of n] by blast
  let ?st = "\<lambda>fd. if fd \<in> snd ` set (se_loops k) then In_use else Free"
  have "clients_inv env 64 ?st (\<lambda>_. 0) (hs_world srv)"
    using s(2) lru_good_new [of LRUCACHE_CAPCITY "env_fs env"] by (auto simp: clients_inv_def server_up_def world_ok_def LRUCACHE_CAPCITY_def)
  moreover have "\<forall>fd \<ge> 0. \<exists>l. getLoop fd (hs_threadpool srv) = Inr (Some l)"
    using s(2) getLoop_started [of THREAD_NUMS] by (auto simp: server_up_def THREAD_NUMS_def)
  ultimately obtain w' where w': "serve_events env penv junk (hs_threadpool srv) es (\<lambda>_. 0) (hs_world srv) = Some (Inr w')"
      "cw_sent w' = (\<lambda>fd. cw_sent (hs_world srv) fd @ replies env fd es)"
    using serve_events_ok [OF _ assms(6)] by blast
  have "cw_sent (hs_world srv) = (\<lambda>_. [])" using s(2) by (simp add: server_up_def)
  moreover have "\<exists>hs. read_message (reply_text env q) = Some (''HTTP/1.1 200 OK'', hs, gzipCompress env (fq_bytes q))" for q
    using file_reply_read [OF assms(7), of HTTP11] unfolding reply_text_def by (fastforce simp: version_text_def)
  ultimately show ?thesis using s(1) w' by auto
qed

definition close_request :: file_request where
  "close_request = keep_request\<lparr>fq_headers := [(Host, ''h''), (Connection, ''close'')]\<rparr>"

definition sample_schedule :: "client_event list" where
  "sample_schedule = [Connects 20, Connects 21, Asks 21 close_request, Connects 21, Asks 20 keep_request, Asks 21 close_request]"

lemma sample_requests:
  "file_request_ok sample_env keep_request" "file_request_ok sample_env close_request" "closes close_request" "\<not> closes keep_request"
  "reply_text sample_env close_request = reply_text sample_env keep_request"
proof -
  have "length (request_text close_request) \<le> 200"
    by (simp add: request_text_def close_request_def keep_request_def print_request_def print_request_line_def print_target_def
      print_params_def url_encode_def header_fields_def print_fields_def ConvertMethodToString_def CRLF_def)
  moreover show r: "reply_text sample_env close_request = reply_text sample_env keep_request"
    by (simp add: reply_text_def close_request_def)
  moreover have "length (reply_text sample_env keep_request) < 4096"
    using file_reply_length by (simp add: reply_text_def keep_request_def)
  ultimately show "file_request_ok sample_env keep_request" "file_request_ok sample_env close_request"
    using keep_request_length sample_env_simps(5,6)
    by (simp_all add: file_request_ok_def) (simp_all add: close_request_def keep_request_def nul_def params_ok_def headers_ok_def is_php_def)
  show "closes close_request" "\<not> closes keep_request" by (simp_all add: closes_def close_request_def keep_request_def)
qed

theorem started_server_serves_clients_witness:
  "\<exists>srv n' w'. main_start sample_start no_sockets = Inr (srv, n') \<and>
    serve_events sample_env php_sample (\<lambda>_. nul) (hs_threadpool srv) sample_schedule (\<lambda>_. 0) (hs_world srv) = Some (Inr w') \<and>
    cw_sent w' 20 = reply_text sample_env keep_request \<and>
    cw_sent w' 21 = reply_text sample_env close_request @ reply_text sample_env close_request \<and> cw_sent w' 22 = [] \<and>
    (\<exists>hs. read_message (reply_text sample_env keep_request) = Some (''HTTP/1.1 200 OK'', hs, ''yeh''))"
proof -
  have "schedule sample_env 64 (\<lambda>fd. if fd \<in> snd ` set (se_loops sample_start) then In_use else Free) sample_schedule"
    using sample_requests by (simp add: sample_schedule_def sample_start_def)
  from started_server_serves_clients [OF sample_start_good this sample_env_simps(1), of no_sockets php_sample "\<lambda>_. nul"]
  obtain srv n' w' where w: "main_start sample_start no_sockets = Inr (srv, n')"
      "serve_events sample_env php_sample (\<lambda>_. nul) (hs_threadpool srv) sample_schedule (\<lambda>_. 0) (hs_world srv) = Some (Inr w')"
      "\<forall>fd. cw_sent w' fd = replies sample_env fd sample_schedule"
      "\<forall>fd q. Asks fd q \<in> set sample_schedule \<longrightarrow>
         (\<exists>hs. read_message (reply_text sample_env q) = Some (''HTTP/1.1 200 OK'', hs, gzipCompress sample_env (fq_bytes q)))"
    by blast
  have "Asks 20 keep_request \<in> set sample_schedule" by (simp add: sample_schedule_def)
  moreover have "gzipCompress sample_env (fq_bytes keep_request) = ''yeh''" by (simp add: keep_request_def sample_env_simps(2))
  ultimately have "\<exists>hs. read_message (reply_text sample_env keep_request) = Some (''HTTP/1.1 200 OK'', hs, ''yeh'')"
    using w(4) by metis
  moreover have "cw_sent w' 20 = reply_text sample_env keep_request" "cw_sent w' 22 = []"
      "cw_sent w' 21 = reply_text sample_env close_request @ reply_text sample_env close_request"
    using w(3) by (simp_all add: sample_schedule_def)
  ultimately show ?thesis using w(1,2) by blast
qed

end
